(* ===== verification/Prelude.thy ===== *)
theory Prelude
  imports Main "HOL-Library.Word"
begin

text \<open>
  Shared vocabulary of the development: the machine types of the C++ sources, the ways an
  operation of the library can fail, the result type that carries a failure, bounds-checked
  access to spans, and the generic lemmas on lists, bits and words that the components share.

  Sizes and bit counts that the code keeps in \<open>uint32_t\<close> or \<open>size_t\<close> are natural
  numbers; wherever an operation of the code can wrap around at those sizes the wrap is written
  out with \<open>wrap32\<close> or \<open>wrap64\<close>. Data words (bytes, tags, field elements) are
  genuine machine words.
\<close>

unbundle bit_operations_syntax

type_synonym byte = "8 word"
type_synonym u32 = "32 word"
type_synonym u64 = "64 word"

text \<open>A field element of the batched plaintext space is a 64-bit word in the code.\<close>

type_synonym felt = "64 word"

named_theorems result_simps \<open>unfolding of the result monad\<close>
named_theorems bit_simps \<open>bitwise content of the encoding operations\<close>

subsection \<open>Failures and results\<close>

text \<open>
  The exceptions that the sources throw, by their C++ class and message, and the ways an
  operation can leave the language: a failed \<open>gsl::span\<close> bounds check (which terminates the
  program), an access outside a raw buffer or a standard container, a division by zero, and a
  shift by the width of the type or more.
\<close>

datatype exn =
    Invalid_argument string
  | Logic_error string
  | Runtime_error string
  | Out_of_range
  | Span_bounds
  | Bad_access
  | Div_by_zero
  | Undefined

type_synonym 'a res = "exn + 'a"

fun bind_res :: "'e + 'a \<Rightarrow> ('a \<Rightarrow> 'e + 'b) \<Rightarrow> 'e + 'b" where
  "bind_res (Inl e) f = Inl e"
| "bind_res (Inr x) f = f x"

lemma bind_res_eq_Inr [result_simps]:
  "bind_res m f = Inr y \<longleftrightarrow> (\<exists>x. m = Inr x \<and> f x = Inr y)"
  by (cases m) auto

lemma bind_res_eq_Inl [result_simps]:
  "bind_res m f = Inl e \<longleftrightarrow> m = Inl e \<or> (\<exists>x. m = Inr x \<and> f x = Inl e)"
  by (cases m) auto

lemma bind_res_cong [fundef_cong]:
  "m = m' \<Longrightarrow> (\<And>x. m' = Inr x \<Longrightarrow> f x = f' x) \<Longrightarrow> bind_res m f = bind_res m' f'"
  by (cases m') auto

fun map_res :: "('a \<Rightarrow> 'e + 'b) \<Rightarrow> 'a list \<Rightarrow> 'e + 'b list" where
  "map_res f [] = Inr []"
| "map_res f (x # xs) =
     bind_res (f x) (\<lambda>y. bind_res (map_res f xs) (\<lambda>ys. Inr (y # ys)))"

lemma map_res_Inr_length: "map_res f xs = Inr ys \<Longrightarrow> length ys = length xs"
  by (induction xs arbitrary: ys) (auto simp: result_simps)

lemma map_res_Inr_nth: "map_res f xs = Inr ys \<Longrightarrow> i < length xs \<Longrightarrow> f (xs ! i) = Inr (ys ! i)"
  by (induction xs arbitrary: ys i) (auto simp: result_simps nth_Cons split: nat.splits)

lemma map_res_total:
  "(\<And>x. x \<in> set xs \<Longrightarrow> \<exists>y. f x = Inr y) \<Longrightarrow> \<exists>ys. map_res f xs = Inr ys"
  by (induction xs) (force simp: result_simps)+

fun fold_res :: "('a \<Rightarrow> 's \<Rightarrow> 'e + 's) \<Rightarrow> 'a list \<Rightarrow> 's \<Rightarrow> 'e + 's" where
  "fold_res f [] s = Inr s"
| "fold_res f (x # xs) s = bind_res (f x s) (fold_res f xs)"

lemma fold_res_append:
  "fold_res f (xs @ ys) s = bind_res (fold_res f xs s) (fold_res f ys)"
proof (induction xs arbitrary: s)
  case Nil
  then show ?case by simp
next
  case (Cons x xs)
  then show ?case by (cases "f x s") auto
qed

text \<open>An invariant that every step keeps, and that makes every step succeed, survives the fold.\<close>

lemma fold_res_invariant:
  assumes "P s"
    and "\<And>x t. x \<in> set xs \<Longrightarrow> P t \<Longrightarrow> \<exists>t'. f x t = Inr t' \<and> P t'"
  shows "\<exists>t. fold_res f xs s = Inr t \<and> P t"
  using assms
proof (induction xs arbitrary: s)
  case Nil
  then show ?case by simp
next
  case (Cons x xs)
  obtain t where t: "f x s = Inr t" "P t" using Cons.prems by force
  have "\<exists>u. fold_res f xs t = Inr u \<and> P u"
    using Cons.prems(2) by (intro Cons.IH t(2)) auto
  with t show ?case by simp
qed

lemma fold_res_preserves:
  assumes "fold_res f xs s = Inr t" and "P s"
    and "\<And>x u v. x \<in> set xs \<Longrightarrow> P u \<Longrightarrow> f x u = Inr v \<Longrightarrow> P v"
  shows "P t"
  using assms
proof (induction xs arbitrary: s)
  case Nil
  then show ?case by simp
next
  case (Cons x xs)
  then obtain u where u: "f x s = Inr u" "fold_res f xs u = Inr t"
    by (auto simp: result_simps)
  have "P u" using Cons.prems(2,3) u(1) by auto
  then show ?case using Cons.prems(3) u(2) by (intro Cons.IH) auto
qed

subsection \<open>Fixed-width unsigned arithmetic\<close>

definition wrap32 :: "nat \<Rightarrow> nat" where
  "wrap32 n = n mod 2 ^ 32"

definition wrap64 :: "nat \<Rightarrow> nat" where
  "wrap64 n = n mod 2 ^ 64"

definition sub64 :: "nat \<Rightarrow> nat \<Rightarrow> nat" where
  "sub64 a b = (a + 2 ^ 64 - b) mod 2 ^ 64"

definition sub32 :: "nat \<Rightarrow> nat \<Rightarrow> nat" where
  "sub32 a b = (a + 2 ^ 32 - b) mod 2 ^ 32"

lemma wrap32_small [simp]: "n < 2 ^ 32 \<Longrightarrow> wrap32 n = n"
  by (simp add: wrap32_def)

lemma wrap64_small [simp]: "n < 2 ^ 64 \<Longrightarrow> wrap64 n = n"
  by (simp add: wrap64_def)

lemma sub32_ge [simp]:
  assumes "b \<le> a" and "a < 2 ^ 32"
  shows "sub32 a b = a - b"
proof -
  have "a + 2 ^ 32 - b = (a - b) + 2 ^ 32" by (rule add_diff_assoc2 [OF assms(1), symmetric])
  moreover have "a - b < 2 ^ 32" using assms(2) by (rule less_imp_diff_less)
  ultimately show ?thesis unfolding sub32_def by (simp only: mod_add_self2 mod_less)
qed

lemma sub32_lt: "a < b \<Longrightarrow> b \<le> 2 ^ 32 \<Longrightarrow> sub32 a b = a + 2 ^ 32 - b"
  by (simp add: sub32_def)

subsection \<open>Spans\<close>

text \<open>
  \<open>gsl::span\<close> checks every index and every \<open>subspan\<close> offset and terminates when the
  check fails; a raw copy has no check, and one that leaves its buffers is undefined.
\<close>

definition span_get :: "'a list \<Rightarrow> nat \<Rightarrow> 'a res" where
  "span_get xs i = (if i < length xs then Inr (xs ! i) else Inl Span_bounds)"

definition span_set :: "'a list \<Rightarrow> nat \<Rightarrow> 'a \<Rightarrow> 'a list res" where
  "span_set xs i x = (if i < length xs then Inr (xs[i := x]) else Inl Span_bounds)"

definition raw_copy :: "'a list \<Rightarrow> nat \<Rightarrow> nat \<Rightarrow> 'a list \<Rightarrow> 'a list res" where
  "raw_copy src from n dest =
     (if n \<le> length dest \<and> from + n \<le> length src
      then Inr (take n (drop from src) @ drop n dest) else Inl Bad_access)"

text \<open>\<open>operator[]\<close> of the standard containers has no check: an access outside is undefined.\<close>

definition vec_get :: "'a list \<Rightarrow> nat \<Rightarrow> 'a res" where
  "vec_get xs i = (if i < length xs then Inr (xs ! i) else Inl Bad_access)"

definition vec_set :: "'a list \<Rightarrow> nat \<Rightarrow> 'a \<Rightarrow> 'a list res" where
  "vec_set xs i x = (if i < length xs then Inr (xs[i := x]) else Inl Bad_access)"

lemma vec_get_ok [simp]: "i < length xs \<Longrightarrow> vec_get xs i = Inr (xs ! i)"
  by (simp add: vec_get_def)

lemma vec_set_ok [simp]: "i < length xs \<Longrightarrow> vec_set xs i x = Inr (xs[i := x])"
  by (simp add: vec_set_def)

lemma span_get_ok [simp]: "i < length xs \<Longrightarrow> span_get xs i = Inr (xs ! i)"
  by (simp add: span_get_def)

lemma span_set_ok [simp]: "i < length xs \<Longrightarrow> span_set xs i x = Inr (xs[i := x])"
  by (simp add: span_set_def)

lemma raw_copy_ok [simp]:
  "n \<le> length dest \<Longrightarrow> from + n \<le> length src \<Longrightarrow>
   raw_copy src from n dest = Inr (take n (drop from src) @ drop n dest)"
  by (simp add: raw_copy_def)

subsection \<open>Bits of words and of byte strings\<close>

lemma exp_minus_1_eq_mask: "2 ^ n - 1 = (mask n :: 'a::len word)"
  by (simp add: mask_eq_exp_minus_1)

lemma bit_low_mask_byte [bit_simps]:
  "n \<le> 8 \<Longrightarrow> bit (ucast (2 ^ n - 1 :: u32) :: byte) i \<longleftrightarrow> i < n"
  by (auto simp: exp_minus_1_eq_mask bit_ucast_iff bit_mask_iff simp del: mask_eq_exp_minus_1)

text \<open>Bit \<open>k\<close> of a byte string, least significant bit of the first byte first.\<close>

definition bit_at :: "byte list \<Rightarrow> nat \<Rightarrow> bool" where
  "bit_at bs k = bit (bs ! (k div 8)) (k mod 8)"

lemma bit_at_split: "j < 8 \<Longrightarrow> bit_at bs (8 * i + j) = bit (bs ! i) j"
  by (simp add: bit_at_def)

lemma bit_at_update:
  "i < length bs \<Longrightarrow>
   bit_at (bs[i := b]) k = (if k div 8 = i then bit b (k mod 8) else bit_at bs k)"
  by (auto simp: bit_at_def)

lemma bit_at_append:
  "bit_at (xs @ ys) k = (if k div 8 < length xs then bit_at xs k else bit_at ys (k - 8 * length xs))"
proof (cases "k div 8 < length xs")
  case True
  then show ?thesis by (simp add: bit_at_def nth_append)
next
  case False
  then obtain j where "k = 8 * length xs + j"
    using le_Suc_ex [of "8 * length xs" k] by force
  then show ?thesis using False by (simp add: bit_at_def nth_append)
qed

lemma bit_at_drop: "n \<le> length bs \<Longrightarrow> bit_at (drop n bs) k = bit_at bs (8 * n + k)"
  by (simp add: bit_at_def)

lemma bit_at_take: "k div 8 < n \<Longrightarrow> bit_at (take n bs) k = bit_at bs k"
  by (simp add: bit_at_def)

lemma byte_eqI: "(\<And>i. i < 8 \<Longrightarrow> bit (a :: byte) i = bit b i) \<Longrightarrow> a = b"
  by (rule bit_word_eqI) simp

lemma bytes_eqI:
  assumes "length xs = length ys" and "\<And>k. k < 8 * length ys \<Longrightarrow> bit_at xs k = bit_at ys k"
  shows "xs = ys"
proof (rule nth_equalityI [OF assms(1)], rule byte_eqI)
  fix i j :: nat
  assume "i < length xs" "j < 8"
  then show "bit (xs ! i) j = bit (ys ! i) j"
    using assms(2) [of "8 * i + j"] assms(1) by (simp add: bit_at_split)
qed

subsection \<open>Rows of equal length\<close>

lemma concat_rows:
  "concat (map (\<lambda>l. map (g l) [0..<f]) [0..<L]) = map (\<lambda>k. g (k div f) (k mod f)) [0..<L * f]"
proof (induction L)
  case 0
  then show ?case by simp
next
  case (Suc L)
  have "[0..<Suc L * f] = [0..<L * f] @ [L * f..<L * f + f]"
    by (metis add.commute le_add1 mult_Suc upt_add_eq_append zero_le)
  moreover have "map (\<lambda>k. g (k div f) (k mod f)) [L * f..<L * f + f] = map (g L) [0..<f]"
    by (rule nth_equalityI) (auto simp: div_add1_eq)
  ultimately show ?case using Suc by simp
qed

subsection \<open>Ordered sets\<close>

text \<open>
  A \<open>std::set\<close> of numbers is the strictly increasing list of its elements, in the order in
  which the code iterates over it; \<open>insert\<close> is the library's \<open>insort_insert\<close>.
\<close>

type_synonym oset = "nat list"

definition oset_ok :: "oset \<Rightarrow> bool" where
  "oset_ok xs \<longleftrightarrow> sorted_wrt (<) xs"

lemma oset_ok_iff: "oset_ok xs \<longleftrightarrow> sorted xs \<and> distinct xs"
  by (simp add: oset_ok_def strict_sorted_iff)

lemma oset_ok_insert [simp]: "oset_ok xs \<Longrightarrow> oset_ok (insort_insert x xs)"
  by (simp add: oset_ok_iff sorted_insort_insert distinct_insort_insert)

lemma oset_ok_Nil [simp]: "oset_ok []"
  by (simp add: oset_ok_def)

lemma oset_set_inj: "oset_ok xs \<Longrightarrow> oset_ok ys \<Longrightarrow> set xs = set ys \<Longrightarrow> xs = ys"
  by (simp add: oset_ok_iff sorted_distinct_set_unique)

end
