(* ===== verification/Bits.thy ===== *)
theory Bits
  imports Prelude
begin

text \<open>
  The bit-level half of \<open>common/apsi/util/db_encoding.cpp\<close>: little-endian words, the two
  \<open>copy_with_bit_offset\<close> routines, and the conversion of a bit string into field elements
  and back. The lemmas describe each routine by the bits it leaves in its destination
  (\<open>bit_at\<close>), so the round trip at the end is a statement about single bits.
\<close>

subsection \<open>Little-endian 64-bit words\<close>

text \<open>\<open>read_u64_little_endian\<close>; the array of eight bytes is a list of length 8.\<close>

definition read_u64_little_endian :: "byte list \<Rightarrow> u64" where
  "read_u64_little_endian bytes =
     ucast (bytes ! 0) OR push_bit 8 (ucast (bytes ! 1)) OR push_bit 16 (ucast (bytes ! 2)) OR
     push_bit 24 (ucast (bytes ! 3)) OR push_bit 32 (ucast (bytes ! 4)) OR
     push_bit 40 (ucast (bytes ! 5)) OR push_bit 48 (ucast (bytes ! 6)) OR
     push_bit 56 (ucast (bytes ! 7))"

definition write_u64_little_endian :: "u64 \<Rightarrow> byte list" where
  "write_u64_little_endian num =
     [ucast (num AND 0x00000000000000FF),
      ucast (drop_bit 8 (num AND 0x000000000000FF00)),
      ucast (drop_bit 16 (num AND 0x0000000000FF0000)),
      ucast (drop_bit 24 (num AND 0x00000000FF000000)),
      ucast (drop_bit 32 (num AND 0x000000FF00000000)),
      ucast (drop_bit 40 (num AND 0x0000FF0000000000)),
      ucast (drop_bit 48 (num AND 0x00FF000000000000)),
      ucast (drop_bit 56 (num AND 0xFF00000000000000))]"

lemma length_write_u64 [simp]: "length (write_u64_little_endian w) = 8"
  by (simp add: write_u64_little_endian_def)

lemma bit_byte_high [simp]: "8 \<le> i \<Longrightarrow> \<not> bit (b :: byte) i"
  using bit_imp_le_length [of b i] by auto

text \<open>A byte shifted into slot \<open>k\<close> of a word shows at the bits of that slot only.\<close>

lemma bit_push_slot:
  assumes "i < 64"
  shows "bit (push_bit (8 * k) (ucast (b :: byte)) :: u64) i \<longleftrightarrow> i div 8 = k \<and> bit b (i mod 8)"
proof (cases "8 * k \<le> i")
  case True
  then obtain j where j: "i = 8 * k + j" by (metis le_Suc_ex)
  then show ?thesis using assms by (cases "j < 8") (auto simp: bit_push_bit_iff bit_ucast_iff)
next
  case False
  then show ?thesis by (auto simp: bit_push_bit_iff)
qed

lemma bit_read_u64:
  assumes "i < 64"
  shows "bit (read_u64_little_endian bs) i = bit_at bs i"
proof -
  have "i div 8 < 8" using assms by auto
  then consider "i div 8 = 0" | "i div 8 = 1" | "i div 8 = 2" | "i div 8 = 3"
    | "i div 8 = 4" | "i div 8 = 5" | "i div 8 = 6" | "i div 8 = 7" by linarith
  moreover note slot = bit_push_slot [OF assms]
  ultimately show ?thesis
    using slot [of 0] slot [of 1] slot [of 2] slot [of 3] slot [of 4] slot [of 5] slot [of 6]
      slot [of 7]
    by cases (simp_all add: read_u64_little_endian_def bit_at_def bit_or_iff)
qed

lemma masked_byte:
  "(ucast (drop_bit n (w AND push_bit n 0xFF)) :: byte) = ucast (drop_bit n (w :: u64))"
  if "n \<le> 56"
proof (rule byte_eqI)
  fix i :: nat
  assume i: "i < 8"
  have ff: "(0xFF :: u64) = mask 8" by (simp add: mask_eq_exp_minus_1)
  show "bit (ucast (drop_bit n (w AND push_bit n 0xFF)) :: byte) i =
        bit (ucast (drop_bit n w) :: byte) i"
    unfolding ff using i that
    by (auto simp: bit_ucast_iff bit_drop_bit_eq bit_and_iff bit_push_bit_iff bit_mask_iff)
qed

lemma write_u64_nth:
  assumes "k < 8"
  shows "write_u64_little_endian w ! k = ucast (drop_bit (8 * k) w)"
proof -
  have "k = 0 \<or> k = 1 \<or> k = 2 \<or> k = 3 \<or> k = 4 \<or> k = 5 \<or> k = 6 \<or> k = 7"
    using assms by linarith
  then show ?thesis
    using masked_byte [of 0 w] masked_byte [of 8 w] masked_byte [of 16 w] masked_byte [of 24 w]
      masked_byte [of 32 w] masked_byte [of 40 w] masked_byte [of 48 w] masked_byte [of 56 w]
    by (auto simp: write_u64_little_endian_def)
qed

lemma bit_at_write_u64:
  assumes "i < 64"
  shows "bit_at (write_u64_little_endian w) i = bit w i"
proof -
  have "i div 8 < 8" using assms by auto
  then show ?thesis
    by (simp add: bit_at_def write_u64_nth bit_ucast_iff bit_drop_bit_eq add.commute) linarith
qed

subsection \<open>Copying bits to the start of a buffer\<close>

text \<open>
  The four-argument \<open>copy_with_bit_offset\<close>. A byte that straddles two source bytes is
  assembled from both; the loop over the full bytes and the branches on the remaining bits are
  the code's. \<open>rem_byte\<close> is the update of the last, partial destination byte.
\<close>

definition straddle :: "byte \<Rightarrow> byte \<Rightarrow> nat \<Rightarrow> byte" where
  "straddle a b low_offset =
     (let low = drop_bit low_offset a;
          high = ucast (push_bit (8 - low_offset) (ucast b :: u32))
      in low OR high)"

fun copy_full_bytes :: "byte list \<Rightarrow> nat \<Rightarrow> nat \<Rightarrow> nat \<Rightarrow> nat \<Rightarrow> byte list \<Rightarrow> byte list res" where
  "copy_full_bytes src low_offset word_begin i 0 dest = Inr dest"
| "copy_full_bytes src low_offset word_begin i (Suc n) dest =
     bind_res (span_get src word_begin) (\<lambda>a.
     bind_res (span_get src (word_begin + 1)) (\<lambda>b.
     bind_res (span_set dest i (straddle a b low_offset)) (\<lambda>dest'.
       copy_full_bytes src low_offset (word_begin + 1) (i + 1) n dest')))"

definition rem_byte :: "byte list \<Rightarrow> nat \<Rightarrow> nat \<Rightarrow> nat \<Rightarrow> byte \<Rightarrow> byte res" where
  "rem_byte src word_begin low_offset rem_bits dest_word =
     (if low_offset + rem_bits \<le> 8 then
        bind_res (span_get src word_begin) (\<lambda>w.
          let mask = ucast (push_bit rem_bits 1 - 1 :: u32);
              low = drop_bit low_offset w AND mask;
              high = dest_word AND NOT mask
          in Inr (low OR high))
      else
        bind_res (span_get src word_begin) (\<lambda>w.
        bind_res (span_get src (word_begin + 1)) (\<lambda>w'.
          let low_count = 8 - low_offset;
              low_mask = ucast (push_bit low_count 1 - 1 :: u32);
              low = drop_bit low_offset w AND low_mask;
              mid_count = rem_bits - low_count;
              mid_mask = ucast (push_bit mid_count 1 - 1 :: u32);
              mid = ucast (push_bit low_count (ucast (w' AND mid_mask) :: u32));
              high_mask = ucast (push_bit rem_bits (NOT 0 :: u32));
              high = dest_word AND high_mask
          in Inr (low OR mid OR high))))"

definition copy_with_bit_offset :: "byte list \<Rightarrow> nat \<Rightarrow> nat \<Rightarrow> byte list \<Rightarrow> byte list res" where
  "copy_with_bit_offset src bit_offset bit_count dest =
     (let low_offset = bit_offset mod 8;
          full_byte_count = bit_count div 8;
          word_begin = bit_offset div 8;
          rem_bits = bit_count - full_byte_count * 8
      in bind_res
           (if low_offset \<noteq> 0 then copy_full_bytes src low_offset word_begin 0 full_byte_count dest
            else bind_res (span_get src word_begin) (\<lambda>_. raw_copy src word_begin full_byte_count dest))
           (\<lambda>dest1. if rem_bits \<noteq> 0 then
              bind_res (span_get dest1 full_byte_count) (\<lambda>dest_word.
              bind_res (rem_byte src (word_begin + full_byte_count) low_offset rem_bits dest_word)
                (span_set dest1 full_byte_count))
            else Inr dest1))"

lemma bit_straddle [bit_simps]:
  assumes "lo < 8" "j < 8"
  shows "bit (straddle a b lo) j = (if lo + j < 8 then bit a (lo + j) else bit b (lo + j - 8))"
proof -
  have "(8 - lo \<le> j) = (8 \<le> lo + j)" "j - (8 - lo) = lo + j - 8" using assms by auto
  then show ?thesis using assms
    by (auto simp: straddle_def Let_def bit_or_iff bit_drop_bit_eq bit_ucast_iff bit_push_bit_iff)
qed

lemma bit_at_straddle:
  assumes "0 < lo" "lo < 8" "j < 8"
  shows "bit (straddle (src ! w) (src ! Suc w) lo) j = bit_at src (8 * w + lo + j)"
proof (cases "lo + j < 8")
  case True
  then show ?thesis
    using assms bit_at_split [OF True, of src w] by (simp add: bit_straddle add.assoc)
next
  case False
  then obtain m where m: "lo + j = 8 + m" by (metis le_Suc_ex not_less)
  then have e: "8 * w + lo + j = 8 * Suc w + m" by simp
  have "m < 8" using m assms by linarith
  then show ?thesis
    using assms m False bit_at_split [of m src "Suc w"] by (simp add: bit_straddle e)
qed

lemma copy_full_bytes_ok:
  assumes "0 < lo" "lo < 8" "i + n \<le> length dest" "n = 0 \<or> wb + n < length src"
  shows "\<exists>d. copy_full_bytes src lo wb i n dest = Inr d \<and> length d = length dest \<and>
     (\<forall>k. bit_at d k = (if 8 * i \<le> k \<and> k < 8 * (i + n) then bit_at src (8 * wb + lo + (k - 8 * i))
                        else bit_at dest k))"
  using assms
proof (induction n arbitrary: wb i dest)
  case 0
  then show ?case by auto
next
  case (Suc n)
  let ?b = "straddle (src ! wb) (src ! (wb + 1)) lo"
  let ?d = "dest[i := ?b]"
  have "\<exists>d. copy_full_bytes src lo (wb + 1) (i + 1) n ?d = Inr d \<and> length d = length ?d \<and>
     (\<forall>k. bit_at d k = (if 8 * (i + 1) \<le> k \<and> k < 8 * (i + 1 + n)
        then bit_at src (8 * (wb + 1) + lo + (k - 8 * (i + 1))) else bit_at ?d k))"
    using Suc.prems by (intro Suc.IH) auto
  then obtain d where d: "copy_full_bytes src lo (wb + 1) (i + 1) n ?d = Inr d"
    "length d = length ?d"
    "\<And>k. bit_at d k = (if 8 * (i + 1) \<le> k \<and> k < 8 * (i + 1 + n)
        then bit_at src (8 * (wb + 1) + lo + (k - 8 * (i + 1))) else bit_at ?d k)" by blast
  have "bit_at d k = (if 8 * i \<le> k \<and> k < 8 * (i + Suc n) then bit_at src (8 * wb + lo + (k - 8 * i))
                        else bit_at dest k)" for k
  proof (cases "k div 8 = i")
    case True
    then obtain m where k: "k = 8 * i + m" "m < 8"
      by (metis mult_div_mod_eq mod_less_divisor zero_less_numeral)
    then show ?thesis using True Suc.prems
      by (simp add: d(3) bit_at_update bit_at_straddle)
  next
    case False
    then have "8 * (i + 1) \<le> k \<longleftrightarrow> 8 * i \<le> k" by auto
    moreover have "8 * (wb + 1) + lo + (k - 8 * (i + 1)) = 8 * wb + lo + (k - 8 * i)"
      if "8 * (i + 1) \<le> k" using that by simp
    ultimately show ?thesis using False Suc.prems
      by (simp add: d(3) bit_at_update)
  qed
  with d Suc.prems show ?case by simp
qed

lemma bit_high_mask_byte [bit_simps]:
  "i < 8 \<Longrightarrow> bit (ucast (NOT (mask n) :: u32) :: byte) i \<longleftrightarrow> n \<le> i"
  by (auto simp: bit_ucast_iff bit_not_iff bit_mask_iff)

lemma bit_mid_byte [bit_simps]:
  "j < 8 \<Longrightarrow> bit (ucast (push_bit n (ucast (b :: byte) :: u32)) :: byte) j \<longleftrightarrow> n \<le> j \<and> bit b (j - n)"
  by (auto simp: bit_ucast_iff bit_push_bit_iff)

lemma rem_byte_ok:
  assumes "lo < 8" "0 < r" "r < 8" "8 * wb + lo + r \<le> 8 * length src"
  shows "\<exists>b. rem_byte src wb lo r w = Inr b \<and>
     (\<forall>j<8. bit b j = (if j < r then bit_at src (8 * wb + lo + j) else bit w j))"
proof (cases "lo + r \<le> 8")
  case True
  have "wb < length src" using assms by linarith
  then show ?thesis using True assms bit_at_split [of "lo + _" src wb]
    by (auto simp: rem_byte_def bit_or_iff bit_and_iff bit_not_iff bit_drop_bit_eq bit_simps
          Let_def add.assoc)
next
  case False
  have l: "wb < length src" "Suc wb < length src" using False assms by linarith+
  have hi: "bit (src ! Suc wb) (j + lo - 8) = bit_at src (8 * wb + lo + j)"
    if "j < 8" "8 \<le> lo + j" for j
  proof -
    have "8 * wb + lo + j = 8 * Suc wb + (j + lo - 8)" "j + lo - 8 < 8"
      using that assms by auto
    then show ?thesis by (metis bit_at_split)
  qed
  have lw: "bit (src ! wb) (lo + j) = bit_at src (8 * wb + lo + j)" if "lo + j < 8" for j
    using that bit_at_split [of "lo + j" src wb] by (simp add: add.assoc)
  have c: "8 - (8 - lo) = lo" "j - (8 - lo) = j + lo - 8" for j using assms by auto
  let ?b = "drop_bit lo (src ! wb) AND ucast (push_bit (8 - lo) 1 - 1 :: u32) OR
     ucast (push_bit (8 - lo) (ucast (src ! Suc wb AND ucast (push_bit (r - (8 - lo)) 1 - 1 :: u32)) :: u32)) OR
     w AND ucast (push_bit r (NOT 0 :: u32))"
  have "bit ?b j = (if j < r then bit_at src (8 * wb + lo + j) else bit w j)" if "j < 8" for j
    using that assms False hi [of j] lw [of j]
    by (cases "lo + j < 8") (auto simp: bit_or_iff bit_and_iff bit_drop_bit_eq bit_simps c)
  moreover have "rem_byte src wb lo r w = Inr ?b"
    using False l by (simp add: rem_byte_def Let_def or.assoc)
  ultimately show ?thesis by blast
qed

lemma copy_full_ok:
  assumes "0 < bc" "off + bc \<le> 8 * length src" "bc \<le> 8 * length dest"
  shows "\<exists>d. (if off mod 8 \<noteq> 0 then copy_full_bytes src (off mod 8) (off div 8) 0 (bc div 8) dest
       else bind_res (span_get src (off div 8)) (\<lambda>_. raw_copy src (off div 8) (bc div 8) dest)) = Inr d \<and>
     length d = length dest \<and>
     (\<forall>k. bit_at d k = (if k < 8 * (bc div 8) then bit_at src (off + k) else bit_at dest k))"
proof (cases "off mod 8 = 0")
  case True
  then have o: "off = 8 * (off div 8)" by auto
  have l: "off div 8 < length src" "bc div 8 \<le> length dest" "off div 8 + bc div 8 \<le> length src"
    using assms o by linarith+
  let ?n = "bc div 8"
  let ?d = "take ?n (drop (off div 8) src) @ drop ?n dest"
  have "bit_at ?d k = (if k < 8 * ?n then bit_at src (off + k) else bit_at dest k)" for k
  proof (cases "k < 8 * ?n")
    case True
    then have k: "k div 8 < ?n" "k div 8 < length src - off div 8" using l by auto
    have "bit_at (drop (off div 8) src) k = bit_at src (off + k)"
      using l bit_at_drop [of "off div 8" src k] o by simp
    then show ?thesis using k l True by (simp add: bit_at_append bit_at_take)
  next
    case False
    then have "\<not> k div 8 < ?n" by auto
    moreover have "min (length src - off div 8) ?n = ?n" using l by simp
    ultimately show ?thesis using l False by (simp add: bit_at_append bit_at_drop)
  qed
  with True l show ?thesis by auto
next
  case False
  then have o: "0 < off mod 8" by simp
  have "off = 8 * (off div 8) + off mod 8" "bc = 8 * (bc div 8) + bc mod 8" by simp_all
  then have "off div 8 + bc div 8 < length src" "bc div 8 \<le> length dest"
    using assms o by linarith+
  then show ?thesis
    using copy_full_bytes_ok [of "off mod 8" 0 "bc div 8" dest "off div 8" src] o
    by (simp cong: if_cong)
qed

lemma copy_with_bit_offset_ok:
  assumes "0 < bc" "off + bc \<le> 8 * length src" "bc \<le> 8 * length dest"
  shows "\<exists>d. copy_with_bit_offset src off bc dest = Inr d \<and> length d = length dest \<and>
     (\<forall>k. bit_at d k = (if k < bc then bit_at src (off + k) else bit_at dest k))"
proof -
  let ?f = "bc div 8" and ?r = "bc mod 8"
  have r: "bc - ?f * 8 = ?r" by (metis minus_div_mult_eq_mod)
  obtain d1 where d1: "(if off mod 8 \<noteq> 0 then copy_full_bytes src (off mod 8) (off div 8) 0 ?f dest
       else bind_res (span_get src (off div 8)) (\<lambda>_. raw_copy src (off div 8) ?f dest)) = Inr d1"
    "length d1 = length dest"
    "\<And>k. bit_at d1 k = (if k < 8 * ?f then bit_at src (off + k) else bit_at dest k)"
    using copy_full_ok [OF assms] by blast
  show ?thesis
  proof (cases "?r = 0")
    case True
    then have "bc = 8 * ?f" by auto
    with True d1 show ?thesis by (auto simp: copy_with_bit_offset_def Let_def r)
  next
    case False
    have bc: "bc = 8 * ?f + ?r" by simp
    then have f: "?f < length d1" using assms(3) d1(2) False by linarith
    have "\<exists>b. rem_byte src (off div 8 + ?f) (off mod 8) ?r (d1 ! ?f) = Inr b \<and>
       (\<forall>j<8. bit b j = (if j < ?r then bit_at src (8 * (off div 8 + ?f) + off mod 8 + j)
                       else bit (d1 ! ?f) j))"
      using False assms(2) by (intro rem_byte_ok) auto
    then obtain b where b: "rem_byte src (off div 8 + ?f) (off mod 8) ?r (d1 ! ?f) = Inr b"
      "\<And>j. j < 8 \<Longrightarrow> bit b j = (if j < ?r then bit_at src (off + (8 * ?f + j))
                       else bit (d1 ! ?f) j)"
      by (auto simp: algebra_simps)
    have "bit_at (d1[?f := b]) k = (if k < bc then bit_at src (off + k) else bit_at dest k)" for k
    proof (cases "k div 8 = ?f")
      case True
      then obtain m where k: "k = 8 * ?f + m" "m < 8"
        by (metis mult_div_mod_eq mod_less_divisor zero_less_numeral)
      have "k < bc \<longleftrightarrow> m < ?r" by (rule iffI; use k bc in linarith)
      moreover have "bit (d1 ! ?f) m = bit_at dest k"
        using d1(3) [of k] k by (simp add: bit_at_def)
      ultimately show ?thesis using True f b(2) [OF k(2)] k by (simp add: bit_at_update)
    next
      case False
      then have "k < bc \<longleftrightarrow> k < 8 * ?f" using bc by (intro iffI; linarith)
      then show ?thesis using False f d1(3) by (simp add: bit_at_update)
    qed
    moreover have "?f * 8 < bc" using bc False by linarith
    ultimately show ?thesis using False d1 f b(1) by (simp add: copy_with_bit_offset_def Let_def r)
  qed
qed

subsection \<open>Copying bits into the middle of a buffer\<close>

text \<open>
  The five-argument \<open>copy_with_bit_offset\<close>. Its \<open>high_diff\<close> is a \<open>uint32_t\<close>, so
  \<open>src_offset + diff - 8\<close> wraps around when it would be negative and the guard
  \<open>high_diff <= 0\<close> only catches the value 0. The second branch then shifts a 32-bit one by
  a huge count, which C++ leaves undefined: the parameter \<open>ub_shl\<close> is the value the
  implementation happens to produce for such a shift, and the results below hold for every
  \<open>ub_shl\<close>.
\<close>

definition shl32 :: "(u32 \<Rightarrow> nat \<Rightarrow> u32) \<Rightarrow> u32 \<Rightarrow> nat \<Rightarrow> u32" where
  "shl32 ub_shl w n = (if n < 32 then push_bit n w else ub_shl w n)"

definition edge_byte ::
  "(u32 \<Rightarrow> nat \<Rightarrow> u32) \<Rightarrow> byte list \<Rightarrow> nat \<Rightarrow> nat \<Rightarrow> nat \<Rightarrow> nat \<Rightarrow> byte \<Rightarrow> byte res" where
  "edge_byte ub_shl src src_begin src_offset dest_offset diff dest_val =
     (let high_diff = sub32 (src_offset + diff) 8
      in if high_diff \<le> 0 then
           bind_res (span_get src src_begin) (\<lambda>w.
             let mask = ucast (shl32 ub_shl 1 diff - 1);
                 mid = drop_bit src_offset w AND mask;
                 mask' = ucast (NOT (push_bit dest_offset (ucast mask :: u32)));
                 mid' = ucast (push_bit dest_offset (ucast mid :: u32))
             in Inr (dest_val AND mask' OR mid'))
         else
           bind_res (span_get src src_begin) (\<lambda>w.
           bind_res (span_get src (src_begin + 1)) (\<lambda>w'.
             let low_diff = sub32 diff high_diff;
                 low_mask = ucast (shl32 ub_shl 1 low_diff - 1);
                 low = drop_bit src_offset w AND low_mask;
                 high_mask = ucast (shl32 ub_shl 1 high_diff - 1);
                 high = w' AND high_mask;
                 low' = ucast (push_bit dest_offset (ucast low :: u32));
                 high' = ucast (push_bit (dest_offset + low_diff) (ucast high :: u32));
                 mask = ucast (NOT (push_bit dest_offset (shl32 ub_shl 1 diff - 1)))
             in Inr (dest_val AND mask OR low' OR high'))))"

text \<open>
  \<open>copy_after_edge\<close> is the recursive part: everything past the first partial byte of the
  destination goes through the four-argument routine. It yields the buffer and the number of
  bits left for the partial byte.
\<close>

definition copy_after_edge ::
  "byte list \<Rightarrow> nat \<Rightarrow> nat \<Rightarrow> nat \<Rightarrow> nat \<Rightarrow> byte list \<Rightarrow> (byte list \<times> nat) res" where
  "copy_after_edge src src_bit_offset dest_next diff bit_count dest =
     (if bit_count > diff then
        if dest_next \<le> length dest then
          bind_res (copy_with_bit_offset src (wrap32 (src_bit_offset + diff)) (bit_count - diff)
                      (drop dest_next dest))
            (\<lambda>d. Inr (take dest_next dest @ d, diff))
        else Inl Span_bounds
      else Inr (dest, bit_count))"

definition copy_with_bit_offset_dest ::
  "(u32 \<Rightarrow> nat \<Rightarrow> u32) \<Rightarrow> byte list \<Rightarrow> nat \<Rightarrow> nat \<Rightarrow> nat \<Rightarrow> byte list \<Rightarrow> byte list res" where
  "copy_with_bit_offset_dest ub_shl src src_bit_offset dest_bit_offset bit_count dest =
     (let dest_next = wrap32 (dest_bit_offset + 7) div 8;
          diff = sub32 (wrap32 (dest_next * 8)) dest_bit_offset
      in bind_res (copy_after_edge src src_bit_offset dest_next diff bit_count dest)
           (\<lambda>(dest1, diff1).
              if diff1 \<noteq> 0 then
                bind_res (span_get dest1 (dest_bit_offset div 8)) (\<lambda>dest_val.
                bind_res (edge_byte ub_shl src (src_bit_offset div 8) (src_bit_offset mod 8)
                            (dest_bit_offset mod 8) diff1 dest_val)
                  (span_set dest1 (dest_bit_offset div 8)))
              else Inr dest1))"

lemma bit_shl_mask [bit_simps]: "n \<le> 8 \<Longrightarrow> bit (shl32 ub 1 n - 1) i \<longleftrightarrow> i < n"
  by (auto simp: shl32_def exp_minus_1_eq_mask bit_mask_iff)

lemma bit_low_mask_shl [bit_simps]:
  "n \<le> 8 \<Longrightarrow> bit (ucast (shl32 ub 1 n - 1) :: byte) i \<longleftrightarrow> i < n"
  by (simp add: shl32_def bit_low_mask_byte)

lemma bit_clear_mask [bit_simps]:
  "d + n \<le> 8 \<Longrightarrow> j < 8 \<Longrightarrow>
   bit (ucast (NOT (push_bit d (shl32 ub 1 n - 1))) :: byte) j \<longleftrightarrow> \<not> (d \<le> j \<and> j < d + n)"
  by (auto simp: bit_ucast_iff bit_not_iff bit_push_bit_iff bit_shl_mask)

lemma bit_clear_mask_byte [bit_simps]:
  "d + n \<le> 8 \<Longrightarrow> j < 8 \<Longrightarrow>
   bit (ucast (NOT (push_bit d (ucast (ucast (shl32 ub 1 n - 1) :: byte) :: u32))) :: byte) j
     \<longleftrightarrow> \<not> (d \<le> j \<and> j < d + n)"
  by (auto simp: bit_ucast_iff bit_not_iff bit_push_bit_iff bit_shl_mask)

lemma bit_at_source:
  assumes "so < 8" "d \<le> j" "j < d + 8"
  shows "bit_at src (8 * b + so + j - d) =
     (if so + j < 8 + d then bit (src ! b) (so + j - d) else bit (src ! Suc b) (j + so - (d + 8)))"
proof -
  obtain i where i: "j = d + i" using assms(2) le_Suc_ex by blast
  show ?thesis
  proof (cases "so + i < 8")
    case True
    then show ?thesis using i bit_at_split [of "so + i" src b] by (simp add: add.assoc add.left_commute)
  next
    case False
    then have "8 * b + so + i = 8 * Suc b + (so + i - 8)" "so + i - 8 < 8" using assms i by auto
    then show ?thesis using i False bit_at_split [of "so + i - 8" src "Suc b"]
      by (simp add: algebra_simps)
  qed
qed

text \<open>
  The updated byte: below the target bits nothing changes, the target bits are the source's, and
  the bits above are kept when the guard did not wrap (\<open>8 \<le> so + n\<close>). When it did, the rest
  of the source byte is OR-ed into them.
\<close>

lemma edge_byte_ok:
  assumes so: "so < 8" and n: "0 < n" "d + n \<le> 8"
    and sb: "Suc sb < length src \<or> so + n = 8 \<and> sb < length src"
  shows "\<exists>b. edge_byte ub src sb so d n v = Inr b \<and>
     (\<forall>j<8. (j < d \<longrightarrow> bit b j = bit v j) \<and>
            (d \<le> j \<and> j < d + n \<longrightarrow> bit b j = bit_at src (8 * sb + so + (j - d))) \<and>
            (d + n \<le> j \<and> 8 \<le> so + n \<longrightarrow> bit b j = bit v j) \<and>
            (d + n \<le> j \<and> so + n < 8 \<and> so + (j - d) < 8 \<longrightarrow>
               bit b j = (bit v j \<or> bit_at src (8 * sb + so + (j - d)))))"
proof -
  note bs = bit_or_iff bit_and_iff bit_drop_bit_eq bit_simps Let_def
  consider "so + n = 8" | "8 < so + n" | "so + n < 8" by linarith
  then show ?thesis
  proof cases
    case 1
    then have h: "sub32 (so + n) 8 = 0" by simp
    show ?thesis using 1 sb so n by (auto simp: edge_byte_def h bs bit_at_source)
  next
    case 2
    then have h: "sub32 (so + n) 8 = so + n - 8" "sub32 n (so + n - 8) = 8 - so"
      using so n by (simp_all add: sub32_ge)
    show ?thesis using 2 sb so n
      by (auto simp: edge_byte_def h bs bit_at_source)
  next
    case 3
    then have "sub32 (so + n) 8 = so + n + 2 ^ 32 - 8" "sub32 n (so + n + 2 ^ 32 - 8) = 8 - so"
      using so n by (auto simp: sub32_lt sub32_def)
    then obtain H where h: "sub32 (so + n) 8 = H" "sub32 n H = 8 - so" "0 < H" "H \<noteq> 0" by simp
    show ?thesis using 3 sb so n
      by (auto simp: edge_byte_def h bs bit_at_source)
  qed
qed

lemma bit_at_patch:
  assumes "m \<le> length dest" and "length d = length dest - m"
  shows "bit_at (take m dest @ d) k = (if k < 8 * m then bit_at dest k else bit_at d (k - 8 * m))"
proof -
  have "k div 8 < m \<longleftrightarrow> k < 8 * m" by (simp add: div_less_iff_less_mult mult.commute)
  then show ?thesis using assms by (auto simp: bit_at_append bit_at_take)
qed

lemma copy_after_edge_ok:
  assumes src: "sb + bc \<le> 8 * length src" and dest: "8 * m + bc \<le> 8 * length dest + df"
    and df: "df < 8" "sb + df < 2 ^ 32" and m: "m \<le> length dest"
  shows "\<exists>d. copy_after_edge src sb m df bc dest = Inr (d, min df bc) \<and> length d = length dest \<and>
     (\<forall>k. (k < 8 * m \<longrightarrow> bit_at d k = bit_at dest k) \<and>
          (8 * m \<le> k \<and> k + df < 8 * m + bc \<longrightarrow> bit_at d k = bit_at src (sb + (k + df - 8 * m))) \<and>
          (8 * m + bc \<le> k + df \<longrightarrow> bit_at d k = bit_at dest k))"
proof (cases "df < bc")
  case True
  have "\<exists>d. copy_with_bit_offset src (sb + df) (bc - df) (drop m dest) = Inr d \<and>
      length d = length (drop m dest) \<and>
      (\<forall>k. bit_at d k = (if k < bc - df then bit_at src (sb + df + k) else bit_at (drop m dest) k))"
    using True src dest m by (intro copy_with_bit_offset_ok) auto
  then obtain d where d: "copy_with_bit_offset src (sb + df) (bc - df) (drop m dest) = Inr d"
    "length d = length dest - m" "\<And>k. k < bc - df \<Longrightarrow> bit_at d k = bit_at src (sb + df + k)"
    "\<And>k. bc - df \<le> k \<Longrightarrow> bit_at d k = bit_at (drop m dest) k" by auto
  have "bit_at d (k - 8 * m) = bit_at src (sb + (k + df - 8 * m))"
    if "8 * m \<le> k" "k + df < 8 * m + bc" for k
  proof -
    have "sb + df + (k - 8 * m) = sb + (k + df - 8 * m)" "k - 8 * m < bc - df" using that by auto
    then show ?thesis by (metis d(3))
  qed
  moreover have "bit_at d (k - 8 * m) = bit_at dest k" if "8 * m + bc \<le> k + df" for k
  proof -
    have "bc - df \<le> k - 8 * m" and k: "8 * m \<le> k" using that True by auto
    then have "bit_at d (k - 8 * m) = bit_at (drop m dest) (k - 8 * m)" using d(4) by blast
    also have "\<dots> = bit_at (take m dest @ drop m dest) k" using m k by (simp only: bit_at_patch length_drop) simp
    finally show ?thesis by simp
  qed
  ultimately have "(k < 8 * m \<longrightarrow> bit_at (take m dest @ d) k = bit_at dest k) \<and>
     (8 * m \<le> k \<and> k + df < 8 * m + bc \<longrightarrow>
       bit_at (take m dest @ d) k = bit_at src (sb + (k + df - 8 * m))) \<and>
     (8 * m + bc \<le> k + df \<longrightarrow> bit_at (take m dest @ d) k = bit_at dest k)" for k
    using m d(2) True by (simp add: bit_at_patch)
  moreover have "copy_after_edge src sb m df bc dest = Inr (take m dest @ d, min df bc)"
    using True m df d(1) by (simp add: copy_after_edge_def)
  ultimately show ?thesis using d(2) m by auto
next
  case False
  then show ?thesis by (auto simp: copy_after_edge_def)
qed

text \<open>
  The whole copy: the bits before the target are kept, the target bits are the source's, and so are
  kept all bits after the target, except those of the target's first byte when the copy ends within
  this byte, does not start at its first bit and the guard wrapped.
\<close>

lemma copy_with_bit_offset_dest_full:
  assumes bc: "0 < bc" and src: "sb + bc \<le> 8 * length src" "Suc (sb div 8) < length src"
    and dest: "db + bc \<le> 8 * length dest"
    and small: "sb + 8 < 2 ^ 32" "db + 15 < 2 ^ 32"
  shows "\<exists>d. copy_with_bit_offset_dest ub src sb db bc dest = Inr d \<and> length d = length dest \<and>
     (\<forall>k. (k < db \<longrightarrow> bit_at d k = bit_at dest k) \<and>
          (db \<le> k \<and> k < db + bc \<longrightarrow> bit_at d k = bit_at src (sb + (k - db))) \<and>
          (db + bc \<le> k \<and> (k div 8 \<noteq> db div 8 \<or> db mod 8 = 0 \<or> 8 \<le> sb mod 8 + bc) \<longrightarrow> bit_at d k = bit_at dest k) \<and>
          (db + bc \<le> k \<and> k div 8 = db div 8 \<and> db mod 8 \<noteq> 0 \<and> sb mod 8 + bc < 8 \<and> sb mod 8 + (k - db) < 8 \<longrightarrow>
             bit_at d k = (bit_at dest k \<or> bit_at src (sb + (k - db)))))"
proof -
  define q o1 where "q = db div 8" and "o1 = db mod 8"
  have db: "db = 8 * q + o1" "o1 < 8" by (simp_all add: q_def o1_def)
  define m where "m = (db + 7) div 8"
  define df where "df = 8 * m - db"
  have m: "m = (if o1 = 0 then q else Suc q)" using db by (auto simp: m_def)
  have df: "df = (if o1 = 0 then 0 else 8 - o1)" "df < 8" "8 * m = db + df"
    using db m by (auto simp: df_def)
  have e: "wrap32 (db + 7) div 8 = m" "sub32 (wrap32 (m * 8)) db = df"
    using small df by (simp_all add: m_def [symmetric] sub32_ge mult.commute)
  have q: "q < length dest" "m \<le> length dest" using dest db bc m by (auto split: if_splits)
  obtain d1 where d1: "copy_after_edge src sb m df bc dest = Inr (d1, min df bc)"
    "length d1 = length dest" "\<And>k. k < 8 * m \<Longrightarrow> bit_at d1 k = bit_at dest k"
    "\<And>k. 8 * m \<le> k \<Longrightarrow> k < db + bc \<Longrightarrow> bit_at d1 k = bit_at src (sb + (k - db))"
    "\<And>k. db + bc \<le> k \<Longrightarrow> bit_at d1 k = bit_at dest k"
    using copy_after_edge_ok [of sb bc src m dest df] src dest df small q
    by (auto simp: add.commute)
  define n where "n = min df bc"
  show ?thesis
  proof (cases "n = 0")
    case True
    then have "df = 0" using bc by (auto simp: n_def min_def split: if_splits)
    then have "copy_with_bit_offset_dest ub src sb db bc dest = Inr d1" "o1 = 0"
      using e d1(1) df db by (auto simp: copy_with_bit_offset_dest_def split: if_splits)
    then show ?thesis using d1 df(3) \<open>df = 0\<close> by (auto simp: o1_def)
  next
    case False
    then have n: "0 < n" "o1 + n \<le> 8" "o1 \<noteq> 0" using df db by (auto simp: n_def split: if_splits)
    obtain b where b: "edge_byte ub src (sb div 8) (sb mod 8) o1 n (d1 ! q) = Inr b"
      "\<And>j. j < o1 \<Longrightarrow> bit b j = bit (d1 ! q) j"
      "\<And>j. o1 \<le> j \<Longrightarrow> j < o1 + n \<Longrightarrow> bit b j = bit_at src (sb + (j - o1))"
      "\<And>j. j < 8 \<Longrightarrow> o1 + n \<le> j \<Longrightarrow> 8 \<le> sb mod 8 + n \<Longrightarrow> bit b j = bit (d1 ! q) j"
      "\<And>j. j < 8 \<Longrightarrow> o1 + n \<le> j \<Longrightarrow> sb mod 8 + n < 8 \<Longrightarrow> sb mod 8 + (j - o1) < 8 \<Longrightarrow>
        bit b j = (bit (d1 ! q) j \<or> bit_at src (sb + (j - o1)))"
    proof -
      have sb: "8 * (sb div 8) + sb mod 8 = sb" "sb mod 8 < 8" by simp_all
      obtain b where "edge_byte ub src (sb div 8) (sb mod 8) o1 n (d1 ! q) = Inr b"
        "\<forall>j<8. (j < o1 \<longrightarrow> bit b j = bit (d1 ! q) j) \<and>
            (o1 \<le> j \<and> j < o1 + n \<longrightarrow> bit b j = bit_at src (sb + (j - o1))) \<and>
            (o1 + n \<le> j \<and> 8 \<le> sb mod 8 + n \<longrightarrow> bit b j = bit (d1 ! q) j) \<and>
            (o1 + n \<le> j \<and> sb mod 8 + n < 8 \<and> sb mod 8 + (j - o1) < 8 \<longrightarrow>
               bit b j = (bit (d1 ! q) j \<or> bit_at src (sb + (j - o1))))"
        using edge_byte_ok [OF sb(2) n(1,2) disjI1 [OF src(2)], of ub "d1 ! q"] unfolding sb(1) by blast
      moreover have "j < 8" if "j < o1" for j using that db(2) by simp
      moreover have "j < 8" if "j < o1 + n" for j using that n(2) by simp
      ultimately show thesis by (intro that [of b]) blast+
    qed
    have res: "copy_with_bit_offset_dest ub src sb db bc dest = Inr (d1[q := b])"
      unfolding copy_with_bit_offset_dest_def Let_def e d1(1) n_def [symmetric] q_def [symmetric]
        o1_def [symmetric]
      using n q d1(2) b(1) by simp
    have in_byte: "bit_at (d1[q := b]) (8 * q + j) = bit b j" "bit (d1 ! q) j = bit_at dest (8 * q + j)"
      "8 * q + j < db + bc \<Longrightarrow> j < o1 + n" "db + bc \<le> 8 * q + j \<Longrightarrow> n = bc" if j: "j < 8" for j
    proof -
      show "bit_at (d1[q := b]) (8 * q + j) = bit b j" using j q(1) d1(2) by (simp add: bit_at_update)
      show "bit (d1 ! q) j = bit_at dest (8 * q + j)" using j d1(3) [of "8 * q + j"] m n(3) by (simp add: bit_at_def)
      show "8 * q + j < db + bc \<Longrightarrow> j < o1 + n" using j db(1) df(1) n(3) unfolding n_def min_def by auto
      show "db + bc \<le> 8 * q + j \<Longrightarrow> n = bc" using j db(1) df(1) n(3) unfolding n_def by simp
    qed
    have off: "8 * q + j - db = j - o1" for j using db by simp
    have bits: "(k < db \<longrightarrow> bit_at (d1[q := b]) k = bit_at dest k) \<and>
          (db \<le> k \<and> k < db + bc \<longrightarrow> bit_at (d1[q := b]) k = bit_at src (sb + (k - db))) \<and>
          (db + bc \<le> k \<and> (k div 8 \<noteq> q \<or> o1 = 0 \<or> 8 \<le> sb mod 8 + bc) \<longrightarrow> bit_at (d1[q := b]) k = bit_at dest k) \<and>
          (db + bc \<le> k \<and> k div 8 = q \<and> o1 \<noteq> 0 \<and> sb mod 8 + bc < 8 \<and> sb mod 8 + (k - db) < 8 \<longrightarrow>
             bit_at (d1[q := b]) k = (bit_at dest k \<or> bit_at src (sb + (k - db))))" for k
    proof (cases "k div 8 = q")
      case True
      then obtain j where k: "k = 8 * q + j" "j < 8"
        by (metis mult_div_mod_eq mod_less_divisor zero_less_numeral)
      note i = in_byte [OF k(2)]
      have c: "k < db \<Longrightarrow> j < o1" "db \<le> k \<Longrightarrow> o1 \<le> j" "db + bc \<le> k \<Longrightarrow> o1 + n \<le> j"
        using k db i(4) by (auto simp: n_def)
      have eqs: "bit_at (d1[q := b]) k = bit b j" "bit_at dest k = bit (d1 ! q) j" "k - db = j - o1"
        using i(1,2) off by (simp_all add: k(1))
      have "k < db + bc \<Longrightarrow> j < o1 + n" "db + bc \<le> k \<Longrightarrow> n = bc" using i(3,4) by (simp_all add: k(1))
      then show ?thesis unfolding eqs
        using b(2) [of j] b(3) [of j] b(4) [OF k(2)] b(5) [OF k(2)] c True n(3) by blast
    next
      case False
      then have "k < 8 * q \<or> 8 * m \<le> k" using m n by auto
      then show ?thesis using False q d1(2,4,5) d1(3) [of k] db m n by (auto simp: bit_at_update)
    qed
    have len: "length (d1[q := b]) = length dest" using d1(2) by simp
    show ?thesis unfolding q_def [symmetric] o1_def [symmetric]
      by (rule exI, rule conjI [OF res conjI [OF len allI [OF bits]]])
  qed
qed

lemma copy_with_bit_offset_dest_ok:
  assumes "0 < bc" "sb + bc \<le> 8 * length src" "Suc (sb div 8) < length src"
    "db + bc \<le> 8 * length dest" "sb + 8 < 2 ^ 32" "db + 15 < 2 ^ 32"
  shows "\<exists>d. copy_with_bit_offset_dest ub src sb db bc dest = Inr d \<and> length d = length dest \<and>
     (\<forall>k. (k < db \<longrightarrow> bit_at d k = bit_at dest k) \<and>
          (db \<le> k \<and> k < db + bc \<longrightarrow> bit_at d k = bit_at src (sb + (k - db))))"
  using copy_with_bit_offset_dest_full [OF assms, of ub] by blast

subsection \<open>Bit strings as field elements\<close>

text \<open>
  The plaintext modulus: the SEAL object carries its value and its significant bit count.
\<close>

record modulus =
  mod_value :: u64
  mod_bit_count :: nat

definition mod_is_zero :: "modulus \<Rightarrow> bool" where
  "mod_is_zero m \<longleftrightarrow> mod_value m = 0"

text \<open>
  A \<open>BitstringView\<close> is the viewed bytes and a bit count. The loop of \<open>bits_to_field_elts\<close>
  is \<open>felts_loop\<close>: \<open>n\<close> field elements remain, the next starts at \<open>src_offset\<close>.
\<close>

fun felts_loop :: "byte list \<Rightarrow> nat \<Rightarrow> nat \<Rightarrow> nat \<Rightarrow> nat \<Rightarrow> felt list res" where
  "felts_loop src bits_per_felt 0 src_offset num_uncopied_bits = Inr []"
| "felts_loop src bits_per_felt (Suc n) src_offset num_uncopied_bits =
     (let copy_size = min bits_per_felt num_uncopied_bits
      in bind_res (copy_with_bit_offset src src_offset copy_size (replicate 8 0)) (\<lambda>repr.
         bind_res (felts_loop src bits_per_felt n (wrap32 (src_offset + bits_per_felt))
                     (num_uncopied_bits - copy_size)) (\<lambda>felts.
           Inr (read_u64_little_endian repr # felts))))"

definition bits_to_field_elts :: "byte list \<Rightarrow> nat \<Rightarrow> modulus \<Rightarrow> felt list res" where
  "bits_to_field_elts bits bit_count m =
     (if mod_is_zero m then Inl (Invalid_argument ''mod cannot be zero'')
      else let bits_per_felt = mod_bit_count m - 1
           in if bits_per_felt = 0 then Inl Div_by_zero
              else felts_loop bits bits_per_felt
                     (wrap32 (bit_count + bits_per_felt - 1) div bits_per_felt) 0 bit_count)"

fun bits_loop ::
  "(u32 \<Rightarrow> nat \<Rightarrow> u32) \<Rightarrow> nat \<Rightarrow> felt list \<Rightarrow> nat \<Rightarrow> nat \<Rightarrow> byte list \<Rightarrow> byte list res" where
  "bits_loop ub_shl bits_per_felt [] dst_offset num_uncopied_bits buf = Inr buf"
| "bits_loop ub_shl bits_per_felt (felt # felts) dst_offset num_uncopied_bits buf =
     (let copy_size = min bits_per_felt num_uncopied_bits
      in bind_res (copy_with_bit_offset_dest ub_shl (write_u64_little_endian felt) 0 dst_offset copy_size buf)
           (bits_loop ub_shl bits_per_felt felts (wrap32 (dst_offset + copy_size))
              (num_uncopied_bits - copy_size)))"

text \<open>
  \<open>mul_safe\<close> and \<open>safe_cast\<close> of SEAL throw when the exact value does not fit the 32-bit
  result. The result is the byte buffer of the returned \<open>Bitstring\<close>.
\<close>

definition field_elts_to_bits ::
  "(u32 \<Rightarrow> nat \<Rightarrow> u32) \<Rightarrow> felt list \<Rightarrow> nat \<Rightarrow> modulus \<Rightarrow> byte list res" where
  "field_elts_to_bits ub_shl felts bit_count m =
     (if felts = [] then Inl (Invalid_argument ''felts cannot be empty'')
      else if mod_is_zero m then Inl (Invalid_argument ''mod cannot be zero'')
      else let bits_per_felt = mod_bit_count m - 1; max_num_bits = bits_per_felt * length felts
           in if 2 ^ 32 \<le> length felts then Inl (Logic_error ''cast failed'')
              else if 2 ^ 32 \<le> max_num_bits then Inl (Logic_error ''unsigned overflow'')
              else if max_num_bits < bit_count
                then Inl (Invalid_argument ''bit_count exceeds the max number of bits the input holds'')
              else if bit_count \<le> max_num_bits - bits_per_felt
                then Inl (Invalid_argument ''bit_count causes conversion to ignore entire field elements'')
              else bits_loop ub_shl bits_per_felt felts 0 bit_count
                     (replicate (wrap32 (bit_count + 7) div 8) 0))"

text \<open>Both conversions at the level of single bits.\<close>

lemma felts_loop_ok:
  assumes "0 < b" "b \<le> 64" "n = (left + b - 1) div b" "off + left \<le> 8 * length src"
    "off + left + b < 2 ^ 32"
  shows "\<exists>fs. felts_loop src b n off left = Inr fs \<and> length fs = n \<and>
     (\<forall>i<n. \<forall>j<64. bit (fs ! i) j = (j < b \<and> i * b + j < left \<and> bit_at src (off + i * b + j)))"
  using assms
proof (induction n arbitrary: off left)
  case 0
  then show ?case by simp
next
  case (Suc n)
  then have left: "0 < left" by (cases left) auto
  define c where "c = min b left"
  have c: "0 < c" "c \<le> b" "c \<le> left" using left Suc.prems by (auto simp: c_def)
  have rest: "n = (left - c + b - 1) div b"
  proof (cases "b \<le> left")
    case True
    then have "left + b - 1 = (left - c + b - 1) + b" using c left by (auto simp: c_def)
    then have "Suc n = (left - c + b - 1) div b + 1"
      using Suc.prems(1,3) by (metis div_add_self2 less_not_refl)
    then show ?thesis by simp
  next
    case False
    then have e: "left + b - 1 = (left - 1) + b" "left - 1 < b" using left by auto
    have "((left - 1) + b) div b = 1" using e(2) Suc.prems(1) by (simp add: div_add_self2)
    then have "Suc n = 1" using Suc.prems(3) e(1) by (simp only:)
    then show ?thesis using False Suc.prems(1) by (simp add: c_def)
  qed
  have "\<exists>d. copy_with_bit_offset src off c (replicate 8 0) = Inr d \<and>
      length d = length (replicate 8 (0::byte)) \<and>
      (\<forall>k. bit_at d k = (if k < c then bit_at src (off + k) else bit_at (replicate 8 0) k))"
    using c Suc.prems by (intro copy_with_bit_offset_ok) auto
  then obtain d where d: "copy_with_bit_offset src off c (replicate 8 0) = Inr d"
    "\<And>k. k < 64 \<Longrightarrow> bit_at d k = (k < c \<and> bit_at src (off + k))"
    by (auto simp: bit_at_def)
  have w: "wrap32 (off + b) = off + b" using Suc.prems by simp
  have "\<exists>fs. felts_loop src b n (off + b) (left - c) = Inr fs \<and> length fs = n \<and>
     (\<forall>i<n. \<forall>j<64. bit (fs ! i) j = (j < b \<and> i * b + j < left - c \<and> bit_at src (off + b + i * b + j)))"
  proof (cases "b \<le> left")
    case True
    then show ?thesis using Suc.prems rest c by (intro Suc.IH) (auto simp: c_def)
  next
    case False
    then have "n = 0" using rest by (simp add: c_def Suc.prems(1))
    then show ?thesis by simp
  qed
  then obtain fs where fs: "felts_loop src b n (off + b) (left - c) = Inr fs" "length fs = n"
     "\<And>i j. i < n \<Longrightarrow> j < 64 \<Longrightarrow>
        bit (fs ! i) j = (j < b \<and> i * b + j < left - c \<and> bit_at src (off + b + i * b + j))" by auto
  let ?fs = "read_u64_little_endian d # fs"
  have "bit (?fs ! i) j = (j < b \<and> i * b + j < left \<and> bit_at src (off + i * b + j))"
    if "i < Suc n" "j < 64" for i j
  proof (cases i)
    case 0
    then show ?thesis using that d by (auto simp: bit_read_u64 c_def)
  next
    case (Suc m)
    have "n = 0" if "left < b" using rest that Suc.prems(1) by (simp add: c_def)
    then have "b \<le> left" using that Suc by (metis Suc_less_SucD not_le not_less0)
    then show ?thesis using that Suc fs(3) [of m j] by (auto simp: c_def algebra_simps)
  qed
  moreover have "felts_loop src b (Suc n) off left = Inr ?fs"
    by (simp add: Let_def c_def [symmetric] d(1) fs(1) w)
  ultimately show ?case using fs(2) by (metis length_Cons)
qed

lemma bits_loop_ok:
  assumes "0 < b" "b \<le> 64" "left \<le> length fs * b" "fs \<noteq> [] \<Longrightarrow> (length fs - 1) * b < left"
    "off + left \<le> 8 * length buf" "off + left + 64 + 15 < 2 ^ 32"
  shows "\<exists>d. bits_loop ub b fs off left buf = Inr d \<and> length d = length buf \<and>
     (\<forall>k. (k < off \<longrightarrow> bit_at d k = bit_at buf k) \<and>
          (k < left \<longrightarrow> bit_at d (off + k) = bit (fs ! (k div b)) (k mod b)))"
  using assms(3-)
proof (induction fs arbitrary: off left buf)
  case Nil
  then show ?case by simp
next
  case (Cons f fs)
  have left: "0 < left" using Cons.prems(2) by (cases left) auto
  define c where "c = min b left"
  have c: "0 < c" "c \<le> b" "c \<le> left" using left assms(1) by (auto simp: c_def)
  have cl: "c = (if fs = [] then left else b)"
    using Cons.prems(1,2) assms(1) by (cases fs) (auto simp: c_def)
  have "\<exists>d. copy_with_bit_offset_dest ub (write_u64_little_endian f) 0 off c buf = Inr d \<and>
     length d = length buf \<and>
     (\<forall>k. (k < off \<longrightarrow> bit_at d k = bit_at buf k) \<and>
        (off \<le> k \<and> k < off + c \<longrightarrow> bit_at d k = bit_at (write_u64_little_endian f) (0 + (k - off))))"
    using c assms Cons.prems by (intro copy_with_bit_offset_dest_ok) auto
  then obtain d where d: "copy_with_bit_offset_dest ub (write_u64_little_endian f) 0 off c buf = Inr d"
    "length d = length buf" "\<And>k. k < off \<Longrightarrow> bit_at d k = bit_at buf k"
    "\<And>k. k < c \<Longrightarrow> bit_at d (off + k) = bit f k"
    using c assms(2) by (auto simp: bit_at_write_u64)
  have w: "wrap32 (off + c) = off + c" using Cons.prems c by simp
  have lf: "fs \<noteq> [] \<Longrightarrow> (length fs - 1) * b < left - c" using Cons.prems(2) cl by (cases fs) auto
  have "\<exists>d'. bits_loop ub b fs (off + c) (left - c) d = Inr d' \<and> length d' = length d \<and>
     (\<forall>k. (k < off + c \<longrightarrow> bit_at d' k = bit_at d k) \<and>
          (k < left - c \<longrightarrow> bit_at d' (off + c + k) = bit (fs ! (k div b)) (k mod b)))"
    using Cons.prems c cl d(2) lf by (intro Cons.IH) (auto split: if_splits)
  then obtain d' where d': "bits_loop ub b fs (off + c) (left - c) d = Inr d'" "length d' = length d"
    "\<And>k. k < off + c \<Longrightarrow> bit_at d' k = bit_at d k"
    "\<And>k. k < left - c \<Longrightarrow> bit_at d' (off + c + k) = bit (fs ! (k div b)) (k mod b)" by auto
  have "bit_at d' (off + k) = bit ((f # fs) ! (k div b)) (k mod b)" if "k < left" for k
  proof (cases "k < c")
    case True
    then show ?thesis using c d(4) d'(3) by simp
  next
    case False
    then have "c = b" using cl that by (auto split: if_splits)
    then obtain j where "k = b + j" using False le_Suc_ex not_less by blast
    then show ?thesis using d'(4) [of j] that assms(1) \<open>c = b\<close>
      by (simp add: add.assoc div_add_self1)
  qed
  moreover have "bits_loop ub b (f # fs) off left buf = Inr d'"
    by (simp add: Let_def c_def [symmetric] d(1) d'(1) w)
  moreover have "bit_at d' k = bit_at buf k" if "k < off" for k using that d(3) d'(3) by simp
  ultimately show ?case using d(2) d'(2) by metis
qed

lemma ceil_mult_bounds:
  fixes b n left :: nat
  assumes "0 < b" "0 < left" "n = (left + b - 1) div b"
  shows "left \<le> n * b" "(n - 1) * b < left" "0 < n"
proof -
  have m: "left + b - 1 = n * b + (left + b - 1) mod b" using assms(3) by simp
  have "(left + b - 1) mod b < b" using assms(1) by simp
  then show "left \<le> n * b" using m assms(1) by linarith
  show "0 < n" using assms by (simp add: div_greater_zero_iff)
  then obtain p where "n = Suc p" by (cases n) auto
  then show "(n - 1) * b < left" using m assms(1,2) by auto
qed

text \<open>
  What the two conversions compute, for any modulus with 1 to 64 usable bits per field element:
  each yields a value (no bounds check fails, whatever the undefined shift produces), and the
  value is described bit by bit.
\<close>

definition usable_modulus :: "modulus \<Rightarrow> bool" where
  "usable_modulus m \<longleftrightarrow> \<not> mod_is_zero m \<and> 1 < mod_bit_count m \<and> mod_bit_count m \<le> 65"

definition felt_count :: "nat \<Rightarrow> modulus \<Rightarrow> nat" where
  "felt_count bc m = (bc + (mod_bit_count m - 1) - 1) div (mod_bit_count m - 1)"

lemma felt_count_bounds:
  assumes "usable_modulus m" "0 < bc"
  shows "bc \<le> felt_count bc m * (mod_bit_count m - 1)"
    "(felt_count bc m - 1) * (mod_bit_count m - 1) < bc" "0 < felt_count bc m"
  using ceil_mult_bounds [of "mod_bit_count m - 1" bc] assms
  by (simp_all add: usable_modulus_def felt_count_def)

lemma bits_to_field_elts_ok:
  assumes m: "usable_modulus m" and bc: "bc \<le> 8 * length bytes" "bc + 256 < 2 ^ 32"
  shows "\<exists>fs. bits_to_field_elts bytes bc m = Inr fs \<and> length fs = felt_count bc m \<and>
     (\<forall>i<length fs. \<forall>j<64. bit (fs ! i) j =
        (j < mod_bit_count m - 1 \<and> i * (mod_bit_count m - 1) + j < bc \<and>
         bit_at bytes (i * (mod_bit_count m - 1) + j)))"
proof -
  let ?b = "mod_bit_count m - 1"
  have b: "0 < ?b" "?b \<le> 64" using m by (auto simp: usable_modulus_def)
  have "\<exists>fs. felts_loop bytes ?b (felt_count bc m) 0 bc = Inr fs \<and> length fs = felt_count bc m \<and>
     (\<forall>i<felt_count bc m. \<forall>j<64. bit (fs ! i) j =
        (j < ?b \<and> i * ?b + j < bc \<and> bit_at bytes (0 + i * ?b + j)))"
    using b bc by (intro felts_loop_ok) (auto simp: felt_count_def)
  moreover have "bits_to_field_elts bytes bc m = felts_loop bytes ?b (felt_count bc m) 0 bc"
    using m b bc by (simp add: bits_to_field_elts_def usable_modulus_def felt_count_def Let_def)
  ultimately show ?thesis by auto
qed

lemma field_elts_to_bits_ok:
  assumes m: "usable_modulus m" and bc: "0 < bc" "bc + 256 < 2 ^ 32" and n: "length fs = felt_count bc m"
  shows "\<exists>d. field_elts_to_bits ub fs bc m = Inr d \<and> length d = (bc + 7) div 8 \<and>
     (\<forall>k<bc. bit_at d k = bit (fs ! (k div (mod_bit_count m - 1))) (k mod (mod_bit_count m - 1)))"
proof -
  let ?b = "mod_bit_count m - 1"
  have b: "0 < ?b" "?b \<le> 64" using m by (auto simp: usable_modulus_def)
  note f = felt_count_bounds [OF m bc(1)]
  have fs: "fs \<noteq> []" using n f(3) by auto
  have len: "length fs = Suc (felt_count bc m - 1)" using n f(3) by simp
  then have mx: "?b * length fs < bc + ?b" using f(2) by (simp add: mult.commute)
  have "1 * length fs \<le> ?b * length fs" using b(1) by (intro mult_right_mono) auto
  then have caps: "length fs < 2 ^ 32" "?b * length fs < 2 ^ 32" using mx b bc by linarith+
  have "\<exists>d. bits_loop ub ?b fs 0 bc (replicate ((bc + 7) div 8) 0) = Inr d \<and>
     length d = length (replicate ((bc + 7) div 8) (0::byte)) \<and>
     (\<forall>k. (k < 0 \<longrightarrow> bit_at d k = bit_at (replicate ((bc + 7) div 8) 0) k) \<and>
          (k < bc \<longrightarrow> bit_at d (0 + k) = bit (fs ! (k div ?b)) (k mod ?b)))"
    using b bc f n by (intro bits_loop_ok) (auto simp: mult.commute)
  moreover obtain c where c: "mod_bit_count m = Suc c" using b(1) by (cases "mod_bit_count m") auto
  then have "bc \<le> c * length fs" "\<not> bc \<le> c * length fs - c" "c * length fs < 2 ^ 32"
    using f(1) mx n caps b(1) bc(1) by (auto simp: mult.commute)
  then have "field_elts_to_bits ub fs bc m =
      bits_loop ub ?b fs 0 bc (replicate ((bc + 7) div 8) 0)"
    using fs m caps(1) bc c
    by (simp add: field_elts_to_bits_def usable_modulus_def Let_def)
  ultimately show ?thesis by auto
qed

text \<open>Bit \<open>k\<close> of the source is bit \<open>k mod b\<close> of field element \<open>k div b\<close>.\<close>

lemma felt_bit_lookup:
  assumes m: "usable_modulus m" and n: "length fs = felt_count bc m" and k: "k < bc"
    and fs: "\<And>i j. i < length fs \<Longrightarrow> j < 64 \<Longrightarrow>
       bit (fs ! i) j = (j < mod_bit_count m - 1 \<and> i * (mod_bit_count m - 1) + j < bc \<and>
         bit_at v (i * (mod_bit_count m - 1) + j))"
  shows "k div (mod_bit_count m - 1) < length fs"
    and "bit (fs ! (k div (mod_bit_count m - 1))) (k mod (mod_bit_count m - 1)) = bit_at v k"
proof -
  obtain b where b: "mod_bit_count m - 1 = b" "0 < b" "b \<le> 64"
    using m by (auto simp: usable_modulus_def)
  have "bc \<le> felt_count bc m * b" using felt_count_bounds(1) [OF m, of bc] k b(1) by simp
  then show l: "k div (mod_bit_count m - 1) < length fs"
    using k n b by (simp add: div_less_iff_less_mult)
  have "k mod b < 64" using b(2,3) by (meson mod_less_divisor less_le_trans)
  then have "bit (fs ! (k div b)) (k mod b) =
      (k mod b < b \<and> k div b * b + k mod b < bc \<and> bit_at v (k div b * b + k mod b))"
    using fs [of "k div b" "k mod b"] l unfolding b(1) by blast
  then show "bit (fs ! (k div (mod_bit_count m - 1))) (k mod (mod_bit_count m - 1)) = bit_at v k"
    unfolding b(1) div_mult_mod_eq using k b(2) by simp
qed

subsection \<open>Properties\<close>

text \<open>
  Splitting a bit string into field elements and joining them again gives back every bit:
  for every usable modulus the conversions both succeed, the field elements fit below the
  modulus' power of two, and no choice of the undefined 32-bit shift in
  \<open>copy_with_bit_offset\<close> can change the result.
\<close>
theorem felts_roundtrip:
  assumes m: "usable_modulus m" and bc: "0 < bc" "bc \<le> 8 * length bytes" "bc + 256 < 2 ^ 32"
  shows "\<exists>fs d. bits_to_field_elts bytes bc m = Inr fs \<and> length fs = felt_count bc m \<and>
     (\<forall>f\<in>set fs. \<forall>j. bit f j \<longrightarrow> j < mod_bit_count m - 1) \<and>
     field_elts_to_bits ub fs bc m = Inr d \<and> length d = (bc + 7) div 8 \<and>
     (\<forall>k<bc. bit_at d k = bit_at bytes k)"
proof -
  let ?b = "mod_bit_count m - 1"
  have b: "0 < ?b" "?b \<le> 64" using m by (auto simp: usable_modulus_def)
  obtain fs where fs: "bits_to_field_elts bytes bc m = Inr fs" "length fs = felt_count bc m"
    "\<And>i j. i < length fs \<Longrightarrow> j < 64 \<Longrightarrow>
       bit (fs ! i) j = (j < ?b \<and> i * ?b + j < bc \<and> bit_at bytes (i * ?b + j))"
    using bits_to_field_elts_ok [OF m bc(2,3)] by auto
  obtain d where d: "field_elts_to_bits ub fs bc m = Inr d" "length d = (bc + 7) div 8"
    "\<And>k. k < bc \<Longrightarrow> bit_at d k = bit (fs ! (k div ?b)) (k mod ?b)"
    using field_elts_to_bits_ok [OF m bc(1,3) fs(2)] by blast
  have "bit_at d k = bit_at bytes k" if k: "k < bc" for k
    using d(3) [OF k] felt_bit_lookup(2) [OF m fs(2) k fs(3)] by simp
  moreover have "j < ?b" if "f \<in> set fs" "bit f j" for f j
    using that fs(3) [of _ j] bit_imp_le_length [OF that(2)] by (auto simp: in_set_conv_nth)
  ultimately show ?thesis using fs(1,2) d(1,2) by blast
qed

definition example_modulus :: modulus where
  "example_modulus = \<lparr>mod_value = 65537, mod_bit_count = 17\<rparr>"

theorem felts_roundtrip_witness:
  "\<exists>fs d. bits_to_field_elts [1, 2, 3] 20 example_modulus = Inr fs \<and>
     length fs = felt_count 20 example_modulus \<and>
     (\<forall>f\<in>set fs. \<forall>j. bit f j \<longrightarrow> j < mod_bit_count example_modulus - 1) \<and>
     field_elts_to_bits (\<lambda>_ _. 0) fs 20 example_modulus = Inr d \<and> length d = (20 + 7) div 8 \<and>
     (\<forall>k<20. bit_at d k = bit_at [1, 2, 3] k)"
  by (rule felts_roundtrip) (simp_all add: example_modulus_def usable_modulus_def mod_is_zero_def)

text \<open>
  C32. Copying into the middle of a buffer succeeds whenever both ranges are inside their
  buffers (and the source has a byte after the first one read), for any result of the undefined
  shift: the target bits become the source's bits and every bit before them is kept. The bits after
  them are kept too, when the target starts or ends at a byte boundary or reaches beyond its first
  byte, and when the bits for its first byte come to the end of a source byte or straddle two.
\<close>
theorem copy_with_bit_offset_dest_correct:
  assumes "0 < bc" and "sb + bc \<le> 8 * length src" and "Suc (sb div 8) < length src"
    and "db + bc \<le> 8 * length dest" and "sb + 8 < 2 ^ 32" and "db + 15 < 2 ^ 32"
  shows "\<exists>d. copy_with_bit_offset_dest ub src sb db bc dest = Inr d \<and> length d = length dest \<and>
     (\<forall>k<db. bit_at d k = bit_at dest k) \<and>
     (\<forall>k<bc. bit_at d (db + k) = bit_at src (sb + k)) \<and>
     (db mod 8 = 0 \<or> 8 \<le> db mod 8 + bc \<or> 8 \<le> sb mod 8 + bc \<longrightarrow>
        (\<forall>k \<ge> db + bc. bit_at d k = bit_at dest k))"
proof -
  obtain d where d: "copy_with_bit_offset_dest ub src sb db bc dest = Inr d" "length d = length dest"
    and bits: "\<forall>k. (k < db \<longrightarrow> bit_at d k = bit_at dest k) \<and>
          (db \<le> k \<and> k < db + bc \<longrightarrow> bit_at d k = bit_at src (sb + (k - db))) \<and>
          (db + bc \<le> k \<and> (k div 8 \<noteq> db div 8 \<or> db mod 8 = 0 \<or> 8 \<le> sb mod 8 + bc) \<longrightarrow> bit_at d k = bit_at dest k) \<and>
          (db + bc \<le> k \<and> k div 8 = db div 8 \<and> db mod 8 \<noteq> 0 \<and> sb mod 8 + bc < 8 \<and> sb mod 8 + (k - db) < 8 \<longrightarrow>
             bit_at d k = (bit_at dest k \<or> bit_at src (sb + (k - db))))"
    using copy_with_bit_offset_dest_full [OF assms, of ub] by (elim exE conjE)
  have other: "k div 8 \<noteq> db div 8" if "db + bc \<le> k" "8 \<le> db mod 8 + bc" for k
  proof
    assume e: "k div 8 = db div 8"
    have "8 * (db div 8) + k mod 8 = k" using mult_div_mod_eq [of 8 k] unfolding e .
    moreover have "8 * (db div 8) + db mod 8 = db" "k mod 8 < 8" by simp_all
    ultimately show False using that by linarith
  qed
  have "bit_at d k = bit_at dest k" if "db mod 8 = 0 \<or> 8 \<le> db mod 8 + bc \<or> 8 \<le> sb mod 8 + bc" "db + bc \<le> k" for k
  proof -
    have "k div 8 \<noteq> db div 8 \<or> db mod 8 = 0 \<or> 8 \<le> sb mod 8 + bc" using that other [of k] by blast
    then show ?thesis
      using that(2) bits [THEN spec, THEN conjunct2, THEN conjunct2, THEN conjunct1, of k] by (simp only: simp_thms)
  qed
  moreover have "bit_at d (db + k) = bit_at src (sb + k)" if "k < bc" for k
    using bits [THEN spec, THEN conjunct2, THEN conjunct1, of "db + k"] that by simp
  moreover have "bit_at d k = bit_at dest k" if "k < db" for k
    using bits [THEN spec, THEN conjunct1, of k] that by blast
  ultimately show ?thesis using d by blast
qed

theorem copy_with_bit_offset_dest_correct_witness:
  "\<exists>d. copy_with_bit_offset_dest (\<lambda>_ _. 7) [0xA5, 0x3C] 3 2 6 [0, 0xFF] = Inr d \<and>
     length d = length [0, 0xFF :: byte] \<and>
     (\<forall>k<2. bit_at d k = bit_at [0, 0xFF] k) \<and>
     (\<forall>k<6. bit_at d (2 + k) = bit_at [0xA5, 0x3C] (3 + k)) \<and>
     (\<forall>k\<ge>2 + 6. bit_at d k = bit_at [0, 0xFF] k)"
  using copy_with_bit_offset_dest_correct [of 6 3 "[0xA5, 0x3C]" 2 "[0, 0xFF]" "\<lambda>_ _. 7"] by simp

text \<open>
  C33. The comment of the five-argument \<open>copy_with_bit_offset\<close> promises that all bits outside
  the target range are unchanged. They are not: when the copy begins and ends inside one destination
  byte and takes its bits from inside one source byte, \<open>high_diff\<close> wraps, and every further bit of
  that source byte is OR-ed into the destination byte after the target; an unset destination bit
  there is set whenever the source bit is. The other bytes are kept.
\<close>
theorem copy_with_bit_offset_dest_clobbers:
  assumes "0 < bc" and "Suc (sb div 8) < length src" and "db div 8 < length dest"
    and "sb + 8 < 2 ^ 32" and "db + 15 < 2 ^ 32"
    and "db mod 8 \<noteq> 0" and "db mod 8 + bc < 8" and "sb mod 8 + bc < 8"
  shows "\<exists>d. copy_with_bit_offset_dest ub src sb db bc dest = Inr d \<and>
     (\<forall>k \<ge> bc. db mod 8 + k < 8 \<and> sb mod 8 + k < 8 \<longrightarrow>
        bit_at d (db + k) = (bit_at dest (db + k) \<or> bit_at src (sb + k))) \<and>
     (\<forall>k. k div 8 \<noteq> db div 8 \<longrightarrow> bit_at d k = bit_at dest k)"
proof -
  have "8 * Suc (sb div 8) \<le> 8 * length src" "8 * Suc (db div 8) \<le> 8 * length dest"
    using assms(2,3) by (intro mult_le_mono2; simp)+
  then have "sb + bc \<le> 8 * length src" "db + bc \<le> 8 * length dest"
    using assms(7,8) mult_div_mod_eq [of 8 db] mult_div_mod_eq [of 8 sb] unfolding mult_Suc_right by linarith+
  from copy_with_bit_offset_dest_full [OF assms(1) this(1) assms(2) this(2) assms(4,5), of ub]
  obtain d where d: "copy_with_bit_offset_dest ub src sb db bc dest = Inr d"
    and bits: "\<forall>k. (k < db \<longrightarrow> bit_at d k = bit_at dest k) \<and>
          (db \<le> k \<and> k < db + bc \<longrightarrow> bit_at d k = bit_at src (sb + (k - db))) \<and>
          (db + bc \<le> k \<and> (k div 8 \<noteq> db div 8 \<or> db mod 8 = 0 \<or> 8 \<le> sb mod 8 + bc) \<longrightarrow> bit_at d k = bit_at dest k) \<and>
          (db + bc \<le> k \<and> k div 8 = db div 8 \<and> db mod 8 \<noteq> 0 \<and> sb mod 8 + bc < 8 \<and> sb mod 8 + (k - db) < 8 \<longrightarrow>
             bit_at d k = (bit_at dest k \<or> bit_at src (sb + (k - db))))"
    by (elim exE conjE)
  have "bit_at d (db + k) = (bit_at dest (db + k) \<or> bit_at src (sb + k))"
    if "bc \<le> k" "db mod 8 + k < 8" "sb mod 8 + k < 8" for k
  proof -
    have "db + k = 8 * (db div 8) + (db mod 8 + k)" by simp
    then have "(db + k) div 8 = db div 8" using that(2) by (metis div_less div_mult_self4 add_0_right zero_neq_numeral)
    then show ?thesis using bits [THEN spec, THEN conjunct2, THEN conjunct2, THEN conjunct2, of "db + k"] that assms(6,8) by simp
  qed
  moreover have "bit_at d k = bit_at dest k" if "k div 8 \<noteq> db div 8" for k
  proof -
    have "k < db \<or> db + bc \<le> k"
    proof (rule ccontr)
      assume "\<not> (k < db \<or> db + bc \<le> k)"
      then have "8 * (db div 8) \<le> k" "k < 8 * Suc (db div 8)"
        using assms(7) mult_div_mod_eq [of 8 db] unfolding mult_Suc_right by linarith+
      then show False using that by (simp add: div_nat_eqI mult.commute)
    qed
    then show ?thesis
      using that bits [THEN spec, THEN conjunct1, of k] bits [THEN spec, THEN conjunct2, THEN conjunct2, THEN conjunct1, of k]
      by blast
  qed
  ultimately show ?thesis using d(1) by blast
qed

theorem copy_with_bit_offset_dest_clobbers_witness:
  "\<forall>ub. \<exists>d. copy_with_bit_offset_dest ub [0xFF, 0] 0 1 2 [0, 0] = Inr d \<and> bit_at d (1 + 4) \<and> \<not> bit_at [0, 0] (1 + 4) \<and>
     (\<forall>k. k div 8 \<noteq> 0 \<longrightarrow> bit_at d k = bit_at [0, 0] k)"
proof
  fix ub :: "u32 \<Rightarrow> nat \<Rightarrow> u32"
  have "\<exists>d. copy_with_bit_offset_dest ub [0xFF, 0] 0 1 2 [0, 0] = Inr d \<and>
     (\<forall>k \<ge> 2. 1 + k < 8 \<and> k < 8 \<longrightarrow>
        bit_at d (1 + k) = (bit_at [0, 0] (1 + k) \<or> bit_at [0xFF, 0] k)) \<and>
     (\<forall>k. k div 8 \<noteq> 0 \<longrightarrow> bit_at d k = bit_at [0, 0] k)"
    using copy_with_bit_offset_dest_clobbers [of 2 0 "[0xFF, 0]" 1 "[0, 0]" ub] by simp
  then obtain d where d: "copy_with_bit_offset_dest ub [0xFF, 0] 0 1 2 [0, 0] = Inr d"
    "\<And>k. 2 \<le> k \<Longrightarrow> 1 + k < 8 \<Longrightarrow> bit_at d (1 + k) = (bit_at [0, 0] (1 + k) \<or> bit_at [0xFF, 0] k)"
    "\<forall>k. k div 8 \<noteq> 0 \<longrightarrow> bit_at d k = bit_at [0, 0] k" by auto
  have "bit_at d (1 + 4)" using d(2) [of 4] by (simp add: bit_at_def)
  moreover have "\<not> bit_at [0, 0] (1 + 4)" by (simp add: bit_at_def)
  ultimately show "\<exists>d. copy_with_bit_offset_dest ub [0xFF, 0] 0 1 2 [0, 0] = Inr d \<and> bit_at d (1 + 4) \<and> \<not> bit_at [0, 0] (1 + 4) \<and>
     (\<forall>k. k div 8 \<noteq> 0 \<longrightarrow> bit_at d k = bit_at [0, 0] k)"
    using d(1,3) by blast
qed

end
