(* ===== verification/Items.thy ===== *)
theory Items
  imports Bits
begin

text \<open>
  Bit strings, items and labels (\<open>common/apsi/item.h\<close>, \<open>item.cpp\<close>) and the item half of
  \<open>common/apsi/util/db_encoding.cpp\<close>: how an item and its label become field elements and how
  they are read back.
\<close>

subsection \<open>Bit strings\<close>

text \<open>
  \<open>Bitstring\<close> owns its bytes and \<open>BitstringView\<close> refers to them; both carry a bit count
  and have the same constructor checks, so both are this record.
\<close>

record bitstring =
  bs_data :: "byte list"
  bs_bit_count :: nat

definition make_bitstring :: "byte list \<Rightarrow> nat \<Rightarrow> bitstring res" where
  "make_bitstring data bit_count =
     (if bit_count = 0 then Inl (Invalid_argument ''bit_count must be positive'')
      else if length data * 8 < bit_count then Inl (Invalid_argument ''bit_count exceeds the data length'')
      else let data_length = wrap32 (bit_count + 7) div 8
           in Inr \<lparr>bs_data = (if data_length < length data then take data_length data else data),
                   bs_bit_count = bit_count\<rparr>)"

definition make_bitstring_view :: "byte list \<Rightarrow> nat \<Rightarrow> bitstring res" where
  "make_bitstring_view data bit_count =
     (if bit_count = 0 then Inl (Invalid_argument ''bit_count must be positive'')
      else if length data * 8 < bit_count then Inl (Invalid_argument ''bit_count exceeds the data length'')
      else let data_length = wrap32 (bit_count + 7) div 8
           in if length data = data_length then Inr \<lparr>bs_data = data, bs_bit_count = bit_count\<rparr>
              else if data_length \<le> length data
                then Inr \<lparr>bs_data = take data_length data, bs_bit_count = bit_count\<rparr>
              else Inl Span_bounds)"

definition bitstring_eq :: "bitstring \<Rightarrow> bitstring \<Rightarrow> bool" where
  "bitstring_eq a b \<longleftrightarrow> bs_bit_count a = bs_bit_count b \<and> bs_data a = bs_data b"

definition bitstring_to_view :: "bitstring \<Rightarrow> bitstring res" where
  "bitstring_to_view b = make_bitstring_view (bs_data b) (bs_bit_count b)"

text \<open>\<open>release\<close> hands out the bytes and leaves a bit count of zero behind.\<close>

definition bitstring_release :: "bitstring \<Rightarrow> byte list \<times> bitstring" where
  "bitstring_release b = (bs_data b, b\<lparr>bs_data := [], bs_bit_count := 0\<rparr>)"

definition bitstring_wf :: "bitstring \<Rightarrow> bool" where
  "bitstring_wf b \<longleftrightarrow> 0 < bs_bit_count b \<and> length (bs_data b) = (bs_bit_count b + 7) div 8"

lemma make_bitstring_wf:
  assumes "make_bitstring data bc = Inr b" and "bc + 7 < 2 ^ 32"
  shows "bitstring_wf b \<and> bs_bit_count b = bc \<and> bs_data b = take ((bc + 7) div 8) data"
  using assms by (auto simp: make_bitstring_def bitstring_wf_def Let_def split: if_splits)

lemma make_bitstring_view_eq:
  assumes "bc + 7 < 2 ^ 32"
  shows "make_bitstring_view data bc = make_bitstring data bc"
  using assms by (auto simp: make_bitstring_view_def make_bitstring_def Let_def)

lemma bitstring_to_view_wf:
  "bitstring_wf b \<Longrightarrow> bs_bit_count b + 7 < 2 ^ 32 \<Longrightarrow> bitstring_to_view b = Inr b"
  by (auto simp: bitstring_to_view_def make_bitstring_view_def bitstring_wf_def Let_def)

subsection \<open>Items\<close>

text \<open>An item is an array of 16 bytes; \<open>HashedItem\<close> is the same type after the OPRF.\<close>

type_synonym item = "byte list"

definition item_wf :: "item \<Rightarrow> bool" where
  "item_wf v \<longleftrightarrow> length v = 16"

definition zero_item :: item where
  "zero_item = replicate 16 0"

definition item_of_bitstring :: "bitstring \<Rightarrow> item res" where
  "item_of_bitstring b =
     (if 16 < length (bs_data b)
      then Inl (Invalid_argument ''bitstring is too long to fit into an Item'')
      else Inr (bs_data b @ drop (length (bs_data b)) zero_item))"

text \<open>The hash is BLAKE2b of SEAL: a parameter that fills the sixteen bytes.\<close>

definition item_of_string :: "(byte list \<Rightarrow> item) \<Rightarrow> byte list \<Rightarrow> item res" where
  "item_of_string blake2b str =
     (if str = [] then Inl (Invalid_argument ''str cannot be empty'') else Inr (blake2b str))"

text \<open>The two-word constructor and the word view, on a little-endian machine.\<close>

definition item_of_words :: "u64 \<Rightarrow> u64 \<Rightarrow> item" where
  "item_of_words lw hw = write_u64_little_endian lw @ write_u64_little_endian hw"

definition item_words :: "item \<Rightarrow> u64 list" where
  "item_words v = [read_u64_little_endian (take 8 v), read_u64_little_endian (drop 8 v)]"

definition item_hash :: "item \<Rightarrow> u64" where
  "item_hash v =
     (let words = item_words v; result = 17;
          result = 31 * result + words ! 0; result = 31 * result + words ! 1
      in result)"

definition item_to_bitstring :: "item \<Rightarrow> nat \<Rightarrow> bitstring res" where
  "item_to_bitstring v item_bit_count = make_bitstring v item_bit_count"

lemma read_write_u64: "read_u64_little_endian (write_u64_little_endian w) = w"
  by (rule bit_word_eqI) (simp add: bit_read_u64 bit_at_write_u64)

lemma item_of_words_words: "item_words (item_of_words lw hw) = [lw, hw]"
  by (simp add: item_words_def item_of_words_def read_write_u64)

lemma item_of_words_wf: "item_wf (item_of_words lw hw)"
  by (simp add: item_wf_def item_of_words_def)

lemma item_of_bitstring_wf: "item_of_bitstring b = Inr v \<Longrightarrow> item_wf v"
  by (auto simp: item_of_bitstring_def item_wf_def zero_item_def split: if_splits)

subsection \<open>Algebraic items and labels\<close>

type_synonym alg_item = "felt list"
type_synonym alg_label = "felt list"
type_synonym alg_item_label = "(felt \<times> felt list) list"

definition safe_cast_u32 :: "nat \<Rightarrow> nat res" where
  "safe_cast_u32 n = (if n < 2 ^ 32 then Inr n else Inl (Logic_error ''cast failed''))"

lemma safe_cast_u32_small [simp]: "n < 2 ^ 32 \<Longrightarrow> safe_cast_u32 n = Inr n"
  by (simp add: safe_cast_u32_def)

definition algebraize_item :: "item \<Rightarrow> nat \<Rightarrow> modulus \<Rightarrow> alg_item res" where
  "algebraize_item v item_bit_count m =
     bind_res (safe_cast_u32 item_bit_count) (\<lambda>bc.
     bind_res (make_bitstring_view v bc) (\<lambda>view.
       bits_to_field_elts (bs_data view) (bs_bit_count view) m))"

text \<open>
  The label is split like the item, padded with zeros to a multiple of the item's length, and
  dealt out column by column so that part \<open>l\<close> of item position \<open>i\<close> is felt
  \<open>felts_per_item * l + i\<close>.
\<close>

definition pad_label :: "nat \<Rightarrow> felt list \<Rightarrow> felt list" where
  "pad_label felts_per_item alg_label =
     (let label_size = (length alg_label + felts_per_item - 1) div felts_per_item;
          n = label_size * felts_per_item
      in take n alg_label @ replicate (n - length alg_label) 0)"

definition deal_label :: "nat \<Rightarrow> nat \<Rightarrow> felt list \<Rightarrow> felt list list" where
  "deal_label felts_per_item label_size alg_label =
     map (\<lambda>i. map (\<lambda>l. alg_label ! (felts_per_item * l + i)) [0..<label_size]) [0..<felts_per_item]"

definition algebraize_item_label ::
  "item \<Rightarrow> byte list \<Rightarrow> nat \<Rightarrow> modulus \<Rightarrow> alg_item_label res" where
  "algebraize_item_label v label item_bit_count m =
     bind_res (algebraize_item v item_bit_count m) (\<lambda>alg_item.
     bind_res (safe_cast_u32 (length label * 8)) (\<lambda>lbc.
     bind_res (make_bitstring_view label lbc) (\<lambda>label_bsw.
     bind_res (bits_to_field_elts (bs_data label_bsw) (bs_bit_count label_bsw) m) (\<lambda>alg_label.
       let felts_per_item = length alg_item;
           label_size = (length alg_label + felts_per_item - 1) div felts_per_item
       in Inr (zip alg_item (deal_label felts_per_item label_size (pad_label felts_per_item alg_label)))))))"

definition dealgebraize_item ::
  "(u32 \<Rightarrow> nat \<Rightarrow> u32) \<Rightarrow> alg_item \<Rightarrow> nat \<Rightarrow> modulus \<Rightarrow> item res" where
  "dealgebraize_item ub_shl felts item_bit_count m =
     bind_res (safe_cast_u32 item_bit_count) (\<lambda>bc.
     bind_res (field_elts_to_bits ub_shl felts bc m) (\<lambda>buf.
     bind_res (make_bitstring buf bc) (\<lambda>bits.
     bind_res (bitstring_to_view bits) item_of_bitstring)))"

definition dealgebraize_label ::
  "(u32 \<Rightarrow> nat \<Rightarrow> u32) \<Rightarrow> alg_label \<Rightarrow> nat \<Rightarrow> modulus \<Rightarrow> byte list res" where
  "dealgebraize_label ub_shl felts label_bit_count m =
     bind_res (safe_cast_u32 label_bit_count) (\<lambda>bc.
     bind_res (field_elts_to_bits ub_shl felts bc m) (\<lambda>buf.
     bind_res (make_bitstring buf bc) (\<lambda>bits. Inr (fst (bitstring_release bits)))))"

subsection \<open>Round trips\<close>

text \<open>
  The order in which the label parts of an item are read back (\<open>try_get_multi_label\<close> of a bin
  bundle writes part \<open>l\<close> of item position \<open>i\<close> to index \<open>felts_per_item * l + i\<close>).
\<close>

definition collect_label :: "felt list list \<Rightarrow> nat \<Rightarrow> felt list" where
  "collect_label parts label_size =
     concat (map (\<lambda>l. map (\<lambda>i. parts ! i ! l) [0..<length parts]) [0..<label_size])"

lemma collect_deal:
  assumes "0 < f" and "length xs = L * f"
  shows "collect_label (deal_label f L xs) L = xs"
proof -
  have "collect_label (deal_label f L xs) L =
      concat (map (\<lambda>l. map (\<lambda>i. xs ! (f * l + i)) [0..<f]) [0..<L])"
    unfolding collect_label_def deal_label_def
    by (intro arg_cong [where f = concat] map_cong) auto
  also have "\<dots> = map (\<lambda>k. xs ! (f * (k div f) + k mod f)) [0..<L * f]" by (rule concat_rows)
  also have "\<dots> = xs" using assms(2) map_nth [of xs] by simp
  finally show ?thesis .
qed

lemma pad_label_props:
  assumes "0 < f"
  shows "length (pad_label f xs) = ((length xs + f - 1) div f) * f"
    "length xs \<le> length (pad_label f xs)"
    "i < length xs \<Longrightarrow> pad_label f xs ! i = xs ! i"
proof -
  let ?n = "((length xs + f - 1) div f) * f"
  have n: "length xs \<le> ?n"
    using ceil_mult_bounds(1) [of f "length xs"] assms by (cases "length xs = 0") auto
  then have p: "pad_label f xs = xs @ replicate (?n - length xs) 0"
    by (simp add: pad_label_def Let_def)
  show "length (pad_label f xs) = ?n" "length xs \<le> length (pad_label f xs)"
    "i < length xs \<Longrightarrow> pad_label f xs ! i = xs ! i"
    using n by (simp_all add: p nth_append)
qed

lemma algebraize_item_ok:
  assumes "item_wf v" "usable_modulus m" "0 < bc" "bc \<le> 128"
  shows "\<exists>fs. algebraize_item v bc m = Inr fs \<and> length fs = felt_count bc m \<and>
     (\<forall>i<length fs. \<forall>j<64. bit (fs ! i) j =
        (j < mod_bit_count m - 1 \<and> i * (mod_bit_count m - 1) + j < bc \<and>
         bit_at v (i * (mod_bit_count m - 1) + j)))"
proof -
  let ?t = "take ((bc + 7) div 8) v" and ?b = "mod_bit_count m - 1"
  have l: "bc \<le> 8 * length ?t" "bc \<le> length v * 8" using assms by (auto simp: item_wf_def)
  have t: "bit_at ?t k = bit_at v k" if "k < bc" for k using that by (intro bit_at_take) auto
  obtain fs where fs: "bits_to_field_elts ?t bc m = Inr fs" "length fs = felt_count bc m"
    "\<And>i j. i < length fs \<Longrightarrow> j < 64 \<Longrightarrow>
       bit (fs ! i) j = (j < ?b \<and> i * ?b + j < bc \<and> bit_at ?t (i * ?b + j))"
    using bits_to_field_elts_ok [OF assms(2) l(1)] assms by auto
  moreover have "algebraize_item v bc m = bits_to_field_elts ?t bc m"
    using assms l by (auto simp: algebraize_item_def make_bitstring_view_eq make_bitstring_def Let_def
        item_wf_def)
  ultimately show ?thesis using t by auto
qed

text \<open>
  C27. An item survives the conversion to field elements and back: for every usable modulus and
  every admissible item bit count, \<open>dealgebraize_item\<close> applied to \<open>algebraize_item\<close> returns
  a well-formed item with the same bits.
\<close>
theorem item_roundtrip:
  assumes "item_wf v" and "usable_modulus m" and "0 < bc" and "bc \<le> 128"
  shows "\<exists>fs v'. algebraize_item v bc m = Inr fs \<and> length fs = felt_count bc m \<and>
     dealgebraize_item ub fs bc m = Inr v' \<and> item_wf v' \<and> (\<forall>k<bc. bit_at v' k = bit_at v k)"
proof -
  let ?b = "mod_bit_count m - 1"
  have b: "0 < ?b" "?b \<le> 64" using assms by (auto simp: usable_modulus_def)
  obtain fs where fs: "algebraize_item v bc m = Inr fs" "length fs = felt_count bc m"
    "\<And>i j. i < length fs \<Longrightarrow> j < 64 \<Longrightarrow>
       bit (fs ! i) j = (j < ?b \<and> i * ?b + j < bc \<and> bit_at v (i * ?b + j))"
    using algebraize_item_ok [OF assms] by auto
  obtain d where d: "field_elts_to_bits ub fs bc m = Inr d" "length d = (bc + 7) div 8"
    "\<And>k. k < bc \<Longrightarrow> bit_at d k = bit (fs ! (k div ?b)) (k mod ?b)"
    using field_elts_to_bits_ok [OF assms(2,3) _ fs(2)] assms(4) by fastforce
  let ?v = "d @ drop (length d) zero_item"
  have "make_bitstring d bc = Inr \<lparr>bs_data = d, bs_bit_count = bc\<rparr>"
    using assms d(2) by (auto simp: make_bitstring_def Let_def)
  then have "dealgebraize_item ub fs bc m = Inr ?v"
    using assms d(1,2) by (simp add: dealgebraize_item_def bitstring_to_view_wf bitstring_wf_def
        item_of_bitstring_def)
  moreover have "bit_at ?v k = bit_at v k" if k: "k < bc" for k
  proof -
    have "bit_at d k = bit_at v k"
      using d(3) [OF k] felt_bit_lookup(2) [OF assms(2) fs(2) k fs(3)] by simp
    moreover have "k div 8 < length d" using k d(2) by auto
    ultimately show ?thesis by (simp add: bit_at_append)
  qed
  moreover have "item_wf ?v" using assms d(2) by (simp add: item_wf_def zero_item_def)
  ultimately show ?thesis using fs(1,2) by blast
qed

theorem item_roundtrip_witness:
  "\<exists>fs v'. algebraize_item (item_of_words 1 2) 80 example_modulus = Inr fs \<and>
     length fs = felt_count 80 example_modulus \<and>
     dealgebraize_item (\<lambda>_ _. 0) fs 80 example_modulus = Inr v' \<and> item_wf v' \<and>
     (\<forall>k<80. bit_at v' k = bit_at (item_of_words 1 2) k)"
  by (rule item_roundtrip)
    (simp_all add: item_of_words_wf example_modulus_def usable_modulus_def mod_is_zero_def)

lemma felt_count_mult:
  assumes "usable_modulus m" "0 < N"
  shows "felt_count (N * (mod_bit_count m - 1)) m = N"
proof -
  obtain b where b: "mod_bit_count m - 1 = b" "0 < b" using assms(1) by (auto simp: usable_modulus_def)
  have "(N * b + b - 1) div b = N + (b - 1) div b"
    using b(2) by (metis Nat.add_diff_assoc One_nat_def Suc_leI add.commute div_mult_self1 less_not_refl)
  then show ?thesis using b by (simp add: felt_count_def)
qed

lemma algebraize_label_ok:
  assumes "usable_modulus m" "label \<noteq> []" "8 * length label + 1024 < 2 ^ 32"
  shows "\<exists>fs. bits_to_field_elts label (length label * 8) m = Inr fs \<and>
     length fs = felt_count (length label * 8) m \<and>
     (\<forall>k<8 * length label. k div (mod_bit_count m - 1) < length fs \<and>
        bit (fs ! (k div (mod_bit_count m - 1))) (k mod (mod_bit_count m - 1)) = bit_at label k)"
proof -
  obtain fs where fs: "bits_to_field_elts label (length label * 8) m = Inr fs"
    "length fs = felt_count (length label * 8) m"
    "\<And>i j. i < length fs \<Longrightarrow> j < 64 \<Longrightarrow>
       bit (fs ! i) j = (j < mod_bit_count m - 1 \<and>
         i * (mod_bit_count m - 1) + j < length label * 8 \<and>
         bit_at label (i * (mod_bit_count m - 1) + j))"
    using bits_to_field_elts_ok [OF assms(1), of "length label * 8" label] assms(3) by auto
  then show ?thesis
    using felt_bit_lookup [OF assms(1) fs(2) _ fs(3)] by (auto simp: mult.commute)
qed

text \<open>The padded label is not much longer than the label, so its bits still fit 32 bits.\<close>

lemma padded_bits_bound:
  assumes "usable_modulus m" "0 < n" "0 < bc" "f = felt_count bc m"
  shows "((felt_count n m + f - 1) div f) * f * (mod_bit_count m - 1) < n + bc + 2 * (mod_bit_count m - 1)"
proof -
  obtain b where b: "mod_bit_count m - 1 = b" "0 < b" using assms(1) by (auto simp: usable_modulus_def)
  have f: "0 < f" "(f - 1) * b < bc" using felt_count_bounds(2,3) [OF assms(1,3)] assms(4) b(1) by auto
  have n: "0 < felt_count n m" "(felt_count n m - 1) * b < n"
    using felt_count_bounds(2,3) [OF assms(1,2)] b(1) by auto
  have "((felt_count n m + f - 1) div f) * f \<le> felt_count n m + f - 1" by simp
  then have "((felt_count n m + f - 1) div f) * f * b \<le> (felt_count n m + f - 1) * b"
    by (rule mult_right_mono) simp
  also have "\<dots> = (felt_count n m - 1) * b + ((f - 1) * b + b)"
    using n(1) f(1) by (cases f; cases "felt_count n m") (auto simp: algebra_simps)
  also have "\<dots> < n + bc + 2 * b" using n(2) f(2) by linarith
  finally show ?thesis using b(1) by simp
qed

lemma zip_deal:
  assumes "length xs = f"
  shows "map fst (zip xs (deal_label f L ys)) = xs" "map snd (zip xs (deal_label f L ys)) = deal_label f L ys"
  using assms by (simp_all add: deal_label_def)

lemma algebraize_item_label_eq:
  assumes "algebraize_item v bc m = Inr ai" "label \<noteq> []" "8 * length label + 1024 < 2 ^ 32"
    "bits_to_field_elts label (length label * 8) m = Inr al"
  shows "algebraize_item_label v label bc m =
    Inr (zip ai (deal_label (length ai) ((length al + length ai - 1) div length ai) (pad_label (length ai) al)))"
proof -
  have "make_bitstring_view label (length label * 8) =
      Inr \<lparr>bs_data = label, bs_bit_count = length label * 8\<rparr>"
    using assms(2,3) by (auto simp: make_bitstring_view_def Let_def)
  then show ?thesis using assms by (simp add: algebraize_item_label_def Let_def)
qed

lemma label_dealt:
  assumes "item_wf v" and m: "usable_modulus m" and bc: "0 < bc" "bc \<le> 128"
    and label: "label \<noteq> []" "8 * length label + 1024 < 2 ^ 32"
  shows "\<exists>ail L bytes. algebraize_item_label v label bc m = Inr ail \<and>
     algebraize_item v bc m = Inr (map fst ail) \<and> (\<forall>p\<in>set ail. length (snd p) = L) \<and>
     dealgebraize_label ub (collect_label (map snd ail) L) (L * length ail * (mod_bit_count m - 1)) m
       = Inr bytes \<and> take (length label) bytes = label \<and> 8 * length label \<le> L * length ail * (mod_bit_count m - 1)"
proof -
  obtain b where b: "mod_bit_count m - 1 = b" "0 < b" "b \<le> 64" using m by (auto simp: usable_modulus_def)
  obtain ai where ai: "algebraize_item v bc m = Inr ai" "length ai = felt_count bc m"
    using algebraize_item_ok [OF assms(1-4)] by auto
  obtain al where al: "bits_to_field_elts label (length label * 8) m = Inr al"
    "length al = felt_count (length label * 8) m"
    "\<And>k. k < 8 * length label \<Longrightarrow> k div b < length al \<and> bit (al ! (k div b)) (k mod b) = bit_at label k"
    using algebraize_label_ok [OF m label] b(1) by auto
  define f L xs where "f = length ai" and "L = (length al + f - 1) div f" and "xs = pad_label f al"
  have f: "0 < f" using ai(2) felt_count_bounds(3) [OF m bc(1)] by (simp add: f_def)
  note pad = pad_label_props [OF f, where xs = al, folded L_def xs_def]
  define ail where "ail = zip ai (deal_label f L xs)"
  have ail: "map fst ail = ai" "map snd ail = deal_label f L xs" "length ail = f"
    using zip_deal [of ai f L xs] by (auto simp: ail_def f_def deal_label_def)
  have "length (snd p) = L" if "p \<in> set ail" for p
  proof -
    have "snd p \<in> set (map snd ail)" using that by simp
    then show ?thesis unfolding ail(2) by (auto simp: deal_label_def)
  qed
  moreover have A: "algebraize_item_label v label bc m = Inr ail"
    using algebraize_item_label_eq [OF ai(1) label al(1)]
    by (simp add: ail_def f_def L_def xs_def)
  moreover have "collect_label (map snd ail) L = xs"
    using collect_deal [OF f pad(1)] by (simp add: ail(2))
  moreover have cover: "8 * length label \<le> L * f * b"
  proof -
    have "8 * length label \<le> length al * b"
      using felt_count_bounds(1) [OF m, of "length label * 8"] label al(2) b(1) by simp
    also have "\<dots> \<le> L * f * b" using pad(1,2) by (intro mult_right_mono) auto
    finally show ?thesis .
  qed
  moreover obtain bytes where bytes: "dealgebraize_label ub xs (L * f * b) m = Inr bytes"
    "take (length label) bytes = label"
  proof -
    have al0: "0 < length al" using al(2) felt_count_bounds(3) [OF m, of "length label * 8"] label by simp
    then have N: "0 < L * f" using pad(1,2) by linarith
    have lim: "L * f * b + 256 < 2 ^ 32"
      using padded_bits_bound [OF m, of "length label * 8" bc f] label bc ai(2) al(2) b
      by (simp add: L_def f_def)
    have nn: "length xs = felt_count (L * f * b) m" "0 < L * f * b"
      using felt_count_mult [OF m N] pad(1) b N by simp_all
    obtain d where d: "field_elts_to_bits ub xs (L * f * b) m = Inr d"
      "length d = (L * f * b + 7) div 8"
      "\<And>k. k < L * f * b \<Longrightarrow> bit_at d k = bit (xs ! (k div b)) (k mod b)"
      using field_elts_to_bits_ok [OF m nn(2) lim nn(1)] b(1) by auto
    have "make_bitstring d (L * f * b) = Inr \<lparr>bs_data = d, bs_bit_count = L * f * b\<rparr>"
      using d(2) nn(2) lim by (auto simp: make_bitstring_def Let_def)
    then have "dealgebraize_label ub xs (L * f * b) m = Inr d"
      using d(1) lim by (simp add: dealgebraize_label_def bitstring_release_def)
    moreover have "take (length label) d = label"
    proof (rule bytes_eqI)
      show "length (take (length label) d) = length label" using cover d(2) by simp
      fix k assume k: "k < 8 * length label"
      then have "k div 8 < length label" "k < L * f * b" using cover by auto
      then show "bit_at (take (length label) d) k = bit_at label k"
        using d(3) al(3) [OF k] pad(3) by (simp add: bit_at_take)
    qed
    ultimately show thesis by (rule that)
  qed
  ultimately show ?thesis using ai(1) ail(1,3) b(1) by metis
qed

text \<open>
  A label survives algebraization: the felts dealt out to the item's positions, collected
  in the order in which the sender reads them back, decode to bytes that start with the label.
\<close>
theorem label_roundtrip:
  assumes "item_wf v" and m: "usable_modulus m" and bc: "0 < bc" "bc \<le> 128"
    and label: "label \<noteq> []" "8 * length label + 1024 < 2 ^ 32"
  shows "\<exists>ail L bytes. algebraize_item_label v label bc m = Inr ail \<and>
     algebraize_item v bc m = Inr (map fst ail) \<and> (\<forall>p\<in>set ail. length (snd p) = L) \<and>
     dealgebraize_label ub (collect_label (map snd ail) L) (L * length ail * (mod_bit_count m - 1)) m
       = Inr bytes \<and> take (length label) bytes = label"
  using label_dealt [OF assms, of ub] by blast

theorem label_roundtrip_witness:
  "\<exists>ail L bytes. algebraize_item_label (item_of_words 1 2) [9, 8, 7] 80 example_modulus = Inr ail \<and>
     algebraize_item (item_of_words 1 2) 80 example_modulus = Inr (map fst ail) \<and>
     (\<forall>p\<in>set ail. length (snd p) = L) \<and>
     dealgebraize_label (\<lambda>_ _. 0) (collect_label (map snd ail) L)
       (L * length ail * (mod_bit_count example_modulus - 1)) example_modulus = Inr bytes \<and>
     take (length [9, 8, 7 :: byte]) bytes = [9, 8, 7]"
  by (rule label_roundtrip)
    (simp_all add: item_of_words_wf example_modulus_def usable_modulus_def mod_is_zero_def)

end
