(* ===== verification/Utils.thy ===== *)
theory Utils
  imports Bits
begin

text \<open>
  The helper functions of \<open>common/apsi/util/utils.h\<close> and \<open>utils.cpp\<close>: digits, even
  partitions, chunked stream reads, rounding to powers of two, buffer operations, and the set of
  powers of a query that the sender needs.
\<close>

subsection \<open>Digits and rounding\<close>

text \<open>
  \<open>conversion_to_digits\<close> loops while the number is positive; the base is a 64-bit value.
  Base 0 divides by zero and base 1 never ends, so the loop is a partial function.
\<close>

partial_function (option) digits_loop :: "nat \<Rightarrow> nat \<Rightarrow> nat list \<Rightarrow> nat list res option" where
  "digits_loop base number result =
     (if number > 0 then
        if base = 0 then Some (Inl Div_by_zero)
        else digits_loop base (number div base) (result @ [number mod base])
      else Some (Inr result))"

definition conversion_to_digits :: "nat \<Rightarrow> nat \<Rightarrow> nat list res option" where
  "conversion_to_digits inp base = digits_loop base inp []"

fun digits_value :: "nat \<Rightarrow> nat list \<Rightarrow> nat" where
  "digits_value base [] = 0"
| "digits_value base (d # ds) = d + base * digits_value base ds"

lemma digits_value_append:
  "digits_value base (xs @ ys) = digits_value base xs + base ^ length xs * digits_value base ys"
  by (induction xs) (auto simp: algebra_simps)

lemma digits_loop_correct:
  assumes "2 \<le> base"
  shows "\<exists>ds. digits_loop base n acc = Some (Inr (acc @ ds)) \<and> digits_value base ds = n \<and>
    (\<forall>d\<in>set ds. d < base)"
proof (induction n arbitrary: acc rule: less_induct)
  case (less n)
  show ?case
  proof (cases "n = 0")
    case True
    then show ?thesis by (intro exI [of _ "[]"]) (simp add: digits_loop.simps)
  next
    case False
    then have "n div base < n" using assms by simp
    then obtain ds where ds: "digits_loop base (n div base) (acc @ [n mod base]) =
        Some (Inr ((acc @ [n mod base]) @ ds))" "digits_value base ds = n div base"
        "\<forall>d\<in>set ds. d < base"
      using less by blast
    then have "digits_loop base n acc = Some (Inr (acc @ (n mod base # ds)))"
      using False assms by (simp add: digits_loop.simps [of base n])
    then show ?thesis using ds(2,3) assms by (intro exI [of _ "n mod base # ds"]) simp
  qed
qed

text \<open>\<open>round_up_to\<close> on an unsigned type wide enough for \<open>val + step\<close>.\<close>

definition round_up_to :: "nat \<Rightarrow> nat \<Rightarrow> nat res" where
  "round_up_to val step = (if step = 0 then Inl Div_by_zero else Inr ((val + step - 1) div step * step))"

lemma round_up_to_bounds:
  assumes "0 < step"
  shows "\<exists>r. round_up_to val step = Inr r \<and> step dvd r \<and> val \<le> r \<and> r < val + step"
proof -
  define r where "r = (val + step - 1) div step * step"
  have "val + step - 1 = r + (val + step - 1) mod step" by (simp add: r_def)
  moreover have "(val + step - 1) mod step < step" using assms by simp
  ultimately have "val \<le> r" "r < val + step" using assms by linarith+
  moreover have "round_up_to val step = Inr r" "step dvd r"
    using assms by (simp_all add: round_up_to_def r_def)
  ultimately show ?thesis by blast
qed

subsection \<open>Even partitions\<close>

text \<open>The loop of \<open>partition_evenly\<close>: \<open>n\<close> partitions remain.\<close>

fun partitions_loop :: "nat \<Rightarrow> nat \<Rightarrow> nat \<Rightarrow> nat \<Rightarrow> (nat \<times> nat) list" where
  "partitions_loop 0 per_partition extras_needed start = []"
| "partitions_loop (Suc n) per_partition extras_needed start =
     (let stop = start + per_partition + (if extras_needed \<noteq> 0 then 1 else 0)
      in (start, stop) # partitions_loop n per_partition (extras_needed - 1) stop)"

definition partition_evenly :: "nat \<Rightarrow> nat \<Rightarrow> (nat \<times> nat) list" where
  "partition_evenly cnt partition_count =
     (if cnt = 0 \<or> partition_count = 0 then []
      else let pc = min cnt partition_count; per_partition = cnt div pc;
               extras_needed = cnt - per_partition * pc
           in partitions_loop pc per_partition extras_needed 0)"

lemma partitions_loop_covers:
  "e \<le> n \<Longrightarrow> concat (map (\<lambda>(a, b). [a..<b]) (partitions_loop n p e s)) = [s..<s + n * p + e]"
proof (induction n arbitrary: e s)
  case 0
  then show ?case by simp
next
  case (Suc n)
  define t where "t = s + p + (if e \<noteq> 0 then 1 else 0)"
  have A: "partitions_loop (Suc n) p e s = (s, t) # partitions_loop n p (e - 1) t"
    by (simp add: t_def Let_def)
  have B: "concat (map (\<lambda>(a, b). [a..<b]) (partitions_loop n p (e - 1) t)) =
      [t..<t + (n * p + (e - 1))]"
    using Suc.IH [of "e - 1" t] Suc.prems by (simp add: add.assoc)
  have C: "[s..<t + (n * p + (e - 1))] = [s..<t] @ [t..<t + (n * p + (e - 1))]"
    by (rule upt_add_eq_append) (simp add: t_def)
  have "s + Suc n * p + e = t + (n * p + (e - 1))" using Suc.prems by (auto simp: t_def)
  then show ?case unfolding A by (simp only: list.map concat.simps prod.case B C)
qed

lemma partitions_loop_sizes:
  "(a, b) \<in> set (partitions_loop n p e s) \<Longrightarrow> b = a + p \<or> e \<noteq> 0 \<and> b = a + p + 1"
  by (induction n arbitrary: e s) (auto simp: Let_def split: if_splits)

lemma partitions_loop_length: "length (partitions_loop n p e s) = n"
  by (induction n arbitrary: e s) (auto simp: Let_def)

lemma partition_evenly_correct:
  assumes "0 < cnt" "0 < pc"
  shows "length (partition_evenly cnt pc) = min cnt pc"
    "concat (map (\<lambda>(a, b). [a..<b]) (partition_evenly cnt pc)) = [0..<cnt]"
    "(a, b) \<in> set (partition_evenly cnt pc) \<Longrightarrow>
       b - a = cnt div min cnt pc \<or> b - a = cnt div min cnt pc + 1"
proof -
  let ?m = "min cnt pc"
  have m: "0 < ?m" using assms by simp
  have e: "cnt - cnt div ?m * ?m = cnt mod ?m" by (simp add: minus_div_mult_eq_mod)
  have eq: "partition_evenly cnt pc = partitions_loop ?m (cnt div ?m) (cnt mod ?m) 0"
    using assms e by (simp add: partition_evenly_def Let_def)
  show "length (partition_evenly cnt pc) = ?m" by (simp add: eq partitions_loop_length)
  have "cnt mod ?m \<le> ?m" using mod_less_divisor [OF m] by (rule less_imp_le)
  then show "concat (map (\<lambda>(a, b). [a..<b]) (partition_evenly cnt pc)) = [0..<cnt]"
    by (simp add: eq partitions_loop_covers mult.commute)
  show "b - a = cnt div ?m \<or> b - a = cnt div ?m + 1" if "(a, b) \<in> set (partition_evenly cnt pc)"
    using partitions_loop_sizes [of a b ?m "cnt div ?m" "cnt mod ?m" 0] that by (auto simp: eq)
qed

subsection \<open>Reading from a stream\<close>

text \<open>
  An input stream is its remaining bytes and its fail bit. \<open>istream::read\<close> on a stream that
  cannot deliver leaves the rest of the buffer as it was and sets the fail bit; a stream whose
  exception mask includes the fail bit throws instead.
\<close>

record istream =
  is_bytes :: "byte list"
  is_fail :: bool
  is_throws :: bool

definition stream_read :: "istream \<Rightarrow> nat \<Rightarrow> (istream \<times> byte list) res" where
  "stream_read s n =
     (if \<not> is_fail s \<and> n \<le> length (is_bytes s)
      then Inr (s\<lparr>is_bytes := drop n (is_bytes s)\<rparr>, take n (is_bytes s))
      else if is_throws s then Inl (Runtime_error ''ios_base::failure'')
      else let got = (if is_fail s then [] else is_bytes s)
           in Inr (s\<lparr>is_bytes := (if is_fail s then is_bytes s else []), is_fail := True\<rparr>,
                   got @ replicate (n - length got) 0))"

text \<open>
  \<open>read_from_stream\<close> grows the destination in rounds of doubling size. The two arguments after
  the stream are \<open>byte_count\<close> and \<open>to_read\<close> of the loop.
\<close>

partial_function (option) read_rounds ::
  "istream \<Rightarrow> nat \<Rightarrow> nat \<Rightarrow> byte list \<Rightarrow> (istream \<times> byte list) res option" where
  "read_rounds s byte_count to_read destination =
     (if byte_count = 0 then Some (Inr (s, destination))
      else case stream_read s to_read of
          Inl e \<Rightarrow> Some (Inl e)
        | Inr (s', chunk) \<Rightarrow>
            read_rounds s' (sub32 byte_count to_read)
              (min (2 * to_read) (sub32 byte_count to_read)) (destination @ chunk))"

definition read_from_stream ::
  "istream \<Rightarrow> nat \<Rightarrow> byte list \<Rightarrow> (istream \<times> byte list) res option" where
  "read_from_stream s byte_count destination =
     read_rounds s byte_count (min byte_count 1024) destination"

definition u32_of_bytes :: "byte list \<Rightarrow> nat" where
  "u32_of_bytes bs = unat (bs ! 0) + 2 ^ 8 * unat (bs ! 1) + 2 ^ 16 * unat (bs ! 2) + 2 ^ 24 * unat (bs ! 3)"

text \<open>The size-prefixed read: four bytes of size, kept in front of the result.\<close>

definition read_sized_from_stream :: "istream \<Rightarrow> (istream \<times> byte list) res option" where
  "read_sized_from_stream s =
     (case stream_read s 4 of
        Inl e \<Rightarrow> Some (Inl e)
      | Inr (s', sz) \<Rightarrow> read_from_stream s' (u32_of_bytes sz) sz)"

lemma read_rounds_correct:
  assumes "\<not> is_fail s" "n \<le> length (is_bytes s)" "n < 2 ^ 32" "0 < r \<or> n = 0" "r \<le> n"
  shows "read_rounds s n r dest =
    Some (Inr (s\<lparr>is_bytes := drop n (is_bytes s)\<rparr>, dest @ take n (is_bytes s)))"
  using assms
proof (induction n arbitrary: s r dest rule: less_induct)
  case (less n)
  show ?case
  proof (cases "n = 0")
    case True
    then show ?thesis by (simp add: read_rounds.simps)
  next
    case False
    then have r: "0 < r" using less.prems by simp
    let ?s = "s\<lparr>is_bytes := drop r (is_bytes s)\<rparr>"
    have rd: "stream_read s r = Inr (?s, take r (is_bytes s))"
      using less.prems by (simp add: stream_read_def)
    have m: "sub32 n r = n - r" using less.prems by (intro sub32_ge) auto
    have "read_rounds ?s (n - r) (min (2 * r) (n - r)) (dest @ take r (is_bytes s)) =
       Some (Inr (?s\<lparr>is_bytes := drop (n - r) (is_bytes ?s)\<rparr>,
         (dest @ take r (is_bytes s)) @ take (n - r) (is_bytes ?s)))"
      using less.prems r False by (intro less.IH) auto
    moreover have "take n (is_bytes s) = take r (is_bytes s) @ take (n - r) (drop r (is_bytes s))"
      using less.prems(5) by (metis le_add_diff_inverse take_add)
    ultimately show ?thesis using False rd m less.prems(5)
      by (simp add: read_rounds.simps [of s n r])
  qed
qed

text \<open>
  A stream that has run dry and whose exceptions are not enabled does not stop the rounds: the
  destination still grows to the full requested size, filled with zeros.
\<close>

lemma read_rounds_dry:
  assumes "is_fail s" "\<not> is_throws s" "n < 2 ^ 32" "0 < r \<or> n = 0" "r \<le> n"
  shows "read_rounds s n r dest = Some (Inr (s, dest @ replicate n 0))"
  using assms
proof (induction n arbitrary: r dest rule: less_induct)
  case (less n)
  show ?case
  proof (cases "n = 0")
    case True
    then show ?thesis by (simp add: read_rounds.simps)
  next
    case False
    then have r: "0 < r" using less.prems by simp
    have rd: "stream_read s r = Inr (s, replicate r 0)"
      using less.prems by (simp add: stream_read_def)
    have m: "sub32 n r = n - r" using less.prems by (intro sub32_ge) auto
    have "read_rounds s (n - r) (min (2 * r) (n - r)) (dest @ replicate r 0) =
       Some (Inr (s, (dest @ replicate r 0) @ replicate (n - r) 0))"
      using less.prems r False by (intro less.IH) auto
    moreover have "replicate n (0::byte) = replicate r 0 @ replicate (n - r) 0"
      using less.prems(5) by (metis le_add_diff_inverse replicate_add)
    ultimately show ?thesis using False rd m by (simp add: read_rounds.simps [of s n r])
  qed
qed

subsection \<open>Rounding up to a power of two\<close>

definition next_power_of_2 :: "u64 \<Rightarrow> u64" where
  "next_power_of_2 v =
     (let v = v - 1;
          v = v OR drop_bit 1 v;
          v = v OR drop_bit 2 v;
          v = v OR drop_bit 4 v;
          v = v OR drop_bit 8 v;
          v = v OR drop_bit 16 v;
          v = v OR drop_bit 32 v;
          v = v + 1
      in v + (if v = 0 then 1 else 0))"

text \<open>Smearing: after the shifts, a bit is set when one of the bits at or above it was.\<close>

lemma smear_step:
  assumes "\<And>i. bit (x :: u64) i \<longleftrightarrow> (\<exists>j. i \<le> j \<and> j < i + n \<and> bit v j)"
  shows "bit (x OR drop_bit n x) i \<longleftrightarrow> (\<exists>j. i \<le> j \<and> j < i + 2 * n \<and> bit v j)"
proof -
  have "(\<exists>j. i \<le> j \<and> j < i + 2 * n \<and> bit v j) \<longleftrightarrow>
    (\<exists>j. i \<le> j \<and> j < i + n \<and> bit v j) \<or> (\<exists>j. n + i \<le> j \<and> j < n + i + n \<and> bit v j)"
    by (auto; metis add.commute add.left_commute le_add2 mult_2 not_le order.trans)
  then show ?thesis by (simp add: bit_or_iff bit_drop_bit_eq assms add.commute)
qed

definition smear :: "u64 \<Rightarrow> u64" where
  "smear v =
     (let v = v OR drop_bit 1 v; v = v OR drop_bit 2 v; v = v OR drop_bit 4 v;
          v = v OR drop_bit 8 v; v = v OR drop_bit 16 v in v OR drop_bit 32 v)"

lemma bit_smear: "bit (smear v) i \<longleftrightarrow> (\<exists>j\<ge>i. bit v j)"
proof -
  have s0: "bit v i \<longleftrightarrow> (\<exists>j. i \<le> j \<and> j < i + 1 \<and> bit v j)" for i
    by (auto simp: less_Suc_eq_le dest: le_antisym)
  note s1 = smear_step [OF s0]
  note s2 = smear_step [OF s1 [unfolded mult_1_right]]
  note s3 = smear_step [OF s2 [simplified]]
  note s4 = smear_step [OF s3 [simplified]]
  note s5 = smear_step [OF s4 [simplified]]
  note s6 = smear_step [OF s5 [simplified]]
  have "bit (smear v) i \<longleftrightarrow> (\<exists>j. i \<le> j \<and> j < i + 64 \<and> bit v j)"
    using s6 [of i] by (simp add: smear_def Let_def)
  also have "\<dots> \<longleftrightarrow> (\<exists>j\<ge>i. bit v j)"
    using bit_imp_le_length [of v] by fastforce
  finally show ?thesis .
qed

lemma next_power_of_2_eq:
  "next_power_of_2 v = (let w = smear (v - 1) + 1 in w + (if w = 0 then 1 else 0))"
  by (simp add: next_power_of_2_def smear_def Let_def)

lemma top_bit:
  assumes "(w :: u64) \<noteq> 0"
  obtains k where "k < 64" "bit w k" "\<And>j. bit w j \<Longrightarrow> j \<le> k"
proof -
  have fin: "finite {j. bit w j}"
    by (rule finite_subset [of _ "{..<64}"]) (auto dest: bit_imp_le_length)
  have ne: "{j. bit w j} \<noteq> {}" using assms by (auto simp: bit_eq_iff)
  show thesis
  proof (rule that)
    show "bit w (Max {j. bit w j})" using Max_in [OF fin ne] by simp
    then show "Max {j. bit w j} < 64" using bit_imp_le_length by fastforce
    show "j \<le> Max {j. bit w j}" if "bit w j" for j using Max_ge [OF fin] that by simp
  qed
qed

lemma smear_value:
  assumes "w \<noteq> 0"
  obtains k where "k < 64" "smear w = mask (Suc k)" "2 ^ k \<le> unat w" "unat w < 2 ^ Suc k"
proof -
  obtain k where k: "k < 64" "bit w k" "\<And>j. bit w j \<Longrightarrow> j \<le> k" using top_bit [OF assms] by blast
  have "smear w = mask (Suc k)"
    by (rule bit_word_eqI) (use k in \<open>auto simp: bit_smear bit_mask_iff less_Suc_eq_le intro: le_trans\<close>)
  moreover have "2 ^ k \<le> unat w"
  proof -
    have "bit (unat w) k" using k(1,2) by (simp add: bit_unsigned_iff)
    then have "unat w div 2 ^ k \<noteq> 0" by (auto simp: bit_iff_odd intro: Nat.gr0I)
    then show ?thesis by (metis div_less not_le)
  qed
  moreover have "take_bit (Suc k) w = w"
    by (rule bit_word_eqI) (use k(3) in \<open>auto simp: bit_take_bit_iff less_Suc_eq_le\<close>)
  then have "unat w < 2 ^ Suc k" by (metis take_bit_nat_less_exp unsigned_take_bit_eq)
  ultimately show thesis using k(1) that by blast
qed

lemma next_power_of_2_correct:
  assumes "1 \<le> unat v" "unat v \<le> 2 ^ 63"
  shows "\<exists>k. unat (next_power_of_2 v) = 2 ^ k \<and> unat v \<le> 2 ^ k \<and> 2 ^ k < 2 * unat v"
proof (cases "unat v = 1")
  case True
  then have "v = 1" by (metis unat_1 word_unat_eq_iff)
  moreover have "smear 0 = 0" by (simp add: smear_def)
  ultimately show ?thesis by (intro exI [of _ 0]) (simp add: next_power_of_2_eq)
next
  case False
  let ?w = "v - 1"
  have w: "unat ?w = unat v - 1" using assms(1) by (intro unat_minus_one) (auto simp: unat_gt_0)
  then have "?w \<noteq> 0" using False assms(1) by (metis diff_is_0_eq le_antisym unat_0)
  then obtain k where k: "k < 64" "smear ?w = mask (Suc k)" "2 ^ k \<le> unat ?w" "unat ?w < 2 ^ Suc k"
    by (rule smear_value)
  have "(2::nat) ^ k < 2 ^ 63" using k(3) w assms by linarith
  then have "k < 63" by (rule power_less_imp_less_exp [rotated]) simp
  then have lt: "(2::nat) ^ Suc k < 2 ^ LENGTH(64)" by (intro power_strict_increasing) auto
  have "mask (Suc k) + 1 = (of_nat (2 ^ Suc k) :: u64)" by (simp add: mask_eq_exp_minus_1)
  then have u: "unat (mask (Suc k) + 1 :: u64) = 2 ^ Suc k"
    using lt by (simp only: unat_of_nat mod_less)
  then have "mask (Suc k) + 1 \<noteq> (0 :: u64)" by (metis power_not_zero unat_0 zero_neq_numeral)
  then have "unat (next_power_of_2 v) = 2 ^ Suc k"
    using u by (simp add: next_power_of_2_eq k(2) Let_def del: power_Suc)
  moreover have "unat v \<le> 2 ^ Suc k" "2 ^ Suc k < 2 * unat v" using k(3,4) w assms(1) by auto
  ultimately show ?thesis by blast
qed

subsection \<open>Byte buffers\<close>

text \<open>
  \<open>xor_buffers\<close> works on four bytes at a time and finishes byte by byte. A 32-bit load and
  store are the four bytes of the buffer, so the step of the first loop xors a block of four.
  The buffers are at least \<open>count\<close> bytes long (the code has no way to check).
\<close>

definition load_u32 :: "byte list \<Rightarrow> u32" where
  "load_u32 bs = ucast (bs ! 0) OR push_bit 8 (ucast (bs ! 1)) OR push_bit 16 (ucast (bs ! 2)) OR
     push_bit 24 (ucast (bs ! 3))"

definition store_u32 :: "u32 \<Rightarrow> byte list" where
  "store_u32 w = [ucast w, ucast (drop_bit 8 w), ucast (drop_bit 16 w), ucast (drop_bit 24 w)]"

fun xor_tail :: "byte list \<Rightarrow> byte list \<Rightarrow> nat \<Rightarrow> byte list" where
  "xor_tail buf1 buf2 0 = buf1"
| "xor_tail buf1 buf2 (Suc count) =
     (case (buf1, buf2) of
        (a # as, b # bs) \<Rightarrow> (a XOR b) # xor_tail as bs count
      | _ \<Rightarrow> buf1)"

fun xor_buffers :: "byte list \<Rightarrow> byte list \<Rightarrow> nat \<Rightarrow> byte list" where
  "xor_buffers buf1 buf2 count =
     (if 4 \<le> count then
        store_u32 (load_u32 buf1 XOR load_u32 buf2) @ xor_buffers (drop 4 buf1) (drop 4 buf2) (count - 4)
      else xor_tail buf1 buf2 count)"

declare xor_buffers.simps [simp del]

lemma store_load_xor:
  "store_u32 (load_u32 [a, b, c, d] XOR load_u32 [a', b', c', d']) =
   [a XOR a', b XOR b', c XOR c', d XOR d']"
  by (auto simp: store_u32_def load_u32_def intro!: byte_eqI)
    (auto simp: bit_ucast_iff bit_drop_bit_eq bit_xor_iff bit_or_iff bit_push_bit_iff)

lemma xor_tail_correct:
  assumes "count \<le> length xs" "count \<le> length ys"
  shows "xor_tail xs ys count = map2 (XOR) (take count xs) (take count ys) @ drop count xs"
  using assms by (induction xs ys count rule: xor_tail.induct) (auto split: list.splits)

lemma list_four:
  assumes "4 \<le> length xs"
  obtains a b c d zs where "xs = a # b # c # d # zs"
proof -
  obtain a ys where "xs = a # ys" "3 \<le> length ys" using assms by (cases xs) auto
  moreover then obtain b ys' where "ys = b # ys'" "2 \<le> length ys'" by (cases ys) auto
  moreover then obtain c ys'' where "ys' = c # ys''" "1 \<le> length ys''" by (cases ys') auto
  moreover then obtain d zs where "ys'' = d # zs" by (cases ys'') auto
  ultimately show thesis using that by blast
qed

lemma xor_buffers_correct:
  assumes "count \<le> length xs" "count \<le> length ys"
  shows "xor_buffers xs ys count = map2 (XOR) (take count xs) (take count ys) @ drop count xs"
  using assms
proof (induction xs ys count rule: xor_buffers.induct)
  case (1 xs ys count)
  show ?case
  proof (cases "4 \<le> count")
    case True
    then obtain n where n: "count = Suc (Suc (Suc (Suc n)))"
      by (intro that [of "count - 4"]) simp
    have "4 \<le> length xs" "4 \<le> length ys" using True 1(2,3) by auto
    then obtain a b c d zs a' b' c' d' zs' where e: "xs = a # b # c # d # zs"
      "ys = a' # b' # c' # d' # zs'" by (metis list_four)
    have "xor_buffers zs zs' n = map2 (XOR) (take n zs) (take n zs') @ drop n zs"
      using 1 by (simp add: e n)
    moreover have "load_u32 xs = load_u32 [a, b, c, d]" "load_u32 ys = load_u32 [a', b', c', d']"
      by (simp_all add: e load_u32_def)
    ultimately have "xor_buffers xs ys count =
        [a XOR a', b XOR b', c XOR c', d XOR d'] @ map2 (XOR) (take n zs) (take n zs') @ drop n zs"
      by (subst xor_buffers.simps) (simp only: store_load_xor, simp add: e n)
    then show ?thesis by (simp add: e n)
  next
    case False
    then show ?thesis using 1(2,3) by (subst xor_buffers.simps) (simp add: xor_tail_correct)
  qed
qed

subsection \<open>The powers of a query\<close>

text \<open>
  The loops of \<open>create_powers_set\<close> compare a 32-bit counter with their last value after
  advancing it, so they end only when the counter can pass that value without wrapping around.
\<close>

partial_function (option) powers_loop :: "nat \<Rightarrow> nat \<Rightarrow> nat \<Rightarrow> oset \<Rightarrow> oset option" where
  "powers_loop pw last_power step result =
     (if pw \<le> last_power
      then powers_loop (wrap32 (pw + step)) last_power step (insort_insert pw result)
      else Some result)"

definition create_powers_set :: "nat \<Rightarrow> nat \<Rightarrow> oset res option" where
  "create_powers_set ps_low_degree target_degree =
     (if ps_low_degree > target_degree
      then Some (Inl (Invalid_argument ''ps_low_degree cannot be bigger than target_degree''))
      else if target_degree = 0
      then Some (Inl (Invalid_argument ''target_degree cannot be zero''))
      else if ps_low_degree \<noteq> 0 then
        case powers_loop 1 ps_low_degree 1 [] of
          None \<Rightarrow> None
        | Some result \<Rightarrow>
            let high_powers_first = wrap32 (ps_low_degree + 1)
            in if high_powers_first = 0 then Some (Inl Div_by_zero)
               else let high_powers_last = target_degree div high_powers_first * high_powers_first
                    in map_option Inr (powers_loop high_powers_first high_powers_last high_powers_first result)
      else map_option Inr (powers_loop 1 target_degree 1 []))"

lemma powers_loop_correct:
  assumes "0 < step" "last_power + step < 2 ^ 32" "oset_ok acc" "p \<le> last_power + step"
  shows "\<exists>xs. powers_loop p last_power step acc = Some xs \<and> oset_ok xs \<and>
     set xs = set acc \<union> {p + i * step | i. p + i * step \<le> last_power}"
  using assms
proof (induction "last_power + step - p" arbitrary: p acc rule: less_induct)
  case less
  show ?case
  proof (cases "p \<le> last_power")
    case False
    then have "{p + i * step | i. p + i * step \<le> last_power} = {}" by auto
    with False less.prems(3) show ?thesis by (simp add: powers_loop.simps)
  next
    case True
    let ?q = "p + step"
    have w: "wrap32 ?q = ?q" using True less.prems(2) by simp
    have "\<exists>xs. powers_loop ?q last_power step (insort_insert p acc) = Some xs \<and> oset_ok xs \<and>
        set xs = set (insort_insert p acc) \<union> {?q + i * step | i. ?q + i * step \<le> last_power}"
      using True less.prems by (intro less.hyps) auto
    then obtain xs where xs: "powers_loop ?q last_power step (insort_insert p acc) = Some xs"
      "oset_ok xs" "set xs = insert p (set acc) \<union> {?q + i * step | i. ?q + i * step \<le> last_power}"
      by (auto simp: set_insort_insert)
    have "{p + i * step | i. p + i * step \<le> last_power} =
        insert p {?q + i * step | i. ?q + i * step \<le> last_power}" (is "?A = insert p ?B")
    proof
      show "?A \<subseteq> insert p ?B"
      proof
        fix x assume "x \<in> ?A"
        then obtain i where i: "x = p + i * step" "x \<le> last_power" by auto
        then show "x \<in> insert p ?B" by (cases i) (auto simp: add.assoc)
      qed
      show "insert p ?B \<subseteq> ?A"
        using True by (auto intro: exI [of _ 0] exI [of _ "Suc _"] simp: add.assoc)
    qed
    then show ?thesis using xs True w by (simp add: powers_loop.simps [of p])
  qed
qed

text \<open>The powers the two evaluation methods use.\<close>

definition power_targets :: "nat \<Rightarrow> nat \<Rightarrow> nat set" where
  "power_targets low deg =
     (if low = 0 then {1..deg} else {1..low} \<union> {k * (low + 1) | k. 1 \<le> k \<and> k * (low + 1) \<le> deg})"

lemma powers_loop_upto:
  assumes "n + 1 < 2 ^ 32"
  shows "\<exists>xs. powers_loop 1 n 1 [] = Some xs \<and> oset_ok xs \<and> set xs = {1..n}"
proof -
  have "{1 + i * 1 | i. 1 + i * 1 \<le> n} = {1..n}"
    by (auto simp: Suc_le_eq gr0_conv_Suc)
  then show ?thesis using powers_loop_correct [of 1 n "[]" 1] assms by auto
qed

lemma create_powers_set_targets:
  assumes "low \<le> deg" and "0 < deg" and "deg + low + 1 < 2 ^ 32"
  shows "\<exists>xs. create_powers_set low deg = Some (Inr xs) \<and> oset_ok xs \<and> set xs = power_targets low deg"
proof (cases "low = 0")
  case True
  then show ?thesis using powers_loop_upto [of deg] assms
    by (auto simp: create_powers_set_def power_targets_def)
next
  case False
  let ?h = "low + 1" and ?l = "deg div (low + 1) * (low + 1)"
  obtain lows where lows: "powers_loop 1 low 1 [] = Some lows" "oset_ok lows" "set lows = {1..low}"
    using powers_loop_upto [of low] assms by auto
  have w: "wrap32 (low + 1) = low + 1" using assms by simp
  have "?l \<le> deg" by (rule div_times_less_eq_dividend)
  then have lim: "?l + ?h < 2 ^ 32" using assms(3) by linarith
  obtain xs where xs: "powers_loop ?h ?l ?h lows = Some xs" "oset_ok xs"
    "set xs = set lows \<union> {?h + i * ?h | i. ?h + i * ?h \<le> ?l}"
    using powers_loop_correct [OF _ lim lows(2), of ?h] by auto
  have "{?h + i * ?h | i. ?h + i * ?h \<le> ?l} = {k * ?h | k. 1 \<le> k \<and> k * ?h \<le> deg}"
    (is "?A = ?B")
  proof
    show "?A \<subseteq> ?B"
    proof
      fix x assume "x \<in> ?A"
      then obtain i where "x = Suc i * ?h" "x \<le> ?l" by auto
      then show "x \<in> ?B" using \<open>?l \<le> deg\<close> by (intro CollectI exI [of _ "Suc i"]) auto
    qed
    show "?B \<subseteq> ?A"
    proof
      fix x assume "x \<in> ?B"
      then obtain k where k: "x = k * ?h" "1 \<le> k" "k * ?h \<le> deg" by auto
      then have "k \<le> deg div ?h" by (simp add: less_eq_div_iff_mult_less_eq)
      then have "k * ?h \<le> ?l" by (rule mult_right_mono) simp
      then show "x \<in> ?A" using k(1,2) by (intro CollectI exI [of _ "k - 1"]) (cases k, auto)
    qed
  qed
  then show ?thesis using False assms lows xs w
    by (simp add: create_powers_set_def power_targets_def Let_def)
qed

text \<open>
  Whenever the degrees leave room below 2^32, \<open>create_powers_set\<close> returns: an error if the
  target degree is 0 or below the low degree, and otherwise exactly the powers from 1 to the target
  degree (direct evaluation) or the low powers and the multiples of \<open>ps_low_degree + 1\<close>
  (Paterson-Stockmeyer), in increasing order.
\<close>
theorem create_powers_set_correct:
  assumes "deg + low + 1 < 2 ^ 32"
  shows "\<exists>r. create_powers_set low deg = Some r \<and>
    (case r of Inl _ \<Rightarrow> deg < low \<or> deg = 0
     | Inr xs \<Rightarrow> low \<le> deg \<and> 0 < deg \<and> oset_ok xs \<and> set xs = power_targets low deg)"
proof (cases "low \<le> deg \<and> 0 < deg")
  case True
  then show ?thesis using create_powers_set_targets [of low deg] assms by fastforce
next
  case False
  then show ?thesis by (auto simp: create_powers_set_def)
qed

theorem create_powers_set_correct_witness:
  "\<exists>r. create_powers_set 3 17 = Some r \<and>
    (case r of Inl _ \<Rightarrow> 17 < (3 :: nat) \<or> 17 = (0 :: nat)
     | Inr xs \<Rightarrow> 3 \<le> (17 :: nat) \<and> 0 < (17 :: nat) \<and> oset_ok xs \<and> set xs = power_targets 3 17)"
  by (rule create_powers_set_correct) simp

text \<open>
  A chunked read of \<open>n\<close> bytes ends for every 32-bit \<open>n\<close>; from a stream that holds them
  it appends exactly the next \<open>n\<close> bytes and advances the stream by \<open>n\<close>.
\<close>
theorem read_from_stream_correct:
  assumes "\<not> is_fail s" and "n \<le> length (is_bytes s)" and "n < 2 ^ 32"
  shows "read_from_stream s n dest =
    Some (Inr (s\<lparr>is_bytes := drop n (is_bytes s)\<rparr>, dest @ take n (is_bytes s)))"
  unfolding read_from_stream_def using assms by (intro read_rounds_correct) auto

theorem read_from_stream_correct_witness:
  "read_from_stream \<lparr>is_bytes = [1, 2, 3], is_fail = False, is_throws = True\<rparr> 2 [7] =
    Some (Inr (\<lparr>is_bytes = [1, 2, 3], is_fail = False, is_throws = True\<rparr>
                 \<lparr>is_bytes := drop 2 [1, 2, 3]\<rparr>, [7] @ take 2 [1, 2, 3]))"
  using read_from_stream_correct
      [of "\<lparr>is_bytes = [1, 2, 3], is_fail = False, is_throws = True\<rparr>" 2 "[7]"]
  by simp

text \<open>
  C34. The rounds are meant to avoid allocating for a bogus size, but they never look at the state
  of the stream: on a stream that has already failed (and does not throw) the destination still
  grows by the full requested size.
\<close>
theorem read_from_stream_ignores_failure:
  assumes "n < 2 ^ 32"
  shows "read_from_stream \<lparr>is_bytes = bs, is_fail = True, is_throws = False\<rparr> n dest =
    Some (Inr (\<lparr>is_bytes = bs, is_fail = True, is_throws = False\<rparr>, dest @ replicate n 0))"
  unfolding read_from_stream_def using assms by (intro read_rounds_dry) auto

theorem read_from_stream_ignores_failure_witness:
  "read_from_stream \<lparr>is_bytes = [], is_fail = True, is_throws = False\<rparr> 1000000000 [] =
    Some (Inr (\<lparr>is_bytes = [], is_fail = True, is_throws = False\<rparr>, [] @ replicate 1000000000 0))"
  by (rule read_from_stream_ignores_failure) simp

text \<open>
  Rounding up to a power of two: for every value from 1 to 2^63 the bit trick returns the
  least power of two that is not below the value.
\<close>
theorem next_power_of_2_least:
  assumes "1 \<le> unat v" and "unat v \<le> 2 ^ 63"
  shows "\<exists>k. unat (next_power_of_2 v) = 2 ^ k \<and> unat v \<le> 2 ^ k \<and> (\<forall>j. unat v \<le> 2 ^ j \<longrightarrow> k \<le> j)"
proof -
  obtain k where k: "unat (next_power_of_2 v) = 2 ^ k" "unat v \<le> 2 ^ k" "2 ^ k < 2 * unat v"
    using next_power_of_2_correct [OF assms] by blast
  have "k \<le> j" if "unat v \<le> 2 ^ j" for j
  proof -
    have "(2::nat) ^ k < 2 ^ Suc j" using k(3) that by simp
    then have "k < Suc j" by (rule power_less_imp_less_exp [rotated]) simp
    then show ?thesis by simp
  qed
  then show ?thesis using k by blast
qed

theorem next_power_of_2_least_witness:
  "\<exists>k. unat (next_power_of_2 5) = 2 ^ k \<and> unat (5 :: u64) \<le> 2 ^ k \<and>
     (\<forall>j. unat (5 :: u64) \<le> 2 ^ j \<longrightarrow> k \<le> j)"
  by (rule next_power_of_2_least) simp_all

end
