(* ===== verification/Powers.thy ===== *)
theory Powers
  imports Utils "HOL-Library.AList"
begin

text \<open>
  \<open>PowersDag\<close> (\<open>common/apsi/powers.h\<close>, \<open>powers.cpp\<close>): the plan by which the powers of a query
  are computed from the powers the receiver sends. \<open>configure\<close> is modelled with its two nested
  loops; the lemmas show that the plan is a valid DAG, that its depths are optimal, and that
  walking the targets in increasing order is a topological order.
\<close>

subsection \<open>State\<close>

record powers_node =
  pn_power :: nat
  pn_depth :: nat
  pn_parents :: "nat \<times> nat"

definition is_source :: "powers_node \<Rightarrow> bool" where
  "is_source n \<longleftrightarrow> fst (pn_parents n) = 0 \<and> snd (pn_parents n) = 0"

text \<open>
  The unordered map of nodes is an association list; the code reads it by key or walks it in an
  unspecified order, of which the order of the list is one.
\<close>

type_synonym node_map = "(nat \<times> powers_node) list"

record powers_dag =
  pd_nodes :: node_map
  pd_configured :: bool
  pd_target_powers :: oset
  pd_depth :: nat
  pd_source_count :: nat

definition empty_dag :: powers_dag where
  "empty_dag = \<lparr>pd_nodes = [], pd_configured = False, pd_target_powers = [], pd_depth = 0,
     pd_source_count = 0\<rparr>"

definition node_at :: "node_map \<Rightarrow> nat \<Rightarrow> powers_node res" where
  "node_at nodes p = (case map_of nodes p of None \<Rightarrow> Inl Out_of_range | Some n \<Rightarrow> Inr n)"

subsection \<open>Configuration\<close>

text \<open>\<open>reset\<close> leaves the map of nodes as it is.\<close>

definition pd_reset :: "powers_dag \<Rightarrow> powers_dag" where
  "pd_reset d = d\<lparr>pd_target_powers := [], pd_depth := 0, pd_source_count := 0, pd_configured := False\<rparr>"

text \<open>
  The search for the best first parent \<open>s1\<close>; the triple is the best depth and parents so far.
\<close>

fun best_parents ::
  "node_map \<Rightarrow> oset \<Rightarrow> nat \<Rightarrow> nat list \<Rightarrow> nat \<times> nat \<times> nat \<Rightarrow> (nat \<times> nat \<times> nat) res" where
  "best_parents nodes target_powers curr_power [] best = Inr best"
| "best_parents nodes target_powers curr_power (s1 # rest) (optimal_depth, optimal_s1, optimal_s2) =
     (if s1 \<ge> curr_power then Inr (optimal_depth, optimal_s1, optimal_s2)
      else let s2 = curr_power - s1
           in if s2 \<notin> set target_powers
              then best_parents nodes target_powers curr_power rest (optimal_depth, optimal_s1, optimal_s2)
              else bind_res (node_at nodes s1) (\<lambda>n1. bind_res (node_at nodes s2) (\<lambda>n2.
                let depth = max (pn_depth n1) (pn_depth n2) + 1
                in best_parents nodes target_powers curr_power rest
                     (if depth < optimal_depth then (depth, s1, s2)
                      else (optimal_depth, optimal_s1, optimal_s2)))))"

fun insert_sources :: "nat list \<Rightarrow> node_map \<Rightarrow> node_map" where
  "insert_sources [] nodes = nodes"
| "insert_sources (s # ss) nodes =
     insert_sources ss (AList.update s \<lparr>pn_power = s, pn_depth = 0, pn_parents = (0, 0)\<rparr> nodes)"

fun add_targets ::
  "oset \<Rightarrow> oset \<Rightarrow> nat list \<Rightarrow> node_map \<Rightarrow> nat \<Rightarrow> (node_map \<times> nat) res" where
  "add_targets source_powers target_powers [] nodes curr_depth = Inr (nodes, curr_depth)"
| "add_targets source_powers target_powers (curr_power # rest) nodes curr_depth =
     (if curr_power \<in> set source_powers
      then add_targets source_powers target_powers rest nodes curr_depth
      else bind_res (best_parents nodes target_powers curr_power target_powers
                       (curr_power - 1, curr_power - 1, 1))
        (\<lambda>(optimal_depth, optimal_s1, optimal_s2).
          add_targets source_powers target_powers rest
            (AList.update curr_power
               \<lparr>pn_power = curr_power, pn_depth = optimal_depth, pn_parents = (optimal_s1, optimal_s2)\<rparr>
               nodes)
            (max curr_depth optimal_depth)))"

definition pd_configure :: "powers_dag \<Rightarrow> oset \<Rightarrow> oset \<Rightarrow> (powers_dag \<times> bool) res" where
  "pd_configure d source_powers target_powers =
     (let d = pd_reset d
      in if 0 \<in> set source_powers \<or> 1 \<notin> set source_powers then Inr (d, False)
         else if 0 \<in> set target_powers \<or> 1 \<notin> set target_powers then Inr (d, False)
         else if \<not> set source_powers \<subseteq> set target_powers then Inr (d, False)
         else bind_res (add_targets source_powers target_powers target_powers
                          (insert_sources source_powers (pd_nodes d)) 0)
           (\<lambda>(nodes, curr_depth).
              Inr (\<lparr>pd_nodes = nodes, pd_configured = True, pd_target_powers = target_powers,
                    pd_depth = curr_depth, pd_source_count = length source_powers\<rparr>, True)))"

subsection \<open>Queries\<close>

definition configured_only :: "powers_dag \<Rightarrow> 'a \<Rightarrow> 'a res" where
  "configured_only d x =
     (if pd_configured d then Inr x else Inl (Logic_error ''PowersDag has not been configured''))"

definition dag_target_powers :: "powers_dag \<Rightarrow> oset res" where
  "dag_target_powers d = configured_only d (pd_target_powers d)"

definition dag_depth :: "powers_dag \<Rightarrow> nat res" where
  "dag_depth d = configured_only d (pd_depth d)"

definition dag_source_count :: "powers_dag \<Rightarrow> nat res" where
  "dag_source_count d = configured_only d (pd_source_count d)"

definition dag_source_nodes :: "powers_dag \<Rightarrow> powers_node list res" where
  "dag_source_nodes d =
     configured_only d (filter (\<lambda>n. fst (pn_parents n) = 0 \<and> snd (pn_parents n) = 0) (map snd (pd_nodes d)))"

text \<open>\<open>apply\<close> calls a state-changing function on the node of every target, in order.\<close>

definition dag_apply :: "powers_dag \<Rightarrow> (powers_node \<Rightarrow> 's \<Rightarrow> 's res) \<Rightarrow> 's \<Rightarrow> 's res" where
  "dag_apply d func s =
     (if \<not> pd_configured d then Inl (Logic_error ''PowersDag has not been configured'')
      else fold_res (\<lambda>p st. bind_res (node_at (pd_nodes d) p) (\<lambda>n. func n st)) (pd_target_powers d) s)"

subsection \<open>What a valid plan is\<close>

definition depth_of :: "node_map \<Rightarrow> nat \<Rightarrow> nat" where
  "depth_of nodes p = (case map_of nodes p of None \<Rightarrow> 0 | Some n \<Rightarrow> pn_depth n)"

definition split_of :: "nat set \<Rightarrow> nat \<Rightarrow> nat \<Rightarrow> nat \<Rightarrow> bool" where
  "split_of T p a b \<longleftrightarrow> a \<in> T \<and> b \<in> T \<and> 0 < a \<and> 0 < b \<and> a + b = p"

definition split_depth :: "node_map \<Rightarrow> nat \<Rightarrow> nat \<Rightarrow> nat" where
  "split_depth nodes a b = Suc (max (depth_of nodes a) (depth_of nodes b))"

text \<open>
  A source has no parents and depth 0; any other target is the product of two targets, at one
  more than the larger of their depths, and no other pair of targets would be shallower.
\<close>

definition node_valid :: "node_map \<Rightarrow> nat set \<Rightarrow> nat set \<Rightarrow> nat \<Rightarrow> bool" where
  "node_valid nodes S T p \<longleftrightarrow>
     (\<exists>n. map_of nodes p = Some n \<and> pn_power n = p \<and> pn_depth n < p \<and>
        (if p \<in> S then pn_parents n = (0, 0) \<and> pn_depth n = 0
         else (\<exists>a b. pn_parents n = (a, b) \<and> split_of T p a b \<and> pn_depth n = split_depth nodes a b) \<and>
              (\<forall>a b. split_of T p a b \<longrightarrow> pn_depth n \<le> split_depth nodes a b)))"

definition valid_plan :: "powers_dag \<Rightarrow> nat set \<Rightarrow> bool" where
  "valid_plan d S \<longleftrightarrow> (\<forall>p \<in> set (pd_target_powers d). node_valid (pd_nodes d) S (set (pd_target_powers d)) p)"

text \<open>Every computation of a power from the sources by products that stay inside the targets.\<close>

inductive computable :: "nat set \<Rightarrow> nat set \<Rightarrow> nat \<Rightarrow> nat \<Rightarrow> bool" for S T where
  source: "p \<in> S \<Longrightarrow> computable S T p 0"
| product: "computable S T a d1 \<Longrightarrow> computable S T b d2 \<Longrightarrow> a + b \<in> T \<Longrightarrow>
     computable S T (a + b) (Suc (max d1 d2))"

inductive_cases computable_cases: "computable S T p d"

subsection \<open>The search for parents\<close>

lemma node_at_some: "map_of nodes p = Some n \<Longrightarrow> node_at nodes p = Inr n"
  by (simp add: node_at_def)

lemma depth_of_some: "map_of nodes p = Some n \<Longrightarrow> depth_of nodes p = pn_depth n"
  by (simp add: depth_of_def)

definition candidate :: "node_map \<Rightarrow> nat set \<Rightarrow> nat \<Rightarrow> nat \<times> nat \<times> nat \<Rightarrow> bool" where
  "candidate nodes T p best \<longleftrightarrow>
     split_of T p (fst (snd best)) (snd (snd best)) \<and>
     fst best = split_depth nodes (fst (snd best)) (snd (snd best))"

lemma best_parents_correct:
  assumes known: "\<And>s. s \<in> set T \<Longrightarrow> s < p \<Longrightarrow> map_of nodes s \<noteq> None"
    and pos: "0 \<notin> set T" and rest: "sorted rest" "set rest \<subseteq> set T"
  shows "\<exists>best. best_parents nodes T p rest init = Inr best \<and>
     (best = init \<or> candidate nodes (set T) p best) \<and> fst best \<le> fst init \<and>
     (\<forall>a \<in> set rest. a < p \<longrightarrow> p - a \<in> set T \<longrightarrow> fst best \<le> split_depth nodes a (p - a))"
  using rest
proof (induction rest arbitrary: init)
  case Nil
  then show ?case by simp
next
  case (Cons a rest)
  obtain d o1 o2 where init: "init = (d, o1, o2)" by (cases init)
  have IH: "\<exists>best. best_parents nodes T p rest i = Inr best \<and>
     (best = i \<or> candidate nodes (set T) p best) \<and> fst best \<le> fst i \<and>
     (\<forall>a \<in> set rest. a < p \<longrightarrow> p - a \<in> set T \<longrightarrow> fst best \<le> split_depth nodes a (p - a))" for i
    using Cons by (intro Cons.IH) auto
  show ?case
  proof (cases "a < p \<and> p - a \<in> set T")
    case False
    then show ?thesis using IH [of init] Cons.prems(1) by (auto simp: init Let_def)
  next
    case True
    have aT: "a \<in> set T" using Cons.prems(2) by simp
    then have "a \<noteq> 0" using pos by metis
    then have a: "a \<in> set T" "0 < a" "p - a < p" using aT True by auto
    obtain n1 where n1: "map_of nodes a = Some n1" using known [of a] a True by auto
    obtain n2 where n2: "map_of nodes (p - a) = Some n2" using known [of "p - a"] a True by auto
    let ?s = "split_depth nodes a (p - a)"
    let ?i = "if ?s < d then (?s, a, p - a) else init"
    have sd: "?s = max (pn_depth n1) (pn_depth n2) + 1"
      using n1 n2 by (simp add: split_depth_def depth_of_some)
    have step: "best_parents nodes T p (a # rest) init = best_parents nodes T p rest ?i"
      using True n1 n2 by (simp add: init Let_def node_at_some sd)
    have cand: "candidate nodes (set T) p (?s, a, p - a)"
      using a True by (auto simp: candidate_def split_of_def)
    obtain best where best: "best_parents nodes T p rest ?i = Inr best"
      "best = ?i \<or> candidate nodes (set T) p best" "fst best \<le> fst ?i"
      "\<forall>a \<in> set rest. a < p \<longrightarrow> p - a \<in> set T \<longrightarrow> fst best \<le> split_depth nodes a (p - a)"
      using IH [of ?i] by blast
    have "fst best \<le> d" "fst best \<le> ?s" using best(3) by (auto simp: init split: if_splits)
    then show ?thesis using step best cand by (auto simp: init split: if_splits)
  qed
qed

text \<open>
  For a target that is the sum of two targets, the search ends with a split of least depth: if
  it never improves on its starting value, the starting value is itself such a split.
\<close>

lemma best_parents_optimal:
  assumes known: "\<And>s. s \<in> set T \<Longrightarrow> s < p \<Longrightarrow> map_of nodes s \<noteq> None"
    and shallow: "\<And>s. s \<in> set T \<Longrightarrow> s < p \<Longrightarrow> depth_of nodes s < s"
    and T: "0 \<notin> set T" "sorted T" and sp: "split_of (set T) p a0 b0"
  shows "\<exists>d a b. best_parents nodes T p T (p - 1, p - 1, 1) = Inr (d, a, b) \<and> d < p \<and>
     split_of (set T) p a b \<and> d = split_depth nodes a b \<and>
     (\<forall>a b. split_of (set T) p a b \<longrightarrow> d \<le> split_depth nodes a b)"
proof -
  have "\<exists>best. best_parents nodes T p T (p - 1, p - 1, 1) = Inr best \<and>
     (best = (p - 1, p - 1, 1) \<or> candidate nodes (set T) p best) \<and> fst best \<le> fst (p - 1, p - 1, 1::nat) \<and>
     (\<forall>a \<in> set T. a < p \<longrightarrow> p - a \<in> set T \<longrightarrow> fst best \<le> split_depth nodes a (p - a))"
    using known T by (intro best_parents_correct) auto
  then obtain d a b where best: "best_parents nodes T p T (p - 1, p - 1, 1) = Inr (d, a, b)"
    "(d, a, b) = (p - 1, p - 1, 1) \<or> candidate nodes (set T) p (d, a, b)" "d \<le> p - 1"
    "\<forall>a \<in> set T. a < p \<longrightarrow> p - a \<in> set T \<longrightarrow> d \<le> split_depth nodes a (p - a)"
    by (metis fst_conv prod_cases3)
  have min: "d \<le> split_depth nodes a' b'" if "split_of (set T) p a' b'" for a' b'
    using that best(4) by (auto simp: split_of_def)
  have p: "2 \<le> p" using sp by (auto simp: split_of_def)
  have bound: "split_depth nodes a' b' \<le> max a' b'" if "split_of (set T) p a' b'" for a' b'
    using that shallow [of a'] shallow [of b'] by (auto simp: split_of_def split_depth_def)
  have "split_of (set T) p a b \<and> d = split_depth nodes a b"
  proof (cases "candidate nodes (set T) p (d, a, b)")
    case True
    then show ?thesis by (simp add: candidate_def)
  next
    case False
    then have e: "d = p - 1" "a = p - 1" "b = 1" using best(2) by auto
    have "p - 1 \<le> max a0 b0" using min [OF sp] bound [OF sp] e by simp
    then have "a0 = p - 1 \<and> b0 = 1 \<or> a0 = 1 \<and> b0 = p - 1" using sp by (auto simp: split_of_def)
    then have s: "split_of (set T) p a b" using sp p by (auto simp: e split_of_def)
    then have "split_depth nodes a b \<le> d" using bound [OF s] p e by simp
    then show ?thesis using min [OF s] s by simp
  qed
  moreover have "d < p" using best(3) p by simp
  ultimately show ?thesis using best(1) min by blast
qed

subsection \<open>The configured plan is valid\<close>

lemma map_of_update: "map_of (AList.update k v xs) = (map_of xs)(k \<mapsto> v)"
  by (simp add: update_conv')

lemma insert_sources_map_of:
  "map_of (insert_sources ss nodes) p =
     (if p \<in> set ss then Some \<lparr>pn_power = p, pn_depth = 0, pn_parents = (0, 0)\<rparr> else map_of nodes p)"
  by (induction ss arbitrary: nodes) (auto simp: map_of_update)

lemma node_valid_mono:
  assumes "node_valid nodes S T p" and "\<And>q. q \<in> T \<Longrightarrow> q \<le> p \<Longrightarrow> map_of nodes' q = map_of nodes q" and "p \<in> T"
  shows "node_valid nodes' S T p"
proof -
  have sd: "split_depth nodes' a b = split_depth nodes a b" if "split_of T p a b" for a b
    using that assms(2) [of a] assms(2) [of b] by (simp add: split_of_def split_depth_def depth_of_def)
  have "map_of nodes' p = map_of nodes p" using assms(2) [of p] assms(3) by simp
  then show ?thesis using assms(1) sd unfolding node_valid_def by (auto split: if_splits)
qed

text \<open>
  The outer loop: \<open>done\<close> are the targets already walked, and every node at or below them that is
  a source or was walked is valid.
\<close>

lemma add_targets_correct:
  assumes T: "targets = dn @ rest" "oset_ok targets" "0 \<notin> set targets"
    and S: "set sources \<subseteq> set targets"
    and closed: "\<And>p. p \<in> set targets - set sources \<Longrightarrow> \<exists>a b. split_of (set targets) p a b"
    and valid: "\<And>p. p \<in> set dn \<Longrightarrow> node_valid nodes (set sources) (set targets) p"
    and src: "\<And>p. p \<in> set sources \<Longrightarrow>
        map_of nodes p = Some \<lparr>pn_power = p, pn_depth = 0, pn_parents = (0, 0)\<rparr>"
    and cd: "cd = Max (insert 0 (depth_of nodes ` set dn))"
  shows "\<exists>nodes' cd'. add_targets sources targets rest nodes cd = Inr (nodes', cd') \<and>
     (\<forall>p \<in> set targets. node_valid nodes' (set sources) (set targets) p) \<and>
     cd' = Max (insert 0 (depth_of nodes' ` set targets))"
  using T(1) valid src cd
proof (induction rest arbitrary: dn nodes cd)
  case Nil
  then show ?case by simp
next
  case (Cons p rest)
  have sorted: "sorted targets" "distinct targets" using T(2) by (simp_all add: oset_ok_iff)
  have pT: "p \<in> set targets" "targets = (dn @ [p]) @ rest" using Cons.prems(1) by simp_all
  have dn: "set dn = {q \<in> set targets. q < p}"
  proof -
    have "q < p" if "q \<in> set dn" for q
      using that sorted Cons.prems(1) by (auto simp: sorted_append less_le)
    moreover have "q \<in> set dn" if "q \<in> set targets" "q < p" for q
      using that sorted(1) Cons.prems(1) by (auto simp: sorted_append)
    ultimately show ?thesis using Cons.prems(1) by auto
  qed
  have fin: "finite (depth_of nodes ` set dn)" by simp
  show ?case
  proof (cases "p \<in> set sources")
    case True
    have p0: "p \<noteq> 0" using pT(1) T(3) by metis
    have vp: "node_valid nodes (set sources) (set targets) p"
      using Cons.prems(3) [OF True] True p0 by (simp add: node_valid_def)
    have "depth_of nodes p = 0" using Cons.prems(3) [OF True] by (simp add: depth_of_def)
    then have "cd = Max (insert 0 (depth_of nodes ` set (dn @ [p])))" using Cons.prems(4) by simp
    then have "\<exists>nodes' cd'. add_targets sources targets rest nodes cd = Inr (nodes', cd') \<and>
       (\<forall>p \<in> set targets. node_valid nodes' (set sources) (set targets) p) \<and>
       cd' = Max (insert 0 (depth_of nodes' ` set targets))"
      using Cons.prems vp pT(2) by (intro Cons.IH [of "dn @ [p]"]) auto
    then show ?thesis using True by simp
  next
    case False
    obtain a0 b0 where sp: "split_of (set targets) p a0 b0" using closed [of p] False pT(1) by auto
    have known: "map_of nodes s \<noteq> None \<and> depth_of nodes s < s" if "s \<in> set targets" "s < p" for s
    proof -
      have "s \<in> set dn" using that dn by blast
      then have "node_valid nodes (set sources) (set targets) s" by (rule Cons.prems(2))
      then show ?thesis unfolding node_valid_def by (elim exE conjE) (simp add: depth_of_def)
    qed
    obtain d a b where best: "best_parents nodes targets p targets (p - 1, p - 1, 1) = Inr (d, a, b)"
      "d < p" "split_of (set targets) p a b" "d = split_depth nodes a b"
      "\<And>a b. split_of (set targets) p a b \<Longrightarrow> d \<le> split_depth nodes a b"
      using best_parents_optimal [OF _ _ T(3) sorted(1) sp, of nodes] known by blast
    let ?n = "\<lparr>pn_power = p, pn_depth = d, pn_parents = (a, b)\<rparr>"
    let ?nodes = "AList.update p ?n nodes"
    have mo: "map_of ?nodes = (map_of nodes)(p \<mapsto> ?n)" by (rule map_of_update)
    have below: "split_depth ?nodes x y = split_depth nodes x y" if "split_of (set targets) p x y" for x y
      using that by (auto simp: split_of_def split_depth_def depth_of_def mo)
    have vp: "node_valid ?nodes (set sources) (set targets) p"
      unfolding node_valid_def
      by (rule exI [of _ ?n]) (use False best below in \<open>simp add: map_of_update\<close>)
    have vdn: "node_valid ?nodes (set sources) (set targets) q" if "q \<in> set dn" for q
      using Cons.prems(2) [OF that] by (rule node_valid_mono) (use that dn in \<open>auto simp: mo\<close>)
    have "depth_of ?nodes ` set (dn @ [p]) = insert d (depth_of nodes ` set dn)"
      using dn by (auto simp: depth_of_def mo image_iff)
    then have "max cd d = Max (insert 0 (depth_of ?nodes ` set (dn @ [p])))"
      using Cons.prems(4) by (simp add: insert_commute [of 0] max.commute)
    then have "\<exists>nodes' cd'. add_targets sources targets rest ?nodes (max cd d) = Inr (nodes', cd') \<and>
       (\<forall>p \<in> set targets. node_valid nodes' (set sources) (set targets) p) \<and>
       cd' = Max (insert 0 (depth_of nodes' ` set targets))"
      using Cons.prems(3) vp vdn pT(2) False by (intro Cons.IH [of "dn @ [p]"]) (auto simp: mo)
    then show ?thesis using False best(1) by simp
  qed
qed

lemma configure_ok:
  assumes T: "oset_ok T" "0 \<notin> set T" and S: "1 \<in> set S" "set S \<subseteq> set T"
    and closed: "\<And>p. p \<in> set T - set S \<Longrightarrow> \<exists>a b. split_of (set T) p a b"
  shows "\<exists>nodes cd. pd_configure d S T =
     Inr (\<lparr>pd_nodes = nodes, pd_configured = True, pd_target_powers = T, pd_depth = cd,
           pd_source_count = length S\<rparr>, True) \<and>
     (\<forall>p \<in> set T. node_valid nodes (set S) (set T) p) \<and> cd = Max (insert 0 (depth_of nodes ` set T))"
proof -
  have "\<exists>nodes cd. add_targets S T T (insert_sources S (pd_nodes d)) 0 = Inr (nodes, cd) \<and>
     (\<forall>p \<in> set T. node_valid nodes (set S) (set T) p) \<and> cd = Max (insert 0 (depth_of nodes ` set T))"
    using T S closed
    by (intro add_targets_correct [where dn = "[]"]) (auto simp: insert_sources_map_of)
  then show ?thesis using T S
    by (auto simp: pd_configure_def Let_def pd_reset_def)
qed

lemma valid_plan_depth_least:
  assumes nodes: "\<And>p. p \<in> T \<Longrightarrow> node_valid nodes S T p" and "S \<subseteq> T" "0 \<notin> T"
  shows "computable S T p d \<Longrightarrow> p \<in> T \<and> depth_of nodes p \<le> d"
proof (induction rule: computable.induct)
  case (source p)
  then have "p \<in> T" using assms(2) by blast
  then show ?case using nodes [of p] source by (auto simp: node_valid_def depth_of_some)
next
  case (product a d1 b d2)
  have "split_of T (a + b) a b" using product assms(3) by (auto simp: split_of_def intro: Nat.gr0I)
  moreover have "split_depth nodes a b \<le> Suc (max d1 d2)"
    using product by (auto simp: split_depth_def max_def)
  moreover obtain n where n: "map_of nodes (a + b) = Some n"
    "a + b \<in> S \<Longrightarrow> pn_depth n = 0"
    "\<And>x y. a + b \<notin> S \<Longrightarrow> split_of T (a + b) x y \<Longrightarrow> pn_depth n \<le> split_depth nodes x y"
    using nodes [OF product(3)] by (auto simp: node_valid_def split: if_splits)
  ultimately show ?case using product(3)
    by (cases "a + b \<in> S") (auto simp: depth_of_some intro: le_trans)
qed

lemma valid_plan_depth_reached:
  assumes nodes: "\<And>p. p \<in> T \<Longrightarrow> node_valid nodes S T p" and "p \<in> T"
  shows "computable S T p (depth_of nodes p)"
  using assms(2)
proof (induction p rule: less_induct)
  case (less p)
  obtain n where n: "map_of nodes p = Some n" "p \<in> S \<Longrightarrow> pn_depth n = 0"
    "p \<notin> S \<Longrightarrow> \<exists>a b. split_of T p a b \<and> pn_depth n = split_depth nodes a b"
    using nodes [OF less.prems] by (auto simp: node_valid_def split: if_splits)
  show ?case
  proof (cases "p \<in> S")
    case True
    then show ?thesis using n by (simp add: depth_of_some computable.source)
  next
    case False
    then obtain a b where ab: "split_of T p a b" "pn_depth n = split_depth nodes a b" using n(3) by blast
    then have "computable S T a (depth_of nodes a)" "computable S T b (depth_of nodes b)"
      using less.IH by (auto simp: split_of_def)
    then have "computable S T (a + b) (Suc (max (depth_of nodes a) (depth_of nodes b)))"
      using ab(1) less.prems by (intro computable.product) (auto simp: split_of_def)
    then show ?thesis using ab n(1) by (simp add: split_of_def depth_of_some split_depth_def)
  qed
qed

lemma power_targets_closed:
  assumes "p \<in> power_targets low deg" "p \<noteq> 1"
  shows "\<exists>a b. split_of (power_targets low deg) p a b"
proof -
  have pred: "split_of (power_targets low deg) p (p - 1) 1"
    if "p - 1 \<in> power_targets low deg" "1 \<in> power_targets low deg" "2 \<le> p"
    using that by (simp add: split_of_def)
  show ?thesis
  proof (cases "low = 0 \<or> p \<le> low + 1")
    case True
    then show ?thesis using pred assms
      by (cases "p \<le> low") (fastforce simp: power_targets_def le_Suc_eq)+
  next
    case False
    let ?h = "low + 1"
    obtain k where k: "p = k * ?h" "k * ?h \<le> deg" using assms(1) False by (auto simp: power_targets_def)
    then have k2: "2 \<le> k" using False by (cases k; cases "k - 1") auto
    then have e: "?h + (k - 1) * ?h = p" using k(1) by (cases k) auto
    have "1 * ?h \<le> k * ?h" using k2 by (intro mult_le_mono1) simp
    then have "?h \<le> k * ?h" by (simp only: mult_1)
    then have "?h \<le> deg" using k(2) by (rule order_trans)
    then have "?h \<in> power_targets low deg"
      using False by (auto simp: power_targets_def intro!: exI [of _ 1])
    moreover have "(k - 1) * ?h \<in> power_targets low deg"
      using False k(2) k2 e k(1) by (auto simp: power_targets_def intro!: exI [of _ "k - 1"])
    moreover have "0 < ?h" "0 < (k - 1) * ?h" using k2 by simp_all
    ultimately have "split_of (power_targets low deg) p ?h ((k - 1) * ?h)"
      using e unfolding split_of_def by blast
    then show ?thesis by blast
  qed
qed

lemma power_targets_pos: "0 \<notin> power_targets low deg"
  by (auto simp: power_targets_def)

subsection \<open>Targets that no valid plan has\<close>

abbreviation source_node :: "nat \<Rightarrow> powers_node" where
  "source_node p \<equiv> \<lparr>pn_power = p, pn_depth = 0, pn_parents = (0, 0)\<rparr>"

lemma add_targets_keeps:
  "add_targets S T rest nodes cd = Inr (nodes', cd') \<Longrightarrow> q \<notin> set rest - set S \<Longrightarrow> map_of nodes' q = map_of nodes q"
proof (induction rest arbitrary: nodes cd)
  case (Cons p rest)
  then show ?case
    by (auto simp: map_of_update bind_res_eq_Inr split: if_splits)
qed simp

text \<open>
  Without any assumption on sums: each target gets a node, and one that is not the sum of two
  targets gets the parents that the search starts with.
\<close>

lemma add_targets_total:
  assumes T: "targets = dn @ rest" "oset_ok targets" "0 \<notin> set targets"
    and dn: "\<And>p. p \<in> set dn \<union> set sources \<Longrightarrow> map_of nodes p \<noteq> None"
  shows "\<exists>nodes' cd'. add_targets sources targets rest nodes cd = Inr (nodes', cd') \<and>
     (\<forall>p \<in> set rest - set sources. (\<nexists>a b. split_of (set targets) p a b) \<longrightarrow>
        (\<exists>n. map_of nodes' p = Some n \<and> pn_parents n = (p - 1, 1)))"
  using T(1) dn
proof (induction rest arbitrary: dn nodes cd)
  case Nil
  then show ?case by simp
next
  case (Cons p rest)
  have sorted: "sorted targets" "distinct targets" using T(2) by (simp_all add: oset_ok_iff)
  have pT: "targets = (dn @ [p]) @ rest" using Cons.prems(1) by simp
  show ?case
  proof (cases "p \<in> set sources")
    case True
    have "\<And>q. q \<in> set (dn @ [p]) \<union> set sources \<Longrightarrow> map_of nodes q \<noteq> None"
      using Cons.prems(2) True by (metis Un_iff insert_iff list.simps(15) rotate1.simps(2) set_rotate1)
    from Cons.IH [OF pT this, of cd] show ?thesis using True by auto
  next
    case False
    have known: "map_of nodes s \<noteq> None" if "s \<in> set targets" "s < p" for s
    proof -
      have "s \<in> set dn" using that sorted(1) Cons.prems(1) by (auto simp: sorted_append)
      then show ?thesis using Cons.prems(2) by blast
    qed
    obtain d a b where best: "best_parents nodes targets p targets (p - 1, p - 1, 1) = Inr (d, a, b)"
      "(d, a, b) = (p - 1, p - 1, 1) \<or> candidate nodes (set targets) p (d, a, b)"
      using best_parents_correct [OF known T(3) sorted(1) subset_refl, of p "(p - 1, p - 1, 1)"] by (metis prod_cases3)
    let ?n = "\<lparr>pn_power = p, pn_depth = d, pn_parents = (a, b)\<rparr>"
    let ?nodes = "AList.update p ?n nodes"
    have "map_of ?nodes q \<noteq> None" if "q \<in> set (dn @ [p]) \<union> set sources" for q
      using Cons.prems(2) [of q] that by (cases "q = p") (auto simp: map_of_update)
    then obtain nodes' cd' where r: "add_targets sources targets rest ?nodes (max cd d) = Inr (nodes', cd')"
      "\<forall>p \<in> set rest - set sources. (\<nexists>a b. split_of (set targets) p a b) \<longrightarrow>
        (\<exists>n. map_of nodes' p = Some n \<and> pn_parents n = (p - 1, 1))"
      using Cons.IH [OF pT, of ?nodes "max cd d"] by blast
    have "p \<notin> set rest" using pT sorted(2) by auto
    then have "map_of nodes' p = Some ?n" using add_targets_keeps [OF r(1), of p] by (simp add: map_of_update)
    moreover have "(a, b) = (p - 1, 1)" if "\<nexists>a b. split_of (set targets) p a b"
      using best(2) that by (auto simp: candidate_def)
    moreover have "add_targets sources targets (p # rest) nodes cd = Inr (nodes', cd')"
      using False best(1) r(1) by simp
    ultimately show ?thesis using r(2) by (intro exI [of _ nodes'] exI [of _ cd']) auto
  qed
qed

lemma configure_total:
  assumes T: "oset_ok T" "0 \<notin> set T" and S: "1 \<in> set S" "set S \<subseteq> set T"
  shows "\<exists>nodes cd. pd_configure d S T = Inr (\<lparr>pd_nodes = nodes, pd_configured = True,
      pd_target_powers = T, pd_depth = cd, pd_source_count = length S\<rparr>, True) \<and>
    (\<forall>q. q \<notin> set T \<longrightarrow> map_of nodes q = map_of (pd_nodes d) q) \<and>
    (\<forall>q \<in> set S. map_of nodes q = Some (source_node q)) \<and>
    (\<forall>p \<in> set T - set S. (\<nexists>a b. split_of (set T) p a b) \<longrightarrow>
       (\<exists>n. map_of nodes p = Some n \<and> pn_parents n = (p - 1, 1)))"
proof -
  obtain nodes cd where a: "add_targets S T T (insert_sources S (pd_nodes d)) 0 = Inr (nodes, cd)"
    "\<forall>p \<in> set T - set S. (\<nexists>a b. split_of (set T) p a b) \<longrightarrow>
       (\<exists>n. map_of nodes p = Some n \<and> pn_parents n = (p - 1, 1))"
    using add_targets_total [of T "[]" T S "insert_sources S (pd_nodes d)" 0] T by (auto simp: insert_sources_map_of)
  have "map_of nodes q = map_of (insert_sources S (pd_nodes d)) q" if "q \<notin> set T \<or> q \<in> set S" for q
    using add_targets_keeps [OF a(1), of q] that by blast
  then have "\<forall>q. q \<notin> set T \<longrightarrow> map_of nodes q = map_of (pd_nodes d) q" "\<forall>q \<in> set S. map_of nodes q = Some (source_node q)"
    using S(2) by (auto simp: insert_sources_map_of)
  moreover have "pd_configure d S T = Inr (\<lparr>pd_nodes = nodes, pd_configured = True,
      pd_target_powers = T, pd_depth = cd, pd_source_count = length S\<rparr>, True)"
    using T S a(1) by (auto simp: pd_configure_def Let_def pd_reset_def)
  ultimately show ?thesis using a(2) by blast
qed

lemma configure_keeps_sources:
  assumes "pd_configure d S T = Inr (d', True)" and "q \<in> set S"
  shows "map_of (pd_nodes d') q = Some (source_node q)"
proof -
  obtain nodes cd where a: "add_targets S T T (insert_sources S (pd_nodes d)) 0 = Inr (nodes, cd)" "pd_nodes d' = nodes"
    using assms(1) by (auto simp: pd_configure_def Let_def pd_reset_def bind_res_eq_Inr split: if_splits)
  then show ?thesis using add_targets_keeps [OF a(1), of q] assms(2) by (simp add: insert_sources_map_of)
qed

lemma configure_valid_iff:
  assumes "oset_ok T" "0 \<notin> set T" "1 \<in> set S" "set S \<subseteq> set T" and c: "pd_configure d S T =
     Inr (\<lparr>pd_nodes = nodes, pd_configured = True, pd_target_powers = T, pd_depth = cd, pd_source_count = length S\<rparr>, True)"
  shows "valid_plan \<lparr>pd_nodes = nodes, pd_configured = True, pd_target_powers = T, pd_depth = cd, pd_source_count = length S\<rparr> (set S) \<longleftrightarrow>
    (\<forall>p \<in> set T - set S. \<exists>a b. split_of (set T) p a b)"
proof
  assume "\<forall>p \<in> set T - set S. \<exists>a b. split_of (set T) p a b"
  then show "valid_plan \<lparr>pd_nodes = nodes, pd_configured = True, pd_target_powers = T, pd_depth = cd, pd_source_count = length S\<rparr> (set S)"
    using configure_ok [OF assms(1-4), of d] c by (auto simp: valid_plan_def)
next
  assume v: "valid_plan \<lparr>pd_nodes = nodes, pd_configured = True, pd_target_powers = T, pd_depth = cd, pd_source_count = length S\<rparr> (set S)"
  show "\<forall>p \<in> set T - set S. \<exists>a b. split_of (set T) p a b"
  proof
    fix p assume p: "p \<in> set T - set S"
    then have "node_valid nodes (set S) (set T) p" using v by (simp add: valid_plan_def)
    then show "\<exists>a b. split_of (set T) p a b" using p unfolding node_valid_def by auto
  qed
qed

subsection \<open>Properties\<close>

text \<open>
  C28. For every query the library can form (targets built by \<open>create_powers_set\<close>, any set of
  source powers among them that contains 1), \<open>configure\<close> succeeds and the plan is valid: every
  target has its node, sources have no parents, and every other target is the product of two
  targets at one more than their larger depth; the stored depth is the largest node depth.
\<close>
theorem configure_valid_plan:
  assumes "create_powers_set low deg = Some (Inr T)" and "low \<le> deg" and "0 < deg"
    and "deg + low + 1 < 2 ^ 32" and "1 \<in> set S" and "set S \<subseteq> set T"
  shows "\<exists>d'. pd_configure d S T = Inr (d', True) \<and> pd_configured d' \<and> pd_target_powers d' = T \<and>
     pd_source_count d' = length S \<and> valid_plan d' (set S) \<and>
     pd_depth d' = Max (insert 0 (depth_of (pd_nodes d') ` set T))"
proof -
  have T: "oset_ok T" "set T = power_targets low deg"
    using create_powers_set_targets [OF assms(2-4)] assms(1) by auto
  have closed: "\<exists>a b. split_of (set T) p a b" if "p \<in> set T - set S" for p
    using that assms(5) power_targets_closed [of p low deg] by (auto simp: T(2))
  have "0 \<notin> set T" by (simp add: T(2) power_targets_pos)
  from configure_ok [OF T(1) this assms(5,6) closed, of d] show ?thesis
    by (auto simp: valid_plan_def)
qed

lemma create_powers_set_4: "create_powers_set 0 4 = Some (Inr [1, 2, 3, 4])"
  by (simp add: create_powers_set_def powers_loop.simps insort_insert_key_def)

theorem configure_valid_plan_witness:
  "\<exists>d'. pd_configure empty_dag [1, 3] [1, 2, 3, 4] = Inr (d', True) \<and> pd_configured d' \<and>
     pd_target_powers d' = [1, 2, 3, 4] \<and> pd_source_count d' = length [1, 3 :: nat] \<and>
     valid_plan d' (set [1, 3]) \<and>
     pd_depth d' = Max (insert 0 (depth_of (pd_nodes d') ` set [1, 2, 3, 4]))"
  by (rule configure_valid_plan [OF create_powers_set_4]) simp_all

text \<open>
  C29. The plan is depth-optimal: the depth of every target's node is the least depth of any
  computation of that power from the sources by products that stay inside the targets.
\<close>
theorem configure_depth_optimal:
  assumes "create_powers_set low deg = Some (Inr T)" and "low \<le> deg" and "0 < deg"
    and "deg + low + 1 < 2 ^ 32" and "1 \<in> set S" and "set S \<subseteq> set T"
    and "pd_configure d S T = Inr (d', ok)" and "p \<in> set T"
  shows "computable (set S) (set T) p (depth_of (pd_nodes d') p) \<and>
    depth_of (pd_nodes d') p = (LEAST k. computable (set S) (set T) p k)"
proof -
  have T: "oset_ok T" "set T = power_targets low deg"
    using create_powers_set_targets [OF assms(2-4)] assms(1) by auto
  have closed: "\<exists>a b. split_of (set T) p a b" if "p \<in> set T - set S" for p
    using that assms(5) power_targets_closed [of p low deg] by (auto simp: T(2))
  have T0: "0 \<notin> set T" by (simp add: T(2) power_targets_pos)
  have nodes: "node_valid (pd_nodes d') (set S) (set T) p" if "p \<in> set T" for p
    using configure_ok [OF T(1) T0 assms(5,6) closed, of d] assms(7) that by auto
  have c: "computable (set S) (set T) p (depth_of (pd_nodes d') p)"
    using nodes assms(8) by (rule valid_plan_depth_reached)
  moreover have "depth_of (pd_nodes d') p \<le> k" if "computable (set S) (set T) p k" for k
    using valid_plan_depth_least [OF nodes assms(6) T0 that] by simp
  ultimately show ?thesis by (auto intro!: Least_equality [symmetric])
qed

theorem configure_depth_optimal_witness:
  "\<exists>d' ok. pd_configure empty_dag [1, 3] [1, 2, 3, 4] = Inr (d', ok) \<and>
     computable (set [1, 3]) (set [1, 2, 3, 4]) 4 (depth_of (pd_nodes d') 4) \<and>
     depth_of (pd_nodes d') 4 = (LEAST k. computable (set [1, 3]) (set [1, 2, 3, 4]) 4 k)"
proof -
  obtain d' ok where c: "pd_configure empty_dag [1, 3] [1, 2, 3, 4] = Inr (d', ok)"
    by (simp add: pd_configure_def empty_dag_def pd_reset_def Let_def node_at_def)
  have "computable (set [1, 3]) (set [1, 2, 3, 4]) 4 (depth_of (pd_nodes d') 4) \<and>
     depth_of (pd_nodes d') 4 = (LEAST k. computable (set [1, 3]) (set [1, 2, 3, 4]) 4 k)"
    by (rule configure_depth_optimal [OF create_powers_set_4 _ _ _ _ _ c]) simp_all
  with c show ?thesis by blast
qed

text \<open>
  C35. Two promises that \<open>PowersDag\<close> does not keep. \<open>reset\<close> keeps the nodes, so after a further
  configuration \<open>source_nodes\<close> lists, beside the sources, every source of the earlier one that is
  no target now, while \<open>source_count\<close> counts only the sources. And \<open>configure\<close> returns true for
  any targets that contain the sources, with 1 a source and 0 no target: the plan is valid exactly when every target that is no source
  is a sum of two targets, and a target that is not gets the parents \<open>p - 1\<close>, which is no target,
  and 1.
\<close>
theorem configure_stale_and_invalid:
  assumes "pd_configure d0 S0 T0 = Inr (d1, True)"
    and "oset_ok T" and "0 \<notin> set T" and "1 \<in> set S" and "set S \<subseteq> set T"
  shows "\<exists>d2 ns. pd_configure d1 S T = Inr (d2, True) \<and> dag_source_count d2 = Inr (length S) \<and>
     dag_source_nodes d2 = Inr ns \<and> set S \<union> (set S0 - set T) \<subseteq> pn_power ` set ns \<and>
     (valid_plan d2 (set S) \<longleftrightarrow> (\<forall>p \<in> set T - set S. \<exists>a b. split_of (set T) p a b)) \<and>
     (\<forall>p \<in> set T - set S. (\<nexists>a b. split_of (set T) p a b) \<longrightarrow>
        p - 1 \<notin> set T \<and> (\<exists>n. node_at (pd_nodes d2) p = Inr n \<and> pn_parents n = (p - 1, 1)))"
proof -
  obtain nodes cd where c: "pd_configure d1 S T = Inr (\<lparr>pd_nodes = nodes, pd_configured = True,
      pd_target_powers = T, pd_depth = cd, pd_source_count = length S\<rparr>, True)"
    "\<And>q. q \<notin> set T \<Longrightarrow> map_of nodes q = map_of (pd_nodes d1) q"
    "\<And>q. q \<in> set S \<Longrightarrow> map_of nodes q = Some (source_node q)"
    "\<And>p. p \<in> set T - set S \<Longrightarrow> \<nexists>a b. split_of (set T) p a b \<Longrightarrow>
       \<exists>n. map_of nodes p = Some n \<and> pn_parents n = (p - 1, 1)"
    using configure_total [OF assms(2-5), of d1] by blast
  let ?d = "\<lparr>pd_nodes = nodes, pd_configured = True, pd_target_powers = T, pd_depth = cd, pd_source_count = length S\<rparr>"
  define ns where "ns = filter (\<lambda>n. fst (pn_parents n) = 0 \<and> snd (pn_parents n) = 0) (map snd nodes)"
  have listed: "q \<in> pn_power ` set ns" if "map_of nodes q = Some (source_node q)" for q
    using map_of_SomeD [OF that] by (force simp: ns_def image_iff)
  have "map_of nodes q = Some (source_node q)" if "q \<in> set S0 - set T" for q
    using that c(2) [of q] configure_keeps_sources [OF assms(1), of q] by simp
  then have "set S \<union> (set S0 - set T) \<subseteq> pn_power ` set ns" using listed c(3) by blast
  moreover have "dag_source_nodes ?d = Inr ns" "dag_source_count ?d = Inr (length S)"
    by (simp_all add: dag_source_nodes_def dag_source_count_def configured_only_def ns_def)
  moreover have "valid_plan ?d (set S) \<longleftrightarrow> (\<forall>p \<in> set T - set S. \<exists>a b. split_of (set T) p a b)"
    by (rule configure_valid_iff [OF assms(2-5) c(1)])
  moreover have "p - 1 \<notin> set T \<and> (\<exists>n. node_at (pd_nodes ?d) p = Inr n \<and> pn_parents n = (p - 1, 1))"
    if p: "p \<in> set T - set S" "\<nexists>a b. split_of (set T) p a b" for p
  proof
    have "p \<noteq> 0" "p \<noteq> 1" using p(1) assms(3,4) by (metis DiffD1, metis DiffD2)
    then have "split_of (set T) p (p - 1) 1" if "p - 1 \<in> set T"
      using that assms(4,5) by (auto simp: split_of_def)
    then show "p - 1 \<notin> set T" using p(2) by blast
    show "\<exists>n. node_at (pd_nodes ?d) p = Inr n \<and> pn_parents n = (p - 1, 1)"
      using c(4) [OF p] by (auto simp: node_at_some)
  qed
  ultimately show ?thesis using c(1) by blast
qed

theorem configure_stale_and_invalid_witness:
  "\<exists>d1 d2 ns. pd_configure empty_dag [1, 5] [1, 5] = Inr (d1, True) \<and> pd_configure d1 [1] [1, 3] = Inr (d2, True) \<and>
     dag_source_count d2 = Inr 1 \<and> dag_source_nodes d2 = Inr ns \<and> 5 \<in> pn_power ` set ns \<and> \<not> valid_plan d2 {1} \<and>
     (\<exists>n. node_at (pd_nodes d2) 3 = Inr n \<and> pn_parents n = (2, 1))"
proof -
  obtain d1 where d1: "pd_configure empty_dag [1, 5] [1, 5] = Inr (d1, True)"
    by (simp add: pd_configure_def empty_dag_def pd_reset_def Let_def)
  have no_split: "\<nexists>a b. split_of (set [1, 3]) 3 a b" by (auto simp: split_of_def)
  obtain d2 ns where d2: "pd_configure d1 [1] [1, 3] = Inr (d2, True)" "dag_source_count d2 = Inr (length [1 :: nat])"
    "dag_source_nodes d2 = Inr ns" "set [1] \<union> (set [1, 5] - set [1, 3]) \<subseteq> pn_power ` set ns"
    "valid_plan d2 (set [1]) \<longleftrightarrow> (\<forall>p \<in> set [1, 3] - set [1]. \<exists>a b. split_of (set [1, 3]) p a b)"
    "\<forall>p \<in> set [1, 3] - set [1]. (\<nexists>a b. split_of (set [1, 3]) p a b) \<longrightarrow>
        p - 1 \<notin> set [1, 3] \<and> (\<exists>n. node_at (pd_nodes d2) p = Inr n \<and> pn_parents n = (p - 1, 1))"
  proof -
    have "oset_ok [1, 3]" "0 \<notin> set [1, 3 :: nat]" "1 \<in> set [1 :: nat]" "set [1 :: nat] \<subseteq> set [1, 3]"
      by (simp_all add: oset_ok_iff)
    from configure_stale_and_invalid [OF d1 this] show thesis by (elim exE conjE) (rule that)
  qed
  have 3: "3 \<in> set [1, 3 :: nat] - set [1]" by simp
  have "\<not> valid_plan d2 {1}" using d2(5) no_split 3 by auto
  moreover have "\<exists>n. node_at (pd_nodes d2) 3 = Inr n \<and> pn_parents n = (2, 1)"
    using d2(6) [rule_format, OF 3] no_split by auto
  moreover have "5 \<in> pn_power ` set ns" using d2(4) by auto
  ultimately show ?thesis using d1 d2(1-3) by auto
qed

end
