(* ===== verification/PowersPar.thy ===== *)
theory PowersPar
  imports Powers
begin

text \<open>
  \<open>PowersDag::parallel_apply\<close> (\<open>common/apsi/powers.h\<close>): the workers of the thread pool claim nodes
  of the plan with compare-and-swap on an array of node states. The model is a step relation in which a
  scheduler lets one worker take one atomic action at a time; the lemmas show that every node is
  processed once, never before its parents, and that the workers can always finish.
\<close>

subsection \<open>Workers\<close>

datatype node_state = Uncomputed | Computing | Computed

datatype event = Start nat | Finish nat

text \<open>
  The places of a worker's loop between two atomic actions. \<open>Scan i j\<close> is the check that everything is
  done, having found the first \<open>j\<close> states computed; \<open>i\<close> is the node the worker turns to. The call of
  the function on a node is the pair of its start and its end.
\<close>

datatype worker =
    Scan nat nat | Try nat | Claimed nat | Read_p1 nat | Read_p2 nat bool | Release nat
  | Call nat | Running nat | Mark nat | Done | Failed exn

fun index_of :: "nat list \<Rightarrow> nat \<Rightarrow> nat option" where
  "index_of [] p = None"
| "index_of (x # xs) p = (if x = p then Some 0 else map_option Suc (index_of xs p))"

definition is_computed :: "nat list \<Rightarrow> node_state list \<Rightarrow> nat \<Rightarrow> bool" where
  "is_computed T sts p = (case index_of T p of None \<Rightarrow> False | Some i \<Rightarrow> sts ! i = Computed)"

definition parents_at :: "powers_dag \<Rightarrow> nat \<Rightarrow> nat \<times> nat" where
  "parents_at d p = (case map_of (pd_nodes d) p of None \<Rightarrow> (0, 0) | Some n \<Rightarrow> pn_parents n)"

text \<open>One atomic action: the new node states, the new place of the worker, the events.\<close>

fun worker_step ::
  "powers_dag \<Rightarrow> node_state list \<Rightarrow> worker \<Rightarrow> node_state list \<times> worker \<times> event list" where
  "worker_step d sts (Scan i j) =
     (if j = length sts then (sts, Done, [])
      else if sts ! j = Computed then (sts, Scan i (Suc j), [])
      else (sts, Try i, []))"
| "worker_step d sts (Try i) =
     (if sts ! i = Uncomputed then (sts[i := Computing], Claimed i, [])
      else (sts, Scan ((i + 1) mod length sts) 0, []))"
| "worker_step d sts (Claimed i) =
     (case node_at (pd_nodes d) (pd_target_powers d ! i) of
        Inl e \<Rightarrow> (sts, Failed e, [])
      | Inr node \<Rightarrow>
          if is_source node then (sts, Call i, [])
          else if index_of (pd_target_powers d) (fst (pn_parents node)) = None
            \<or> index_of (pd_target_powers d) (snd (pn_parents node)) = None
          then (sts, Failed (Runtime_error ''PowersDag is in an invalid state''), [])
          else (sts, Read_p1 i, []))"
| "worker_step d sts (Read_p1 i) =
     (sts, Read_p2 i (is_computed (pd_target_powers d) sts
                       (fst (parents_at d (pd_target_powers d ! i)))), [])"
| "worker_step d sts (Read_p2 i p1_computed) =
     (if p1_computed
         \<and> is_computed (pd_target_powers d) sts (snd (parents_at d (pd_target_powers d ! i)))
      then (sts, Call i, []) else (sts, Release i, []))"
| "worker_step d sts (Release i) =
     (if sts ! i = Computing then sts[i := Uncomputed] else sts, Scan ((i + 1) mod length sts) 0, [])"
| "worker_step d sts (Call i) = (sts, Running i, [Start (pd_target_powers d ! i)])"
| "worker_step d sts (Running i) = (sts, Mark i, [Finish (pd_target_powers d ! i)])"
| "worker_step d sts (Mark i) =
     (if sts ! i = Computing then sts[i := Computed] else sts, Scan ((i + 1) mod length sts) 0, [])"
| "worker_step d sts Done = (sts, Done, [])"
| "worker_step d sts (Failed e) = (sts, Failed e, [])"

subsection \<open>The pool\<close>

text \<open>The events are kept with the latest first.\<close>

record pool =
  po_states :: "node_state list"
  po_workers :: "worker list"
  po_log :: "event list"

definition pool_init :: "powers_dag \<Rightarrow> nat \<Rightarrow> pool" where
  "pool_init d task_count = \<lparr>po_states = replicate (length (pd_target_powers d)) Uncomputed,
     po_workers = replicate task_count (Scan 0 0), po_log = []\<rparr>"

definition pool_step :: "powers_dag \<Rightarrow> nat \<Rightarrow> pool \<Rightarrow> pool" where
  "pool_step d k s =
     (case worker_step d (po_states s) (po_workers s ! k) of (sts, w, evs) \<Rightarrow>
        \<lparr>po_states = sts, po_workers = (po_workers s)[k := w], po_log = evs @ po_log s\<rparr>)"

inductive reachable :: "powers_dag \<Rightarrow> nat \<Rightarrow> pool \<Rightarrow> bool" for d n where
  init: "reachable d n (pool_init d n)"
| step: "reachable d n s \<Longrightarrow> k < n \<Longrightarrow> reachable d n (pool_step d k s)"

text \<open>A schedule is the list of the workers that act, in order.\<close>

fun run :: "powers_dag \<Rightarrow> nat list \<Rightarrow> pool \<Rightarrow> pool" where
  "run d [] s = s"
| "run d (k # ks) s = run d ks (pool_step d k s)"

subsection \<open>Invariant\<close>

fun holds :: "worker \<Rightarrow> nat option" where
  "holds (Claimed i) = Some i"
| "holds (Read_p1 i) = Some i"
| "holds (Read_p2 i _) = Some i"
| "holds (Release i) = Some i"
| "holds (Call i) = Some i"
| "holds (Running i) = Some i"
| "holds (Mark i) = Some i"
| "holds _ = None"

definition ready :: "powers_dag \<Rightarrow> node_state list \<Rightarrow> nat \<Rightarrow> bool" where
  "ready d sts i \<longleftrightarrow>
     (let p = pd_target_powers d ! i in
      parents_at d p = (0, 0) \<or>
      is_computed (pd_target_powers d) sts (fst (parents_at d p)) \<and>
      is_computed (pd_target_powers d) sts (snd (parents_at d p)))"

fun worker_ok :: "powers_dag \<Rightarrow> node_state list \<Rightarrow> event list \<Rightarrow> worker \<Rightarrow> bool" where
  "worker_ok d sts lg (Scan i j) \<longleftrightarrow> i < length sts \<and> j \<le> length sts \<and> (\<forall>x<j. sts ! x = Computed)"
| "worker_ok d sts lg (Try i) \<longleftrightarrow> i < length sts"
| "worker_ok d sts lg (Claimed i) \<longleftrightarrow> i < length sts \<and> sts ! i = Computing \<and> Start (pd_target_powers d ! i) \<notin> set lg"
| "worker_ok d sts lg (Read_p1 i) \<longleftrightarrow> i < length sts \<and> sts ! i = Computing \<and> Start (pd_target_powers d ! i) \<notin> set lg
     \<and> parents_at d (pd_target_powers d ! i) \<noteq> (0, 0)"
| "worker_ok d sts lg (Read_p2 i b) \<longleftrightarrow> i < length sts \<and> sts ! i = Computing \<and> Start (pd_target_powers d ! i) \<notin> set lg
     \<and> parents_at d (pd_target_powers d ! i) \<noteq> (0, 0) \<and> (b \<longrightarrow> is_computed (pd_target_powers d) sts (fst (parents_at d (pd_target_powers d ! i))))"
| "worker_ok d sts lg (Release i) \<longleftrightarrow> i < length sts \<and> sts ! i = Computing \<and> Start (pd_target_powers d ! i) \<notin> set lg"
| "worker_ok d sts lg (Call i) \<longleftrightarrow> i < length sts \<and> sts ! i = Computing \<and> Start (pd_target_powers d ! i) \<notin> set lg
     \<and> ready d sts i"
| "worker_ok d sts lg (Running i) \<longleftrightarrow> i < length sts \<and> sts ! i = Computing \<and> Start (pd_target_powers d ! i) \<in> set lg
     \<and> Finish (pd_target_powers d ! i) \<notin> set lg"
| "worker_ok d sts lg (Mark i) \<longleftrightarrow> i < length sts \<and> sts ! i = Computing \<and> Finish (pd_target_powers d ! i) \<in> set lg"
| "worker_ok d sts lg Done \<longleftrightarrow> (\<forall>x<length sts. sts ! x = Computed)"
| "worker_ok d sts lg (Failed e) \<longleftrightarrow> False"

text \<open>
  A log is in order if no call starts or ends twice, no call starts before the calls on both
  parents ended, and none ends that has not started.
\<close>

fun log_ok :: "powers_dag \<Rightarrow> event list \<Rightarrow> bool" where
  "log_ok d [] \<longleftrightarrow> True"
| "log_ok d (Start p # lg) \<longleftrightarrow> Start p \<notin> set lg \<and>
     (parents_at d p = (0, 0) \<or>
      Finish (fst (parents_at d p)) \<in> set lg \<and> Finish (snd (parents_at d p)) \<in> set lg) \<and> log_ok d lg"
| "log_ok d (Finish p # lg) \<longleftrightarrow> Finish p \<notin> set lg \<and> Start p \<in> set lg \<and> log_ok d lg"

definition state_ok :: "powers_dag \<Rightarrow> node_state list \<Rightarrow> event list \<Rightarrow> nat \<Rightarrow> bool" where
  "state_ok d sts lg i \<longleftrightarrow>
     (sts ! i = Uncomputed \<longrightarrow> Start (pd_target_powers d ! i) \<notin> set lg) \<and>
     (sts ! i = Computed \<longrightarrow> Finish (pd_target_powers d ! i) \<in> set lg)"

definition pool_inv :: "powers_dag \<Rightarrow> pool \<Rightarrow> bool" where
  "pool_inv d s \<longleftrightarrow>
     length (po_states s) = length (pd_target_powers d) \<and>
     (\<forall>k < length (po_workers s). worker_ok d (po_states s) (po_log s) (po_workers s ! k)) \<and>
     (\<forall>k < length (po_workers s). \<forall>l < length (po_workers s).
        holds (po_workers s ! k) = holds (po_workers s ! l) \<longrightarrow> holds (po_workers s ! k) \<noteq> None \<longrightarrow> k = l) \<and>
     (\<forall>i < length (po_states s). state_ok d (po_states s) (po_log s) i) \<and>
     (\<forall>i < length (po_states s). po_states s ! i = Computing \<longrightarrow>
        (\<exists>k < length (po_workers s). holds (po_workers s ! k) = Some i)) \<and>
     (\<forall>p. Start p \<in> set (po_log s) \<longrightarrow> p \<in> set (pd_target_powers d)) \<and>
     log_ok d (po_log s)"

subsection \<open>One action\<close>

definition dag_ok :: "powers_dag \<Rightarrow> bool" where
  "dag_ok d \<longleftrightarrow> pd_target_powers d \<noteq> [] \<and> distinct (pd_target_powers d) \<and>
     (\<forall>p \<in> set (pd_target_powers d). \<exists>n. map_of (pd_nodes d) p = Some n \<and>
        (is_source n \<or> fst (pn_parents n) \<in> set (pd_target_powers d) \<and>
                       snd (pn_parents n) \<in> set (pd_target_powers d)))"

lemma index_of_some: "index_of T p = Some i \<Longrightarrow> i < length T \<and> T ! i = p"
  by (induction T arbitrary: i) (auto split: if_splits)

lemma index_of_none: "index_of T p = None \<longleftrightarrow> p \<notin> set T"
  by (induction T) auto

lemma is_computed_update:
  "is_computed T sts p \<Longrightarrow> sts ! i \<noteq> Computed \<or> x = Computed \<Longrightarrow> is_computed T (sts[i := x]) p"
  by (cases "index_of T p"; cases "i < length sts") (auto simp: is_computed_def nth_list_update list_update_beyond)

lemma ready_update:
  "ready d sts j \<Longrightarrow> sts ! i \<noteq> Computed \<or> x = Computed \<Longrightarrow> ready d (sts[i := x]) j"
  by (auto simp: ready_def Let_def is_computed_update)

lemma log_ok_finish_start: "log_ok d lg \<Longrightarrow> Finish p \<in> set lg \<Longrightarrow> Start p \<in> set lg"
  by (induction d lg rule: log_ok.induct) auto

lemma dag_node:
  assumes "dag_ok d" "i < length (pd_target_powers d)"
  obtains n where "node_at (pd_nodes d) (pd_target_powers d ! i) = Inr n"
    "parents_at d (pd_target_powers d ! i) = pn_parents n"
    "is_source n \<or> fst (pn_parents n) \<in> set (pd_target_powers d) \<and> snd (pn_parents n) \<in> set (pd_target_powers d)"
  using assms nth_mem [OF assms(2)] unfolding dag_ok_def
  by (metis (no_types, lifting) node_at_some option.simps(5) parents_at_def)

lemma worker_step_own:
  assumes "dag_ok d" "length sts = length (pd_target_powers d)" "log_ok d lg"
    "worker_ok d sts lg w" "worker_step d sts w = (sts', w', evs)"
    "\<forall>i < length sts. state_ok d sts lg i"
  shows "worker_ok d sts' (evs @ lg) w'"
proof -
  have next_idx: "Suc k mod length (pd_target_powers d) < length (pd_target_powers d)" for k
    using assms(1) by (simp add: dag_ok_def)
  show ?thesis
proof (cases w)
  case (Claimed i)
  then have "i < length (pd_target_powers d)" using assms by simp
  then obtain n where n: "node_at (pd_nodes d) (pd_target_powers d ! i) = Inr n"
    "parents_at d (pd_target_powers d ! i) = pn_parents n"
    "is_source n \<or> fst (pn_parents n) \<in> set (pd_target_powers d) \<and> snd (pn_parents n) \<in> set (pd_target_powers d)"
    using assms(1) by (metis dag_node)
  then show ?thesis using assms Claimed
    by (cases "is_source n"; cases "pn_parents n") (auto simp: index_of_none ready_def is_source_def Let_def)
next
  case (Call i)
  then show ?thesis using assms log_ok_finish_start [OF assms(3)] by auto
next
  case (Read_p2 i b)
  then show ?thesis using assms by (auto simp: ready_def Let_def split: if_splits)
qed (use assms next_idx in \<open>auto simp: state_ok_def nth_list_update less_Suc_eq split: if_splits\<close>)
qed

lemma worker_step_other:
  assumes "dag_ok d" "length sts = length (pd_target_powers d)"
    "worker_ok d sts lg w" "worker_step d sts w = (sts', w', evs)"
    "worker_ok d sts lg v" "holds w = holds v \<Longrightarrow> holds w = None"
  shows "worker_ok d sts' (evs @ lg) v"
proof -
  have dist: "pd_target_powers d ! i = pd_target_powers d ! j \<longleftrightarrow> i = j"
    if "i < length sts" "j < length sts" for i j
    using that assms(1,2) by (simp add: dag_ok_def nth_eq_iff_index_eq)
  have frame: "worker_ok d (sts[i := x]) (es @ lg) v"
    if "i < length sts" "holds v \<noteq> Some i" "sts ! i \<noteq> Computed" "x \<noteq> Uncomputed \<or> sts ! i \<noteq> Computed"
      "set es \<subseteq> {Start (pd_target_powers d ! i), Finish (pd_target_powers d ! i)}"
      "sts ! i \<noteq> Uncomputed \<or> es = []" for i x es
    using that assms(5) dist
    by (cases v) (auto simp: nth_list_update is_computed_update ready_update dest!: subsetD)
  have keep: "worker_ok d sts ([] @ lg) v" using assms(5) by simp
  have same: "sts[i := Computing] = sts" if "sts ! i = Computing" for i
    using that by (metis list_update_id)
  show ?thesis
  proof (cases w)
    case (Try i)
    then show ?thesis using assms(3-5) frame [of i Computing "[]"] keep by (cases "holds v = Some i"; cases v) (auto split: if_splits)
  next
    case (Release i)
    then show ?thesis using assms(2-6) frame [of i Uncomputed "[]"] by (cases "holds v = Some i") auto
  next
    case (Call i)
    then show ?thesis
      using assms(2-6) frame [of i Computing "[Start (pd_target_powers d ! i)]"] same [of i]
      by (cases "holds v = Some i") auto
  next
    case (Running i)
    then show ?thesis
      using assms(2-6) frame [of i Computing "[Finish (pd_target_powers d ! i)]"] same [of i]
      by (cases "holds v = Some i") auto
  next
    case (Mark i)
    then show ?thesis using assms(2-6) frame [of i Computed "[]"] by (cases "holds v = Some i") auto
  qed (use assms keep in \<open>auto split: if_splits sum.splits\<close>)
qed

lemma worker_step_states:
  assumes "dag_ok d" "length sts = length (pd_target_powers d)" "log_ok d lg"
    "worker_ok d sts lg w" "worker_step d sts w = (sts', w', evs)"
    "\<forall>i < length sts. state_ok d sts lg i"
  shows "length sts' = length sts" and "\<forall>i < length sts. state_ok d sts' (evs @ lg) i"
    and "\<forall>i < length sts. sts' ! i = Computing \<longleftrightarrow>
           (sts ! i = Computing \<and> holds w \<noteq> Some i) \<or> holds w' = Some i"
    and "holds w' = holds w \<or> holds w' = None \<or> (\<exists>i. w = Try i \<and> sts ! i = Uncomputed \<and> holds w' = Some i)"
    and "\<forall>p. Start p \<in> set evs \<longrightarrow> p \<in> set (pd_target_powers d)"
    and "\<exists>e. w' = Failed e \<Longrightarrow> False"
proof -
  have dist: "pd_target_powers d ! i = pd_target_powers d ! j \<longleftrightarrow> i = j"
    if "i < length sts" "j < length sts" for i j
    using that assms(1,2) by (simp add: dag_ok_def nth_eq_iff_index_eq)
  show "length sts' = length sts"
    using assms(5) by (cases w) (auto split: if_splits sum.splits)
  show "\<forall>i < length sts. state_ok d sts' (evs @ lg) i"
    using assms(2-) dist by (cases w) (auto simp: state_ok_def nth_list_update split: if_splits sum.splits)
  show "\<forall>i < length sts. sts' ! i = Computing \<longleftrightarrow>
           (sts ! i = Computing \<and> holds w \<noteq> Some i) \<or> holds w' = Some i"
    using assms(4,5) worker_step_own [OF assms(1-6)]
    by (cases w) (auto simp: nth_list_update split: if_splits sum.splits)
  show "holds w' = holds w \<or> holds w' = None \<or> (\<exists>i. w = Try i \<and> sts ! i = Uncomputed \<and> holds w' = Some i)"
    using assms(5) by (cases w) (auto split: if_splits sum.splits)
  show "\<forall>p. Start p \<in> set evs \<longrightarrow> p \<in> set (pd_target_powers d)"
    using assms(2,4,5) by (cases w) (auto split: if_splits sum.splits)
  show "\<exists>e. w' = Failed e \<Longrightarrow> False" using worker_step_own [OF assms(1-6)] by auto
qed

lemma is_computed_finish:
  assumes "is_computed (pd_target_powers d) sts p" "length sts = length (pd_target_powers d)"
    "\<forall>i < length sts. state_ok d sts lg i"
  shows "Finish p \<in> set lg"
  using assms index_of_some [of "pd_target_powers d" p]
  by (auto simp: is_computed_def state_ok_def split: option.splits)

lemma worker_step_log:
  assumes "length sts = length (pd_target_powers d)" "log_ok d lg"
    "worker_ok d sts lg w" "worker_step d sts w = (sts', w', evs)"
    "\<forall>i < length sts. state_ok d sts lg i"
  shows "log_ok d (evs @ lg)"
  using assms is_computed_finish [OF _ assms(1,5)]
  by (cases w) (auto simp: ready_def Let_def split: if_splits sum.splits)

lemma pool_inv_init: "dag_ok d \<Longrightarrow> pool_inv d (pool_init d n)"
  by (auto simp: pool_inv_def pool_init_def dag_ok_def state_ok_def)

lemma pool_inv_step:
  assumes "dag_ok d" "pool_inv d s" "k < length (po_workers s)"
  shows "pool_inv d (pool_step d k s)"
proof -
  let ?ws = "po_workers s"
  obtain sts w evs where e: "worker_step d (po_states s) (?ws ! k) = (sts, w, evs)"
    by (cases "worker_step d (po_states s) (?ws ! k)") auto
  have ps: "pool_step d k s = \<lparr>po_states = sts, po_workers = ?ws[k := w], po_log = evs @ po_log s\<rparr>"
    by (simp add: pool_step_def e)
  have len: "length (po_states s) = length (pd_target_powers d)"
    and wok: "\<And>l. l < length ?ws \<Longrightarrow> worker_ok d (po_states s) (po_log s) (?ws ! l)"
    and uniq: "\<And>l m. l < length ?ws \<Longrightarrow> m < length ?ws \<Longrightarrow> holds (?ws ! l) = holds (?ws ! m) \<Longrightarrow>
        holds (?ws ! l) \<noteq> None \<Longrightarrow> l = m"
    and sok: "\<forall>i < length (po_states s). state_ok d (po_states s) (po_log s) i"
    and comp: "\<And>i. i < length (po_states s) \<Longrightarrow> po_states s ! i = Computing \<Longrightarrow>
        \<exists>l < length ?ws. holds (?ws ! l) = Some i"
    and st: "\<And>p. Start p \<in> set (po_log s) \<Longrightarrow> p \<in> set (pd_target_powers d)"
    and lok: "log_ok d (po_log s)"
    using assms(2) unfolding pool_inv_def by blast+
  note facts = worker_step_states [OF assms(1) len lok wok [OF assms(3)] e sok]
  have held: "po_states s ! i = Computing" if "l < length ?ws" "holds (?ws ! l) = Some i" for l i
    using wok [OF that(1)] that(2) by (cases "?ws ! l") auto
  have "worker_ok d sts (evs @ po_log s) (?ws[k := w] ! l)" if "l < length ?ws" for l
  proof (cases "l = k")
    case True
    then show ?thesis using that worker_step_own [OF assms(1) len lok wok [OF assms(3)] e sok] by simp
  next
    case False
    then have "holds (?ws ! k) = holds (?ws ! l) \<Longrightarrow> holds (?ws ! k) = None"
      using uniq [OF assms(3) that] by metis
    then show ?thesis using False worker_step_other [OF assms(1) len wok [OF assms(3)] e wok [OF that]] by simp
  qed
  moreover have "holds w \<noteq> holds (?ws ! l)" if "l < length ?ws" "l \<noteq> k" "holds w \<noteq> None" for l
  proof
    assume h: "holds w = holds (?ws ! l)"
    show False using facts(4)
    proof (elim disjE exE conjE)
      assume "holds w = holds (?ws ! k)"
      then show False using uniq [of k l] that h assms(3) by auto
    next
      fix i assume "po_states s ! i = Uncomputed" "holds w = Some i"
      then show False using held [OF that(1)] h by auto
    qed (use that in simp)
  qed
  then have "holds w \<noteq> holds (?ws ! l)" if "l < length ?ws" "l \<noteq> k" "holds (?ws ! l) \<noteq> None" for l
    using that by metis
  then have "l = m" if "l < length ?ws" "m < length ?ws" "holds (?ws[k := w] ! l) = holds (?ws[k := w] ! m)"
    "holds (?ws[k := w] ! l) \<noteq> None" for l m
    using that uniq [of l m] by (cases "l = k"; cases "m = k") (auto, metis+)
  moreover have "\<exists>l < length ?ws. holds (?ws[k := w] ! l) = Some i" if "i < length sts" "sts ! i = Computing" for i
  proof (cases "holds w = Some i")
    case True
    then show ?thesis using assms(3) by (intro exI [of _ k]) simp
  next
    case False
    then have i: "po_states s ! i = Computing" "holds (?ws ! k) \<noteq> Some i" using that facts(1,3) by auto
    have "i < length (po_states s)" using that(1) facts(1) by simp
    then obtain l where "l < length ?ws" "holds (?ws ! l) = Some i" using comp [OF _ i(1)] by auto
    moreover from this have "l \<noteq> k" using i(2) by auto
    ultimately show ?thesis by (intro exI [of _ l]) simp
  qed
  ultimately show ?thesis
    using facts(1,2,5) len st worker_step_log [OF len lok wok [OF assms(3)] e sok]
    unfolding pool_inv_def ps by auto
qed

lemma workers_length: "reachable d n s \<Longrightarrow> length (po_workers s) = n"
  by (induction rule: reachable.induct) (auto simp: pool_init_def pool_step_def split: prod.splits)

lemma pool_inv_reachable: "reachable d n s \<Longrightarrow> dag_ok d \<Longrightarrow> pool_inv d s"
  by (induction rule: reachable.induct) (auto simp: pool_inv_init pool_inv_step workers_length)

subsection \<open>Progress\<close>

definition all_done :: "pool \<Rightarrow> bool" where
  "all_done s \<longleftrightarrow> (\<forall>w \<in> set (po_workers s). w = Done)"

definition can_finish :: "powers_dag \<Rightarrow> pool \<Rightarrow> bool" where
  "can_finish d s \<longleftrightarrow> (\<exists>ks. set ks \<subseteq> {..<length (po_workers s)} \<and> all_done (run d ks s))"

definition pending :: "node_state list \<Rightarrow> nat" where
  "pending sts = length (filter (\<lambda>x. x \<noteq> Computed) sts)"

text \<open>In index order, the parents of a node come before it.\<close>

definition dag_ordered :: "powers_dag \<Rightarrow> bool" where
  "dag_ordered d \<longleftrightarrow> dag_ok d \<and>
     (\<forall>i < length (pd_target_powers d). parents_at d (pd_target_powers d ! i) = (0, 0) \<or>
        (\<exists>a < i. \<exists>b < i. index_of (pd_target_powers d) (fst (parents_at d (pd_target_powers d ! i))) = Some a \<and>
                       index_of (pd_target_powers d) (snd (parents_at d (pd_target_powers d ! i))) = Some b))"

lemma pool_step_length [simp]: "length (po_workers (pool_step d k s)) = length (po_workers s)"
  by (auto simp: pool_step_def split: prod.splits)

lemma can_finish_step:
  assumes "k < length (po_workers s)" "can_finish d (pool_step d k s)"
  shows "can_finish d s"
proof -
  obtain ks where "set ks \<subseteq> {..<length (po_workers s)}" "all_done (run d ks (pool_step d k s))"
    using assms(2) by (auto simp: can_finish_def)
  then show ?thesis using assms(1) unfolding can_finish_def by (intro exI [of _ "k # ks"]) simp
qed

lemma sum_list_less_update:
  fixes f :: "'a \<Rightarrow> nat"
  assumes "k < length xs" "f y < f (xs ! k)"
  shows "sum_list (map f (xs[k := y])) < sum_list (map f xs)"
proof -
  have "map f xs ! k \<le> sum_list (map f xs)" using assms(1) by (intro elem_le_sum_list) simp
  then show ?thesis using assms by (simp add: map_update sum_list_update)
qed

lemma pending_card: "pending sts = card {i. i < length sts \<and> sts ! i \<noteq> Computed}"
  by (simp add: pending_def length_filter_conv_card)

lemma pending_less:
  assumes "i < length sts" "sts ! i \<noteq> Computed"
  shows "pending (sts[i := Computed]) < pending sts"
  unfolding pending_card
  by (rule psubset_card_mono) (use assms in \<open>auto simp: nth_list_update\<close>)

lemma pending_same:
  assumes "i < length sts" "sts ! i \<noteq> Computed" "x \<noteq> Computed"
  shows "pending (sts[i := x]) = pending sts"
  unfolding pending_card
  by (rule arg_cong [of _ _ card]) (use assms in \<open>auto simp: nth_list_update\<close>)

fun end_rank :: "nat \<Rightarrow> worker \<Rightarrow> nat" where
  "end_rank n (Scan i j) = n + 1 - j"
| "end_rank n (Try i) = n + 2"
| "end_rank n _ = 0"

lemma can_finish_end:
  assumes "pool_inv d s" "dag_ok d" "\<forall>x < length (po_states s). po_states s ! x = Computed"
  shows "can_finish d s"
  using assms
proof (induction "sum_list (map (end_rank (length (po_states s))) (po_workers s))" arbitrary: s rule: less_induct)
  case less
  show ?case
  proof (cases "all_done s")
    case True
    then show ?thesis unfolding can_finish_def by (intro exI [of _ "[]"]) simp
  next
    case False
    then obtain k where k: "k < length (po_workers s)" "po_workers s ! k \<noteq> Done"
      by (auto simp: all_done_def in_set_conv_nth)
    let ?w = "po_workers s ! k"
    have ok: "worker_ok d (po_states s) (po_log s) ?w" using less.prems(1) k(1) by (simp add: pool_inv_def)
    have "\<exists>w'. worker_step d (po_states s) ?w = (po_states s, w', []) \<and>
        end_rank (length (po_states s)) w' < end_rank (length (po_states s)) ?w"
      using ok k(2) less.prems(3) by (cases ?w) auto
    then obtain w' where w': "worker_step d (po_states s) ?w = (po_states s, w', [])"
      "end_rank (length (po_states s)) w' < end_rank (length (po_states s)) ?w" by blast
    have "can_finish d (pool_step d k s)"
    proof (rule less.hyps)
      show "pool_inv d (pool_step d k s)" using less.prems(1,2) k(1) by (simp add: pool_inv_step)
      show "sum_list (map (end_rank (length (po_states (pool_step d k s)))) (po_workers (pool_step d k s)))
        < sum_list (map (end_rank (length (po_states s))) (po_workers s))"
        using w' k(1) by (simp add: pool_step_def sum_list_less_update)
    qed (use less.prems w' in \<open>auto simp: pool_step_def\<close>)
    then show ?thesis using k(1) by (rule can_finish_step [rotated])
  qed
qed

fun hold_rank :: "worker \<Rightarrow> nat" where
  "hold_rank (Claimed i) = 7"
| "hold_rank (Read_p1 i) = 6"
| "hold_rank (Read_p2 i b) = 5"
| "hold_rank (Call i) = 4"
| "hold_rank (Running i) = 3"
| "hold_rank (Mark i) = 2"
| "hold_rank (Release i) = 1"
| "hold_rank _ = 0"

lemma hold_rank_step:
  assumes "worker_ok d sts lg w" "holds w \<noteq> None" "dag_ok d" "length sts = length (pd_target_powers d)"
    and "worker_step d sts w = (sts', w', evs)"
  shows "hold_rank w' < hold_rank w"
  using assms by (cases w) (auto split: if_splits sum.splits)

definition idle :: "pool \<Rightarrow> bool" where
  "idle s \<longleftrightarrow> (\<forall>w \<in> set (po_workers s). holds w = None)"

lemma can_finish_idle:
  assumes "pool_inv d s" "dag_ok d"
    and "\<And>s'. pool_inv d s' \<Longrightarrow> idle s' \<Longrightarrow> length (po_workers s') = length (po_workers s) \<Longrightarrow>
           pending (po_states s') \<le> pending (po_states s) \<Longrightarrow> can_finish d s'"
  shows "can_finish d s"
  using assms
proof (induction "sum_list (map hold_rank (po_workers s))" arbitrary: s rule: less_induct)
  case less
  show ?case
  proof (cases "idle s")
    case True
    then show ?thesis using less.prems by simp
  next
    case False
    then obtain k where k: "k < length (po_workers s)" "holds (po_workers s ! k) \<noteq> None"
      by (metis idle_def in_set_conv_nth)
    let ?w = "po_workers s ! k"
    have ok: "worker_ok d (po_states s) (po_log s) ?w" "length (po_states s) = length (pd_target_powers d)"
      using less.prems(1) k(1) by (simp_all add: pool_inv_def)
    obtain sts' w' evs where e: "worker_step d (po_states s) ?w = (sts', w', evs)"
      by (cases "worker_step d (po_states s) ?w") auto
    have rank: "hold_rank w' < hold_rank ?w" using hold_rank_step [OF ok(1) k(2) less.prems(2) ok(2) e] .
    have "pending sts' \<le> pending (po_states s)"
      using e ok k(2)
      by (cases ?w) (auto simp: pending_less pending_same less_imp_le split: if_splits sum.splits)
    then have pend: "pending (po_states (pool_step d k s)) \<le> pending (po_states s)"
      by (simp add: pool_step_def e)
    have "can_finish d (pool_step d k s)"
    proof (rule less.hyps)
      show "pool_inv d (pool_step d k s)" using less.prems(1,2) k(1) by (simp add: pool_inv_step)
      show "sum_list (map hold_rank (po_workers (pool_step d k s))) < sum_list (map hold_rank (po_workers s))"
        using e rank k(1) by (simp add: pool_step_def sum_list_less_update)
      show "can_finish d s'" if "pool_inv d s'" "idle s'"
        "length (po_workers s') = length (po_workers (pool_step d k s))"
        "pending (po_states s') \<le> pending (po_states (pool_step d k s))" for s'
        using that pend by (intro less.prems(3)) simp_all
    qed (rule less.prems(2))
    then show ?thesis using k(1) by (rule can_finish_step [rotated])
  qed
qed

text \<open>
  One worker on its own reaches the first node that is not computed, and computes it: \<open>m\<close> is the
  index of that node, and the rank is the distance to it along the worker's round.
\<close>

definition dist_to :: "nat \<Rightarrow> nat \<Rightarrow> nat \<Rightarrow> nat" where
  "dist_to n m i = (if i \<le> m then m - i else m + n - i)"

lemma dist_to_next:
  assumes "i < n" "m < n" "i \<noteq> m"
  shows "dist_to n m (Suc i mod n) < dist_to n m i"
proof (cases "Suc i = n")
  case True
  then show ?thesis using assms by (simp add: dist_to_def)
next
  case False
  then have "Suc i mod n = Suc i" using assms by simp
  then show ?thesis using assms unfolding dist_to_def by auto
qed

fun solo_rank :: "nat \<Rightarrow> nat \<Rightarrow> worker \<Rightarrow> nat \<times> nat" where
  "solo_rank n m (Scan i j) = (dist_to n m i, n + 10 - j)"
| "solo_rank n m (Try i) = (dist_to n m i, 9)"
| "solo_rank n m (Claimed i) = (dist_to n m i, 8)"
| "solo_rank n m (Read_p1 i) = (dist_to n m i, 7)"
| "solo_rank n m (Read_p2 i b) = (dist_to n m i, 6)"
| "solo_rank n m (Call i) = (dist_to n m i, 5)"
| "solo_rank n m (Running i) = (dist_to n m i, 4)"
| "solo_rank n m (Mark i) = (dist_to n m i, 3)"
| "solo_rank n m (Release i) = (dist_to n m i, 2)"
| "solo_rank n m w = (0, 0)"

definition fresh :: "nat \<Rightarrow> worker \<Rightarrow> bool" where
  "fresh m w \<longleftrightarrow> w \<noteq> Read_p2 m False \<and> w \<noteq> Release m"

definition first_pending :: "node_state list \<Rightarrow> nat \<Rightarrow> bool" where
  "first_pending sts m \<longleftrightarrow> m < length sts \<and> sts ! m \<noteq> Computed \<and> (\<forall>x<m. sts ! x = Computed)"

lemma parents_computed:
  assumes "dag_ordered d" "first_pending sts m" "length sts = length (pd_target_powers d)"
    "parents_at d (pd_target_powers d ! m) \<noteq> (0, 0)"
  shows "is_computed (pd_target_powers d) sts (fst (parents_at d (pd_target_powers d ! m)))"
    and "is_computed (pd_target_powers d) sts (snd (parents_at d (pd_target_powers d ! m)))"
  using assms by (fastforce simp: dag_ordered_def first_pending_def is_computed_def)+

lemma solo_step:
  assumes "dag_ordered d" "length sts = length (pd_target_powers d)" "first_pending sts m"
    "worker_ok d sts lg w" "fresh m w" "worker_step d sts w = (sts', w', evs)"
    "\<And>i. w = Try i \<Longrightarrow> i < length sts \<Longrightarrow> sts ! i \<noteq> Computing"
  shows "pending sts' < pending sts \<or>
     first_pending sts' m \<and> pending sts' = pending sts \<and> fresh m w' \<and>
     (solo_rank (length sts) m w', solo_rank (length sts) m w) \<in> less_than <*lex*> less_than"
proof -
  have dok: "dag_ok d" using assms(1) by (simp add: dag_ordered_def)
  have m: "m < length sts" "sts ! m \<noteq> Computed" "\<And>x. x < m \<Longrightarrow> sts ! x = Computed"
    using assms(3) by (simp_all add: first_pending_def)
  have upd: "first_pending (sts[i := x]) m" if "i < length sts" "sts ! i \<noteq> Computed" "x \<noteq> Computed" for i x
    using that m by (auto simp: first_pending_def nth_list_update)
  show ?thesis
  proof (cases w)
    case (Scan i j)
    have "j \<le> m" using m assms(4) Scan by (auto simp: not_less [symmetric])
    then show ?thesis using assms Scan m by (auto simp: fresh_def split: if_splits)
  next
    case (Try i)
    then show ?thesis using assms m upd [of i Computing] dist_to_next [of i "length sts" m]
      by (cases "sts ! i"; cases "i = m") (auto simp: fresh_def pending_same)
  next
    case (Claimed i)
    then show ?thesis using assms m
      by (auto simp: fresh_def split: if_splits sum.splits)
  next
    case (Read_p1 i)
    then show ?thesis using assms m parents_computed [OF assms(1,3,2)]
      by (cases "parents_at d (pd_target_powers d ! i) = (0, 0)") (auto simp: fresh_def)
  next
    case (Read_p2 i b)
    then show ?thesis using assms m parents_computed [OF assms(1,3,2)] by (auto simp: fresh_def split: if_splits)
  next
    case (Release i)
    then show ?thesis using assms m upd [of i Uncomputed] dist_to_next [of i "length sts" m]
      by (auto simp: fresh_def pending_same)
  next
    case (Mark i)
    then show ?thesis using assms m pending_less by auto
  next
    case Done
    then show ?thesis using assms(4) m by auto
  qed (use assms in \<open>auto simp: fresh_def split: if_splits\<close>)
qed

lemma can_finish_solo:
  assumes "pool_inv d s" "dag_ordered d" "first_pending (po_states s) m" "0 < length (po_workers s)"
    "\<And>k. k < length (po_workers s) \<Longrightarrow> k \<noteq> 0 \<Longrightarrow> holds (po_workers s ! k) = None"
    "fresh m (po_workers s ! 0)"
    and "\<And>s'. pool_inv d s' \<Longrightarrow> length (po_workers s') = length (po_workers s) \<Longrightarrow>
           pending (po_states s') < pending (po_states s) \<Longrightarrow> can_finish d s'"
  shows "can_finish d s"
  using assms
proof (induction "solo_rank (length (pd_target_powers d)) m (po_workers s ! 0)" arbitrary: s
    rule: wf_induct_rule [OF wf_lex_prod [OF wf_less_than wf_less_than]])
  case (1 s)
  have dok: "dag_ok d" using 1(3) by (simp add: dag_ordered_def)
  let ?w = "po_workers s ! 0"
  have len: "length (po_states s) = length (pd_target_powers d)"
    and ok: "worker_ok d (po_states s) (po_log s) ?w" using 1(2,5) by (simp_all add: pool_inv_def)
  obtain sts' w' evs where e: "worker_step d (po_states s) ?w = (sts', w', evs)"
    by (cases "worker_step d (po_states s) ?w") auto
  have computing: "po_states s ! i \<noteq> Computing" if tr: "?w = Try i" "i < length (po_states s)" for i
  proof
    assume "po_states s ! i = Computing"
    then obtain k where "k < length (po_workers s)" "holds (po_workers s ! k) = Some i"
      using 1(2) tr(2) unfolding pool_inv_def by blast
    then show False using 1(6) [of k] tr(1) by (cases "k = 0") auto
  qed
  have ps: "pool_step d 0 s = \<lparr>po_states = sts', po_workers = (po_workers s)[0 := w'], po_log = evs @ po_log s\<rparr>"
    by (simp add: pool_step_def e)
  have inv: "pool_inv d (pool_step d 0 s)" using 1(2,5) dok by (simp add: pool_inv_step)
  have w0: "po_workers (pool_step d 0 s) ! 0 = w'" using 1(5) by (simp add: ps)
  consider "pending sts' < pending (po_states s)"
    | "first_pending sts' m" "pending sts' = pending (po_states s)" "fresh m w'"
      "(solo_rank (length (pd_target_powers d)) m w', solo_rank (length (pd_target_powers d)) m ?w)
         \<in> less_than <*lex*> less_than"
    using solo_step [OF 1(3) len 1(4) ok 1(7) e computing] len by fastforce
  then have "can_finish d (pool_step d 0 s)"
  proof cases
    case 1
    then show ?thesis using inv by (intro "1.prems"(7)) (simp_all add: ps)
  next
    case 2
    show ?thesis
    proof (rule "1.hyps")
      show "(solo_rank (length (pd_target_powers d)) m (po_workers (pool_step d 0 s) ! 0),
          solo_rank (length (pd_target_powers d)) m ?w) \<in> less_than <*lex*> less_than"
        using 2(4) by (simp only: w0)
      show "first_pending (po_states (pool_step d 0 s)) m" using 2(1) by (simp add: ps)
      show "fresh m (po_workers (pool_step d 0 s) ! 0)" using 2(3) by (simp only: w0)
      show "holds (po_workers (pool_step d 0 s) ! k) = None"
        if "k < length (po_workers (pool_step d 0 s))" "k \<noteq> 0" for k
        using that "1.prems"(5) by (simp add: ps)
      show "can_finish d s'" if "pool_inv d s'" "length (po_workers s') = length (po_workers (pool_step d 0 s))"
        "pending (po_states s') < pending (po_states (pool_step d 0 s))" for s'
        using that 2(2) by (intro "1.prems"(7)) (simp_all add: ps)
    qed (use inv "1.prems" in simp_all)
  qed
  then show ?case using 1(5) by (rule can_finish_step [rotated])
qed

lemma can_finish_all:
  assumes "pool_inv d s" "dag_ordered d" "0 < length (po_workers s)"
  shows "can_finish d s"
  using assms
proof (induction "pending (po_states s)" arbitrary: s rule: less_induct)
  case less
  have dok: "dag_ok d" using less.prems(2) by (simp add: dag_ordered_def)
  show ?case
  proof (rule can_finish_idle [OF less.prems(1) dok])
    fix s' assume s': "pool_inv d s'" "idle s'" "length (po_workers s') = length (po_workers s)"
      "pending (po_states s') \<le> pending (po_states s)"
    show "can_finish d s'"
    proof (cases "\<forall>x < length (po_states s'). po_states s' ! x = Computed")
      case True
      then show ?thesis using s'(1) dok by (intro can_finish_end)
    next
      case False
      let ?P = "\<lambda>x. x < length (po_states s') \<and> po_states s' ! x \<noteq> Computed"
      have "?P (LEAST x. ?P x)" using False by (intro LeastI_ex [of ?P]) blast
      moreover have "\<forall>x < (LEAST x. ?P x). po_states s' ! x = Computed"
        using calculation not_less_Least [of _ ?P] by (meson order_less_trans)
      ultimately have fp: "first_pending (po_states s') (LEAST x. ?P x)"
        unfolding first_pending_def by blast
      have none: "holds (po_workers s' ! k) = None" if "k < length (po_workers s')" for k
        using s'(2) that by (simp add: idle_def)
      show ?thesis
      proof (rule can_finish_solo [OF s'(1) less.prems(2) fp])
        show "fresh (LEAST x. ?P x) (po_workers s' ! 0)"
          using none [of 0] s'(3) less.prems(3) by (auto simp: fresh_def)
        show "can_finish d s2" if "pool_inv d s2" "length (po_workers s2) = length (po_workers s')"
          "pending (po_states s2) < pending (po_states s')" for s2
          by (rule less.hyps) (use that s' less.prems in auto)
      qed (use s' none less.prems in simp_all)
    qed
  qed
qed

subsection \<open>Properties\<close>

lemma log_ok_distinct: "log_ok d lg \<Longrightarrow> distinct lg"
  by (induction d lg rule: log_ok.induct) auto

lemma reachable_run: "reachable d n s \<Longrightarrow> set ks \<subseteq> {..<n} \<Longrightarrow> reachable d n (run d ks s)"
  by (induction ks arbitrary: s) (auto intro: reachable.step)

lemma configured_ordered:
  assumes "create_powers_set low deg = Some (Inr T)" and "low \<le> deg" and "0 < deg"
    and "deg + low + 1 < 2 ^ 32" and "1 \<in> set S" and "set S \<subseteq> set T"
    and "pd_configure d S T = Inr (d', ok)"
  shows "dag_ordered d' \<and> pd_target_powers d' = T"
proof -
  have T: "oset_ok T" "set T = power_targets low deg"
    using create_powers_set_targets [OF assms(2-4)] assms(1) by auto
  have closed: "\<exists>a b. split_of (set T) p a b" if "p \<in> set T - set S" for p
    using that assms(5) power_targets_closed [of p low deg] by (auto simp: T(2))
  have T0: "0 \<notin> set T" by (simp add: T(2) power_targets_pos)
  have d': "pd_target_powers d' = T" and
    nodes: "\<And>p. p \<in> set T \<Longrightarrow> node_valid (pd_nodes d') (set S) (set T) p"
    using configure_ok [OF T(1) T0 assms(5,6) closed, of d] assms(7) by auto
  have sorted: "sorted T" "distinct T" using T(1) by (simp_all add: oset_ok_iff)
  have node: "\<exists>n. map_of (pd_nodes d') p = Some n \<and> (pn_parents n = (0, 0) \<or>
      (\<exists>a b. pn_parents n = (a, b) \<and> split_of (set T) p a b))" if "p \<in> set T" for p
    using nodes [OF that] by (auto simp: node_valid_def split: if_splits)
  have idx: "\<exists>a < i. index_of T q = Some a" if q: "q \<in> set T" "q < T ! i" "i < length T" for q i
  proof -
    obtain a where a: "index_of T q = Some a" using q(1) index_of_none [of T q] by auto
    then have "a < length T" "T ! a = q" using index_of_some by blast+
    then have "a < i" using sorted q(2,3) by (metis leD not_le sorted_nth_mono)
    then show ?thesis using a by blast
  qed
  have "\<exists>n. map_of (pd_nodes d') p = Some n \<and>
      (is_source n \<or> fst (pn_parents n) \<in> set T \<and> snd (pn_parents n) \<in> set T)" if "p \<in> set T" for p
    using node [OF that] by (auto simp: is_source_def split_of_def)
  moreover have "T \<noteq> []" using assms(5,6) by auto
  ultimately have "dag_ok d'" using sorted(2) by (simp add: dag_ok_def d')
  moreover have "parents_at d' (T ! i) = (0, 0) \<or>
      (\<exists>a < i. \<exists>b < i. index_of T (fst (parents_at d' (T ! i))) = Some a \<and>
                     index_of T (snd (parents_at d' (T ! i))) = Some b)" if i: "i < length T" for i
  proof -
    obtain n where n: "map_of (pd_nodes d') (T ! i) = Some n" "pn_parents n = (0, 0) \<or>
      (\<exists>a b. pn_parents n = (a, b) \<and> split_of (set T) (T ! i) a b)" using node [of "T ! i"] i by auto
    then have p: "parents_at d' (T ! i) = pn_parents n" by (simp add: parents_at_def)
    show ?thesis
    proof (cases "pn_parents n = (0, 0)")
      case True
      then show ?thesis using p by simp
    next
      case False
      then obtain a b where ab: "pn_parents n = (a, b)" "split_of (set T) (T ! i) a b" using n(2) by blast
      then have "a \<in> set T" "a < T ! i" "b \<in> set T" "b < T ! i" by (auto simp: split_of_def)
      then have "\<exists>x<i. index_of T a = Some x" "\<exists>y<i. index_of T b = Some y" using idx [OF _ _ i] by blast+
      then show ?thesis using p ab(1) by auto
    qed
  qed
  ultimately show ?thesis by (simp add: dag_ordered_def d')
qed

text \<open>
  C12. Whatever the interleaving of the workers, on a plan that \<open>configure\<close> made for a query
  \<open>parallel_apply\<close> calls the function at most once for each power, never before the calls for both its
  parents have returned, and no worker throws.
\<close>
theorem parallel_apply_safe:
  assumes "create_powers_set low deg = Some (Inr T)" and "low \<le> deg" and "0 < deg"
    and "deg + low + 1 < 2 ^ 32" and "1 \<in> set S" and "set S \<subseteq> set T"
    and "pd_configure d S T = Inr (d', ok)" and "reachable d' n s"
  shows "log_ok d' (po_log s) \<and> distinct (po_log s) \<and> (\<exists>e. Failed e \<in> set (po_workers s)) = False"
proof -
  have "dag_ok d'" using configured_ordered [OF assms(1-7)] by (simp add: dag_ordered_def)
  then have inv: "pool_inv d' s" using assms(8) by (simp add: pool_inv_reachable)
  then have "log_ok d' (po_log s)" by (simp add: pool_inv_def)
  moreover have "Failed e \<notin> set (po_workers s)" for e
    using inv by (fastforce simp: pool_inv_def in_set_conv_nth)
  ultimately show ?thesis using log_ok_distinct by blast
qed

text \<open>
  C30. When some worker has found everything done, the function has been called and has returned
  exactly once for every target power, and for nothing else.
\<close>
theorem parallel_apply_complete:
  assumes "create_powers_set low deg = Some (Inr T)" and "low \<le> deg" and "0 < deg"
    and "deg + low + 1 < 2 ^ 32" and "1 \<in> set S" and "set S \<subseteq> set T"
    and "pd_configure d S T = Inr (d', ok)" and "reachable d' n s" and "Done \<in> set (po_workers s)"
  shows "distinct (po_log s) \<and> set (po_log s) = Start ` set T \<union> Finish ` set T"
proof -
  have d': "dag_ok d'" "pd_target_powers d' = T"
    using configured_ordered [OF assms(1-7)] by (simp_all add: dag_ordered_def)
  then have inv: "pool_inv d' s" using assms(8) by (simp add: pool_inv_reachable)
  then have lok: "log_ok d' (po_log s)" and len: "length (po_states s) = length T"
    and st: "\<And>p. Start p \<in> set (po_log s) \<Longrightarrow> p \<in> set T"
    using d'(2) by (simp_all add: pool_inv_def)
  have "\<forall>x<length T. po_states s ! x = Computed"
    using inv assms(9) len by (fastforce simp: pool_inv_def in_set_conv_nth)
  then have fin: "Finish p \<in> set (po_log s)" if "p \<in> set T" for p
    using that inv len d'(2) by (auto simp: pool_inv_def state_ok_def in_set_conv_nth)
  have "e \<in> Start ` set T \<union> Finish ` set T" if "e \<in> set (po_log s)" for e
  proof (cases e)
    case (Start p)
    then show ?thesis using that st [of p] by simp
  next
    case (Finish p)
    then show ?thesis using that st [of p] log_ok_finish_start [OF lok, of p] by simp
  qed
  then show ?thesis using fin log_ok_finish_start [OF lok] log_ok_distinct [OF lok] by blast
qed

text \<open>
  C31. From every state the workers can reach there is a schedule after which all of them have
  returned: no interleaving leads into a deadlock or a livelock that cannot be left.
\<close>
theorem parallel_apply_can_finish:
  assumes "create_powers_set low deg = Some (Inr T)" and "low \<le> deg" and "0 < deg"
    and "deg + low + 1 < 2 ^ 32" and "1 \<in> set S" and "set S \<subseteq> set T"
    and "pd_configure d S T = Inr (d', ok)" and "reachable d' n s" and "0 < n"
  shows "\<exists>ks. set ks \<subseteq> {..<n} \<and> reachable d' n (run d' ks s) \<and> all_done (run d' ks s)"
proof -
  have "dag_ordered d'" using configured_ordered [OF assms(1-7)] by simp
  moreover from this have "pool_inv d' s" using assms(8) by (simp add: pool_inv_reachable dag_ordered_def)
  moreover have "0 < length (po_workers s)" using workers_length [OF assms(8)] assms(9) by simp
  ultimately have "can_finish d' s" by (intro can_finish_all)
  then show ?thesis using reachable_run [OF assms(8)] workers_length [OF assms(8)]
    by (auto simp: can_finish_def)
qed

lemma create_powers_set_2: "create_powers_set 0 2 = Some (Inr [1, 2])"
  by (simp add: create_powers_set_def powers_loop.simps insort_insert_key_def)

definition dag_1_2 :: powers_dag where
  "dag_1_2 = \<lparr>pd_nodes = [(1, \<lparr>pn_power = 1, pn_depth = 0, pn_parents = (0, 0)\<rparr>),
                           (2, \<lparr>pn_power = 2, pn_depth = 1, pn_parents = (1, 1)\<rparr>)],
     pd_configured = True, pd_target_powers = [1, 2], pd_depth = 1, pd_source_count = 1\<rparr>"

lemma configure_1_2: "pd_configure empty_dag [1] [1, 2] = Inr (dag_1_2, True)"
  by (simp add: pd_configure_def empty_dag_def pd_reset_def Let_def node_at_def dag_1_2_def)

text \<open>Two workers that take turns, then the first finishes its node and the second does the rest.\<close>

definition turns :: "nat list" where
  "turns = [0, 1, 0, 1, 0, 1, 0, 1] @ replicate 12 0 @ replicate 28 1"

lemma run_turns_1_2:
  "Done \<in> set (po_workers (run dag_1_2 turns (pool_init dag_1_2 2)))"
  by (simp add: turns_def pool_init_def dag_1_2_def pool_step_def node_at_def is_source_def
      numeral_eq_Suc is_computed_def parents_at_def)

lemma reachable_turns: "reachable dag_1_2 2 (run dag_1_2 turns (pool_init dag_1_2 2))"
  by (rule reachable_run [OF reachable.init]) (auto simp: turns_def)

theorem parallel_apply_safe_witness:
  "let s = run dag_1_2 turns (pool_init dag_1_2 2) in
     log_ok dag_1_2 (po_log s) \<and> distinct (po_log s) \<and> (\<exists>e. Failed e \<in> set (po_workers s)) = False"
  unfolding Let_def
  by (rule parallel_apply_safe [OF create_powers_set_2 _ _ _ _ _ configure_1_2 reachable_turns]) simp_all

theorem parallel_apply_complete_witness:
  "let s = run dag_1_2 turns (pool_init dag_1_2 2) in
     distinct (po_log s) \<and> set (po_log s) = Start ` set [1, 2] \<union> Finish ` set [1, 2]"
  unfolding Let_def
  by (rule parallel_apply_complete [OF create_powers_set_2 _ _ _ _ _ configure_1_2 reachable_turns _])
    (simp_all add: run_turns_1_2)

theorem parallel_apply_can_finish_witness:
  "\<exists>ks. set ks \<subseteq> {..<2} \<and> reachable dag_1_2 2 (run dag_1_2 ks (pool_init dag_1_2 2)) \<and>
     all_done (run dag_1_2 ks (pool_init dag_1_2 2))"
  by (rule parallel_apply_can_finish [OF create_powers_set_2 _ _ _ _ _ configure_1_2 reachable.init]) simp_all

end
