(* ===== verification/CuckooTable.thy ===== *)
theory CuckooTable
  imports Utils "HOL-Library.Multiset"
begin

text \<open>
  \<open>CuckooFilterTable\<close> (\<open>sender/apsi/util/cuckoo_filter_table.cpp\<close>): buckets of four tags of
  a configurable width, packed without gaps into 64-bit words. The lemmas show that the packing is
  an array of tags: a write changes the tag it names and no other.
\<close>

subsection \<open>State\<close>

record cf_table =
  ct_bits_per_tag :: nat
  ct_tag_input_mask :: u64
  ct_table :: "u64 list"
  ct_num_buckets :: nat

definition tags_per_bucket :: nat where
  "tags_per_bucket = 4"

text \<open>A shift of a 64-bit word by 64 or more is undefined.\<close>

definition shl64 :: "u64 \<Rightarrow> nat \<Rightarrow> u64 res" where
  "shl64 w n = (if n < 64 then Inr (push_bit n w) else Inl Undefined)"

definition shr64 :: "u64 \<Rightarrow> nat \<Rightarrow> u64 res" where
  "shr64 w n = (if n < 64 then Inr (drop_bit n w) else Inl Undefined)"

definition check_bits_per_tag :: "nat \<Rightarrow> unit res" where
  "check_bits_per_tag bits_per_tag =
     (if bits_per_tag = 0 \<or> bits_per_tag > 64
      then Inl (Invalid_argument ''bits_per_tag cannot be 0 or bigger than 64'') else Inr ())"

definition table_of_data :: "u64 list \<Rightarrow> nat \<Rightarrow> nat \<Rightarrow> cf_table res" where
  "table_of_data table num_buckets bits_per_tag =
     bind_res (check_bits_per_tag bits_per_tag) (\<lambda>_.
     bind_res (shl64 (NOT 0) bits_per_tag) (\<lambda>tag_input_mask.
       Inr \<lparr>ct_bits_per_tag = bits_per_tag, ct_tag_input_mask = tag_input_mask, ct_table = table,
            ct_num_buckets = num_buckets\<rparr>))"

text \<open>
  The load factor is compared with 0.96 in double precision. The number of buckets is a power of
  two, so for item counts below 2^53 the quotient is exact, and no double lies strictly between
  the literal and 0.96: the comparison is the one over the rationals.
\<close>

definition make_table :: "nat \<Rightarrow> nat \<Rightarrow> cf_table res" where
  "make_table num_items bits_per_tag =
     bind_res (check_bits_per_tag bits_per_tag) (\<lambda>_.
     bind_res (shl64 (NOT 0) bits_per_tag) (\<lambda>tag_input_mask.
       let num_buckets = unat (next_power_of_2 (of_nat (max 1 (num_items div tags_per_bucket))));
           num_buckets = (if 96 * (num_buckets * tags_per_bucket) < 100 * num_items
                          then wrap64 (num_buckets * 2) else num_buckets);
           bits_per_bucket = tags_per_bucket * bits_per_tag;
           num_uint64 = wrap64 (bits_per_bucket * num_buckets + 63) div 64
       in Inr \<lparr>ct_bits_per_tag = bits_per_tag, ct_tag_input_mask = tag_input_mask,
            ct_table = replicate num_uint64 0, ct_num_buckets = num_buckets\<rparr>))"

subsection \<open>Tags\<close>

record tag_index_info =
  ti_start_idx :: nat
  ti_start_offset :: nat
  ti_bits_first_word :: nat
  ti_bits_second_word :: nat

definition tag_index :: "nat \<Rightarrow> nat \<Rightarrow> nat \<Rightarrow> tag_index_info" where
  "tag_index bits_per_tag bucket tag_idx =
     (let tag_start_bit = wrap64 (bucket * bits_per_tag * tags_per_bucket + tag_idx * bits_per_tag);
          tag_start_offset = tag_start_bit mod 64
      in if tag_start_offset > 64 - bits_per_tag
         then \<lparr>ti_start_idx = tag_start_bit div 64, ti_start_offset = tag_start_offset,
               ti_bits_first_word = 64 - tag_start_offset,
               ti_bits_second_word = bits_per_tag - (64 - tag_start_offset)\<rparr>
         else \<lparr>ti_start_idx = tag_start_bit div 64, ti_start_offset = tag_start_offset,
               ti_bits_first_word = bits_per_tag, ti_bits_second_word = 0\<rparr>)"

definition table_word :: "u64 list \<Rightarrow> nat \<Rightarrow> u64 res" where
  "table_word table i = (if i < length table then Inr (table ! i) else Inl Bad_access)"

definition check_bucket :: "cf_table \<Rightarrow> nat \<Rightarrow> string \<Rightarrow> unit res" where
  "check_bucket t bucket msg =
     (if bucket \<ge> ct_num_buckets t then Inl (Invalid_argument msg) else Inr ())"

definition check_tag_idx :: "nat \<Rightarrow> unit res" where
  "check_tag_idx tag_idx =
     (if tag_idx \<ge> tags_per_bucket then Inl (Invalid_argument ''tag_idx out of range'') else Inr ())"

definition check_tag :: "cf_table \<Rightarrow> u64 \<Rightarrow> unit res" where
  "check_tag t tag =
     (if tag AND ct_tag_input_mask t \<noteq> 0
      then Inl (Invalid_argument ''tag is not constrained to bits_per_tag'') else Inr ())"

definition read_tag :: "cf_table \<Rightarrow> nat \<Rightarrow> nat \<Rightarrow> u64 res" where
  "read_tag t bucket tag_idx =
     bind_res (check_bucket t bucket ''bucket out of range'') (\<lambda>_.
     bind_res (check_tag_idx tag_idx) (\<lambda>_.
       let tii = tag_index (ct_bits_per_tag t) bucket tag_idx
       in bind_res (table_word (ct_table t) (ti_start_idx tii)) (\<lambda>tag_word.
          bind_res (shl64 (NOT 0) (ti_bits_first_word tii)) (\<lambda>m.
            let tag = drop_bit (ti_start_offset tii) tag_word AND NOT m
            in if ti_bits_second_word tii \<noteq> 0 then
                 bind_res (table_word (ct_table t) (ti_start_idx tii + 1)) (\<lambda>tag_word.
                 bind_res (shl64 (NOT 0) (ti_bits_second_word tii)) (\<lambda>m.
                 bind_res (shl64 (tag_word AND NOT m) (ti_bits_first_word tii)) (\<lambda>rest.
                   Inr (tag OR rest))))
               else Inr tag))))"

definition write_tag :: "cf_table \<Rightarrow> nat \<Rightarrow> nat \<Rightarrow> u64 \<Rightarrow> cf_table res" where
  "write_tag t bucket tag_idx tag =
     bind_res (check_bucket t bucket ''bucket out of range'') (\<lambda>_.
     bind_res (check_tag_idx tag_idx) (\<lambda>_.
     bind_res (check_tag t tag) (\<lambda>_.
       let tii = tag_index (ct_bits_per_tag t) bucket tag_idx;
           tag_ones = NOT (ct_tag_input_mask t);
           tag_mask = NOT (push_bit (ti_start_offset tii) tag_ones);
           tag_word = push_bit (ti_start_offset tii) tag
       in bind_res (table_word (ct_table t) (ti_start_idx tii)) (\<lambda>w.
            let table = (ct_table t)[ti_start_idx tii := (w AND tag_mask) OR tag_word]
            in if ti_bits_second_word tii \<noteq> 0 then
                 bind_res (shr64 tag_ones (ti_bits_first_word tii)) (\<lambda>m.
                 bind_res (shr64 tag (ti_bits_first_word tii)) (\<lambda>tag_word.
                 bind_res (table_word table (ti_start_idx tii + 1)) (\<lambda>w.
                   Inr (t\<lparr>ct_table := table[ti_start_idx tii + 1 := (w AND NOT m) OR tag_word]\<rparr>))))
               else Inr (t\<lparr>ct_table := table\<rparr>)))))"

subsection \<open>Operations on buckets\<close>

text \<open>
  The loops over the slots of a bucket, from slot \<open>i\<close> with \<open>n\<close> slots to go: the first slot that
  holds a given tag.
\<close>

fun find_slot :: "cf_table \<Rightarrow> nat \<Rightarrow> u64 \<Rightarrow> nat \<Rightarrow> nat \<Rightarrow> nat option res" where
  "find_slot t bucket tag i 0 = Inr None"
| "find_slot t bucket tag i (Suc n) =
     bind_res (read_tag t bucket i) (\<lambda>x.
       if x = tag then Inr (Some i) else find_slot t bucket tag (Suc i) n)"

text \<open>
  \<open>insert_tag\<close> returns the table, whether the tag found a free slot, and the value of \<open>old_tag\<close>;
  \<open>rnd\<close> is the value that \<open>rand()\<close> returns if it is called.
\<close>

definition insert_tag :: "cf_table \<Rightarrow> nat \<Rightarrow> u64 \<Rightarrow> bool \<Rightarrow> nat \<Rightarrow> u64 \<Rightarrow> (cf_table \<times> bool \<times> u64) res" where
  "insert_tag t bucket tag kickout rnd old_tag =
     bind_res (find_slot t bucket 0 0 tags_per_bucket) (\<lambda>slot. case slot of
       Some i \<Rightarrow> bind_res (write_tag t bucket i tag) (\<lambda>t'. Inr (t', True, old_tag))
     | None \<Rightarrow>
         if kickout then
           let rnd_idx = rnd mod tags_per_bucket
           in bind_res (read_tag t bucket rnd_idx) (\<lambda>old_tag.
              bind_res (write_tag t bucket rnd_idx tag) (\<lambda>t'. Inr (t', False, old_tag)))
         else Inr (t, False, old_tag))"

definition delete_tag :: "cf_table \<Rightarrow> nat \<Rightarrow> u64 \<Rightarrow> (cf_table \<times> bool) res" where
  "delete_tag t bucket tag =
     bind_res (check_bucket t bucket ''bucket out of range'') (\<lambda>_.
     bind_res (check_tag t tag) (\<lambda>_.
     bind_res (find_slot t bucket tag 0 tags_per_bucket) (\<lambda>slot. case slot of
       Some i \<Rightarrow> bind_res (write_tag t bucket i 0) (\<lambda>t'. Inr (t', True))
     | None \<Rightarrow> Inr (t, False))))"

definition find_tag_in_bucket :: "cf_table \<Rightarrow> nat \<Rightarrow> u64 \<Rightarrow> bool res" where
  "find_tag_in_bucket t bucket tag =
     bind_res (check_bucket t bucket ''bucket out of range'') (\<lambda>_.
     bind_res (check_tag t tag) (\<lambda>_.
     bind_res (find_slot t bucket tag 0 tags_per_bucket) (\<lambda>slot. Inr (slot \<noteq> None))))"

definition find_tag_in_buckets :: "cf_table \<Rightarrow> nat \<Rightarrow> nat \<Rightarrow> u64 \<Rightarrow> bool res" where
  "find_tag_in_buckets t bucket1 bucket2 tag =
     bind_res (check_bucket t bucket1 ''bucket1 out of range'') (\<lambda>_.
     bind_res (check_bucket t bucket2 ''bucket2 out of range'') (\<lambda>_.
     bind_res (find_tag_in_bucket t bucket1 tag) (\<lambda>b1.
       if b1 then Inr True else find_tag_in_bucket t bucket2 tag)))"

subsection \<open>The packed array of tags\<close>

definition tbit :: "u64 list \<Rightarrow> nat \<Rightarrow> bool" where
  "tbit table p = bit (table ! (p div 64)) (p mod 64)"

definition slot_start :: "cf_table \<Rightarrow> nat \<Rightarrow> nat \<Rightarrow> nat" where
  "slot_start t b i = (b * tags_per_bucket + i) * ct_bits_per_tag t"

definition table_ok :: "cf_table \<Rightarrow> bool" where
  "table_ok t \<longleftrightarrow> 0 < ct_bits_per_tag t \<and> ct_bits_per_tag t < 64 \<and>
     ct_tag_input_mask t = push_bit (ct_bits_per_tag t) (NOT 0) \<and>
     ct_num_buckets t * tags_per_bucket * ct_bits_per_tag t \<le> length (ct_table t) * 64 \<and>
     length (ct_table t) * 64 < 2 ^ 64"

definition fits_tag :: "cf_table \<Rightarrow> u64 \<Rightarrow> bool" where
  "fits_tag t x \<longleftrightarrow> (\<forall>j. bit x j \<longrightarrow> j < ct_bits_per_tag t)"

lemmas word_bits = bit_and_iff bit_or_iff bit_xor_iff bit_not_iff bit_push_bit_iff bit_drop_bit_eq bit_mask_iff

lemma tbit_split: "j < 64 \<Longrightarrow> tbit table (64 * q + j) = bit (table ! q) j"
  by (simp add: tbit_def)

lemma slot_start_bound:
  assumes "table_ok t" "b < ct_num_buckets t" "i < tags_per_bucket"
  shows "slot_start t b i + ct_bits_per_tag t \<le> length (ct_table t) * 64"
proof -
  have "Suc b * tags_per_bucket \<le> ct_num_buckets t * tags_per_bucket"
    using assms(2) by (intro mult_le_mono1) simp
  then have "Suc (b * tags_per_bucket + i) \<le> ct_num_buckets t * tags_per_bucket" using assms(3) by simp
  then have "Suc (b * tags_per_bucket + i) * ct_bits_per_tag t
      \<le> ct_num_buckets t * tags_per_bucket * ct_bits_per_tag t" by (rule mult_le_mono1)
  then show ?thesis using assms(1) unfolding slot_start_def table_ok_def by simp
qed

lemma slot_start_wrap:
  assumes "table_ok t" "b < ct_num_buckets t" "i < tags_per_bucket"
  shows "wrap64 (b * ct_bits_per_tag t * tags_per_bucket + i * ct_bits_per_tag t) = slot_start t b i"
proof -
  have e: "b * ct_bits_per_tag t * tags_per_bucket + i * ct_bits_per_tag t = slot_start t b i"
    by (simp add: slot_start_def algebra_simps)
  have "slot_start t b i < 2 ^ 64"
    using slot_start_bound [OF assms] assms(1) unfolding table_ok_def by linarith
  then show ?thesis unfolding e by simp
qed

lemma slots_disjoint:
  assumes "(b, i) \<noteq> (b', i')" "i < tags_per_bucket" "i' < tags_per_bucket" "j < ct_bits_per_tag t"
  shows "\<not> (slot_start t b i \<le> slot_start t b' i' + j \<and> slot_start t b' i' + j < slot_start t b i + ct_bits_per_tag t)"
proof -
  let ?k = "b * tags_per_bucket + i" and ?l = "b' * tags_per_bucket + i'"
  have "?k \<noteq> ?l"
  proof
    assume e: "?k = ?l"
    have "?k div tags_per_bucket = b" "?l div tags_per_bucket = b'"
      using assms(2,3) by (simp_all add: tags_per_bucket_def)
    then have "b = b'" using e by simp
    then show False using e assms(1) by simp
  qed
  then consider "Suc ?k \<le> ?l" | "Suc ?l \<le> ?k" by linarith
  then show ?thesis
  proof cases
    case 1
    then have "Suc ?k * ct_bits_per_tag t \<le> ?l * ct_bits_per_tag t" by (rule mult_le_mono1)
    then show ?thesis unfolding slot_start_def by simp
  next
    case 2
    then have "Suc ?l * ct_bits_per_tag t \<le> ?k * ct_bits_per_tag t" by (rule mult_le_mono1)
    then show ?thesis using assms(4) unfolding slot_start_def by simp
  qed
qed

lemma check_ok [simp]:
  "b < ct_num_buckets t \<Longrightarrow> check_bucket t b msg = Inr ()"
  "i < tags_per_bucket \<Longrightarrow> check_tag_idx i = Inr ()"
  by (simp_all add: check_bucket_def check_tag_idx_def)

lemma check_tag_fits: "table_ok t \<Longrightarrow> fits_tag t x \<Longrightarrow> check_tag t x = Inr ()"
proof -
  assume "table_ok t" "fits_tag t x"
  then have "x AND ct_tag_input_mask t = 0"
    by (intro bit_word_eqI) (auto simp: table_ok_def fits_tag_def word_bits)
  then show ?thesis by (simp add: check_tag_def)
qed

lemma table_word_ok [simp]: "i < length ts \<Longrightarrow> table_word ts i = Inr (ts ! i)"
  by (simp add: table_word_def)

lemma shift64_ok [simp]: "n < 64 \<Longrightarrow> shl64 w n = Inr (push_bit n w)" "n < 64 \<Longrightarrow> shr64 w n = Inr (drop_bit n w)"
  by (simp_all add: shl64_def shr64_def)

lemma read_tag_bits:
  assumes t: "table_ok t" and b: "b < ct_num_buckets t" "i < tags_per_bucket"
  shows "\<exists>x. read_tag t b i = Inr x \<and>
    (\<forall>j. bit x j \<longleftrightarrow> j < ct_bits_per_tag t \<and> tbit (ct_table t) (slot_start t b i + j))"
proof -
  define w q o' where "w = ct_bits_per_tag t" and "q = slot_start t b i div 64" and "o' = slot_start t b i mod 64"
  have start: "slot_start t b i = 64 * q + o'" and o: "o' < 64" by (simp_all add: q_def o'_def)
  have w: "0 < w" "w < 64" using t by (simp_all add: w_def table_ok_def)
  have bound: "64 * q + o' + w \<le> length (ct_table t) * 64"
    using slot_start_bound [OF assms] by (simp add: w_def start)
  then have q: "q < length (ct_table t)" using w by linarith
  have idx: "tag_index w b i =
     (if o' > 64 - w
      then \<lparr>ti_start_idx = q, ti_start_offset = o', ti_bits_first_word = 64 - o', ti_bits_second_word = w - (64 - o')\<rparr>
      else \<lparr>ti_start_idx = q, ti_start_offset = o', ti_bits_first_word = w, ti_bits_second_word = 0\<rparr>)"
    unfolding tag_index_def w_def slot_start_wrap [OF assms] Let_def q_def o'_def by simp
  show ?thesis
  proof (cases "o' > 64 - w")
    case False
    have "tbit (ct_table t) (64 * q + o' + j) = bit (ct_table t ! q) (o' + j)" if "j < w" for j
      using tbit_split [of "o' + j" "ct_table t" q] that False w by (simp add: add.assoc)
    moreover have "read_tag t b i = Inr (drop_bit o' (ct_table t ! q) AND NOT (push_bit w (NOT 0)))"
      using False w q b by (simp add: read_tag_def Let_def w_def [symmetric] idx)
    ultimately show ?thesis using w by (auto simp: start word_bits w_def [symmetric])
  next
    case True
    have q1: "Suc q < length (ct_table t)" using bound True w by linarith
    have lo: "tbit (ct_table t) (64 * q + o' + j) = bit (ct_table t ! q) (o' + j)" if "j < 64 - o'" for j
      using tbit_split [of "o' + j" "ct_table t" q] that by (simp add: add.assoc)
    have hi: "tbit (ct_table t) (64 * q + o' + j) = bit (ct_table t ! Suc q) (j - (64 - o'))"
      if h: "\<not> j < 64 - o'" "j < w" for j
    proof -
      obtain k where k: "j = (64 - o') + k" using le_add_diff_inverse [OF leI [OF h(1)]] by metis
      have "64 * q + o' + j = 64 * q + (o' + (64 - o')) + k" unfolding k by (simp only: ac_simps)
      then have e: "64 * q + o' + j = 64 * Suc q + k" using o by simp
      have "k < 64" "j - (64 - o') = k" using h(2) w(2) k by simp_all
      then show ?thesis unfolding e using tbit_split [of k "ct_table t" "Suc q"] by (simp only:)
    qed
    have "read_tag t b i = Inr (drop_bit o' (ct_table t ! q) AND NOT (push_bit (64 - o') (NOT 0)) OR
       push_bit (64 - o') (ct_table t ! Suc q AND NOT (push_bit (w - (64 - o')) (NOT 0))))"
      using True w q q1 o b by (simp add: read_tag_def Let_def w_def [symmetric] idx)
    moreover have "bit (drop_bit o' (ct_table t ! q) AND NOT (push_bit (64 - o') (NOT 0)) OR
       push_bit (64 - o') (ct_table t ! Suc q AND NOT (push_bit (w - (64 - o')) (NOT 0)))) j
       \<longleftrightarrow> j < w \<and> tbit (ct_table t) (64 * q + o' + j)" for j
      using True w o lo hi by (cases "j < 64 - o'") (auto simp: word_bits)
    ultimately show ?thesis unfolding start w_def [symmetric] by blast
  qed
qed

lemma write_tag_bits:
  assumes t: "table_ok t" and b: "b < ct_num_buckets t" "i < tags_per_bucket" and x: "fits_tag t x"
  shows "\<exists>t'. write_tag t b i x = Inr t' \<and> t' = t\<lparr>ct_table := ct_table t'\<rparr> \<and> length (ct_table t') = length (ct_table t) \<and>
    (\<forall>p < length (ct_table t) * 64. tbit (ct_table t') p \<longleftrightarrow>
       (if slot_start t b i \<le> p \<and> p < slot_start t b i + ct_bits_per_tag t then bit x (p - slot_start t b i)
        else tbit (ct_table t) p))"
proof -
  define w q o' where "w = ct_bits_per_tag t" and "q = slot_start t b i div 64" and "o' = slot_start t b i mod 64"
  have start: "slot_start t b i = 64 * q + o'" and o: "o' < 64" by (simp_all add: q_def o'_def)
  have w: "0 < w" "w < 64" and mask: "ct_tag_input_mask t = push_bit w (NOT 0)"
    using t by (simp_all add: w_def table_ok_def)
  have bound: "64 * q + o' + w \<le> length (ct_table t) * 64"
    using slot_start_bound [OF t b] by (simp add: w_def start)
  then have q: "q < length (ct_table t)" using w by linarith
  have xb: "bit x j \<Longrightarrow> j < w" for j using x by (simp add: fits_tag_def w_def)
  have idx: "tag_index w b i =
     (if o' > 64 - w
      then \<lparr>ti_start_idx = q, ti_start_offset = o', ti_bits_first_word = 64 - o', ti_bits_second_word = w - (64 - o')\<rparr>
      else \<lparr>ti_start_idx = q, ti_start_offset = o', ti_bits_first_word = w, ti_bits_second_word = 0\<rparr>)"
    unfolding tag_index_def w_def slot_start_wrap [OF t b] Let_def q_def o'_def by simp
  let ?T = "ct_table t"
  let ?lo = "(?T ! q AND NOT (push_bit o' (NOT (push_bit w (NOT 0))))) OR push_bit o' x"
  have lo: "bit ?lo k \<longleftrightarrow> (if o' \<le> k \<and> k < o' + w then bit x (k - o') else bit (?T ! q) k)" if "k < 64" for k
    using that w o xb [of "k - o'"] by (auto simp: word_bits)
  show ?thesis
  proof (cases "o' > 64 - w")
    case False
    have "write_tag t b i x = Inr (t\<lparr>ct_table := ?T[q := ?lo]\<rparr>)"
      using False w q b check_tag_fits [OF t x] by (simp add: write_tag_def Let_def w_def [symmetric] idx mask)
    moreover have "tbit (?T[q := ?lo]) p \<longleftrightarrow>
        (if 64 * q + o' \<le> p \<and> p < 64 * q + o' + w then bit x (p - (64 * q + o')) else tbit ?T p)" for p
    proof -
      obtain r k where p: "p = 64 * r + k" "k < 64" using mod_less_divisor [of 64 p] by (metis mult_div_mod_eq zero_less_numeral)
      show ?thesis
      proof (cases "r = q")
        case True
        then show ?thesis using p q lo [of k] False w tbit_split [of k "?T[q := ?lo]" q] tbit_split [of k ?T q] by simp
      next
        case ne: False
        then have "\<not> (64 * q + o' \<le> p \<and> p < 64 * q + o' + w)" using p False w by linarith
        then show ?thesis using p ne tbit_split [of k "?T[q := ?lo]" r] tbit_split [of k ?T r] by auto
      qed
    qed
    ultimately show ?thesis unfolding start w_def [symmetric] by auto
  next
    case True
    have q1: "Suc q < length ?T" using bound True w by linarith
    let ?hi = "(?T ! Suc q AND NOT (drop_bit (64 - o') (NOT (push_bit w (NOT 0))))) OR drop_bit (64 - o') x"
    let ?T' = "?T[q := ?lo, Suc q := ?hi]"
    have hi: "bit ?hi k \<longleftrightarrow> (if k + (64 - o') < w then bit x (k + (64 - o')) else bit (?T ! Suc q) k)" if "k < 64" for k
      using that w o xb [of "64 - o' + k"] by (auto simp: word_bits add.commute)
    have "write_tag t b i x = Inr (t\<lparr>ct_table := ?T'\<rparr>)"
      using True w q q1 o b check_tag_fits [OF t x] by (simp add: write_tag_def Let_def w_def [symmetric] idx mask)
    moreover have "tbit ?T' p \<longleftrightarrow>
        (if 64 * q + o' \<le> p \<and> p < 64 * q + o' + w then bit x (p - (64 * q + o')) else tbit ?T p)" for p
    proof -
      obtain r k where p: "p = 64 * r + k" "k < 64" using mod_less_divisor [of 64 p] by (metis mult_div_mod_eq zero_less_numeral)
      consider "r = q" | "r = Suc q" | "r \<noteq> q" "r \<noteq> Suc q" by blast
      then show ?thesis
      proof cases
        case 1
        then show ?thesis using p q q1 lo [of k] True w tbit_split [of k ?T' q] tbit_split [of k ?T q] by auto
      next
        case 2
        have "p - (64 * q + o') = k + (64 - o')" "64 * q + o' \<le> p" "p < 64 * q + o' + w \<longleftrightarrow> k + (64 - o') < w"
          using 2 p o by auto
        then show ?thesis using 2 p q1 hi [of k] tbit_split [of k ?T' "Suc q"] tbit_split [of k ?T "Suc q"] by simp
      next
        case 3
        then have "\<not> (64 * q + o' \<le> p \<and> p < 64 * q + o' + w)" using p True w o by linarith
        then show ?thesis using p 3 tbit_split [of k ?T' r] tbit_split [of k ?T r] by auto
      qed
    qed
    ultimately show ?thesis unfolding start w_def [symmetric] by auto
  qed
qed

definition same_shape :: "cf_table \<Rightarrow> cf_table \<Rightarrow> bool" where
  "same_shape t t' \<longleftrightarrow> ct_bits_per_tag t' = ct_bits_per_tag t \<and> ct_num_buckets t' = ct_num_buckets t"

lemma read_tag_ok:
  assumes "table_ok t" "b < ct_num_buckets t" "i < tags_per_bucket"
  shows "\<exists>x. read_tag t b i = Inr x \<and> fits_tag t x"
  using read_tag_bits [OF assms] by (auto simp: fits_tag_def)

lemma write_tag_ok:
  assumes t: "table_ok t" and b: "b < ct_num_buckets t" "i < tags_per_bucket" and x: "fits_tag t x"
  shows "\<exists>t'. write_tag t b i x = Inr t' \<and> table_ok t' \<and> same_shape t t' \<and>
    (\<forall>b' i'. b' < ct_num_buckets t \<longrightarrow> i' < tags_per_bucket \<longrightarrow>
       read_tag t' b' i' = (if (b', i') = (b, i) then Inr x else read_tag t b' i'))"
proof -
  obtain t' where w: "write_tag t b i x = Inr t'" "t' = t\<lparr>ct_table := ct_table t'\<rparr>"
    "length (ct_table t') = length (ct_table t)"
    and bits: "\<And>p. p < length (ct_table t) * 64 \<Longrightarrow> tbit (ct_table t') p \<longleftrightarrow>
       (if slot_start t b i \<le> p \<and> p < slot_start t b i + ct_bits_per_tag t then bit x (p - slot_start t b i)
        else tbit (ct_table t) p)"
    using write_tag_bits [OF assms] by blast
  have shape: "ct_bits_per_tag t' = ct_bits_per_tag t" "ct_num_buckets t' = ct_num_buckets t"
    "ct_tag_input_mask t' = ct_tag_input_mask t"
    by (subst w(2), simp)+
  have t': "table_ok t'" using t shape w(3) by (simp add: table_ok_def)
  have start: "slot_start t' = slot_start t" by (intro ext) (simp add: slot_start_def shape)
  have "read_tag t' b' i' = (if (b', i') = (b, i) then Inr x else read_tag t b' i')"
    if b': "b' < ct_num_buckets t" "i' < tags_per_bucket" for b' i'
  proof -
    obtain y where y: "read_tag t b' i' = Inr y"
      "\<And>j. bit y j \<longleftrightarrow> j < ct_bits_per_tag t \<and> tbit (ct_table t) (slot_start t b' i' + j)"
      using read_tag_bits [OF t b'] by blast
    obtain z where z: "read_tag t' b' i' = Inr z"
      "\<And>j. bit z j \<longleftrightarrow> j < ct_bits_per_tag t \<and> tbit (ct_table t') (slot_start t b' i' + j)"
      using read_tag_bits [OF t', of b' i'] b' shape by (auto simp: start)
    have inside: "slot_start t b' i' + j < length (ct_table t) * 64" if "j < ct_bits_per_tag t" for j
      using slot_start_bound [OF t b'] that by linarith
    show ?thesis
    proof (cases "(b', i') = (b, i)")
      case True
      have "bit z j \<longleftrightarrow> bit x j" for j
      proof (cases "j < ct_bits_per_tag t")
        case lt: True
        then show ?thesis using bits [OF inside [OF lt]] z(2) [of j] True by simp
      next
        case False
        then show ?thesis using z(2) [of j] x by (auto simp: fits_tag_def)
      qed
      then have "z = x" by (intro bit_word_eqI) simp
      then show ?thesis using True z(1) by simp
    next
      case False
      have "bit z j \<longleftrightarrow> bit y j" for j
      proof (cases "j < ct_bits_per_tag t")
        case lt: True
        have "\<not> (slot_start t b i \<le> slot_start t b' i' + j \<and>
            slot_start t b' i' + j < slot_start t b i + ct_bits_per_tag t)"
          using False b(2) b'(2) lt by (intro slots_disjoint) auto
        then show ?thesis using bits [OF inside [OF lt]] z(2) [of j] y(2) [of j] lt by auto
      next
        case False
        then show ?thesis using z(2) [of j] y(2) [of j] by simp
      qed
      then have "z = y" by (intro bit_word_eqI) simp
      then show ?thesis using False z(1) y(1) by auto
    qed
  qed
  then show ?thesis using w(1) t' shape by (auto simp: same_shape_def)
qed

subsection \<open>Slots of a bucket\<close>

text \<open>
  What a bucket structure promises to the filter: slots are read and written one at a time, and a
  write changes no other slot.
\<close>

definition slots_of :: "(nat \<Rightarrow> nat \<Rightarrow> 'v res) \<Rightarrow> nat \<Rightarrow> 'v option list" where
  "slots_of rd b = map (\<lambda>i. case rd b i of Inl _ \<Rightarrow> None | Inr x \<Rightarrow> Some x) [0..<tags_per_bucket]"

locale tag_slots =
  fixes ok :: "'t \<Rightarrow> bool" and shape :: "'t \<Rightarrow> 't \<Rightarrow> bool" and buckets :: "'t \<Rightarrow> nat"
    and fits :: "'t \<Rightarrow> 'v \<Rightarrow> bool" and rd :: "'t \<Rightarrow> nat \<Rightarrow> nat \<Rightarrow> 'v res"
    and wr :: "'t \<Rightarrow> nat \<Rightarrow> nat \<Rightarrow> 'v \<Rightarrow> 't res"
  assumes rd_ok: "ok t \<Longrightarrow> b < buckets t \<Longrightarrow> i < tags_per_bucket \<Longrightarrow> \<exists>x. rd t b i = Inr x \<and> fits t x"
    and wr_ok: "ok t \<Longrightarrow> b < buckets t \<Longrightarrow> i < tags_per_bucket \<Longrightarrow> fits t x \<Longrightarrow>
      \<exists>t'. wr t b i x = Inr t' \<and> ok t' \<and> shape t t' \<and>
        (\<forall>b' i'. b' < buckets t \<longrightarrow> i' < tags_per_bucket \<longrightarrow>
           rd t' b' i' = (if (b', i') = (b, i) then Inr x else rd t b' i'))"
begin

lemma slots_length: "length (slots_of (rd t) b) = tags_per_bucket"
  by (simp add: slots_of_def)

lemma slots_nth:
  assumes "ok t" "b < buckets t" "i < tags_per_bucket"
  shows "\<exists>x. rd t b i = Inr x \<and> slots_of (rd t) b ! i = Some x \<and> fits t x"
  using rd_ok [OF assms] assms(3) by (auto simp: slots_of_def)

lemma write_slots:
  assumes "ok t" "b < buckets t" "i < tags_per_bucket" "fits t x"
  shows "\<exists>t'. wr t b i x = Inr t' \<and> ok t' \<and> shape t t' \<and>
    (\<forall>b' < buckets t. slots_of (rd t') b' =
       (if b' = b then (slots_of (rd t) b)[i := Some x] else slots_of (rd t) b'))"
proof -
  obtain t' where t': "wr t b i x = Inr t'" "ok t'" "shape t t'"
    "\<And>b' i'. b' < buckets t \<Longrightarrow> i' < tags_per_bucket \<Longrightarrow>
       rd t' b' i' = (if (b', i') = (b, i) then Inr x else rd t b' i')"
    using wr_ok [OF assms] by blast
  have "slots_of (rd t') b' = (if b' = b then (slots_of (rd t) b)[i := Some x] else slots_of (rd t) b')"
    if "b' < buckets t" for b'
    using t'(4) [OF that] by (intro nth_equalityI) (auto simp: slots_of_def nth_list_update)
  then show ?thesis using t'(1-3) by blast
qed

end

interpretation packed: tag_slots table_ok same_shape ct_num_buckets fits_tag read_tag write_tag
  by unfold_locales (use read_tag_ok write_tag_ok in blast)+

definition bucket_tags :: "cf_table \<Rightarrow> nat \<Rightarrow> u64 multiset" where
  "bucket_tags t b = filter_mset (\<lambda>x. x \<noteq> 0) (mset (map the (slots_of (read_tag t) b)))"

lemma find_slot_spec:
  assumes "table_ok t" "b < ct_num_buckets t" "i + n = tags_per_bucket"
  shows "\<exists>r. find_slot t b tag i n = Inr r \<and>
    (case r of None \<Rightarrow> \<forall>k. i \<le> k \<longrightarrow> k < tags_per_bucket \<longrightarrow> slots_of (read_tag t) b ! k \<noteq> Some tag
     | Some k \<Rightarrow> k < tags_per_bucket \<and> slots_of (read_tag t) b ! k = Some tag)"
  using assms(3)
proof (induction n arbitrary: i)
  case 0
  then show ?case by simp
next
  case (Suc n)
  then have i: "i < tags_per_bucket" by simp
  obtain x where x: "read_tag t b i = Inr x" "slots_of (read_tag t) b ! i = Some x"
    using packed.slots_nth [OF assms(1,2) i] by blast
  show ?case
  proof (cases "x = tag")
    case True
    then show ?thesis using x i by simp
  next
    case False
    obtain r where r: "find_slot t b tag (Suc i) n = Inr r"
      "case r of None \<Rightarrow> \<forall>k. Suc i \<le> k \<longrightarrow> k < tags_per_bucket \<longrightarrow> slots_of (read_tag t) b ! k \<noteq> Some tag
       | Some k \<Rightarrow> k < tags_per_bucket \<and> slots_of (read_tag t) b ! k = Some tag"
      using Suc.IH [of "Suc i"] Suc.prems by auto
    have "slots_of (read_tag t) b ! k \<noteq> Some tag" if "r = None" "i \<le> k" "k < tags_per_bucket" for k
      using that r(2) x(2) False by (cases "k = i") auto
    then show ?thesis using r x False by (cases r) auto
  qed
qed

lemma find_slot_whole:
  assumes "table_ok t" "b < ct_num_buckets t"
  obtains r where "find_slot t b tag 0 tags_per_bucket = Inr r"
    "case r of None \<Rightarrow> \<forall>k. k < tags_per_bucket \<longrightarrow> slots_of (read_tag t) b ! k \<noteq> Some tag
     | Some k \<Rightarrow> k < tags_per_bucket \<and> slots_of (read_tag t) b ! k = Some tag"
proof -
  obtain r where "find_slot t b tag 0 tags_per_bucket = Inr r"
    "case r of None \<Rightarrow> \<forall>k. 0 \<le> k \<longrightarrow> k < tags_per_bucket \<longrightarrow> slots_of (read_tag t) b ! k \<noteq> Some tag
     | Some k \<Rightarrow> k < tags_per_bucket \<and> slots_of (read_tag t) b ! k = Some tag"
    using find_slot_spec [OF assms, of 0 tags_per_bucket tag] by auto
  then show thesis by (intro that [of r]) (cases r; simp)+
qed

lemma bucket_tags_mem:
  assumes "table_ok t" "b < ct_num_buckets t" "tag \<noteq> 0"
  shows "tag \<in># bucket_tags t b \<longleftrightarrow> (\<exists>k < tags_per_bucket. slots_of (read_tag t) b ! k = Some tag)"
proof -
  let ?s = "slots_of (read_tag t) b"
  have "the (?s ! k) = tag \<longleftrightarrow> ?s ! k = Some tag" if "k < tags_per_bucket" for k
    using packed.slots_nth [OF assms(1,2) that] by auto
  then have "(\<exists>k < length ?s. the (?s ! k) = tag) \<longleftrightarrow> (\<exists>k < tags_per_bucket. ?s ! k = Some tag)"
    using packed.slots_length [of t b] by auto
  moreover have "tag \<in># bucket_tags t b \<longleftrightarrow> tag \<in> set (map the ?s)"
    using assms(3) by (auto simp: bucket_tags_def)
  moreover have "tag \<in> set (map the ?s) \<longleftrightarrow> (\<exists>k < length ?s. the (?s ! k) = tag)"
    by (simp add: in_set_conv_nth del: set_map) auto
  ultimately show ?thesis by simp
qed

text \<open>The effect of one write on the multisets of tags.\<close>

lemma write_tag_tags:
  assumes "table_ok t" "b < ct_num_buckets t" "i < tags_per_bucket" "fits_tag t x"
    and old: "slots_of (read_tag t) b ! i = Some y"
  shows "\<exists>t'. write_tag t b i x = Inr t' \<and> table_ok t' \<and> same_shape t t' \<and>
    (\<forall>b' < ct_num_buckets t. b' \<noteq> b \<longrightarrow> bucket_tags t' b' = bucket_tags t b') \<and>
    bucket_tags t' b + (if y = 0 then {#} else {#y#}) = bucket_tags t b + (if x = 0 then {#} else {#x#})"
proof -
  obtain t' where t': "write_tag t b i x = Inr t'" "table_ok t'" "same_shape t t'"
    "\<And>b'. b' < ct_num_buckets t \<Longrightarrow> slots_of (read_tag t') b' =
       (if b' = b then (slots_of (read_tag t) b)[i := Some x] else slots_of (read_tag t) b')"
    using packed.write_slots [OF assms(1-4)] by blast
  let ?xs = "map the (slots_of (read_tag t) b)"
  have i: "i < length ?xs" "?xs ! i = y" using assms(3) old packed.slots_length by simp_all
  have e: "map the (slots_of (read_tag t') b) = ?xs[i := x]"
    using t'(4) [OF assms(2)] by (simp add: map_update)
  have "mset (?xs[i := x]) + {#y#} = mset ?xs + {#x#}"
    using nth_mem_mset [OF i(1)] unfolding mset_update [OF i(1)] i(2) by simp
  then have "filter_mset (\<lambda>x. x \<noteq> 0) (mset (?xs[i := x]) + {#y#}) = filter_mset (\<lambda>x. x \<noteq> 0) (mset ?xs + {#x#})"
    by simp
  then have "bucket_tags t' b + (if y = 0 then {#} else {#y#}) = bucket_tags t b + (if x = 0 then {#} else {#x#})"
    unfolding bucket_tags_def e by (auto split: if_splits)
  moreover have "bucket_tags t' b' = bucket_tags t b'" if "b' < ct_num_buckets t" "b' \<noteq> b" for b'
    using t'(4) [OF that(1)] that(2) by (simp add: bucket_tags_def)
  ultimately show ?thesis using t'(1-3) by blast
qed

lemma fits_zero [simp]: "fits_tag t 0"
  by (simp add: fits_tag_def)

lemma find_in_bucket_spec:
  assumes "table_ok t" "b < ct_num_buckets t" "fits_tag t tag" "tag \<noteq> 0"
  shows "find_tag_in_bucket t b tag = Inr (tag \<in># bucket_tags t b)"
proof -
  obtain r where r: "find_slot t b tag 0 tags_per_bucket = Inr r"
    "case r of None \<Rightarrow> \<forall>k. k < tags_per_bucket \<longrightarrow> slots_of (read_tag t) b ! k \<noteq> Some tag
     | Some k \<Rightarrow> k < tags_per_bucket \<and> slots_of (read_tag t) b ! k = Some tag"
    using find_slot_whole [OF assms(1,2)] .
  have "r \<noteq> None \<longleftrightarrow> tag \<in># bucket_tags t b"
    using r(2) bucket_tags_mem [OF assms(1,2,4)] by (cases r) auto
  then show ?thesis
    using r(1) assms by (simp add: find_tag_in_bucket_def check_tag_fits)
qed

lemma find_in_buckets_spec:
  assumes "table_ok t" "b1 < ct_num_buckets t" "b2 < ct_num_buckets t" "fits_tag t tag" "tag \<noteq> 0"
  shows "find_tag_in_buckets t b1 b2 tag = Inr (tag \<in># bucket_tags t b1 \<or> tag \<in># bucket_tags t b2)"
  using assms by (simp add: find_tag_in_buckets_def find_in_bucket_spec)

lemma delete_tag_spec:
  assumes "table_ok t" "b < ct_num_buckets t" "fits_tag t tag" "tag \<noteq> 0"
  shows "\<exists>t'. delete_tag t b tag = Inr (t', tag \<in># bucket_tags t b) \<and> table_ok t' \<and> same_shape t t' \<and>
    (\<forall>b' < ct_num_buckets t. bucket_tags t' b' = (if b' = b then bucket_tags t b - {#tag#} else bucket_tags t b'))"
proof -
  obtain r where r: "find_slot t b tag 0 tags_per_bucket = Inr r"
    "case r of None \<Rightarrow> \<forall>k. k < tags_per_bucket \<longrightarrow> slots_of (read_tag t) b ! k \<noteq> Some tag
     | Some k \<Rightarrow> k < tags_per_bucket \<and> slots_of (read_tag t) b ! k = Some tag"
    using find_slot_whole [OF assms(1,2)] .
  have mem: "r \<noteq> None \<longleftrightarrow> tag \<in># bucket_tags t b"
    using r(2) bucket_tags_mem [OF assms(1,2,4)] by (cases r) auto
  show ?thesis
  proof (cases r)
    case None
    then have "tag \<notin># bucket_tags t b" using mem by simp
    then show ?thesis using None r(1) assms
      by (auto simp: delete_tag_def check_tag_fits same_shape_def diff_single_trivial)
  next
    case (Some k)
    then obtain t' where t': "write_tag t b k 0 = Inr t'" "table_ok t'" "same_shape t t'"
      "\<forall>b' < ct_num_buckets t. b' \<noteq> b \<longrightarrow> bucket_tags t' b' = bucket_tags t b'"
      "bucket_tags t' b + {#tag#} = bucket_tags t b"
      using write_tag_tags [OF assms(1,2), of k 0 tag] r(2) assms(4) by auto
    have "bucket_tags t' b = bucket_tags t b - {#tag#}" using t'(5) by (metis add_diff_cancel_right')
    moreover have "delete_tag t b tag = Inr (t', True)"
      using Some r(1) assms t'(1) by (simp add: delete_tag_def check_tag_fits)
    ultimately show ?thesis using t'(2-4) mem Some by auto
  qed
qed

lemma insert_tag_spec:
  assumes "table_ok t" "b < ct_num_buckets t" "fits_tag t tag" "tag \<noteq> 0"
  shows "\<exists>t' placed old'. insert_tag t b tag kickout rnd old = Inr (t', placed, old') \<and> table_ok t' \<and> same_shape t t' \<and>
    (\<forall>b' < ct_num_buckets t. b' \<noteq> b \<longrightarrow> bucket_tags t' b' = bucket_tags t b') \<and>
    (if placed then bucket_tags t' b = add_mset tag (bucket_tags t b)
     else if kickout then old' \<noteq> 0 \<and> fits_tag t old' \<and> add_mset old' (bucket_tags t' b) = add_mset tag (bucket_tags t b)
     else t' = t)"
proof -
  obtain r where r: "find_slot t b 0 0 tags_per_bucket = Inr r"
    "case r of None \<Rightarrow> \<forall>k. k < tags_per_bucket \<longrightarrow> slots_of (read_tag t) b ! k \<noteq> Some 0
     | Some k \<Rightarrow> k < tags_per_bucket \<and> slots_of (read_tag t) b ! k = Some 0"
    using find_slot_whole [OF assms(1,2)] .
  show ?thesis
  proof (cases r)
    case (Some k)
    then obtain t' where t': "write_tag t b k tag = Inr t'" "table_ok t'" "same_shape t t'"
      "\<forall>b' < ct_num_buckets t. b' \<noteq> b \<longrightarrow> bucket_tags t' b' = bucket_tags t b'"
      "bucket_tags t' b = bucket_tags t b + {#tag#}"
      using write_tag_tags [OF assms(1,2) _ assms(3), of k 0] r(2) assms(4) by auto
    then show ?thesis using Some r(1) by (auto simp: insert_tag_def)
  next
    case None
    show ?thesis
    proof (cases kickout)
      case False
      then show ?thesis using None r(1) assms(1) by (auto simp: insert_tag_def same_shape_def)
    next
      case True
      let ?k = "rnd mod tags_per_bucket"
      have k: "?k < tags_per_bucket" by (simp add: tags_per_bucket_def)
      obtain y where y: "read_tag t b ?k = Inr y" "slots_of (read_tag t) b ! ?k = Some y" "fits_tag t y"
        using packed.slots_nth [OF assms(1,2) k] by blast
      have y0: "y \<noteq> 0" using r(2) None k y(2) by auto
      obtain t' where t': "write_tag t b ?k tag = Inr t'" "table_ok t'" "same_shape t t'"
        "\<forall>b' < ct_num_buckets t. b' \<noteq> b \<longrightarrow> bucket_tags t' b' = bucket_tags t b'"
        "bucket_tags t' b + {#y#} = bucket_tags t b + {#tag#}"
        using write_tag_tags [OF assms(1,2) k assms(3) y(2)] y0 assms(4) by auto
      show ?thesis using True None r(1) y y0 t' by (auto simp: insert_tag_def Let_def)
    qed
  qed
qed

text \<open>A fresh table is well formed, has a power of two of buckets, and holds no tag.\<close>

lemma next_power_bounds:
  assumes "0 < m" "m < 2 ^ 46"
  shows "\<exists>k. unat (next_power_of_2 (of_nat m)) = 2 ^ k \<and> 2 ^ k < (2 :: nat) ^ 47"
proof -
  have u: "unat (of_nat m :: u64) = m" using assms(2) by (simp add: unat_of_nat)
  obtain k where "unat (next_power_of_2 (of_nat m)) = 2 ^ k" "2 ^ k < 2 * m"
    using next_power_of_2_correct [of "of_nat m"] u assms by auto
  moreover from this have "2 ^ k < (2 :: nat) ^ 47" using assms(2) by simp
  ultimately show ?thesis by blast
qed

lemma empty_bucket_tags:
  assumes "table_ok t" "b < ct_num_buckets t" "ct_table t = replicate n 0"
  shows "bucket_tags t b = {#}"
proof -
  have "slots_of (read_tag t) b ! i = Some 0" if i: "i < tags_per_bucket" for i
  proof -
    obtain x where x: "read_tag t b i = Inr x"
      "\<And>j. bit x j \<longleftrightarrow> j < ct_bits_per_tag t \<and> tbit (ct_table t) (slot_start t b i + j)"
      using read_tag_bits [OF assms(1,2) i] by blast
    have "\<not> bit x j" for j
    proof (cases "j < ct_bits_per_tag t")
      case True
      then have "slot_start t b i + j < n * 64"
        using slot_start_bound [OF assms(1,2) i] assms(3) by simp
      then have "(slot_start t b i + j) div 64 < n" by (simp add: less_mult_imp_div_less)
      then show ?thesis using x(2) [of j] assms(3) by (simp add: tbit_def)
    qed (use x(2) in simp)
    then have "x = 0" by (intro bit_word_eqI) simp
    then show ?thesis using x(1) i by (simp add: slots_of_def)
  qed
  then have "slots_of (read_tag t) b = replicate tags_per_bucket (Some 0)"
    by (intro nth_equalityI) (simp_all add: packed.slots_length)
  then show ?thesis by (simp add: bucket_tags_def)
qed

lemma make_table_ok:
  assumes "0 < w" "w < 64" "n < 2 ^ 48"
  shows "\<exists>t k. make_table n w = Inr t \<and> table_ok t \<and> ct_num_buckets t = 2 ^ k \<and> k < 64 \<and> ct_bits_per_tag t = w \<and>
    (\<forall>b < ct_num_buckets t. bucket_tags t b = {#})"
proof -
  have m: "0 < max 1 (n div tags_per_bucket)" "max 1 (n div tags_per_bucket) < 2 ^ 46"
    using assms(3) by (auto simp: tags_per_bucket_def less_mult_imp_div_less)
  obtain k where k: "unat (next_power_of_2 (of_nat (max 1 (n div tags_per_bucket)))) = 2 ^ k" "2 ^ k < (2 :: nat) ^ 47"
    using next_power_bounds [OF m] by blast
  define k' where "k' = (if 96 * (2 ^ k * tags_per_bucket) < 100 * n then Suc k else k)"
  have kb: "2 ^ k' < (2 :: nat) ^ 48" using k(2) by (simp add: k'_def)
  then have "k' < 48" using power_less_imp_less_exp [of 2 k' 48] by simp
  define nb :: nat where "nb = 2 ^ k'"
  have nb: "nb < 2 ^ 48" using kb by (simp add: nb_def)
  have dbl: "(if 96 * (2 ^ k * tags_per_bucket) < 100 * n then wrap64 (2 ^ k * 2) else 2 ^ k) = nb"
    using k(2) by (simp add: nb_def k'_def)
  have "tags_per_bucket * w * nb \<le> 4 * 64 * nb" using assms(2) by (simp add: tags_per_bucket_def)
  then have sz: "tags_per_bucket * w * nb + 63 < 2 ^ 60"
  proof -
    have "4 * 64 * nb + 63 < 2 ^ 60" using nb by simp
    then show ?thesis using \<open>tags_per_bucket * w * nb \<le> 4 * 64 * nb\<close> by (rule le_less_trans [OF add_right_mono, rotated])
  qed
  let ?t = "\<lparr>ct_bits_per_tag = w, ct_tag_input_mask = push_bit w (NOT 0),
     ct_table = replicate ((tags_per_bucket * w * nb + 63) div 64) 0, ct_num_buckets = nb\<rparr>"
  have m: "make_table n w = Inr ?t"
    using assms(1,2) sz unfolding make_table_def check_bits_per_tag_def Let_def k(1) dbl
    by (simp del: push_bit_minus_one_eq_not_mask)
  have "nb * tags_per_bucket * w \<le> (tags_per_bucket * w * nb + 63) div 64 * 64"
    by (simp add: mult.commute mult.left_commute)
  moreover have "(tags_per_bucket * w * nb + 63) div 64 * 64 < 2 ^ 64"
    using le_less_trans [OF div_times_less_eq_dividend sz, of 64] by (rule less_trans) simp
  ultimately have ok: "table_ok ?t" using assms(1,2) unfolding table_ok_def by (simp del: push_bit_minus_one_eq_not_mask)
  then show ?thesis using m \<open>k' < 48\<close> empty_bucket_tags [OF ok]
    by (intro exI [of _ ?t] exI [of _ k']) (simp add: nb_def)
qed

subsection \<open>Properties\<close>

text \<open>
  C36. The packed table is an array of tags: writing a tag of the right width to a slot succeeds,
  reading that slot returns it, and every other slot of every bucket keeps its tag, also when the
  slot straddles two words.
\<close>
theorem packed_tags_array:
  assumes "table_ok t" and "b < ct_num_buckets t" and "i < tags_per_bucket" and "fits_tag t x"
    and "b' < ct_num_buckets t" and "i' < tags_per_bucket"
  shows "\<exists>t'. write_tag t b i x = Inr t' \<and> table_ok t' \<and> read_tag t' b i = Inr x \<and>
    read_tag t' b' i' = (if (b', i') = (b, i) then Inr x else read_tag t b' i')"
proof -
  obtain t' where t': "write_tag t b i x = Inr t'" "table_ok t'"
    "\<And>b' i'. b' < ct_num_buckets t \<Longrightarrow> i' < tags_per_bucket \<Longrightarrow>
       read_tag t' b' i' = (if (b', i') = (b, i) then Inr x else read_tag t b' i')"
    using write_tag_ok [OF assms(1-4)] by blast
  then show ?thesis using assms(2,3,5,6) by simp
qed

definition example_table :: cf_table where
  "example_table = \<lparr>ct_bits_per_tag = 12, ct_tag_input_mask = push_bit 12 (NOT 0),
     ct_table = [0x123456789ABCDEF0, 0xFEDCBA9876543210], ct_num_buckets = 2\<rparr>"

lemma example_table_ok: "table_ok example_table"
  by (simp add: table_ok_def example_table_def tags_per_bucket_def)

lemma fits_tag_take: "table_ok t \<Longrightarrow> take_bit (ct_bits_per_tag t) x = x \<Longrightarrow> fits_tag t x"
  unfolding fits_tag_def by (metis bit_take_bit_iff)

lemma example_table_fits: "fits_tag example_table 0xABC"
  by (rule fits_tag_take [OF example_table_ok]) (simp add: example_table_def)

theorem packed_tags_array_witness:
  "\<exists>t'. write_tag example_table 1 1 0xABC = Inr t' \<and> table_ok t' \<and> read_tag t' 1 1 = Inr 0xABC \<and>
    read_tag t' 1 2 = (if (1 :: nat, 2 :: nat) = (1, 1) then Inr 0xABC else read_tag example_table 1 2)"
  by (rule packed_tags_array [OF example_table_ok _ _ example_table_fits])
    (simp_all add: example_table_def tags_per_bucket_def)

end
