(* ===== verification/CuckooFilter.thy ===== *)
theory CuckooFilter
  imports CuckooTable
begin

text \<open>
  The cuckoo filter (\<open>sender/apsi/util/cuckoo_filter.cpp\<close>) and its hash function
  (\<open>sender/apsi/util/hash.h\<close>). The filter refines a multiset: a stored tag stands for the
  unordered pair of buckets it may live in, kickouts move it between the two, and adding, removing
  and asking act on the multiset of these entries. From this a locale for approximate membership
  filters derives that there are no false negatives.
\<close>

subsection \<open>Hash function\<close>

text \<open>
  The table of 8 * 256 random words comes from \<open>blake2xb\<close>, which is not part of the sources; it is
  the parameter \<open>ra\<close>, and everything below holds for every table.
\<close>

type_synonym hash_table = "nat \<Rightarrow> u64"

definition hash_word :: "hash_table \<Rightarrow> u64 \<Rightarrow> u64" where
  "hash_word ra data =
     ra (0 * 256 + unat (data AND 0x00000000000000FF)) XOR
     ra (1 * 256 + unat (drop_bit 8 (data AND 0x000000000000FF00))) XOR
     ra (2 * 256 + unat (drop_bit 16 (data AND 0x0000000000FF0000))) XOR
     ra (3 * 256 + unat (drop_bit 24 (data AND 0x00000000FF000000))) XOR
     ra (4 * 256 + unat (drop_bit 32 (data AND 0x000000FF00000000))) XOR
     ra (5 * 256 + unat (drop_bit 40 (data AND 0x0000FF0000000000))) XOR
     ra (6 * 256 + unat (drop_bit 48 (data AND 0x00FF000000000000))) XOR
     ra (7 * 256 + unat (drop_bit 56 (data AND 0xFF00000000000000)))"

fun hash_words_from :: "hash_table \<Rightarrow> u64 \<Rightarrow> u64 list \<Rightarrow> u64" where
  "hash_words_from ra result [] = result"
| "hash_words_from ra result (d # ds) = hash_words_from ra (result XOR hash_word ra d) ds"

definition hash_words :: "hash_table \<Rightarrow> u64 list \<Rightarrow> u64" where
  "hash_words ra data = hash_words_from ra 0 data"

subsection \<open>State\<close>

record overflow_cache =
  ov_index :: nat
  ov_tag :: u64
  ov_used :: bool

record cuckoo_filter =
  cf_table :: cf_table
  cf_num_items :: nat
  cf_overflow :: overflow_cache

definition make_filter :: "nat \<Rightarrow> nat \<Rightarrow> cuckoo_filter res" where
  "make_filter key_count_max bits_per_tag =
     bind_res (make_table key_count_max bits_per_tag) (\<lambda>t.
       Inr \<lparr>cf_table = t, cf_num_items = 0, cf_overflow = \<lparr>ov_index = 0, ov_tag = 0, ov_used = False\<rparr>\<rparr>)"

subsection \<open>Operations\<close>

definition tag_bit_limit :: "cuckoo_filter \<Rightarrow> u64 \<Rightarrow> u64 res" where
  "tag_bit_limit f value =
     bind_res (shr64 (NOT 0) (sub64 64 (ct_bits_per_tag (cf_table f)))) (\<lambda>m.
       let tag = value AND m in Inr (tag + (if tag = 0 then 1 else 0)))"

definition idx_bucket_limit :: "cuckoo_filter \<Rightarrow> u64 \<Rightarrow> nat" where
  "idx_bucket_limit f value =
     (let m = sub64 (ct_num_buckets (cf_table f)) 1 in unat value AND m)"

definition get_tag_and_index :: "hash_table \<Rightarrow> cuckoo_filter \<Rightarrow> u64 list \<Rightarrow> (u64 \<times> nat) res" where
  "get_tag_and_index ra f item =
     (let hash = hash_words ra item;
          idx = idx_bucket_limit f hash
      in bind_res (tag_bit_limit f hash) (\<lambda>tag. Inr (tag, idx)))"

definition get_alt_index :: "hash_table \<Rightarrow> cuckoo_filter \<Rightarrow> nat \<Rightarrow> u64 \<Rightarrow> nat" where
  "get_alt_index ra f idx tag =
     (let hash = hash_word ra tag;
          idx_hash = idx_bucket_limit f hash
      in idx XOR idx_hash)"

definition filter_contains :: "hash_table \<Rightarrow> cuckoo_filter \<Rightarrow> u64 list \<Rightarrow> bool res" where
  "filter_contains ra f item =
     bind_res (get_tag_and_index ra f item) (\<lambda>(tag, idx1).
       let idx2 = get_alt_index ra f idx1 tag;
           ov = cf_overflow f
       in if ov_used ov \<and> ov_tag ov = tag \<and> (ov_index ov = idx1 \<or> ov_index ov = idx2) then Inr True
          else find_tag_in_buckets (cf_table f) idx1 idx2 tag)"

definition max_cuckoo_kicks :: nat where
  "max_cuckoo_kicks = 1000"

text \<open>
  The loop of \<open>add_index_tag\<close>: \<open>n\<close> rounds are left of \<open>max_cuckoo_kicks\<close>; the first round does not
  kick out. \<open>rnd k\<close> is what \<open>rand()\<close> returns when it is called with \<open>k\<close> rounds left.
\<close>

fun add_rounds ::
  "hash_table \<Rightarrow> (nat \<Rightarrow> nat) \<Rightarrow> bool \<Rightarrow> nat \<Rightarrow> nat \<Rightarrow> u64 \<Rightarrow> cuckoo_filter \<Rightarrow> cuckoo_filter res" where
  "add_rounds ra rnd kickout 0 curr_idx curr_tag f =
     Inr (f\<lparr>cf_overflow := \<lparr>ov_index = curr_idx, ov_tag = curr_tag, ov_used = True\<rparr>\<rparr>)"
| "add_rounds ra rnd kickout (Suc n) curr_idx curr_tag f =
     bind_res (insert_tag (cf_table f) curr_idx curr_tag kickout (rnd n) 0)
       (\<lambda>(t, placed, old_tag).
          let f' = f\<lparr>cf_table := t\<rparr>
          in if placed then Inr f'
             else let curr_tag' = (if kickout then old_tag else curr_tag)
                  in add_rounds ra rnd True n (get_alt_index ra f' curr_idx curr_tag') curr_tag' f')"

definition add_index_tag ::
  "hash_table \<Rightarrow> (nat \<Rightarrow> nat) \<Rightarrow> nat \<Rightarrow> u64 \<Rightarrow> cuckoo_filter \<Rightarrow> (cuckoo_filter \<times> bool) res" where
  "add_index_tag ra rnd idx tag f =
     bind_res (add_rounds ra rnd False max_cuckoo_kicks idx tag f) (\<lambda>f'. Inr (f', True))"

definition filter_add :: "hash_table \<Rightarrow> (nat \<Rightarrow> nat) \<Rightarrow> cuckoo_filter \<Rightarrow> u64 list \<Rightarrow> (cuckoo_filter \<times> bool) res" where
  "filter_add ra rnd f item =
     (if ov_used (cf_overflow f) then Inr (f, False)
      else bind_res (get_tag_and_index ra f item) (\<lambda>(tag, idx).
           bind_res (add_index_tag ra rnd idx tag f) (\<lambda>(f', result).
             Inr (if result then f'\<lparr>cf_num_items := cf_num_items f' + 1\<rparr> else f', result))))"

definition try_eliminate_overflow :: "hash_table \<Rightarrow> (nat \<Rightarrow> nat) \<Rightarrow> cuckoo_filter \<Rightarrow> cuckoo_filter res" where
  "try_eliminate_overflow ra rnd f =
     (if ov_used (cf_overflow f) then
        let f' = f\<lparr>cf_overflow := (cf_overflow f)\<lparr>ov_used := False\<rparr>\<rparr>
        in bind_res (add_index_tag ra rnd (ov_index (cf_overflow f')) (ov_tag (cf_overflow f')) f')
             (\<lambda>(f'', _). Inr f'')
      else Inr f)"

definition filter_remove :: "hash_table \<Rightarrow> (nat \<Rightarrow> nat) \<Rightarrow> cuckoo_filter \<Rightarrow> u64 list \<Rightarrow> (cuckoo_filter \<times> bool) res" where
  "filter_remove ra rnd f item =
     bind_res (get_tag_and_index ra f item) (\<lambda>(tag, idx1).
       let idx2 = get_alt_index ra f idx1 tag
       in bind_res (delete_tag (cf_table f) idx1 tag) (\<lambda>(t1, deleted1).
          if deleted1 then
            bind_res (try_eliminate_overflow ra rnd
                (f\<lparr>cf_table := t1, cf_num_items := sub64 (cf_num_items f) 1\<rparr>)) (\<lambda>f'. Inr (f', True))
          else bind_res (delete_tag t1 idx2 tag) (\<lambda>(t2, deleted2).
          if deleted2 then
            bind_res (try_eliminate_overflow ra rnd
                (f\<lparr>cf_table := t2, cf_num_items := sub64 (cf_num_items f) 1\<rparr>)) (\<lambda>f'. Inr (f', True))
          else
            let ov = cf_overflow f
            in if ov_used ov \<and> (ov_index ov = idx1 \<or> ov_index ov = idx2) \<and> ov_tag ov = tag
               then Inr (f\<lparr>cf_overflow := ov\<lparr>ov_used := False\<rparr>, cf_num_items := sub64 (cf_num_items f) 1\<rparr>, True)
               else Inr (f, False))))"

subsection \<open>Buckets of a tag\<close>

definition two_power_buckets :: "cuckoo_filter \<Rightarrow> bool" where
  "two_power_buckets f \<longleftrightarrow> (\<exists>k < 64. ct_num_buckets (cf_table f) = 2 ^ k)"

lemma sub64_one:
  assumes "0 < n" "n \<le> 2 ^ 64"
  shows "sub64 n 1 = n - 1"
proof -
  obtain m where m: "n = Suc m" using assms(1) gr0_conv_Suc by auto
  have "Suc m + 2 ^ 64 - 1 = m + 2 ^ 64" by simp
  moreover have "m < 2 ^ 64" using assms(2) m by simp
  ultimately show ?thesis unfolding sub64_def m by (simp only: mod_add_self2 mod_less diff_Suc_1)
qed

lemma idx_bucket_limit_take:
  assumes "ct_num_buckets (cf_table f) = 2 ^ k" "k < 64"
  shows "idx_bucket_limit f v = take_bit k (unat v)"
proof -
  have "(2 :: nat) ^ k \<le> 2 ^ 64" using assms(2) by (intro power_increasing) simp_all
  then have "sub64 (2 ^ k) 1 = 2 ^ k - 1" by (intro sub64_one) simp_all
  then show ?thesis by (simp add: idx_bucket_limit_def assms(1) Let_def take_bit_eq_mask mask_eq_exp_minus_1)
qed

lemma idx_bucket_limit_less:
  assumes "two_power_buckets f"
  shows "idx_bucket_limit f v < ct_num_buckets (cf_table f)"
  using assms idx_bucket_limit_take [of f] by (auto simp: two_power_buckets_def)

lemma alt_index_less:
  assumes "two_power_buckets f" "idx < ct_num_buckets (cf_table f)"
  shows "get_alt_index ra f idx tag < ct_num_buckets (cf_table f)"
proof -
  obtain k where k: "ct_num_buckets (cf_table f) = 2 ^ k" "k < 64" using assms(1) by (auto simp: two_power_buckets_def)
  have "take_bit k idx = idx" using assms(2) k(1) by (simp add: take_bit_nat_eq_self)
  then have "get_alt_index ra f idx tag = take_bit k (idx XOR unat (hash_word ra tag))"
    by (simp add: get_alt_index_def Let_def idx_bucket_limit_take [OF k] take_bit_xor)
  then show ?thesis by (simp only: k(1) take_bit_nat_less_exp)
qed

lemma alt_index_invol [simp]: "get_alt_index ra f (get_alt_index ra f idx tag) tag = idx"
  by (simp add: get_alt_index_def Let_def xor.assoc)

lemma alt_index_shape: "ct_num_buckets (cf_table f') = ct_num_buckets (cf_table f) \<Longrightarrow>
  get_alt_index ra f' = get_alt_index ra f"
  by (intro ext) (simp add: get_alt_index_def idx_bucket_limit_def)

subsection \<open>Entries\<close>

text \<open>An entry is a tag with the set of the two buckets it may be stored in.\<close>

type_synonym entry = "nat set \<times> u64"

definition entry_of :: "hash_table \<Rightarrow> cuckoo_filter \<Rightarrow> nat \<Rightarrow> u64 \<Rightarrow> entry" where
  "entry_of ra f idx tag = ({idx, get_alt_index ra f idx tag}, tag)"

definition table_entries :: "hash_table \<Rightarrow> cuckoo_filter \<Rightarrow> entry multiset" where
  "table_entries ra f =
     (\<Sum>b < ct_num_buckets (cf_table f). image_mset (entry_of ra f b) (bucket_tags (cf_table f) b))"

definition filter_entries :: "hash_table \<Rightarrow> cuckoo_filter \<Rightarrow> entry multiset" where
  "filter_entries ra f = table_entries ra f +
     (if ov_used (cf_overflow f)
      then {#entry_of ra f (ov_index (cf_overflow f)) (ov_tag (cf_overflow f))#} else {#})"

definition filter_wf :: "cuckoo_filter \<Rightarrow> bool" where
  "filter_wf f \<longleftrightarrow> table_ok (cf_table f) \<and> two_power_buckets f \<and>
     (ov_used (cf_overflow f) \<longrightarrow> ov_index (cf_overflow f) < ct_num_buckets (cf_table f) \<and>
        ov_tag (cf_overflow f) \<noteq> 0 \<and> fits_tag (cf_table f) (ov_tag (cf_overflow f)))"

lemma entry_of_alt [simp]: "entry_of ra f (get_alt_index ra f idx tag) tag = entry_of ra f idx tag"
  by (auto simp: entry_of_def)

lemma alt_pair: "{b, get_alt_index ra f b tag} = {idx, get_alt_index ra f idx tag} \<longleftrightarrow>
   b = idx \<or> b = get_alt_index ra f idx tag"
  unfolding doubleton_eq_iff using alt_index_invol [of ra f idx tag] by metis

lemma entry_of_eq: "entry_of ra f b t = entry_of ra f idx tag \<longleftrightarrow>
   t = tag \<and> (b = idx \<or> b = get_alt_index ra f idx tag)"
proof (cases "t = tag")
  case True
  show ?thesis unfolding True entry_of_def prod.inject alt_pair by simp
next
  case False
  then show ?thesis unfolding entry_of_def prod.inject by simp
qed

lemma entry_of_shape: "ct_num_buckets (cf_table f') = ct_num_buckets (cf_table f) \<Longrightarrow> entry_of ra f' = entry_of ra f"
  by (intro ext) (simp add: entry_of_def alt_index_shape [of f' f])

lemma table_entries_table: "cf_table f' = cf_table f \<Longrightarrow> table_entries ra f' = table_entries ra f"
  by (simp add: table_entries_def entry_of_shape [of f' f])

lemma add_frame: "(x :: 'a multiset) + a = y + b \<Longrightarrow> (x + r) + a = (y + r) + b"
  by (metis add.assoc add.commute)

lemma table_entries_bucket:
  assumes shape: "same_shape (cf_table f) t'" and b: "b < ct_num_buckets (cf_table f)"
    and other: "\<And>b'. b' < ct_num_buckets (cf_table f) \<Longrightarrow> b' \<noteq> b \<Longrightarrow> bucket_tags t' b' = bucket_tags (cf_table f) b'"
    and change: "bucket_tags t' b + A = bucket_tags (cf_table f) b + B"
  shows "table_entries ra (f\<lparr>cf_table := t'\<rparr>) + image_mset (entry_of ra f b) A =
         table_entries ra f + image_mset (entry_of ra f b) B"
proof -
  let ?n = "ct_num_buckets (cf_table f)" and ?g = "\<lambda>t b. image_mset (entry_of ra f b) (bucket_tags t b)"
  have split: "(\<Sum>b<?n. ?g t b) = ?g t b + (\<Sum>b\<in>{..<?n} - {b}. ?g t b)" for t
    using b by (intro sum.remove) auto
  let ?R = "\<Sum>b\<in>{..<?n} - {b}. ?g (cf_table f) b"
  have R: "(\<Sum>b\<in>{..<?n} - {b}. ?g t' b) = ?R"
    using other by (intro sum.cong) auto
  have "?g t' b + image_mset (entry_of ra f b) A = ?g (cf_table f) b + image_mset (entry_of ra f b) B"
    using arg_cong [OF change, of "image_mset (entry_of ra f b)"] by (simp only: image_mset_union)
  then have "(?g t' b + ?R) + image_mset (entry_of ra f b) A = (?g (cf_table f) b + ?R) + image_mset (entry_of ra f b) B"
    by (rule add_frame)
  moreover have "table_entries ra (f\<lparr>cf_table := t'\<rparr>) = ?g t' b + ?R"
    using shape entry_of_shape [of "f\<lparr>cf_table := t'\<rparr>" f] split [of t'] R
    by (simp add: table_entries_def same_shape_def)
  moreover have "table_entries ra f = ?g (cf_table f) b + ?R" by (simp only: table_entries_def split)
  ultimately show ?thesis by (simp only:)
qed

lemma table_entries_mem:
  "entry_of ra f idx tag \<in># table_entries ra f \<longleftrightarrow>
     (\<exists>b < ct_num_buckets (cf_table f). tag \<in># bucket_tags (cf_table f) b \<and>
        (b = idx \<or> b = get_alt_index ra f idx tag))"
proof -
  have "entry_of ra f idx tag \<in># table_entries ra f \<longleftrightarrow>
     (\<exists>b < ct_num_buckets (cf_table f). \<exists>t. t \<in># bucket_tags (cf_table f) b \<and> entry_of ra f b t = entry_of ra f idx tag)"
  proof -
    have te: "set_mset (table_entries ra f) =
        (\<Union>b \<in> {..<ct_num_buckets (cf_table f)}. entry_of ra f b ` set_mset (bucket_tags (cf_table f) b))"
      by (simp add: table_entries_def set_mset_sum)
    show ?thesis unfolding te UN_iff image_iff Bex_def lessThan_iff by metis
  qed
  then show ?thesis unfolding entry_of_eq by blast
qed

subsection \<open>Operations on entries\<close>

definition item_entry :: "hash_table \<Rightarrow> cuckoo_filter \<Rightarrow> u64 list \<Rightarrow> entry" where
  "item_entry ra f item = (case get_tag_and_index ra f item of
     Inl _ \<Rightarrow> ({}, 0) | Inr (tag, idx) \<Rightarrow> entry_of ra f idx tag)"

lemma get_tag_and_index_ok:
  assumes "filter_wf f"
  shows "\<exists>tag idx. get_tag_and_index ra f item = Inr (tag, idx) \<and> tag \<noteq> 0 \<and> fits_tag (cf_table f) tag \<and>
    idx < ct_num_buckets (cf_table f) \<and> item_entry ra f item = entry_of ra f idx tag"
proof -
  let ?w = "ct_bits_per_tag (cf_table f)" and ?h = "hash_words ra item"
  have w: "0 < ?w" "?w < 64" using assms by (simp_all add: filter_wf_def table_ok_def)
  have "sub64 64 ?w = 64 - ?w"
  proof -
    have "64 + 2 ^ 64 - ?w = (64 - ?w) + 2 ^ 64" using w by simp
    moreover have "64 - ?w < 2 ^ 64" by simp
    ultimately show ?thesis unfolding sub64_def by (simp only: mod_add_self2 mod_less)
  qed
  then have m: "shr64 (NOT 0) (sub64 64 ?w) = Inr (drop_bit (64 - ?w) (NOT 0))" using w by simp
  let ?t = "?h AND drop_bit (64 - ?w) (NOT 0)"
  have bits: "bit ?t j \<Longrightarrow> j < ?w" for j
    using w by (auto simp: word_bits)
  let ?tag = "?t + (if ?t = 0 then 1 else 0)"
  have tag: "get_tag_and_index ra f item = Inr (?tag, idx_bucket_limit f ?h)"
    using m by (simp add: get_tag_and_index_def tag_bit_limit_def Let_def)
  have "fits_tag (cf_table f) ?tag"
  proof (cases "?t = 0")
    case True
    then show ?thesis using w by (auto simp: fits_tag_def bit_1_iff)
  next
    case False
    then show ?thesis using bits by (simp add: fits_tag_def)
  qed
  moreover have "?tag \<noteq> 0" by (cases "?t = 0") auto
  moreover have "item_entry ra f item = entry_of ra f (idx_bucket_limit f ?h) ?tag"
    unfolding item_entry_def tag by simp
  ultimately show ?thesis using tag idx_bucket_limit_less [of f ?h] assms unfolding filter_wf_def by blast
qed

lemma get_tag_and_index_shape:
  "same_shape (cf_table f) (cf_table f') \<Longrightarrow> get_tag_and_index ra f' item = get_tag_and_index ra f item"
  by (simp add: get_tag_and_index_def tag_bit_limit_def idx_bucket_limit_def same_shape_def)

lemma item_entry_shape:
  "same_shape (cf_table f) (cf_table f') \<Longrightarrow> item_entry ra f' item = item_entry ra f item"
  using get_tag_and_index_shape [of f f' ra item] entry_of_shape [of f' f ra]
  by (auto simp: item_entry_def same_shape_def split: sum.split)

lemma fits_shape: "same_shape t t' \<Longrightarrow> fits_tag t' x = fits_tag t x"
  by (simp add: fits_tag_def same_shape_def)

lemma wf_update:
  assumes "filter_wf f" "table_ok t'" "same_shape (cf_table f) t'"
  shows "filter_wf (f\<lparr>cf_table := t'\<rparr>)"
  using assms fits_shape [OF assms(3)] by (auto simp: filter_wf_def two_power_buckets_def same_shape_def)

lemma contains_spec:
  assumes "filter_wf f"
  shows "filter_contains ra f item = Inr (item_entry ra f item \<in># filter_entries ra f)"
proof -
  obtain tag idx where g: "get_tag_and_index ra f item = Inr (tag, idx)" "tag \<noteq> 0" "fits_tag (cf_table f) tag"
    "idx < ct_num_buckets (cf_table f)" "item_entry ra f item = entry_of ra f idx tag"
    using get_tag_and_index_ok [OF assms] by blast
  have t: "table_ok (cf_table f)" "two_power_buckets f" using assms by (simp_all add: filter_wf_def)
  let ?alt = "get_alt_index ra f idx tag"
  have alt: "?alt < ct_num_buckets (cf_table f)" using alt_index_less [OF t(2) g(4)] .
  have ent: "item_entry ra f item \<in># filter_entries ra f \<longleftrightarrow>
      tag \<in># bucket_tags (cf_table f) idx \<or> tag \<in># bucket_tags (cf_table f) ?alt \<or>
      ov_used (cf_overflow f) \<and> ov_tag (cf_overflow f) = tag \<and>
        (ov_index (cf_overflow f) = idx \<or> ov_index (cf_overflow f) = ?alt)"
    using table_entries_mem [of ra f idx tag] g(4) alt
      entry_of_eq [of ra f "ov_index (cf_overflow f)" "ov_tag (cf_overflow f)" idx tag]
    unfolding g(5) filter_entries_def by auto
  show ?thesis unfolding ent
    using find_in_buckets_spec [OF t(1) g(4) alt g(3,2)] by (auto simp: filter_contains_def g(1) Let_def)
qed

lemma add_rounds_spec:
  assumes "filter_wf f" "\<not> ov_used (cf_overflow f)" "idx < ct_num_buckets (cf_table f)"
    "fits_tag (cf_table f) tag" "tag \<noteq> 0"
  shows "\<exists>f'. add_rounds ra rnd kickout n idx tag f = Inr f' \<and> filter_wf f' \<and> same_shape (cf_table f) (cf_table f') \<and>
    cf_num_items f' = cf_num_items f \<and> filter_entries ra f' = add_mset (entry_of ra f idx tag) (filter_entries ra f)"
  using assms
proof (induction n arbitrary: kickout idx tag f)
  case 0
  let ?f = "f\<lparr>cf_overflow := \<lparr>ov_index = idx, ov_tag = tag, ov_used = True\<rparr>\<rparr>"
  have "filter_wf ?f" using 0 by (simp add: filter_wf_def two_power_buckets_def)
  moreover have "filter_entries ra ?f = add_mset (entry_of ra f idx tag) (filter_entries ra f)"
    using 0(2) table_entries_table [of ?f f ra] entry_of_shape [of ?f f ra] by (simp add: filter_entries_def)
  ultimately show ?case by (simp add: same_shape_def)
next
  case (Suc n)
  have t: "table_ok (cf_table f)" "two_power_buckets f" using Suc.prems(1) by (simp_all add: filter_wf_def)
  obtain t' placed old where ins: "insert_tag (cf_table f) idx tag kickout (rnd n) 0 = Inr (t', placed, old)"
    "table_ok t'" "same_shape (cf_table f) t'"
    "\<And>b'. b' < ct_num_buckets (cf_table f) \<Longrightarrow> b' \<noteq> idx \<Longrightarrow> bucket_tags t' b' = bucket_tags (cf_table f) b'"
    "if placed then bucket_tags t' idx = add_mset tag (bucket_tags (cf_table f) idx)
     else if kickout then old \<noteq> 0 \<and> fits_tag (cf_table f) old \<and>
        add_mset old (bucket_tags t' idx) = add_mset tag (bucket_tags (cf_table f) idx)
     else t' = cf_table f"
    using insert_tag_spec [OF t(1) Suc.prems(3-5), of kickout "rnd n" 0] by blast
  let ?f = "f\<lparr>cf_table := t'\<rparr>"
  have wf: "filter_wf ?f" using Suc.prems(1) ins(2,3) by (rule wf_update)
  have alt: "get_alt_index ra ?f = get_alt_index ra f" and ent: "entry_of ra ?f = entry_of ra f"
    using ins(3) alt_index_shape [of ?f f] entry_of_shape [of ?f f] by (simp_all add: same_shape_def)
  have nb: "ct_num_buckets t' = ct_num_buckets (cf_table f)" using ins(3) by (simp add: same_shape_def)
  show ?case
  proof (cases placed)
    case True
    have "table_entries ra ?f + image_mset (entry_of ra f idx) {#} =
        table_entries ra f + image_mset (entry_of ra f idx) {#tag#}"
      using ins True by (intro table_entries_bucket [OF ins(3) Suc.prems(3)]) auto
    then have "filter_entries ra ?f = add_mset (entry_of ra f idx tag) (filter_entries ra f)"
      using Suc.prems(2) by (simp add: filter_entries_def)
    then show ?thesis using True ins(1,3) wf by simp
  next
    case False
    define tag' where "tag' = (if kickout then old else tag)"
    have tag': "tag' \<noteq> 0" "fits_tag t' tag'"
      using ins(5) False Suc.prems(4,5) fits_shape [OF ins(3)] by (auto simp: tag'_def split: if_splits)
    have e: "add_mset (entry_of ra f idx tag') (table_entries ra ?f) =
        add_mset (entry_of ra f idx tag) (table_entries ra f)"
    proof (cases kickout)
      case True
      have "table_entries ra ?f + image_mset (entry_of ra f idx) {#old#} =
          table_entries ra f + image_mset (entry_of ra f idx) {#tag#}"
        using ins True False by (intro table_entries_bucket [OF ins(3) Suc.prems(3)]) auto
      then show ?thesis using True by (simp add: tag'_def)
    next
      case nk: False
      then have "cf_table ?f = cf_table f" using ins(5) False by simp
      then have "table_entries ra ?f = table_entries ra f" by (rule table_entries_table)
      then show ?thesis using nk by (simp add: tag'_def)
    qed
    let ?alt = "get_alt_index ra ?f idx tag'"
    have altb: "?alt < ct_num_buckets (cf_table ?f)"
      using wf Suc.prems(3) nb by (intro alt_index_less) (simp_all add: filter_wf_def)
    obtain f' where f': "add_rounds ra rnd True n ?alt tag' ?f = Inr f'" "filter_wf f'"
      "same_shape (cf_table ?f) (cf_table f')" "cf_num_items f' = cf_num_items ?f"
      "filter_entries ra f' = add_mset (entry_of ra ?f ?alt tag') (filter_entries ra ?f)"
      using Suc.IH [OF wf _ altb _ tag'(1), of True] Suc.prems(2) tag'(2) by auto
    have "filter_entries ra f' = add_mset (entry_of ra f idx tag) (filter_entries ra f)"
      using f'(5) e Suc.prems(2) by (simp add: filter_entries_def ent alt)
    moreover have "add_rounds ra rnd kickout (Suc n) idx tag f = Inr f'"
      using ins(1) False f'(1) by (simp add: Let_def tag'_def)
    ultimately show ?thesis using f'(2-4) ins(3) by (simp add: same_shape_def)
  qed
qed

lemma eliminate_spec:
  assumes "filter_wf f"
  shows "\<exists>f'. try_eliminate_overflow ra rnd f = Inr f' \<and> filter_wf f' \<and> same_shape (cf_table f) (cf_table f') \<and>
    cf_num_items f' = cf_num_items f \<and> filter_entries ra f' = filter_entries ra f"
proof (cases "ov_used (cf_overflow f)")
  case False
  then show ?thesis using assms by (simp add: try_eliminate_overflow_def same_shape_def)
next
  case True
  let ?f = "f\<lparr>cf_overflow := (cf_overflow f)\<lparr>ov_used := False\<rparr>\<rparr>"
  let ?i = "ov_index (cf_overflow f)" and ?t = "ov_tag (cf_overflow f)"
  have wf: "filter_wf ?f" and ov: "?i < ct_num_buckets (cf_table f)" "?t \<noteq> 0" "fits_tag (cf_table f) ?t"
    using assms True by (simp_all add: filter_wf_def two_power_buckets_def)
  obtain f' where f': "add_rounds ra rnd False max_cuckoo_kicks ?i ?t ?f = Inr f'" "filter_wf f'"
    "same_shape (cf_table ?f) (cf_table f')" "cf_num_items f' = cf_num_items ?f"
    "filter_entries ra f' = add_mset (entry_of ra ?f ?i ?t) (filter_entries ra ?f)"
    using add_rounds_spec [OF wf, of ?i ?t ra rnd False max_cuckoo_kicks] ov by auto
  have "filter_entries ra f' = filter_entries ra f"
    using f'(5) True table_entries_table [of ?f f ra] entry_of_shape [of ?f f ra]
    by (simp add: filter_entries_def)
  then show ?thesis using True f' by (auto simp: try_eliminate_overflow_def add_index_tag_def Let_def)
qed

lemma delete_entry:
  assumes "filter_wf f" "idx < ct_num_buckets (cf_table f)" "fits_tag (cf_table f) tag" "tag \<noteq> 0"
  shows "\<exists>t'. delete_tag (cf_table f) idx tag = Inr (t', tag \<in># bucket_tags (cf_table f) idx) \<and>
    same_shape (cf_table f) t' \<and> filter_wf (f\<lparr>cf_table := t'\<rparr>) \<and>
    (if tag \<in># bucket_tags (cf_table f) idx
     then filter_entries ra f = add_mset (entry_of ra f idx tag) (filter_entries ra (f\<lparr>cf_table := t'\<rparr>))
     else t' = cf_table f)"
proof -
  have t: "table_ok (cf_table f)" using assms(1) by (simp add: filter_wf_def)
  obtain t' where t': "delete_tag (cf_table f) idx tag = Inr (t', tag \<in># bucket_tags (cf_table f) idx)"
    "table_ok t'" "same_shape (cf_table f) t'"
    "\<And>b'. b' < ct_num_buckets (cf_table f) \<Longrightarrow>
       bucket_tags t' b' = (if b' = idx then bucket_tags (cf_table f) idx - {#tag#} else bucket_tags (cf_table f) b')"
    using delete_tag_spec [OF t assms(2-4)] by blast
  have wf: "filter_wf (f\<lparr>cf_table := t'\<rparr>)" using assms(1) t'(2,3) by (rule wf_update)
  show ?thesis
  proof (cases "tag \<in># bucket_tags (cf_table f) idx")
    case True
    let ?f = "f\<lparr>cf_table := t'\<rparr>"
    have "table_entries ra ?f + image_mset (entry_of ra f idx) {#tag#} =
        table_entries ra f + image_mset (entry_of ra f idx) {#}"
      using t'(4) True assms(2) by (intro table_entries_bucket [OF t'(3) assms(2)]) auto
    then have "table_entries ra f = add_mset (entry_of ra f idx tag) (table_entries ra ?f)" by simp
    moreover have "entry_of ra ?f = entry_of ra f"
      using t'(3) entry_of_shape [of ?f f] by (simp add: same_shape_def)
    ultimately have "filter_entries ra f = add_mset (entry_of ra f idx tag) (filter_entries ra ?f)"
      by (simp add: filter_entries_def)
    then show ?thesis using t'(1,3) wf True by auto
  next
    case False
    have "t' = cf_table f"
    proof -
      obtain r where r: "find_slot (cf_table f) idx tag 0 tags_per_bucket = Inr r"
        "case r of None \<Rightarrow> \<forall>k. k < tags_per_bucket \<longrightarrow> slots_of (read_tag (cf_table f)) idx ! k \<noteq> Some tag
         | Some k \<Rightarrow> k < tags_per_bucket \<and> slots_of (read_tag (cf_table f)) idx ! k = Some tag"
        using find_slot_whole [OF t assms(2)] .
      then have "r = None" using False bucket_tags_mem [OF t assms(2,4)] by (cases r) auto
      then show ?thesis using t'(1) r(1) assms(2) check_tag_fits [OF t assms(3)] by (simp add: delete_tag_def)
    qed
    then show ?thesis using t'(1,3) wf False by auto
  qed
qed

lemma remove_spec:
  assumes "filter_wf f"
  shows "\<exists>f'. filter_remove ra rnd f item = Inr (f', item_entry ra f item \<in># filter_entries ra f) \<and>
    filter_wf f' \<and> same_shape (cf_table f) (cf_table f') \<and>
    filter_entries ra f' = filter_entries ra f - {#item_entry ra f item#} \<and>
    cf_num_items f' = (if item_entry ra f item \<in># filter_entries ra f then sub64 (cf_num_items f) 1 else cf_num_items f)"
proof -
  obtain tag idx where g: "get_tag_and_index ra f item = Inr (tag, idx)" "tag \<noteq> 0" "fits_tag (cf_table f) tag"
    "idx < ct_num_buckets (cf_table f)" "item_entry ra f item = entry_of ra f idx tag"
    using get_tag_and_index_ok [OF assms] by blast
  have t: "table_ok (cf_table f)" "two_power_buckets f" using assms by (simp_all add: filter_wf_def)
  let ?alt = "get_alt_index ra f idx tag" and ?e = "entry_of ra f idx tag"
  let ?n = "\<lambda>f. f\<lparr>cf_num_items := sub64 (cf_num_items f) 1\<rparr>"
  have alt: "?alt < ct_num_buckets (cf_table f)" using alt_index_less [OF t(2) g(4)] .
  have num: "filter_wf (?n f2) = filter_wf f2" "filter_entries ra (?n f2) = filter_entries ra f2" for f2
    using table_entries_table [of "?n f2" f2 ra] entry_of_shape [of "?n f2" f2 ra]
    by (simp_all add: filter_wf_def two_power_buckets_def filter_entries_def)
  have finish: "\<exists>f'. try_eliminate_overflow ra rnd (f\<lparr>cf_table := t1, cf_num_items := sub64 (cf_num_items f) 1\<rparr>) = Inr f' \<and>
      filter_wf f' \<and> same_shape (cf_table f) (cf_table f') \<and> filter_entries ra f' = filter_entries ra f - {#?e#} \<and>
      cf_num_items f' = sub64 (cf_num_items f) 1"
    if "filter_wf (f\<lparr>cf_table := t1\<rparr>)" "same_shape (cf_table f) t1"
      "filter_entries ra f = add_mset ?e (filter_entries ra (f\<lparr>cf_table := t1\<rparr>))" for t1
    using eliminate_spec [of "?n (f\<lparr>cf_table := t1\<rparr>)" ra rnd] that num [of "f\<lparr>cf_table := t1\<rparr>"]
    by (auto simp: same_shape_def)
  obtain t1 where t1: "delete_tag (cf_table f) idx tag = Inr (t1, tag \<in># bucket_tags (cf_table f) idx)"
    "same_shape (cf_table f) t1" "filter_wf (f\<lparr>cf_table := t1\<rparr>)"
    "if tag \<in># bucket_tags (cf_table f) idx
     then filter_entries ra f = add_mset ?e (filter_entries ra (f\<lparr>cf_table := t1\<rparr>)) else t1 = cf_table f"
    using delete_entry [OF assms g(4,3,2)] by blast
  show ?thesis
  proof (cases "tag \<in># bucket_tags (cf_table f) idx")
    case True
    then obtain f' where "try_eliminate_overflow ra rnd (f\<lparr>cf_table := t1, cf_num_items := sub64 (cf_num_items f) 1\<rparr>) = Inr f'"
      "filter_wf f'" "same_shape (cf_table f) (cf_table f')" "filter_entries ra f' = filter_entries ra f - {#?e#}"
      "cf_num_items f' = sub64 (cf_num_items f) 1"
      using finish [OF t1(3,2)] t1(4) by auto
    moreover have "?e \<in># filter_entries ra f" using t1(4) True by simp
    ultimately show ?thesis using t1(1) True unfolding g(5) by (simp add: filter_remove_def g(1) Let_def)
  next
    case n1: False
    then have t1f: "t1 = cf_table f" using t1(4) by simp
    obtain t2 where t2: "delete_tag (cf_table f) ?alt tag = Inr (t2, tag \<in># bucket_tags (cf_table f) ?alt)"
      "same_shape (cf_table f) t2" "filter_wf (f\<lparr>cf_table := t2\<rparr>)"
      "if tag \<in># bucket_tags (cf_table f) ?alt
       then filter_entries ra f = add_mset (entry_of ra f ?alt tag) (filter_entries ra (f\<lparr>cf_table := t2\<rparr>)) else t2 = cf_table f"
      using delete_entry [OF assms alt g(3,2)] by blast
    show ?thesis
    proof (cases "tag \<in># bucket_tags (cf_table f) ?alt")
      case True
      then obtain f' where "try_eliminate_overflow ra rnd (f\<lparr>cf_table := t2, cf_num_items := sub64 (cf_num_items f) 1\<rparr>) = Inr f'"
        "filter_wf f'" "same_shape (cf_table f) (cf_table f')" "filter_entries ra f' = filter_entries ra f - {#?e#}"
        "cf_num_items f' = sub64 (cf_num_items f) 1"
        using finish [OF t2(3,2)] t2(4) by auto
      moreover have "?e \<in># filter_entries ra f" using t2(4) True by simp
      ultimately show ?thesis using t1(1) t2(1) True n1 t1f unfolding g(5) by (simp add: filter_remove_def g(1) Let_def)
    next
      case n2: False
      let ?ov = "cf_overflow f"
      let ?hit = "ov_used ?ov \<and> (ov_index ?ov = idx \<or> ov_index ?ov = ?alt) \<and> ov_tag ?ov = tag"
      have nt: "?e \<notin># table_entries ra f" using n1 n2 by (auto simp: table_entries_mem)
      have mem: "?e \<in># filter_entries ra f \<longleftrightarrow> ?hit"
        using nt entry_of_eq [of ra f "ov_index ?ov" "ov_tag ?ov" idx tag] by (auto simp: filter_entries_def)
      show ?thesis
      proof (cases ?hit)
        case True
        let ?f = "f\<lparr>cf_overflow := ?ov\<lparr>ov_used := False\<rparr>, cf_num_items := sub64 (cf_num_items f) 1\<rparr>"
        have "entry_of ra f (ov_index ?ov) (ov_tag ?ov) = ?e" using True unfolding entry_of_eq by blast
        then have "filter_entries ra ?f = filter_entries ra f - {#?e#}"
          using True table_entries_table [of ?f f ra] by (simp add: filter_entries_def)
        moreover have "filter_wf ?f" using assms by (simp add: filter_wf_def two_power_buckets_def)
        ultimately show ?thesis using t1(1) t2(1) n1 n2 t1f True mem unfolding g(5)
          by (simp add: filter_remove_def g(1) Let_def same_shape_def)
      next
        case False
        then show ?thesis using t1(1) t2(1) n1 n2 t1f mem assms unfolding g(5)
          by (auto simp: filter_remove_def g(1) Let_def same_shape_def diff_single_trivial)
      qed
    qed
  qed
qed

lemma add_spec:
  assumes "filter_wf f"
  shows "\<exists>f'. filter_add ra rnd f item = Inr (f', \<not> ov_used (cf_overflow f)) \<and> filter_wf f' \<and>
    same_shape (cf_table f) (cf_table f') \<and>
    (if ov_used (cf_overflow f) then f' = f
     else filter_entries ra f' = add_mset (item_entry ra f item) (filter_entries ra f) \<and>
          cf_num_items f' = cf_num_items f + 1)"
proof (cases "ov_used (cf_overflow f)")
  case True
  then show ?thesis using assms by (simp add: filter_add_def same_shape_def)
next
  case False
  obtain tag idx where g: "get_tag_and_index ra f item = Inr (tag, idx)" "tag \<noteq> 0" "fits_tag (cf_table f) tag"
    "idx < ct_num_buckets (cf_table f)" "item_entry ra f item = entry_of ra f idx tag"
    using get_tag_and_index_ok [OF assms] by blast
  obtain f' where f': "add_rounds ra rnd False max_cuckoo_kicks idx tag f = Inr f'" "filter_wf f'"
    "same_shape (cf_table f) (cf_table f')" "cf_num_items f' = cf_num_items f"
    "filter_entries ra f' = add_mset (entry_of ra f idx tag) (filter_entries ra f)"
    using add_rounds_spec [OF assms False g(4,3,2)] by blast
  let ?f = "f'\<lparr>cf_num_items := cf_num_items f' + 1\<rparr>"
  have "filter_wf ?f" using f'(2) by (simp add: filter_wf_def two_power_buckets_def)
  moreover have "filter_entries ra ?f = filter_entries ra f'"
    using table_entries_table [of ?f f' ra] entry_of_shape [of ?f f' ra] by (simp add: filter_entries_def)
  ultimately show ?thesis using False g f' by (simp add: filter_add_def add_index_tag_def)
qed

lemma size_sum_mset_list: "finite A \<Longrightarrow> size (sum f A :: 'a multiset) = (\<Sum>a\<in>A. size (f a))"
  by (induction A rule: finite_induct) simp_all

lemma filter_entries_size:
  assumes "filter_wf f"
  shows "size (filter_entries ra f) \<le> 2 ^ 64"
proof -
  let ?t = "cf_table f"
  have t: "table_ok ?t" using assms by (simp add: filter_wf_def)
  have "size (bucket_tags ?t b) \<le> tags_per_bucket" for b
    using size_filter_mset_lesseq [of _ "mset (map the (slots_of (read_tag ?t) b))"] packed.slots_length [of ?t b]
    by (simp add: bucket_tags_def)
  then have "size (table_entries ra f) \<le> (\<Sum>b<ct_num_buckets ?t. tags_per_bucket)"
    unfolding table_entries_def by (simp add: size_sum_mset_list sum_mono del: sum_constant)
  then have "size (table_entries ra f) \<le> ct_num_buckets ?t * tags_per_bucket" by simp
  moreover have "ct_num_buckets ?t * tags_per_bucket \<le> ct_num_buckets ?t * tags_per_bucket * ct_bits_per_tag ?t"
    using t by (simp add: table_ok_def)
  moreover have "ct_num_buckets ?t * tags_per_bucket * ct_bits_per_tag ?t < 2 ^ 64"
    using t unfolding table_ok_def by linarith
  ultimately have "size (table_entries ra f) < 2 ^ 64" by linarith
  then show ?thesis by (simp add: filter_entries_def)
qed

text \<open>The invariant: a well-formed filter whose counter is the number of its entries.\<close>

definition filter_inv :: "hash_table \<Rightarrow> cuckoo_filter \<Rightarrow> bool" where
  "filter_inv ra f \<longleftrightarrow> filter_wf f \<and> cf_num_items f = size (filter_entries ra f)"

lemma sub64_size:
  assumes "x \<in># M" "size M \<le> 2 ^ 64"
  shows "sub64 (size M) 1 = size (M - {#x#})"
  using sub64_one [of "size M"] assms size_Diff_singleton [OF assms(1)] nonempty_has_size [of M] by auto

subsection \<open>Approximate membership filters\<close>

text \<open>
  What a filter promises to the code that keeps it beside a set of items: every item has an entry,
  adding puts the entry into a multiset unless the filter is full, removing takes it out, and asking
  tells whether it is there. Two items may share an entry, so there can be false positives.
\<close>

datatype 'i filter_op = Add "nat \<Rightarrow> nat" 'i | Remove "nat \<Rightarrow> nat" 'i

text \<open>
  A client that removes only what it has added; it keeps the multiset of what it has added with
  success and not removed.
\<close>

fun run_client ::
  "((nat \<Rightarrow> nat) \<Rightarrow> 'f \<Rightarrow> 'i \<Rightarrow> ('f \<times> bool) res) \<Rightarrow> ((nat \<Rightarrow> nat) \<Rightarrow> 'f \<Rightarrow> 'i \<Rightarrow> ('f \<times> bool) res) \<Rightarrow>
   'i filter_op list \<Rightarrow> 'f \<Rightarrow> 'i multiset \<Rightarrow> ('f \<times> 'i multiset) res" where
  "run_client add remove [] f live = Inr (f, live)"
| "run_client add remove (Add rnd x # ops) f live =
     bind_res (add rnd f x) (\<lambda>(f', added).
       run_client add remove ops f' (if added then add_mset x live else live))"
| "run_client add remove (Remove rnd x # ops) f live =
     (if x \<in># live then bind_res (remove rnd f x) (\<lambda>(f', _). run_client add remove ops f' (live - {#x#}))
      else run_client add remove ops f live)"

locale membership_filter =
  fixes inv :: "'f \<Rightarrow> bool" and shape :: "'f \<Rightarrow> 'f \<Rightarrow> bool" and full :: "'f \<Rightarrow> bool"
    and entries :: "'f \<Rightarrow> 'e multiset" and entry :: "'f \<Rightarrow> 'i \<Rightarrow> 'e" and count_of :: "'f \<Rightarrow> nat"
    and contains :: "'f \<Rightarrow> 'i \<Rightarrow> bool res"
    and add :: "(nat \<Rightarrow> nat) \<Rightarrow> 'f \<Rightarrow> 'i \<Rightarrow> ('f \<times> bool) res"
    and remove :: "(nat \<Rightarrow> nat) \<Rightarrow> 'f \<Rightarrow> 'i \<Rightarrow> ('f \<times> bool) res"
  assumes contains_law: "inv f \<Longrightarrow> contains f x = Inr (entry f x \<in># entries f)"
    and add_law: "inv f \<Longrightarrow> \<exists>f'. add rnd f x = Inr (f', \<not> full f) \<and> inv f' \<and> shape f f' \<and>
      entries f' = (if full f then entries f else add_mset (entry f x) (entries f))"
    and remove_law: "inv f \<Longrightarrow> \<exists>f'. remove rnd f x = Inr (f', entry f x \<in># entries f) \<and> inv f' \<and> shape f f' \<and>
      entries f' = entries f - {#entry f x#}"
    and entry_shape: "shape f f' \<Longrightarrow> entry f' x = entry f x"
    and count_law: "inv f \<Longrightarrow> count_of f = size (entries f)"
begin

lemma client_entries:
  assumes "inv f" "entries f = image_mset (entry f) live"
  shows "\<exists>f' live'. run_client add remove ops f live = Inr (f', live') \<and> inv f' \<and>
    entries f' = image_mset (entry f') live'"
  using assms
proof (induction ops arbitrary: f live)
  case Nil
  then show ?case by simp
next
  case (Cons op ops)
  show ?case
  proof (cases op)
    case (Add rnd x)
    obtain f' where f': "add rnd f x = Inr (f', \<not> full f)" "inv f'" "shape f f'"
      "entries f' = (if full f then entries f else add_mset (entry f x) (entries f))"
      using add_law [OF Cons.prems(1)] by blast
    have e: "entry f' = entry f" using entry_shape [OF f'(3)] by blast
    have "entries f' = image_mset (entry f') (if \<not> full f then add_mset x live else live)"
      using f'(4) Cons.prems(2) unfolding e by (cases "full f") simp_all
    then show ?thesis using Cons.IH [OF f'(2)] f'(1) Add by simp
  next
    case (Remove rnd x)
    show ?thesis
    proof (cases "x \<in># live")
      case False
      then show ?thesis using Cons.IH [OF Cons.prems] Remove by simp
    next
      case True
      obtain f' b where f': "remove rnd f x = Inr (f', b)" "inv f'" "shape f f'"
        "entries f' = entries f - {#entry f x#}"
        using remove_law [OF Cons.prems(1)] by blast
      have e: "entry f' = entry f" using entry_shape [OF f'(3)] by blast
      have "entries f' = image_mset (entry f') (live - {#x#})"
        using f'(4) Cons.prems(2) True unfolding e by (simp add: image_mset_Diff)
      then show ?thesis using Cons.IH [OF f'(2)] f'(1) Remove True by simp
    qed
  qed
qed

lemma no_false_negatives:
  assumes "inv f" "entries f = {#}"
  shows "\<exists>f' live. run_client add remove ops f {#} = Inr (f', live) \<and>
    (\<forall>x \<in># live. contains f' x = Inr True) \<and> count_of f' = size live"
proof -
  obtain f' live where r: "run_client add remove ops f {#} = Inr (f', live)" "inv f'"
    "entries f' = image_mset (entry f') live"
    using client_entries [of f "{#}" ops] assms by auto
  then have "count_of f' = size live" using count_law by simp
  moreover have "\<forall>x \<in># live. contains f' x = Inr True" using r(2,3) contains_law by simp
  ultimately show ?thesis using r(1) by blast
qed

end

interpretation cuckoo: membership_filter "filter_inv ra" "\<lambda>f f'. same_shape (cf_table f) (cf_table f')"
  "\<lambda>f. ov_used (cf_overflow f)" "filter_entries ra" "item_entry ra" cf_num_items
  "filter_contains ra" "filter_add ra" "filter_remove ra" for ra
proof unfold_locales
  fix f x rnd
  assume inv: "filter_inv ra f"
  then have wf: "filter_wf f" and n: "cf_num_items f = size (filter_entries ra f)"
    by (simp_all add: filter_inv_def)
  show "filter_contains ra f x = Inr (item_entry ra f x \<in># filter_entries ra f)"
    using wf by (rule contains_spec)
  obtain f' where "filter_add ra rnd f x = Inr (f', \<not> ov_used (cf_overflow f))" "filter_wf f'"
    "same_shape (cf_table f) (cf_table f')"
    "if ov_used (cf_overflow f) then f' = f
     else filter_entries ra f' = add_mset (item_entry ra f x) (filter_entries ra f) \<and>
          cf_num_items f' = cf_num_items f + 1"
    using add_spec [OF wf] by blast
  then show "\<exists>f'. filter_add ra rnd f x = Inr (f', \<not> ov_used (cf_overflow f)) \<and> filter_inv ra f' \<and>
      same_shape (cf_table f) (cf_table f') \<and>
      filter_entries ra f' = (if ov_used (cf_overflow f) then filter_entries ra f
                              else add_mset (item_entry ra f x) (filter_entries ra f))"
    using n by (cases "ov_used (cf_overflow f)") (auto simp: filter_inv_def)
  obtain f' where "filter_remove ra rnd f x = Inr (f', item_entry ra f x \<in># filter_entries ra f)" "filter_wf f'"
    "same_shape (cf_table f) (cf_table f')"
    "filter_entries ra f' = filter_entries ra f - {#item_entry ra f x#}"
    "cf_num_items f' = (if item_entry ra f x \<in># filter_entries ra f then sub64 (cf_num_items f) 1 else cf_num_items f)"
    using remove_spec [OF wf] by blast
  then show "\<exists>f'. filter_remove ra rnd f x = Inr (f', item_entry ra f x \<in># filter_entries ra f) \<and> filter_inv ra f' \<and>
      same_shape (cf_table f) (cf_table f') \<and> filter_entries ra f' = filter_entries ra f - {#item_entry ra f x#}"
    using n sub64_size [OF _ filter_entries_size [OF wf, of ra]]
    by (auto simp: filter_inv_def diff_single_trivial)
qed (auto simp: item_entry_shape filter_inv_def)

lemma make_filter_ok:
  assumes "0 < w" "w < 64" "n < 2 ^ 48"
  shows "\<exists>f. make_filter n w = Inr f \<and> filter_inv ra f \<and> filter_entries ra f = {#} \<and> \<not> ov_used (cf_overflow f)"
proof -
  obtain t k where t: "make_table n w = Inr t" "table_ok t" "ct_num_buckets t = 2 ^ k" "k < 64"
    "\<forall>b < ct_num_buckets t. bucket_tags t b = {#}"
    using make_table_ok [OF assms] by blast
  then show ?thesis
    by (auto simp: make_filter_def filter_inv_def filter_wf_def two_power_buckets_def filter_entries_def table_entries_def)
qed

subsection \<open>Properties\<close>

text \<open>
  C11. No false negatives: a fresh cuckoo filter with any table of random words, driven by any
  sequence of additions and of removals of items that were added, whatever \<open>rand\<close> returns, never
  fails; it reports every item that was added with success and not removed, and its counter is the
  number of those items.
\<close>
theorem cuckoo_no_false_negatives:
  assumes "0 < bits_per_tag" and "bits_per_tag < 64" and "key_count_max < 2 ^ 48"
  shows "\<exists>f f' live. make_filter key_count_max bits_per_tag = Inr f \<and>
    run_client (filter_add ra) (filter_remove ra) ops f {#} = Inr (f', live) \<and>
    (\<forall>x \<in># live. filter_contains ra f' x = Inr True) \<and> cf_num_items f' = size live"
proof -
  obtain f where f: "make_filter key_count_max bits_per_tag = Inr f" "filter_inv ra f" "filter_entries ra f = {#}"
    using make_filter_ok [OF assms] by blast
  then show ?thesis using cuckoo.no_false_negatives [OF f(2,3)] by blast
qed

theorem cuckoo_no_false_negatives_witness:
  "\<exists>f f' live. make_filter 10 12 = Inr f \<and>
    run_client (filter_add (\<lambda>i. of_nat (i * 2654435761))) (filter_remove (\<lambda>i. of_nat (i * 2654435761)))
      [Add (\<lambda>_. 0) [7, 8], Add (\<lambda>_. 1) [9], Remove (\<lambda>_. 2) [9]] f {#} = Inr (f', live) \<and>
    (\<forall>x \<in># live. filter_contains (\<lambda>i. of_nat (i * 2654435761)) f' x = Inr True) \<and> cf_num_items f' = size live"
  by (rule cuckoo_no_false_negatives) simp_all

text \<open>
  C37. The filter is a multiset of entries. A lookup answers whether the entry of the item is there,
  before and after each operation. An addition succeeds unless an earlier one had to be parked in
  the overflow entry, and a removal reports whether an entry was there and takes away exactly that
  entry, also when it moves the overflow entry back into the table.
\<close>
theorem cuckoo_filter_refines_multiset:
  assumes "filter_inv ra f"
  shows "\<exists>fa fr. filter_contains ra f y = Inr (item_entry ra f y \<in># filter_entries ra f) \<and>
    filter_add ra rnd f x = Inr (fa, \<not> ov_used (cf_overflow f)) \<and> filter_inv ra fa \<and>
    filter_entries ra fa = (if ov_used (cf_overflow f) then filter_entries ra f
                            else add_mset (item_entry ra f x) (filter_entries ra f)) \<and>
    filter_contains ra fa y = Inr (item_entry ra f y \<in># filter_entries ra fa) \<and>
    filter_remove ra rnd f x = Inr (fr, item_entry ra f x \<in># filter_entries ra f) \<and> filter_inv ra fr \<and>
    filter_entries ra fr = filter_entries ra f - {#item_entry ra f x#} \<and>
    filter_contains ra fr y = Inr (item_entry ra f y \<in># filter_entries ra fr)"
proof -
  obtain fa where a: "filter_add ra rnd f x = Inr (fa, \<not> ov_used (cf_overflow f))" "filter_inv ra fa"
    "same_shape (cf_table f) (cf_table fa)"
    "filter_entries ra fa = (if ov_used (cf_overflow f) then filter_entries ra f
                            else add_mset (item_entry ra f x) (filter_entries ra f))"
    using cuckoo.add_law [OF assms, of rnd x] by blast
  obtain fr where r: "filter_remove ra rnd f x = Inr (fr, item_entry ra f x \<in># filter_entries ra f)" "filter_inv ra fr"
    "same_shape (cf_table f) (cf_table fr)" "filter_entries ra fr = filter_entries ra f - {#item_entry ra f x#}"
    using cuckoo.remove_law [OF assms, of rnd x] by blast
  have "item_entry ra fa y = item_entry ra f y" "item_entry ra fr y = item_entry ra f y"
    using a(3) r(3) by (simp_all add: item_entry_shape)
  then show ?thesis
    using a r cuckoo.contains_law [OF assms, of y] cuckoo.contains_law [OF a(2), of y] cuckoo.contains_law [OF r(2), of y]
    by (intro exI [of _ fa] exI [of _ fr]) (simp only: simp_thms)
qed

theorem cuckoo_filter_refines_multiset_witness:
  "\<exists>f fa fr. make_filter 10 12 = Inr f \<and>
    filter_contains (\<lambda>_. 0) f [8] = Inr (item_entry (\<lambda>_. 0) f [8] \<in># filter_entries (\<lambda>_. 0) f) \<and>
    filter_add (\<lambda>_. 0) (\<lambda>_. 0) f [7] = Inr (fa, \<not> ov_used (cf_overflow f)) \<and> filter_inv (\<lambda>_. 0) fa \<and>
    filter_entries (\<lambda>_. 0) fa = (if ov_used (cf_overflow f) then filter_entries (\<lambda>_. 0) f
                            else add_mset (item_entry (\<lambda>_. 0) f [7]) (filter_entries (\<lambda>_. 0) f)) \<and>
    filter_contains (\<lambda>_. 0) fa [8] = Inr (item_entry (\<lambda>_. 0) f [8] \<in># filter_entries (\<lambda>_. 0) fa) \<and>
    filter_remove (\<lambda>_. 0) (\<lambda>_. 0) f [7] = Inr (fr, item_entry (\<lambda>_. 0) f [7] \<in># filter_entries (\<lambda>_. 0) f) \<and>
    filter_inv (\<lambda>_. 0) fr \<and>
    filter_entries (\<lambda>_. 0) fr = filter_entries (\<lambda>_. 0) f - {#item_entry (\<lambda>_. 0) f [7]#} \<and>
    filter_contains (\<lambda>_. 0) fr [8] = Inr (item_entry (\<lambda>_. 0) f [8] \<in># filter_entries (\<lambda>_. 0) fr)"
proof -
  obtain f where f: "make_filter 10 12 = Inr f" "filter_inv (\<lambda>_. 0) f"
    using make_filter_ok [of 12 10 "\<lambda>_. 0"] by auto
  then show ?thesis using cuckoo_filter_refines_multiset [OF f(2), of "[8]" "\<lambda>_. 0" "[7]"] by blast
qed

end
