(* ===== verification/ModArith.thy ===== *)
theory ModArith
  imports Prelude
begin

text \<open>
  Arithmetic modulo a prime, as the sources use it through SEAL: the operations of
  \<open>seal/util/uintarithsmallmod.h\<close> are a record of functions (they are not part of the sources) with the
  behaviour their documentation states as the predicate \<open>seal_arith\<close>; the number theory that the
  results need (Fermat's little theorem, cancellation) is proved here.
\<close>

subsection \<open>Primes\<close>

definition is_prime :: "nat \<Rightarrow> bool" where
  "is_prime p \<longleftrightarrow> 1 < p \<and> (\<forall>d \<in> {2..<p}. \<not> d dvd p)"

lemma is_prime_list: "is_prime p \<longleftrightarrow> 1 < p \<and> list_all (\<lambda>d. \<not> d dvd p) [2..<p]"
  by (simp add: is_prime_def list_all_iff)

lemma is_prime_17: "is_prime 17"
  by (simp add: is_prime_list upt_rec)

lemma is_prime_coprime:
  assumes "is_prime p" "\<not> p dvd a"
  shows "coprime p a"
proof -
  let ?g = "gcd p a"
  have g: "?g dvd p" "?g \<noteq> p" using assms(2) by (auto simp: gcd_dvd1 intro: gcd_dvd2 dest: sym) (metis gcd_dvd2)
  have "?g \<le> p" using g(1) assms(1) by (intro dvd_imp_le) (auto simp: is_prime_def)
  then have "?g < p" using g(2) by simp
  moreover have "0 < ?g" using assms(1) by (auto simp: is_prime_def)
  moreover have "\<not> 2 \<le> ?g" using assms(1) g(1) \<open>?g < p\<close> by (auto simp: is_prime_def)
  ultimately have "?g = 1" by linarith
  then show ?thesis by (simp add: coprime_iff_gcd_eq_1)
qed

lemma prime_dvd_mult:
  assumes "is_prime p" "p dvd a * b"
  shows "p dvd a \<or> p dvd b"
  using is_prime_coprime [OF assms(1), of a] assms(2) coprime_dvd_mult_right_iff [of p a b] by blast

lemma prime_dvd_mult_int:
  assumes "is_prime p"
  shows "int p dvd a * b \<longleftrightarrow> int p dvd a \<or> int p dvd b"
proof -
  have "int p dvd a * b \<longleftrightarrow> p dvd nat \<bar>a\<bar> * nat \<bar>b\<bar>"
    unfolding dvd_nat_abs_iff [symmetric] nat_abs_mult_distrib ..
  also have "\<dots> \<longleftrightarrow> p dvd nat \<bar>a\<bar> \<or> p dvd nat \<bar>b\<bar>"
    using prime_dvd_mult [OF assms] dvd_mult dvd_mult2 by blast
  finally show ?thesis unfolding dvd_nat_abs_iff .
qed

lemma prime_dvd_prod:
  assumes "is_prime p" "finite A" "p dvd (\<Prod>x\<in>A. f x)"
  shows "\<exists>x\<in>A. p dvd (f x :: nat)"
  using assms(2,3)
proof (induction A rule: finite_induct)
  case empty
  then show ?case using assms(1) by (simp add: is_prime_def)
next
  case (insert x A)
  then show ?case using prime_dvd_mult [OF assms(1)] by auto
qed

text \<open>Multiplication by a unit permutes the nonzero residues.\<close>

lemma fermat:
  assumes p: "is_prime p" and a: "\<not> p dvd a"
  shows "a ^ (p - 1) mod p = 1"
proof -
  let ?S = "{1..<p}" and ?f = "\<lambda>x. a * x mod p"
  have p1: "1 < p" using p by (simp add: is_prime_def)
  have nd: "\<not> p dvd x" if "x \<in> ?S" for x using that by (auto dest: dvd_imp_le)
  have inj: "inj_on ?f ?S"
  proof (rule inj_onI)
    fix x y assume xy: "x \<in> ?S" "y \<in> ?S" "?f x = ?f y"
    have sym: "x' = y'" if "x' \<le> y'" "x' \<in> ?S" "y' \<in> ?S" "?f x' = ?f y'" for x' y'
    proof -
      have "p dvd a * y' - a * x'" using that(4) by (metis mod_eq_dvd_iff_nat mult_le_mono2 that(1))
      then have "p dvd a * (y' - x')" by (simp add: diff_mult_distrib2)
      then have "p dvd y' - x'" using prime_dvd_mult [OF p] a by blast
      moreover have "y' - x' < p" using that(3) by auto
      ultimately have "y' - x' = 0" by (metis dvd_imp_le neq0_conv not_le)
      then show ?thesis using that(1) by simp
    qed
    show "x = y" using sym [of x y] sym [of y x] xy by (metis le_cases)
  qed
  have "?f ` ?S \<subseteq> ?S"
  proof
    fix y assume "y \<in> ?f ` ?S"
    then obtain x where x: "x \<in> ?S" "y = ?f x" by blast
    have "?f x \<noteq> 0" using prime_dvd_mult [OF p, of a x] a nd [OF x(1)] by (auto simp: mod_eq_0_iff_dvd)
    then show "y \<in> ?S" using x(2) p1 by auto
  qed
  then have img: "?f ` ?S = ?S" using inj by (simp add: endo_inj_surj)
  have "(\<Prod>x\<in>?S. ?f x) = \<Prod>?S" using prod.reindex [OF inj, of id] img by simp
  then have "(\<Prod>x\<in>?S. a * x) mod p = \<Prod>?S mod p" by (metis mod_prod_eq)
  moreover have "(\<Prod>x\<in>?S. a * x) = a ^ (p - 1) * \<Prod>?S" by (simp add: prod.distrib)
  ultimately have e: "(a ^ (p - 1) * \<Prod>?S) mod p = (1 * \<Prod>?S) mod p" by simp
  have "0 < a" using a by (cases a) auto
  then have a1: "1 \<le> a ^ (p - 1)" by simp
  have "p dvd a ^ (p - 1) * \<Prod>?S - 1 * \<Prod>?S"
    using e a1 by (subst mod_eq_dvd_iff_nat [symmetric]) (auto intro: mult_le_mono1)
  then have "p dvd (a ^ (p - 1) - 1) * \<Prod>?S" by (simp add: diff_mult_distrib)
  moreover have "\<not> p dvd \<Prod>?S" using prime_dvd_prod [OF p, of ?S "\<lambda>x. x"] nd by auto
  ultimately have "p dvd a ^ (p - 1) - 1" using prime_dvd_mult [OF p] by blast
  then have "a ^ (p - 1) mod p = 1 mod p" using a1 by (subst mod_eq_dvd_iff_nat) auto
  then show ?thesis using p1 by simp
qed

lemma prime_inverse:
  assumes "is_prime p" "0 < d" "d < p"
  shows "d * (d ^ (p - 2) mod p) mod p = 1"
proof -
  have "\<not> p dvd d" using assms(2,3) by (auto dest: dvd_imp_le)
  then have "d ^ (p - 1) mod p = 1" using fermat [OF assms(1)] by blast
  moreover have "d ^ (p - 1) = d * d ^ (p - 2)"
    using assms(1) by (subst power_Suc [symmetric]) (simp add: is_prime_def Suc_diff_Suc numeral_2_eq_2)
  ultimately show ?thesis by (simp add: mod_mult_right_eq)
qed

lemma mod_add_mult: "(a + x * (y mod p)) mod p = (a + x * y) mod (p :: int)"
  by (metis mod_add_right_eq mod_mult_right_eq)

lemma mod_sum_mult: "((x + y mod p) * z) mod p = ((x + y) * z) mod (p :: int)"
  by (metis mod_add_right_eq mod_mult_left_eq)

subsection \<open>The operations of SEAL\<close>

record mod_ops =
  mo_value :: nat
  mo_is_prime :: bool
  mo_add :: "nat \<Rightarrow> nat \<Rightarrow> nat"
  mo_sub :: "nat \<Rightarrow> nat \<Rightarrow> nat"
  mo_neg :: "nat \<Rightarrow> nat"
  mo_mul :: "nat \<Rightarrow> nat \<Rightarrow> nat"
  mo_mul_add :: "nat \<Rightarrow> nat \<Rightarrow> nat \<Rightarrow> nat"
  mo_exp :: "nat \<Rightarrow> nat \<Rightarrow> nat"

definition seal_arith :: "mod_ops \<Rightarrow> bool" where
  "seal_arith m \<longleftrightarrow> 1 < mo_value m \<and> (mo_is_prime m \<longleftrightarrow> is_prime (mo_value m)) \<and>
     (\<forall>a < mo_value m. \<forall>b < mo_value m. mo_add m a b = (a + b) mod mo_value m \<and>
        mo_sub m a b = (a + (mo_value m - b)) mod mo_value m \<and>
        mo_mul m a b = (a * b) mod mo_value m \<and>
        (\<forall>c < mo_value m. mo_mul_add m a b c = (a * b + c) mod mo_value m)) \<and>
     (\<forall>a < mo_value m. mo_neg m a = (mo_value m - a) mod mo_value m) \<and>
     (\<forall>a < mo_value m. \<forall>e. mo_exp m a e = a ^ e mod mo_value m)"

definition std_ops :: "nat \<Rightarrow> mod_ops" where
  "std_ops p = \<lparr>mo_value = p, mo_is_prime = is_prime p, mo_add = \<lambda>a b. (a + b) mod p,
     mo_sub = \<lambda>a b. (a + (p - b)) mod p, mo_neg = \<lambda>a. (p - a) mod p, mo_mul = \<lambda>a b. a * b mod p,
     mo_mul_add = \<lambda>a b c. (a * b + c) mod p, mo_exp = \<lambda>a e. a ^ e mod p\<rparr>"

lemma std_ops_seal: "1 < p \<Longrightarrow> seal_arith (std_ops p)"
  by (simp add: seal_arith_def std_ops_def)

lemma seal_ops:
  assumes "seal_arith m" "a < mo_value m" "b < mo_value m"
  shows "int (mo_add m a b) = (int a + int b) mod int (mo_value m)"
    and "int (mo_sub m a b) = (int a - int b) mod int (mo_value m)"
    and "int (mo_mul m a b) = (int a * int b) mod int (mo_value m)"
    and "int (mo_neg m a) = (- int a) mod int (mo_value m)"
    and "c < mo_value m \<Longrightarrow> int (mo_mul_add m a b c) = (int a * int b + int c) mod int (mo_value m)"
    and "mo_add m a b < mo_value m" "mo_sub m a b < mo_value m" "mo_mul m a b < mo_value m"
    "mo_neg m a < mo_value m" "mo_exp m a e < mo_value m"
    "c < mo_value m \<Longrightarrow> mo_mul_add m a b c < mo_value m"
proof -
  let ?p = "mo_value m"
  have p: "0 < ?p" using assms(1) by (simp add: seal_arith_def)
  have ops: "mo_add m a b = (a + b) mod ?p" "mo_sub m a b = (a + (?p - b)) mod ?p" "mo_mul m a b = (a * b) mod ?p"
    "mo_neg m a = (?p - a) mod ?p" "mo_exp m a e = a ^ e mod ?p"
    "c < ?p \<Longrightarrow> mo_mul_add m a b c = (a * b + c) mod ?p"
    using assms unfolding seal_arith_def by blast+
  show "int (mo_add m a b) = (int a + int b) mod int ?p" by (simp add: ops of_nat_mod)
  show "int (mo_mul m a b) = (int a * int b) mod int ?p" by (simp add: ops of_nat_mod)
  show "c < ?p \<Longrightarrow> int (mo_mul_add m a b c) = (int a * int b + int c) mod int ?p" by (simp add: ops of_nat_mod)
  have "int (mo_sub m a b) = (int a + (int ?p - int b)) mod int ?p"
    using assms(3) by (simp add: ops of_nat_mod of_nat_diff add_diff_eq)
  also have "int a + (int ?p - int b) = (int a - int b) + int ?p" by simp
  finally show "int (mo_sub m a b) = (int a - int b) mod int ?p" by (simp only: mod_add_self2)
  have "int (mo_neg m a) = (int ?p - int a) mod int ?p"
    using assms(2) by (simp add: ops of_nat_mod of_nat_diff)
  also have "int ?p - int a = (- int a) + int ?p" by simp
  finally show "int (mo_neg m a) = (- int a) mod int ?p" by (simp only: mod_add_self2)
  show "mo_add m a b < ?p" "mo_sub m a b < ?p" "mo_mul m a b < ?p" "mo_neg m a < ?p" "mo_exp m a e < ?p"
    "c < ?p \<Longrightarrow> mo_mul_add m a b c < ?p"
    using p by (simp_all add: ops)
qed

lemma seal_sub_zero: "seal_arith m \<Longrightarrow> a < mo_value m \<Longrightarrow> b < mo_value m \<Longrightarrow> mo_sub m a b = 0 \<longleftrightarrow> a = b"
proof -
  assume m: "seal_arith m" "a < mo_value m" "b < mo_value m"
  have "mo_sub m a b = 0 \<longleftrightarrow> (int a - int b) mod int (mo_value m) = 0"
    using seal_ops(2) [OF m] by linarith
  also have "\<dots> \<longleftrightarrow> int a mod int (mo_value m) = int b mod int (mo_value m)"
    by (simp add: mod_eq_dvd_iff mod_eq_0_iff_dvd)
  also have "\<dots> \<longleftrightarrow> a = b" using m(2,3) by simp
  finally show ?thesis .
qed

text \<open>The quotient that the sources form with the exponent \<open>p - 2\<close> is the quotient modulo the prime.\<close>

lemma seal_div:
  assumes "seal_arith m" "mo_is_prime m" "a < mo_value m" "0 < d" "d < mo_value m"
  shows "(int (mo_mul m a (mo_exp m d (mo_value m - 2))) * int d) mod int (mo_value m) = int a"
proof -
  let ?p = "mo_value m" and ?i = "mo_exp m d (mo_value m - 2)"
  have i: "?i = d ^ (?p - 2) mod ?p" "?i < ?p" using assms by (auto simp: seal_arith_def)
  have "d * ?i mod ?p = 1" using assms i(1) prime_inverse [of ?p d] by (simp add: seal_arith_def)
  then have di: "(int d * int ?i) mod int ?p = 1" by (metis of_nat_1 of_nat_mod of_nat_mult)
  have "int (mo_mul m a ?i) * int d mod int ?p = (int a * int ?i mod int ?p) * int d mod int ?p"
    by (simp only: seal_ops(3) [OF assms(1,3) i(2)])
  also have "\<dots> = (int a * ((int d * int ?i) mod int ?p)) mod int ?p"
    by (simp add: mod_simps ac_simps)
  finally show ?thesis using assms(3) by (simp add: di)
qed

end
