(* ===== verification/Interpolate.thy ===== *)
theory Interpolate
  imports ModArith
begin

text \<open>
  Polynomials over the plaintext modulus (\<open>common/apsi/util/interpolate.cpp\<close>): the matching
  polynomial of a bin, which has the bin's items as its roots, and the label polynomial, which takes
  a label's value at each item (Newton interpolation with a table of divided differences).
\<close>

subsection \<open>The routines\<close>

text \<open>The loop from the highest coefficient to the first, in place.\<close>

fun mul_monomial_loop :: "mod_ops \<Rightarrow> nat \<Rightarrow> nat \<Rightarrow> nat list \<Rightarrow> nat list" where
  "mul_monomial_loop m neg_a 0 polyn = polyn"
| "mul_monomial_loop m neg_a (Suc i) polyn =
     mul_monomial_loop m neg_a i (polyn[Suc i := mo_mul_add m (polyn ! Suc i) neg_a (polyn ! i)])"

definition polyn_mul_monic_monomial :: "mod_ops \<Rightarrow> nat list \<Rightarrow> nat \<Rightarrow> nat list" where
  "polyn_mul_monic_monomial m polyn a =
     (let polyn = polyn @ [0];
          neg_a = mo_neg m a;
          polyn = mul_monomial_loop m neg_a (length polyn - 1) polyn
      in polyn[0 := mo_mul m (polyn ! 0) neg_a])"

fun mul_roots :: "mod_ops \<Rightarrow> nat list \<Rightarrow> nat list \<Rightarrow> nat list" where
  "mul_roots m polyn [] = polyn"
| "mul_roots m polyn (root # roots) = mul_roots m (polyn_mul_monic_monomial m polyn root) roots"

definition polyn_with_roots :: "mod_ops \<Rightarrow> nat list \<Rightarrow> nat list res" where
  "polyn_with_roots m roots =
     (if mo_value m = 0 then Inl (Invalid_argument ''mod cannot be zero'')
      else Inr (mul_roots m [1] roots))"

text \<open>
  The table of divided differences: \<open>dd_column\<close> is the inner loop, from row \<open>i\<close> with \<open>n\<close> rows to
  go; \<open>dd_columns\<close> the outer, from column \<open>j\<close>.
\<close>

fun dd_column :: "mod_ops \<Rightarrow> nat list \<Rightarrow> nat \<Rightarrow> nat \<Rightarrow> nat \<Rightarrow> nat list list \<Rightarrow> nat list list res" where
  "dd_column m points j i 0 dd = Inr dd"
| "dd_column m points j i (Suc n) dd =
     (let numerator = mo_sub m (dd ! (i + 1) ! (j - 1)) (dd ! i ! (j - 1));
          denominator = mo_sub m (points ! (i + j)) (points ! i)
      in if denominator = 0 then Inl (Logic_error ''tried to interpolate at repeated points'')
         else let inv_denominator = mo_exp m denominator (mo_value m - 2)
              in dd_column m points j (i + 1) n
                   (dd[i := dd ! i @ [mo_mul m numerator inv_denominator]]))"

fun dd_columns :: "mod_ops \<Rightarrow> nat list \<Rightarrow> nat \<Rightarrow> nat \<Rightarrow> nat list list \<Rightarrow> nat list list res" where
  "dd_columns m points j 0 dd = Inr dd"
| "dd_columns m points j (Suc n) dd =
     bind_res (dd_column m points j 0 (length points - j) dd) (dd_columns m points (j + 1) n)"

text \<open>Horner's method on the first row of the table.\<close>

fun newton_horner :: "mod_ops \<Rightarrow> nat list \<Rightarrow> nat list \<Rightarrow> nat \<Rightarrow> nat list \<Rightarrow> nat list" where
  "newton_horner m points row 0 result = result"
| "newton_horner m points row (Suc i) result =
     newton_horner m points row i
       (polyn_mul_monic_monomial m (result[0 := mo_add m (result ! 0) (row ! Suc i)]) (points ! i))"

definition newton_interpolate_polyn :: "mod_ops \<Rightarrow> nat list \<Rightarrow> nat list \<Rightarrow> nat list res" where
  "newton_interpolate_polyn m points vals =
     (if length points \<noteq> length vals then
        Inl (Invalid_argument ''number of values does not match the number of interpolation points'')
      else if \<not> mo_is_prime m then Inl (Invalid_argument ''mod must be prime'')
      else
        let size = length points
        in if \<forall>a \<in> set vals. a = 0 then Inr (replicate (max size 1) 0)
           else bind_res (dd_columns m points 1 (size - 1) (map (\<lambda>v. [v]) vals)) (\<lambda>dd.
             let result = newton_horner m points (dd ! 0) (size - 1) [0]
             in Inr (result[0 := mo_add m (result ! 0) (dd ! 0 ! 0)])))"

subsection \<open>Evaluation\<close>

fun polyn_eval :: "nat \<Rightarrow> nat list \<Rightarrow> nat \<Rightarrow> nat" where
  "polyn_eval p [] x = 0"
| "polyn_eval p (c # cs) x = (c + x * polyn_eval p cs x) mod p"

fun ieval :: "nat list \<Rightarrow> int \<Rightarrow> int" where
  "ieval [] x = 0"
| "ieval (c # cs) x = int c + x * ieval cs x"

lemma polyn_eval_ieval: "0 < p \<Longrightarrow> int (polyn_eval p cs x) = ieval cs (int x) mod int p"
proof (induction cs)
  case (Cons c cs)
  have "int (polyn_eval p (c # cs) x) = (int c + int x * (ieval cs (int x) mod int p)) mod int p"
    using Cons by (simp add: of_nat_mod)
  then show ?case by (simp add: mod_add_mult)
qed simp

lemma polyn_eval_mod: "0 < p \<Longrightarrow> polyn_eval p cs x < p"
  by (cases cs) auto

definition reduced :: "mod_ops \<Rightarrow> nat list \<Rightarrow> bool" where
  "reduced m cs \<longleftrightarrow> (\<forall>c \<in> set cs. c < mo_value m)"

lemma reduced_simps [simp]:
  "reduced m []" "reduced m (c # cs) \<longleftrightarrow> c < mo_value m \<and> reduced m cs"
  "reduced m (cs @ ds) \<longleftrightarrow> reduced m cs \<and> reduced m ds"
  by (auto simp: reduced_def)

lemma reduced_update: "reduced m cs \<Longrightarrow> c < mo_value m \<Longrightarrow> reduced m (cs[i := c])"
  unfolding reduced_def using set_update_subset_insert by fastforce

lemma reduced_nth: "reduced m cs \<Longrightarrow> i < length cs \<Longrightarrow> cs ! i < mo_value m"
  by (simp add: reduced_def)

subsection \<open>Multiplication by a monomial\<close>

text \<open>What the loop leaves, as a function that carries the previous coefficient along.\<close>

fun shift_mul :: "mod_ops \<Rightarrow> nat \<Rightarrow> nat \<Rightarrow> nat list \<Rightarrow> nat list" where
  "shift_mul m neg_a prev [] = []"
| "shift_mul m neg_a prev (c # cs) = mo_mul_add m c neg_a prev # shift_mul m neg_a c cs"

lemma mul_monomial_loop_nth:
  assumes "k < length polyn" "j < length polyn"
  shows "mul_monomial_loop m na k polyn ! j =
     (if 0 < j \<and> j \<le> k then mo_mul_add m (polyn ! j) na (polyn ! (j - 1)) else polyn ! j)"
  using assms
proof (induction k arbitrary: polyn)
  case (Suc k)
  then show ?case by (auto simp: nth_list_update le_Suc_eq)
qed simp

lemma mul_monomial_loop_length [simp]: "length (mul_monomial_loop m na k polyn) = length polyn"
  by (induction k arbitrary: polyn) auto

lemma shift_mul_length [simp]: "length (shift_mul m na prev cs) = length cs"
  by (induction cs arbitrary: prev) auto

lemma shift_mul_nth: "j < length cs \<Longrightarrow>
   shift_mul m na prev cs ! j = mo_mul_add m (cs ! j) na (if j = 0 then prev else cs ! (j - 1))"
  by (induction cs arbitrary: prev j) (auto simp: nth_Cons split: nat.splits)

lemma mul_monic_shift:
  assumes "seal_arith m" "reduced m polyn" "a < mo_value m"
  shows "polyn_mul_monic_monomial m polyn a = shift_mul m (mo_neg m a) 0 (polyn @ [0])"
proof -
  let ?c = "polyn @ [0]" and ?na = "mo_neg m a"
  have p: "0 < mo_value m" using assms(1) by (simp add: seal_arith_def)
  have na: "?na < mo_value m" using seal_ops(9) [OF assms(1,3) p] .
  have c0: "?c ! 0 < mo_value m" using assms(2) p by (intro reduced_nth) simp_all
  have z: "mo_mul m (?c ! 0) ?na = mo_mul_add m (?c ! 0) ?na 0"
    using assms(1) c0 na p by (simp add: seal_arith_def)
  show ?thesis
  proof (rule nth_equalityI)
    fix j assume "j < length (polyn_mul_monic_monomial m polyn a)"
    then have j: "j < length ?c" by (simp add: polyn_mul_monic_monomial_def Let_def)
    show "polyn_mul_monic_monomial m polyn a ! j = shift_mul m ?na 0 ?c ! j"
      using j z mul_monomial_loop_nth [of "length polyn" ?c j m ?na] mul_monomial_loop_nth [of "length polyn" ?c 0 m ?na]
      by (cases "j = 0") (auto simp: polyn_mul_monic_monomial_def Let_def shift_mul_nth)
  qed (simp add: polyn_mul_monic_monomial_def Let_def)
qed

lemma shift_mul_eval:
  assumes "seal_arith m" "reduced m cs" "na < mo_value m" "prev < mo_value m" "last (prev # cs) = 0"
  shows "ieval (shift_mul m na prev cs) x mod int (mo_value m) =
     (int prev + (x + int na) * ieval cs x) mod int (mo_value m)"
  using assms(2,4,5)
proof (induction cs arbitrary: prev)
  case Nil
  then show ?case by simp
next
  case (Cons c cs)
  let ?p = "int (mo_value m)"
  have c: "c < mo_value m" "reduced m cs" using Cons.prems by simp_all
  have IH: "ieval (shift_mul m na c cs) x mod ?p = (int c + (x + int na) * ieval cs x) mod ?p"
    using Cons.prems by (intro Cons.IH) (auto split: if_splits)
  have "ieval (shift_mul m na prev (c # cs)) x mod ?p =
      ((int c * int na + int prev) mod ?p + x * (ieval (shift_mul m na c cs) x mod ?p)) mod ?p"
    using seal_ops(5) [OF assms(1) c(1) assms(3) Cons.prems(2)] by (simp add: mod_simps mod_add_mult)
  also have "\<dots> = ((int c * int na + int prev) + x * (int c + (x + int na) * ieval cs x)) mod ?p"
    unfolding IH by (simp add: mod_simps mod_add_mult)
  also have "(int c * int na + int prev) + x * (int c + (x + int na) * ieval cs x) =
      int prev + (x + int na) * ieval (c # cs) x"
    by (simp add: algebra_simps)
  finally show ?case .
qed

lemma ieval_append_zero [simp]: "ieval (cs @ [0]) x = ieval cs x"
  by (induction cs) auto

lemma shift_mul_reduced:
  "seal_arith m \<Longrightarrow> reduced m cs \<Longrightarrow> na < mo_value m \<Longrightarrow> prev < mo_value m \<Longrightarrow> reduced m (shift_mul m na prev cs)"
  by (induction cs arbitrary: prev) (auto intro: seal_ops(11))

lemma mul_monic_correct:
  assumes "seal_arith m" "reduced m polyn" "a < mo_value m"
  shows "ieval (polyn_mul_monic_monomial m polyn a) x mod int (mo_value m) =
      ((x - int a) * ieval polyn x) mod int (mo_value m)"
    and "reduced m (polyn_mul_monic_monomial m polyn a)"
    and "length (polyn_mul_monic_monomial m polyn a) = length polyn + 1"
    and "polyn \<noteq> [] \<Longrightarrow> last polyn = 1 \<Longrightarrow> last (polyn_mul_monic_monomial m polyn a) = 1"
proof -
  let ?p = "mo_value m" and ?na = "mo_neg m a"
  have p: "1 < ?p" using assms(1) by (simp add: seal_arith_def)
  then have p0: "0 < ?p" by simp
  have na: "?na < ?p" "int ?na = (- int a) mod int ?p"
    using seal_ops(4,9) [OF assms(1,3) p0] by simp_all
  have "ieval (polyn_mul_monic_monomial m polyn a) x mod int ?p = ((x + int ?na) * ieval polyn x) mod int ?p"
    unfolding mul_monic_shift [OF assms]
    using shift_mul_eval [OF assms(1), of "polyn @ [0]" ?na 0 x] assms(2) na(1) p0 by simp
  also have "\<dots> = ((x + - int a) * ieval polyn x) mod int ?p"
    unfolding na(2) by (rule mod_sum_mult)
  finally show "ieval (polyn_mul_monic_monomial m polyn a) x mod int ?p = ((x - int a) * ieval polyn x) mod int ?p"
    by simp
  show "reduced m (polyn_mul_monic_monomial m polyn a)"
    unfolding mul_monic_shift [OF assms] using assms na(1) p0 by (intro shift_mul_reduced) simp_all
  show "length (polyn_mul_monic_monomial m polyn a) = length polyn + 1"
    unfolding mul_monic_shift [OF assms] by simp
  assume l: "polyn \<noteq> []" "last polyn = 1"
  then have "shift_mul m ?na 0 (polyn @ [0]) ! length polyn = mo_mul_add m 0 ?na 1"
    by (simp add: shift_mul_nth last_conv_nth nth_append)
  also have "\<dots> = 1" using assms(1) na(1) p by (simp add: seal_arith_def)
  finally show "last (polyn_mul_monic_monomial m polyn a) = 1"
    unfolding mul_monic_shift [OF assms] by (subst last_conv_nth) (auto simp flip: length_0_conv)
qed

lemma mul_roots_correct:
  assumes "seal_arith m" "reduced m polyn" "reduced m roots" "polyn \<noteq> []" "last polyn = 1"
  shows "length (mul_roots m polyn roots) = length polyn + length roots \<and> reduced m (mul_roots m polyn roots) \<and>
    last (mul_roots m polyn roots) = 1 \<and>
    ieval (mul_roots m polyn roots) x mod int (mo_value m) =
      (ieval polyn x * (\<Prod>r\<leftarrow>roots. x - int r)) mod int (mo_value m)"
  using assms(2-5)
proof (induction roots arbitrary: polyn)
  case Nil
  then show ?case by simp
next
  case (Cons r roots)
  let ?q = "polyn_mul_monic_monomial m polyn r"
  have r: "r < mo_value m" "reduced m roots" using Cons.prems(2) by simp_all
  note q = mul_monic_correct [OF assms(1) Cons.prems(1) r(1)]
  have IH: "length (mul_roots m ?q roots) = length ?q + length roots \<and> reduced m (mul_roots m ?q roots) \<and>
    last (mul_roots m ?q roots) = 1 \<and>
    ieval (mul_roots m ?q roots) x mod int (mo_value m) =
      (ieval ?q x * (\<Prod>r\<leftarrow>roots. x - int r)) mod int (mo_value m)"
    using q(2,3,4) r Cons.prems(3,4) by (intro Cons.IH) auto
  have "(ieval ?q x * (\<Prod>r\<leftarrow>roots. x - int r)) mod int (mo_value m) =
      ((ieval ?q x mod int (mo_value m)) * (\<Prod>r\<leftarrow>roots. x - int r)) mod int (mo_value m)"
    by (simp add: mod_simps)
  also have "\<dots> = ((x - int r) * ieval polyn x * (\<Prod>r\<leftarrow>roots. x - int r)) mod int (mo_value m)"
    unfolding q(1) by (simp add: mod_simps)
  also have "(x - int r) * ieval polyn x * (\<Prod>r\<leftarrow>roots. x - int r) = ieval polyn x * (\<Prod>r\<leftarrow>r # roots. x - int r)"
    by simp
  finally show ?case using IH q(3) by simp
qed

lemma prod_roots_zero:
  assumes "is_prime p" "x < p" "\<forall>r \<in> set roots. r < p"
  shows "int p dvd (\<Prod>r\<leftarrow>roots. int x - int r) \<longleftrightarrow> x \<in> set roots"
  using assms(3)
proof (induction roots)
  case Nil
  then show ?case using assms(1) by (simp add: is_prime_def)
next
  case (Cons r roots)
  have "int p dvd int x - int r \<longleftrightarrow> int x mod int p = int r mod int p" by (simp add: mod_eq_dvd_iff)
  also have "\<dots> \<longleftrightarrow> x = r" using assms(2) Cons.prems by simp
  finally have xr: "int p dvd int x - int r \<longleftrightarrow> x = r" .
  show ?case using Cons xr by (simp add: prime_dvd_mult_int [OF assms(1)])
qed

lemma mul_monic_length [simp]: "length (polyn_mul_monic_monomial m polyn a) = Suc (length polyn)"
  by (simp add: polyn_mul_monic_monomial_def Let_def)

lemma newton_horner_length: "length (newton_horner m points row i result) = length result + i"
  by (induction i arbitrary: result) simp_all

subsection \<open>Divided differences\<close>

text \<open>The entries of the table as a recursive function.\<close>

fun dd_value :: "mod_ops \<Rightarrow> nat list \<Rightarrow> nat list \<Rightarrow> nat \<Rightarrow> nat \<Rightarrow> nat" where
  "dd_value m points vals i 0 = vals ! i"
| "dd_value m points vals i (Suc j) =
     mo_mul m (mo_sub m (dd_value m points vals (i + 1) j) (dd_value m points vals i j))
       (mo_exp m (mo_sub m (points ! (i + Suc j)) (points ! i)) (mo_value m - 2))"

definition dd_rows :: "mod_ops \<Rightarrow> nat list \<Rightarrow> nat list \<Rightarrow> nat \<Rightarrow> nat \<Rightarrow> nat list list" where
  "dd_rows m points vals j k = map (\<lambda>i. map (dd_value m points vals i)
     [0..<(if i < k then min (Suc j) (length points - i) else min j (length points - i))]) [0..<length points]"

lemma dd_column_correct:
  assumes "0 < j" "i + n = length points - j" "j < length points"
  shows "if \<exists>k. i \<le> k \<and> k < i + n \<and> mo_sub m (points ! (k + j)) (points ! k) = 0
    then dd_column m points j i n (dd_rows m points vals j i) = Inl (Logic_error ''tried to interpolate at repeated points'')
    else dd_column m points j i n (dd_rows m points vals j i) = Inr (dd_rows m points vals j (i + n))"
  using assms(2)
proof (induction n arbitrary: i)
  case 0
  then show ?case by simp
next
  case (Suc n)
  let ?R = "dd_rows m points vals j i"
  have i: "i + j < length points" using Suc.prems assms(3) by simp
  have row: "?R ! i = map (dd_value m points vals i) [0..<j]"
    "?R ! (i + 1) = map (dd_value m points vals (i + 1)) [0..<j]"
    using i assms(1) by (simp_all add: dd_rows_def min_def)
  then have num: "?R ! (i + 1) ! (j - 1) = dd_value m points vals (i + 1) (j - 1)"
    "?R ! i ! (j - 1) = dd_value m points vals i (j - 1)"
    using assms(1) by simp_all
  show ?case
  proof (cases "mo_sub m (points ! (i + j)) (points ! i) = 0")
    case True
    then have "\<exists>k. i \<le> k \<and> k < i + Suc n \<and> mo_sub m (points ! (k + j)) (points ! k) = 0"
      by (intro exI [of _ i]) simp
    then show ?thesis using True by (simp add: Let_def)
  next
    case False
    let ?v = "mo_mul m (mo_sub m (dd_value m points vals (i + 1) (j - 1)) (dd_value m points vals i (j - 1)))
       (mo_exp m (mo_sub m (points ! (i + j)) (points ! i)) (mo_value m - 2))"
    have v: "?v = dd_value m points vals i j" using assms(1) by (cases j) simp_all
    have upd: "?R[i := ?R ! i @ [?v]] = dd_rows m points vals j (i + 1)"
    proof (rule nth_equalityI)
      fix k assume "k < length (?R[i := ?R ! i @ [?v]])"
      then have k: "k < length points" by (simp add: dd_rows_def)
      show "?R[i := ?R ! i @ [?v]] ! k = dd_rows m points vals j (i + 1) ! k"
      proof (cases "k = i")
        case True
        then show ?thesis using k i row(1) unfolding v by (simp add: dd_rows_def min_def)
      next
        case ne: False
        then show ?thesis using k by (simp add: dd_rows_def less_Suc_eq)
      qed
    qed (simp add: dd_rows_def)
    have step: "dd_column m points j i (Suc n) ?R = dd_column m points j (i + 1) n (dd_rows m points vals j (i + 1))"
      using False num upd by (simp add: Let_def)
    have ex: "(\<exists>k. i \<le> k \<and> k < i + Suc n \<and> mo_sub m (points ! (k + j)) (points ! k) = 0) \<longleftrightarrow>
        (\<exists>k. i + 1 \<le> k \<and> k < i + 1 + n \<and> mo_sub m (points ! (k + j)) (points ! k) = 0)"
      (is "?L \<longleftrightarrow> ?R")
    proof
      assume ?L
      then obtain k where k: "i \<le> k" "k < i + Suc n" "mo_sub m (points ! (k + j)) (points ! k) = 0" by blast
      then have "k \<noteq> i" using False by auto
      then show ?R using k by (intro exI [of _ k]) simp
    next
      assume ?R
      then obtain k where "i + 1 \<le> k" "k < i + 1 + n" "mo_sub m (points ! (k + j)) (points ! k) = 0" by blast
      then show ?L by (intro exI [of _ k]) simp
    qed
    have "i + 1 + n = length points - j" using Suc.prems by simp
    from Suc.IH [OF this] have "if \<exists>k. i \<le> k \<and> k < i + Suc n \<and> mo_sub m (points ! (k + j)) (points ! k) = 0
      then dd_column m points j i (Suc n) (dd_rows m points vals j i) = Inl (Logic_error ''tried to interpolate at repeated points'')
      else dd_column m points j i (Suc n) (dd_rows m points vals j i) = Inr (dd_rows m points vals j (i + 1 + n))"
      unfolding step ex .
    then show ?thesis by (simp only: add_Suc_right Suc_eq_plus1 add.assoc add.commute [of n])
  qed
qed

lemma dd_columns_correct:
  assumes "0 < j" "j + n = length points"
  shows "if \<exists>k l. j \<le> l \<and> k + l < length points \<and> mo_sub m (points ! (k + l)) (points ! k) = 0
    then dd_columns m points j n (dd_rows m points vals j 0) = Inl (Logic_error ''tried to interpolate at repeated points'')
    else dd_columns m points j n (dd_rows m points vals j 0) = Inr (dd_rows m points vals (length points) 0)"
  using assms
proof (induction n arbitrary: j)
  case 0
  then show ?case by auto
next
  case (Suc n)
  have j: "j < length points" using Suc.prems by simp
  have col: "if \<exists>k. k < length points - j \<and> mo_sub m (points ! (k + j)) (points ! k) = 0
    then dd_column m points j 0 (length points - j) (dd_rows m points vals j 0) = Inl (Logic_error ''tried to interpolate at repeated points'')
    else dd_column m points j 0 (length points - j) (dd_rows m points vals j 0) = Inr (dd_rows m points vals j (length points - j))"
    using dd_column_correct [where i = 0 and n = "length points - j" and j = j and points = points
        and m = m and vals = vals] Suc.prems(1) j by simp
  have next_col: "dd_rows m points vals j (length points - j) = dd_rows m points vals (j + 1) 0"
  proof -
    have "min j (length points - i) = min (Suc j) (length points - i)" if "\<not> i < length points - j" for i
      using that by simp
    then show ?thesis by (simp add: dd_rows_def)
  qed
  show ?case
  proof (cases "\<exists>k. k < length points - j \<and> mo_sub m (points ! (k + j)) (points ! k) = 0")
    case True
    then obtain k where "k < length points - j" "mo_sub m (points ! (k + j)) (points ! k) = 0" by blast
    then have "\<exists>k l. j \<le> l \<and> k + l < length points \<and> mo_sub m (points ! (k + l)) (points ! k) = 0"
      by (intro exI [of _ k] exI [of _ j]) auto
    then show ?thesis using True col by simp
  next
    case False
    have step: "dd_columns m points j (Suc n) (dd_rows m points vals j 0) =
        dd_columns m points (j + 1) n (dd_rows m points vals (j + 1) 0)"
      using False col by (simp add: next_col)
    have ex: "(\<exists>k l. j \<le> l \<and> k + l < length points \<and> mo_sub m (points ! (k + l)) (points ! k) = 0) \<longleftrightarrow>
        (\<exists>k l. j + 1 \<le> l \<and> k + l < length points \<and> mo_sub m (points ! (k + l)) (points ! k) = 0)"
      (is "?L \<longleftrightarrow> ?R")
    proof
      assume ?L
      then obtain k l where kl: "j \<le> l" "k + l < length points" "mo_sub m (points ! (k + l)) (points ! k) = 0" by blast
      then have "l \<noteq> j" using False by (auto simp: less_diff_conv)
      then show ?R using kl by (intro exI [of _ k] exI [of _ l]) simp
    next
      assume ?R
      then obtain k l where "j + 1 \<le> l" "k + l < length points" "mo_sub m (points ! (k + l)) (points ! k) = 0" by blast
      then show ?L by (intro exI [of _ k] exI [of _ l]) simp
    qed
    have "0 < j + 1" "j + 1 + n = length points" using Suc.prems by simp_all
    from Suc.IH [OF this] show ?thesis unfolding step ex .
  qed
qed

lemma dd_value_reduced:
  assumes "seal_arith m" "reduced m points" "reduced m vals" "length vals = length points" "i + j < length points"
  shows "dd_value m points vals i j < mo_value m"
  using assms(5)
proof (induction j arbitrary: i)
  case 0
  then show ?case using assms(3,4) by (simp add: reduced_nth)
next
  case (Suc j)
  have p: "points ! (i + Suc j) < mo_value m" "points ! i < mo_value m"
    using Suc.prems assms(2) by (simp_all add: reduced_nth)
  have "dd_value m points vals (i + 1) j < mo_value m" "dd_value m points vals i j < mo_value m"
    using Suc.prems by (simp_all add: Suc.IH)
  then have "mo_sub m (dd_value m points vals (i + 1) j) (dd_value m points vals i j) < mo_value m"
    using seal_ops(7) [OF assms(1)] by blast
  moreover have "mo_sub m (points ! (i + Suc j)) (points ! i) < mo_value m"
    using seal_ops(7) [OF assms(1) p] .
  ultimately show ?case using seal_ops(8,10) [OF assms(1)] by simp
qed

subsection \<open>Newton's formula\<close>

text \<open>The product over the first \<open>n\<close> points from \<open>i\<close>, and the interpolant of the points \<open>i\<close> to \<open>i + n\<close>.\<close>

fun omega :: "nat list \<Rightarrow> nat \<Rightarrow> nat \<Rightarrow> int \<Rightarrow> int" where
  "omega points i 0 x = 1"
| "omega points i (Suc n) x = omega points i n x * (x - int (points ! (i + n)))"

fun newton :: "mod_ops \<Rightarrow> nat list \<Rightarrow> nat list \<Rightarrow> nat \<Rightarrow> nat \<Rightarrow> int \<Rightarrow> int" where
  "newton m points vals i 0 x = int (vals ! i)"
| "newton m points vals i (Suc n) x =
     newton m points vals i n x + int (dd_value m points vals i (Suc n)) * omega points i (Suc n) x"

lemma omega_shift: "omega points i (Suc n) x = (x - int (points ! i)) * omega points (i + 1) n x"
proof (induction n)
  case (Suc n)
  have "omega points i (Suc (Suc n)) x = omega points i (Suc n) x * (x - int (points ! (i + Suc n)))" by simp
  also have "\<dots> = (x - int (points ! i)) * (omega points (i + 1) n x * (x - int (points ! (i + 1 + n))))"
    unfolding Suc.IH by simp
  finally show ?case by simp
qed simp

lemma newton_algebra:
  fixes x :: int
  assumes "(x - X) * W' = W * (x - Y)"
  shows "(x - X) * ((N' + D' * W') - (N + D * W)) - (D' - D) * (W * (x - Y)) =
    ((x - X) * (N' - N) - (d' - d) * W) - (D * (Y - X) - (d' - d)) * W"
proof -
  have "(x - X) * ((N' + D' * W') - (N + D * W)) - (D' - D) * (W * (x - Y)) =
      (x - X) * (N' - N) + D' * ((x - X) * W') - (x - X) * D * W - (D' - D) * (W * (x - Y))"
    by (simp add: algebra_simps)
  then show ?thesis unfolding assms by (simp add: algebra_simps)
qed

lemma dd_value_quotient:
  assumes "seal_arith m" "mo_is_prime m" "reduced m points" "reduced m vals" "length vals = length points"
    "i + Suc j < length points" "points ! (i + Suc j) \<noteq> points ! i"
  shows "int (mo_value m) dvd int (dd_value m points vals i (Suc j)) * (int (points ! (i + Suc j)) - int (points ! i))
     - (int (dd_value m points vals (i + 1) j) - int (dd_value m points vals i j))"
proof -
  let ?p = "mo_value m" and ?a = "dd_value m points vals (i + 1) j" and ?b = "dd_value m points vals i j"
  let ?x = "points ! (i + Suc j)" and ?y = "points ! i"
  have xy: "?x < ?p" "?y < ?p" using assms(3,6) by (simp_all add: reduced_nth)
  have ab: "?a < ?p" "?b < ?p" using dd_value_reduced [OF assms(1,3,4,5)] assms(6) by simp_all
  have d: "mo_sub m ?x ?y < ?p" "mo_sub m ?x ?y \<noteq> 0" "int (mo_sub m ?x ?y) = (int ?x - int ?y) mod int ?p"
    using seal_ops(2,7) [OF assms(1) xy] seal_sub_zero [OF assms(1) xy] assms(7) by simp_all
  have n: "mo_sub m ?a ?b < ?p" "int (mo_sub m ?a ?b) = (int ?a - int ?b) mod int ?p"
    using seal_ops(2,7) [OF assms(1) ab] by simp_all
  have "(int (dd_value m points vals i (Suc j)) * int (mo_sub m ?x ?y)) mod int ?p = int (mo_sub m ?a ?b)"
    using seal_div [OF assms(1,2) n(1) _ d(1)] d(2) by simp
  then have "(int (dd_value m points vals i (Suc j)) * (int ?x - int ?y)) mod int ?p = (int ?a - int ?b) mod int ?p"
    unfolding d(3) n(2) by (simp add: mod_mult_right_eq)
  then show ?thesis by (simp add: mod_eq_dvd_iff)
qed

text \<open>The step from one order of interpolation to the next.\<close>

lemma newton_difference:
  assumes "seal_arith m" "mo_is_prime m" "reduced m points" "reduced m vals" "length vals = length points"
    "i + Suc j < length points" "distinct points"
  shows "int (mo_value m) dvd (x - int (points ! i)) * (newton m points vals (i + 1) j x - newton m points vals i j x)
     - (int (dd_value m points vals (i + 1) j) - int (dd_value m points vals i j)) * omega points i (Suc j) x"
  using assms(6)
proof (induction j arbitrary: i)
  case 0
  then show ?case by (simp add: algebra_simps)
next
  case (Suc j)
  let ?p = "int (mo_value m)" and ?N = "newton m points vals" and ?D = "\<lambda>i j. int (dd_value m points vals i j)"
  let ?X = "\<lambda>i. int (points ! i)" and ?W = "omega points i (Suc j) x"
  have IH: "?p dvd (x - ?X i) * (?N (i + 1) j x - ?N i j x) - (?D (i + 1) j - ?D i j) * ?W"
    using Suc.prems by (intro Suc.IH) simp
  have "points ! (i + Suc j) \<noteq> points ! i" using Suc.prems assms(7) by (simp add: nth_eq_iff_index_eq)
  then have q: "?p dvd ?D i (Suc j) * (?X (i + Suc j) - ?X i) - (?D (i + 1) j - ?D i j)"
    using Suc.prems by (intro dd_value_quotient [OF assms(1-5)]) simp_all
  have w: "omega points i (Suc (Suc j)) x = ?W * (x - ?X (i + Suc j))" by simp
  have w': "(x - ?X i) * omega points (i + 1) (Suc j) x = ?W * (x - ?X (i + Suc j))"
    using omega_shift [of points i "Suc j" x] w by (simp only:)
  have n: "?N (i + 1) (Suc j) x = ?N (i + 1) j x + ?D (i + 1) (Suc j) * omega points (i + 1) (Suc j) x"
    "?N i (Suc j) x = ?N i j x + ?D i (Suc j) * ?W" by (rule newton.simps(2))+
  show ?case unfolding w n newton_algebra [OF w', where d' = "?D (i + 1) j" and d = "?D i j"]
    by (rule dvd_diff [OF IH dvd_mult2 [OF q]])
qed

lemma dvd_diff_cancel: "(p :: int) dvd a - b \<Longrightarrow> p dvd b \<Longrightarrow> p dvd a"
  by (metis diff_add_cancel dvd_add)

lemma dvd_diff_trans: "(p :: int) dvd a - b \<Longrightarrow> p dvd b - c \<Longrightarrow> p dvd a - c"
  by (metis add_diff_eq diff_add_cancel dvd_add)

lemma newton_interpolates:
  assumes "seal_arith m" "mo_is_prime m" "reduced m points" "reduced m vals" "length vals = length points"
    "i + n < length points" "distinct points" "k \<le> n"
  shows "int (mo_value m) dvd newton m points vals i n (int (points ! (i + k))) - int (vals ! (i + k))"
  using assms(6,8)
proof (induction n arbitrary: i k)
  case 0
  then show ?case by simp
next
  case (Suc n)
  let ?p = "int (mo_value m)" and ?x = "int (points ! (i + k))" and ?v = "int (vals ! (i + k))"
  let ?Y = "int (points ! (i + Suc n))" and ?X = "int (points ! i)"
  let ?N = "newton m points vals i n ?x" and ?N' = "newton m points vals (i + 1) n ?x"
    and ?M = "newton m points vals i (Suc n) ?x"
  let ?D = "int (dd_value m points vals i (Suc n))" and ?W = "omega points i (Suc n) ?x"
  let ?d = "int (dd_value m points vals (i + 1) n) - int (dd_value m points vals i n)"
  have diff: "?p dvd (?x - ?X) * (?N' - ?N) - ?d * ?W"
    by (rule newton_difference [OF assms(1-5) Suc.prems(1) assms(7)])
  have ne: "points ! (i + Suc n) \<noteq> points ! i" using Suc.prems assms(7) by (simp add: nth_eq_iff_index_eq)
  have quo: "?p dvd ?D * (?Y - ?X) - ?d"
    by (rule dd_value_quotient [OF assms(1-5) Suc.prems(1) ne])
  have M: "?M = ?N + ?D * ?W" by (rule newton.simps(2))
  have "(?Y - ?X) * (?M - ?N) - (?x - ?X) * (?N' - ?N) =
      (?D * (?Y - ?X) - ?d) * ?W - ((?x - ?X) * (?N' - ?N) - ?d * ?W)"
    unfolding M by (simp add: algebra_simps)
  then have step: "?p dvd (?Y - ?X) * (?M - ?N) - (?x - ?X) * (?N' - ?N)"
    using dvd_diff [OF dvd_mult2 [OF quo] diff] by metis
  have prime: "is_prime (mo_value m)" using assms(1,2) by (simp add: seal_arith_def)
  have red: "points ! (i + Suc n) < mo_value m" "points ! i < mo_value m"
    using Suc.prems assms(3) by (simp_all add: reduced_nth)
  have unit: "\<not> ?p dvd ?Y - ?X"
    using red ne by (simp add: mod_eq_dvd_iff [symmetric])
  have cancel: "?p dvd a" if "?p dvd (?Y - ?X) * a" for a
    using that unit by (simp add: prime_dvd_mult_int [OF prime])
  have low: "?p dvd ?N - ?v" if "k \<le> n" using Suc.IH [of i k] Suc.prems that by simp
  have high: "?p dvd ?N' - ?v" if "0 < k"
    using Suc.IH [of "i + 1" "k - 1"] Suc.prems that by simp
  show ?case
  proof (cases "k \<le> n")
    case True
    have "?p dvd (?x - ?X) * (?N' - ?N)"
    proof (cases "k = 0")
      case False
      then have "?p dvd (?N' - ?v) - (?N - ?v)" using dvd_diff [OF high low [OF True]] by blast
      moreover have "(?N' - ?v) - (?N - ?v) = ?N' - ?N" by (simp only: diff_diff_eq2 diff_add_cancel)
      ultimately show ?thesis by (metis dvd_mult)
    qed simp
    with step have "?p dvd (?Y - ?X) * (?M - ?N)" by (rule dvd_diff_cancel)
    then have "?p dvd ?M - ?N" by (rule cancel)
    then show ?thesis using low [OF True] by (rule dvd_diff_trans)
  next
    case False
    then have k: "k = Suc n" using Suc.prems by simp
    have "(?Y - ?X) * (?M - ?N) - (?x - ?X) * (?N' - ?N) = (?Y - ?X) * (?M - ?N')"
      unfolding k by (simp add: algebra_simps)
    then have "?p dvd ?M - ?N'" using step cancel by metis
    moreover have "?p dvd ?N' - ?v" using k by (intro high) simp
    ultimately show ?thesis by (rule dvd_diff_trans)
  qed
qed

lemma add_constant:
  assumes "seal_arith m" "reduced m res" "res \<noteq> []" "c < mo_value m"
  shows "ieval (res[0 := mo_add m (res ! 0) c]) x mod int (mo_value m) = (ieval res x + int c) mod int (mo_value m)"
    and "reduced m (res[0 := mo_add m (res ! 0) c])"
proof -
  obtain a as where a: "res = a # as" "a < mo_value m" "reduced m as" using assms(2,3) by (cases res) auto
  have "ieval (res[0 := mo_add m (res ! 0) c]) x mod int (mo_value m) =
      ((int a + int c) mod int (mo_value m) + x * ieval as x) mod int (mo_value m)"
    using seal_ops(1) [OF assms(1) a(2) assms(4)] by (simp add: a(1))
  then show "ieval (res[0 := mo_add m (res ! 0) c]) x mod int (mo_value m) = (ieval res x + int c) mod int (mo_value m)"
    by (simp add: a(1) mod_simps algebra_simps)
  show "reduced m (res[0 := mo_add m (res ! 0) c])"
    using seal_ops(6) [OF assms(1) a(2) assms(4)] a by simp
qed

lemma newton_horner_correct:
  assumes "seal_arith m" "reduced m points" "\<And>k. k \<le> n \<Longrightarrow> row ! k = dd_value m points vals 0 k \<and> row ! k < mo_value m"
    "n \<le> length points" "reduced m res" "res \<noteq> []"
  shows "ieval (newton_horner m points row n res) x mod int (mo_value m) =
      (newton m points vals 0 n x - int (vals ! 0) + ieval res x * omega points 0 n x) mod int (mo_value m) \<and>
    reduced m (newton_horner m points row n res)"
  using assms(3-6)
proof (induction n arbitrary: res)
  case 0
  then show ?case by simp
next
  case (Suc n)
  let ?p = "int (mo_value m)" and ?c = "row ! Suc n"
  let ?r = "res[0 := mo_add m (res ! 0) ?c]"
  let ?q = "polyn_mul_monic_monomial m ?r (points ! n)"
  from Suc.prems(1) [OF le_refl] have c: "?c < mo_value m" "?c = dd_value m points vals 0 (Suc n)" by blast+
  note r = add_constant [OF assms(1) Suc.prems(3,4) c(1)]
  have pt: "points ! n < mo_value m" using assms(2) Suc.prems(2) by (simp add: reduced_nth)
  note q = mul_monic_correct [OF assms(1) r(2) pt]
  have IH: "ieval (newton_horner m points row n ?q) x mod ?p =
      (newton m points vals 0 n x - int (vals ! 0) + ieval ?q x * omega points 0 n x) mod ?p \<and>
      reduced m (newton_horner m points row n ?q)"
  proof (rule Suc.IH)
    show "row ! k = dd_value m points vals 0 k \<and> row ! k < mo_value m" if "k \<le> n" for k
      using Suc.prems(1) le_SucI [OF that] by blast
    show "n \<le> length points" using Suc.prems(2) by (rule Suc_leD)
    show "reduced m ?q" by (rule q(2))
    show "?q \<noteq> []" using q(3) by (metis Suc_eq_plus1 list.size(3) nat.distinct(1))
  qed
  have "ieval ?q x mod ?p = ((x - int (points ! n)) * (ieval res x + int ?c)) mod ?p"
    using q(1) [of x] r(1) [of x] by (metis mod_mult_right_eq)
  then have "(ieval ?q x * omega points 0 n x) mod ?p =
      ((x - int (points ! n)) * (ieval res x + int ?c) * omega points 0 n x) mod ?p"
    by (metis mod_mult_left_eq)
  then have "(newton m points vals 0 n x - int (vals ! 0) + ieval ?q x * omega points 0 n x) mod ?p =
      (newton m points vals 0 n x - int (vals ! 0) +
       (x - int (points ! n)) * (ieval res x + int ?c) * omega points 0 n x) mod ?p"
    by (rule mod_add_cong [OF refl])
  also have "newton m points vals 0 n x - int (vals ! 0) +
       (x - int (points ! n)) * (ieval res x + int ?c) * omega points 0 n x =
      newton m points vals 0 (Suc n) x - int (vals ! 0) + ieval res x * omega points 0 (Suc n) x"
    unfolding newton.simps(2) c(2) [symmetric] omega.simps(2) by (simp add: algebra_simps)
  finally show ?case using IH by simp
qed

subsection \<open>Properties\<close>

lemma polyn_with_roots_spec:
  assumes "seal_arith m" and "mo_is_prime m" and "\<forall>r \<in> set roots. r < mo_value m" and "x < mo_value m"
  shows "\<exists>cs. polyn_with_roots m roots = Inr cs \<and> length cs = length roots + 1 \<and> last cs = 1 \<and>
    (\<forall>c \<in> set cs. c < mo_value m) \<and> (polyn_eval (mo_value m) cs x = 0 \<longleftrightarrow> x \<in> set roots)"
proof -
  let ?p = "mo_value m" and ?cs = "mul_roots m [1] roots"
  have p: "0 < ?p" "1 < ?p" using assms(1) by (simp_all add: seal_arith_def)
  have prime: "is_prime ?p" using assms(1,2) by (simp add: seal_arith_def)
  have c: "length ?cs = length roots + 1" "reduced m ?cs" "last ?cs = 1"
    "ieval ?cs (int x) mod int ?p = (\<Prod>r\<leftarrow>roots. int x - int r) mod int ?p"
    using mul_roots_correct [OF assms(1), of "[1]" roots "int x"] assms(3) p(2) by (auto simp: reduced_def)
  have "polyn_eval ?p ?cs x = 0 \<longleftrightarrow> int (polyn_eval ?p ?cs x) = 0" by simp
  also have "\<dots> \<longleftrightarrow> int ?p dvd (\<Prod>r\<leftarrow>roots. int x - int r)"
    unfolding polyn_eval_ieval [OF p(1)] c(4) by (simp add: mod_eq_0_iff_dvd)
  also have "\<dots> \<longleftrightarrow> x \<in> set roots" using prod_roots_zero [OF prime assms(4,3)] .
  finally show ?thesis using c p by (auto simp: polyn_with_roots_def reduced_def)
qed

text \<open>
  The matching polynomial: for distinct or repeated roots below a prime modulus,
  \<open>polyn_with_roots\<close> returns the coefficients of a monic polynomial of degree the number of roots that
  vanishes exactly at the roots, so evaluating it at an item decides membership in the bin.
\<close>
theorem polyn_with_roots_correct:
  assumes "seal_arith m" and "mo_is_prime m" and "\<forall>r \<in> set roots. r < mo_value m" and "x < mo_value m"
  shows "\<exists>cs. polyn_with_roots m roots = Inr cs \<and> length cs = length roots + 1 \<and> last cs = 1 \<and>
    (\<forall>c \<in> set cs. c < mo_value m) \<and> (polyn_eval (mo_value m) cs x = 0 \<longleftrightarrow> x \<in> set roots)"
  using assms by (rule polyn_with_roots_spec)

theorem polyn_with_roots_correct_witness:
  "\<exists>cs. polyn_with_roots (std_ops 17) [3, 5, 3] = Inr cs \<and> length cs = length [3, 5, 3 :: nat] + 1 \<and> last cs = 1 \<and>
    (\<forall>c \<in> set cs. c < mo_value (std_ops 17)) \<and>
    (polyn_eval (mo_value (std_ops 17)) cs 5 = 0 \<longleftrightarrow> 5 \<in> set [3, 5, 3 :: nat])"
  by (rule polyn_with_roots_correct)
    (simp_all add: std_ops_seal, simp_all add: std_ops_def is_prime_17)

lemma repeated_points:
  assumes "seal_arith m" "reduced m points"
  shows "(\<exists>k l. 1 \<le> l \<and> k + l < length points \<and> mo_sub m (points ! (k + l)) (points ! k) = 0) \<longleftrightarrow> \<not> distinct points"
proof
  assume "\<exists>k l. 1 \<le> l \<and> k + l < length points \<and> mo_sub m (points ! (k + l)) (points ! k) = 0"
  then obtain k l where kl: "1 \<le> l" "k + l < length points" "mo_sub m (points ! (k + l)) (points ! k) = 0" by blast
  then have "points ! (k + l) = points ! k"
    using seal_sub_zero [OF assms(1)] reduced_nth [OF assms(2)] by simp
  moreover have "k + l \<noteq> k" "k < length points" using kl by simp_all
  ultimately show "\<not> distinct points" using kl(2) nth_eq_iff_index_eq by blast
next
  assume "\<not> distinct points"
  then obtain i j where ij: "i < j" "j < length points" "points ! i = points ! j"
    unfolding distinct_conv_nth by (metis linorder_neqE_nat)
  then have "mo_sub m (points ! (i + (j - i))) (points ! i) = 0"
    using seal_sub_zero [OF assms(1)] reduced_nth [OF assms(2)] by simp
  then show "\<exists>k l. 1 \<le> l \<and> k + l < length points \<and> mo_sub m (points ! (k + l)) (points ! k) = 0"
    using ij by (intro exI [of _ i] exI [of _ "j - i"]) simp
qed

lemma replicate_eval: "polyn_eval p (replicate n 0) x = 0"
  by (induction n) simp_all

lemma newton_interpolate_spec:
  assumes "seal_arith m" and "mo_is_prime m" and "length vals = length points"
    and "\<forall>x \<in> set points. x < mo_value m" and "\<forall>v \<in> set vals. v < mo_value m"
  shows "case newton_interpolate_polyn m points vals of
      Inl e \<Rightarrow> \<not> distinct points \<and> (\<exists>v \<in> set vals. v \<noteq> 0) \<and>
        e = Logic_error ''tried to interpolate at repeated points''
    | Inr cs \<Rightarrow> (distinct points \<or> (\<forall>v \<in> set vals. v = 0)) \<and> length cs = max (length points) 1 \<and>
        (\<forall>c \<in> set cs. c < mo_value m) \<and>
        (\<forall>i < length points. polyn_eval (mo_value m) cs (points ! i) = vals ! i)"
proof -
  let ?p = "mo_value m" and ?n = "length points"
  have p: "0 < ?p" using assms(1) by (simp add: seal_arith_def)
  have red: "reduced m points" "reduced m vals" using assms(4,5) by (simp_all add: reduced_def)
  show ?thesis
  proof (cases "\<forall>v \<in> set vals. v = 0")
    case True
    then show ?thesis using assms(2,3) p by (simp add: newton_interpolate_polyn_def replicate_eval)
  next
    case nz: False
    then have n: "0 < ?n" using assms(3) by auto
    have rows: "map (\<lambda>v. [v]) vals = dd_rows m points vals 1 0"
      using assms(3) by (intro nth_equalityI) (simp_all add: dd_rows_def)
    have cols: "if \<not> distinct points
      then dd_columns m points 1 (?n - 1) (map (\<lambda>v. [v]) vals) = Inl (Logic_error ''tried to interpolate at repeated points'')
      else dd_columns m points 1 (?n - 1) (map (\<lambda>v. [v]) vals) = Inr (dd_rows m points vals ?n 0)"
      unfolding rows repeated_points [OF assms(1) red(1), symmetric]
      using n by (intro dd_columns_correct) simp_all
    show ?thesis
    proof (cases "distinct points")
      case False
      then show ?thesis using cols nz assms(2,3) by (auto simp: newton_interpolate_polyn_def Let_def)
    next
      case True
      let ?row = "map (dd_value m points vals 0) [0..<?n]"
      let ?h = "newton_horner m points ?row (?n - 1) [0]"
      let ?cs = "?h[0 := mo_add m (?h ! 0) (?row ! 0)]"
      have "dd_rows m points vals ?n 0 ! 0 = ?row" using n by (simp add: dd_rows_def)
      then have res: "newton_interpolate_polyn m points vals = Inr ?cs"
        using True cols nz assms(2,3) by (auto simp: newton_interpolate_polyn_def Let_def simp del: dd_value.simps)
      have row: "?row ! k = dd_value m points vals 0 k \<and> ?row ! k < ?p" if "k \<le> ?n - 1" for k
      proof -
        have "k < ?n" using that n by linarith
        then show ?thesis using dd_value_reduced [OF assms(1) red assms(3), of 0 k] by simp
      qed
      have h: "ieval ?h x mod int ?p = (newton m points vals 0 (?n - 1) x - int (vals ! 0)) mod int ?p"
        "reduced m ?h" for x
      proof -
        have "ieval ?h x mod int ?p =
            (newton m points vals 0 (?n - 1) x - int (vals ! 0) + ieval [0] x * omega points 0 (?n - 1) x) mod int ?p \<and>
            reduced m ?h"
        proof (rule newton_horner_correct [OF assms(1) red(1)])
          show "?row ! k = dd_value m points vals 0 k \<and> ?row ! k < ?p" if "k \<le> ?n - 1" for k
            using that by (rule row)
        qed (use p in simp_all)
        then show "ieval ?h x mod int ?p = (newton m points vals 0 (?n - 1) x - int (vals ! 0)) mod int ?p" "reduced m ?h"
          by simp_all
      qed
      have hl: "length ?h = ?n" using n by (simp add: newton_horner_length)
      then have hn: "?h \<noteq> []" using n by auto
      have r0: "?row ! 0 < ?p" "?row ! 0 = vals ! 0" using row [of 0] by simp_all
      note cs = add_constant [OF assms(1) h(2) hn r0(1)]
      have "polyn_eval ?p ?cs (points ! i) = vals ! i" if i: "i < ?n" for i
      proof -
        let ?x = "int (points ! i)"
        have "int (polyn_eval ?p ?cs (points ! i)) = (ieval ?h ?x + int (vals ! 0)) mod int ?p"
          unfolding polyn_eval_ieval [OF p] cs(1) by (simp only: r0(2))
        also have "\<dots> = (newton m points vals 0 (?n - 1) ?x - int (vals ! 0) + int (vals ! 0)) mod int ?p"
          using h(1) [of ?x] by (rule mod_add_cong) simp
        also have "\<dots> = newton m points vals 0 (?n - 1) ?x mod int ?p" by simp
        also have "\<dots> = int (vals ! i) mod int ?p"
          using newton_interpolates [OF assms(1,2) red assms(3), of 0 "?n - 1" i] True i
          by (simp add: mod_eq_dvd_iff)
        also have "\<dots> = int (vals ! i)" using red(2) i assms(3) by (simp add: reduced_nth)
        finally show ?thesis by simp
      qed
      moreover have "max ?n 1 = ?n" using n by linarith
      then have "length ?cs = max ?n 1" using hl by (simp only: length_list_update)
      ultimately show ?thesis using True cs(2) unfolding res by (simp add: reduced_def)
    qed
  qed
qed

text \<open>
  C38. Newton interpolation: for reduced points and values and a prime modulus, the routine throws
  exactly when a point is repeated and some value is not zero, and otherwise returns the
  coefficients of a polynomial that takes every value at its point, with as many coefficients as
  there are points (one if there are none).
\<close>
theorem newton_interpolate_correct:
  assumes "seal_arith m" and "mo_is_prime m" and "length vals = length points"
    and "\<forall>x \<in> set points. x < mo_value m" and "\<forall>v \<in> set vals. v < mo_value m"
  shows "case newton_interpolate_polyn m points vals of
      Inl e \<Rightarrow> \<not> distinct points \<and> (\<exists>v \<in> set vals. v \<noteq> 0) \<and>
        e = Logic_error ''tried to interpolate at repeated points''
    | Inr cs \<Rightarrow> (distinct points \<or> (\<forall>v \<in> set vals. v = 0)) \<and> length cs = max (length points) 1 \<and>
        (\<forall>c \<in> set cs. c < mo_value m) \<and>
        (\<forall>i < length points. polyn_eval (mo_value m) cs (points ! i) = vals ! i)"
  using assms by (rule newton_interpolate_spec)

theorem newton_interpolate_correct_witness:
  "case newton_interpolate_polyn (std_ops 17) [2, 5, 11] [7, 0, 16] of
      Inl e \<Rightarrow> \<not> distinct [2, 5, 11 :: nat] \<and> (\<exists>v \<in> set [7, 0, 16 :: nat]. v \<noteq> 0) \<and>
        e = Logic_error ''tried to interpolate at repeated points''
    | Inr cs \<Rightarrow> (distinct [2, 5, 11 :: nat] \<or> (\<forall>v \<in> set [7, 0, 16 :: nat]. v = 0)) \<and>
        length cs = max (length [2, 5, 11 :: nat]) 1 \<and> (\<forall>c \<in> set cs. c < mo_value (std_ops 17)) \<and>
        (\<forall>i < length [2, 5, 11 :: nat]. polyn_eval (mo_value (std_ops 17)) cs ([2, 5, 11] ! i) = [7, 0, 16] ! i)"
  by (rule newton_interpolate_correct)
    (simp_all add: std_ops_seal, simp_all add: std_ops_def is_prime_17)

end
