(* ===== verification/Seal.thy ===== *)
theory Seal
  imports ModArith
begin

text \<open>
  The part of the homomorphic encryption library SEAL that the sources call. SEAL is not part of
  the repository: its operations are a parameter of the model, the record \<open>seal\<close>, and what the code
  relies on is the predicate \<open>seal_laws\<close> (in the theory that evaluates ciphertexts). Plaintexts and
  ciphertexts are of abstract types. A \<open>parms_id\<close> stands for its position in the modulus switching
  chain, so it is the chain index; the chain ends at index 0 and the first data level has the
  highest index. Every operation that SEAL lets throw returns a result.
\<close>

record ('p, 'c) seal =
  se_mod :: mod_ops
  se_first_chain_index :: nat
  se_using_keyswitching :: bool
  se_last_coeff_moduli_bits :: "nat list"
  se_plain_modulus_bits :: nat
  se_poly_modulus_degree :: nat
  se_encode :: "nat list \<Rightarrow> 'p res"
  se_transform_plain_to_ntt :: "'p \<Rightarrow> nat \<Rightarrow> 'p res"
  se_fresh_ciphertext :: 'c
  se_zero_ciphertext :: "nat \<Rightarrow> nat \<Rightarrow> bool \<Rightarrow> 'c"
  se_parms_id :: "'c \<Rightarrow> nat"
  se_multiply_plain :: "'c \<Rightarrow> 'p \<Rightarrow> 'c res"
  se_add :: "'c \<Rightarrow> 'c \<Rightarrow> 'c res"
  se_add_plain :: "'c \<Rightarrow> 'p \<Rightarrow> 'c res"
  se_multiply :: "'c \<Rightarrow> 'c \<Rightarrow> 'c res"
  se_square :: "'c \<Rightarrow> 'c res"
  se_relinearize :: "'c \<Rightarrow> 'c res"
  se_to_ntt :: "'c \<Rightarrow> 'c res"
  se_from_ntt :: "'c \<Rightarrow> 'c res"
  se_mod_switch_to :: "'c \<Rightarrow> nat \<Rightarrow> 'c res"
  se_mod_switch_to_next :: "'c \<Rightarrow> 'c res"
  se_and_coeffs :: "u64 \<Rightarrow> 'c \<Rightarrow> 'c"

text \<open>
  \<open>get_parms_id_for_chain_idx\<close> of \<open>common/apsi/util/utils.cpp\<close>: walk down the chain from the first
  data level while the chain index is too large.
\<close>

fun parms_id_walk :: "nat \<Rightarrow> nat \<Rightarrow> nat" where
  "parms_id_walk chain_idx 0 = 0"
| "parms_id_walk chain_idx (Suc i) = (if Suc i > chain_idx then parms_id_walk chain_idx i else Suc i)"

definition get_parms_id_for_chain_idx :: "('p, 'c) seal \<Rightarrow> nat \<Rightarrow> nat" where
  "get_parms_id_for_chain_idx se chain_idx = parms_id_walk chain_idx (se_first_chain_index se)"

lemma parms_id_walk_min: "parms_id_walk chain_idx i = min chain_idx i"
  by (induction i) auto

lemma get_parms_id_for_chain_idx_min:
  "get_parms_id_for_chain_idx se chain_idx = min chain_idx (se_first_chain_index se)"
  by (simp add: get_parms_id_for_chain_idx_def parms_id_walk_min)

end
