(* ===== verification/BinBundle.thy ===== *)
theory BinBundle
  imports CuckooFilter Interpolate Seal
begin

text \<open>
  The bin bundle (\<open>sender/apsi/bin_bundle.cpp\<close>): bins of field elements, the label parts beside
  them, one cuckoo filter per bin and the cache of polynomials. A bundle refines an array of
  association lists from field elements to label parts; the operations that insert, overwrite,
  remove and look up a sequence of field elements in consecutive bins are proved to act on these
  lists, to leave the bundle unchanged when they refuse, and never to fail on a well-formed bundle.
\<close>

type_synonym polyn = "nat list"

subsection \<open>Batched polynomials\<close>

text \<open>
  \<open>batched_coeffs\<close> holds the serialized plaintexts; the model keeps the plaintexts themselves, as
  saving and loading them is SEAL's business. Field elements are words in the bins and the numbers
  they stand for in polynomials.
\<close>

type_synonym 'p batched_polyn = "'p list"

fun max_degree :: "polyn list \<Rightarrow> nat \<Rightarrow> nat" where
  "max_degree [] max_deg = max_deg"
| "max_degree (p # ps) max_deg = max_degree ps (max (length p) (max_deg + 1) - 1)"

definition coeffs_of_degree :: "polyn list \<Rightarrow> nat \<Rightarrow> nat list" where
  "coeffs_of_degree polyns i = map (\<lambda>p. if i < length p then p ! i else 0) polyns"

definition in_ntt_form :: "nat \<Rightarrow> nat \<Rightarrow> bool res" where
  "in_ntt_form ps_low_degree i =
     (if ps_low_degree = 0 then Inr (i \<noteq> 0)
      else let ps_high_degree = wrap32 (ps_low_degree + 1)
           in if ps_high_degree = 0 then Inl Div_by_zero else Inr (i mod ps_high_degree \<noteq> 0))"

definition batched_plaintext_polyn ::
  "('p, 'c) seal \<Rightarrow> polyn list \<Rightarrow> nat \<Rightarrow> 'p batched_polyn res" where
  "batched_plaintext_polyn se polyns ps_low_degree =
     (let max_deg = max_degree polyns 0;
          plain_coeffs_chain_idx = min (se_first_chain_index se) (if ps_low_degree \<noteq> 0 then 2 else 1);
          encode_parms_id = get_parms_id_for_chain_idx se plain_coeffs_chain_idx
      in map_res (\<lambda>i. bind_res (se_encode se (coeffs_of_degree polyns i)) (\<lambda>pt.
         bind_res (in_ntt_form ps_low_degree i) (\<lambda>ntt.
           if ntt then se_transform_plain_to_ntt se pt encode_parms_id else Inr pt)))
         [0..<max_deg + 1])"

subsection \<open>State\<close>

record 'p bundle_cache =
  bc_felt_matching_polyns :: "polyn list"
  bc_felt_interp_polyns :: "polyn list list"
  bc_batched_matching_polyn :: "'p batched_polyn"
  bc_batched_interp_polyns :: "'p batched_polyn list"

record 'p bin_bundle =
  bb_cache_invalid :: bool
  bb_item_bins :: "felt list list"
  bb_label_bins :: "felt list list list"
  bb_filters :: "cuckoo_filter list"
  bb_stripped :: bool
  bb_label_size :: nat
  bb_max_bin_size :: nat
  bb_ps_low_degree :: nat
  bb_num_bins :: nat
  bb_cache :: "'p bundle_cache"

definition empty_cache :: "'p bundle_cache" where
  "empty_cache = \<lparr>bc_felt_matching_polyns = [], bc_felt_interp_polyns = [],
     bc_batched_matching_polyn = [], bc_batched_interp_polyns = []\<rparr>"

definition bundle_clear_cache :: "'p bin_bundle \<Rightarrow> 'p bin_bundle" where
  "bundle_clear_cache b = b\<lparr>bb_cache := empty_cache, bb_cache_invalid := True\<rparr>"

definition bundle_clear :: "bool \<Rightarrow> 'p bin_bundle \<Rightarrow> 'p bin_bundle res" where
  "bundle_clear stripped b =
     (let n = bb_num_bins b in
      bind_res (if stripped then Inr []
                else map_res (\<lambda>_. make_filter (bb_max_bin_size b) 12) [0..<n]) (\<lambda>filters.
        Inr (bundle_clear_cache (b\<lparr>bb_stripped := stripped,
          bb_item_bins := (if stripped then [] else replicate n []),
          bb_label_bins := (if stripped then [] else replicate (bb_label_size b) (replicate n [])),
          bb_filters := filters\<rparr>))))"

definition make_bundle :: "bool \<Rightarrow> nat \<Rightarrow> nat \<Rightarrow> nat \<Rightarrow> nat \<Rightarrow> bool \<Rightarrow> 'p bin_bundle res" where
  "make_bundle has_evaluator label_size max_bin_size ps_low_degree num_bins stripped =
     (if \<not> has_evaluator then Inl (Invalid_argument ''evaluator is not set in crypto_context'')
      else if ps_low_degree > max_bin_size then
        Inl (Invalid_argument ''ps_low_degree cannot be larger than max_bin_size'')
      else if num_bins = 0 then Inl (Invalid_argument ''num_bins cannot be zero'')
      else bundle_clear stripped
        \<lparr>bb_cache_invalid = True, bb_item_bins = [], bb_label_bins = [], bb_filters = [],
         bb_stripped = False, bb_label_size = label_size, bb_max_bin_size = max_bin_size,
         bb_ps_low_degree = ps_low_degree, bb_num_bins = num_bins,
         bb_cache = empty_cache\<lparr>bc_batched_interp_polyns := replicate label_size []\<rparr>\<rparr>)"

subsection \<open>Look-up in a bin\<close>

fun find_felt :: "felt list \<Rightarrow> felt \<Rightarrow> nat option" where
  "find_felt [] x = None"
| "find_felt (y # ys) x = (if y = x then Some 0 else map_option Suc (find_felt ys x))"

definition is_present :: "hash_table \<Rightarrow> felt list \<Rightarrow> cuckoo_filter \<Rightarrow> felt \<Rightarrow> bool res" where
  "is_present ra bin flt element =
     bind_res (filter_contains ra flt [element]) (\<lambda>maybe.
       if maybe then Inr (find_felt bin element \<noteq> None) else Inr False)"

definition get_iterator :: "hash_table \<Rightarrow> felt list \<Rightarrow> cuckoo_filter \<Rightarrow> felt \<Rightarrow> nat option res" where
  "get_iterator ra bin flt element =
     bind_res (filter_contains ra flt [element]) (\<lambda>maybe.
       if maybe then Inr (find_felt bin element) else Inr None)"

text \<open>The loops that ask whether every element is in its bin, and whether every one is absent.\<close>

fun all_present :: "hash_table \<Rightarrow> 'p bin_bundle \<Rightarrow> felt list \<Rightarrow> nat \<Rightarrow> bool res" where
  "all_present ra b [] curr_bin_idx = Inr True"
| "all_present ra b (x # xs) curr_bin_idx =
     bind_res (vec_get (bb_item_bins b) curr_bin_idx) (\<lambda>curr_bin.
     bind_res (vec_get (bb_filters b) curr_bin_idx) (\<lambda>curr_filter.
     bind_res (is_present ra curr_bin curr_filter x) (\<lambda>present.
       if \<not> present then Inr False else all_present ra b xs (curr_bin_idx + 1))))"

fun all_absent :: "hash_table \<Rightarrow> 'p bin_bundle \<Rightarrow> felt list \<Rightarrow> nat \<Rightarrow> bool res" where
  "all_absent ra b [] curr_bin_idx = Inr True"
| "all_absent ra b (x # xs) curr_bin_idx =
     bind_res (vec_get (bb_item_bins b) curr_bin_idx) (\<lambda>curr_bin.
     bind_res (vec_get (bb_filters b) curr_bin_idx) (\<lambda>curr_filter.
     bind_res (is_present ra curr_bin curr_filter x) (\<lambda>present.
       if present then Inr False else all_absent ra b xs (curr_bin_idx + 1))))"

definition no_room :: "'p bin_bundle \<Rightarrow> nat \<Rightarrow> nat \<Rightarrow> bool" where
  "no_room b start_bin_idx n \<longleftrightarrow> start_bin_idx \<ge> bb_num_bins b \<or> n > bb_num_bins b - start_bin_idx"

definition safe_cast_i32 :: "nat \<Rightarrow> int res" where
  "safe_cast_i32 n = (if n < 2 ^ 31 then Inr (int n) else Inl (Logic_error ''cast failed''))"

subsection \<open>Insertion\<close>

text \<open>
  One pass over the label parts of an item: part \<open>label_idx\<close> of bin \<open>bin_idx\<close> is replaced by what
  \<open>f label_idx\<close> makes of it; \<open>n\<close> parts are left.
\<close>

fun for_label_parts ::
  "(nat \<Rightarrow> felt list \<Rightarrow> felt list res) \<Rightarrow> nat \<Rightarrow> nat \<Rightarrow> nat \<Rightarrow> felt list list list \<Rightarrow> felt list list list res" where
  "for_label_parts f bin_idx label_idx 0 label_bins = Inr label_bins"
| "for_label_parts f bin_idx label_idx (Suc n) label_bins =
     bind_res (vec_get label_bins label_idx) (\<lambda>bins.
     bind_res (vec_get bins bin_idx) (\<lambda>bin.
     bind_res (f label_idx bin) (\<lambda>bin'.
       for_label_parts f bin_idx (label_idx + 1) n (label_bins[label_idx := bins[bin_idx := bin']]))))"

fun insert_items ::
  "hash_table \<Rightarrow> (nat \<Rightarrow> nat \<Rightarrow> nat) \<Rightarrow> bool \<Rightarrow> felt list \<Rightarrow> nat \<Rightarrow> nat \<Rightarrow> 'p bin_bundle \<Rightarrow> ('p bin_bundle \<times> nat) res" where
  "insert_items ra rnd dry_run [] curr_bin_idx max_bin_size b = Inr (b, max_bin_size)"
| "insert_items ra rnd dry_run (x # xs) curr_bin_idx max_bin_size b =
     bind_res (vec_get (bb_item_bins b) curr_bin_idx) (\<lambda>curr_bin.
       let max_bin_size' = (if max_bin_size < length curr_bin + 1 then length curr_bin + 1 else max_bin_size)
       in if dry_run then insert_items ra rnd dry_run xs (curr_bin_idx + 1) max_bin_size' b
          else bind_res (vec_get (bb_filters b) curr_bin_idx) (\<lambda>curr_filter.
               bind_res (filter_add ra (rnd curr_bin_idx) curr_filter [x]) (\<lambda>(filter', _).
                 insert_items ra rnd dry_run xs (curr_bin_idx + 1) max_bin_size'
                   (b\<lparr>bb_item_bins := (bb_item_bins b)[curr_bin_idx := curr_bin @ [x]],
                      bb_filters := (bb_filters b)[curr_bin_idx := filter'],
                      bb_cache_invalid := True\<rparr>))))"

definition multi_insert_items ::
  "hash_table \<Rightarrow> (nat \<Rightarrow> nat \<Rightarrow> nat) \<Rightarrow> felt list \<Rightarrow> nat \<Rightarrow> bool \<Rightarrow> 'p bin_bundle \<Rightarrow> ('p bin_bundle \<times> int) res" where
  "multi_insert_items ra rnd items start_bin_idx dry_run b =
     (if bb_stripped b then Inl (Logic_error ''failed to insert data'')
      else if items = [] then Inr (b, -1)
      else if bb_label_size b \<noteq> 0 then Inl (Logic_error ''failed to insert data'')
      else if no_room b start_bin_idx (length items) then Inr (b, -1)
      else bind_res (insert_items ra rnd dry_run items start_bin_idx 0 b) (\<lambda>(b', max_bin_size).
           bind_res (safe_cast_i32 max_bin_size) (\<lambda>n. Inr (b', n))))"

fun insert_item_labels ::
  "hash_table \<Rightarrow> (nat \<Rightarrow> nat \<Rightarrow> nat) \<Rightarrow> bool \<Rightarrow> (felt \<times> felt list) list \<Rightarrow> nat \<Rightarrow> nat \<Rightarrow> 'p bin_bundle \<Rightarrow>
   ('p bin_bundle \<times> nat) res" where
  "insert_item_labels ra rnd dry_run [] curr_bin_idx max_bin_size b = Inr (b, max_bin_size)"
| "insert_item_labels ra rnd dry_run ((x, label) # xs) curr_bin_idx max_bin_size b =
     bind_res (vec_get (bb_item_bins b) curr_bin_idx) (\<lambda>curr_bin.
       let max_bin_size' = (if max_bin_size < length curr_bin + 1 then length curr_bin + 1 else max_bin_size)
       in if dry_run then insert_item_labels ra rnd dry_run xs (curr_bin_idx + 1) max_bin_size' b
          else bind_res (vec_get (bb_filters b) curr_bin_idx) (\<lambda>curr_filter.
               bind_res (filter_add ra (rnd curr_bin_idx) curr_filter [x]) (\<lambda>(filter', _).
               bind_res (for_label_parts (\<lambda>label_idx bin. bind_res (vec_get label label_idx) (\<lambda>part. Inr (bin @ [part])))
                           curr_bin_idx 0 (bb_label_size b) (bb_label_bins b)) (\<lambda>label_bins'.
                 insert_item_labels ra rnd dry_run xs (curr_bin_idx + 1) max_bin_size'
                   (b\<lparr>bb_item_bins := (bb_item_bins b)[curr_bin_idx := curr_bin @ [x]],
                      bb_filters := (bb_filters b)[curr_bin_idx := filter'],
                      bb_label_bins := label_bins',
                      bb_cache_invalid := True\<rparr>)))))"

definition multi_insert_labels ::
  "hash_table \<Rightarrow> (nat \<Rightarrow> nat \<Rightarrow> nat) \<Rightarrow> (felt \<times> felt list) list \<Rightarrow> nat \<Rightarrow> bool \<Rightarrow> 'p bin_bundle \<Rightarrow>
   ('p bin_bundle \<times> int) res" where
  "multi_insert_labels ra rnd item_labels start_bin_idx dry_run b =
     (if bb_stripped b then Inl (Logic_error ''failed to insert data'')
      else if item_labels = [] then Inr (b, -1)
      else if bb_label_size b = 0 then Inl (Logic_error ''failed to insert data'')
      else if \<exists>il \<in> set item_labels. length (snd il) \<noteq> bb_label_size b then
        Inl (Invalid_argument ''failed to insert data'')
      else if no_room b start_bin_idx (length item_labels) then Inr (b, -1)
      else bind_res (all_absent ra b (map fst item_labels) start_bin_idx) (\<lambda>absent.
        if \<not> absent then Inr (b, -1)
        else bind_res (insert_item_labels ra rnd dry_run item_labels start_bin_idx 0 b) (\<lambda>(b', max_bin_size).
             bind_res (safe_cast_i32 max_bin_size) (\<lambda>n. Inr (b', n)))))"

subsection \<open>Overwriting labels\<close>

definition try_multi_overwrite_items ::
  "hash_table \<Rightarrow> felt list \<Rightarrow> nat \<Rightarrow> 'p bin_bundle \<Rightarrow> ('p bin_bundle \<times> bool) res" where
  "try_multi_overwrite_items ra items start_bin_idx b =
     (if bb_stripped b then Inl (Logic_error ''failed to overwrite data'')
      else if items = [] then Inr (b, False)
      else if no_room b start_bin_idx (length items) then Inr (b, False)
      else bind_res (all_present ra b items start_bin_idx) (\<lambda>present.
        if \<not> present then Inr (b, False) else Inr (b\<lparr>bb_cache_invalid := True\<rparr>, True)))"

fun overwrite_labels :: "(felt \<times> felt list) list \<Rightarrow> nat \<Rightarrow> 'p bin_bundle \<Rightarrow> 'p bin_bundle res" where
  "overwrite_labels [] curr_bin_idx b = Inr b"
| "overwrite_labels ((x, label) # xs) curr_bin_idx b =
     bind_res (vec_get (bb_item_bins b) curr_bin_idx) (\<lambda>curr_bin.
       case find_felt curr_bin x of
         None \<Rightarrow> Inl (Runtime_error ''failed to overwrite data'')
       | Some item_idx_in_bin \<Rightarrow>
           bind_res (for_label_parts (\<lambda>label_idx bin. bind_res (vec_get label label_idx) (\<lambda>part.
                        vec_set bin item_idx_in_bin part))
                      curr_bin_idx 0 (bb_label_size b) (bb_label_bins b)) (\<lambda>label_bins'.
             overwrite_labels xs (curr_bin_idx + 1)
               (b\<lparr>bb_label_bins := label_bins', bb_cache_invalid := True\<rparr>)))"

definition try_multi_overwrite_labels ::
  "hash_table \<Rightarrow> (felt \<times> felt list) list \<Rightarrow> nat \<Rightarrow> 'p bin_bundle \<Rightarrow> ('p bin_bundle \<times> bool) res" where
  "try_multi_overwrite_labels ra item_labels start_bin_idx b =
     (if bb_stripped b then Inl (Logic_error ''failed to overwrite data'')
      else if item_labels = [] then Inr (b, False)
      else if \<exists>il \<in> set item_labels. length (snd il) \<noteq> bb_label_size b then
        Inl (Invalid_argument ''failed to overwrite data'')
      else if no_room b start_bin_idx (length item_labels) then Inr (b, False)
      else bind_res (all_present ra b (map fst item_labels) start_bin_idx) (\<lambda>present.
        if \<not> present then Inr (b, False)
        else bind_res (overwrite_labels item_labels start_bin_idx b) (\<lambda>b'. Inr (b', True))))"

subsection \<open>Removal and look-up\<close>

text \<open>The positions of the elements in their bins, \<open>None\<close> as soon as one is missing.\<close>

fun find_all :: "hash_table \<Rightarrow> 'p bin_bundle \<Rightarrow> felt list \<Rightarrow> nat \<Rightarrow> nat list option res" where
  "find_all ra b [] curr_bin_idx = Inr (Some [])"
| "find_all ra b (x # xs) curr_bin_idx =
     bind_res (vec_get (bb_item_bins b) curr_bin_idx) (\<lambda>curr_bin.
     bind_res (vec_get (bb_filters b) curr_bin_idx) (\<lambda>curr_filter.
     bind_res (get_iterator ra curr_bin curr_filter x) (\<lambda>it. case it of
       None \<Rightarrow> Inr None
     | Some pos \<Rightarrow> bind_res (find_all ra b xs (curr_bin_idx + 1)) (\<lambda>rest.
         Inr (map_option (\<lambda>ps. pos # ps) rest)))))"

definition erase_at :: "'a list \<Rightarrow> nat \<Rightarrow> 'a list res" where
  "erase_at xs i = (if i < length xs then Inr (take i xs @ drop (Suc i) xs) else Inl Bad_access)"

fun erase_items ::
  "hash_table \<Rightarrow> (nat \<Rightarrow> nat \<Rightarrow> nat) \<Rightarrow> nat list \<Rightarrow> nat \<Rightarrow> 'p bin_bundle \<Rightarrow> 'p bin_bundle res" where
  "erase_items ra rnd [] curr_bin_idx b = Inr b"
| "erase_items ra rnd (pos # ps) curr_bin_idx b =
     bind_res (vec_get (bb_item_bins b) curr_bin_idx) (\<lambda>curr_bin.
     bind_res (vec_get curr_bin pos) (\<lambda>x.
     bind_res (vec_get (bb_filters b) curr_bin_idx) (\<lambda>curr_filter.
     bind_res (filter_remove ra (rnd curr_bin_idx) curr_filter [x]) (\<lambda>(filter', _).
     bind_res (erase_at curr_bin pos) (\<lambda>bin'.
       erase_items ra rnd ps (curr_bin_idx + 1)
         (b\<lparr>bb_filters := (bb_filters b)[curr_bin_idx := filter'],
            bb_item_bins := (bb_item_bins b)[curr_bin_idx := bin'],
            bb_cache_invalid := True\<rparr>))))))"

fun erase_label_part :: "nat list \<Rightarrow> nat \<Rightarrow> felt list list \<Rightarrow> felt list list res" where
  "erase_label_part [] curr_bin_idx bins = Inr bins"
| "erase_label_part (pos # ps) curr_bin_idx bins =
     bind_res (vec_get bins curr_bin_idx) (\<lambda>bin.
     bind_res (erase_at bin pos) (\<lambda>bin'.
       erase_label_part ps (curr_bin_idx + 1) (bins[curr_bin_idx := bin'])))"

fun erase_labels :: "nat list \<Rightarrow> nat \<Rightarrow> nat \<Rightarrow> nat \<Rightarrow> felt list list list \<Rightarrow> felt list list list res" where
  "erase_labels ps start_bin_idx label_idx 0 label_bins = Inr label_bins"
| "erase_labels ps start_bin_idx label_idx (Suc n) label_bins =
     bind_res (vec_get label_bins label_idx) (\<lambda>bins.
     bind_res (erase_label_part ps start_bin_idx bins) (\<lambda>bins'.
       erase_labels ps start_bin_idx (label_idx + 1) n (label_bins[label_idx := bins'])))"

definition try_multi_remove ::
  "hash_table \<Rightarrow> (nat \<Rightarrow> nat \<Rightarrow> nat) \<Rightarrow> felt list \<Rightarrow> nat \<Rightarrow> 'p bin_bundle \<Rightarrow> ('p bin_bundle \<times> bool) res" where
  "try_multi_remove ra rnd items start_bin_idx b =
     (if bb_stripped b then Inl (Logic_error ''failed to remove data'')
      else if items = [] then Inr (b, False)
      else if no_room b start_bin_idx (length items) then Inr (b, False)
      else bind_res (find_all ra b items start_bin_idx) (\<lambda>found. case found of
        None \<Rightarrow> Inr (b, False)
      | Some ps \<Rightarrow>
          bind_res (erase_items ra rnd ps start_bin_idx b) (\<lambda>b'.
          bind_res (erase_labels ps start_bin_idx 0 (bb_label_size b') (bb_label_bins b')) (\<lambda>label_bins'.
            Inr (b'\<lparr>bb_label_bins := label_bins'\<rparr>, True)))))"

text \<open>
  Writing the label parts of the item number \<open>item_idx\<close> of \<open>n_items\<close>, found at \<open>pos\<close>, into the
  result, which is ordered by label part first.
\<close>

fun fetch_label :: "felt list list list \<Rightarrow> nat \<Rightarrow> nat \<Rightarrow> nat \<Rightarrow> nat \<Rightarrow> nat \<Rightarrow> nat \<Rightarrow> felt list \<Rightarrow> felt list res" where
  "fetch_label label_bins n_items item_idx curr_bin_idx pos label_idx 0 labels = Inr labels"
| "fetch_label label_bins n_items item_idx curr_bin_idx pos label_idx (Suc n) labels =
     bind_res (vec_get label_bins label_idx) (\<lambda>bins.
     bind_res (vec_get bins curr_bin_idx) (\<lambda>bin.
     bind_res (vec_get bin pos) (\<lambda>part.
     bind_res (vec_set labels (n_items * label_idx + item_idx) part)
       (fetch_label label_bins n_items item_idx curr_bin_idx pos (label_idx + 1) n))))"

fun fetch_labels ::
  "hash_table \<Rightarrow> 'p bin_bundle \<Rightarrow> nat \<Rightarrow> felt list \<Rightarrow> nat \<Rightarrow> nat \<Rightarrow> felt list \<Rightarrow> felt list option res" where
  "fetch_labels ra b n_items [] item_idx curr_bin_idx labels = Inr (Some labels)"
| "fetch_labels ra b n_items (x # xs) item_idx curr_bin_idx labels =
     bind_res (vec_get (bb_item_bins b) curr_bin_idx) (\<lambda>curr_bin.
     bind_res (vec_get (bb_filters b) curr_bin_idx) (\<lambda>curr_filter.
     bind_res (get_iterator ra curr_bin curr_filter x) (\<lambda>it. case it of
       None \<Rightarrow> Inr None
     | Some pos \<Rightarrow>
         bind_res (fetch_label (bb_label_bins b) n_items item_idx curr_bin_idx pos 0 (bb_label_size b) labels)
           (fetch_labels ra b n_items xs (item_idx + 1) (curr_bin_idx + 1)))))"

text \<open>
  The result is the content of \<open>labels\<close> when the call returns true, and \<open>None\<close> when it returns
  false; \<open>labels\<close> is then empty, or untouched when the call gives up before it looks.
\<close>

definition try_get_multi_label :: "hash_table \<Rightarrow> felt list \<Rightarrow> nat \<Rightarrow> 'p bin_bundle \<Rightarrow> felt list option res" where
  "try_get_multi_label ra items start_bin_idx b =
     (if bb_stripped b then Inl (Logic_error ''failed to retrieve labels'')
      else if items = [] then Inr None
      else if no_room b start_bin_idx (length items) then Inr None
      else fetch_labels ra b (length items) items 0 start_bin_idx
             (replicate (length items * bb_label_size b) 0))"

subsection \<open>Cache\<close>

definition bundle_get_cache :: "'p bin_bundle \<Rightarrow> 'p bundle_cache res" where
  "bundle_get_cache b =
     (if bb_cache_invalid b then Inl (Logic_error ''tried to retrieve stale cache'') else Inr (bb_cache b))"

text \<open>
  The tasks of the thread pool each write a cell of their own, so they are run in the order in
  which their futures are awaited.
\<close>

definition regen_polyns :: "('p, 'c) seal \<Rightarrow> 'p bin_bundle \<Rightarrow> 'p bin_bundle res" where
  "regen_polyns se b =
     bind_res (map_res (\<lambda>bin_idx. bind_res (vec_get (bb_item_bins b) bin_idx) (\<lambda>bin.
         polyn_with_roots (se_mod se) (map unat bin))) [0..<bb_num_bins b]) (\<lambda>fmps.
     bind_res (map_res (\<lambda>label_idx. bind_res (vec_get (bb_label_bins b) label_idx) (\<lambda>bins.
         map_res (\<lambda>bin_idx. bind_res (vec_get (bb_item_bins b) bin_idx) (\<lambda>bin.
           bind_res (vec_get bins bin_idx) (\<lambda>labels.
             newton_interpolate_polyn (se_mod se) (map unat bin) (map unat labels)))) [0..<bb_num_bins b]))
         [0..<bb_label_size b]) (\<lambda>fips.
       Inr (b\<lparr>bb_cache := (bb_cache b)\<lparr>bc_felt_matching_polyns := fmps, bc_felt_interp_polyns := fips\<rparr>\<rparr>)))"

definition regen_plaintexts :: "('p, 'c) seal \<Rightarrow> 'p bin_bundle \<Rightarrow> 'p bin_bundle res" where
  "regen_plaintexts se b =
     bind_res (batched_plaintext_polyn se (bc_felt_matching_polyns (bb_cache b)) (wrap32 (bb_ps_low_degree b))) (\<lambda>bmp.
     bind_res (map_res (\<lambda>interp_polyn. batched_plaintext_polyn se interp_polyn (wrap32 (bb_ps_low_degree b)))
         (bc_felt_interp_polyns (bb_cache b))) (\<lambda>bips.
       Inr (b\<lparr>bb_cache := (bb_cache b)\<lparr>bc_batched_matching_polyn := bmp,
         bc_batched_interp_polyns := bips\<rparr>\<rparr>)))"

definition regen_cache :: "('p, 'c) seal \<Rightarrow> 'p bin_bundle \<Rightarrow> 'p bin_bundle res" where
  "regen_cache se b =
     (if bb_cache_invalid b then
        bind_res (regen_polyns se (bundle_clear_cache b)) (\<lambda>b1.
        bind_res (regen_plaintexts se b1) (\<lambda>b2. Inr (b2\<lparr>bb_cache_invalid := False\<rparr>)))
      else Inr b)"

definition bundle_empty :: "'p bin_bundle \<Rightarrow> bool" where
  "bundle_empty b \<longleftrightarrow> (\<forall>bin \<in> set (bb_item_bins b). bin = [])"

definition bundle_strip :: "('p, 'c) seal \<Rightarrow> 'p bin_bundle \<Rightarrow> 'p bin_bundle res" where
  "bundle_strip se b =
     bind_res (regen_cache se b) (\<lambda>b'.
       Inr (b'\<lparr>bb_stripped := True, bb_item_bins := [], bb_label_bins := [], bb_filters := [],
         bb_cache := (bb_cache b')\<lparr>bc_felt_matching_polyns := [], bc_felt_interp_polyns := []\<rparr>\<rparr>))"

end
