(* ===== verification/BundleRefine.thy ===== *)
theory BundleRefine
  imports BinBundle
begin

text \<open>
  The bin bundle refines an array of association lists. \<open>bin_rows b i\<close> reads bin \<open>i\<close> as a list of
  rows, a field element with its label parts; every operation on field elements in consecutive bins
  acts on the rows of these bins and leaves the others alone.
\<close>

subsection \<open>Rows\<close>

type_synonym row = "felt \<times> felt list"

definition bin_rows :: "'p bin_bundle \<Rightarrow> nat \<Rightarrow> row list" where
  "bin_rows b i = map (\<lambda>p. (bb_item_bins b ! i ! p, map (\<lambda>l. bb_label_bins b ! l ! i ! p) [0..<bb_label_size b]))
     [0..<length (bb_item_bins b ! i)]"

definition bundle_shape :: "'p bin_bundle \<Rightarrow> bool" where
  "bundle_shape b \<longleftrightarrow> \<not> bb_stripped b \<and> length (bb_item_bins b) = bb_num_bins b \<and>
     length (bb_filters b) = bb_num_bins b \<and> length (bb_label_bins b) = bb_label_size b \<and>
     (\<forall>l < bb_label_size b. length (bb_label_bins b ! l) = bb_num_bins b \<and>
        (\<forall>i < bb_num_bins b. length (bb_label_bins b ! l ! i) = length (bb_item_bins b ! i)))"

text \<open>The filter of a bin has one entry for each field element of the bin.\<close>

definition bin_synced :: "hash_table \<Rightarrow> felt list \<Rightarrow> cuckoo_filter \<Rightarrow> bool" where
  "bin_synced ra bin f \<longleftrightarrow> filter_inv ra f \<and> filter_entries ra f = image_mset (\<lambda>x. item_entry ra f [x]) (mset bin)"

definition bundle_wf :: "hash_table \<Rightarrow> 'p bin_bundle \<Rightarrow> bool" where
  "bundle_wf ra b \<longleftrightarrow> bundle_shape b \<and>
     (\<forall>i < bb_num_bins b. bin_synced ra (bb_item_bins b ! i) (bb_filters b ! i)) \<and>
     (bb_label_size b \<noteq> 0 \<longrightarrow> (\<forall>i < bb_num_bins b. distinct (map fst (bin_rows b i))))"

definition same_frame :: "'p bin_bundle \<Rightarrow> 'p bin_bundle \<Rightarrow> bool" where
  "same_frame b b' \<longleftrightarrow> bb_label_size b' = bb_label_size b \<and> bb_num_bins b' = bb_num_bins b \<and>
     bb_max_bin_size b' = bb_max_bin_size b \<and> bb_ps_low_degree b' = bb_ps_low_degree b"

lemma same_frame_refl [simp]: "same_frame b b"
  by (simp add: same_frame_def)

lemma same_frame_trans: "same_frame b b' \<Longrightarrow> same_frame b' b'' \<Longrightarrow> same_frame b b''"
  by (simp add: same_frame_def)

text \<open>The rows determine the bins and are determined by them.\<close>

definition bin_holds :: "'p bin_bundle \<Rightarrow> nat \<Rightarrow> row list \<Rightarrow> bool" where
  "bin_holds b i R \<longleftrightarrow> bb_item_bins b ! i = map fst R \<and>
     (\<forall>l < bb_label_size b. bb_label_bins b ! l ! i = map (\<lambda>r. snd r ! l) R) \<and>
     (\<forall>r \<in> set R. length (snd r) = bb_label_size b)"

lemma bin_holds_rows:
  assumes "bundle_shape b" "i < bb_num_bins b"
  shows "bin_holds b i (bin_rows b i)"
  using assms unfolding bin_holds_def bundle_shape_def bin_rows_def
  by (auto intro!: nth_equalityI)

lemma bin_rows_eqI:
  assumes "bin_holds b i R"
  shows "bin_rows b i = R"
proof (rule nth_equalityI)
  show "length (bin_rows b i) = length R" using assms by (simp add: bin_rows_def bin_holds_def)
  fix p assume "p < length (bin_rows b i)"
  then have p: "p < length R" using assms by (simp add: bin_rows_def bin_holds_def)
  have "map (\<lambda>l. bb_label_bins b ! l ! i ! p) [0..<bb_label_size b] = snd (R ! p)"
    using assms p by (intro nth_equalityI) (auto simp: bin_holds_def)
  then show "bin_rows b i ! p = R ! p"
    using assms p by (simp add: bin_rows_def bin_holds_def)
qed

lemma bin_rows_fst: "map fst (bin_rows b i) = bb_item_bins b ! i"
  by (simp add: bin_rows_def comp_def map_nth)

lemma bin_rows_length [simp]: "length (bin_rows b i) = length (bb_item_bins b ! i)"
  by (simp add: bin_rows_def)

lemma bin_rows_cong:
  assumes "bb_item_bins b' ! i = bb_item_bins b ! i" "bb_label_size b' = bb_label_size b"
    "\<And>l. l < bb_label_size b \<Longrightarrow> bb_label_bins b' ! l ! i = bb_label_bins b ! l ! i"
  shows "bin_rows b' i = bin_rows b i"
  using assms by (simp add: bin_rows_def)

subsection \<open>Look-up\<close>

lemma find_felt_None [simp]: "find_felt bin x = None \<longleftrightarrow> x \<notin> set bin"
  by (induction bin) auto

lemma find_felt_SomeD: "find_felt bin x = Some p \<Longrightarrow> p < length bin \<and> bin ! p = x"
  by (induction bin arbitrary: p) (auto split: if_splits)

lemma find_felt_map_of:
  "map_of R x = map_option (\<lambda>p. snd (R ! p)) (find_felt (map fst R) x)"
  by (induction R) (auto simp: option.map_comp comp_def)

text \<open>Deleting the first row of a key.\<close>

fun remove_key :: "'k \<Rightarrow> ('k \<times> 'v) list \<Rightarrow> ('k \<times> 'v) list" where
  "remove_key x [] = []"
| "remove_key x ((k, v) # r) = (if k = x then r else (k, v) # remove_key x r)"

lemma find_felt_remove_key:
  "find_felt (map fst R) x = Some p \<Longrightarrow> take p R @ drop (Suc p) R = remove_key x R"
  by (induction R arbitrary: p) (auto split: if_splits)

fun set_key :: "'k \<Rightarrow> 'v \<Rightarrow> ('k \<times> 'v) list \<Rightarrow> ('k \<times> 'v) list" where
  "set_key x w [] = []"
| "set_key x w ((k, v) # r) = (if k = x then (k, w) # r else (k, v) # set_key x w r)"

lemma find_felt_set_key:
  "find_felt (map fst R) x = Some p \<Longrightarrow> R[p := (x, w)] = set_key x w R"
  by (induction R arbitrary: p) (auto split: if_splits)

lemma set_key_fst [simp]: "map fst (set_key x w R) = map fst R"
  by (induction x w R rule: set_key.induct) auto

lemma remove_key_fst: "map fst (remove_key x R) = remove1 x (map fst R)"
  by (induction x R rule: remove_key.induct) auto

lemma map_of_set_key: "map_of (set_key x w R) = (if x \<in> fst ` set R then (map_of R)(x \<mapsto> w) else map_of R)"
  by (induction x w R rule: set_key.induct) auto

lemma map_of_remove_key: "distinct (map fst R) \<Longrightarrow> map_of (remove_key x R) = (map_of R)(x := None)"
proof (induction x R rule: remove_key.induct)
  case (2 x k v r)
  then show ?case by (auto simp: fun_eq_iff map_of_eq_None_iff)
qed simp

lemma synced_contains:
  assumes "bin_synced ra bin f"
  shows "\<exists>maybe. filter_contains ra f [x] = Inr maybe \<and> (x \<in> set bin \<longrightarrow> maybe)"
  using assms cuckoo.contains_law [of ra f "[x]"] by (auto simp: bin_synced_def)

lemma is_present_synced:
  assumes "bin_synced ra bin f"
  shows "is_present ra bin f x = Inr (x \<in> set bin)"
  using synced_contains [OF assms, of x] by (auto simp: is_present_def)

lemma get_iterator_synced:
  assumes "bin_synced ra bin f"
  shows "get_iterator ra bin f x = Inr (find_felt bin x)"
proof -
  obtain maybe where "filter_contains ra f [x] = Inr maybe" "x \<in> set bin \<longrightarrow> maybe"
    using synced_contains [OF assms] by blast
  moreover have "find_felt bin x = None" if "x \<notin> set bin" using that by simp
  ultimately show ?thesis by (cases "x \<in> set bin") (auto simp: get_iterator_def simp del: find_felt_None)
qed

lemma wf_bin:
  assumes "bundle_wf ra b" "i < bb_num_bins b"
  shows "i < length (bb_item_bins b)" "i < length (bb_filters b)"
    "bin_synced ra (bb_item_bins b ! i) (bb_filters b ! i)"
  using assms by (simp_all add: bundle_wf_def bundle_shape_def)

lemma all_present_eq:
  assumes "bundle_wf ra b" "start + length xs \<le> bb_num_bins b"
  shows "all_present ra b xs start = Inr (\<forall>k < length xs. xs ! k \<in> set (bb_item_bins b ! (start + k)))"
  using assms(2)
proof (induction xs arbitrary: start)
  case (Cons x xs)
  note w = wf_bin [OF assms(1), of start]
  show ?case using Cons w is_present_synced [OF w(3), of x] by (auto simp: All_less_Suc2)
qed simp

lemma all_absent_eq:
  assumes "bundle_wf ra b" "start + length xs \<le> bb_num_bins b"
  shows "all_absent ra b xs start = Inr (\<forall>k < length xs. xs ! k \<notin> set (bb_item_bins b ! (start + k)))"
  using assms(2)
proof (induction xs arbitrary: start)
  case (Cons x xs)
  note w = wf_bin [OF assms(1), of start]
  show ?case using Cons w is_present_synced [OF w(3), of x] by (auto simp: All_less_Suc2)
qed simp

subsection \<open>Passes over label parts and bins\<close>

lemma for_label_parts_eq:
  assumes "l0 + n \<le> length lb" "\<And>l. l < length lb \<Longrightarrow> i < length (lb ! l)"
    "\<And>l. l0 \<le> l \<Longrightarrow> l < l0 + n \<Longrightarrow> f l (lb ! l ! i) = Inr (g l (lb ! l ! i))"
  shows "for_label_parts f i l0 n lb =
    Inr (map (\<lambda>l. if l0 \<le> l \<and> l < l0 + n then (lb ! l)[i := g l (lb ! l ! i)] else lb ! l) [0..<length lb])"
  using assms
proof (induction n arbitrary: l0 lb)
  case 0
  then show ?case by (auto intro!: nth_equalityI)
next
  case (Suc n)
  let ?lb = "lb[l0 := (lb ! l0)[i := g l0 (lb ! l0 ! i)]]"
  have "for_label_parts f i l0 (Suc n) lb = for_label_parts f i (l0 + 1) n ?lb"
    using Suc.prems by simp
  also have "\<dots> = Inr (map (\<lambda>l. if l0 + 1 \<le> l \<and> l < l0 + 1 + n then (?lb ! l)[i := g l (?lb ! l ! i)] else ?lb ! l)
      [0..<length ?lb])"
    using Suc.prems by (intro Suc.IH) (auto simp: nth_list_update)
  also have "\<dots> = Inr (map (\<lambda>l. if l0 \<le> l \<and> l < l0 + Suc n then (lb ! l)[i := g l (lb ! l ! i)] else lb ! l)
      [0..<length lb])"
    using Suc.prems(1) by (auto simp: nth_list_update)
  finally show ?case .
qed

text \<open>The label bins of a bundle, with the parts of bin \<open>i\<close> changed by \<open>g\<close>.\<close>

definition change_labels :: "(nat \<Rightarrow> felt list \<Rightarrow> felt list) \<Rightarrow> nat \<Rightarrow> felt list list list \<Rightarrow> felt list list list" where
  "change_labels g i lb = map (\<lambda>l. (lb ! l)[i := g l (lb ! l ! i)]) [0..<length lb]"

lemma change_labels_nth:
  "l < length lb \<Longrightarrow> j < length (lb ! l) \<Longrightarrow>
   change_labels g i lb ! l ! j = (if j = i then g l (lb ! l ! i) else lb ! l ! j)"
  by (auto simp: change_labels_def)

lemma change_labels_length [simp]:
  "length (change_labels g i lb) = length lb"
  "l < length lb \<Longrightarrow> length (change_labels g i lb ! l) = length (lb ! l)"
  by (simp_all add: change_labels_def)

lemma for_all_label_parts:
  assumes "bundle_shape b" "i < bb_num_bins b"
    "\<And>l. l < bb_label_size b \<Longrightarrow> f l (bb_label_bins b ! l ! i) = Inr (g l (bb_label_bins b ! l ! i))"
  shows "for_label_parts f i 0 (bb_label_size b) (bb_label_bins b) = Inr (change_labels g i (bb_label_bins b))"
  using assms for_label_parts_eq [of 0 "bb_label_size b" "bb_label_bins b" i f g]
  by (simp add: bundle_shape_def change_labels_def cong: map_cong)

text \<open>
  A pass of an operation over the \<open>n\<close> bins from \<open>start\<close>: bin \<open>i\<close> gets the rows \<open>R i\<close>, the other bins
  keep theirs; filters keep their invariant, and stay in step with their bins where \<open>ok\<close> holds of
  them beforehand.
\<close>

definition bins_pass ::
  "hash_table \<Rightarrow> (cuckoo_filter \<Rightarrow> bool) \<Rightarrow> nat \<Rightarrow> nat \<Rightarrow> (nat \<Rightarrow> row list) \<Rightarrow> 'p bin_bundle \<Rightarrow> 'p bin_bundle \<Rightarrow> bool" where
  "bins_pass ra ok start n R b b' \<longleftrightarrow> same_frame b b' \<and> bundle_shape b' \<and>
     bb_cache_invalid b' = (bb_cache_invalid b \<or> n \<noteq> 0) \<and>
     (\<forall>i < bb_num_bins b. bin_rows b' i = (if start \<le> i \<and> i < start + n then R i else bin_rows b i)) \<and>
     (\<forall>i < bb_num_bins b. \<not> (start \<le> i \<and> i < start + n) \<longrightarrow> bb_filters b' ! i = bb_filters b ! i) \<and>
     (\<forall>i < bb_num_bins b. filter_inv ra (bb_filters b ! i) \<longrightarrow> filter_inv ra (bb_filters b' ! i)) \<and>
     (\<forall>i < bb_num_bins b. bin_synced ra (bb_item_bins b ! i) (bb_filters b ! i) \<and>
        (start \<le> i \<and> i < start + n \<longrightarrow> ok (bb_filters b ! i)) \<longrightarrow>
        bin_synced ra (bb_item_bins b' ! i) (bb_filters b' ! i))"

lemma bins_pass_0: "bundle_shape b \<Longrightarrow> bins_pass ra ok start 0 R b b"
  by (auto simp: bins_pass_def)

lemma bins_pass_Suc:
  assumes "bins_pass ra ok start 1 R b b1" "bins_pass ra ok (start + 1) n R' b1 b'"
    and "\<And>i. start < i \<Longrightarrow> i < start + Suc n \<Longrightarrow> R' i = R i"
  shows "bins_pass ra ok start (Suc n) R b b'"
proof -
  have nb: "bb_num_bins b1 = bb_num_bins b" using assms(1) by (simp add: bins_pass_def same_frame_def)
  show ?thesis
    unfolding bins_pass_def
  proof (intro conjI allI impI)
    show "same_frame b b'" using assms(1,2) same_frame_trans unfolding bins_pass_def by blast
    show "bundle_shape b'" using assms(2) by (simp add: bins_pass_def)
    show "bb_cache_invalid b' = (bb_cache_invalid b \<or> Suc n \<noteq> 0)" using assms(1,2) by (simp add: bins_pass_def)
    fix i assume i: "i < bb_num_bins b"
    show "bin_rows b' i = (if start \<le> i \<and> i < start + Suc n then R i else bin_rows b i)"
      using assms i nb by (auto simp: bins_pass_def)
    show "bb_filters b' ! i = bb_filters b ! i" if "\<not> (start \<le> i \<and> i < start + Suc n)"
      using assms(1,2) i nb that by (auto simp: bins_pass_def)
    show "filter_inv ra (bb_filters b' ! i)" if "filter_inv ra (bb_filters b ! i)"
      using assms(1,2) i nb that by (simp add: bins_pass_def)
    assume a: "bin_synced ra (bb_item_bins b ! i) (bb_filters b ! i) \<and>
      (start \<le> i \<and> i < start + Suc n \<longrightarrow> ok (bb_filters b ! i))"
    then have "bin_synced ra (bb_item_bins b1 ! i) (bb_filters b1 ! i)"
      using assms(1) i by (auto simp: bins_pass_def)
    moreover have "ok (bb_filters b1 ! i)" if "start + 1 \<le> i" "i < start + 1 + n"
      using assms(1) i that a by (auto simp: bins_pass_def)
    ultimately show "bin_synced ra (bb_item_bins b' ! i) (bb_filters b' ! i)"
      using assms(2) i nb by (auto simp: bins_pass_def)
  qed
qed

text \<open>A single bin is changed: its items, its filter, and its label parts by \<open>g\<close>.\<close>

lemma bins_pass_one:
  assumes b: "bundle_shape b" "i < bb_num_bins b"
    and b': "b' = b\<lparr>bb_item_bins := (bb_item_bins b)[i := map fst R], bb_filters := (bb_filters b)[i := f],
               bb_label_bins := change_labels g i (bb_label_bins b), bb_cache_invalid := True\<rparr>"
    and g: "\<And>l. l < bb_label_size b \<Longrightarrow> g l (bb_label_bins b ! l ! i) = map (\<lambda>r. snd r ! l) R"
    and R: "\<forall>r \<in> set R. length (snd r) = bb_label_size b"
    and f: "filter_inv ra (bb_filters b ! i) \<longrightarrow> filter_inv ra f"
    and sync: "bin_synced ra (bb_item_bins b ! i) (bb_filters b ! i) \<and> ok (bb_filters b ! i) \<longrightarrow> bin_synced ra (map fst R) f"
    and R': "R' i = R"
  shows "bins_pass ra ok i 1 R' b b'"
proof -
  have len: "length (bb_item_bins b) = bb_num_bins b" "length (bb_filters b) = bb_num_bins b"
    "length (bb_label_bins b) = bb_label_size b"
    "\<And>l. l < bb_label_size b \<Longrightarrow> length (bb_label_bins b ! l) = bb_num_bins b"
    using b by (simp_all add: bundle_shape_def)
  have "bin_holds b' i R" using b len g R by (simp add: bin_holds_def b' change_labels_nth)
  then have "bin_rows b' i = R" by (rule bin_rows_eqI)
  moreover have "bin_rows b' j = bin_rows b j" if "j < bb_num_bins b" "j \<noteq> i" for j
    using that b len by (intro bin_rows_cong) (simp_all add: b' change_labels_nth)
  moreover have "bundle_shape b'" using b len g
    by (auto simp: bundle_shape_def b' change_labels_nth nth_list_update)
  moreover have "(i \<le> j \<and> j < i + 1) = (j = i)" for j by linarith
  ultimately show ?thesis
    using b len f sync R' unfolding bins_pass_def
    by (auto simp: b' same_frame_def nth_list_update)
qed

subsection \<open>Insertion\<close>

lemma synced_add:
  assumes "filter_inv ra f" "filter_add ra rnd f [x] = Inr (f', added)"
  shows "filter_inv ra f'"
    and "bin_synced ra bin f \<and> \<not> ov_used (cf_overflow f) \<longrightarrow> bin_synced ra (bin @ [x]) f'"
proof -
  obtain f'' where f'': "filter_add ra rnd f [x] = Inr (f'', \<not> ov_used (cf_overflow f))" "filter_inv ra f''"
    "same_shape (cf_table f) (cf_table f'')"
    "filter_entries ra f'' = (if ov_used (cf_overflow f) then filter_entries ra f
      else add_mset (item_entry ra f [x]) (filter_entries ra f))"
    using cuckoo.add_law [OF assms(1)] by blast
  then have e: "f'' = f'" "item_entry ra f' = item_entry ra f"
    using assms(2) cuckoo.entry_shape [of f f' ra] by auto
  show "filter_inv ra f'" using f''(2) e by simp
  show "bin_synced ra bin f \<and> \<not> ov_used (cf_overflow f) \<longrightarrow> bin_synced ra (bin @ [x]) f'"
    using f'' e by (simp add: bin_synced_def)
qed

definition not_full :: "cuckoo_filter \<Rightarrow> bool" where
  "not_full f \<longleftrightarrow> \<not> ov_used (cf_overflow f)"

text \<open>The unlabeled loop is the labeled loop with empty labels.\<close>

lemma label_bins_update_same [simp]:
  "b\<lparr>bb_item_bins := I, bb_label_bins := bb_label_bins b, bb_filters := F, bb_cache_invalid := c\<rparr> =
   b\<lparr>bb_item_bins := I, bb_filters := F, bb_cache_invalid := c\<rparr>"
  by simp

lemma insert_items_labels:
  "bb_label_size b = 0 \<Longrightarrow>
   insert_items ra rnd dry xs i m b = insert_item_labels ra rnd dry (map (\<lambda>x. (x, [])) xs) i m b"
proof (induction xs arbitrary: i m b)
  case (Cons x xs)
  then show ?case by (auto simp: Let_def intro!: bind_res_cong split: prod.splits)
qed simp

definition largest_bin :: "'p bin_bundle \<Rightarrow> nat \<Rightarrow> nat \<Rightarrow> nat \<Rightarrow> nat" where
  "largest_bin b start n m = foldl max m (map (\<lambda>i. length (bb_item_bins b ! i) + 1) [start..<start + n])"

lemma largest_bin_Suc:
  "largest_bin b start (Suc n) m = largest_bin b (start + 1) n (max m (length (bb_item_bins b ! start) + 1))"
  by (simp add: largest_bin_def upt_conv_Cons del: upt_Suc)

lemma largest_bin_cong:
  "(\<And>i. start \<le> i \<Longrightarrow> i < start + n \<Longrightarrow> length (bb_item_bins b' ! i) = length (bb_item_bins b ! i)) \<Longrightarrow>
   largest_bin b' start n m = largest_bin b start n m"
  unfolding largest_bin_def by (intro arg_cong [of _ _ "foldl max m"] map_cong refl) simp

lemma dry_run_insert:
  assumes "bundle_shape b" "start + length xs \<le> bb_num_bins b"
  shows "insert_item_labels ra rnd True xs start m b = Inr (b, largest_bin b start (length xs) m)"
  using assms(2)
proof (induction xs arbitrary: start m)
  case (Cons x xs)
  have "start < length (bb_item_bins b)" using assms(1) Cons.prems by (simp add: bundle_shape_def)
  then show ?case using Cons
    by (cases x) (simp add: Let_def largest_bin_Suc max_def del: One_nat_def)
qed (simp add: largest_bin_def)

lemma insert_step:
  assumes b: "bundle_shape b" "i < bb_num_bins b" "filter_inv ra (bb_filters b ! i)"
    and lab: "length label = bb_label_size b"
  shows "\<exists>b1. insert_item_labels ra rnd False ((x, label) # xs) i m b =
      insert_item_labels ra rnd False xs (i + 1) (max m (length (bb_item_bins b ! i) + 1)) b1 \<and>
    bins_pass ra not_full i 1 (\<lambda>_. bin_rows b i @ [(x, label)]) b b1"
proof -
  let ?R = "bin_rows b i @ [(x, label)]" and ?bin = "bb_item_bins b ! i" and ?g = "\<lambda>l bin. bin @ [label ! l]"
  obtain f' added where f': "filter_add ra (rnd i) (bb_filters b ! i) [x] = Inr (f', added)"
    using cuckoo.add_law [OF b(3)] by blast
  let ?b1 = "b\<lparr>bb_item_bins := (bb_item_bins b)[i := map fst ?R], bb_filters := (bb_filters b)[i := f'],
               bb_label_bins := change_labels ?g i (bb_label_bins b), bb_cache_invalid := True\<rparr>"
  note rows = bin_holds_rows [OF b(1,2)]
  have lb: "for_label_parts (\<lambda>label_idx bin. bind_res (vec_get label label_idx) (\<lambda>part. Inr (bin @ [part])))
      i 0 (bb_label_size b) (bb_label_bins b) = Inr (change_labels ?g i (bb_label_bins b))"
    using b lab by (intro for_all_label_parts) simp_all
  have "bins_pass ra not_full i 1 (\<lambda>_. ?R) b ?b1"
  proof (rule bins_pass_one [OF b(1,2) refl])
    show "?g l (bb_label_bins b ! l ! i) = map (\<lambda>r. snd r ! l) ?R" if "l < bb_label_size b" for l
      using rows that by (simp add: bin_holds_def)
    show "\<forall>r\<in>set ?R. length (snd r) = bb_label_size b" using rows lab by (simp add: bin_holds_def)
    show "filter_inv ra (bb_filters b ! i) \<longrightarrow> filter_inv ra f'" using synced_add(1) [OF b(3) f'] by simp
    show "bin_synced ra ?bin (bb_filters b ! i) \<and> not_full (bb_filters b ! i) \<longrightarrow> bin_synced ra (map fst ?R) f'"
      using synced_add(2) [OF b(3) f'] by (simp add: bin_rows_fst not_full_def)
  qed simp
  moreover have "insert_item_labels ra rnd False ((x, label) # xs) i m b =
      insert_item_labels ra rnd False xs (i + 1) (max m (length ?bin + 1)) ?b1"
    using b lb f' by (simp add: bundle_shape_def Let_def max_def bin_rows_fst)
  ultimately show ?thesis by blast
qed

lemma insert_pass:
  assumes "bundle_shape b" "start + length xs \<le> bb_num_bins b"
    and "\<forall>i < bb_num_bins b. filter_inv ra (bb_filters b ! i)"
    and "\<forall>x \<in> set xs. length (snd x) = bb_label_size b"
  shows "\<exists>b'. insert_item_labels ra rnd False xs start m b = Inr (b', largest_bin b start (length xs) m) \<and>
    bins_pass ra not_full start (length xs) (\<lambda>i. bin_rows b i @ [xs ! (i - start)]) b b'"
  using assms
proof (induction xs arbitrary: start m b)
  case Nil
  then show ?case using bins_pass_0 by (auto simp: largest_bin_def)
next
  case (Cons y xs)
  obtain x label where y: "y = (x, label)" by (cases y)
  have i: "start < bb_num_bins b" using Cons.prems(2) by simp
  obtain b1 where b1: "insert_item_labels ra rnd False (y # xs) start m b =
      insert_item_labels ra rnd False xs (start + 1) (max m (length (bb_item_bins b ! start) + 1)) b1"
    "bins_pass ra not_full start 1 (\<lambda>_. bin_rows b start @ [y]) b b1"
    using insert_step [OF Cons.prems(1) i, of ra label rnd x xs m] Cons.prems(3,4) i unfolding y by auto
  have fr: "bb_num_bins b1 = bb_num_bins b" "bb_label_size b1 = bb_label_size b" "bundle_shape b1"
    "\<forall>i < bb_num_bins b1. filter_inv ra (bb_filters b1 ! i)"
    using b1(2) Cons.prems(3) by (simp_all add: bins_pass_def same_frame_def)
  have rest: "bin_rows b1 j = bin_rows b j" if "start + 1 \<le> j" "j < bb_num_bins b" for j
    using b1(2) that by (simp add: bins_pass_def)
  obtain b' where b': "insert_item_labels ra rnd False xs (start + 1) (max m (length (bb_item_bins b ! start) + 1)) b1 =
      Inr (b', largest_bin b1 (start + 1) (length xs) (max m (length (bb_item_bins b ! start) + 1)))"
    "bins_pass ra not_full (start + 1) (length xs) (\<lambda>i. bin_rows b1 i @ [xs ! (i - (start + 1))]) b1 b'"
    using Cons.IH [of b1 "start + 1" "max m (length (bb_item_bins b ! start) + 1)"] Cons.prems(2,4) fr by auto
  have "largest_bin b1 (start + 1) (length xs) m' = largest_bin b (start + 1) (length xs) m'" for m'
  proof (rule largest_bin_cong)
    fix i assume "start + 1 \<le> i" "i < start + 1 + length xs"
    then have "bin_rows b1 i = bin_rows b i" using rest [of i] Cons.prems(2) by simp
    then show "length (bb_item_bins b1 ! i) = length (bb_item_bins b ! i)" by (metis bin_rows_length)
  qed
  then have "insert_item_labels ra rnd False (y # xs) start m b = Inr (b', largest_bin b start (length (y # xs)) m)"
    using b1(1) b'(1) by (simp add: largest_bin_Suc)
  moreover have "bins_pass ra not_full start (Suc (length xs)) (\<lambda>i. bin_rows b i @ [(y # xs) ! (i - start)]) b b'"
  proof (rule bins_pass_Suc [OF _ b'(2)])
    show "bins_pass ra not_full start 1 (\<lambda>i. bin_rows b i @ [(y # xs) ! (i - start)]) b b1"
      using b1(2) unfolding bins_pass_def by (auto simp: le_less_Suc_eq)
    fix i assume "start < i" "i < start + Suc (length xs)"
    then show "bin_rows b1 i @ [xs ! (i - (start + 1))] = bin_rows b i @ [(y # xs) ! (i - start)]"
      using rest [of i] Cons.prems(2) by (simp add: nth_Cons' )
  qed
  ultimately show ?case by auto
qed

subsection \<open>Overwriting\<close>

lemma overwrite_step:
  assumes b: "bundle_shape b" "i < bb_num_bins b" and x: "x \<in> set (bb_item_bins b ! i)"
    and lab: "length label = bb_label_size b"
  shows "\<exists>b1. overwrite_labels ((x, label) # xs) i b = overwrite_labels xs (i + 1) b1 \<and>
    bb_item_bins b1 = bb_item_bins b \<and> bb_filters b1 = bb_filters b \<and>
    bins_pass ra (\<lambda>_. True) i 1 (\<lambda>_. set_key x label (bin_rows b i)) b b1"
proof -
  let ?bin = "bb_item_bins b ! i" and ?R = "set_key x label (bin_rows b i)"
  obtain p where p: "find_felt ?bin x = Some p" "p < length ?bin"
    using x find_felt_None [of ?bin x] find_felt_SomeD [of ?bin x] by (cases "find_felt ?bin x") auto
  let ?g = "\<lambda>l bin. bin[p := label ! l]"
  let ?b1 = "b\<lparr>bb_label_bins := change_labels ?g i (bb_label_bins b), bb_cache_invalid := True\<rparr>"
  note rows = bin_holds_rows [OF b(1,2)]
  have R: "?R = (bin_rows b i)[p := (x, label)]"
    using find_felt_set_key [of "bin_rows b i" x p label] p(1) by (simp add: bin_rows_fst)
  have lens: "length (bb_label_bins b ! l ! i) = length ?bin" if "l < bb_label_size b" for l
    using b that by (simp add: bundle_shape_def)
  have lb: "for_label_parts (\<lambda>label_idx bin. bind_res (vec_get label label_idx) (\<lambda>part. vec_set bin p part))
      i 0 (bb_label_size b) (bb_label_bins b) = Inr (change_labels ?g i (bb_label_bins b))"
    using b lab p lens by (intro for_all_label_parts) simp_all
  have eq: "?b1 = b\<lparr>bb_item_bins := (bb_item_bins b)[i := map fst ?R],
      bb_filters := (bb_filters b)[i := bb_filters b ! i],
      bb_label_bins := change_labels ?g i (bb_label_bins b), bb_cache_invalid := True\<rparr>"
    by (simp add: bin_rows_fst)
  have "bins_pass ra (\<lambda>_. True) i 1 (\<lambda>_. ?R) b ?b1"
  proof (rule bins_pass_one [OF b eq])
    show "?g l (bb_label_bins b ! l ! i) = map (\<lambda>r. snd r ! l) ?R" if "l < bb_label_size b" for l
      using rows that by (simp add: bin_holds_def R map_update)
    show "\<forall>r\<in>set ?R. length (snd r) = bb_label_size b"
      using rows lab set_update_subset_insert [of "bin_rows b i" p "(x, label)"] unfolding R bin_holds_def by auto
  qed (simp_all add: bin_rows_fst)
  moreover have "overwrite_labels ((x, label) # xs) i b = overwrite_labels xs (i + 1) ?b1"
    using b lb p by (simp add: bundle_shape_def)
  ultimately show ?thesis by (intro exI [of _ ?b1]) simp
qed

lemma overwrite_pass:
  assumes "bundle_shape b" "start + length xs \<le> bb_num_bins b"
    and "\<forall>k < length xs. fst (xs ! k) \<in> set (bb_item_bins b ! (start + k))"
    and "\<forall>x \<in> set xs. length (snd x) = bb_label_size b"
  shows "\<exists>b'. overwrite_labels xs start b = Inr b' \<and>
    bins_pass ra (\<lambda>_. True) start (length xs)
      (\<lambda>i. set_key (fst (xs ! (i - start))) (snd (xs ! (i - start))) (bin_rows b i)) b b'"
  using assms
proof (induction xs arbitrary: start b)
  case Nil
  then show ?case using bins_pass_0 by auto
next
  case (Cons y xs)
  obtain x label where y: "y = (x, label)" by (cases y)
  have i: "start < bb_num_bins b" using Cons.prems(2) by simp
  have pres: "x \<in> set (bb_item_bins b ! start)" "\<forall>k < length xs. fst (xs ! k) \<in> set (bb_item_bins b ! (start + 1 + k))"
    using Cons.prems(3) y by (auto simp: All_less_Suc2)
  obtain b1 where b1: "overwrite_labels (y # xs) start b = overwrite_labels xs (start + 1) b1"
    "bb_item_bins b1 = bb_item_bins b"
    "bins_pass ra (\<lambda>_. True) start 1 (\<lambda>_. set_key x label (bin_rows b start)) b b1"
    using overwrite_step [OF Cons.prems(1) i pres(1), of label xs ra] Cons.prems(4) unfolding y by auto
  have fr: "bb_num_bins b1 = bb_num_bins b" "bb_label_size b1 = bb_label_size b" "bundle_shape b1"
    using b1(3) by (simp_all add: bins_pass_def same_frame_def)
  have rest: "bin_rows b1 j = bin_rows b j" if "start + 1 \<le> j" "j < bb_num_bins b" for j
    using b1(3) that by (simp add: bins_pass_def)
  obtain b' where b': "overwrite_labels xs (start + 1) b1 = Inr b'"
    "bins_pass ra (\<lambda>_. True) (start + 1) (length xs)
      (\<lambda>i. set_key (fst (xs ! (i - (start + 1)))) (snd (xs ! (i - (start + 1)))) (bin_rows b1 i)) b1 b'"
    using Cons.IH [of b1 "start + 1"] Cons.prems(2,4) fr b1(2) pres(2) by auto
  have "bins_pass ra (\<lambda>_. True) start (Suc (length xs))
      (\<lambda>i. set_key (fst ((y # xs) ! (i - start))) (snd ((y # xs) ! (i - start))) (bin_rows b i)) b b'"
  proof (rule bins_pass_Suc [OF _ b'(2)])
    show "bins_pass ra (\<lambda>_. True) start 1
        (\<lambda>i. set_key (fst ((y # xs) ! (i - start))) (snd ((y # xs) ! (i - start))) (bin_rows b i)) b b1"
      using b1(3) y unfolding bins_pass_def by (auto simp: le_less_Suc_eq)
    fix i assume "start < i" "i < start + Suc (length xs)"
    then show "set_key (fst (xs ! (i - (start + 1)))) (snd (xs ! (i - (start + 1)))) (bin_rows b1 i) =
        set_key (fst ((y # xs) ! (i - start))) (snd ((y # xs) ! (i - start))) (bin_rows b i)"
      using rest [of i] Cons.prems(2) by (simp add: nth_Cons')
  qed
  then show ?case using b1(1) b'(1) by auto
qed

subsection \<open>Removal\<close>

definition erased :: "'a list \<Rightarrow> nat \<Rightarrow> 'a list" where
  "erased xs p = take p xs @ drop (Suc p) xs"

definition erase_range :: "nat list \<Rightarrow> nat \<Rightarrow> 'a list list \<Rightarrow> 'a list list" where
  "erase_range ps start bins = map (\<lambda>i. if start \<le> i \<and> i < start + length ps
     then erased (bins ! i) (ps ! (i - start)) else bins ! i) [0..<length bins]"

lemma erase_range_Nil [simp]: "erase_range [] start bins = bins"
  by (auto simp: erase_range_def intro!: nth_equalityI)

lemma erase_range_Cons:
  "start < length bins \<Longrightarrow>
   erase_range (p # ps) start bins = erase_range ps (start + 1) (bins[start := erased (bins ! start) p])"
  by (auto simp: erase_range_def nth_list_update nth_Cons' intro!: nth_equalityI)

lemma erase_range_nth [simp]:
  "i < length bins \<Longrightarrow> erase_range ps start bins ! i = (if start \<le> i \<and> i < start + length ps
     then erased (bins ! i) (ps ! (i - start)) else bins ! i)"
  "length (erase_range ps start bins) = length bins"
  by (simp_all add: erase_range_def)

lemma erase_at_ok [simp]: "p < length xs \<Longrightarrow> erase_at xs p = Inr (erased xs p)"
  by (simp add: erase_at_def erased_def)

lemma erased_map: "erased (map f xs) p = map f (erased xs p)"
  by (simp add: erased_def take_map drop_map)

lemma erased_mset: "p < length xs \<Longrightarrow> mset (erased xs p) = mset xs - {#xs ! p#}"
  using id_take_nth_drop [of p xs] by (metis erased_def add_mset_remove_trivial mset.simps(2) mset_append
      union_mset_add_mset_right)

definition positions_ok :: "nat list \<Rightarrow> nat \<Rightarrow> 'a list list \<Rightarrow> bool" where
  "positions_ok ps start bins \<longleftrightarrow> start + length ps \<le> length bins \<and>
     (\<forall>k < length ps. ps ! k < length (bins ! (start + k)))"

lemma positions_ok_Cons:
  "positions_ok (p # ps) start bins \<Longrightarrow>
   start < length bins \<and> p < length (bins ! start) \<and> positions_ok ps (start + 1) (bins[start := bin])"
  by (auto simp: positions_ok_def All_less_Suc2)

lemma erase_label_part_eq:
  "positions_ok ps start bins \<Longrightarrow> erase_label_part ps start bins = Inr (erase_range ps start bins)"
proof (induction ps arbitrary: start bins)
  case (Cons p ps)
  then show ?case
    using positions_ok_Cons [OF Cons.prems] by (simp add: erase_range_Cons)
qed simp

lemma erase_labels_eq:
  assumes "l0 + n = length lb" "\<forall>l. l0 \<le> l \<and> l < length lb \<longrightarrow> positions_ok ps start (lb ! l)"
  shows "erase_labels ps start l0 n lb = Inr (take l0 lb @ map (erase_range ps start) (drop l0 lb))"
  using assms
proof (induction n arbitrary: l0 lb)
  case (Suc n)
  have l0: "l0 < length lb" using Suc.prems(1) by simp
  let ?lb = "lb[l0 := erase_range ps start (lb ! l0)]"
  have "erase_labels ps start l0 (Suc n) lb = erase_labels ps start (l0 + 1) n ?lb"
    using Suc.prems l0 by (simp add: erase_label_part_eq)
  also have "\<dots> = Inr (take (l0 + 1) ?lb @ map (erase_range ps start) (drop (l0 + 1) ?lb))"
    using Suc.prems by (intro Suc.IH) auto
  also have "take (l0 + 1) ?lb = take l0 lb @ [erase_range ps start (lb ! l0)]"
    using l0 by (simp add: take_Suc_conv_app_nth)
  also have "drop (l0 + 1) ?lb = drop (Suc l0) lb" by simp
  finally show ?case using l0 by (simp add: Cons_nth_drop_Suc [symmetric])
qed simp

lemma synced_remove:
  assumes "filter_inv ra f" "filter_remove ra rnd f [bin ! p] = Inr (f', removed)"
  shows "filter_inv ra f'"
    and "bin_synced ra bin f \<and> p < length bin \<longrightarrow> bin_synced ra (erased bin p) f'"
proof -
  obtain f'' b where f'': "filter_remove ra rnd f [bin ! p] = Inr (f'', b)" "filter_inv ra f''"
    "same_shape (cf_table f) (cf_table f'')"
    "filter_entries ra f'' = filter_entries ra f - {#item_entry ra f [bin ! p]#}"
    using cuckoo.remove_law [OF assms(1)] by blast
  then have e: "f'' = f'" "item_entry ra f' = item_entry ra f"
    using assms(2) cuckoo.entry_shape [of f f' ra] by auto
  show "filter_inv ra f'" using f''(2) e by simp
  show "bin_synced ra bin f \<and> p < length bin \<longrightarrow> bin_synced ra (erased bin p) f'"
    using f'' e by (auto simp: bin_synced_def erased_mset image_mset_Diff)
qed

lemma erase_items_eq:
  assumes "positions_ok ps start (bb_item_bins b)" "length (bb_filters b) = length (bb_item_bins b)"
    and "\<forall>i < length (bb_item_bins b). filter_inv ra (bb_filters b ! i)"
  shows "\<exists>F. erase_items ra rnd ps start b = Inr (b\<lparr>bb_filters := F,
        bb_item_bins := erase_range ps start (bb_item_bins b),
        bb_cache_invalid := bb_cache_invalid b \<or> ps \<noteq> []\<rparr>) \<and> length F = length (bb_filters b) \<and>
    (\<forall>i < length (bb_item_bins b). filter_inv ra (F ! i) \<and>
       (\<not> (start \<le> i \<and> i < start + length ps) \<longrightarrow> F ! i = bb_filters b ! i) \<and>
       (bin_synced ra (bb_item_bins b ! i) (bb_filters b ! i) \<longrightarrow>
          bin_synced ra (erase_range ps start (bb_item_bins b) ! i) (F ! i)))"
  using assms
proof (induction ps arbitrary: start b)
  case Nil
  then show ?case by (auto intro!: exI [of _ "bb_filters b"])
next
  case (Cons p ps)
  let ?bins = "bb_item_bins b" and ?f = "bb_filters b ! start"
  note pos = positions_ok_Cons [OF Cons.prems(1)]
  have inv: "filter_inv ra ?f" using Cons.prems(3) pos by blast
  obtain f' r where f': "filter_remove ra (rnd start) ?f [?bins ! start ! p] = Inr (f', r)"
    using cuckoo.remove_law [OF inv] by blast
  note sync = synced_remove [OF inv f']
  let ?b1 = "b\<lparr>bb_filters := (bb_filters b)[start := f'],
    bb_item_bins := ?bins[start := erased (?bins ! start) p], bb_cache_invalid := True\<rparr>"
  have step: "erase_items ra rnd (p # ps) start b = erase_items ra rnd ps (start + 1) ?b1"
    using pos Cons.prems(2) f' by simp
  have inv1: "\<forall>i < length (bb_item_bins ?b1). filter_inv ra (bb_filters ?b1 ! i)"
    using Cons.prems(2,3) sync(1) pos by (auto simp: nth_list_update)
  obtain F where F: "erase_items ra rnd ps (start + 1) ?b1 = Inr (?b1\<lparr>bb_filters := F,
        bb_item_bins := erase_range ps (start + 1) (bb_item_bins ?b1), bb_cache_invalid := True\<rparr>)"
    "length F = length (bb_filters b)"
    "\<forall>i < length ?bins. filter_inv ra (F ! i) \<and>
       (\<not> (start + 1 \<le> i \<and> i < start + 1 + length ps) \<longrightarrow> F ! i = bb_filters ?b1 ! i) \<and>
       (bin_synced ra (bb_item_bins ?b1 ! i) (bb_filters ?b1 ! i) \<longrightarrow>
          bin_synced ra (erase_range ps (start + 1) (bb_item_bins ?b1) ! i) (F ! i))"
    using Cons.IH [of "start + 1" ?b1] pos Cons.prems(2) inv1 by auto
  have range: "erase_range (p # ps) start ?bins = erase_range ps (start + 1) (bb_item_bins ?b1)"
    using pos by (simp add: erase_range_Cons)
  show ?case
  proof (intro exI conjI allI impI)
    show "erase_items ra rnd (p # ps) start b = Inr (b\<lparr>bb_filters := F,
        bb_item_bins := erase_range (p # ps) start ?bins, bb_cache_invalid := bb_cache_invalid b \<or> p # ps \<noteq> []\<rparr>)"
      unfolding step F(1) range by simp
    show "length F = length (bb_filters b)" by (fact F(2))
    fix i assume i: "i < length ?bins"
    show "filter_inv ra (F ! i)" using F(3) i by blast
    show "F ! i = bb_filters b ! i" if "\<not> (start \<le> i \<and> i < start + length (p # ps))"
      using F(3) i that by auto
    assume "bin_synced ra (?bins ! i) (bb_filters b ! i)"
    then have "bin_synced ra (bb_item_bins ?b1 ! i) (bb_filters ?b1 ! i)"
      using i sync(2) pos Cons.prems(2) by (cases "i = start") auto
    then show "bin_synced ra (erase_range (p # ps) start ?bins ! i) (F ! i)"
      unfolding range using F(3) i by blast
  qed
qed

lemma find_all_eq:
  assumes "bundle_wf ra b" "start + length xs \<le> bb_num_bins b"
  shows "find_all ra b xs start = Inr (if \<forall>k < length xs. xs ! k \<in> set (bb_item_bins b ! (start + k))
    then Some (map (\<lambda>k. the (find_felt (bb_item_bins b ! (start + k)) (xs ! k))) [0..<length xs]) else None)"
  using assms(2)
proof (induction xs arbitrary: start)
  case (Cons x xs)
  note w = wf_bin [OF assms(1), of start]
  have upt: "[0..<length (x # xs)] = 0 # map Suc [0..<length xs]" by (simp only: length_Cons upt_conv_Cons [OF zero_less_Suc] map_Suc_upt)
  show ?case
  proof (cases "x \<in> set (bb_item_bins b ! start)")
    case True
    then obtain p where "find_felt (bb_item_bins b ! start) x = Some p"
      using find_felt_None by blast
    then show ?thesis
      using Cons w get_iterator_synced [OF w(3), of x] True unfolding upt
      by (simp add: All_less_Suc2 comp_def)
  next
    case False
    then have "find_felt (bb_item_bins b ! start) x = None" by simp
    then show ?thesis
      using Cons.prems w get_iterator_synced [OF w(3), of x] False
      by (auto simp: All_less_Suc2 simp del: find_felt_None)
  qed
qed simp

lemma remove_pass:
  assumes wf: "bundle_wf ra b" and room: "start + length xs \<le> bb_num_bins b"
    and pres: "\<forall>k < length xs. xs ! k \<in> set (bb_item_bins b ! (start + k))"
    and ps: "ps = map (\<lambda>k. the (find_felt (bb_item_bins b ! (start + k)) (xs ! k))) [0..<length xs]"
  shows "\<exists>b1 b'. erase_items ra rnd ps start b = Inr b1 \<and>
    erase_labels ps start 0 (bb_label_size b1) (bb_label_bins b1) = Inr (bb_label_bins b') \<and>
    b' = b1\<lparr>bb_label_bins := bb_label_bins b'\<rparr> \<and>
    bins_pass ra (\<lambda>_. True) start (length xs) (\<lambda>i. remove_key (xs ! (i - start)) (bin_rows b i)) b b'"
proof -
  let ?I = "bb_item_bins b" and ?L = "bb_label_bins b"
  have shape: "bundle_shape b" and synced: "\<And>i. i < bb_num_bins b \<Longrightarrow> bin_synced ra (?I ! i) (bb_filters b ! i)"
    using wf by (simp_all add: bundle_wf_def)
  have len: "length ?I = bb_num_bins b" "length (bb_filters b) = bb_num_bins b" "length ?L = bb_label_size b"
    "\<And>l. l < bb_label_size b \<Longrightarrow> length (?L ! l) = bb_num_bins b"
    "\<And>l i. l < bb_label_size b \<Longrightarrow> i < bb_num_bins b \<Longrightarrow> length (?L ! l ! i) = length (?I ! i)"
    using shape by (simp_all add: bundle_shape_def)
  have p: "find_felt (?I ! (start + k)) (xs ! k) = Some (ps ! k)" "ps ! k < length (?I ! (start + k))" if "k < length xs" for k
  proof -
    obtain q where "find_felt (?I ! (start + k)) (xs ! k) = Some q" using pres \<open>k < length xs\<close> find_felt_None by blast
    then show "find_felt (?I ! (start + k)) (xs ! k) = Some (ps ! k)" "ps ! k < length (?I ! (start + k))"
      using \<open>k < length xs\<close> find_felt_SomeD [of "?I ! (start + k)"] by (simp_all add: ps)
  qed
  have lps: "length ps = length xs" by (simp add: ps)
  have posI: "positions_ok ps start ?I" using p(2) room len by (simp add: positions_ok_def lps)
  have posL: "positions_ok ps start (?L ! l)" if "l < length ?L" for l
    using p(2) room len that by (simp add: positions_ok_def lps)
  obtain F where F: "erase_items ra rnd ps start b = Inr (b\<lparr>bb_filters := F,
        bb_item_bins := erase_range ps start ?I, bb_cache_invalid := bb_cache_invalid b \<or> ps \<noteq> []\<rparr>)"
    "length F = length (bb_filters b)"
    "\<forall>i < length ?I. filter_inv ra (F ! i) \<and>
       (\<not> (start \<le> i \<and> i < start + length ps) \<longrightarrow> F ! i = bb_filters b ! i) \<and>
       (bin_synced ra (?I ! i) (bb_filters b ! i) \<longrightarrow> bin_synced ra (erase_range ps start ?I ! i) (F ! i))"
    using erase_items_eq [OF posI, of ra rnd] len synced by (auto simp: bin_synced_def)
  let ?b1 = "b\<lparr>bb_filters := F, bb_item_bins := erase_range ps start ?I, bb_cache_invalid := bb_cache_invalid b \<or> ps \<noteq> []\<rparr>"
  let ?b' = "?b1\<lparr>bb_label_bins := map (erase_range ps start) ?L\<rparr>"
  have lab: "erase_labels ps start 0 (bb_label_size ?b1) (bb_label_bins ?b1) = Inr (bb_label_bins ?b')"
    using erase_labels_eq [of 0 "bb_label_size b" ?L ps start] posL len by simp
  have holds: "bin_holds ?b' i (if start \<le> i \<and> i < start + length xs then remove_key (xs ! (i - start)) (bin_rows b i) else bin_rows b i)"
    if i: "i < bb_num_bins b" for i
  proof (cases "start \<le> i \<and> i < start + length xs")
    case True
    then obtain k where k: "i = start + k" "k < length xs" by (metis less_diff_conv2 le_add_diff_inverse add.commute nat_add_left_cancel_less)
    note rows = bin_holds_rows [OF shape i]
    have e: "erased (bin_rows b i) (ps ! k) = remove_key (xs ! k) (bin_rows b i)"
      using find_felt_remove_key [of "bin_rows b i" "xs ! k" "ps ! k"] p(1) [OF k(2)] k(1)
      by (simp add: bin_rows_fst erased_def)
    have "set (remove_key (xs ! k) (bin_rows b i)) \<subseteq> set (bin_rows b i)"
      unfolding e [symmetric] erased_def using set_take_subset set_drop_subset by fastforce
    moreover have "erased (map fst (bin_rows b i)) (ps ! k) = map fst (remove_key (xs ! k) (bin_rows b i))"
      "\<And>l. erased (map (\<lambda>r. snd r ! l) (bin_rows b i)) (ps ! k) = map (\<lambda>r. snd r ! l) (remove_key (xs ! k) (bin_rows b i))"
      unfolding erased_map e by (rule refl)+
    ultimately show ?thesis using rows i k len True by (auto simp: bin_holds_def lps)
  next
    case False
    then show ?thesis using bin_holds_rows [OF shape i] i len by (auto simp: bin_holds_def lps)
  qed
  have lenE: "length (erased zs q) = length (erased zs' q)" if "length zs = length zs'" for zs :: "felt list" and zs' :: "felt list" and q
    using that by (simp add: erased_def)
  have "bundle_shape ?b'" using shape F(2) len by (auto simp: bundle_shape_def lps intro!: lenE)
  then have "bins_pass ra (\<lambda>_. True) start (length xs) (\<lambda>i. remove_key (xs ! (i - start)) (bin_rows b i)) b ?b'"
    unfolding bins_pass_def using F(3) holds [THEN bin_rows_eqI] len lps
    by (auto simp: same_frame_def)
  then show ?thesis using F(1) lab by (intro exI [of _ ?b1] exI [of _ ?b']) simp
qed

subsection \<open>Label look-up\<close>

lemma div_bound: "j < N * (L :: nat) \<Longrightarrow> j div N < L"
  by (rule less_mult_imp_div_less) (simp only: mult.commute)

lemma fetch_label_eq:
  assumes "l0 + n = length lb" "\<forall>l < length lb. i < length (lb ! l) \<and> pos < length (lb ! l ! i)"
    and "k < N" "length labels = N * length lb"
  shows "\<exists>labels'. fetch_label lb N k i pos l0 n labels = Inr labels' \<and> length labels' = length labels \<and>
    (\<forall>j < length labels. labels' ! j = (if j mod N = k \<and> l0 \<le> j div N then lb ! (j div N) ! i ! pos else labels ! j))"
  using assms
proof (induction n arbitrary: l0 labels)
  case 0
  have "\<not> l0 \<le> j div N" if "j < length labels" for j
    using div_bound [of j N "length lb"] that 0 by simp
  then show ?case by simp
next
  case (Suc n)
  have l0: "l0 < length lb" using Suc.prems(1) by simp
  have bound: "N * l0 + k < length labels"
  proof -
    have "N * l0 + k < N * (l0 + 1)" using Suc.prems(3) by simp
    also have "\<dots> \<le> length labels" unfolding Suc.prems(4) using l0 by (intro mult_le_mono2) simp
    finally show ?thesis .
  qed
  let ?labels = "labels[N * l0 + k := lb ! l0 ! i ! pos]"
  obtain labels' where l': "fetch_label lb N k i pos (l0 + 1) n ?labels = Inr labels'" "length labels' = length labels"
    "\<forall>j < length labels. labels' ! j = (if j mod N = k \<and> l0 + 1 \<le> j div N then lb ! (j div N) ! i ! pos else ?labels ! j)"
    using Suc.IH [of "l0 + 1" ?labels] Suc.prems by auto
  have idx: "j = N * l0 + k \<longleftrightarrow> j mod N = k \<and> j div N = l0" for j
    using Suc.prems(3) by (metis mult_div_mod_eq div_mult_self4 div_less add.right_neutral mod_mult_self4 mod_less not_less_zero neq0_conv)
  have "labels' ! j = (if j mod N = k \<and> l0 \<le> j div N then lb ! (j div N) ! i ! pos else labels ! j)"
    if "j < length labels" for j
  proof -
    have "(N * l0 + k) div N = l0" "(N * l0 + k) mod N = k" using Suc.prems(3) by simp_all
    then show ?thesis using l'(3) that idx [of j] bound
      by (cases "j = N * l0 + k") (simp_all only: nth_list_update simp_thms if_True if_False, auto)
  qed
  then show ?case using l' l0 bound Suc.prems(2) by simp
qed

lemma fetch_labels_eq:
  assumes "bundle_wf ra b" "start + length xs \<le> bb_num_bins b" "k0 + length xs = N" "length labels = N * bb_label_size b"
  shows "if \<forall>k < length xs. xs ! k \<in> set (bb_item_bins b ! (start + k))
    then \<exists>labels'. fetch_labels ra b N xs k0 start labels = Inr (Some labels') \<and> length labels' = length labels \<and>
      (\<forall>j < length labels. labels' ! j = (if k0 \<le> j mod N
         then the (map_of (bin_rows b (start + (j mod N - k0))) (xs ! (j mod N - k0))) ! (j div N) else labels ! j))
    else fetch_labels ra b N xs k0 start labels = Inr None"
  using assms(2-)
proof (induction xs arbitrary: start k0 labels)
  case Nil
  have "\<not> k0 \<le> j mod N" if "j < length labels" for j
    using that Nil by (metis add.right_neutral length_0_conv mod_less_divisor mult_eq_0_iff not_less_zero neq0_conv leD)
  then show ?case by simp
next
  case (Cons x xs)
  note w = wf_bin [OF assms(1), of start]
  have i: "start < bb_num_bins b" using Cons.prems(1) by simp
  have shape: "bundle_shape b" using assms(1) by (simp add: bundle_wf_def)
  note rows = bin_holds_rows [OF shape i]
  show ?case
  proof (cases "x \<in> set (bb_item_bins b ! start)")
    case False
    then have "find_felt (bb_item_bins b ! start) x = None" by simp
    then show ?thesis using w i get_iterator_synced [OF w(3), of x] False
      by (auto simp: All_less_Suc2 simp del: find_felt_None)
  next
    case True
    then obtain p where p: "find_felt (bb_item_bins b ! start) x = Some p" using find_felt_None by blast
    note pl = find_felt_SomeD [OF p]
    obtain labels1 where l1: "fetch_label (bb_label_bins b) N k0 start p 0 (bb_label_size b) labels = Inr labels1"
      "length labels1 = length labels"
      "\<forall>j < length labels. labels1 ! j = (if j mod N = k0 then bb_label_bins b ! (j div N) ! start ! p else labels ! j)"
      using fetch_label_eq [of 0 "bb_label_size b" "bb_label_bins b" start p k0 N labels] shape i pl Cons.prems(2,3)
      by (auto simp: bundle_shape_def)
    have lab: "bb_label_bins b ! l ! start ! p = the (map_of (bin_rows b start) x) ! l" if "l < bb_label_size b" for l
    proof -
      have "map_of (bin_rows b start) x = Some (snd (bin_rows b start ! p))"
        using find_felt_map_of [of "bin_rows b start" x] p by (simp add: bin_rows_fst)
      moreover have "bb_label_bins b ! l ! start = map (\<lambda>r. snd r ! l) (bin_rows b start)"
        using rows that by (simp add: bin_holds_def)
      moreover have "p < length (bin_rows b start)" using pl by simp
      ultimately show ?thesis by (simp del: bin_rows_length)
    qed
    have step: "fetch_labels ra b N (x # xs) k0 start labels = fetch_labels ra b N xs (k0 + 1) (start + 1) labels1"
      using w i get_iterator_synced [OF w(3), of x] p l1 by simp
    have jd: "j div N < bb_label_size b" if "j < length labels" for j
      using div_bound [of j N "bb_label_size b"] that Cons.prems(3) by simp
    have ih: "if \<forall>k < length xs. xs ! k \<in> set (bb_item_bins b ! (start + 1 + k))
      then \<exists>labels'. fetch_labels ra b N xs (k0 + 1) (start + 1) labels1 = Inr (Some labels') \<and> length labels' = length labels1 \<and>
        (\<forall>j < length labels1. labels' ! j = (if k0 + 1 \<le> j mod N
           then the (map_of (bin_rows b (start + 1 + (j mod N - (k0 + 1)))) (xs ! (j mod N - (k0 + 1)))) ! (j div N) else labels1 ! j))
      else fetch_labels ra b N xs (k0 + 1) (start + 1) labels1 = Inr None"
      using Cons.prems l1(2) by (intro Cons.IH) simp_all
    show ?thesis
    proof (cases "\<forall>k < length xs. xs ! k \<in> set (bb_item_bins b ! (start + 1 + k))")
      case False
      have "fetch_labels ra b N xs (k0 + 1) (start + 1) labels1 = Inr None"
        using ih unfolding if_not_P [OF False] .
      moreover have "\<not> (\<forall>k < length (x # xs). (x # xs) ! k \<in> set (bb_item_bins b ! (start + k)))"
        using False by (auto simp: All_less_Suc2)
      ultimately show ?thesis unfolding step by (simp only: if_False)
    next
      case all: True
      then obtain labels' where l': "fetch_labels ra b N xs (k0 + 1) (start + 1) labels1 = Inr (Some labels')"
        "length labels' = length labels1"
        "\<forall>j < length labels1. labels' ! j = (if k0 + 1 \<le> j mod N
           then the (map_of (bin_rows b (start + 1 + (j mod N - (k0 + 1)))) (xs ! (j mod N - (k0 + 1)))) ! (j div N) else labels1 ! j)"
        using ih unfolding if_P [OF all] by blast
      have "labels' ! j = (if k0 \<le> j mod N
         then the (map_of (bin_rows b (start + (j mod N - k0))) ((x # xs) ! (j mod N - k0))) ! (j div N) else labels ! j)"
        if j: "j < length labels" for j
      proof (cases "j mod N" k0 rule: linorder_cases)
        case less
        then show ?thesis using l'(3) l1(2,3) j by simp
      next
        case equal
        then show ?thesis using l'(3) l1(2,3) j lab [OF jd [OF j]] by simp
      next
        case greater
        then have "j mod N - k0 = Suc (j mod N - (k0 + 1))" "k0 + 1 \<le> j mod N" by simp_all
        then show ?thesis using l'(3) l1(2,3) j by simp
      qed
      then show ?thesis using True all l' l1(2) unfolding step by (simp add: All_less_Suc2)
    qed
  qed
qed

subsection \<open>Operations on bundles\<close>

lemma make_bundle_ok:
  assumes "ps_low_degree \<le> max_bin_size" "num_bins \<noteq> 0" "max_bin_size < 2 ^ 48"
  shows "\<exists>b. make_bundle True label_size max_bin_size ps_low_degree num_bins False = Inr b \<and>
    bundle_wf ra b \<and> bb_label_size b = label_size \<and> bb_num_bins b = num_bins \<and>
    bb_ps_low_degree b = ps_low_degree \<and> bb_cache_invalid b \<and>
    (\<forall>i < num_bins. bin_rows b i = [] \<and> not_full (bb_filters b ! i))"
proof -
  obtain f where f: "make_filter max_bin_size 12 = Inr f" "filter_inv ra f" "filter_entries ra f = {#}"
    "\<not> ov_used (cf_overflow f)"
    using make_filter_ok [of 12 max_bin_size ra] assms(3) by auto
  have fs: "map_res (\<lambda>_. make_filter max_bin_size 12) xs = Inr (replicate (length xs) f)" for xs :: "nat list"
    by (induction xs) (simp_all add: f(1))
  let ?b = "bundle_clear_cache \<lparr>bb_cache_invalid = True, bb_item_bins = replicate num_bins [],
    bb_label_bins = replicate label_size (replicate num_bins []), bb_filters = replicate num_bins f,
    bb_stripped = False, bb_label_size = label_size, bb_max_bin_size = max_bin_size,
    bb_ps_low_degree = ps_low_degree, bb_num_bins = num_bins,
    bb_cache = empty_cache\<lparr>bc_batched_interp_polyns := replicate label_size []\<rparr>\<rparr>"
  have "make_bundle True label_size max_bin_size ps_low_degree num_bins False = Inr ?b"
    using assms fs [of "[0..<num_bins]"]
    by (simp add: make_bundle_def bundle_clear_def bundle_clear_cache_def Let_def)
  moreover have "bundle_wf ra ?b"
    using f by (simp add: bundle_wf_def bundle_shape_def bundle_clear_cache_def bin_synced_def bin_rows_def)
  ultimately show ?thesis using f(4)
    by (intro exI [of _ ?b]) (simp add: bundle_clear_cache_def bin_rows_def not_full_def)
qed

text \<open>
  The abstract bundle: the rows of every bin. An operation changes the rows of the bins from
  \<open>start\<close> with the items given, one per bin.
\<close>

definition bundle_rows :: "'p bin_bundle \<Rightarrow> nat \<Rightarrow> row list" where
  "bundle_rows b i = (if i < bb_num_bins b then bin_rows b i else [])"

definition rows_update :: "(nat \<Rightarrow> row list \<Rightarrow> row list) \<Rightarrow> nat \<Rightarrow> nat \<Rightarrow> (nat \<Rightarrow> row list) \<Rightarrow> nat \<Rightarrow> row list" where
  "rows_update g start n rows i = (if start \<le> i \<and> i < start + n then g (i - start) (rows i) else rows i)"

definition key_at :: "(nat \<Rightarrow> row list) \<Rightarrow> nat \<Rightarrow> felt \<Rightarrow> bool" where
  "key_at rows i x \<longleftrightarrow> x \<in> fst ` set (rows i)"

lemma bins_pass_rows:
  assumes "bins_pass ra ok start n (\<lambda>i. g (i - start) (bin_rows b i)) b b'" "start + n \<le> bb_num_bins b"
  shows "bundle_rows b' = rows_update g start n (bundle_rows b)"
proof
  fix i
  show "bundle_rows b' i = rows_update g start n (bundle_rows b) i"
    using assms by (auto simp: bins_pass_def same_frame_def bundle_rows_def rows_update_def)
qed

lemma key_at_items: "i < bb_num_bins b \<Longrightarrow> key_at (bundle_rows b) i x \<longleftrightarrow> x \<in> set (bb_item_bins b ! i)"
  using bin_rows_fst [of b i] by (simp add: key_at_def bundle_rows_def flip: set_map)

lemma bins_pass_wf:
  assumes "bundle_wf ra b" "bins_pass ra ok start n R b b'"
    and "\<And>i. start \<le> i \<Longrightarrow> i < start + n \<Longrightarrow> i < bb_num_bins b \<Longrightarrow> ok (bb_filters b ! i)"
    and "\<And>i. bb_label_size b \<noteq> 0 \<Longrightarrow> start \<le> i \<Longrightarrow> i < start + n \<Longrightarrow> i < bb_num_bins b \<Longrightarrow> distinct (map fst (R i))"
  shows "bundle_wf ra b'"
  unfolding bundle_wf_def
proof (intro conjI allI impI)
  have fr: "bb_num_bins b' = bb_num_bins b" "bb_label_size b' = bb_label_size b"
    using assms(2) by (simp_all add: bins_pass_def same_frame_def)
  show "bundle_shape b'" using assms(2) by (simp add: bins_pass_def)
  fix i assume i: "i < bb_num_bins b'"
  show "bin_synced ra (bb_item_bins b' ! i) (bb_filters b' ! i)"
    using assms(1-3) i fr by (auto simp: bundle_wf_def bins_pass_def)
  assume "bb_label_size b' \<noteq> 0"
  then show "distinct (map fst (bin_rows b' i))"
    using assms(1,2,4) i fr by (auto simp: bundle_wf_def bins_pass_def)
qed

lemma foldl_max: "foldl max m xs = Max (insert m (set xs))" for m :: nat
proof (induction xs arbitrary: m)
  case (Cons a xs)
  have "Max (insert (max m a) (set xs)) = max (max m a) (Max (insert m (set xs)))"
    by (cases "xs = []") (simp_all add: Max_insert)
  also have "\<dots> = Max (insert m (set (a # xs)))"
    by (cases "xs = []") (simp_all add: Max_insert)
  finally show ?case using Cons by simp
qed simp

definition largest :: "(nat \<Rightarrow> row list) \<Rightarrow> nat \<Rightarrow> nat \<Rightarrow> nat" where
  "largest rows start n = Max ((\<lambda>k. length (rows (start + k)) + 1) ` {..<n})"

lemma largest_bin_largest:
  assumes "n \<noteq> 0" "start + n \<le> bb_num_bins b"
  shows "largest_bin b start n 0 = largest (bundle_rows b) start n"
proof -
  let ?S = "(\<lambda>i. length (bb_item_bins b ! i) + 1) ` {start..<start + n}"
  have "largest_bin b start n 0 = Max (insert 0 ?S)"
    by (simp add: largest_bin_def foldl_max)
  also have "\<dots> = Max ?S" using assms(1) by (simp add: Max_insert)
  also have "?S = (\<lambda>k. length (bundle_rows b (start + k)) + 1) ` {..<n}"
  proof -
    have "{start..<start + n} = (\<lambda>k. start + k) ` {..<n}"
      by (simp add: lessThan_atLeast0 add.commute)
    then show ?thesis using assms(2) by (auto simp: image_image bundle_rows_def)
  qed
  finally show ?thesis by (simp add: largest_def)
qed

lemma largest_small:
  assumes "n \<noteq> 0" "\<And>i. length (rows i) < 2 ^ 31 - 1"
  shows "largest rows start n < 2 ^ 31"
proof -
  have "largest rows start n \<in> (\<lambda>k. length (rows (start + k)) + 1) ` {..<n}"
    unfolding largest_def using assms(1) by (intro Max_in) auto
  then obtain k where "largest rows start n = length (rows (start + k)) + 1" by blast
  then show ?thesis using assms(2) [of "start + k"] by simp
qed

lemma room_iff: "\<not> no_room b start n \<Longrightarrow> start + n \<le> bb_num_bins b"
  unfolding no_room_def by linarith

lemma wf_filters: "bundle_wf ra b \<Longrightarrow> \<forall>i < bb_num_bins b. filter_inv ra (bb_filters b ! i)"
  by (simp add: bundle_wf_def bin_synced_def)

definition small_bins :: "'p bin_bundle \<Rightarrow> bool" where
  "small_bins b \<longleftrightarrow> (\<forall>i < bb_num_bins b. length (bb_item_bins b ! i) < 2 ^ 31 - 1)"

lemma small_rows: "small_bins b \<Longrightarrow> length (bundle_rows b i) < 2 ^ 31 - 1"
  by (simp add: small_bins_def bundle_rows_def)

lemma insert_rows:
  assumes wf: "bundle_wf ra b" and room: "start + length items \<le> bb_num_bins b" and "items \<noteq> []" "small_bins b"
    and lab: "\<forall>x \<in> set items. length (snd x) = bb_label_size b"
    and abs: "bb_label_size b \<noteq> 0 \<longrightarrow> (\<forall>k < length items. \<not> key_at (bundle_rows b) (start + k) (fst (items ! k)))"
  shows "\<exists>b'. bind_res (insert_item_labels ra rnd dry items start 0 b) (\<lambda>(b', m). bind_res (safe_cast_i32 m) (\<lambda>n. Inr (b', n))) =
      Inr (b', int (largest (bundle_rows b) start (length items))) \<and>
    (if dry then b' = b else bb_cache_invalid b' \<and> same_frame b b' \<and>
       bundle_rows b' = rows_update (\<lambda>k rows. rows @ [items ! k]) start (length items) (bundle_rows b) \<and>
       ((\<forall>k < length items. not_full (bb_filters b ! (start + k))) \<longrightarrow> bundle_wf ra b'))"
proof -
  have shape: "bundle_shape b" using wf by (simp add: bundle_wf_def)
  have n: "length items \<noteq> 0" using assms(3) by simp
  have cast: "safe_cast_i32 (largest_bin b start (length items) 0) = Inr (int (largest (bundle_rows b) start (length items)))"
    using largest_bin_largest [OF n room] largest_small [OF n small_rows [OF assms(4)]]
    by (simp add: safe_cast_i32_def)
  show ?thesis
  proof (cases dry)
    case True
    then show ?thesis using dry_run_insert [OF shape room, of ra rnd 0] cast by simp
  next
    case False
    obtain b' where b': "insert_item_labels ra rnd False items start 0 b = Inr (b', largest_bin b start (length items) 0)"
      "bins_pass ra not_full start (length items) (\<lambda>i. bin_rows b i @ [items ! (i - start)]) b b'"
      using insert_pass [OF shape room wf_filters [OF wf] lab] by blast
    have "bundle_rows b' = rows_update (\<lambda>k rows. rows @ [items ! k]) start (length items) (bundle_rows b)"
      using b'(2) room by (rule bins_pass_rows)
    moreover have "bundle_wf ra b'" if nf: "\<forall>k < length items. not_full (bb_filters b ! (start + k))"
    proof (rule bins_pass_wf [OF wf b'(2)])
      fix i assume i: "start \<le> i" "i < start + length items" "i < bb_num_bins b"
      then have ik: "i = start + (i - start)" "i - start < length items" by linarith+
      then show "not_full (bb_filters b ! i)" using nf by (metis)
      assume l: "bb_label_size b \<noteq> 0"
      then have "\<not> key_at (bundle_rows b) i (fst (items ! (i - start)))" using abs ik by metis
      then show "distinct (map fst (bin_rows b i @ [items ! (i - start)]))"
        using wf l i(3) by (simp add: bundle_wf_def key_at_def bundle_rows_def)
    qed
    ultimately show ?thesis using False b' cast n by (auto simp: bins_pass_def)
  qed
qed

end
