(* ===== verification/BundleSpec.thy ===== *)
theory BundleSpec
  imports BundleRefine
begin

text \<open>
  What the operations of a bin bundle promise, over its abstract rows: each either refuses and
  leaves the bundle alone or changes exactly the rows it should; the laws are collected in a locale
  for label stores, from which the reading of labels after an update follows.
\<close>

subsection \<open>Operations\<close>

lemma insert_labels_spec:
  assumes wf: "bundle_wf ra b" and "bb_label_size b \<noteq> 0" "items \<noteq> []" "small_bins b"
    and lab: "\<forall>x \<in> set items. length (snd x) = bb_label_size b"
  shows "\<exists>b' n. multi_insert_labels ra rnd items start dry b = Inr (b', n) \<and>
    (if no_room b start (length items) \<or> (\<exists>k < length items. key_at (bundle_rows b) (start + k) (fst (items ! k)))
     then b' = b \<and> n = -1
     else n = int (largest (bundle_rows b) start (length items)) \<and>
       (if dry then b' = b else bb_cache_invalid b' \<and> same_frame b b' \<and>
          bundle_rows b' = rows_update (\<lambda>k rows. rows @ [items ! k]) start (length items) (bundle_rows b) \<and>
          ((\<forall>k < length items. not_full (bb_filters b ! (start + k))) \<longrightarrow> bundle_wf ra b')))"
proof (cases "no_room b start (length items)")
  case True
  then show ?thesis using assms by (auto simp: multi_insert_labels_def bundle_wf_def bundle_shape_def)
next
  case False
  note room = room_iff [OF False]
  have absent: "all_absent ra b (map fst items) start =
      Inr (\<forall>k < length items. \<not> key_at (bundle_rows b) (start + k) (fst (items ! k)))"
    using all_absent_eq [OF wf, of start "map fst items"] room by (simp add: key_at_items)
  have start: "multi_insert_labels ra rnd items start dry b =
      bind_res (all_absent ra b (map fst items) start) (\<lambda>absent. if \<not> absent then Inr (b, -1)
        else bind_res (insert_item_labels ra rnd dry items start 0 b) (\<lambda>(b', m). bind_res (safe_cast_i32 m) (\<lambda>n. Inr (b', n))))"
    using assms False by (auto simp: multi_insert_labels_def bundle_wf_def bundle_shape_def)
  show ?thesis
  proof (cases "\<exists>k < length items. key_at (bundle_rows b) (start + k) (fst (items ! k))")
    case True
    then show ?thesis using absent start by auto
  next
    case none: False
    then obtain b' where b': "bind_res (insert_item_labels ra rnd dry items start 0 b)
        (\<lambda>(b', m). bind_res (safe_cast_i32 m) (\<lambda>n. Inr (b', n))) = Inr (b', int (largest (bundle_rows b) start (length items)))"
      "if dry then b' = b else bb_cache_invalid b' \<and> same_frame b b' \<and>
         bundle_rows b' = rows_update (\<lambda>k rows. rows @ [items ! k]) start (length items) (bundle_rows b) \<and>
         ((\<forall>k < length items. not_full (bb_filters b ! (start + k))) \<longrightarrow> bundle_wf ra b')"
      using insert_rows [OF wf room assms(3,4) lab, where rnd = rnd and dry = dry] by blast
    have "multi_insert_labels ra rnd items start dry b = Inr (b', int (largest (bundle_rows b) start (length items)))"
      using none absent start b'(1) by simp
    moreover have "\<not> (no_room b start (length items) \<or>
        (\<exists>k < length items. key_at (bundle_rows b) (start + k) (fst (items ! k))))"
      using none False by blast
    ultimately show ?thesis using b'(2) by (intro exI conjI) (simp_all only: if_False simp_thms)
  qed
qed

lemma insert_items_spec:
  assumes wf: "bundle_wf ra b" and "bb_label_size b = 0" "items \<noteq> []" "small_bins b"
  shows "\<exists>b' n. multi_insert_items ra rnd items start dry b = Inr (b', n) \<and>
    (if no_room b start (length items) then b' = b \<and> n = -1
     else n = int (largest (bundle_rows b) start (length items)) \<and>
       (if dry then b' = b else bb_cache_invalid b' \<and> same_frame b b' \<and>
          bundle_rows b' = rows_update (\<lambda>k rows. rows @ [(items ! k, [])]) start (length items) (bundle_rows b) \<and>
          ((\<forall>k < length items. not_full (bb_filters b ! (start + k))) \<longrightarrow> bundle_wf ra b')))"
proof (cases "no_room b start (length items)")
  case True
  then show ?thesis using assms by (auto simp: multi_insert_items_def bundle_wf_def bundle_shape_def)
next
  case False
  let ?il = "map (\<lambda>x. (x, [])) items"
  have start: "multi_insert_items ra rnd items start dry b =
      bind_res (insert_item_labels ra rnd dry ?il start 0 b) (\<lambda>(b', m). bind_res (safe_cast_i32 m) (\<lambda>n. Inr (b', n)))"
    using assms False insert_items_labels [OF assms(2)]
    by (auto simp: multi_insert_items_def bundle_wf_def bundle_shape_def)
  have upd: "rows_update (\<lambda>k rows. rows @ [?il ! k]) start (length items) R =
      rows_update (\<lambda>k rows. rows @ [(items ! k, [])]) start (length items) R" for R
    by (rule ext) (simp add: rows_update_def less_diff_conv2)
  obtain b' where b': "bind_res (insert_item_labels ra rnd dry ?il start 0 b)
      (\<lambda>(b', m). bind_res (safe_cast_i32 m) (\<lambda>n. Inr (b', n))) = Inr (b', int (largest (bundle_rows b) start (length ?il)))"
    "if dry then b' = b else bb_cache_invalid b' \<and> same_frame b b' \<and>
       bundle_rows b' = rows_update (\<lambda>k rows. rows @ [?il ! k]) start (length ?il) (bundle_rows b) \<and>
       ((\<forall>k < length ?il. not_full (bb_filters b ! (start + k))) \<longrightarrow> bundle_wf ra b')"
    using insert_rows [OF wf, where start = start and items = ?il and rnd = rnd and dry = dry] room_iff [OF False] assms
    by auto
  show ?thesis
    using start b' False by (intro exI conjI) (simp_all only: if_False simp_thms length_map upd)
qed

lemma overwrite_spec:
  assumes wf: "bundle_wf ra b" and "items \<noteq> []" and lab: "\<forall>x \<in> set items. length (snd x) = bb_label_size b"
  shows "\<exists>b' found. try_multi_overwrite_labels ra items start b = Inr (b', found) \<and> bundle_wf ra b' \<and> same_frame b b' \<and>
    (found \<longleftrightarrow> \<not> no_room b start (length items) \<and> (\<forall>k < length items. key_at (bundle_rows b) (start + k) (fst (items ! k)))) \<and>
    (if found then bb_cache_invalid b' \<and> bundle_rows b' =
       rows_update (\<lambda>k. set_key (fst (items ! k)) (snd (items ! k))) start (length items) (bundle_rows b)
     else b' = b)"
proof (cases "no_room b start (length items)")
  case True
  then show ?thesis using assms by (auto simp: try_multi_overwrite_labels_def bundle_wf_def bundle_shape_def)
next
  case False
  note room = room_iff [OF False]
  have shape: "bundle_shape b" using wf by (simp add: bundle_wf_def)
  have start: "try_multi_overwrite_labels ra items start b =
      (if \<forall>k < length items. key_at (bundle_rows b) (start + k) (fst (items ! k))
       then bind_res (overwrite_labels items start b) (\<lambda>b'. Inr (b', True)) else Inr (b, False))"
    using all_present_eq [OF wf, of start "map fst items"] room assms False
    by (auto simp: try_multi_overwrite_labels_def key_at_items bundle_wf_def bundle_shape_def)
  show ?thesis
  proof (cases "\<forall>k < length items. key_at (bundle_rows b) (start + k) (fst (items ! k))")
    case True
    then have "\<forall>k < length items. fst (items ! k) \<in> set (bb_item_bins b ! (start + k))"
      using room by (simp add: key_at_items)
    then obtain b' where b': "overwrite_labels items start b = Inr b'"
      "bins_pass ra (\<lambda>_. True) start (length items)
        (\<lambda>i. set_key (fst (items ! (i - start))) (snd (items ! (i - start))) (bin_rows b i)) b b'"
      using overwrite_pass [OF shape room _ lab] by blast
    have "bundle_wf ra b'"
      using wf by (intro bins_pass_wf [OF wf b'(2)]) (simp_all add: bundle_wf_def)
    moreover have "bundle_rows b' =
        rows_update (\<lambda>k. set_key (fst (items ! k)) (snd (items ! k))) start (length items) (bundle_rows b)"
      using b'(2) room by (rule bins_pass_rows)
    ultimately show ?thesis using True False b' assms(2) unfolding start by (auto simp: bins_pass_def)
  next
    case absent: False
    then show ?thesis using wf unfolding start by auto
  qed
qed

lemma overwrite_items_spec:
  assumes wf: "bundle_wf ra b" and "items \<noteq> []"
  shows "\<exists>found. try_multi_overwrite_items ra items start b =
      Inr (if found then b\<lparr>bb_cache_invalid := True\<rparr> else b, found) \<and>
    (found \<longleftrightarrow> \<not> no_room b start (length items) \<and> (\<forall>k < length items. key_at (bundle_rows b) (start + k) (items ! k)))"
proof (cases "no_room b start (length items)")
  case True
  then show ?thesis using assms by (auto simp: try_multi_overwrite_items_def bundle_wf_def bundle_shape_def)
next
  case False
  note room = room_iff [OF False]
  show ?thesis
    using all_present_eq [OF wf room] room assms False
    by (auto simp: try_multi_overwrite_items_def key_at_items bundle_wf_def bundle_shape_def)
qed

lemma remove_spec_bundle:
  assumes wf: "bundle_wf ra b" and "items \<noteq> []"
  shows "\<exists>b' found. try_multi_remove ra rnd items start b = Inr (b', found) \<and> bundle_wf ra b' \<and> same_frame b b' \<and>
    (found \<longleftrightarrow> \<not> no_room b start (length items) \<and> (\<forall>k < length items. key_at (bundle_rows b) (start + k) (items ! k))) \<and>
    (if found then bb_cache_invalid b' \<and>
       bundle_rows b' = rows_update (\<lambda>k. remove_key (items ! k)) start (length items) (bundle_rows b)
     else b' = b)"
proof (cases "no_room b start (length items)")
  case True
  then show ?thesis using assms by (auto simp: try_multi_remove_def bundle_wf_def bundle_shape_def)
next
  case False
  note room = room_iff [OF False]
  let ?ps = "map (\<lambda>k. the (find_felt (bb_item_bins b ! (start + k)) (items ! k))) [0..<length items]"
  have keys: "(\<forall>k < length items. items ! k \<in> set (bb_item_bins b ! (start + k))) \<longleftrightarrow>
      (\<forall>k < length items. key_at (bundle_rows b) (start + k) (items ! k))"
    using room by (simp add: key_at_items)
  show ?thesis
  proof (cases "\<forall>k < length items. key_at (bundle_rows b) (start + k) (items ! k)")
    case True
    obtain b1 b' where b': "erase_items ra rnd ?ps start b = Inr b1"
      "erase_labels ?ps start 0 (bb_label_size b1) (bb_label_bins b1) = Inr (bb_label_bins b')"
      "b' = b1\<lparr>bb_label_bins := bb_label_bins b'\<rparr>"
      "bins_pass ra (\<lambda>_. True) start (length items) (\<lambda>i. remove_key (items ! (i - start)) (bin_rows b i)) b b'"
      using remove_pass [OF wf room iffD2 [OF keys True] refl, of rnd] by (elim exE conjE)
    have "try_multi_remove ra rnd items start b = Inr (b', True)"
    proof -
      have found: "find_all ra b items start = Inr (Some ?ps)"
        using find_all_eq [OF wf room] unfolding if_P [OF iffD2 [OF keys True]] .
      have "\<not> bb_stripped b" using wf by (simp add: bundle_wf_def bundle_shape_def)
      then have "try_multi_remove ra rnd items start b = Inr (b1\<lparr>bb_label_bins := bb_label_bins b'\<rparr>, True)"
        unfolding try_multi_remove_def found using b'(1,2) assms(2) False
        by (simp only: if_False bind_res.simps option.case)
      then show ?thesis unfolding b'(3) [symmetric] .
    qed
    moreover have "bundle_wf ra b'"
      using wf by (intro bins_pass_wf [OF wf b'(4)]) (simp_all add: bundle_wf_def remove_key_fst)
    moreover have "bundle_rows b' = rows_update (\<lambda>k. remove_key (items ! k)) start (length items) (bundle_rows b)"
      using b'(4) room by (rule bins_pass_rows)
    ultimately show ?thesis using True False b'(4) assms(2) by (auto simp: bins_pass_def)
  next
    case absent: False
    have "find_all ra b items start = Inr None"
      using find_all_eq [OF wf room] unfolding keys if_not_P [OF absent] .
    then have "try_multi_remove ra rnd items start b = Inr (b, False)"
      using assms False by (simp add: try_multi_remove_def bundle_wf_def bundle_shape_def)
    then show ?thesis using absent wf by auto
  qed
qed

text \<open>The label parts of the items, ordered by part first, as \<open>try_get_multi_label\<close> returns them.\<close>

definition interleave :: "nat \<Rightarrow> felt list list \<Rightarrow> felt list" where
  "interleave width labels = map (\<lambda>j. labels ! (j mod length labels) ! (j div length labels)) [0..<length labels * width]"

lemma get_label_spec:
  assumes wf: "bundle_wf ra b" and "items \<noteq> []"
  shows "try_get_multi_label ra items start b = Inr
    (if \<not> no_room b start (length items) \<and> (\<forall>k < length items. key_at (bundle_rows b) (start + k) (items ! k))
     then Some (interleave (bb_label_size b)
       (map (\<lambda>k. the (map_of (bundle_rows b (start + k)) (items ! k))) [0..<length items]))
     else None)"
proof (cases "no_room b start (length items)")
  case True
  then show ?thesis using assms by (auto simp: try_get_multi_label_def bundle_wf_def bundle_shape_def)
next
  case False
  note room = room_iff [OF False]
  let ?n = "length items" and ?zeros = "replicate (length items * bb_label_size b) (0 :: felt)"
  have keys: "(\<forall>k < ?n. items ! k \<in> set (bb_item_bins b ! (start + k))) \<longleftrightarrow>
      (\<forall>k < ?n. key_at (bundle_rows b) (start + k) (items ! k))"
    using room by (simp add: key_at_items)
  have get: "try_get_multi_label ra items start b = fetch_labels ra b ?n items 0 start ?zeros"
    using assms False by (simp add: try_get_multi_label_def bundle_wf_def bundle_shape_def)
  note fetched = fetch_labels_eq [OF wf room, of 0 ?n ?zeros, unfolded keys, simplified]
  show ?thesis
  proof (cases "\<forall>k < ?n. key_at (bundle_rows b) (start + k) (items ! k)")
    case True
    then obtain ls where ls: "fetch_labels ra b ?n items 0 start ?zeros = Inr (Some ls)"
      "length ls = ?n * bb_label_size b"
      "\<forall>j < ?n * bb_label_size b. ls ! j = the (map_of (bin_rows b (start + j mod ?n)) (items ! (j mod ?n))) ! (j div ?n)"
      using fetched by auto
    have "start + j mod ?n < bb_num_bins b" for j
    proof -
      have "j mod ?n < ?n" using assms(2) by simp
      then show ?thesis using room by linarith
    qed
    then have "ls = interleave (bb_label_size b) (map (\<lambda>k. the (map_of (bundle_rows b (start + k)) (items ! k))) [0..<?n])"
      using ls(2,3) assms(2) by (intro nth_equalityI) (auto simp: interleave_def bundle_rows_def)
    then show ?thesis using get ls(1) True False by simp
  next
    case absent: False
    then have "fetch_labels ra b ?n items 0 start ?zeros = Inr None" using fetched by auto
    then show ?thesis using get absent by auto
  qed
qed

subsection \<open>Label stores\<close>

text \<open>
  The interface of a labeled bundle as its clients see it: a state with an invariant, the rows of
  its bins, the relation between the states before and after a successful call, and the look-up.
\<close>

locale label_store =
  fixes inv :: "'b \<Rightarrow> bool" and width :: "'b \<Rightarrow> nat" and full :: "'b \<Rightarrow> nat \<Rightarrow> nat \<Rightarrow> bool"
    and rows :: "'b \<Rightarrow> nat \<Rightarrow> row list"
    and inserted overwritten :: "(felt \<times> felt list) list \<Rightarrow> nat \<Rightarrow> 'b \<Rightarrow> 'b \<Rightarrow> bool"
    and removed :: "felt list \<Rightarrow> nat \<Rightarrow> 'b \<Rightarrow> 'b \<Rightarrow> bool"
    and lookup :: "felt list \<Rightarrow> nat \<Rightarrow> 'b \<Rightarrow> felt list option res"
  assumes inserted_law: "inv b \<Longrightarrow> inserted items start b b' \<Longrightarrow> items \<noteq> [] \<and> inv b' \<and> width b' = width b \<and>
      \<not> full b' start (length items) \<and> (\<forall>k < length items. \<not> key_at (rows b) (start + k) (fst (items ! k))) \<and>
      rows b' = rows_update (\<lambda>k r. r @ [items ! k]) start (length items) (rows b)"
    and overwritten_law: "inv b \<Longrightarrow> overwritten items start b b' \<Longrightarrow> items \<noteq> [] \<and> inv b' \<and> width b' = width b \<and>
      \<not> full b' start (length items) \<and> (\<forall>k < length items. key_at (rows b) (start + k) (fst (items ! k))) \<and>
      rows b' = rows_update (\<lambda>k. set_key (fst (items ! k)) (snd (items ! k))) start (length items) (rows b)"
    and removed_law: "inv b \<Longrightarrow> removed xs start b b' \<Longrightarrow> xs \<noteq> [] \<and> inv b' \<and> width b' = width b \<and>
      rows b' = rows_update (\<lambda>k. remove_key (xs ! k)) start (length xs) (rows b)"
    and distinct_law: "inv b \<Longrightarrow> distinct (map fst (rows b i))"
    and lookup_law: "inv b \<Longrightarrow> xs \<noteq> [] \<Longrightarrow> lookup xs start b = Inr
      (if \<not> full b start (length xs) \<and> (\<forall>k < length xs. key_at (rows b) (start + k) (xs ! k))
       then Some (interleave (width b) (map (\<lambda>k. the (map_of (rows b (start + k)) (xs ! k))) [0..<length xs]))
       else None)"
begin

lemma lookup_rows:
  assumes "inv b'" "width b' = width b" "\<not> full b' start (length items)" "items \<noteq> []"
    and "\<And>k. k < length items \<Longrightarrow> map_of (rows b' (start + k)) (fst (items ! k)) = Some (snd (items ! k))"
  shows "lookup (map fst items) start b' = Inr (Some (interleave (width b) (map snd items)))"
proof -
  have "\<forall>k < length items. key_at (rows b') (start + k) (fst (items ! k))"
    using assms(5) by (fastforce simp: key_at_def dest: map_of_SomeD)
  moreover have "map (\<lambda>k. the (map_of (rows b' (start + k)) (map fst items ! k))) [0..<length items] = map snd items"
    using assms(5) by (intro nth_equalityI) simp_all
  ultimately show ?thesis
    using lookup_law [OF assms(1), of "map fst items" start] assms(2-4) by simp
qed

lemma lookup_inserted:
  assumes "inv b" "inserted items start b b'"
  shows "lookup (map fst items) start b' = Inr (Some (interleave (width b) (map snd items)))"
proof -
  note law = inserted_law [OF assms]
  have "map_of (rows b' (start + k)) (fst (items ! k)) = Some (snd (items ! k))" if "k < length items" for k
  proof -
    have "map_of (rows b (start + k)) (fst (items ! k)) = None"
      using law that by (simp add: key_at_def map_of_eq_None_iff)
    then show ?thesis using law that by (cases "items ! k") (simp add: rows_update_def map_add_def)
  qed
  then show ?thesis using law by (intro lookup_rows) auto
qed

lemma lookup_overwritten:
  assumes "inv b" "overwritten items start b b'"
  shows "lookup (map fst items) start b' = Inr (Some (interleave (width b) (map snd items)))"
proof -
  note law = overwritten_law [OF assms]
  have "map_of (rows b' (start + k)) (fst (items ! k)) = Some (snd (items ! k))" if "k < length items" for k
    using law that by (simp add: rows_update_def key_at_def map_of_set_key)
  then show ?thesis using law by (intro lookup_rows) auto
qed

lemma lookup_removed:
  assumes "inv b" "removed xs start b b'"
  shows "lookup xs start b' = Inr None"
proof -
  note law = removed_law [OF assms]
  have "\<not> key_at (rows b') (start + 0) (xs ! 0)"
    using law distinct_law [OF assms(1), of start]
    by (auto simp: rows_update_def key_at_def remove_key_fst simp flip: set_map)
  then show ?thesis using lookup_law [of b' xs start] law by auto
qed

end

definition bundle_ready :: "hash_table \<Rightarrow> 'p bin_bundle \<Rightarrow> bool" where
  "bundle_ready ra b \<longleftrightarrow> bundle_wf ra b \<and> bb_label_size b \<noteq> 0"

definition bundle_inserted ::
  "hash_table \<Rightarrow> (nat \<Rightarrow> nat \<Rightarrow> nat) \<Rightarrow> (felt \<times> felt list) list \<Rightarrow> nat \<Rightarrow> 'p bin_bundle \<Rightarrow> 'p bin_bundle \<Rightarrow> bool" where
  "bundle_inserted ra rnd items start b b' \<longleftrightarrow> small_bins b \<and> (\<forall>i < bb_num_bins b. not_full (bb_filters b ! i)) \<and>
     (\<exists>n. multi_insert_labels ra rnd items start False b = Inr (b', n) \<and> n \<noteq> -1)"

lemma insert_succeeds:
  assumes "bundle_wf ra b" "bb_label_size b \<noteq> 0" "small_bins b"
    and "multi_insert_labels ra rnd items start False b = Inr (b', n)" "n \<noteq> -1"
  shows "items \<noteq> []" "\<forall>x \<in> set items. length (snd x) = bb_label_size b" "same_frame b b'"
    "\<not> no_room b start (length items)" "\<forall>k < length items. \<not> key_at (bundle_rows b) (start + k) (fst (items ! k))"
    "bundle_rows b' = rows_update (\<lambda>k r. r @ [items ! k]) start (length items) (bundle_rows b)"
    "(\<forall>k < length items. not_full (bb_filters b ! (start + k))) \<Longrightarrow> bundle_wf ra b'"
proof -
  show 1: "items \<noteq> []" "\<forall>x \<in> set items. length (snd x) = bb_label_size b"
    using assms by (auto simp: multi_insert_labels_def split: if_splits)
  have spec: "if no_room b start (length items) \<or> (\<exists>k < length items. key_at (bundle_rows b) (start + k) (fst (items ! k)))
     then b' = b \<and> n = -1
     else n = int (largest (bundle_rows b) start (length items)) \<and> (bb_cache_invalid b' \<and> same_frame b b' \<and>
          bundle_rows b' = rows_update (\<lambda>k rows. rows @ [items ! k]) start (length items) (bundle_rows b) \<and>
          ((\<forall>k < length items. not_full (bb_filters b ! (start + k))) \<longrightarrow> bundle_wf ra b'))"
    using insert_labels_spec [OF assms(1,2) 1(1) assms(3) 1(2), of rnd start False] assms(4) by simp
  then have ok: "\<not> (no_room b start (length items) \<or> (\<exists>k < length items. key_at (bundle_rows b) (start + k) (fst (items ! k))))"
    using assms(5) by presburger
  then show "\<not> no_room b start (length items)" "\<forall>k < length items. \<not> key_at (bundle_rows b) (start + k) (fst (items ! k))"
    by blast+
  show "same_frame b b'" "bundle_rows b' = rows_update (\<lambda>k r. r @ [items ! k]) start (length items) (bundle_rows b)"
    "(\<forall>k < length items. not_full (bb_filters b ! (start + k))) \<Longrightarrow> bundle_wf ra b'"
    using spec unfolding if_not_P [OF ok] by blast+
qed

lemma rows_distinct: "bundle_ready ra b \<Longrightarrow> distinct (map fst (bundle_rows b i))"
  by (simp add: bundle_ready_def bundle_wf_def bundle_rows_def)

lemma no_room_frame: "same_frame b b' \<Longrightarrow> no_room b' = no_room b"
  by (intro ext) (simp add: no_room_def same_frame_def)

interpretation bins: label_store "bundle_ready ra" bb_label_size no_room bundle_rows
  "bundle_inserted ra rnd" "\<lambda>items start b b'. try_multi_overwrite_labels ra items start b = Inr (b', True)"
  "\<lambda>xs start b b'. try_multi_remove ra rnd xs start b = Inr (b', True)" "try_get_multi_label ra" for ra rnd
proof unfold_locales
  fix b b' :: "'p bin_bundle" and items start
  assume b: "bundle_ready ra b"
  then have wf: "bundle_wf ra b" and l: "bb_label_size b \<noteq> 0" by (simp_all add: bundle_ready_def)
  {
    assume "bundle_inserted ra rnd items start b b'"
    then obtain n where n: "small_bins b" "\<forall>i < bb_num_bins b. not_full (bb_filters b ! i)"
      "multi_insert_labels ra rnd items start False b = Inr (b', n)" "n \<noteq> -1"
      by (auto simp: bundle_inserted_def)
    note ins = insert_succeeds [OF wf l n(1,3,4)]
    have "bundle_wf ra b'" using n(2) room_iff [OF ins(4)] by (intro ins(7)) simp
    then show "items \<noteq> [] \<and> bundle_ready ra b' \<and> bb_label_size b' = bb_label_size b \<and>
        \<not> no_room b' start (length items) \<and> (\<forall>k < length items. \<not> key_at (bundle_rows b) (start + k) (fst (items ! k))) \<and>
        bundle_rows b' = rows_update (\<lambda>k r. r @ [items ! k]) start (length items) (bundle_rows b)"
      using ins(1,5,6) ins(3,4) l no_room_frame [OF ins(3)] by (simp add: bundle_ready_def same_frame_def)
  next
    assume o: "try_multi_overwrite_labels ra items start b = Inr (b', True)"
    then have items: "items \<noteq> []" "\<forall>x \<in> set items. length (snd x) = bb_label_size b"
      by (auto simp: try_multi_overwrite_labels_def split: if_splits)
    show "items \<noteq> [] \<and> bundle_ready ra b' \<and> bb_label_size b' = bb_label_size b \<and>
        \<not> no_room b' start (length items) \<and> (\<forall>k < length items. key_at (bundle_rows b) (start + k) (fst (items ! k))) \<and>
        bundle_rows b' = rows_update (\<lambda>k. set_key (fst (items ! k)) (snd (items ! k))) start (length items) (bundle_rows b)"
      using overwrite_spec [OF wf items, of start] o items(1) l no_room_frame [of b b']
      by (auto simp: bundle_ready_def same_frame_def)
  }
next
  fix b b' :: "'p bin_bundle" and xs start
  assume b: "bundle_ready ra b" and r: "try_multi_remove ra rnd xs start b = Inr (b', True)"
  then have wf: "bundle_wf ra b" and l: "bb_label_size b \<noteq> 0" by (simp_all add: bundle_ready_def)
  have xs: "xs \<noteq> []" using r by (auto simp: try_multi_remove_def split: if_splits)
  then show "xs \<noteq> [] \<and> bundle_ready ra b' \<and> bb_label_size b' = bb_label_size b \<and>
      bundle_rows b' = rows_update (\<lambda>k. remove_key (xs ! k)) start (length xs) (bundle_rows b)"
    using remove_spec_bundle [OF wf xs, of rnd start] r l by (auto simp: bundle_ready_def same_frame_def)
qed (simp_all add: rows_distinct, simp_all add: get_label_spec bundle_ready_def)

subsection \<open>Properties\<close>

text \<open>
  C23. Inserting labeled items into consecutive bins of a well-formed bundle never fails. It returns
  -1 and changes nothing exactly when the bins do not exist or one of the field elements is already
  in its bin; otherwise it returns the size of the largest bin touched, counting the new element,
  and, unless it is a dry run, appends each item with its label to its bin, leaves every other bin
  alone and marks the cache stale. The bundle stays well-formed as long as no filter it adds to is
  full.
\<close>
theorem bundle_insert_labels_refines:
  assumes "bundle_wf ra b" and "bb_label_size b \<noteq> 0" "items \<noteq> []" "small_bins b"
    and "\<forall>x \<in> set items. length (snd x) = bb_label_size b"
  shows "\<exists>b' n. multi_insert_labels ra rnd items start dry b = Inr (b', n) \<and>
    (if no_room b start (length items) \<or> (\<exists>k < length items. key_at (bundle_rows b) (start + k) (fst (items ! k)))
     then b' = b \<and> n = -1
     else n = int (largest (bundle_rows b) start (length items)) \<and>
       (if dry then b' = b else bb_cache_invalid b' \<and> same_frame b b' \<and>
          bundle_rows b' = rows_update (\<lambda>k rows. rows @ [items ! k]) start (length items) (bundle_rows b) \<and>
          ((\<forall>k < length items. not_full (bb_filters b ! (start + k))) \<longrightarrow> bundle_wf ra b')))"
  using assms by (rule insert_labels_spec)

lemma fresh_bundle:
  "\<exists>b :: nat bin_bundle. make_bundle True l 10 0 3 False = Inr b \<and> bundle_wf ra b \<and> bb_label_size b = l \<and>
     bb_num_bins b = 3 \<and> small_bins b \<and> (\<forall>i < 3. bin_rows b i = [] \<and> not_full (bb_filters b ! i))"
proof -
  obtain b :: "nat bin_bundle" where b: "make_bundle True l 10 0 3 False = Inr b" "bundle_wf ra b" "bb_label_size b = l"
    "bb_num_bins b = 3" "\<forall>i < 3. bin_rows b i = [] \<and> not_full (bb_filters b ! i)"
    using make_bundle_ok [of 0 10 3 l ra] by auto
  have "length (bb_item_bins b ! i) = 0" if "i < 3" for i
    using b(5) that bin_rows_length [of b i] by (simp del: bin_rows_length)
  then have "small_bins b" using b(4) by (simp add: small_bins_def)
  then show ?thesis using b by blast
qed

theorem bundle_insert_labels_refines_witness:
  "\<exists>b :: nat bin_bundle. make_bundle True 1 10 0 3 False = Inr b \<and>
    (\<exists>b' n. multi_insert_labels (\<lambda>_. 0) (\<lambda>_ _. 0) [(5, [7]), (6, [8])] 1 False b = Inr (b', n) \<and>
    (if no_room b 1 (length [(5 :: felt, [7 :: felt]), (6, [8])]) \<or>
        (\<exists>k < length [(5 :: felt, [7 :: felt]), (6, [8])]. key_at (bundle_rows b) (1 + k) (fst ([(5, [7 :: felt]), (6, [8])] ! k)))
     then b' = b \<and> n = -1
     else n = int (largest (bundle_rows b) 1 (length [(5 :: felt, [7 :: felt]), (6, [8])])) \<and>
       (if False then b' = b else bb_cache_invalid b' \<and> same_frame b b' \<and>
          bundle_rows b' = rows_update (\<lambda>k rows. rows @ [[(5, [7]), (6, [8])] ! k]) 1 (length [(5 :: felt, [7 :: felt]), (6, [8])]) (bundle_rows b) \<and>
          ((\<forall>k < length [(5 :: felt, [7 :: felt]), (6, [8])]. not_full (bb_filters b ! (1 + k))) \<longrightarrow> bundle_wf (\<lambda>_. 0) b'))))"
proof -
  obtain b :: "nat bin_bundle" where b: "make_bundle True 1 10 0 3 False = Inr b" "bundle_wf (\<lambda>_. 0) b"
    "bb_label_size b = 1" "small_bins b"
    using fresh_bundle [of 1 "\<lambda>_. 0"] by blast
  have h: "bb_label_size b \<noteq> 0" "\<forall>x \<in> set [(5 :: felt, [7 :: felt]), (6, [8])]. length (snd x) = bb_label_size b"
    using b(3) by simp_all
  show ?thesis by (rule exI [of _ b], rule conjI, rule b(1), rule bundle_insert_labels_refines [OF b(2) h(1) list.distinct(2) b(4) h(2)])
qed

text \<open>
  Inserting unlabeled items never fails on a well-formed bundle; it refuses exactly when the bins
  do not exist, and otherwise appends each item to its bin, also when it is there already.
\<close>
theorem bundle_insert_items_refines:
  assumes "bundle_wf ra b" and "bb_label_size b = 0" "items \<noteq> []" "small_bins b"
  shows "\<exists>b' n. multi_insert_items ra rnd items start dry b = Inr (b', n) \<and>
    (if no_room b start (length items) then b' = b \<and> n = -1
     else n = int (largest (bundle_rows b) start (length items)) \<and>
       (if dry then b' = b else bb_cache_invalid b' \<and> same_frame b b' \<and>
          bundle_rows b' = rows_update (\<lambda>k rows. rows @ [(items ! k, [])]) start (length items) (bundle_rows b) \<and>
          ((\<forall>k < length items. not_full (bb_filters b ! (start + k))) \<longrightarrow> bundle_wf ra b')))"
  using assms by (rule insert_items_spec)

theorem bundle_insert_items_refines_witness:
  "\<exists>b :: nat bin_bundle. make_bundle True 0 10 0 3 False = Inr b \<and>
    (\<exists>b' n. multi_insert_items (\<lambda>_. 0) (\<lambda>_ _. 0) [5, 5, 9] 0 False b = Inr (b', n) \<and>
    (if no_room b 0 (length [5, 5, 9 :: felt]) then b' = b \<and> n = -1
     else n = int (largest (bundle_rows b) 0 (length [5, 5, 9 :: felt])) \<and>
       (if False then b' = b else bb_cache_invalid b' \<and> same_frame b b' \<and>
          bundle_rows b' = rows_update (\<lambda>k rows. rows @ [([5, 5, 9] ! k, [])]) 0 (length [5, 5, 9 :: felt]) (bundle_rows b) \<and>
          ((\<forall>k < length [5, 5, 9 :: felt]. not_full (bb_filters b ! (0 + k))) \<longrightarrow> bundle_wf (\<lambda>_. 0) b'))))"
proof -
  obtain b :: "nat bin_bundle" where b: "make_bundle True 0 10 0 3 False = Inr b" "bundle_wf (\<lambda>_. 0) b"
    "bb_label_size b = 0" "small_bins b"
    using fresh_bundle [of 0 "\<lambda>_. 0"] by blast
  show ?thesis by (rule exI [of _ b], rule conjI, rule b(1), rule bundle_insert_items_refines [OF b(2,3) list.distinct(2) b(4)])
qed

text \<open>
  C24. Overwriting labels on a well-formed bundle finds the items exactly when every field element is
  in its bin; then the labels of the first match in every bin are replaced, and otherwise nothing
  changes. The bundle stays well-formed.
\<close>
theorem bundle_overwrite_refines:
  assumes "bundle_wf ra b" and "items \<noteq> []" "\<forall>x \<in> set items. length (snd x) = bb_label_size b"
  shows "\<exists>b' found. try_multi_overwrite_labels ra items start b = Inr (b', found) \<and> bundle_wf ra b' \<and> same_frame b b' \<and>
    (found \<longleftrightarrow> \<not> no_room b start (length items) \<and> (\<forall>k < length items. key_at (bundle_rows b) (start + k) (fst (items ! k)))) \<and>
    (if found then bb_cache_invalid b' \<and> bundle_rows b' =
       rows_update (\<lambda>k. set_key (fst (items ! k)) (snd (items ! k))) start (length items) (bundle_rows b)
     else b' = b)"
  using assms by (rule overwrite_spec)

theorem bundle_overwrite_refines_witness:
  "\<exists>b :: nat bin_bundle. make_bundle True 1 10 0 3 False = Inr b \<and>
    (\<exists>b' found. try_multi_overwrite_labels (\<lambda>_. 0) [(5, [7])] 1 b = Inr (b', found) \<and> bundle_wf (\<lambda>_. 0) b' \<and> same_frame b b' \<and>
    (found \<longleftrightarrow> \<not> no_room b 1 (length [(5 :: felt, [7 :: felt])]) \<and>
       (\<forall>k < length [(5 :: felt, [7 :: felt])]. key_at (bundle_rows b) (1 + k) (fst ([(5, [7 :: felt])] ! k)))) \<and>
    (if found then bb_cache_invalid b' \<and> bundle_rows b' =
       rows_update (\<lambda>k. set_key (fst ([(5, [7 :: felt])] ! k)) (snd ([(5 :: felt, [7])] ! k))) 1 (length [(5 :: felt, [7 :: felt])]) (bundle_rows b)
     else b' = b))"
proof -
  obtain b :: "nat bin_bundle" where b: "make_bundle True 1 10 0 3 False = Inr b" "bundle_wf (\<lambda>_. 0) b"
    "bb_label_size b = 1"
    using fresh_bundle [of 1 "\<lambda>_. 0"] by blast
  have h: "\<forall>x \<in> set [(5 :: felt, [7 :: felt])]. length (snd x) = bb_label_size b" using b(3) by simp
  show ?thesis by (rule exI [of _ b], rule conjI, rule b(1), rule bundle_overwrite_refines [OF b(2) list.distinct(2) h])
qed

text \<open>
  C25. Removal from a well-formed bundle is all or nothing: it finds the items exactly when every field
  element is in its bin, and then deletes the first match, with its label parts, from every one of
  the bins, and otherwise changes nothing. The bundle stays well-formed.
\<close>
theorem bundle_remove_refines:
  assumes "bundle_wf ra b" and "items \<noteq> []"
  shows "\<exists>b' found. try_multi_remove ra rnd items start b = Inr (b', found) \<and> bundle_wf ra b' \<and> same_frame b b' \<and>
    (found \<longleftrightarrow> \<not> no_room b start (length items) \<and> (\<forall>k < length items. key_at (bundle_rows b) (start + k) (items ! k))) \<and>
    (if found then bb_cache_invalid b' \<and>
       bundle_rows b' = rows_update (\<lambda>k. remove_key (items ! k)) start (length items) (bundle_rows b)
     else b' = b)"
  using assms by (rule remove_spec_bundle)

theorem bundle_remove_refines_witness:
  "\<exists>b :: nat bin_bundle. make_bundle True 1 10 0 3 False = Inr b \<and>
    (\<exists>b' found. try_multi_remove (\<lambda>_. 0) (\<lambda>_ _. 0) [5, 6] 1 b = Inr (b', found) \<and> bundle_wf (\<lambda>_. 0) b' \<and> same_frame b b' \<and>
    (found \<longleftrightarrow> \<not> no_room b 1 (length [5, 6 :: felt]) \<and> (\<forall>k < length [5, 6 :: felt]. key_at (bundle_rows b) (1 + k) ([5, 6] ! k))) \<and>
    (if found then bb_cache_invalid b' \<and>
       bundle_rows b' = rows_update (\<lambda>k. remove_key ([5, 6] ! k)) 1 (length [5, 6 :: felt]) (bundle_rows b)
     else b' = b))"
proof -
  obtain b :: "nat bin_bundle" where b: "make_bundle True 1 10 0 3 False = Inr b" "bundle_wf (\<lambda>_. 0) b"
    using fresh_bundle [of 1 "\<lambda>_. 0"] by blast
  show ?thesis by (rule exI [of _ b], rule conjI, rule b(1), rule bundle_remove_refines [OF b(2) list.distinct(2)])
qed

text \<open>
  C26. What is written can be read: after labeled items were inserted or overwritten with success, the
  look-up of these items returns their labels, ordered by label part, and after they were removed it
  returns nothing.
\<close>
theorem bundle_labels_after_update:
  assumes "bundle_wf ra b" and "bb_label_size b \<noteq> 0"
  shows "(bundle_inserted ra rnd items start b b' \<longrightarrow>
      try_get_multi_label ra (map fst items) start b' = Inr (Some (interleave (bb_label_size b) (map snd items)))) \<and>
    (try_multi_overwrite_labels ra items start b = Inr (b', True) \<longrightarrow>
      try_get_multi_label ra (map fst items) start b' = Inr (Some (interleave (bb_label_size b) (map snd items)))) \<and>
    (try_multi_remove ra rnd xs start b = Inr (b', True) \<longrightarrow> try_get_multi_label ra xs start b' = Inr None)"
proof -
  have ready: "bundle_ready ra b" using assms by (simp add: bundle_ready_def)
  show ?thesis
    using bins.lookup_inserted [OF ready] bins.lookup_overwritten [OF ready] bins.lookup_removed [OF ready] by blast
qed

theorem bundle_labels_after_update_witness:
  "\<exists>(b :: nat bin_bundle) b'. make_bundle True 1 10 0 3 False = Inr b \<and>
    bundle_inserted (\<lambda>_. 0) (\<lambda>_ _. 0) [(5, [7]), (6, [8])] 1 b b' \<and>
    try_get_multi_label (\<lambda>_. 0) (map fst [(5, [7 :: felt]), (6, [8])]) 1 b' =
      Inr (Some (interleave (bb_label_size b) (map snd [(5 :: felt, [7]), (6, [8])])))"
proof -
  obtain b :: "nat bin_bundle" where b: "make_bundle True 1 10 0 3 False = Inr b" "bundle_wf (\<lambda>_. 0) b"
    "bb_label_size b = 1" "bb_num_bins b = 3" "small_bins b" "\<forall>i < 3. bin_rows b i = [] \<and> not_full (bb_filters b ! i)"
    using fresh_bundle [of 1 "\<lambda>_. 0"] by blast
  have l: "bb_label_size b \<noteq> 0" using b(3) by simp
  have "\<exists>b' n. multi_insert_labels (\<lambda>_. 0) (\<lambda>_ _. 0) [(5, [7]), (6, [8])] 1 False b = Inr (b', n) \<and> n \<noteq> -1"
  proof -
    let ?il = "[(5, [7]), (6, [8])] :: (felt \<times> felt list) list"
    have none: "\<not> (no_room b 1 (length ?il) \<or> (\<exists>k < length ?il. key_at (bundle_rows b) (1 + k) (fst (?il ! k))))"
      using b(4,6) by (auto simp: no_room_def key_at_def bundle_rows_def less_Suc_eq)
    have lens: "\<forall>x \<in> set ?il. length (snd x) = bb_label_size b" using b(3) by simp
    show ?thesis
      using insert_labels_spec [OF b(2) l list.distinct(2) b(5) lens, of "\<lambda>_ _. 0" 1 False] unfolding if_not_P [OF none]
      by force
  qed
  then obtain b' where b': "bundle_inserted (\<lambda>_. 0) (\<lambda>_ _. 0) [(5, [7]), (6, [8])] 1 b b'"
    using b by (auto simp: bundle_inserted_def)
  then show ?thesis using b(1) bundle_labels_after_update [OF b(2) l] by blast
qed

end
