(* ===== verification/SealLaws.thy ===== *)
theory SealLaws
  imports Seal
begin

text \<open>
  What the sources rely on of SEAL's batched BFV scheme, as named predicates over a view of the
  abstract plaintexts and ciphertexts: the slots they carry, the NTT flag, the level in the modulus
  switching chain, the number of components. Slot values are those an exact decryption would
  return, so the laws are those of parameters whose noise budget is enough for the computation, as
  the parameters of the program are chosen to be. A computable instance shows that the laws can hold.
\<close>

record ('p, 'c) he_view =
  pv_ntt :: "'p \<Rightarrow> bool"
  pv_level :: "'p \<Rightarrow> nat"
  pv_slots :: "'p \<Rightarrow> nat \<Rightarrow> nat"
  cv_valid :: "'c \<Rightarrow> bool"
  cv_ntt :: "'c \<Rightarrow> bool"
  cv_level :: "'c \<Rightarrow> nat"
  cv_size :: "'c \<Rightarrow> nat"
  cv_slots :: "'c \<Rightarrow> nat \<Rightarrow> nat"
  hv_slot_count :: nat

definition max_ciphertext_size :: nat where
  "max_ciphertext_size = 16"

definition ciphertext_is ::
  "('p, 'c) he_view \<Rightarrow> 'c \<Rightarrow> bool \<Rightarrow> nat \<Rightarrow> nat \<Rightarrow> (nat \<Rightarrow> nat) \<Rightarrow> bool" where
  "ciphertext_is v c ntt level sz f \<longleftrightarrow> cv_valid v c \<and> cv_ntt v c = ntt \<and> cv_level v c = level \<and>
     cv_size v c = sz \<and> (\<forall>i < hv_slot_count v. cv_slots v c i = f i)"

definition plaintext_is :: "('p, 'c) he_view \<Rightarrow> 'p \<Rightarrow> bool \<Rightarrow> nat \<Rightarrow> (nat \<Rightarrow> nat) \<Rightarrow> bool" where
  "plaintext_is v pt ntt level f \<longleftrightarrow> pv_ntt v pt = ntt \<and> (ntt \<longrightarrow> pv_level v pt = level) \<and>
     (\<forall>i < hv_slot_count v. pv_slots v pt i = f i)"

lemma ciphertext_is_cong:
  "ciphertext_is v c ntt level sz f \<Longrightarrow> (\<And>i. i < hv_slot_count v \<Longrightarrow> f i = g i) \<Longrightarrow> ciphertext_is v c ntt level sz g"
  by (simp add: ciphertext_is_def)

subsection \<open>Laws\<close>

text \<open>Encoding and the forms of plaintexts.\<close>

definition plaintext_laws :: "('p, 'c) seal \<Rightarrow> ('p, 'c) he_view \<Rightarrow> bool" where
  "plaintext_laws se v \<longleftrightarrow>
     (\<forall>xs. length xs \<le> hv_slot_count v \<and> (\<forall>x \<in> set xs. x < mo_value (se_mod se)) \<longrightarrow>
        (\<exists>pt. se_encode se xs = Inr pt \<and> plaintext_is v pt False 0 (\<lambda>i. if i < length xs then xs ! i else 0))) \<and>
     (\<forall>pt level. \<not> pv_ntt v pt \<and> level \<le> se_first_chain_index se \<longrightarrow>
        (\<exists>pt'. se_transform_plain_to_ntt se pt level = Inr pt' \<and> plaintext_is v pt' True level (pv_slots v pt)))"

text \<open>Changes of representation: NTT form, modulus switching, relinearization, fresh results.\<close>

definition form_laws :: "('p, 'c) seal \<Rightarrow> ('p, 'c) he_view \<Rightarrow> bool" where
  "form_laws se v \<longleftrightarrow>
     (\<forall>c. cv_valid v c \<longrightarrow> se_parms_id se c = cv_level v c \<and> cv_level v c \<le> se_first_chain_index se) \<and>
     (\<forall>level sz ntt. level \<le> se_first_chain_index se \<and> 2 \<le> sz \<and> sz \<le> max_ciphertext_size \<longrightarrow>
        ciphertext_is v (se_zero_ciphertext se level sz ntt) ntt level sz (\<lambda>_. 0)) \<and>
     (\<forall>c. cv_valid v c \<and> \<not> cv_ntt v c \<longrightarrow> (\<exists>c'. se_to_ntt se c = Inr c' \<and>
        ciphertext_is v c' True (cv_level v c) (cv_size v c) (cv_slots v c))) \<and>
     (\<forall>c. cv_valid v c \<and> cv_ntt v c \<longrightarrow> (\<exists>c'. se_from_ntt se c = Inr c' \<and>
        ciphertext_is v c' False (cv_level v c) (cv_size v c) (cv_slots v c))) \<and>
     (\<forall>c level. cv_valid v c \<and> \<not> cv_ntt v c \<and> level \<le> cv_level v c \<longrightarrow> (\<exists>c'. se_mod_switch_to se c level = Inr c' \<and>
        ciphertext_is v c' False level (cv_size v c) (cv_slots v c))) \<and>
     (\<forall>c. cv_valid v c \<and> \<not> cv_ntt v c \<and> 0 < cv_level v c \<longrightarrow> (\<exists>c'. se_mod_switch_to_next se c = Inr c' \<and>
        ciphertext_is v c' False (cv_level v c - 1) (cv_size v c) (cv_slots v c))) \<and>
     (se_using_keyswitching se \<longrightarrow> (\<forall>c. cv_valid v c \<and> \<not> cv_ntt v c \<and> cv_size v c \<le> 3 \<longrightarrow>
        (\<exists>c'. se_relinearize se c = Inr c' \<and> ciphertext_is v c' False (cv_level v c) 2 (cv_slots v c))))"

text \<open>Arithmetic, slot by slot, and the mismatches that SEAL refuses.\<close>

definition arithmetic_laws :: "('p, 'c) seal \<Rightarrow> ('p, 'c) he_view \<Rightarrow> bool" where
  "arithmetic_laws se v \<longleftrightarrow> (let p = mo_value (se_mod se) in
     (\<forall>c pt. cv_valid v c \<and> (cv_ntt v c \<and> pv_ntt v pt \<and> pv_level v pt = cv_level v c \<or> \<not> cv_ntt v c \<and> \<not> pv_ntt v pt) \<longrightarrow>
        (\<exists>c'. se_multiply_plain se c pt = Inr c' \<and>
          ciphertext_is v c' (cv_ntt v c) (cv_level v c) (cv_size v c) (\<lambda>i. cv_slots v c i * pv_slots v pt i mod p))) \<and>
     (\<forall>c d. cv_valid v c \<and> cv_valid v d \<and> cv_ntt v c = cv_ntt v d \<and> cv_level v c = cv_level v d \<longrightarrow>
        (\<exists>c'. se_add se c d = Inr c' \<and>
          ciphertext_is v c' (cv_ntt v c) (cv_level v c) (max (cv_size v c) (cv_size v d)) (\<lambda>i. (cv_slots v c i + cv_slots v d i) mod p))) \<and>
     (\<forall>c d. cv_valid v c \<and> cv_valid v d \<and> cv_ntt v c \<noteq> cv_ntt v d \<longrightarrow> (\<exists>e. se_add se c d = Inl e)) \<and>
     (\<forall>c pt. cv_valid v c \<and> \<not> cv_ntt v c \<and> \<not> pv_ntt v pt \<longrightarrow> (\<exists>c'. se_add_plain se c pt = Inr c' \<and>
          ciphertext_is v c' False (cv_level v c) (cv_size v c) (\<lambda>i. (cv_slots v c i + pv_slots v pt i) mod p))) \<and>
     (\<forall>c d. cv_valid v c \<and> cv_valid v d \<and> \<not> cv_ntt v c \<and> \<not> cv_ntt v d \<and> cv_level v c = cv_level v d \<and>
          cv_size v c + cv_size v d - 1 \<le> max_ciphertext_size \<longrightarrow>
        (\<exists>c'. se_multiply se c d = Inr c' \<and> ciphertext_is v c' False (cv_level v c) (cv_size v c + cv_size v d - 1)
          (\<lambda>i. cv_slots v c i * cv_slots v d i mod p))) \<and>
     (\<forall>c. cv_valid v c \<and> \<not> cv_ntt v c \<and> cv_size v c + cv_size v c - 1 \<le> max_ciphertext_size \<longrightarrow>
        (\<exists>c'. se_square se c = Inr c' \<and> ciphertext_is v c' False (cv_level v c) (cv_size v c + cv_size v c - 1)
          (\<lambda>i. cv_slots v c i * cv_slots v c i mod p))))"

definition seal_laws :: "('p, 'c) seal \<Rightarrow> ('p, 'c) he_view \<Rightarrow> bool" where
  "seal_laws se v \<longleftrightarrow> seal_arith (se_mod se) \<and> plaintext_laws se v \<and> form_laws se v \<and> arithmetic_laws se v"

subsection \<open>The laws on ciphertexts of a known form\<close>

lemma law_encode:
  "seal_laws se v \<Longrightarrow> length xs \<le> hv_slot_count v \<Longrightarrow> \<forall>x \<in> set xs. x < mo_value (se_mod se) \<Longrightarrow>
   \<exists>pt. se_encode se xs = Inr pt \<and> plaintext_is v pt False 0 (\<lambda>i. if i < length xs then xs ! i else 0)"
  by (simp add: seal_laws_def plaintext_laws_def)

lemma law_plain_to_ntt:
  assumes "seal_laws se v" "plaintext_is v pt False l f" "level \<le> se_first_chain_index se"
  shows "\<exists>pt'. se_transform_plain_to_ntt se pt level = Inr pt' \<and> plaintext_is v pt' True level f"
proof -
  have "\<forall>pt level. \<not> pv_ntt v pt \<and> level \<le> se_first_chain_index se \<longrightarrow>
      (\<exists>pt'. se_transform_plain_to_ntt se pt level = Inr pt' \<and> plaintext_is v pt' True level (pv_slots v pt))"
    using assms(1) by (simp add: seal_laws_def plaintext_laws_def)
  then obtain pt' where "se_transform_plain_to_ntt se pt level = Inr pt'" "plaintext_is v pt' True level (pv_slots v pt)"
    using assms(2,3) unfolding plaintext_is_def [of v pt] by blast
  then show ?thesis using assms(2) by (auto simp: plaintext_is_def)
qed

lemma law_parms_id:
  assumes "seal_laws se v" "ciphertext_is v c ntt level sz f"
  shows "se_parms_id se c = level" "level \<le> se_first_chain_index se"
  using assms by (auto simp: seal_laws_def form_laws_def ciphertext_is_def)

lemma law_zero:
  "seal_laws se v \<Longrightarrow> level \<le> se_first_chain_index se \<Longrightarrow> 2 \<le> sz \<Longrightarrow> sz \<le> 3 \<Longrightarrow>
   ciphertext_is v (se_zero_ciphertext se level sz ntt) ntt level sz (\<lambda>_. 0)"
  by (simp add: seal_laws_def form_laws_def max_ciphertext_size_def)

lemma law_to_ntt:
  assumes "seal_laws se v" "ciphertext_is v c False level sz f"
  shows "\<exists>c'. se_to_ntt se c = Inr c' \<and> ciphertext_is v c' True level sz f"
proof -
  have "\<forall>c. cv_valid v c \<and> \<not> cv_ntt v c \<longrightarrow> (\<exists>c'. se_to_ntt se c = Inr c' \<and>
      ciphertext_is v c' True (cv_level v c) (cv_size v c) (cv_slots v c))"
    using assms(1) by (simp add: seal_laws_def form_laws_def)
  then show ?thesis using assms(2) unfolding ciphertext_is_def by metis
qed

lemma law_from_ntt:
  assumes "seal_laws se v" "ciphertext_is v c True level sz f"
  shows "\<exists>c'. se_from_ntt se c = Inr c' \<and> ciphertext_is v c' False level sz f"
proof -
  have "\<forall>c. cv_valid v c \<and> cv_ntt v c \<longrightarrow> (\<exists>c'. se_from_ntt se c = Inr c' \<and>
      ciphertext_is v c' False (cv_level v c) (cv_size v c) (cv_slots v c))"
    using assms(1) by (simp add: seal_laws_def form_laws_def)
  then show ?thesis using assms(2) unfolding ciphertext_is_def by metis
qed

lemma law_mod_switch_to:
  assumes "seal_laws se v" "ciphertext_is v c False level sz f" "l \<le> level"
  shows "\<exists>c'. se_mod_switch_to se c l = Inr c' \<and> ciphertext_is v c' False l sz f"
proof -
  have "\<forall>c l. cv_valid v c \<and> \<not> cv_ntt v c \<and> l \<le> cv_level v c \<longrightarrow> (\<exists>c'. se_mod_switch_to se c l = Inr c' \<and>
      ciphertext_is v c' False l (cv_size v c) (cv_slots v c))"
    using assms(1) by (simp add: seal_laws_def form_laws_def)
  then show ?thesis using assms(2,3) unfolding ciphertext_is_def by metis
qed

lemma law_mod_switch_next:
  assumes "seal_laws se v" "ciphertext_is v c False (Suc level) sz f"
  shows "\<exists>c'. se_mod_switch_to_next se c = Inr c' \<and> ciphertext_is v c' False level sz f"
proof -
  have "\<forall>c. cv_valid v c \<and> \<not> cv_ntt v c \<and> 0 < cv_level v c \<longrightarrow> (\<exists>c'. se_mod_switch_to_next se c = Inr c' \<and>
      ciphertext_is v c' False (cv_level v c - 1) (cv_size v c) (cv_slots v c))"
    using assms(1) by (simp add: seal_laws_def form_laws_def)
  then show ?thesis using assms(2) unfolding ciphertext_is_def by (metis diff_Suc_1 zero_less_Suc)
qed

lemma law_relinearize:
  assumes "seal_laws se v" "se_using_keyswitching se" "ciphertext_is v c False level sz f" "sz \<le> 3"
  shows "\<exists>c'. se_relinearize se c = Inr c' \<and> ciphertext_is v c' False level 2 f"
proof -
  have "\<forall>c. cv_valid v c \<and> \<not> cv_ntt v c \<and> cv_size v c \<le> 3 \<longrightarrow>
        (\<exists>c'. se_relinearize se c = Inr c' \<and> ciphertext_is v c' False (cv_level v c) 2 (cv_slots v c))"
    using assms(1,2) by (simp add: seal_laws_def form_laws_def)
  then show ?thesis using assms(3,4) unfolding ciphertext_is_def by metis
qed

lemma law_multiply_plain:
  assumes "seal_laws se v" "ciphertext_is v c ntt level sz f" "plaintext_is v pt ntt level g"
  shows "\<exists>c'. se_multiply_plain se c pt = Inr c' \<and>
    ciphertext_is v c' ntt level sz (\<lambda>i. f i * g i mod mo_value (se_mod se))"
proof -
  have law: "\<forall>c pt. cv_valid v c \<and> (cv_ntt v c \<and> pv_ntt v pt \<and> pv_level v pt = cv_level v c \<or> \<not> cv_ntt v c \<and> \<not> pv_ntt v pt) \<longrightarrow>
      (\<exists>c'. se_multiply_plain se c pt = Inr c' \<and> ciphertext_is v c' (cv_ntt v c) (cv_level v c) (cv_size v c)
        (\<lambda>i. cv_slots v c i * pv_slots v pt i mod mo_value (se_mod se)))"
    using assms(1) by (simp add: seal_laws_def arithmetic_laws_def Let_def)
  have "cv_valid v c \<and> (cv_ntt v c \<and> pv_ntt v pt \<and> pv_level v pt = cv_level v c \<or> \<not> cv_ntt v c \<and> \<not> pv_ntt v pt)"
    using assms(2,3) by (cases ntt) (simp_all add: ciphertext_is_def plaintext_is_def)
  from law [THEN spec, THEN spec, THEN mp, OF this]
  show ?thesis using assms(2,3) by (auto simp: ciphertext_is_def plaintext_is_def)
qed

lemma law_add:
  assumes "seal_laws se v" "ciphertext_is v c ntt level sz f" "ciphertext_is v d ntt level sz' g"
  shows "\<exists>c'. se_add se c d = Inr c' \<and>
    ciphertext_is v c' ntt level (max sz sz') (\<lambda>i. (f i + g i) mod mo_value (se_mod se))"
proof -
  have "\<forall>c d. cv_valid v c \<and> cv_valid v d \<and> cv_ntt v c = cv_ntt v d \<and> cv_level v c = cv_level v d \<longrightarrow>
        (\<exists>c'. se_add se c d = Inr c' \<and> ciphertext_is v c' (cv_ntt v c) (cv_level v c)
          (max (cv_size v c) (cv_size v d)) (\<lambda>i. (cv_slots v c i + cv_slots v d i) mod mo_value (se_mod se)))"
    using assms(1) by (simp add: seal_laws_def arithmetic_laws_def Let_def)
  then obtain c' where "se_add se c d = Inr c'" "ciphertext_is v c' (cv_ntt v c) (cv_level v c)
          (max (cv_size v c) (cv_size v d)) (\<lambda>i. (cv_slots v c i + cv_slots v d i) mod mo_value (se_mod se))"
    using assms(2,3) unfolding ciphertext_is_def by metis
  then show ?thesis using assms(2,3) by (auto simp: ciphertext_is_def)
qed

lemma law_add_mismatch:
  assumes "seal_laws se v" "ciphertext_is v c ntt level sz f" "ciphertext_is v d (\<not> ntt) level' sz' g"
  shows "\<exists>e. se_add se c d = Inl e"
proof -
  have "\<forall>c d. cv_valid v c \<and> cv_valid v d \<and> cv_ntt v c \<noteq> cv_ntt v d \<longrightarrow> (\<exists>e. se_add se c d = Inl e)"
    using assms(1) by (simp add: seal_laws_def arithmetic_laws_def Let_def)
  then show ?thesis using assms(2,3) unfolding ciphertext_is_def by metis
qed

lemma law_add_plain:
  assumes "seal_laws se v" "ciphertext_is v c False level sz f" "plaintext_is v pt False l g"
  shows "\<exists>c'. se_add_plain se c pt = Inr c' \<and>
    ciphertext_is v c' False level sz (\<lambda>i. (f i + g i) mod mo_value (se_mod se))"
proof -
  have "\<forall>c pt. cv_valid v c \<and> \<not> cv_ntt v c \<and> \<not> pv_ntt v pt \<longrightarrow> (\<exists>c'. se_add_plain se c pt = Inr c' \<and>
      ciphertext_is v c' False (cv_level v c) (cv_size v c) (\<lambda>i. (cv_slots v c i + pv_slots v pt i) mod mo_value (se_mod se)))"
    using assms(1) by (simp add: seal_laws_def arithmetic_laws_def Let_def)
  then obtain c' where "se_add_plain se c pt = Inr c'" "ciphertext_is v c' False (cv_level v c) (cv_size v c)
      (\<lambda>i. (cv_slots v c i + pv_slots v pt i) mod mo_value (se_mod se))"
    using assms(2,3) unfolding ciphertext_is_def plaintext_is_def by metis
  then show ?thesis using assms(2,3) by (auto simp: ciphertext_is_def plaintext_is_def)
qed

lemma three_le_max: "3 \<le> max_ciphertext_size"
  by (simp add: max_ciphertext_size_def)

lemma law_multiply:
  assumes "seal_laws se v" "ciphertext_is v c False level 2 f" "ciphertext_is v d False level 2 g"
  shows "\<exists>c'. se_multiply se c d = Inr c' \<and> ciphertext_is v c' False level 3 (\<lambda>i. f i * g i mod mo_value (se_mod se))"
proof -
  have law: "\<forall>c d. cv_valid v c \<and> cv_valid v d \<and> \<not> cv_ntt v c \<and> \<not> cv_ntt v d \<and> cv_level v c = cv_level v d \<and>
          cv_size v c + cv_size v d - 1 \<le> max_ciphertext_size \<longrightarrow>
        (\<exists>c'. se_multiply se c d = Inr c' \<and> ciphertext_is v c' False (cv_level v c) (cv_size v c + cv_size v d - 1)
          (\<lambda>i. cv_slots v c i * cv_slots v d i mod mo_value (se_mod se)))"
    using assms(1) by (simp add: seal_laws_def arithmetic_laws_def Let_def)
  have "cv_valid v c \<and> cv_valid v d \<and> \<not> cv_ntt v c \<and> \<not> cv_ntt v d \<and> cv_level v c = cv_level v d \<and>
      cv_size v c + cv_size v d - 1 \<le> max_ciphertext_size"
    using assms(2,3) by (simp add: ciphertext_is_def max_ciphertext_size_def)
  from law [THEN spec, THEN spec, THEN mp, OF this]
  show ?thesis using assms(2,3) by (auto simp: ciphertext_is_def)
qed

lemma law_square:
  assumes "seal_laws se v" "ciphertext_is v c False level 2 f"
  shows "\<exists>c'. se_square se c = Inr c' \<and> ciphertext_is v c' False level 3 (\<lambda>i. f i * f i mod mo_value (se_mod se))"
proof -
  have law: "\<forall>c. cv_valid v c \<and> \<not> cv_ntt v c \<and> cv_size v c + cv_size v c - 1 \<le> max_ciphertext_size \<longrightarrow>
        (\<exists>c'. se_square se c = Inr c' \<and> ciphertext_is v c' False (cv_level v c) (cv_size v c + cv_size v c - 1)
          (\<lambda>i. cv_slots v c i * cv_slots v c i mod mo_value (se_mod se)))"
    using assms(1) by (simp add: seal_laws_def arithmetic_laws_def Let_def)
  have "cv_valid v c \<and> \<not> cv_ntt v c \<and> cv_size v c + cv_size v c - 1 \<le> max_ciphertext_size"
    using assms(2) by (simp add: ciphertext_is_def max_ciphertext_size_def)
  from law [THEN spec, THEN mp, OF this]
  show ?thesis using assms(2) by (auto simp: ciphertext_is_def)
qed

subsection \<open>An instance\<close>

text \<open>
  Plaintexts and ciphertexts that are just their slots with the flags SEAL checks. It is used only to
  apply theorems at concrete inputs.
\<close>

record clear_plaintext =
  cp_ntt :: bool
  cp_level :: nat
  cp_slots :: "nat \<Rightarrow> nat"

record clear_ciphertext =
  cc_valid :: bool
  cc_ntt :: bool
  cc_level :: nat
  cc_size :: nat
  cc_slots :: "nat \<Rightarrow> nat"

definition clear_error :: "'a res" where
  "clear_error = Inl (Invalid_argument ''SEAL'')"

definition clear_seal :: "nat \<Rightarrow> nat \<Rightarrow> nat \<Rightarrow> (clear_plaintext, clear_ciphertext) seal" where
  "clear_seal p n first = \<lparr>
     se_mod = std_ops p,
     se_first_chain_index = first,
     se_using_keyswitching = True,
     se_last_coeff_moduli_bits = [40],
     se_plain_modulus_bits = 17,
     se_poly_modulus_degree = n,
     se_encode = (\<lambda>xs. if length xs \<le> n
       then Inr \<lparr>cp_ntt = False, cp_level = 0, cp_slots = (\<lambda>i. if i < length xs then xs ! i else 0)\<rparr> else clear_error),
     se_transform_plain_to_ntt = (\<lambda>pt level. if \<not> cp_ntt pt \<and> level \<le> first
       then Inr (pt\<lparr>cp_ntt := True, cp_level := level\<rparr>) else clear_error),
     se_fresh_ciphertext = \<lparr>cc_valid = False, cc_ntt = False, cc_level = 0, cc_size = 0, cc_slots = (\<lambda>_. 0)\<rparr>,
     se_zero_ciphertext = (\<lambda>level sz ntt. \<lparr>cc_valid = level \<le> first, cc_ntt = ntt, cc_level = level, cc_size = sz, cc_slots = (\<lambda>_. 0)\<rparr>),
     se_parms_id = cc_level,
     se_multiply_plain = (\<lambda>c pt. if cc_valid c \<and> (if cc_ntt c then cp_ntt pt \<and> cp_level pt = cc_level c else \<not> cp_ntt pt)
       then Inr (c\<lparr>cc_slots := (\<lambda>i. cc_slots c i * cp_slots pt i mod p)\<rparr>) else clear_error),
     se_add = (\<lambda>c d. if cc_valid c \<and> cc_valid d \<and> cc_ntt c = cc_ntt d \<and> cc_level c = cc_level d
       then Inr (c\<lparr>cc_size := max (cc_size c) (cc_size d), cc_slots := (\<lambda>i. (cc_slots c i + cc_slots d i) mod p)\<rparr>) else clear_error),
     se_add_plain = (\<lambda>c pt. if cc_valid c \<and> \<not> cc_ntt c \<and> \<not> cp_ntt pt
       then Inr (c\<lparr>cc_slots := (\<lambda>i. (cc_slots c i + cp_slots pt i) mod p)\<rparr>) else clear_error),
     se_multiply = (\<lambda>c d. if cc_valid c \<and> cc_valid d \<and> \<not> cc_ntt c \<and> \<not> cc_ntt d \<and> cc_level c = cc_level d
         \<and> cc_size c + cc_size d - 1 \<le> max_ciphertext_size
       then Inr (c\<lparr>cc_size := cc_size c + cc_size d - 1, cc_slots := (\<lambda>i. cc_slots c i * cc_slots d i mod p)\<rparr>) else clear_error),
     se_square = (\<lambda>c. if cc_valid c \<and> \<not> cc_ntt c \<and> cc_size c + cc_size c - 1 \<le> max_ciphertext_size
       then Inr (c\<lparr>cc_size := cc_size c + cc_size c - 1, cc_slots := (\<lambda>i. cc_slots c i * cc_slots c i mod p)\<rparr>) else clear_error),
     se_relinearize = (\<lambda>c. if cc_valid c \<and> \<not> cc_ntt c \<and> cc_size c \<le> 3 then Inr (c\<lparr>cc_size := 2\<rparr>) else clear_error),
     se_to_ntt = (\<lambda>c. if cc_valid c \<and> \<not> cc_ntt c then Inr (c\<lparr>cc_ntt := True\<rparr>) else clear_error),
     se_from_ntt = (\<lambda>c. if cc_valid c \<and> cc_ntt c then Inr (c\<lparr>cc_ntt := False\<rparr>) else clear_error),
     se_mod_switch_to = (\<lambda>c level. if cc_valid c \<and> \<not> cc_ntt c \<and> level \<le> cc_level c then Inr (c\<lparr>cc_level := level\<rparr>) else clear_error),
     se_mod_switch_to_next = (\<lambda>c. if cc_valid c \<and> \<not> cc_ntt c \<and> 0 < cc_level c then Inr (c\<lparr>cc_level := cc_level c - 1\<rparr>) else clear_error),
     se_and_coeffs = (\<lambda>m c. c)\<rparr>"

definition clear_view :: "nat \<Rightarrow> nat \<Rightarrow> (clear_plaintext, clear_ciphertext) he_view" where
  "clear_view n first = \<lparr>pv_ntt = cp_ntt, pv_level = cp_level, pv_slots = cp_slots,
     cv_valid = (\<lambda>c. cc_valid c \<and> cc_level c \<le> first), cv_ntt = cc_ntt, cv_level = cc_level, cv_size = cc_size,
     cv_slots = cc_slots, hv_slot_count = n\<rparr>"

lemma clear_laws:
  assumes "1 < p"
  shows "seal_laws (clear_seal p n first) (clear_view n first)"
  unfolding seal_laws_def
proof (intro conjI)
  show "seal_arith (se_mod (clear_seal p n first))" using assms by (simp add: clear_seal_def std_ops_seal)
  show "plaintext_laws (clear_seal p n first) (clear_view n first)"
    by (simp add: plaintext_laws_def plaintext_is_def clear_seal_def clear_view_def)
  show "form_laws (clear_seal p n first) (clear_view n first)"
    by (auto simp: form_laws_def ciphertext_is_def clear_seal_def clear_view_def max_ciphertext_size_def)
  show "arithmetic_laws (clear_seal p n first) (clear_view n first)"
    by (auto simp: arithmetic_laws_def Let_def ciphertext_is_def clear_seal_def clear_view_def clear_error_def
        std_ops_def)
qed

end
