(* ===== verification/Evaluation.thy ===== *)
theory Evaluation
  imports BinBundle SealLaws PowersPar
begin

text \<open>
  Evaluating the polynomials of a bin bundle on the encrypted query: the plain evaluation and the
  Paterson-Stockmeyer evaluation of \<open>sender/apsi/bin_bundle.cpp\<close>. Both return a ciphertext at the
  last level whose slots are the values of the polynomials at the slots of the query.
\<close>

subsection \<open>Final compression\<close>

fun significant_bit_count :: "nat \<Rightarrow> nat" where
  "significant_bit_count n = (if n = 0 then 0 else Suc (significant_bit_count (n div 2)))"

declare significant_bit_count.simps [simp del]

definition irrelevant_bit_count :: "('p, 'c) seal \<Rightarrow> int" where
  "irrelevant_bit_count se =
     (let compr_coeff_bit_count = int (se_plain_modulus_bits se)
            + int (significant_bit_count (se_poly_modulus_degree se)) - 1
      in int (hd (se_last_coeff_moduli_bits se)) - compr_coeff_bit_count)"

definition try_clear_irrelevant_bits :: "('p, 'c) seal \<Rightarrow> 'c \<Rightarrow> 'c res" where
  "try_clear_irrelevant_bits se ciphertext =
     (if length (se_last_coeff_moduli_bits se) = 1 then
        let n = irrelevant_bit_count se
        in if n > 0 then
             if n \<ge> 64 then Inl Undefined
             else Inr (se_and_coeffs se (NOT (push_bit (nat n) 1 - 1)) ciphertext)
           else Inr ciphertext
      else Inr ciphertext)"

text \<open>
  Switching down to the last level. The loop ends because every step lowers the level; the fuel given
  by the callers is the number of levels.
\<close>

fun switch_to_last :: "('p, 'c) seal \<Rightarrow> nat \<Rightarrow> 'c \<Rightarrow> 'c res" where
  "switch_to_last se fuel result =
     (if se_parms_id se result = 0 then Inr result
      else case fuel of 0 \<Rightarrow> Inl Undefined
        | Suc fuel' \<Rightarrow> bind_res (se_mod_switch_to_next se result) (switch_to_last se fuel'))"

declare switch_to_last.simps [simp del]

definition finish_result :: "('p, 'c) seal \<Rightarrow> 'c \<Rightarrow> 'c res" where
  "finish_result se result =
     bind_res (switch_to_last se (se_first_chain_index se) result) (try_clear_irrelevant_bits se)"

subsection \<open>Plain evaluation\<close>

text \<open>The sum of the terms of degree \<open>deg\<close> and up, \<open>n\<close> of them.\<close>

fun eval_terms :: "('p, 'c) seal \<Rightarrow> 'p batched_polyn \<Rightarrow> 'c list \<Rightarrow> nat \<Rightarrow> nat \<Rightarrow> 'c \<Rightarrow> 'c res" where
  "eval_terms se coeffs powers deg 0 result = Inr result"
| "eval_terms se coeffs powers deg (Suc n) result =
     bind_res (vec_get coeffs deg) (\<lambda>coeff.
     bind_res (vec_get powers deg) (\<lambda>power.
     bind_res (se_multiply_plain se power coeff) (\<lambda>temp.
     bind_res (se_add se result temp) (eval_terms se coeffs powers (deg + 1) n))))"

definition polyn_eval_enc :: "('p, 'c) seal \<Rightarrow> 'p batched_polyn \<Rightarrow> 'c list \<Rightarrow> 'c res" where
  "polyn_eval_enc se coeffs powers =
     (if length powers < max (length coeffs) 2 then
        Inl (Invalid_argument ''not enough ciphertext powers available'')
      else
        let encode_parms_id = se_parms_id se (powers ! 1)
        in bind_res (eval_terms se coeffs powers 1 (length coeffs - 1)
               (se_zero_ciphertext se encode_parms_id 2 True)) (\<lambda>result.
           bind_res (se_from_ntt se result) (\<lambda>result.
           bind_res (vec_get coeffs 0) (\<lambda>coeff.
           bind_res (se_add_plain se result coeff) (finish_result se)))))"

subsection \<open>Paterson-Stockmeyer evaluation\<close>

text \<open>
  The inner polynomial with coefficients from position \<open>base\<close>, its terms from \<open>j\<close>, \<open>n\<close> of them;
  \<open>temp_in\<close> is overwritten by the first term.
\<close>

fun inner_polyn :: "('p, 'c) seal \<Rightarrow> 'p batched_polyn \<Rightarrow> 'c list \<Rightarrow> nat \<Rightarrow> nat \<Rightarrow> nat \<Rightarrow> 'c \<Rightarrow> 'c res" where
  "inner_polyn se coeffs powers base j 0 temp_in = Inr temp_in"
| "inner_polyn se coeffs powers base j (Suc n) temp_in =
     bind_res (vec_get coeffs (base + j)) (\<lambda>coeff.
     bind_res (vec_get powers j) (\<lambda>power.
     bind_res (se_multiply_plain se power coeff) (\<lambda>temp.
     bind_res (if j = 1 then Inr temp else se_add se temp_in temp)
       (inner_polyn se coeffs powers base (j + 1) n))))"

text \<open>One inner polynomial of \<open>n\<close> terms, multiplied by its high power and added to the result.\<close>

definition high_term ::
  "('p, 'c) seal \<Rightarrow> 'p batched_polyn \<Rightarrow> 'c list \<Rightarrow> nat \<Rightarrow> nat \<Rightarrow> nat \<Rightarrow> nat \<Rightarrow> 'c \<times> 'c \<Rightarrow> ('c \<times> 'c) res" where
  "high_term se coeffs powers ps_high_degree high_powers_parms_id i n st =
     (case st of (temp_in, result) \<Rightarrow>
     bind_res (inner_polyn se coeffs powers (i * ps_high_degree) 1 n temp_in) (\<lambda>temp_in.
     bind_res (se_from_ntt se temp_in) (\<lambda>temp_in.
     bind_res (se_mod_switch_to se temp_in high_powers_parms_id) (\<lambda>temp_in.
     bind_res (vec_get powers (i * ps_high_degree)) (\<lambda>power.
     bind_res (se_multiply se temp_in power) (\<lambda>temp_in.
     bind_res (se_add se result temp_in) (\<lambda>result. Inr (temp_in, result))))))))"

fun high_terms ::
  "('p, 'c) seal \<Rightarrow> 'p batched_polyn \<Rightarrow> 'c list \<Rightarrow> nat \<Rightarrow> nat \<Rightarrow> nat \<Rightarrow> nat \<Rightarrow> 'c \<times> 'c \<Rightarrow> ('c \<times> 'c) res" where
  "high_terms se coeffs powers ps_high_degree high_id i 0 st = Inr st"
| "high_terms se coeffs powers ps_high_degree high_id i (Suc n) st =
     bind_res (high_term se coeffs powers ps_high_degree high_id i (ps_high_degree - 1) st)
       (high_terms se coeffs powers ps_high_degree high_id (i + 1) n)"

text \<open>The inner polynomial for \<open>i = 0\<close>, each term brought to coefficient form by itself.\<close>

fun low_terms :: "('p, 'c) seal \<Rightarrow> 'p batched_polyn \<Rightarrow> 'c list \<Rightarrow> nat \<Rightarrow> nat \<Rightarrow> nat \<Rightarrow> 'c \<Rightarrow> 'c res" where
  "low_terms se coeffs powers high_id j 0 result = Inr result"
| "low_terms se coeffs powers high_id j (Suc n) result =
     bind_res (vec_get coeffs j) (\<lambda>coeff.
     bind_res (vec_get powers j) (\<lambda>power.
     bind_res (se_multiply_plain se power coeff) (\<lambda>temp.
     bind_res (se_from_ntt se temp) (\<lambda>temp.
     bind_res (se_mod_switch_to se temp high_id) (\<lambda>temp.
     bind_res (se_add se result temp) (low_terms se coeffs powers high_id (j + 1) n))))))"

text \<open>The constant coefficients of the inner polynomials, multiplied by the high powers.\<close>

fun constant_terms ::
  "('p, 'c) seal \<Rightarrow> 'p batched_polyn \<Rightarrow> 'c list \<Rightarrow> nat \<Rightarrow> nat \<Rightarrow> nat \<Rightarrow> nat \<Rightarrow> 'c \<Rightarrow> 'c res" where
  "constant_terms se coeffs powers ps_high_degree high_id i 0 result = Inr result"
| "constant_terms se coeffs powers ps_high_degree high_id i (Suc n) result =
     bind_res (vec_get coeffs (i * ps_high_degree)) (\<lambda>coeff.
     bind_res (vec_get powers (i * ps_high_degree)) (\<lambda>power.
     bind_res (se_multiply_plain se power coeff) (\<lambda>temp.
     bind_res (se_mod_switch_to se temp high_id) (\<lambda>temp.
     bind_res (se_add se result temp)
       (constant_terms se coeffs powers ps_high_degree high_id (i + 1) n)))))"

definition polyn_eval_patstock ::
  "('p, 'c) seal \<Rightarrow> 'p batched_polyn \<Rightarrow> 'c list \<Rightarrow> nat \<Rightarrow> 'c res" where
  "polyn_eval_patstock se coeffs powers ps_low_degree =
     (if length powers < max (length coeffs) 2 then
        Inl (Invalid_argument ''not enough ciphertext powers available'')
      else
        let degree = sub64 (length coeffs) 1
        in if ps_low_degree \<le> 1 \<or> ps_low_degree \<ge> degree then
             Inl (Invalid_argument ''ps_low_degree must be greater than 1 and less than the size of batched_coeffs'')
           else
             let high_id = get_parms_id_for_chain_idx se 1;
                 ps_high_degree = ps_low_degree + 1;
                 ps_high_degree_powers = degree div ps_high_degree
             in bind_res (high_terms se coeffs powers ps_high_degree high_id 1 (ps_high_degree_powers - 1)
                    (se_fresh_ciphertext se, se_zero_ciphertext se high_id 3 False)) (\<lambda>st.
                bind_res (if degree mod ps_high_degree > 0 then
                    high_term se coeffs powers ps_high_degree high_id ps_high_degree_powers (degree mod ps_high_degree) st
                  else Inr st) (\<lambda>(_, result).
                bind_res (if se_using_keyswitching se then se_relinearize se result else Inr result) (\<lambda>result.
                bind_res (low_terms se coeffs powers high_id 1 (ps_high_degree - 1) result) (\<lambda>result.
                bind_res (constant_terms se coeffs powers ps_high_degree high_id 1 ps_high_degree_powers result) (\<lambda>result.
                bind_res (vec_get coeffs 0) (\<lambda>coeff.
                bind_res (se_add_plain se result coeff) (finish_result se))))))))"

subsection \<open>Values of polynomials as sums\<close>

text \<open>The value that the coefficients in a slot give at \<open>x\<close>, from position \<open>lo\<close> to before \<open>hi\<close>.\<close>

definition poly_sum :: "nat \<Rightarrow> (nat \<Rightarrow> nat) \<Rightarrow> nat \<Rightarrow> nat set \<Rightarrow> nat" where
  "poly_sum p a x D = (\<Sum>d\<in>D. a d * x ^ d) mod p"

lemma poly_sum_empty [simp]: "poly_sum p a x {} = 0"
  by (simp add: poly_sum_def)

lemma poly_sum_insert:
  "finite D \<Longrightarrow> d \<notin> D \<Longrightarrow> poly_sum p a x (insert d D) = (poly_sum p a x D + a d * x ^ d) mod p"
  by (simp add: poly_sum_def mod_simps add.commute)

lemma poly_sum_union:
  "finite D \<Longrightarrow> finite E \<Longrightarrow> D \<inter> E = {} \<Longrightarrow> poly_sum p a x (D \<union> E) = (poly_sum p a x D + poly_sum p a x E) mod p"
  by (simp add: poly_sum_def sum.union_disjoint mod_simps)

lemma polyn_eval_sum: "0 < p \<Longrightarrow> polyn_eval p cs x = (\<Sum>d < length cs. cs ! d * x ^ d) mod p"
proof (induction cs)
  case (Cons c cs)
  have "polyn_eval p (c # cs) x = (c + x * (\<Sum>d < length cs. cs ! d * x ^ d)) mod p"
    using Cons by simp (metis mod_add_right_eq mod_mult_right_eq)
  also have "c + x * (\<Sum>d < length cs. cs ! d * x ^ d) = (\<Sum>d < length (c # cs). (c # cs) ! d * x ^ d)"
    by (simp only: length_Cons sum.lessThan_Suc_shift) (simp add: sum_distrib_left mult.left_commute)
  finally show ?case .
qed simp

lemma polyn_eval_poly_sum:
  "0 < p \<Longrightarrow> polyn_eval p (map a [0..<n]) x = poly_sum p a x {..<n}"
  by (simp add: polyn_eval_sum poly_sum_def)

subsection \<open>Plain evaluation is correct\<close>

text \<open>
  What the evaluation asks of the final compression: a mask of the irrelevant bits at the last level
  does not change what the ciphertext decrypts to, as the comment in the code claims of parameter
  sets with one prime.
\<close>

definition compression_law :: "('p, 'c) seal \<Rightarrow> ('p, 'c) he_view \<Rightarrow> bool" where
  "compression_law se v \<longleftrightarrow> (length (se_last_coeff_moduli_bits se) = 1 \<longrightarrow> irrelevant_bit_count se < 64 \<and>
     (irrelevant_bit_count se > 0 \<longrightarrow> (\<forall>c sz f. ciphertext_is v c False 0 sz f \<longrightarrow>
        ciphertext_is v (se_and_coeffs se (NOT (push_bit (nat (irrelevant_bit_count se)) 1 - 1)) c) False 0 sz f)))"

text \<open>The ciphertext is in the form in which results are sent and decrypts to the values \<open>f\<close>.\<close>

definition decrypts_to :: "('p, 'c) he_view \<Rightarrow> 'c \<Rightarrow> (nat \<Rightarrow> nat) \<Rightarrow> bool" where
  "decrypts_to v c f \<longleftrightarrow> cv_valid v c \<and> \<not> cv_ntt v c \<and> cv_level v c = 0 \<and> (\<forall>i < hv_slot_count v. cv_slots v c i = f i)"

lemma switch_to_last_ok:
  assumes "seal_laws se v" "ciphertext_is v c False level sz f" "level \<le> fuel"
  shows "\<exists>c'. switch_to_last se fuel c = Inr c' \<and> ciphertext_is v c' False 0 sz f"
  using assms(2,3)
proof (induction level arbitrary: fuel c)
  case 0
  then show ?case using law_parms_id(1) [OF assms(1) 0(1)] by (simp add: switch_to_last.simps [of se fuel c])
next
  case (Suc level)
  obtain c1 where c1: "se_mod_switch_to_next se c = Inr c1" "ciphertext_is v c1 False level sz f"
    using law_mod_switch_next [OF assms(1) Suc.prems(1)] by blast
  obtain fuel' where "fuel = Suc fuel'" "level \<le> fuel'" using Suc.prems(2) by (cases fuel) auto
  then show ?case
    using Suc.IH [OF c1(2)] c1(1) law_parms_id(1) [OF assms(1) Suc.prems(1)]
    by (auto simp: switch_to_last.simps [of se "Suc fuel'" c])
qed

lemma finish_result_ok:
  assumes "seal_laws se v" "compression_law se v" "ciphertext_is v c False level sz f"
  shows "\<exists>c'. finish_result se c = Inr c' \<and> decrypts_to v c' f"
proof -
  obtain c1 where c1: "switch_to_last se (se_first_chain_index se) c = Inr c1" "ciphertext_is v c1 False 0 sz f"
    using switch_to_last_ok [OF assms(1,3) law_parms_id(2) [OF assms(1,3)]] by blast
  have "\<exists>c'. try_clear_irrelevant_bits se c1 = Inr c' \<and> ciphertext_is v c' False 0 sz f"
    using c1(2) assms(2) by (auto simp: try_clear_irrelevant_bits_def compression_law_def Let_def)
  then show ?thesis using c1(1) by (auto simp: finish_result_def decrypts_to_def ciphertext_is_def)
qed

lemma psum_step:
  assumes "finite D" "d \<notin> D"
  shows "(poly_sum p a x D + x ^ d mod p * a d mod p) mod p = poly_sum p a x (insert d D)"
  unfolding poly_sum_insert [OF assms] by (metis mod_add_right_eq mod_mult_left_eq mult.commute)

lemma psum_ciphertext:
  assumes "ciphertext_is v c ntt level sz (\<lambda>i. (poly_sum p (\<lambda>d. a d i) (x i) D + x i ^ d mod p * a d i mod p) mod p)"
    and "finite D" "d \<notin> D"
  shows "ciphertext_is v c ntt level sz (\<lambda>i. poly_sum p (\<lambda>d. a d i) (x i) (insert d D))"
proof (rule ciphertext_is_cong [OF assms(1)])
  fix i
  show "(poly_sum p (\<lambda>d. a d i) (x i) D + x i ^ d mod p * a d i mod p) mod p = poly_sum p (\<lambda>d. a d i) (x i) (insert d D)"
    using psum_step [OF assms(2,3), of p "\<lambda>d. a d i" "x i"] by simp
qed

lemma eval_terms_ok:
  assumes laws: "seal_laws se v"
    and coeffs: "\<And>d. deg \<le> d \<Longrightarrow> d < deg + n \<Longrightarrow> d < length coeffs \<and> plaintext_is v (coeffs ! d) True L (a d)"
    and powers: "\<And>d. deg \<le> d \<Longrightarrow> d < deg + n \<Longrightarrow> d < length powers \<and>
      ciphertext_is v (powers ! d) True L 2 (\<lambda>i. x i ^ d mod mo_value (se_mod se))"
    and result: "ciphertext_is v result True L 2 (\<lambda>i. poly_sum (mo_value (se_mod se)) (\<lambda>d. a d i) (x i) D)"
    and D: "finite D" "D \<inter> {deg..<deg + n} = {}"
  shows "\<exists>r. eval_terms se coeffs powers deg n result = Inr r \<and>
    ciphertext_is v r True L 2 (\<lambda>i. poly_sum (mo_value (se_mod se)) (\<lambda>d. a d i) (x i) (D \<union> {deg..<deg + n}))"
  using coeffs powers result D
proof (induction n arbitrary: deg result D)
  case 0
  then show ?case by simp
next
  case (Suc n)
  let ?p = "mo_value (se_mod se)"
  have d: "deg < length coeffs" "deg < length powers" "plaintext_is v (coeffs ! deg) True L (a deg)"
    "ciphertext_is v (powers ! deg) True L 2 (\<lambda>i. x i ^ deg mod ?p)"
    using Suc.prems(1,2) [of deg] by simp_all
  obtain temp where temp: "se_multiply_plain se (powers ! deg) (coeffs ! deg) = Inr temp"
    "ciphertext_is v temp True L 2 (\<lambda>i. x i ^ deg mod ?p * a deg i mod ?p)"
    using law_multiply_plain [OF laws d(4,3)] by blast
  obtain r1 where r1: "se_add se result temp = Inr r1"
    "ciphertext_is v r1 True L 2 (\<lambda>i. (poly_sum ?p (\<lambda>d. a d i) (x i) D + x i ^ deg mod ?p * a deg i mod ?p) mod ?p)"
    using law_add [OF laws Suc.prems(3) temp(2)] by auto
  have "deg \<notin> D" using Suc.prems(5) by auto
  then have r1': "ciphertext_is v r1 True L 2 (\<lambda>i. poly_sum ?p (\<lambda>d. a d i) (x i) (insert deg D))"
    by (rule psum_ciphertext [OF r1(2) Suc.prems(4)])
  have "\<exists>r. eval_terms se coeffs powers (deg + 1) n r1 = Inr r \<and>
    ciphertext_is v r True L 2 (\<lambda>i. poly_sum ?p (\<lambda>d. a d i) (x i) (insert deg D \<union> {deg + 1..<deg + 1 + n}))"
    using Suc.prems r1' by (intro Suc.IH) auto
  moreover have "insert deg D \<union> {deg + 1..<deg + 1 + n} = D \<union> {deg..<deg + Suc n}" by auto
  ultimately show ?case using d temp r1 by simp
qed

text \<open>
  The coefficients as \<open>batched_plaintext_polyn\<close> makes them without Paterson-Stockmeyer, or those of a
  low degree with it: all but the constant one in NTT form at level \<open>L\<close>.
\<close>

definition plain_coeffs_ok ::
  "('p, 'c) he_view \<Rightarrow> 'p batched_polyn \<Rightarrow> nat \<Rightarrow> (nat \<Rightarrow> nat \<Rightarrow> nat) \<Rightarrow> bool" where
  "plain_coeffs_ok v coeffs L a \<longleftrightarrow> coeffs \<noteq> [] \<and>
     (\<forall>d < length coeffs. plaintext_is v (coeffs ! d) (d \<noteq> 0) L (a d))"

definition ntt_powers_ok ::
  "('p, 'c) seal \<Rightarrow> ('p, 'c) he_view \<Rightarrow> 'c list \<Rightarrow> nat \<Rightarrow> nat \<Rightarrow> (nat \<Rightarrow> nat) \<Rightarrow> bool" where
  "ntt_powers_ok se v powers n L x \<longleftrightarrow> (\<forall>d. 1 \<le> d \<and> d \<le> n \<longrightarrow> d < length powers \<and>
     ciphertext_is v (powers ! d) True L 2 (\<lambda>i. x i ^ d mod mo_value (se_mod se)))"

lemma polyn_eval_enc_ok:
  assumes laws: "seal_laws se v" "compression_law se v"
    and coeffs: "plain_coeffs_ok v coeffs L a"
    and powers: "ntt_powers_ok se v powers (max (length coeffs - 1) 1) L x"
  shows "\<exists>r. polyn_eval_enc se coeffs powers = Inr r \<and>
    decrypts_to v r (\<lambda>i. poly_sum (mo_value (se_mod se)) (\<lambda>d. a d i) (x i) {..<length coeffs})"
proof -
  let ?p = "mo_value (se_mod se)" and ?n = "length coeffs"
  have n: "0 < ?n" using coeffs by (simp add: plain_coeffs_ok_def)
  have pw: "d < length powers" "ciphertext_is v (powers ! d) True L 2 (\<lambda>i. x i ^ d mod ?p)"
    if "1 \<le> d" "d \<le> max (?n - 1) 1" for d
    using powers that by (simp_all add: ntt_powers_ok_def)
  have "max (?n - 1) 1 < length powers" by (rule pw(1)) simp_all
  then have len: "\<not> length powers < max ?n 2" by linarith
  have L: "se_parms_id se (powers ! 1) = L" "L \<le> se_first_chain_index se"
    using law_parms_id [OF laws(1) pw(2) [of 1]] by simp_all
  have zero: "ciphertext_is v (se_zero_ciphertext se L 2 True) True L 2 (\<lambda>i. poly_sum ?p (\<lambda>d. a d i) (x i) {})"
    using law_zero [OF laws(1) L(2), of 2 True] by simp
  have "\<exists>r. eval_terms se coeffs powers 1 (?n - 1) (se_zero_ciphertext se L 2 True) = Inr r \<and>
    ciphertext_is v r True L 2 (\<lambda>i. poly_sum ?p (\<lambda>d. a d i) (x i) ({} \<union> {1..<1 + (?n - 1)}))"
  proof (rule eval_terms_ok [OF laws(1) _ _ zero])
    fix d assume "1 \<le> d" "d < 1 + (?n - 1)"
    then have d: "1 \<le> d" "d < ?n" "d \<le> max (?n - 1) 1" using n by linarith+
    show "d < length coeffs \<and> plaintext_is v (coeffs ! d) True L (a d)"
      using coeffs d by (auto simp: plain_coeffs_ok_def)
    show "d < length powers \<and> ciphertext_is v (powers ! d) True L 2 (\<lambda>i. x i ^ d mod ?p)"
      using pw d by blast
  qed simp_all
  then obtain r where r: "eval_terms se coeffs powers 1 (?n - 1) (se_zero_ciphertext se L 2 True) = Inr r"
    "ciphertext_is v r True L 2 (\<lambda>i. poly_sum ?p (\<lambda>d. a d i) (x i) {1..<?n})"
    using n by auto
  obtain r1 where r1: "se_from_ntt se r = Inr r1"
    "ciphertext_is v r1 False L 2 (\<lambda>i. poly_sum ?p (\<lambda>d. a d i) (x i) {1..<?n})"
    using law_from_ntt [OF laws(1) r(2)] by blast
  have c0: "plaintext_is v (coeffs ! 0) False L (a 0)" using coeffs n by (fastforce simp: plain_coeffs_ok_def)
  obtain r2 where r2: "se_add_plain se r1 (coeffs ! 0) = Inr r2"
    "ciphertext_is v r2 False L 2 (\<lambda>i. (poly_sum ?p (\<lambda>d. a d i) (x i) {1..<?n} + a 0 i) mod ?p)"
    using law_add_plain [OF laws(1) r1(2) c0] by blast
  have "(poly_sum ?p (\<lambda>d. a d i) (x i) {1..<?n} + a 0 i) mod ?p = poly_sum ?p (\<lambda>d. a d i) (x i) {..<?n}" for i
  proof -
    have "{..<?n} = insert 0 {1..<?n}" using n by auto
    then show ?thesis by (simp add: poly_sum_insert)
  qed
  then have "ciphertext_is v r2 False L 2 (\<lambda>i. poly_sum ?p (\<lambda>d. a d i) (x i) {..<?n})" using r2(2) by simp
  then show ?thesis
    using finish_result_ok [OF laws] r r1 r2 len L(1) n by (simp add: polyn_eval_enc_def Let_def)
qed

subsection \<open>Paterson-Stockmeyer evaluation is correct\<close>

text \<open>
  The form of the coefficients and of the powers when Paterson-Stockmeyer is used: positions that are
  multiples of \<open>h\<close>, the lowest high degree, in coefficient form, the others in NTT form at the level
  \<open>low\<close>; low powers in NTT form at \<open>low\<close>, high powers in coefficient form at \<open>high\<close>.
\<close>

definition ps_coeffs_ok ::
  "('p, 'c) he_view \<Rightarrow> 'p batched_polyn \<Rightarrow> nat \<Rightarrow> nat \<Rightarrow> (nat \<Rightarrow> nat \<Rightarrow> nat) \<Rightarrow> bool" where
  "ps_coeffs_ok v coeffs h low a \<longleftrightarrow>
     (\<forall>d < length coeffs. plaintext_is v (coeffs ! d) (d mod h \<noteq> 0) low (a d))"

definition ps_powers_ok ::
  "('p, 'c) seal \<Rightarrow> ('p, 'c) he_view \<Rightarrow> 'c list \<Rightarrow> nat \<Rightarrow> nat \<Rightarrow> nat \<Rightarrow> nat \<Rightarrow> (nat \<Rightarrow> nat) \<Rightarrow> bool" where
  "ps_powers_ok se v powers degree h low high x \<longleftrightarrow>
     (\<forall>d. 1 \<le> d \<and> d < h \<longrightarrow> d < length powers \<and>
        ciphertext_is v (powers ! d) True low 2 (\<lambda>i. x i ^ d mod mo_value (se_mod se))) \<and>
     (\<forall>k. 1 \<le> k \<and> k * h \<le> degree \<longrightarrow> k * h < length powers \<and>
        ciphertext_is v (powers ! (k * h)) False high 2 (\<lambda>i. x i ^ (k * h) mod mo_value (se_mod se)))"

text \<open>The setting of one evaluation, shared by the lemmas on its stages.\<close>

definition ps_setting ::
  "('p, 'c) seal \<Rightarrow> ('p, 'c) he_view \<Rightarrow> 'p batched_polyn \<Rightarrow> 'c list \<Rightarrow> nat \<Rightarrow> nat \<Rightarrow> nat \<Rightarrow>
   (nat \<Rightarrow> nat \<Rightarrow> nat) \<Rightarrow> (nat \<Rightarrow> nat) \<Rightarrow> bool" where
  "ps_setting se v coeffs powers h low high a x \<longleftrightarrow> seal_laws se v \<and> ps_coeffs_ok v coeffs h low a \<and>
     ps_powers_ok se v powers (length coeffs - 1) h low high x \<and> high \<le> low \<and> 1 < h"

abbreviation slots_sum :: "('p, 'c) seal \<Rightarrow> (nat \<Rightarrow> nat \<Rightarrow> nat) \<Rightarrow> (nat \<Rightarrow> nat) \<Rightarrow> nat set \<Rightarrow> nat \<Rightarrow> nat" where
  "slots_sum se a x D \<equiv> (\<lambda>i. poly_sum (mo_value (se_mod se)) (\<lambda>d. a d i) (x i) D)"

lemma setting_low:
  assumes "ps_setting se v coeffs powers h low high a x" "1 \<le> j" "j < h" "b + j < length coeffs" "(b + j) mod h \<noteq> 0"
  shows "\<exists>temp. vec_get coeffs (b + j) = Inr (coeffs ! (b + j)) \<and> vec_get powers j = Inr (powers ! j) \<and>
    se_multiply_plain se (powers ! j) (coeffs ! (b + j)) = Inr temp \<and>
    ciphertext_is v temp True low 2 (\<lambda>i. x i ^ j mod mo_value (se_mod se) * a (b + j) i mod mo_value (se_mod se))"
proof -
  have "plaintext_is v (coeffs ! (b + j)) True low (a (b + j))" "j < length powers"
    "ciphertext_is v (powers ! j) True low 2 (\<lambda>i. x i ^ j mod mo_value (se_mod se))"
    using assms by (auto simp: ps_setting_def ps_coeffs_ok_def ps_powers_ok_def)
  then show ?thesis using law_multiply_plain [of se v] assms by (simp add: ps_setting_def)
qed

lemma inner_polyn_ok:
  assumes set: "ps_setting se v coeffs powers h low high a x"
    and "1 \<le> j" "j + n \<le> h" "b + j + n \<le> length coeffs" "b mod h = 0"
    and "j \<noteq> 1 \<longrightarrow> ciphertext_is v temp_in True low 2 (slots_sum se (\<lambda>d. a (b + d)) x {1..<j})" and "j = 1 \<longrightarrow> n \<noteq> 0"
  shows "\<exists>r. inner_polyn se coeffs powers b j n temp_in = Inr r \<and>
    ciphertext_is v r True low 2 (slots_sum se (\<lambda>d. a (b + d)) x {1..<j + n})"
  using assms(2-)
proof (induction n arbitrary: j temp_in)
  case 0
  then show ?case by simp
next
  case (Suc n)
  have "(b + j) mod h \<noteq> 0" using Suc.prems by (simp add: mod_add_eq [symmetric, of b] )
  then obtain temp where temp: "vec_get coeffs (b + j) = Inr (coeffs ! (b + j))" "vec_get powers j = Inr (powers ! j)"
    "se_multiply_plain se (powers ! j) (coeffs ! (b + j)) = Inr temp"
    "ciphertext_is v temp True low 2 (\<lambda>i. x i ^ j mod mo_value (se_mod se) * a (b + j) i mod mo_value (se_mod se))"
    using setting_low [OF set Suc.prems(1), of b] Suc.prems by force
  have laws: "seal_laws se v" using set by (simp add: ps_setting_def)
  have "\<exists>t. (if j = 1 then Inr temp else se_add se temp_in temp) = Inr t \<and>
    ciphertext_is v t True low 2 (slots_sum se (\<lambda>d. a (b + d)) x {1..<j + 1})"
  proof (cases "j = 1")
    case True
    have "y ^ 1 mod p * f 1 mod p = poly_sum p f y {1..<2}" for p f y
      by (simp add: poly_sum_def numeral_2_eq_2 mod_mult_left_eq mult.commute)
    then have "ciphertext_is v temp True low 2 (slots_sum se (\<lambda>d. a (b + d)) x {1..<2})"
      unfolding True by (intro ciphertext_is_cong [OF temp(4) [unfolded True]])
    then show ?thesis using True by (simp add: numeral_2_eq_2)
  next
    case False
    obtain t where t: "se_add se temp_in temp = Inr t" "ciphertext_is v t True low 2
        (\<lambda>i. (slots_sum se (\<lambda>d. a (b + d)) x {1..<j} i + x i ^ j mod mo_value (se_mod se) * a (b + j) i mod mo_value (se_mod se)) mod mo_value (se_mod se))"
      using law_add [OF laws _ temp(4)] Suc.prems(5) False by fastforce
    have "ciphertext_is v t True low 2 (slots_sum se (\<lambda>d. a (b + d)) x (insert j {1..<j}))"
      by (rule psum_ciphertext [OF t(2)]) simp_all
    moreover have "insert j {1..<j} = {1..<j + 1}" using Suc.prems(1) by auto
    ultimately show ?thesis using t(1) False by simp
  qed
  then obtain t where t: "(if j = 1 then Inr temp else se_add se temp_in temp) = Inr t"
    "ciphertext_is v t True low 2 (slots_sum se (\<lambda>d. a (b + d)) x {1..<j + 1})" by blast
  have "\<exists>r. inner_polyn se coeffs powers b (j + 1) n t = Inr r \<and>
    ciphertext_is v r True low 2 (slots_sum se (\<lambda>d. a (b + d)) x {1..<j + 1 + n})"
    using Suc.prems t(2) by (intro Suc.IH) auto
  moreover have "j + 1 + n = j + Suc n" by simp
  ultimately show ?case using temp t(1) by (simp only: inner_polyn.simps bind_res.simps)
qed

lemma shift_sum:
  "poly_sum p (\<lambda>d. a (b + d)) x {1..<n} * (x ^ b mod p) mod p = poly_sum p a x {b + 1..<b + n}"
proof -
  have "(\<Sum>d\<in>{1..<n}. a (b + d) * x ^ d) * x ^ b = (\<Sum>d\<in>{1..<n}. a (b + d) * x ^ (b + d))"
    by (simp add: sum_distrib_left power_add mult_ac)
  also have "\<dots> = (\<Sum>d\<in>{b + 1..<b + n}. a d * x ^ d)"
    using sum.shift_bounds_nat_ivl [of "\<lambda>d. a d * x ^ d" 1 b n] by (simp add: add.commute)
  finally show ?thesis unfolding poly_sum_def by (metis mod_mult_eq)
qed

lemma high_term_ok:
  assumes set: "ps_setting se v coeffs powers h low high a x"
    and i: "1 \<le> k" "k * h + n < length coeffs" "0 < n" "n < h"
    and res: "ciphertext_is v result False high 3 (slots_sum se a x D)"
    and D: "finite D" "D \<inter> {k * h + 1..<k * h + n + 1} = {}"
  shows "\<exists>t r. high_term se coeffs powers h high k n (temp_in, result) = Inr (t, r) \<and>
    ciphertext_is v r False high 3 (slots_sum se a x (D \<union> {k * h + 1..<k * h + n + 1}))"
proof -
  let ?p = "mo_value (se_mod se)" and ?b = "k * h"
  have laws: "seal_laws se v" and le: "high \<le> low" using set by (simp_all add: ps_setting_def)
  obtain t1 where t1: "inner_polyn se coeffs powers ?b 1 n temp_in = Inr t1"
    "ciphertext_is v t1 True low 2 (slots_sum se (\<lambda>d. a (?b + d)) x {1..<1 + n})"
    using inner_polyn_ok [OF set, of 1 n ?b temp_in] i by auto
  obtain t2 where t2: "se_from_ntt se t1 = Inr t2"
    "ciphertext_is v t2 False low 2 (slots_sum se (\<lambda>d. a (?b + d)) x {1..<1 + n})"
    using law_from_ntt [OF laws t1(2)] by blast
  obtain t3 where t3: "se_mod_switch_to se t2 high = Inr t3"
    "ciphertext_is v t3 False high 2 (slots_sum se (\<lambda>d. a (?b + d)) x {1..<1 + n})"
    using law_mod_switch_to [OF laws t2(2) le] by blast
  have pw: "?b < length powers" "ciphertext_is v (powers ! ?b) False high 2 (\<lambda>i. x i ^ ?b mod ?p)"
    using set i by (simp_all add: ps_setting_def ps_powers_ok_def)
  obtain t4 where t4: "se_multiply se t3 (powers ! ?b) = Inr t4"
    "ciphertext_is v t4 False high 3 (\<lambda>i. slots_sum se (\<lambda>d. a (?b + d)) x {1..<1 + n} i * (x i ^ ?b mod ?p) mod ?p)"
    using law_multiply [OF laws t3(2) pw(2)] by blast
  have t4': "ciphertext_is v t4 False high 3 (slots_sum se a x {?b + 1..<?b + n + 1})"
  proof (rule ciphertext_is_cong [OF t4(2)])
    fix i show "slots_sum se (\<lambda>d. a (?b + d)) x {1..<1 + n} i * (x i ^ ?b mod ?p) mod ?p = slots_sum se a x {?b + 1..<?b + n + 1} i"
      using shift_sum [of ?p "\<lambda>d. a d i" ?b "x i" "1 + n"] by simp
  qed
  obtain r where r: "se_add se result t4 = Inr r" "ciphertext_is v r False high 3
      (\<lambda>i. (slots_sum se a x D i + slots_sum se a x {?b + 1..<?b + n + 1} i) mod ?p)"
    using law_add [OF laws res t4'] by auto
  have "ciphertext_is v r False high 3 (slots_sum se a x (D \<union> {?b + 1..<?b + n + 1}))"
    using D by (intro ciphertext_is_cong [OF r(2)]) (simp add: poly_sum_union)
  then show ?thesis using t1 t2 t3 t4 r pw(1) by (simp add: high_term_def)
qed

text \<open>The degrees of the inner polynomials up to the one for \<open>k * h\<close>, without constants.\<close>

definition inner_degrees :: "nat \<Rightarrow> nat \<Rightarrow> nat set" where
  "inner_degrees h k = {d. h \<le> d \<and> d < k * h \<and> d mod h \<noteq> 0}"

lemma inner_degrees_Suc:
  assumes "1 \<le> k" "1 < h"
  shows "inner_degrees h (k + 1) = inner_degrees h k \<union> {k * h + 1..<k * h + (h - 1) + 1}"
    "inner_degrees h k \<inter> {k * h + 1..<k * h + n} = {}" "finite (inner_degrees h k)"
proof -
  have mul: "d mod h \<noteq> 0 \<longleftrightarrow> d \<noteq> k * h" if "k * h \<le> d" "d < k * h + h" for d
  proof -
    obtain e where "d = k * h + e" using \<open>k * h \<le> d\<close> le_Suc_ex by blast
    then show ?thesis using that(2) by simp
  qed
  have le: "h \<le> k * h" using assms(1) by simp
  show "inner_degrees h (k + 1) = inner_degrees h k \<union> {k * h + 1..<k * h + (h - 1) + 1}"
  proof (rule set_eqI)
    fix d
    have next_eq: "(k + 1) * h = k * h + h" "k * h + (h - 1) + 1 = k * h + h" using assms(2) by simp_all
    show "d \<in> inner_degrees h (k + 1) \<longleftrightarrow> d \<in> inner_degrees h k \<union> {k * h + 1..<k * h + (h - 1) + 1}"
    proof (cases "d < k * h")
      case True
      then show ?thesis unfolding inner_degrees_def next_eq by auto
    next
      case False
      then show ?thesis using mul [of d] order_trans [OF le, of d] unfolding inner_degrees_def next_eq by auto
    qed
  qed
  show "inner_degrees h k \<inter> {k * h + 1..<k * h + n} = {}" "finite (inner_degrees h k)"
    by (auto simp: inner_degrees_def)
qed

lemma high_terms_ok:
  assumes set: "ps_setting se v coeffs powers h low high a x"
    and "1 \<le> k" "(k + n) * h \<le> length coeffs"
    and res: "ciphertext_is v result False high 3 (slots_sum se a x (inner_degrees h k))"
  shows "\<exists>t r. high_terms se coeffs powers h high k n (temp_in, result) = Inr (t, r) \<and>
    ciphertext_is v r False high 3 (slots_sum se a x (inner_degrees h (k + n)))"
  using assms(2-)
proof (induction n arbitrary: k temp_in result)
  case 0
  then show ?case by simp
next
  case (Suc n)
  have h: "1 < h" using set by (simp add: ps_setting_def)
  note deg = inner_degrees_Suc [OF Suc.prems(1) h]
  have "k * h + h \<le> (k + Suc n) * h" by simp
  then have len: "k * h + (h - 1) < length coeffs" using Suc.prems(2) h by linarith
  have n: "0 < h - 1" "h - 1 < h" using h by simp_all
  have disj: "inner_degrees h k \<inter> {k * h + 1..<k * h + (h - 1) + 1} = {}"
    using deg(2) [of "h - 1 + 1"] by (simp only: add.assoc)
  obtain t r where t: "high_term se coeffs powers h high k (h - 1) (temp_in, result) = Inr (t, r)"
    "ciphertext_is v r False high 3 (slots_sum se a x (inner_degrees h k \<union> {k * h + 1..<k * h + (h - 1) + 1}))"
    using high_term_ok [OF set Suc.prems(1) len n Suc.prems(3) deg(3) disj, of temp_in] by (elim exE conjE)
  have "\<exists>t' r'. high_terms se coeffs powers h high (k + 1) n (t, r) = Inr (t', r') \<and>
    ciphertext_is v r' False high 3 (slots_sum se a x (inner_degrees h (k + 1 + n)))"
  proof (rule Suc.IH)
    show "1 \<le> k + 1" "(k + 1 + n) * h \<le> length coeffs" using Suc.prems(2) by simp_all
    show "ciphertext_is v r False high 3 (slots_sum se a x (inner_degrees h (k + 1)))"
      unfolding deg(1) by (fact t(2))
  qed
  moreover have "k + 1 + n = k + Suc n" by simp
  ultimately show ?case using t(1) by (simp only: high_terms.simps bind_res.simps)
qed

lemma low_terms_ok:
  assumes set: "ps_setting se v coeffs powers h low high a x"
    and "1 \<le> j" "j + n \<le> h" "j + n \<le> length coeffs"
    and "ciphertext_is v result False high sz (slots_sum se a x D)" "2 \<le> sz"
    and "finite D" "D \<inter> {j..<j + n} = {}"
  shows "\<exists>r. low_terms se coeffs powers high j n result = Inr r \<and>
    ciphertext_is v r False high sz (slots_sum se a x (D \<union> {j..<j + n}))"
  using assms(2-)
proof (induction n arbitrary: j result D)
  case 0
  then show ?case by simp
next
  case (Suc n)
  have laws: "seal_laws se v" and le: "high \<le> low" using set by (simp_all add: ps_setting_def)
  obtain t1 where t1: "vec_get coeffs j = Inr (coeffs ! j)" "vec_get powers j = Inr (powers ! j)"
    "se_multiply_plain se (powers ! j) (coeffs ! j) = Inr t1"
    "ciphertext_is v t1 True low 2 (\<lambda>i. x i ^ j mod mo_value (se_mod se) * a j i mod mo_value (se_mod se))"
    using setting_low [OF set Suc.prems(1), of 0] Suc.prems by force
  obtain t2 where t2: "se_from_ntt se t1 = Inr t2"
    "ciphertext_is v t2 False low 2 (\<lambda>i. x i ^ j mod mo_value (se_mod se) * a j i mod mo_value (se_mod se))"
    using law_from_ntt [OF laws t1(4)] by blast
  obtain t3 where t3: "se_mod_switch_to se t2 high = Inr t3"
    "ciphertext_is v t3 False high 2 (\<lambda>i. x i ^ j mod mo_value (se_mod se) * a j i mod mo_value (se_mod se))"
    using law_mod_switch_to [OF laws t2(2) le] by blast
  obtain r1 where r1: "se_add se result t3 = Inr r1" "ciphertext_is v r1 False high (max sz 2)
      (\<lambda>i. (slots_sum se a x D i + x i ^ j mod mo_value (se_mod se) * a j i mod mo_value (se_mod se)) mod mo_value (se_mod se))"
    using law_add [OF laws Suc.prems(4) t3(2)] by blast
  have "j \<notin> D" using Suc.prems(7) by auto
  then have "ciphertext_is v r1 False high sz (slots_sum se a x (insert j D))"
    using psum_ciphertext [OF r1(2) Suc.prems(6)] Suc.prems(5) by (simp add: max_def)
  then have "\<exists>r. low_terms se coeffs powers high (j + 1) n r1 = Inr r \<and>
    ciphertext_is v r False high sz (slots_sum se a x (insert j D \<union> {j + 1..<j + 1 + n}))"
    using Suc.prems by (intro Suc.IH) auto
  moreover have "insert j D \<union> {j + 1..<j + 1 + n} = D \<union> {j..<j + Suc n}" by auto
  ultimately show ?case using t1 t2 t3 r1 by (simp only: low_terms.simps bind_res.simps)
qed

lemma constant_terms_ok:
  assumes set: "ps_setting se v coeffs powers h low high a x"
    and "1 \<le> k" "\<And>l. l < k + n \<Longrightarrow> l * h < length coeffs"
    and "ciphertext_is v result False high sz (slots_sum se a x D)" "2 \<le> sz"
    and "finite D" "\<And>l. k \<le> l \<Longrightarrow> l < k + n \<Longrightarrow> l * h \<notin> D"
  shows "\<exists>r. constant_terms se coeffs powers h high k n result = Inr r \<and>
    ciphertext_is v r False high sz (slots_sum se a x (D \<union> (\<lambda>l. l * h) ` {k..<k + n}))"
  using assms(2-)
proof (induction n arbitrary: k result D)
  case 0
  then show ?case by simp
next
  case (Suc n)
  let ?p = "mo_value (se_mod se)" and ?b = "k * h"
  have laws: "seal_laws se v" and h: "1 < h" using set by (simp_all add: ps_setting_def)
  have b: "?b < length coeffs" using Suc.prems(2) by simp
  have c: "plaintext_is v (coeffs ! ?b) False low (a ?b)" using set b by (fastforce simp: ps_setting_def ps_coeffs_ok_def)
  then have c': "plaintext_is v (coeffs ! ?b) False high (a ?b)" by (simp add: plaintext_is_def)
  have pw: "?b < length powers" "ciphertext_is v (powers ! ?b) False high 2 (\<lambda>i. x i ^ ?b mod ?p)"
    using set Suc.prems(1) b by (simp_all add: ps_setting_def ps_powers_ok_def)
  obtain t1 where t1: "se_multiply_plain se (powers ! ?b) (coeffs ! ?b) = Inr t1"
    "ciphertext_is v t1 False high 2 (\<lambda>i. x i ^ ?b mod ?p * a ?b i mod ?p)"
    using law_multiply_plain [OF laws pw(2) c'] by blast
  obtain t2 where t2: "se_mod_switch_to se t1 high = Inr t2"
    "ciphertext_is v t2 False high 2 (\<lambda>i. x i ^ ?b mod ?p * a ?b i mod ?p)"
    using law_mod_switch_to [OF laws t1(2)] by blast
  obtain r1 where r1: "se_add se result t2 = Inr r1" "ciphertext_is v r1 False high (max sz 2)
      (\<lambda>i. (slots_sum se a x D i + x i ^ ?b mod ?p * a ?b i mod ?p) mod ?p)"
    using law_add [OF laws Suc.prems(3) t2(2)] by blast
  have "?b \<notin> D" using Suc.prems(6) [of k] by simp
  then have "ciphertext_is v r1 False high sz (slots_sum se a x (insert ?b D))"
    using psum_ciphertext [OF r1(2) Suc.prems(5)] Suc.prems(4) by (simp add: max_def)
  then have "\<exists>r. constant_terms se coeffs powers h high (k + 1) n r1 = Inr r \<and>
    ciphertext_is v r False high sz (slots_sum se a x (insert ?b D \<union> (\<lambda>l. l * h) ` {k + 1..<k + 1 + n}))"
    using Suc.prems h by (intro Suc.IH) auto
  moreover have "{k..<k + Suc n} = insert k {k + 1..<k + 1 + n}" by auto
  then have "insert ?b D \<union> (\<lambda>l. l * h) ` {k + 1..<k + 1 + n} = D \<union> (\<lambda>l. l * h) ` {k..<k + Suc n}" by simp
  ultimately show ?case using t1 t2 r1 b pw(1) by (simp only: constant_terms.simps bind_res.simps vec_get_ok)
qed

lemma ps_degrees:
  assumes "1 < h" "h \<le> (deg :: nat)" and hp: "hp = deg div h"
  shows "inner_degrees h hp \<union> {hp * h + 1..<hp * h + deg mod h + 1} = {d. h \<le> d \<and> d \<le> deg \<and> d mod h \<noteq> 0}"
    and "{..deg} = insert 0 ({d. h \<le> d \<and> d \<le> deg \<and> d mod h \<noteq> 0} \<union> {1..<1 + (h - 1)} \<union> (\<lambda>l. l * h) ` {1..<1 + hp})"
proof -
  have split: "hp * h + deg mod h = deg" "deg mod h < h" using hp assms(1) by simp_all
  have "1 \<le> hp" using div_le_mono [OF assms(2), of h] assms(1) by (simp add: hp)
  then have le: "h \<le> hp * h" by simp
  show "inner_degrees h hp \<union> {hp * h + 1..<hp * h + deg mod h + 1} = {d. h \<le> d \<and> d \<le> deg \<and> d mod h \<noteq> 0}"
  proof (rule set_eqI)
    fix d
    show "d \<in> inner_degrees h hp \<union> {hp * h + 1..<hp * h + deg mod h + 1} \<longleftrightarrow>
        d \<in> {d. h \<le> d \<and> d \<le> deg \<and> d mod h \<noteq> 0}"
    proof (cases "d < hp * h")
      case True
      then show ?thesis using split by (auto simp: inner_degrees_def)
    next
      case False
      then obtain e where e: "d = hp * h + e" using le_Suc_ex not_less by blast
      show ?thesis
      proof (cases "e \<le> deg mod h")
        case True
        then have "d mod h = e" using e split(2) by simp
        then show ?thesis using True split e trans_le_add1 [OF le, of e] by (auto simp: inner_degrees_def)
      next
        case False
        then have "deg < d" using e split(1) by linarith
        then show ?thesis using e False by (simp add: inner_degrees_def)
      qed
    qed
  qed
  show "{..deg} = insert 0 ({d. h \<le> d \<and> d \<le> deg \<and> d mod h \<noteq> 0} \<union> {1..<1 + (h - 1)} \<union> (\<lambda>l. l * h) ` {1..<1 + hp})"
    (is "_ = insert 0 (?A \<union> ?B \<union> ?C)")
  proof (intro equalityI subsetI)
    fix d assume "d \<in> {..deg}"
    then have d: "d \<le> deg" by simp
    show "d \<in> insert 0 (?A \<union> ?B \<union> ?C)"
    proof (cases "d mod h = 0")
      case False
      then show ?thesis using d assms(1) by (cases "d < h") auto
    next
      case True
      then have dm: "d = (d div h) * h" by auto
      have "d div h \<le> hp" unfolding hp by (rule div_le_mono [OF d])
      moreover have "1 \<le> d div h" if "d \<noteq> 0" using dm that by (cases "d div h") auto
      ultimately have "d = 0 \<or> d \<in> ?C" using dm by (cases "d = 0") (simp_all add: image_iff, force)
      then show ?thesis by blast
    qed
  next
    fix d assume "d \<in> insert 0 (?A \<union> ?B \<union> ?C)"
    moreover have "l * h \<le> deg" if "l < 1 + hp" for l
    proof -
      have "l * h \<le> hp * h" using that by (intro mult_le_mono1) simp
      then show ?thesis using split(1) by linarith
    qed
    ultimately show "d \<in> {..deg}" using assms(1,2) by auto
  qed
qed

lemma polyn_eval_patstock_ok:
  assumes laws: "seal_laws se v" "compression_law se v" and small: "length coeffs < 2 ^ 64"
    and ps: "1 < ps_low_degree" "ps_low_degree < length coeffs - 1"
    and coeffs: "ps_coeffs_ok v coeffs (ps_low_degree + 1) low a"
    and powers: "ps_powers_ok se v powers (length coeffs - 1) (ps_low_degree + 1) low (get_parms_id_for_chain_idx se 1) x"
    and len: "length coeffs \<le> length powers" and low: "get_parms_id_for_chain_idx se 1 \<le> low"
  shows "\<exists>r. polyn_eval_patstock se coeffs powers ps_low_degree = Inr r \<and>
    decrypts_to v r (slots_sum se a x {..<length coeffs})"
proof -
  let ?h = "ps_low_degree + 1" and ?high = "get_parms_id_for_chain_idx se 1" and ?deg = "length coeffs - 1"
  let ?hp = "?deg div ?h" and ?rem = "?deg mod ?h"
  have set: "ps_setting se v coeffs powers ?h low ?high a x"
    using assms by (simp add: ps_setting_def)
  have h: "1 < ?h" "?h \<le> ?deg" using ps by simp_all
  have deg: "sub64 (length coeffs) 1 = ?deg"
  proof -
    have "(length coeffs + 2 ^ 64 - 1) mod 2 ^ 64 = (?deg + 2 ^ 64) mod 2 ^ 64" using ps by simp
    also have "\<dots> = ?deg" using small by simp
    finally show ?thesis by (simp add: sub64_def)
  qed
  have hp: "1 \<le> ?hp" "?hp * ?h + ?rem = ?deg" "?rem < ?h"
    using div_le_mono [OF h(2), of ?h] div_mult_mod_eq [of ?deg ?h] by (simp_all del: div_mult_mod_eq)
  have high: "?high \<le> se_first_chain_index se" by (simp add: get_parms_id_for_chain_idx_min)
  have lens: "?hp * ?h < length coeffs" using hp(2) ps by linarith
  have zero: "ciphertext_is v (se_zero_ciphertext se ?high 3 False) False ?high 3 (slots_sum se a x (inner_degrees ?h 1))"
  proof -
    have "inner_degrees ?h 1 = {}" by (auto simp: inner_degrees_def)
    then show ?thesis using law_zero [OF laws(1) high, of 3 False] by simp
  qed
  obtain t1 r1 where r1: "high_terms se coeffs powers ?h ?high 1 (?hp - 1) (se_fresh_ciphertext se, se_zero_ciphertext se ?high 3 False) = Inr (t1, r1)"
    "ciphertext_is v r1 False ?high 3 (slots_sum se a x (inner_degrees ?h ?hp))"
  proof -
    have hp1: "1 + (?hp - 1) = ?hp" using hp(1) by simp
    have "(1 + (?hp - 1)) * ?h \<le> length coeffs" unfolding hp1 using lens by simp
    from high_terms_ok [OF set order_refl this zero, of "se_fresh_ciphertext se"]
    show ?thesis using that unfolding hp1 by blast
  qed
  let ?D2 = "{d. ?h \<le> d \<and> d \<le> ?deg \<and> d mod ?h \<noteq> 0}"
  note D2 = ps_degrees [OF h refl]
  have rem: "\<exists>t2 r2. (if ?rem > 0 then high_term se coeffs powers ?h ?high ?hp ?rem (t1, r1) else Inr (t1, r1)) = Inr (t2, r2) \<and>
    ciphertext_is v r2 False ?high 3 (slots_sum se a x ?D2)"
  proof (cases "?rem > 0")
    case True
    have lt: "?hp * ?h + ?rem < length coeffs" using hp(2) ps by linarith
    have disj: "inner_degrees ?h ?hp \<inter> {?hp * ?h + 1..<?hp * ?h + ?rem + 1} = {}"
      using inner_degrees_Suc(2) [OF hp(1) h(1), of "?rem + 1"] by (simp only: add.assoc)
    note hterm = high_term_ok [OF set hp(1) lt True hp(3) r1(2) inner_degrees_Suc(3) [OF hp(1) h(1)] disj, of t1]
    show ?thesis using hterm unfolding D2(1) if_P [OF True] .
  next
    case False
    then show ?thesis using r1(2) unfolding D2(1) [symmetric] by simp
  qed
  then obtain t2 r2 where r2: "(if ?rem > 0 then high_term se coeffs powers ?h ?high ?hp ?rem (t1, r1) else Inr (t1, r1)) = Inr (t2, r2)"
    "ciphertext_is v r2 False ?high 3 (slots_sum se a x ?D2)" by blast
  obtain r3 sz where r3: "(if se_using_keyswitching se then se_relinearize se r2 else Inr r2) = Inr r3" "2 \<le> sz"
    "ciphertext_is v r3 False ?high sz (slots_sum se a x ?D2)"
  proof (cases "se_using_keyswitching se")
    case True
    then show ?thesis using that [of _ 2] law_relinearize [OF laws(1) True r2(2)] by auto
  next
    case False
    then show ?thesis using that [of r2 3] r2(2) by simp
  qed
  have "\<exists>r4. low_terms se coeffs powers ?high 1 (?h - 1) r3 = Inr r4 \<and>
    ciphertext_is v r4 False ?high sz (slots_sum se a x (?D2 \<union> {1..<1 + (?h - 1)}))"
    using h by (intro low_terms_ok [OF set _ _ _ r3(3,2)]) auto
  then obtain r4 where r4: "low_terms se coeffs powers ?high 1 (?h - 1) r3 = Inr r4"
    "ciphertext_is v r4 False ?high sz (slots_sum se a x (?D2 \<union> {1..<1 + (?h - 1)}))" by blast
  have "\<exists>r5. constant_terms se coeffs powers ?h ?high 1 ?hp r4 = Inr r5 \<and>
    ciphertext_is v r5 False ?high sz (slots_sum se a x (?D2 \<union> {1..<1 + (?h - 1)} \<union> (\<lambda>l. l * ?h) ` {1..<1 + ?hp}))"
  proof (rule constant_terms_ok [OF set _ _ r4(2) r3(2)])
    fix l :: nat assume "l < 1 + ?hp"
    then have "l * ?h \<le> ?hp * ?h" by (intro mult_le_mono1) simp
    then show "l * ?h < length coeffs" using lens by linarith
  next
    fix l :: nat assume "1 \<le> l"
    then have "?h \<le> l * ?h" using mult_le_mono1 [of 1 l ?h] by simp
    then show "l * ?h \<notin> ?D2 \<union> {1..<1 + (?h - 1)}" by (auto simp del: mult_Suc_right)
  qed simp_all
  then obtain r5 where r5: "constant_terms se coeffs powers ?h ?high 1 ?hp r4 = Inr r5"
    "ciphertext_is v r5 False ?high sz (slots_sum se a x (?D2 \<union> {1..<1 + (?h - 1)} \<union> (\<lambda>l. l * ?h) ` {1..<1 + ?hp}))" by blast
  have c0: "plaintext_is v (coeffs ! 0) False ?high (a 0)"
    using coeffs ps by (force simp: ps_coeffs_ok_def plaintext_is_def)
  obtain r6 where r6: "se_add_plain se r5 (coeffs ! 0) = Inr r6" "ciphertext_is v r6 False ?high sz
      (\<lambda>i. (slots_sum se a x (?D2 \<union> {1..<1 + (?h - 1)} \<union> (\<lambda>l. l * ?h) ` {1..<1 + ?hp}) i + a 0 i) mod mo_value (se_mod se))"
    using law_add_plain [OF laws(1) r5(2) c0] by blast
  have "ciphertext_is v r6 False ?high sz (slots_sum se a x {..<length coeffs})"
  proof (rule ciphertext_is_cong [OF r6(2)])
    fix i
    have all: "{..<length coeffs} = insert 0 (?D2 \<union> {1..<1 + (?h - 1)} \<union> (\<lambda>l. l * ?h) ` {1..<1 + ?hp})"
    proof -
      have "{..<length coeffs} = {..?deg}" using ps by auto
      then show ?thesis unfolding D2(2) .
    qed
    have zero: "0 \<notin> ?D2 \<union> {1..<1 + (?h - 1)} \<union> (\<lambda>l. l * ?h) ` {1..<1 + ?hp}" by auto
    show "(slots_sum se a x (?D2 \<union> {1..<1 + (?h - 1)} \<union> (\<lambda>l. l * ?h) ` {1..<1 + ?hp}) i + a 0 i) mod mo_value (se_mod se) =
        slots_sum se a x {..<length coeffs} i"
      unfolding all using zero by (subst poly_sum_insert) simp_all
  qed
  then obtain r7 where r7: "finish_result se r6 = Inr r7" "decrypts_to v r7 (slots_sum se a x {..<length coeffs})"
    using finish_result_ok [OF laws] by blast
  have guards: "\<not> length powers < max (length coeffs) 2" "\<not> (ps_low_degree \<le> 1 \<or> ?deg \<le> ps_low_degree)"
    using len ps by linarith+
  have c: "vec_get coeffs 0 = Inr (coeffs ! 0)" using ps by (intro vec_get_ok) linarith
  show ?thesis
    unfolding polyn_eval_patstock_def Let_def deg
    using guards r1(1) r2(1) r3(1) r4(1) r5(1) r6(1) r7 c
    by (simp only: if_False bind_res.simps prod.case) blast
qed

end
