(* ===== verification/BundleCache.thy ===== *)
theory BundleCache
  imports BundleSpec Evaluation
begin

text \<open>
  The cache of a bin bundle: the matching and label polynomials of its bins, batched into
  plaintexts. Regenerating it succeeds on a well-formed bundle, and evaluating the cached plaintexts
  on an encrypted query, by either method, decides membership in every bin and yields the label parts
  of the items that are there.
\<close>

subsection \<open>Batched polynomials\<close>

definition coeff_at :: "polyn list \<Rightarrow> nat \<Rightarrow> nat \<Rightarrow> nat" where
  "coeff_at polyns d i = (if i < length polyns \<and> d < length (polyns ! i) then polyns ! i ! d else 0)"

definition ntt_flag :: "nat \<Rightarrow> nat \<Rightarrow> bool" where
  "ntt_flag ps_low_degree d \<longleftrightarrow> (if ps_low_degree = 0 then d \<noteq> 0 else d mod (ps_low_degree + 1) \<noteq> 0)"

definition encode_level :: "('p, 'c) seal \<Rightarrow> nat \<Rightarrow> nat" where
  "encode_level se ps_low_degree = min (se_first_chain_index se) (if ps_low_degree \<noteq> 0 then 2 else 1)"

definition batched_ok ::
  "('p, 'c) seal \<Rightarrow> ('p, 'c) he_view \<Rightarrow> nat \<Rightarrow> polyn list \<Rightarrow> 'p batched_polyn \<Rightarrow> bool" where
  "batched_ok se v ps_low_degree polyns coeffs \<longleftrightarrow> length coeffs = max_degree polyns 0 + 1 \<and>
     (\<forall>d < length coeffs. plaintext_is v (coeffs ! d) (ntt_flag ps_low_degree d) (encode_level se ps_low_degree)
        (coeff_at polyns d))"

lemma max_degree_length: "max_degree ps m + 1 \<le> k \<longleftrightarrow> m + 1 \<le> k \<and> (\<forall>p \<in> set ps. length p \<le> k)"
proof (induction ps arbitrary: m)
  case (Cons q ps)
  show ?case using Cons [of "max (length q) (m + 1) - 1"] by (auto simp: max_def)
qed simp

lemma batched_plaintext_polyn_ok:
  assumes laws: "seal_laws se v" and "length polyns \<le> hv_slot_count v" "ps_low_degree + 1 < 2 ^ 32"
    and reduced: "\<forall>p \<in> set polyns. \<forall>c \<in> set p. c < mo_value (se_mod se)"
  shows "\<exists>coeffs. batched_plaintext_polyn se polyns ps_low_degree = Inr coeffs \<and>
    batched_ok se v ps_low_degree polyns coeffs"
proof -
  let ?L = "encode_level se ps_low_degree"
  have p: "0 < mo_value (se_mod se)" using laws by (simp add: seal_laws_def seal_arith_def)
  have level: "get_parms_id_for_chain_idx se (min (se_first_chain_index se) (if ps_low_degree \<noteq> 0 then 2 else 1)) = ?L"
    by (simp add: get_parms_id_for_chain_idx_min encode_level_def)
  have flag: "in_ntt_form ps_low_degree d = Inr (ntt_flag ps_low_degree d)" for d
    using assms(3) by (simp add: in_ntt_form_def ntt_flag_def Let_def)
  define make where "make d = bind_res (se_encode se (coeffs_of_degree polyns d)) (\<lambda>pt.
      bind_res (in_ntt_form ps_low_degree d) (\<lambda>ntt. if ntt then se_transform_plain_to_ntt se pt ?L else Inr pt))" for d
  have make: "\<exists>pt. make d = Inr pt \<and> plaintext_is v pt (ntt_flag ps_low_degree d) ?L (coeff_at polyns d)" for d
  proof -
    have c: "length (coeffs_of_degree polyns d) = length polyns" by (simp add: coeffs_of_degree_def)
    have "\<forall>x \<in> set (coeffs_of_degree polyns d). x < mo_value (se_mod se)"
      using reduced p by (auto simp: coeffs_of_degree_def)
    then obtain pt where pt: "se_encode se (coeffs_of_degree polyns d) = Inr pt"
      "plaintext_is v pt False 0 (\<lambda>i. if i < length (coeffs_of_degree polyns d) then coeffs_of_degree polyns d ! i else 0)"
      using law_encode [OF laws, of "coeffs_of_degree polyns d"] assms(2) c by auto
    have "(\<lambda>i. if i < length (coeffs_of_degree polyns d) then coeffs_of_degree polyns d ! i else 0) = coeff_at polyns d"
      by (auto simp: coeff_at_def coeffs_of_degree_def)
    then have pt': "plaintext_is v pt False 0 (coeff_at polyns d)" using pt(2) by simp
    have "?L \<le> se_first_chain_index se" by (simp add: encode_level_def)
    then obtain pt1 where "se_transform_plain_to_ntt se pt ?L = Inr pt1" "plaintext_is v pt1 True ?L (coeff_at polyns d)"
      using law_plain_to_ntt [OF laws pt'] by blast
    then show ?thesis using pt(1) pt' by (cases "ntt_flag ps_low_degree d") (simp_all add: make_def flag plaintext_is_def)
  qed
  have batched: "batched_plaintext_polyn se polyns ps_low_degree = map_res make [0..<max_degree polyns 0 + 1]"
    unfolding batched_plaintext_polyn_def Let_def level make_def ..
  obtain coeffs where coeffs: "map_res make [0..<max_degree polyns 0 + 1] = Inr coeffs"
    using map_res_total [of "[0..<max_degree polyns 0 + 1]" make] make by blast
  note len = map_res_Inr_length [OF coeffs]
  have "plaintext_is v (coeffs ! d) (ntt_flag ps_low_degree d) ?L (coeff_at polyns d)" if "d < length coeffs" for d
  proof -
    have d: "d < length [0..<max_degree polyns 0 + 1]" using that len by simp
    have "make ([0..<max_degree polyns 0 + 1] ! d) = Inr (coeffs ! d)" by (rule map_res_Inr_nth [OF coeffs d])
    moreover have "[0..<max_degree polyns 0 + 1] ! d = d" using d by (simp del: upt_Suc)
    ultimately show ?thesis using make [of d] by auto
  qed
  then show ?thesis using batched coeffs len by (simp add: batched_ok_def)
qed

text \<open>In slot \<open>i\<close> the coefficients are those of polynomial \<open>i\<close>, padded with zeros.\<close>

lemma coeff_at_sum:
  assumes "0 < p" "i < length polyns" "length (polyns ! i) \<le> n"
  shows "poly_sum p (\<lambda>d. coeff_at polyns d i) x {..<n} = polyn_eval p (polyns ! i) x"
proof -
  have "(\<Sum>d < n. coeff_at polyns d i * x ^ d) = (\<Sum>d < length (polyns ! i). coeff_at polyns d i * x ^ d)"
    using assms(3) by (intro sum.mono_neutral_right) (auto simp: coeff_at_def)
  also have "\<dots> = (\<Sum>d < length (polyns ! i). polyns ! i ! d * x ^ d)"
    using assms(2) by (intro sum.cong) (auto simp: coeff_at_def)
  finally show ?thesis using assms(1) by (simp add: poly_sum_def polyn_eval_sum)
qed

subsection \<open>Choosing the evaluation\<close>

text \<open>
  The choice \<open>Sender::ProcessBinBundleCache\<close> makes for each polynomial, and the form in which the
  powers of the query are by then.
\<close>

definition eval_batched :: "('p, 'c) seal \<Rightarrow> 'p batched_polyn \<Rightarrow> 'c list \<Rightarrow> nat \<Rightarrow> 'c res" where
  "eval_batched se coeffs powers ps_low_degree =
     (if length coeffs < 2 ^ 32 then
        let degree = sub32 (length coeffs) 1;
            using_ps = (ps_low_degree > 1 \<and> ps_low_degree < degree)
        in if using_ps then polyn_eval_patstock se coeffs powers ps_low_degree
           else polyn_eval_enc se coeffs powers
      else Inl (Logic_error ''cast failed''))"

definition query_powers_ok ::
  "('p, 'c) seal \<Rightarrow> ('p, 'c) he_view \<Rightarrow> 'c list \<Rightarrow> nat \<Rightarrow> nat \<Rightarrow> (nat \<Rightarrow> nat) \<Rightarrow> bool" where
  "query_powers_ok se v powers ps_low_degree max_deg x \<longleftrightarrow> length powers = max_deg + 1 \<and>
     (if ps_low_degree = 0 then ntt_powers_ok se v powers max_deg (encode_level se 0) x
      else ps_powers_ok se v powers max_deg (ps_low_degree + 1) (encode_level se ps_low_degree)
             (get_parms_id_for_chain_idx se 1) x)"

lemma eval_batched_ok:
  assumes laws: "seal_laws se v" "compression_law se v"
    and ps: "ps_low_degree \<noteq> 1" "ps_low_degree \<le> max_deg" "0 < max_deg" "max_deg < 2 ^ 32 - 1"
    and coeffs: "batched_ok se v ps_low_degree polyns coeffs" and len: "\<forall>p \<in> set polyns. length p \<le> max_deg + 1"
    and powers: "query_powers_ok se v powers ps_low_degree max_deg x"
  shows "\<exists>r. eval_batched se coeffs powers ps_low_degree = Inr r \<and>
    decrypts_to v r (slots_sum se (coeff_at polyns) x {..<length coeffs})"
proof -
  let ?n = "length coeffs" and ?L = "encode_level se ps_low_degree"
  have n: "0 < ?n" "?n \<le> max_deg + 1" using coeffs max_degree_length [of polyns 0 "max_deg + 1"] len
    by (simp_all add: batched_ok_def)
  have lp: "length powers = max_deg + 1" using powers by (simp add: query_powers_ok_def)
  have n32: "?n < 2 ^ 32" using n(2) ps(4) by simp
  have deg: "sub32 ?n 1 = ?n - 1" "?n < 2 ^ 32" by (rule sub32_ge) (use n(1) n32 in linarith)+
  have plain: "plaintext_is v (coeffs ! d) (ntt_flag ps_low_degree d) ?L (coeff_at polyns d)" if "d < ?n" for d
    using coeffs that by (simp add: batched_ok_def)
  show ?thesis
  proof (cases "ps_low_degree > 1 \<and> ps_low_degree < ?n - 1")
    case True
    have pc: "ps_coeffs_ok v coeffs (ps_low_degree + 1) ?L (coeff_at polyns)"
      using plain True by (simp add: ps_coeffs_ok_def ntt_flag_def)
    have pw: "ps_powers_ok se v powers (?n - 1) (ps_low_degree + 1) ?L (get_parms_id_for_chain_idx se 1) x"
      using powers True n(2) by (auto simp: query_powers_ok_def ps_powers_ok_def)
    have low: "get_parms_id_for_chain_idx se 1 \<le> ?L"
      using True by (simp add: get_parms_id_for_chain_idx_min encode_level_def)
    have "?n < 2 ^ 64" using n(2) ps(4) by simp
    from polyn_eval_patstock_ok [OF laws this _ _ pc pw _ low] True n lp
    show ?thesis using deg by (simp add: eval_batched_def Let_def)
  next
    case False
    then have small: "ps_low_degree = 0 \<or> ?n - 1 \<le> ps_low_degree" using ps(1) by linarith
    have pc: "plain_coeffs_ok v coeffs ?L (coeff_at polyns)"
      unfolding plain_coeffs_ok_def
    proof (intro conjI allI impI)
      show "coeffs \<noteq> []" using n(1) by auto
      fix d assume d: "d < ?n"
      then have "ntt_flag ps_low_degree d = (d \<noteq> 0)" using small by (auto simp: ntt_flag_def)
      then show "plaintext_is v (coeffs ! d) (d \<noteq> 0) ?L (coeff_at polyns d)" using plain [OF d] by simp
    qed
    have pw: "ntt_powers_ok se v powers (max (?n - 1) 1) ?L x"
    proof (cases "ps_low_degree = 0")
      case True
      then have "ntt_powers_ok se v powers max_deg ?L x" using powers by (simp add: query_powers_ok_def)
      moreover have "max (?n - 1) 1 \<le> max_deg" using n(2) ps(3) by linarith
      ultimately show ?thesis unfolding ntt_powers_ok_def by (meson order_trans)
    next
      case nz: False
      then have "max (?n - 1) 1 < ps_low_degree + 1" using small by simp
      then show ?thesis using powers nz by (auto simp: query_powers_ok_def ps_powers_ok_def ntt_powers_ok_def)
    qed
    from polyn_eval_enc_ok [OF laws pc pw] show ?thesis
      unfolding eval_batched_def Let_def deg(1) using False deg(2) by (simp only: if_True if_False)
  qed
qed

subsection \<open>Regenerating the cache\<close>

text \<open>What a fresh cache holds: the polynomials of every bin, and their batched form.\<close>

definition matching_ok :: "('p, 'c) seal \<Rightarrow> felt list \<Rightarrow> polyn \<Rightarrow> bool" where
  "matching_ok se bin cs \<longleftrightarrow> length cs = length bin + 1 \<and> (\<forall>c \<in> set cs. c < mo_value (se_mod se)) \<and>
     (\<forall>x < mo_value (se_mod se). polyn_eval (mo_value (se_mod se)) cs x = 0 \<longleftrightarrow> x \<in> unat ` set bin)"

definition label_polyn_ok :: "('p, 'c) seal \<Rightarrow> felt list \<Rightarrow> felt list \<Rightarrow> polyn \<Rightarrow> bool" where
  "label_polyn_ok se bin labels cs \<longleftrightarrow> length cs = max (length bin) 1 \<and> (\<forall>c \<in> set cs. c < mo_value (se_mod se)) \<and>
     (\<forall>q < length bin. polyn_eval (mo_value (se_mod se)) cs (unat (bin ! q)) = unat (labels ! q))"

definition cache_ok :: "('p, 'c) seal \<Rightarrow> ('p, 'c) he_view \<Rightarrow> 'p bin_bundle \<Rightarrow> 'p bundle_cache \<Rightarrow> bool" where
  "cache_ok se v b c \<longleftrightarrow>
     length (bc_felt_matching_polyns c) = bb_num_bins b \<and>
     (\<forall>i < bb_num_bins b. matching_ok se (bb_item_bins b ! i) (bc_felt_matching_polyns c ! i)) \<and>
     batched_ok se v (bb_ps_low_degree b) (bc_felt_matching_polyns c) (bc_batched_matching_polyn c) \<and>
     length (bc_felt_interp_polyns c) = bb_label_size b \<and> length (bc_batched_interp_polyns c) = bb_label_size b \<and>
     (\<forall>l < bb_label_size b. length (bc_felt_interp_polyns c ! l) = bb_num_bins b \<and>
        (\<forall>i < bb_num_bins b. label_polyn_ok se (bb_item_bins b ! i) (bb_label_bins b ! l ! i) (bc_felt_interp_polyns c ! l ! i)) \<and>
        batched_ok se v (bb_ps_low_degree b) (bc_felt_interp_polyns c ! l) (bc_batched_interp_polyns c ! l))"

definition felts_reduced :: "('p, 'c) seal \<Rightarrow> 'p bin_bundle \<Rightarrow> bool" where
  "felts_reduced se b \<longleftrightarrow>
     (\<forall>i < bb_num_bins b. (\<forall>x \<in> set (bb_item_bins b ! i). unat x < mo_value (se_mod se)) \<and>
        (\<forall>l < bb_label_size b. \<forall>x \<in> set (bb_label_bins b ! l ! i). unat x < mo_value (se_mod se)))"

lemma matching_polyn:
  assumes "seal_arith (se_mod se)" "mo_is_prime (se_mod se)" "\<forall>x \<in> set bin. unat x < mo_value (se_mod se)"
  shows "\<exists>cs. polyn_with_roots (se_mod se) (map unat bin) = Inr cs \<and> matching_ok se bin cs"
proof -
  have roots: "\<forall>r \<in> set (map unat bin). r < mo_value (se_mod se)" using assms(3) by simp
  have "0 < mo_value (se_mod se)" using assms(1) by (simp add: seal_arith_def)
  from polyn_with_roots_spec [OF assms(1,2) roots this]
  obtain cs where cs: "polyn_with_roots (se_mod se) (map unat bin) = Inr cs" "length cs = length bin + 1"
    "\<forall>c \<in> set cs. c < mo_value (se_mod se)" by auto
  have "polyn_eval (mo_value (se_mod se)) cs x = 0 \<longleftrightarrow> x \<in> unat ` set bin" if "x < mo_value (se_mod se)" for x
    using polyn_with_roots_spec [OF assms(1,2) roots that] cs(1) by auto
  then show ?thesis using cs by (simp add: matching_ok_def)
qed

lemma label_polyn:
  assumes "seal_arith (se_mod se)" "mo_is_prime (se_mod se)" "\<forall>x \<in> set bin. unat x < mo_value (se_mod se)"
    "\<forall>x \<in> set labels. unat x < mo_value (se_mod se)" "length labels = length bin" "distinct bin"
  shows "\<exists>cs. newton_interpolate_polyn (se_mod se) (map unat bin) (map unat labels) = Inr cs \<and>
    label_polyn_ok se bin labels cs"
proof -
  have h: "length (map unat labels) = length (map unat bin)" "\<forall>x \<in> set (map unat bin). x < mo_value (se_mod se)"
    "\<forall>x \<in> set (map unat labels). x < mo_value (se_mod se)" using assms(3-5) by simp_all
  have "distinct (map unat bin)" using assms(6) by (simp add: distinct_map inj_on_def word_unat_eq_iff)
  then show ?thesis
    using newton_interpolate_spec [OF assms(1,2) h] assms(5)
    by (auto simp: label_polyn_ok_def split: sum.splits)
qed

lemma map_res_ok:
  assumes "\<And>i. i < n \<Longrightarrow> \<exists>y. f i = Inr y \<and> P i y"
  shows "\<exists>ys. map_res f [0..<n] = Inr ys \<and> length ys = n \<and> (\<forall>i < n. P i (ys ! i))"
proof -
  obtain ys where ys: "map_res f [0..<n] = Inr ys" using map_res_total [of "[0..<n]" f] assms by fastforce
  have "P i (ys ! i)" if "i < n" for i
    using map_res_Inr_nth [OF ys, of i] assms [OF that] that by auto
  then show ?thesis using ys map_res_Inr_length [OF ys] by simp
qed

lemma regen_cache_ok:
  assumes shape: "bundle_shape b" and dist: "bb_label_size b \<noteq> 0 \<longrightarrow> (\<forall>i < bb_num_bins b. distinct (bb_item_bins b ! i))"
    and invalid: "bb_cache_invalid b" and laws: "seal_laws se v" "mo_is_prime (se_mod se)"
    and red: "felts_reduced se b" and bins: "bb_num_bins b \<le> hv_slot_count v" "bb_ps_low_degree b + 1 < 2 ^ 32"
  shows "\<exists>c. regen_cache se b = Inr (b\<lparr>bb_cache := c, bb_cache_invalid := False\<rparr>) \<and> cache_ok se v b c"
proof -
  let ?n = "bb_num_bins b" and ?L = "bb_label_size b" and ?p = "mo_value (se_mod se)"
  have arith: "seal_arith (se_mod se)" using laws(1) by (simp add: seal_laws_def)
  have item: "length (bb_item_bins b) = ?n" "\<And>i. i < ?n \<Longrightarrow> \<forall>x \<in> set (bb_item_bins b ! i). unat x < ?p"
    using shape red by (simp_all add: bundle_shape_def felts_reduced_def)
  have lab: "length (bb_label_bins b) = ?L" "\<And>l. l < ?L \<Longrightarrow> length (bb_label_bins b ! l) = ?n"
    "\<And>l i. l < ?L \<Longrightarrow> i < ?n \<Longrightarrow> length (bb_label_bins b ! l ! i) = length (bb_item_bins b ! i) \<and>
      (\<forall>x \<in> set (bb_label_bins b ! l ! i). unat x < ?p) \<and> distinct (bb_item_bins b ! i)"
    using shape red dist by (auto simp: bundle_shape_def felts_reduced_def)
  obtain fmps where fmps: "map_res (\<lambda>bin_idx. bind_res (vec_get (bb_item_bins b) bin_idx) (\<lambda>bin.
         polyn_with_roots (se_mod se) (map unat bin))) [0..<?n] = Inr fmps" "length fmps = ?n"
    "\<forall>i < ?n. matching_ok se (bb_item_bins b ! i) (fmps ! i)"
    using map_res_ok [of ?n "\<lambda>bin_idx. bind_res (vec_get (bb_item_bins b) bin_idx) (\<lambda>bin. polyn_with_roots (se_mod se) (map unat bin))"
        "\<lambda>i. matching_ok se (bb_item_bins b ! i)"] matching_polyn [OF arith laws(2)] item
    by auto
  let ?fip = "\<lambda>label_idx. bind_res (vec_get (bb_label_bins b) label_idx) (\<lambda>bins.
         map_res (\<lambda>bin_idx. bind_res (vec_get (bb_item_bins b) bin_idx) (\<lambda>bin.
           bind_res (vec_get bins bin_idx) (\<lambda>labels.
             newton_interpolate_polyn (se_mod se) (map unat bin) (map unat labels)))) [0..<?n])"
  have fip: "\<exists>ys. ?fip l = Inr ys \<and> (length ys = ?n \<and>
      (\<forall>i < ?n. label_polyn_ok se (bb_item_bins b ! i) (bb_label_bins b ! l ! i) (ys ! i)))" if l: "l < ?L" for l
  proof -
    have "\<exists>y. bind_res (vec_get (bb_item_bins b) i) (\<lambda>bin. bind_res (vec_get (bb_label_bins b ! l) i) (\<lambda>labels.
             newton_interpolate_polyn (se_mod se) (map unat bin) (map unat labels))) = Inr y \<and>
        label_polyn_ok se (bb_item_bins b ! i) (bb_label_bins b ! l ! i) y" if i: "i < ?n" for i
      using label_polyn [OF arith laws(2) item(2) [OF i], of "bb_label_bins b ! l ! i"] lab(2) [OF l] lab(3) [OF l i] item(1) i
      by simp
    from map_res_ok [of ?n, OF this] show ?thesis using lab(1) l by simp
  qed
  obtain fips where fips: "map_res ?fip [0..<?L] = Inr fips" "length fips = ?L"
    "\<forall>l < ?L. length (fips ! l) = ?n \<and> (\<forall>i < ?n. label_polyn_ok se (bb_item_bins b ! i) (bb_label_bins b ! l ! i) (fips ! l ! i))"
    using map_res_ok [of ?L ?fip, OF fip] by blast
  have ps: "wrap32 (bb_ps_low_degree b) = bb_ps_low_degree b" using bins(2) by simp
  have "\<forall>q \<in> set fmps. \<forall>c \<in> set q. c < ?p" using fmps(2,3) by (auto simp: in_set_conv_nth [of _ fmps] matching_ok_def)
  then obtain bmp where bmp: "batched_plaintext_polyn se fmps (bb_ps_low_degree b) = Inr bmp"
    "batched_ok se v (bb_ps_low_degree b) fmps bmp"
    using batched_plaintext_polyn_ok [OF laws(1) _ bins(2), of fmps] fmps(2) bins(1) by auto
  have "\<exists>y. batched_plaintext_polyn se (fips ! l) (bb_ps_low_degree b) = Inr y \<and>
      batched_ok se v (bb_ps_low_degree b) (fips ! l) y" if l: "l < ?L" for l
  proof (rule batched_plaintext_polyn_ok [OF laws(1) _ bins(2)])
    show "length (fips ! l) \<le> hv_slot_count v" using fips(3) l bins(1) by simp
    show "\<forall>q \<in> set (fips ! l). \<forall>c \<in> set q. c < ?p"
      using fips(3) l by (auto simp: in_set_conv_nth [of _ "fips ! l"] label_polyn_ok_def)
  qed
  from map_res_ok [of ?L "\<lambda>l. batched_plaintext_polyn se (fips ! l) (bb_ps_low_degree b)", OF this]
  obtain bips where bips': "map_res (\<lambda>l. batched_plaintext_polyn se (fips ! l) (bb_ps_low_degree b)) [0..<?L] = Inr bips"
    "length bips = ?L" "\<forall>l < ?L. batched_ok se v (bb_ps_low_degree b) (fips ! l) (bips ! l)" by blast
  have "map_res g (map h xs) = map_res (\<lambda>x. g (h x)) xs" for g :: "polyn list \<Rightarrow> 'a batched_polyn res" and h and xs :: "nat list"
    by (induction xs) simp_all
  from this [of "\<lambda>f. batched_plaintext_polyn se f (bb_ps_low_degree b)" "\<lambda>l. fips ! l" "[0..<?L]"]
  have bips: "map_res (\<lambda>f. batched_plaintext_polyn se f (bb_ps_low_degree b)) fips = Inr bips"
    using bips'(1) fips(2) by (metis map_nth)
  let ?c = "\<lparr>bc_felt_matching_polyns = fmps, bc_felt_interp_polyns = fips,
     bc_batched_matching_polyn = bmp, bc_batched_interp_polyns = bips\<rparr>"
  have "regen_cache se b = Inr (b\<lparr>bb_cache := ?c, bb_cache_invalid := False\<rparr>)"
    using invalid fmps(1) fips(1) bmp(1) bips
    by (simp add: regen_cache_def regen_polyns_def regen_plaintexts_def bundle_clear_cache_def empty_cache_def ps)
  moreover have "cache_ok se v b ?c"
    using fmps fips bmp bips' by (simp add: cache_ok_def)
  ultimately show ?thesis by blast
qed

lemma regen_cache_wf:
  assumes "bundle_wf ra b" and "bb_cache_invalid b" and "seal_laws se v" "mo_is_prime (se_mod se)"
    and "felts_reduced se b" and "bb_num_bins b \<le> hv_slot_count v" "bb_ps_low_degree b + 1 < 2 ^ 32"
  shows "\<exists>c. regen_cache se b = Inr (b\<lparr>bb_cache := c, bb_cache_invalid := False\<rparr>) \<and> cache_ok se v b c"
proof (rule regen_cache_ok)
  show "bundle_shape b" "bb_label_size b \<noteq> 0 \<longrightarrow> (\<forall>i < bb_num_bins b. distinct (bb_item_bins b ! i))"
    using assms(1) by (simp_all add: bundle_wf_def bin_rows_fst)
qed (use assms in simp_all)

subsection \<open>Properties\<close>

text \<open>
  C22. Regenerating the stale cache of a well-formed bundle over a prime field succeeds, leaves the
  data alone and marks the cache fresh. The matching polynomial of a bin vanishes exactly at the
  elements of the bin, the label polynomials take the value of each label part at its element, and
  the batched plaintexts hold their coefficients degree by degree, in the form and at the level that
  the chosen evaluation needs.
\<close>
theorem regen_cache_correct:
  assumes "bundle_wf ra b" and "bb_cache_invalid b" and "seal_laws se v" "mo_is_prime (se_mod se)"
    and "felts_reduced se b" and "bb_num_bins b \<le> hv_slot_count v" "bb_ps_low_degree b + 1 < 2 ^ 32"
  shows "\<exists>c. regen_cache se b = Inr (b\<lparr>bb_cache := c, bb_cache_invalid := False\<rparr>) \<and> cache_ok se v b c"
  using assms by (rule regen_cache_wf)

text \<open>A bundle of three bins with an item in two of them.\<close>

lemma filled_bundle:
  "\<exists>b :: clear_plaintext bin_bundle. bundle_wf ra b \<and> bb_cache_invalid b \<and> bb_num_bins b = 3 \<and>
     bb_label_size b = 1 \<and> bb_ps_low_degree b = 0 \<and>
     bundle_rows b = (\<lambda>i. if i = 1 then [(5, [7])] else if i = 2 then [(6, [8])] else [])"
proof -
  let ?il = "[(5, [7]), (6, [8])] :: (felt \<times> felt list) list"
  obtain b :: "clear_plaintext bin_bundle" where b: "bundle_wf ra b" "bb_label_size b = 1" "bb_num_bins b = 3"
    "bb_ps_low_degree b = 0" "\<forall>i < 3. bin_rows b i = [] \<and> not_full (bb_filters b ! i)"
    using make_bundle_ok [of 0 10 3 1 ra] by auto
  have rows: "bundle_rows b = (\<lambda>i. [])" using b(3,5) by (auto simp: bundle_rows_def)
  have "length (bb_item_bins b ! i) = 0" if "i < 3" for i
    using b(5) that bin_rows_length [of b i] by (simp del: bin_rows_length)
  then have small: "small_bins b" using b(3) by (simp add: small_bins_def)
  have l: "bb_label_size b \<noteq> 0" "\<forall>x \<in> set ?il. length (snd x) = bb_label_size b" using b(2) by simp_all
  have none: "\<not> (no_room b 1 (length ?il) \<or> (\<exists>k < length ?il. key_at (bundle_rows b) (1 + k) (fst (?il ! k))))"
    using b(3) by (simp add: no_room_def key_at_def rows)
  obtain b' where b': "bb_cache_invalid b'" "same_frame b b'"
      "bundle_rows b' = rows_update (\<lambda>k rows. rows @ [?il ! k]) 1 (length ?il) (bundle_rows b)"
      "(\<forall>k < length ?il. not_full (bb_filters b ! (1 + k))) \<longrightarrow> bundle_wf ra b'"
    using insert_labels_spec [OF b(1) l(1) list.distinct(2) small l(2), of "\<lambda>_ _. 0" 1 False]
    unfolding if_not_P [OF none] if_False by blast
  have "\<forall>k < length ?il. not_full (bb_filters b ! (1 + k))" using b(5) by simp
  then have "bundle_wf ra b'" using b'(4) by blast
  moreover have "bundle_rows b' = (\<lambda>i. if i = 1 then [(5, [7])] else if i = 2 then [(6, [8])] else [])"
    unfolding b'(3) rows by (auto simp: rows_update_def less_Suc_eq)
  ultimately show ?thesis using b'(1,2) b by (auto simp: same_frame_def)
qed

lemma filled_reduced:
  assumes "bundle_wf ra b" "bb_num_bins b = 3" "bb_label_size b = 1"
    "bundle_rows b = (\<lambda>i. if i = 1 then [(5, [7])] else if i = 2 then [(6, [8])] else [])"
  shows "felts_reduced (clear_seal 17 n first) b"
proof -
  have "bin_holds b i (if i = 1 then [(5, [7])] else if i = 2 then [(6, [8])] else [])" if "i < 3" for i
  proof -
    have "bin_rows b i = (if i = 1 then [(5, [7])] else if i = 2 then [(6, [8])] else [])"
      using fun_cong [OF assms(4), of i] that assms(2) by (simp only: bundle_rows_def if_True)
    moreover have "bin_holds b i (bin_rows b i)"
      using bin_holds_rows [of b i] assms(1,2) that by (simp add: bundle_wf_def)
    ultimately show ?thesis by (simp only:)
  qed
  then show ?thesis using assms(2,3) by (auto simp: felts_reduced_def bin_holds_def clear_seal_def std_ops_def)
qed

theorem regen_cache_correct_witness:
  "\<exists>b :: clear_plaintext bin_bundle. bb_label_size b = 1 \<and>
     bundle_rows b = (\<lambda>i. if i = 1 then [(5, [7])] else if i = 2 then [(6, [8])] else []) \<and>
     (\<exists>c. regen_cache (clear_seal 17 4 1) b = Inr (b\<lparr>bb_cache := c, bb_cache_invalid := False\<rparr>) \<and>
        cache_ok (clear_seal 17 4 1) (clear_view 4 1) b c)"
proof -
  obtain b :: "clear_plaintext bin_bundle" where b: "bundle_wf (\<lambda>_. 0) b" "bb_cache_invalid b" "bb_num_bins b = 3"
    "bb_label_size b = 1" "bb_ps_low_degree b = 0"
    "bundle_rows b = (\<lambda>i. if i = 1 then [(5, [7])] else if i = 2 then [(6, [8])] else [])"
    using filled_bundle [of "\<lambda>_. 0"] by blast
  have "\<exists>c. regen_cache (clear_seal 17 4 1) b = Inr (b\<lparr>bb_cache := c, bb_cache_invalid := False\<rparr>) \<and>
      cache_ok (clear_seal 17 4 1) (clear_view 4 1) b c"
    by (rule regen_cache_correct [OF b(1,2) clear_laws _ filled_reduced [OF b(1,3,4,6)]])
      (use b(3,5) in \<open>simp_all add: clear_seal_def clear_view_def std_ops_def is_prime_17\<close>)
  then show ?thesis using b(4,6) by blast
qed

text \<open>Evaluating the polynomials of an up-to-date cache at an encrypted query.\<close>

definition decryptable :: "('p, 'c) he_view \<Rightarrow> 'c \<Rightarrow> bool" where
  "decryptable v c \<longleftrightarrow> cv_valid v c \<and> \<not> cv_ntt v c \<and> cv_level v c = 0"

lemma query_bundle_ok:
  assumes cache: "cache_ok se v b c" and laws: "seal_laws se v" "compression_law se v"
    and ps: "bb_ps_low_degree b \<noteq> 1" "bb_ps_low_degree b \<le> max_deg" "0 < max_deg" "max_deg < 2 ^ 32 - 1"
    and bins: "bb_num_bins b \<le> hv_slot_count v" "\<forall>i < bb_num_bins b. length (bundle_rows b i) \<le> max_deg"
    and powers: "query_powers_ok se v powers (bb_ps_low_degree b) max_deg x" and x: "\<forall>i. x i < mo_value (se_mod se)"
  shows "(\<exists>r. eval_batched se (bc_batched_matching_polyn c) powers (bb_ps_low_degree b) = Inr r \<and>
      decryptable v r \<and>
      (\<forall>i < bb_num_bins b. cv_slots v r i = 0 \<longleftrightarrow> (\<exists>k. key_at (bundle_rows b) i k \<and> unat k = x i))) \<and>
    (\<forall>l < bb_label_size b. \<exists>r. eval_batched se (bc_batched_interp_polyns c ! l) powers (bb_ps_low_degree b) = Inr r \<and>
      decryptable v r \<and>
      (\<forall>i < bb_num_bins b. \<forall>(k, labels) \<in> set (bundle_rows b i). unat k = x i \<longrightarrow> cv_slots v r i = unat (labels ! l)))"
proof (intro conjI allI impI)
  let ?n = "bb_num_bins b" and ?p = "mo_value (se_mod se)" and ?ps = "bb_ps_low_degree b"
  have p: "0 < ?p" using laws(1) by (simp add: seal_laws_def seal_arith_def)
  have len: "length (bb_item_bins b ! i) \<le> max_deg" if "i < ?n" for i using bins(2) that by (simp add: bundle_rows_def)
  \<comment> \<open>evaluation of any of the batched polynomials\<close>
  have eval: "\<exists>r. eval_batched se coeffs powers ?ps = Inr r \<and> decryptable v r \<and>
      (\<forall>i < ?n. cv_slots v r i = polyn_eval ?p (polyns ! i) (x i))"
    if batched: "batched_ok se v ?ps polyns coeffs" and lp: "length polyns = ?n"
      and lens: "\<And>i. i < ?n \<Longrightarrow> length (polyns ! i) \<le> max_deg + 1" for coeffs polyns
  proof -
    have all: "\<forall>q \<in> set polyns. length q \<le> max_deg + 1" using lens lp by (auto simp: in_set_conv_nth)
    obtain r where r: "eval_batched se coeffs powers ?ps = Inr r"
      "decrypts_to v r (slots_sum se (coeff_at polyns) x {..<length coeffs})"
      using eval_batched_ok [OF laws ps batched all powers] by blast
    have "cv_slots v r i = polyn_eval ?p (polyns ! i) (x i)" if i: "i < ?n" for i
    proof -
      have "length (polyns ! i) \<le> length coeffs"
        using batched i lp max_degree_length [of polyns 0 "length coeffs"] by (auto simp: batched_ok_def)
      then show ?thesis
        using r(2) i bins(1) coeff_at_sum [OF p, of i polyns "length coeffs" "x i"] lp by (simp add: decrypts_to_def)
    qed
    then show ?thesis using r by (auto simp: decrypts_to_def decryptable_def)
  qed
  show "\<exists>r. eval_batched se (bc_batched_matching_polyn c) powers ?ps = Inr r \<and> decryptable v r \<and>
      (\<forall>i < ?n. cv_slots v r i = 0 \<longleftrightarrow> (\<exists>k. key_at (bundle_rows b) i k \<and> unat k = x i))"
  proof -
    have m: "matching_ok se (bb_item_bins b ! i) (bc_felt_matching_polyns c ! i)" if "i < ?n" for i
      using cache that by (simp add: cache_ok_def)
    obtain r where r: "eval_batched se (bc_batched_matching_polyn c) powers ?ps = Inr r" "decryptable v r"
      "\<forall>i < ?n. cv_slots v r i = polyn_eval ?p (bc_felt_matching_polyns c ! i) (x i)"
      using eval [of "bc_felt_matching_polyns c" "bc_batched_matching_polyn c"] cache m len
      by (auto simp: cache_ok_def matching_ok_def)
    have "cv_slots v r i = 0 \<longleftrightarrow> (\<exists>k. key_at (bundle_rows b) i k \<and> unat k = x i)" if i: "i < ?n" for i
    proof -
      have "(\<exists>k. key_at (bundle_rows b) i k \<and> unat k = x i) \<longleftrightarrow> x i \<in> unat ` set (bb_item_bins b ! i)"
        by (auto simp: key_at_items [OF i] image_iff) metis
      then show ?thesis using r(3) i m [OF i] x by (simp add: matching_ok_def)
    qed
    then show ?thesis using r by blast
  qed
  fix l assume l: "l < bb_label_size b"
  have lp: "label_polyn_ok se (bb_item_bins b ! i) (bb_label_bins b ! l ! i) (bc_felt_interp_polyns c ! l ! i)"
    if "i < ?n" for i using cache that l by (simp add: cache_ok_def)
  obtain r where r: "eval_batched se (bc_batched_interp_polyns c ! l) powers ?ps = Inr r" "decryptable v r"
    "\<forall>i < ?n. cv_slots v r i = polyn_eval ?p (bc_felt_interp_polyns c ! l ! i) (x i)"
    using eval [of "bc_felt_interp_polyns c ! l" "bc_batched_interp_polyns c ! l"] cache lp len l ps(3)
    by (auto simp: cache_ok_def label_polyn_ok_def le_Suc_eq)
  have "cv_slots v r i = unat (labels ! l)"
    if i: "i < ?n" and row: "(k, labels) \<in> set (bundle_rows b i)" and k: "unat k = x i" for i k labels
  proof -
    obtain q where q: "q < length (bb_item_bins b ! i)" "bin_rows b i ! q = (k, labels)"
      using row i by (auto simp: bundle_rows_def in_set_conv_nth)
    then have "bb_item_bins b ! i ! q = k" "bb_label_bins b ! l ! i ! q = labels ! l"
      using l by (auto simp: bin_rows_def)
    then show ?thesis using r(3) i lp [OF i] q(1) k by (auto simp: label_polyn_ok_def)
  qed
  then show "\<exists>r. eval_batched se (bc_batched_interp_polyns c ! l) powers ?ps = Inr r \<and> decryptable v r \<and>
      (\<forall>i < ?n. \<forall>(k, labels) \<in> set (bundle_rows b i). unat k = x i \<longrightarrow> cv_slots v r i = unat (labels ! l))"
    using r by blast
qed

text \<open>
  C10. A query decides membership. Let the cache of a bundle be stale, its field elements reduced and
  the powers of an encrypted query as the sender prepares them. Then the cache is regenerated, and
  evaluating its matching polynomial succeeds, by the plain or the Paterson-Stockmeyer method as the
  sizes decide, and returns a ciphertext at the last level whose slot for a bin is zero exactly when
  the query value of that slot is an element of the bin; and every label polynomial of the new cache
  evaluates to the label part of that element.
\<close>
theorem query_decides_membership:
  assumes shape: "bundle_shape b" and dist: "bb_label_size b \<noteq> 0 \<longrightarrow> (\<forall>i < bb_num_bins b. distinct (bb_item_bins b ! i))"
    and stale: "bb_cache_invalid b" and laws: "seal_laws se v" "compression_law se v" and prime: "mo_is_prime (se_mod se)"
    and red: "felts_reduced se b"
    and ps: "bb_ps_low_degree b \<noteq> 1" "bb_ps_low_degree b \<le> max_deg" "0 < max_deg" "max_deg < 2 ^ 32 - 1"
    and bins: "bb_num_bins b \<le> hv_slot_count v" "\<forall>i < bb_num_bins b. length (bundle_rows b i) \<le> max_deg"
    and powers: "query_powers_ok se v powers (bb_ps_low_degree b) max_deg x" and x: "\<forall>i. x i < mo_value (se_mod se)"
  shows "\<exists>b'. regen_cache se b = Inr b' \<and> bundle_rows b' = bundle_rows b \<and>
    (\<exists>r. eval_batched se (bc_batched_matching_polyn (bb_cache b')) powers (bb_ps_low_degree b) = Inr r \<and>
      decryptable v r \<and>
      (\<forall>i < bb_num_bins b. cv_slots v r i = 0 \<longleftrightarrow> (\<exists>k. key_at (bundle_rows b) i k \<and> unat k = x i))) \<and>
    (\<forall>l < bb_label_size b. \<exists>r.
      eval_batched se (bc_batched_interp_polyns (bb_cache b') ! l) powers (bb_ps_low_degree b) = Inr r \<and>
      decryptable v r \<and>
      (\<forall>i < bb_num_bins b. \<forall>(k, labels) \<in> set (bundle_rows b i). unat k = x i \<longrightarrow> cv_slots v r i = unat (labels ! l)))"
proof -
  have small: "bb_ps_low_degree b + 1 < 2 ^ 32" using ps(2,4) by linarith
  obtain c where c: "regen_cache se b = Inr (b\<lparr>bb_cache := c, bb_cache_invalid := False\<rparr>)" "cache_ok se v b c"
    using regen_cache_ok [OF shape dist stale laws(1) prime red bins(1) small] by blast
  let ?b = "b\<lparr>bb_cache := c, bb_cache_invalid := False\<rparr>"
  have rows: "bundle_rows ?b = bundle_rows b" by (simp add: fun_eq_iff bundle_rows_def bin_rows_def)
  have cache: "bb_cache ?b = c" by simp
  note evaluated = query_bundle_ok [OF c(2) laws ps bins powers x]
  show ?thesis
    by (rule exI [of _ ?b], unfold rows cache) (rule conjI [OF c(1) conjI [OF refl evaluated]])
qed

lemma clear_compression: "compression_law (clear_seal p n first) v"
  by (simp add: compression_law_def irrelevant_bit_count_def clear_seal_def Let_def)

text \<open>The powers of a query that are all sent, in the form the sender keeps them without Paterson-Stockmeyer.\<close>

definition clear_powers :: "nat \<Rightarrow> nat \<Rightarrow> (nat \<Rightarrow> nat) \<Rightarrow> clear_ciphertext list" where
  "clear_powers p max_deg x = map (\<lambda>d. \<lparr>cc_valid = True, cc_ntt = True, cc_level = 1, cc_size = 2,
     cc_slots = (\<lambda>i. x i ^ d mod p)\<rparr>) [0..<max_deg + 1]"

lemma clear_powers_ok: "query_powers_ok (clear_seal p n 1) (clear_view n 1) (clear_powers p max_deg x) 0 max_deg x"
  by (simp add: query_powers_ok_def ntt_powers_ok_def clear_powers_def encode_level_def clear_seal_def clear_view_def
      ciphertext_is_def std_ops_def del: upt_Suc)

text \<open>The same for Paterson-Stockmeyer with the low degree \<open>low\<close>.\<close>

definition clear_ps_powers :: "nat \<Rightarrow> nat \<Rightarrow> nat \<Rightarrow> (nat \<Rightarrow> nat) \<Rightarrow> clear_ciphertext list" where
  "clear_ps_powers p low max_deg x = map (\<lambda>d. \<lparr>cc_valid = True, cc_ntt = d \<le> low, cc_level = (if d \<le> low then 2 else 1),
     cc_size = 2, cc_slots = (\<lambda>i. x i ^ d mod p)\<rparr>) [0..<max_deg + 1]"

lemma clear_ps_powers_ok:
  assumes "0 < low" "low \<le> max_deg"
  shows "query_powers_ok (clear_seal p n 2) (clear_view n 2) (clear_ps_powers p low max_deg x) low max_deg x"
proof -
  let ?se = "clear_seal p n 2" and ?v = "clear_view n 2" and ?ps = "clear_ps_powers p low max_deg x"
  have len: "length ?ps = max_deg + 1" by (simp add: clear_ps_powers_def del: upt_Suc)
  have at: "?ps ! d = \<lparr>cc_valid = True, cc_ntt = d \<le> low, cc_level = (if d \<le> low then 2 else 1), cc_size = 2,
      cc_slots = (\<lambda>i. x i ^ d mod p)\<rparr>" if "d \<le> max_deg" for d
    using that by (simp add: clear_ps_powers_def del: upt_Suc)
  have level: "encode_level ?se low = 2" "get_parms_id_for_chain_idx ?se 1 = 1" "mo_value (se_mod ?se) = p"
    using assms(1) by (simp_all add: encode_level_def get_parms_id_for_chain_idx_min clear_seal_def std_ops_def)
  have "ps_powers_ok ?se ?v ?ps max_deg (low + 1) 2 1 x"
    unfolding ps_powers_ok_def level len
  proof (intro conjI allI impI)
    fix d assume d: "1 \<le> d \<and> d < low + 1"
    then show "d < max_deg + 1" using assms(2) by simp
    show "ciphertext_is ?v (?ps ! d) True 2 2 (\<lambda>i. x i ^ d mod p)"
      using d assms(2) by (simp add: at ciphertext_is_def clear_view_def)
  next
    fix k assume k: "1 \<le> k \<and> k * (low + 1) \<le> max_deg"
    then have "1 * (low + 1) \<le> k * (low + 1)" by (intro mult_le_mono1) simp
    then have high: "\<not> k * (low + 1) \<le> low" unfolding mult_1 by (metis Suc_eq_plus1 not_less_eq_eq order_trans)
    show "k * (low + 1) < max_deg + 1" using k by simp
    show "ciphertext_is ?v (?ps ! (k * (low + 1))) False 1 2 (\<lambda>i. x i ^ (k * (low + 1)) mod p)"
      using at [OF k [THEN conjunct2]] high by (simp add: ciphertext_is_def clear_view_def)
  qed
  then show ?thesis using assms(1) len level by (simp add: query_powers_ok_def)
qed

text \<open>
  A stale bundle of two bins, one with four labeled items, for either method (evaluation does not read
  the filters, which are those of \<open>make_filter 10 12\<close>).
\<close>

definition four_items :: "nat \<Rightarrow> clear_plaintext bin_bundle" where
  "four_items low =
     (let filter = \<lparr>cf_table = \<lparr>ct_bits_per_tag = 12, ct_tag_input_mask = push_bit 12 (NOT 0), ct_table = [0, 0, 0], ct_num_buckets = 4\<rparr>,
            cf_num_items = 0, cf_overflow = \<lparr>ov_index = 0, ov_tag = 0, ov_used = False\<rparr>\<rparr>
      in \<lparr>bb_cache_invalid = True, bb_item_bins = [[5, 6, 9, 16], []], bb_label_bins = [[[7, 8, 1, 0], []]],
           bb_filters = [filter, filter], bb_stripped = False, bb_label_size = 1, bb_max_bin_size = 10,
           bb_ps_low_degree = low, bb_num_bins = 2, bb_cache = empty_cache\<rparr>)"

lemma four_items_simps [simp]:
  "bb_num_bins (four_items low) = 2" "bb_label_size (four_items low) = 1" "bb_ps_low_degree (four_items low) = low"
  "bb_cache_invalid (four_items low)"
  by (simp_all add: four_items_def Let_def)

lemma four_items_ok:
  "bundle_shape (four_items low)" "\<forall>i < bb_num_bins (four_items low). distinct (bb_item_bins (four_items low) ! i)"
  "felts_reduced (clear_seal 17 n first) (four_items low)"
  by (auto simp: four_items_def Let_def bundle_shape_def felts_reduced_def less_2_cases_iff clear_seal_def std_ops_def)

lemma four_items_rows:
  "bundle_rows (four_items low) = (\<lambda>i. if i = 0 then [(5, [7]), (6, [8]), (9, [1]), (16, [0])] else [])"
  by (auto simp: fun_eq_iff bundle_rows_def bin_rows_def four_items_def Let_def less_2_cases_iff upt_rec)

text \<open>
  Both methods: with the low degree 0 the powers 1 to 10 are all in NTT form and the polynomial of degree
  4 is evaluated directly; with the low degree 2 it is evaluated by Paterson-Stockmeyer. The query has 9,
  an item of the first bin, and 3 for the empty one.
\<close>

theorem query_decides_membership_witness:
  "\<exists>b0 r0 b2 r2 l2.
     regen_cache (clear_seal 17 4 1) (four_items 0) = Inr b0 \<and>
     eval_batched (clear_seal 17 4 1) (bc_batched_matching_polyn (bb_cache b0)) (clear_powers 17 10 (\<lambda>i. if i = 0 then 9 else 3)) 0 = Inr r0 \<and>
     cv_slots (clear_view 4 1) r0 0 = 0 \<and> cv_slots (clear_view 4 1) r0 1 \<noteq> 0 \<and>
     regen_cache (clear_seal 17 4 2) (four_items 2) = Inr b2 \<and>
     eval_batched (clear_seal 17 4 2) (bc_batched_matching_polyn (bb_cache b2)) (clear_ps_powers 17 2 10 (\<lambda>i. if i = 0 then 9 else 3)) 2 = Inr r2 \<and>
     cv_slots (clear_view 4 2) r2 0 = 0 \<and> cv_slots (clear_view 4 2) r2 1 \<noteq> 0 \<and>
     eval_batched (clear_seal 17 4 2) (bc_batched_interp_polyns (bb_cache b2) ! 0) (clear_ps_powers 17 2 10 (\<lambda>i. if i = 0 then 9 else 3)) 2 = Inr l2 \<and>
     cv_slots (clear_view 4 2) l2 0 = 1"
proof -
  let ?x = "\<lambda>i :: nat. if i = 0 then 9 else (3 :: nat)"
  have run: "\<exists>b' r l. regen_cache (clear_seal 17 4 first) (four_items low) = Inr b' \<and>
     eval_batched (clear_seal 17 4 first) (bc_batched_matching_polyn (bb_cache b')) powers low = Inr r \<and>
     cv_slots (clear_view 4 first) r 0 = 0 \<and> cv_slots (clear_view 4 first) r 1 \<noteq> 0 \<and>
     eval_batched (clear_seal 17 4 first) (bc_batched_interp_polyns (bb_cache b') ! 0) powers low = Inr l \<and>
     cv_slots (clear_view 4 first) l 0 = 1"
    if low: "low \<noteq> 1" "low \<le> 10" and pw: "query_powers_ok (clear_seal 17 4 first) (clear_view 4 first) powers low 10 ?x"
    for first low powers
  proof -
    let ?se = "clear_seal 17 4 first" and ?v = "clear_view 4 first" and ?b = "four_items low"
    have h: "bb_label_size ?b \<noteq> 0 \<longrightarrow> (\<forall>i < bb_num_bins ?b. distinct (bb_item_bins ?b ! i))"
      "seal_laws ?se ?v" "mo_is_prime (se_mod ?se)" "bb_ps_low_degree ?b \<noteq> 1" "bb_ps_low_degree ?b \<le> 10"
      "(0 :: nat) < 10" "(10 :: nat) < 2 ^ 32 - 1" "bb_num_bins ?b \<le> hv_slot_count ?v"
      "\<forall>i < bb_num_bins ?b. length (bundle_rows ?b i) \<le> 10" "query_powers_ok ?se ?v powers (bb_ps_low_degree ?b) 10 ?x"
      "\<forall>i. ?x i < mo_value (se_mod ?se)"
      using low pw four_items_ok(2) clear_laws [of 17 4 first]
      by (simp_all add: four_items_rows, simp_all add: clear_seal_def clear_view_def std_ops_def is_prime_17)
    from query_decides_membership [OF four_items_ok(1) h(1) four_items_simps(4) h(2) clear_compression h(3) four_items_ok(3) h(4-11)]
    obtain b' r where b': "regen_cache ?se ?b = Inr b'"
      "eval_batched ?se (bc_batched_matching_polyn (bb_cache b')) powers low = Inr r"
      "\<forall>i < 2. cv_slots ?v r i = 0 \<longleftrightarrow> (\<exists>k. key_at (bundle_rows ?b) i k \<and> unat k = ?x i)"
      "\<forall>l < 1. \<exists>r. eval_batched ?se (bc_batched_interp_polyns (bb_cache b') ! l) powers low = Inr r \<and> decryptable ?v r \<and>
        (\<forall>i < 2. \<forall>(k, labels) \<in> set (bundle_rows ?b i). unat k = ?x i \<longrightarrow> cv_slots ?v r i = unat (labels ! l))"
      unfolding four_items_simps by (elim exE conjE) (rule that)
    obtain l where l: "eval_batched ?se (bc_batched_interp_polyns (bb_cache b') ! 0) powers low = Inr l"
      "\<forall>i < 2. \<forall>(k, labels) \<in> set (bundle_rows ?b i). unat k = ?x i \<longrightarrow> cv_slots ?v l i = unat (labels ! 0)"
      using b'(4) by auto
    have "key_at (bundle_rows ?b) 0 9" "\<not> key_at (bundle_rows ?b) 1 k" for k by (auto simp: key_at_def four_items_rows)
    moreover have "unat (9 :: felt) = 9" by simp
    ultimately have "cv_slots ?v r 0 = 0" "cv_slots ?v r 1 \<noteq> 0"
      using b'(3) [rule_format, of 0] b'(3) [rule_format, of 1] by (metis zero_less_numeral, simp)
    moreover have "cv_slots ?v l 0 = 1"
    proof -
      have "(9, [1]) \<in> set (bundle_rows ?b 0)" by (simp add: four_items_rows)
      then show ?thesis using l(2) [rule_format, of 0] by force
    qed
    ultimately show ?thesis using b'(1,2) l(1) by blast
  qed
  show ?thesis
    using run [of 0 1, OF _ _ clear_powers_ok] run [of 2 2, OF _ _ clear_ps_powers_ok] by simp blast
qed

end
