(* ===== verification/PlaintextPowers.thy ===== *)
theory PlaintextPowers
  imports Powers ModArith
begin

text \<open>
  \<open>PlaintextPowers\<close> (\<open>receiver/apsi/plaintext_powers.cpp\<close>): the receiver raises the field elements
  of a bundle to the source powers of the query plan and encrypts them.
\<close>

subsection \<open>Exponentiation\<close>

definition square_array :: "mod_ops \<Rightarrow> nat list \<Rightarrow> nat list" where
  "square_array m xs = map (\<lambda>v. mo_mul m v v) xs"

definition multiply_array :: "mod_ops \<Rightarrow> nat list \<Rightarrow> nat list \<Rightarrow> nat list" where
  "multiply_array m in1 in2 = map (\<lambda>(val1, val2). mo_mul m val1 val2) (zip in1 in2)"

fun exponentiate_loop :: "mod_ops \<Rightarrow> nat list \<Rightarrow> nat \<Rightarrow> nat list \<Rightarrow> nat list" where
  "exponentiate_loop m xs exponent result =
     (if exponent = 0 then result
      else exponentiate_loop m (square_array m xs) (exponent div 2)
             (if exponent mod 2 = 1 then multiply_array m xs result else result))"

declare exponentiate_loop.simps [simp del]

definition exponentiate_array :: "mod_ops \<Rightarrow> nat list \<Rightarrow> nat \<Rightarrow> nat list res" where
  "exponentiate_array m xs exponent =
     (if exponent = 0 then Inl (Invalid_argument ''exponent cannot be zero'')
      else Inr (exponentiate_loop m xs exponent (replicate (length xs) 1)))"

text \<open>The map of powers is an association list, filled in the order of the source nodes.\<close>

definition compute_plaintext_powers ::
  "mod_ops \<Rightarrow> nat list \<Rightarrow> powers_dag \<Rightarrow> (nat \<times> nat list) list res" where
  "compute_plaintext_powers m xs pd =
     bind_res (dag_source_nodes pd) (\<lambda>sources.
       fold_res (\<lambda>s powers. bind_res (exponentiate_array m xs (pn_power s)) (\<lambda>ys.
         Inr (AList.update (pn_power s) ys powers))) sources [])"

text \<open>
  Encryption is SEAL's; the context holds an encryptor or not, and \<open>encode\<close> and
  \<open>encrypt_symmetric\<close> are the two calls.
\<close>

definition encrypt_powers ::
  "('p \<Rightarrow> 'c) option \<Rightarrow> (nat list \<Rightarrow> 'p) \<Rightarrow> (nat \<times> nat list) list \<Rightarrow> (nat \<times> 'c) list res" where
  "encrypt_powers encrypt_symmetric encode powers =
     (case encrypt_symmetric of
        None \<Rightarrow> Inl (Invalid_argument ''encryptor is not set in crypto_context'')
      | Some enc \<Rightarrow> Inr (map (\<lambda>(p, ys). (p, enc (encode ys))) powers))"

subsection \<open>Correctness\<close>

lemma seal_mul: "seal_arith m \<Longrightarrow> a < mo_value m \<Longrightarrow> b < mo_value m \<Longrightarrow> mo_mul m a b = (a * b) mod mo_value m"
  by (simp add: seal_arith_def)

lemma exponentiate_loop_correct:
  assumes "seal_arith m" "\<forall>x \<in> set xs. x < mo_value m" "\<forall>r \<in> set result. r < mo_value m"
    "length result = length xs"
  shows "exponentiate_loop m xs e result = map (\<lambda>(x, r). (x ^ e * r) mod mo_value m) (zip xs result)"
  using assms(2-4)
proof (induction e arbitrary: xs result rule: less_induct)
  case (less e)
  let ?p = "mo_value m"
  have p: "0 < ?p" using assms(1) by (simp add: seal_arith_def)
  show ?case
  proof (cases "e = 0")
    case True
    have "map (\<lambda>(x, r). r mod ?p) (zip xs result) = result"
      using less.prems by (intro nth_equalityI) auto
    then show ?thesis using True by (subst exponentiate_loop.simps) (simp add: case_prod_unfold)
  next
    case False
    let ?r = "if e mod 2 = 1 then multiply_array m xs result else result"
    have sq: "square_array m xs = map (\<lambda>x. x * x mod ?p) xs"
      using less.prems(1) seal_mul [OF assms(1)] by (simp add: square_array_def)
    have "length ?r = length xs \<and> (\<forall>r \<in> set ?r. r < ?p)"
      and rn: "i < length xs \<Longrightarrow> ?r ! i mod ?p = (if e mod 2 = 1 then xs ! i else 1) * result ! i mod ?p" for i
    proof -
        have "mo_mul m a b = a * b mod ?p" if "(a, b) \<in> set (zip xs result)" for a b
        using less.prems seal_mul [OF assms(1), of a b] set_zip_leftD [OF that] set_zip_rightD [OF that] by blast
      then have m: "multiply_array m xs result = map (\<lambda>(x, r). x * r mod ?p) (zip xs result)"
        unfolding multiply_array_def by (intro map_cong refl) auto
      show "length ?r = length xs \<and> (\<forall>r \<in> set ?r. r < ?p)" using less.prems p by (auto simp: m)
      show "i < length xs \<Longrightarrow> ?r ! i mod ?p = (if e mod 2 = 1 then xs ! i else 1) * result ! i mod ?p"
        using less.prems(3) by (simp add: m)
    qed
    then have r: "length ?r = length xs" "\<forall>r \<in> set ?r. r < ?p" by blast+
    have IH: "exponentiate_loop m (square_array m xs) (e div 2) ?r =
        map (\<lambda>(x, r). (x ^ (e div 2) * r) mod ?p) (zip (square_array m xs) ?r)"
      using False r p by (intro less.IH) (auto simp: sq)
    have "map (\<lambda>(x, r). (x ^ (e div 2) * r) mod ?p) (zip (square_array m xs) ?r) =
        map (\<lambda>(x, r). (x ^ e * r) mod ?p) (zip xs result)"
    proof (rule nth_equalityI)
      fix i assume "i < length (map (\<lambda>(x, r). (x ^ (e div 2) * r) mod ?p) (zip (square_array m xs) ?r))"
      then have i: "i < length xs" by (simp add: square_array_def)
      have e: "(xs ! i * xs ! i) ^ (e div 2) * (if e mod 2 = 1 then xs ! i else 1) = xs ! i ^ e"
      proof -
        have "(xs ! i * xs ! i) ^ (e div 2) = xs ! i ^ (2 * (e div 2))"
          by (simp add: power_mult power2_eq_square)
        then have "(xs ! i * xs ! i) ^ (e div 2) * (if e mod 2 = 1 then xs ! i else 1) = xs ! i ^ (2 * (e div 2) + e mod 2)"
          by (cases "e mod 2 = 1") (simp_all add: power_add)
        then show ?thesis by simp
      qed
      have "((xs ! i * xs ! i mod ?p) ^ (e div 2) * ?r ! i) mod ?p =
          ((xs ! i * xs ! i) ^ (e div 2) * (?r ! i mod ?p)) mod ?p"
        by (simp add: mod_mult_right_eq) (metis mod_mult_left_eq power_mod)
      also have "\<dots> = ((xs ! i * xs ! i) ^ (e div 2) * ((if e mod 2 = 1 then xs ! i else 1) * result ! i)) mod ?p"
        unfolding rn [OF i] by (simp add: mod_mult_right_eq)
      also have "(xs ! i * xs ! i) ^ (e div 2) * ((if e mod 2 = 1 then xs ! i else 1) * result ! i) = xs ! i ^ e * result ! i"
        unfolding mult.assoc [symmetric] e ..
      finally show "map (\<lambda>(x, r). (x ^ (e div 2) * r) mod ?p) (zip (square_array m xs) ?r) ! i =
          map (\<lambda>(x, r). (x ^ e * r) mod ?p) (zip xs result) ! i"
        using i r(1) less.prems(3) by (simp add: sq del: if_split)
    qed (use r(1) less.prems(3) in \<open>cases xs; simp add: square_array_def\<close>)
    then show ?thesis using False IH by (subst exponentiate_loop.simps) simp
  qed
qed

lemma exponentiate_array_ok:
  assumes "seal_arith m" "\<forall>x \<in> set xs. x < mo_value m" "e \<noteq> 0"
  shows "exponentiate_array m xs e = Inr (map (\<lambda>x. x ^ e mod mo_value m) xs)"
proof -
  have "1 < mo_value m" using assms(1) by (simp add: seal_arith_def)
  then have "exponentiate_loop m xs e (replicate (length xs) 1) =
      map (\<lambda>(x, r). (x ^ e * r) mod mo_value m) (zip xs (replicate (length xs) 1))"
    using assms by (intro exponentiate_loop_correct) auto
  also have "\<dots> = map (\<lambda>x. x ^ e mod mo_value m) xs" by (intro nth_equalityI) simp_all
  finally show ?thesis using assms(3) by (simp add: exponentiate_array_def)
qed

subsection \<open>The source nodes of a fresh plan\<close>

definition node_keys :: "node_map \<Rightarrow> nat set" where
  "node_keys nodes = fst ` set nodes"

lemma update_keys: "fst ` set (AList.update k v al) = insert k (fst ` set al)"
  using dom_update [of k v al] by simp

lemma insert_sources_keys:
  "distinct (map fst nodes) \<Longrightarrow> distinct (map fst (insert_sources ss nodes)) \<and>
     fst ` set (insert_sources ss nodes) = set ss \<union> fst ` set nodes"
proof (induction ss nodes rule: insert_sources.induct)
  case (2 s ss nodes)
  let ?n = "AList.update s \<lparr>pn_power = s, pn_depth = 0, pn_parents = (0, 0)\<rparr> nodes"
  have "distinct (map fst ?n)" using 2(2) by (rule distinct_update)
  from 2(1) [OF this] show ?case using update_keys [of s _ nodes] by simp
qed simp

lemma add_targets_keys:
  assumes "add_targets S T rest nodes cd = Inr (nodes', cd')" "distinct (map fst nodes)"
  shows "distinct (map fst nodes') \<and> fst ` set nodes' \<subseteq> set rest \<union> fst ` set nodes"
  using assms
proof (induction rest arbitrary: nodes cd)
  case Nil
  then show ?case by simp
next
  case (Cons p rest)
  show ?case
  proof (cases "p \<in> set S")
    case True
    then show ?thesis using Cons.IH [of nodes cd] Cons.prems by auto
  next
    case False
    then obtain d a b where b: "best_parents nodes T p T (p - 1, p - 1, 1) = Inr (d, a, b)"
      "add_targets S T rest (AList.update p \<lparr>pn_power = p, pn_depth = d, pn_parents = (a, b)\<rparr> nodes) (max cd d) = Inr (nodes', cd')"
      using Cons.prems(1) by (auto simp: result_simps)
    have "distinct (map fst (AList.update p \<lparr>pn_power = p, pn_depth = d, pn_parents = (a, b)\<rparr> nodes))"
      using Cons.prems(2) by (rule distinct_update)
    from Cons.IH [OF b(2) this] show ?thesis using update_keys [of p _ nodes] by auto
  qed
qed

lemma configure_fresh_keys:
  assumes "pd_configure empty_dag S T = Inr (d', True)" "set S \<subseteq> set T"
  shows "distinct (map fst (pd_nodes d')) \<and> fst ` set (pd_nodes d') \<subseteq> set T"
proof -
  obtain nodes cd where "add_targets S T T (insert_sources S []) 0 = Inr (nodes, cd)" "pd_nodes d' = nodes"
    using assms(1) by (auto simp: pd_configure_def pd_reset_def empty_dag_def Let_def result_simps split: if_splits)
  then show ?thesis using add_targets_keys [of S T T "insert_sources S []" 0 nodes cd] insert_sources_keys [of "[]" S] assms(2)
    by auto
qed

lemma fresh_sources:
  assumes "create_powers_set low deg = Some (Inr T)" and "low \<le> deg" and "0 < deg"
    and "deg + low + 1 < 2 ^ 32" and "1 \<in> set S" and "set S \<subseteq> set T"
    and "pd_configure empty_dag S T = Inr (d', True)"
  shows "\<exists>ns. dag_source_nodes d' = Inr ns \<and> pn_power ` set ns = set S"
proof -
  have T: "oset_ok T" "set T = power_targets low deg"
    using create_powers_set_targets [OF assms(2-4)] assms(1) by auto
  have closed: "\<exists>a b. split_of (set T) p a b" if "p \<in> set T - set S" for p
    using that assms(5) power_targets_closed [of p low deg] by (auto simp: T(2))
  have T0: "0 \<notin> set T" by (simp add: T(2) power_targets_pos)
  have conf: "pd_configured d'" and
    nodes: "\<And>p. p \<in> set T \<Longrightarrow> node_valid (pd_nodes d') (set S) (set T) p"
    using configure_ok [OF T(1) T0 assms(5,6) closed, of empty_dag] assms(7) by auto
  have keys: "distinct (map fst (pd_nodes d'))" "fst ` set (pd_nodes d') \<subseteq> set T"
    using configure_fresh_keys [OF assms(7,6)] by simp_all
  let ?ns = "filter (\<lambda>n. fst (pn_parents n) = 0 \<and> snd (pn_parents n) = 0) (map snd (pd_nodes d'))"
  have lookup: "map_of (pd_nodes d') p = Some n" if "(p, n) \<in> set (pd_nodes d')" for p n
    using keys(1) that by (rule map_of_is_SomeI)
  have src: "p \<in> set S \<and> pn_power n = p" if "(p, n) \<in> set (pd_nodes d')" "fst (pn_parents n) = 0" for p n
  proof -
    have "p \<in> set T" using keys(2) that(1) by force
    then show ?thesis using nodes [of p] lookup [OF that(1)] that(2)
      by (auto simp: node_valid_def split_of_def split: if_splits)
  qed
  have "pn_power ` set ?ns = set S"
  proof
    show "pn_power ` set ?ns \<subseteq> set S" using src by fastforce
    show "set S \<subseteq> pn_power ` set ?ns"
    proof
      fix p assume p: "p \<in> set S"
      then obtain n where n: "map_of (pd_nodes d') p = Some n" "pn_power n = p" "pn_parents n = (0, 0)"
        using nodes [of p] assms(6) by (auto simp: node_valid_def)
      then have "(p, n) \<in> set (pd_nodes d')" using map_of_SomeD by metis
      then have "n \<in> set ?ns" using n(3) by (force simp: image_iff)
      then show "p \<in> pn_power ` set ?ns" using n(2) by blast
    qed
  qed
  then show ?thesis using conf by (simp add: dag_source_nodes_def configured_only_def)
qed

lemma compute_powers_fold:
  assumes "seal_arith m" "\<forall>x \<in> set xs. x < mo_value m" "\<forall>n \<in> set ns. pn_power n \<noteq> 0"
  shows "\<exists>powers. fold_res (\<lambda>s powers. bind_res (exponentiate_array m xs (pn_power s)) (\<lambda>ys.
       Inr (AList.update (pn_power s) ys powers))) ns acc = Inr powers \<and>
     map_of powers = (\<lambda>p. if p \<in> pn_power ` set ns then Some (map (\<lambda>x. x ^ p mod mo_value m) xs) else map_of acc p)"
  using assms(3)
proof (induction ns arbitrary: acc)
  case Nil
  then show ?case by simp
next
  case (Cons n ns)
  let ?acc = "AList.update (pn_power n) (map (\<lambda>x. x ^ pn_power n mod mo_value m) xs) acc"
  obtain powers where p: "fold_res (\<lambda>s powers. bind_res (exponentiate_array m xs (pn_power s)) (\<lambda>ys.
       Inr (AList.update (pn_power s) ys powers))) ns ?acc = Inr powers"
    "map_of powers = (\<lambda>p. if p \<in> pn_power ` set ns then Some (map (\<lambda>x. x ^ p mod mo_value m) xs) else map_of ?acc p)"
    using Cons.IH [of ?acc] Cons.prems by auto
  have "map_of powers p = (if p \<in> pn_power ` set (n # ns) then Some (map (\<lambda>x. x ^ p mod mo_value m) xs) else map_of acc p)" for p
    unfolding p(2) map_of_update by (cases "p = pn_power n") simp_all
  then have "map_of powers = (\<lambda>p. if p \<in> pn_power ` set (n # ns) then Some (map (\<lambda>x. x ^ p mod mo_value m) xs) else map_of acc p)"
    by blast
  moreover have "fold_res (\<lambda>s powers. bind_res (exponentiate_array m xs (pn_power s)) (\<lambda>ys.
       Inr (AList.update (pn_power s) ys powers))) (n # ns) acc = Inr powers"
    using p(1) Cons.prems by (simp add: exponentiate_array_ok [OF assms(1,2)])
  ultimately show ?case by blast
qed

lemma plaintext_powers_ok:
  assumes "create_powers_set low deg = Some (Inr T)" and "low \<le> deg" and "0 < deg"
    and "deg + low + 1 < 2 ^ 32" and "1 \<in> set S" and "set S \<subseteq> set T"
    and "pd_configure empty_dag S T = Inr (d', True)"
    and "seal_arith m" and "\<forall>x \<in> set xs. x < mo_value m"
  shows "\<exists>powers. compute_plaintext_powers m xs d' = Inr powers \<and>
    map_of powers = (\<lambda>p. if p \<in> set S then Some (map (\<lambda>x. x ^ p mod mo_value m) xs) else None) \<and>
    distinct (map fst powers)"
proof -
  obtain ns where ns: "dag_source_nodes d' = Inr ns" "pn_power ` set ns = set S"
    using fresh_sources [OF assms(1-7)] by blast
  have "0 \<notin> set T" using create_powers_set_targets [OF assms(2-4)] assms(1) by (auto simp: power_targets_pos)
  then have "\<forall>n \<in> set ns. pn_power n \<noteq> 0" using ns(2) assms(6) by (metis image_eqI subsetD)
  from compute_powers_fold [OF assms(8,9) this, of "[]"] obtain powers where
    p: "fold_res (\<lambda>s powers. bind_res (exponentiate_array m xs (pn_power s)) (\<lambda>ys.
       Inr (AList.update (pn_power s) ys powers))) ns [] = Inr powers"
    "map_of powers = (\<lambda>p. if p \<in> pn_power ` set ns then Some (map (\<lambda>x. x ^ p mod mo_value m) xs) else map_of [] p)"
    by blast
  have "compute_plaintext_powers m xs d' = Inr powers" using p(1) ns(1) by (simp add: compute_plaintext_powers_def)
  moreover have "map_of powers = (\<lambda>p. if p \<in> set S then Some (map (\<lambda>x. x ^ p mod mo_value m) xs) else None)"
    unfolding p(2) ns(2) map_of.simps by (rule refl)
  moreover have "distinct (map fst powers)"
    by (rule fold_res_preserves [OF p(1)]) (auto simp: result_simps distinct_update)
  ultimately show ?thesis by blast
qed

lemma encrypt_powers_ok:
  assumes "map_of powers = (\<lambda>p. if p \<in> S then Some (g p) else None)" "distinct (map fst powers)"
  shows "\<exists>cts. encrypt_powers (Some enc) encode powers = Inr cts \<and> distinct (map fst cts) \<and>
    map_of cts = (\<lambda>p. if p \<in> S then Some (enc (encode (g p))) else None)"
proof -
  let ?cts = "map (\<lambda>(p, ys). (p, enc (encode ys))) powers"
  have "map_of ?cts p = (if p \<in> S then Some (enc (encode (g p))) else None)" for p
    unfolding map_of_map using assms(1) by (simp add: o_def)
  then have "map_of ?cts = (\<lambda>p. if p \<in> S then Some (enc (encode (g p))) else None)" by blast
  moreover have "distinct (map fst ?cts)" using assms(2) by (simp add: case_prod_unfold comp_def)
  moreover have "encrypt_powers (Some enc) encode powers = Inr ?cts" by (simp add: encrypt_powers_def)
  ultimately show ?thesis by blast
qed

subsection \<open>Properties\<close>

text \<open>
  C39. The powers of a query: for the plan of a query (made by a fresh \<open>PowersDag\<close>) and reduced
  field elements, computing the powers and encrypting them gives for every source power, and for no
  other, one ciphertext: the encryption of the encoding of each field element raised to that power
  modulo the plaintext modulus. Without an encryptor the encryption is refused.
\<close>
theorem plaintext_powers_correct:
  assumes "create_powers_set low deg = Some (Inr T)" and "low \<le> deg" and "0 < deg"
    and "deg + low + 1 < 2 ^ 32" and "1 \<in> set S" and "set S \<subseteq> set T"
    and "pd_configure empty_dag S T = Inr (d', True)"
    and "seal_arith m" and "\<forall>x \<in> set xs. x < mo_value m"
  shows "\<exists>powers cts. compute_plaintext_powers m xs d' = Inr powers \<and>
    map_of powers = (\<lambda>p. if p \<in> set S then Some (map (\<lambda>x. x ^ p mod mo_value m) xs) else None) \<and>
    encrypt_powers (Some enc) encode powers = Inr cts \<and> distinct (map fst cts) \<and>
    map_of cts = (\<lambda>p. if p \<in> set S then Some (enc (encode (map (\<lambda>x. x ^ p mod mo_value m) xs))) else None) \<and>
    encrypt_powers None encode powers = Inl (Invalid_argument ''encryptor is not set in crypto_context'')"
proof -
  obtain powers where p: "compute_plaintext_powers m xs d' = Inr powers"
    "map_of powers = (\<lambda>p. if p \<in> set S then Some (map (\<lambda>x. x ^ p mod mo_value m) xs) else None)"
    "distinct (map fst powers)"
    using plaintext_powers_ok [OF assms] by blast
  obtain cts where c: "encrypt_powers (Some enc) encode powers = Inr cts" "distinct (map fst cts)"
    "map_of cts = (\<lambda>p. if p \<in> set S then Some (enc (encode (map (\<lambda>x. x ^ p mod mo_value m) xs))) else None)"
    using encrypt_powers_ok [OF p(2,3), of enc encode] by blast
  have "encrypt_powers None encode powers = Inl (Invalid_argument ''encryptor is not set in crypto_context'')"
    by (simp add: encrypt_powers_def)
  with p(1,2) c show ?thesis by blast
qed

theorem plaintext_powers_correct_witness:
  "\<exists>d' powers cts. pd_configure empty_dag [1, 3] [1, 2, 3, 4] = Inr (d', True) \<and>
    compute_plaintext_powers (std_ops 17) [5, 16] d' = Inr powers \<and>
    map_of powers = (\<lambda>p. if p \<in> set [1, 3] then Some (map (\<lambda>x. x ^ p mod mo_value (std_ops 17)) [5, 16]) else None) \<and>
    encrypt_powers (Some (\<lambda>ys. 0 # ys)) rev powers = Inr cts \<and> distinct (map fst cts) \<and>
    map_of cts = (\<lambda>p. if p \<in> set [1, 3] then Some (0 # rev (map (\<lambda>x. x ^ p mod mo_value (std_ops 17)) [5, 16])) else None)"
proof -
  obtain d' where c: "pd_configure empty_dag [1, 3] [1, 2, 3, 4] = Inr (d', True)"
    by (simp add: pd_configure_def empty_dag_def pd_reset_def Let_def node_at_def)
  have reduced: "\<forall>x \<in> set [5, 16]. x < mo_value (std_ops 17)" by (simp add: std_ops_def)
  from plaintext_powers_correct [OF create_powers_set_4 _ _ _ _ _ c _ reduced, of "\<lambda>ys. 0 # ys" rev] c show ?thesis
    by (auto simp: std_ops_seal)
qed

end
