(* ===== verification/PsiParams.thy ===== *)
theory PsiParams
  imports Bits
begin

text \<open>
  The protocol parameters (\<open>common/apsi/psi_params.cpp\<close>, \<open>psi_params.h\<close>): the checks of the constructor
  and the quantities it derives. The answers of the SEAL context are a part of the SEAL parameters.
  The geometry that the database relies on is proved here: an item occupies consecutive bins of one
  bundle, and the ranges of different table locations do not meet.
\<close>

subsection \<open>Parameters\<close>

record seal_params =
  sp_plain_modulus :: modulus
  sp_poly_modulus_degree :: nat
  sp_parameters_set :: bool
  sp_using_batching :: bool

record item_params =
  ip_felts_per_item :: nat

record table_params =
  tp_table_size :: nat
  tp_max_items_per_bin :: nat
  tp_hash_func_count :: nat

record query_params =
  qp_ps_low_degree :: nat
  qp_query_powers :: oset

record psi_params =
  pp_item_params :: item_params
  pp_table_params :: table_params
  pp_query_params :: query_params
  pp_seal_params :: seal_params
  pp_items_per_bundle :: nat
  pp_bins_per_bundle :: nat
  pp_bundle_idx_count :: nat
  pp_item_bit_count :: nat
  pp_item_bit_count_per_felt :: nat

definition item_bit_count_min :: nat where "item_bit_count_min = 80"
definition item_bit_count_max :: nat where "item_bit_count_max = 128"
definition felts_per_item_min :: nat where "felts_per_item_min = 2"
definition felts_per_item_max :: nat where "felts_per_item_max = 32"
definition hash_func_count_min :: nat where "hash_func_count_min = 1"
definition hash_func_count_max :: nat where "hash_func_count_max = 8"

lemmas param_limits = item_bit_count_min_def item_bit_count_max_def felts_per_item_min_def
  felts_per_item_max_def hash_func_count_min_def hash_func_count_max_def

subsection \<open>Initialization\<close>

text \<open>The loop over the query powers.\<close>

fun check_query_powers :: "nat \<Rightarrow> nat \<Rightarrow> oset \<Rightarrow> unit res" where
  "check_query_powers max_items_per_bin ps_low_degree [] = Inr ()"
| "check_query_powers max_items_per_bin ps_low_degree (p # ps) =
     (if p > max_items_per_bin then
        Inl (Invalid_argument ''query_powers cannot contain values larger than max_items_per_bin'')
      else
        let ps_high_degree = wrap32 (ps_low_degree + 1)
        in if p > ps_low_degree \<and> ps_high_degree = 0 then Inl Div_by_zero
           else if p > ps_low_degree \<and> p mod ps_high_degree \<noteq> 0 then
             Inl (Invalid_argument ''query_powers cannot contain values larger than ps_low_degree that are not multiples ps_low_degree + 1'')
           else check_query_powers max_items_per_bin ps_low_degree ps)"

definition check_table_params :: "item_params \<Rightarrow> table_params \<Rightarrow> unit res" where
  "check_table_params ip tp =
     (if tp_table_size tp = 0 then Inl (Invalid_argument ''table_size cannot be zero'')
      else if tp_max_items_per_bin tp = 0 then Inl (Invalid_argument ''max_items_per_bin cannot be zero'')
      else if tp_hash_func_count tp < hash_func_count_min \<or> tp_hash_func_count tp > hash_func_count_max then
        Inl (Invalid_argument ''hash_func_count is too large or too small'')
      else if ip_felts_per_item ip < felts_per_item_min \<or> ip_felts_per_item ip > felts_per_item_max then
        Inl (Invalid_argument ''felts_per_item is too large or too small'')
      else Inr ())"

definition check_query_params :: "table_params \<Rightarrow> query_params \<Rightarrow> unit res" where
  "check_query_params tp qp =
     (if qp_ps_low_degree qp > tp_max_items_per_bin tp then
        Inl (Invalid_argument ''ps_low_degree cannot be larger than max_items_per_bin'')
      else if 0 \<in> set (qp_query_powers qp) \<or> 1 \<notin> set (qp_query_powers qp) then
        Inl (Invalid_argument ''query_powers cannot contain 0 and must contain 1'')
      else if length (qp_query_powers qp) > tp_max_items_per_bin tp then
        Inl (Invalid_argument ''query_powers cannot be larger than max_items_per_bin'')
      else check_query_powers (tp_max_items_per_bin tp) (qp_ps_low_degree qp) (qp_query_powers qp))"

definition check_seal_params :: "seal_params \<Rightarrow> unit res" where
  "check_seal_params sp =
     (if \<not> sp_parameters_set sp then Inl (Invalid_argument ''Microsoft SEAL parameters are invalid'')
      else if \<not> sp_using_batching sp then Inl (Invalid_argument
        ''Microsoft SEAL parameters do not support batching; plain_modulus must be a prime congruent to 1 modulo 2*poly_modulus_degree'')
      else Inr ())"

definition derive_params :: "item_params \<Rightarrow> table_params \<Rightarrow> query_params \<Rightarrow> seal_params \<Rightarrow> psi_params res" where
  "derive_params ip tp qp sp =
     (let felts_per_item = ip_felts_per_item ip;
          item_bit_count_per_felt = sub32 (mod_bit_count (sp_plain_modulus sp)) 1;
          item_bit_count = wrap32 (item_bit_count_per_felt * felts_per_item)
      in if item_bit_count < item_bit_count_min \<or> item_bit_count > item_bit_count_max then
           Inl (Invalid_argument ''parameters result in too large or too small item_bit_count'')
         else
           let items_per_bundle = wrap32 (sp_poly_modulus_degree sp) div felts_per_item
           in if items_per_bundle = 0 then Inl (Invalid_argument ''poly_modulus_degree is too small'')
              else if tp_table_size tp mod items_per_bundle \<noteq> 0 then Inl (Invalid_argument
                ''table_size must be a multiple of floor(poly_modulus_degree / felts_per_item)'')
              else Inr \<lparr>pp_item_params = ip, pp_table_params = tp, pp_query_params = qp, pp_seal_params = sp,
                pp_items_per_bundle = items_per_bundle,
                pp_bins_per_bundle = wrap32 (items_per_bundle * felts_per_item),
                pp_bundle_idx_count = tp_table_size tp div items_per_bundle,
                pp_item_bit_count = item_bit_count, pp_item_bit_count_per_felt = item_bit_count_per_felt\<rparr>)"

definition psi_initialize :: "item_params \<Rightarrow> table_params \<Rightarrow> query_params \<Rightarrow> seal_params \<Rightarrow> psi_params res" where
  "psi_initialize ip tp qp sp =
     bind_res (check_table_params ip tp) (\<lambda>_.
     bind_res (check_query_params tp qp) (\<lambda>_.
     bind_res (check_seal_params sp) (\<lambda>_. derive_params ip tp qp sp)))"

subsection \<open>What the checks establish\<close>

lemma check_query_powers_ok:
  assumes "m < 2 ^ 32"
  shows "check_query_powers m d ps = Inr () \<longleftrightarrow> (\<forall>p \<in> set ps. p \<le> m \<and> (p > d \<longrightarrow> p mod (d + 1) = 0))"
proof (induction ps)
  case (Cons p ps)
  have "wrap32 (d + 1) = d + 1" if "p > d" "p \<le> m" using assms that by simp
  then show ?case using Cons by (auto simp: Let_def)
qed simp

definition psi_params_ok :: "psi_params \<Rightarrow> bool" where
  "psi_params_ok pp \<longleftrightarrow>
     (let ip = pp_item_params pp; tp = pp_table_params pp; qp = pp_query_params pp;
          m = sp_plain_modulus (pp_seal_params pp); fpi = ip_felts_per_item ip in
     2 \<le> fpi \<and> fpi \<le> 32 \<and> 1 \<le> tp_hash_func_count tp \<and> tp_hash_func_count tp \<le> 8 \<and>
     0 < tp_max_items_per_bin tp \<and> 0 < tp_table_size tp \<and>
     qp_ps_low_degree qp \<le> tp_max_items_per_bin tp \<and>
     1 \<in> set (qp_query_powers qp) \<and> 0 \<notin> set (qp_query_powers qp) \<and>
     length (qp_query_powers qp) \<le> tp_max_items_per_bin tp \<and>
     (\<forall>p \<in> set (qp_query_powers qp). p \<le> tp_max_items_per_bin tp \<and>
        (p > qp_ps_low_degree qp \<longrightarrow> p mod (qp_ps_low_degree qp + 1) = 0)) \<and>
     pp_item_bit_count_per_felt pp = mod_bit_count m - 1 \<and>
     pp_item_bit_count pp = (mod_bit_count m - 1) * fpi \<and> 80 \<le> pp_item_bit_count pp \<and> pp_item_bit_count pp \<le> 128 \<and>
     0 < pp_items_per_bundle pp \<and> pp_bins_per_bundle pp = pp_items_per_bundle pp * fpi \<and>
     pp_bins_per_bundle pp \<le> sp_poly_modulus_degree (pp_seal_params pp) \<and>
     0 < pp_bundle_idx_count pp \<and> pp_bundle_idx_count pp * pp_items_per_bundle pp = tp_table_size tp \<and>
     tp_table_size tp < 2 ^ 32 \<and> tp_max_items_per_bin tp < 2 ^ 32)"

lemma derived_counts:
  assumes "items = wrap32 n div f" "0 < items" "2 \<le> f"
  shows "wrap32 (items * f) = items * f" "items * f \<le> n"
proof -
  have "items * f \<le> wrap32 n" using assms(1) by simp
  moreover have "wrap32 n < 2 ^ 32" "wrap32 n \<le> n" by (simp_all add: wrap32_def)
  ultimately have "items * f < 2 ^ 32" "items * f \<le> n" by linarith+
  then show "wrap32 (items * f) = items * f" "items * f \<le> n" by simp_all
qed

lemma psi_initialize_spec:
  assumes "psi_initialize ip tp qp sp = Inr pp" "tp_table_size tp < 2 ^ 32" "tp_max_items_per_bin tp < 2 ^ 32"
    and bits: "1 \<le> mod_bit_count (sp_plain_modulus sp)" "mod_bit_count (sp_plain_modulus sp) \<le> 64"
  shows "psi_params_ok pp" "pp_item_params pp = ip" "pp_table_params pp = tp" "pp_query_params pp = qp" "pp_seal_params pp = sp"
proof -
  let ?f = "ip_felts_per_item ip" and ?b = "mod_bit_count (sp_plain_modulus sp) - 1"
  have tab: "check_table_params ip tp = Inr ()" and qry: "check_query_params tp qp = Inr ()" and
    der: "derive_params ip tp qp sp = Inr pp"
    using assms(1) by (auto simp: psi_initialize_def result_simps)
  have f: "2 \<le> ?f" "?f \<le> 32" using tab by (auto simp: check_table_params_def param_limits split: if_splits)
  have b: "sub32 (mod_bit_count (sp_plain_modulus sp)) 1 = ?b" using bits by simp
  have "?b * ?f \<le> 63 * 32" using bits f by (intro mult_le_mono) auto
  then have bf: "wrap32 (?b * ?f) = ?b * ?f" by simp
  define items where "items = wrap32 (sp_poly_modulus_degree sp) div ?f"
  have pp: "pp = \<lparr>pp_item_params = ip, pp_table_params = tp, pp_query_params = qp, pp_seal_params = sp,
      pp_items_per_bundle = items, pp_bins_per_bundle = wrap32 (items * ?f),
      pp_bundle_idx_count = tp_table_size tp div items, pp_item_bit_count = ?b * ?f, pp_item_bit_count_per_felt = ?b\<rparr>"
    and d: "80 \<le> ?b * ?f" "?b * ?f \<le> 128" "0 < items" "tp_table_size tp mod items = 0"
    using der unfolding derive_params_def Let_def b bf items_def [symmetric]
    by (auto simp: param_limits split: if_splits)
  note counts = derived_counts [OF items_def d(3) f(1)]
  have ts: "0 < tp_table_size tp" using tab by (auto simp: check_table_params_def split: if_splits)
  have div: "tp_table_size tp div items * items = tp_table_size tp" using d(4) by auto
  then have "0 < tp_table_size tp div items" using ts by (metis gr0I mult_0)
  then show "psi_params_ok pp"
    using tab qry f d div counts ts assms(2,3) check_query_powers_ok [OF assms(3)]
    by (auto simp: psi_params_ok_def pp check_table_params_def check_query_params_def param_limits split: if_splits)
qed (use assms(1) in \<open>auto simp: psi_initialize_def derive_params_def Let_def result_simps split: if_splits\<close>)

lemma psi_initialize_complete:
  assumes ok: "psi_params_ok pp" and flags: "sp_parameters_set (pp_seal_params pp)" "sp_using_batching (pp_seal_params pp)"
    and items: "pp_items_per_bundle pp = wrap32 (sp_poly_modulus_degree (pp_seal_params pp)) div ip_felts_per_item (pp_item_params pp)"
    and bits: "1 \<le> mod_bit_count (sp_plain_modulus (pp_seal_params pp))" "mod_bit_count (sp_plain_modulus (pp_seal_params pp)) \<le> 64"
  shows "psi_initialize (pp_item_params pp) (pp_table_params pp) (pp_query_params pp) (pp_seal_params pp) = Inr pp"
proof -
  let ?f = "ip_felts_per_item (pp_item_params pp)" and ?b = "mod_bit_count (sp_plain_modulus (pp_seal_params pp)) - 1"
    and ?tp = "pp_table_params pp"
  have f: "2 \<le> ?f" "?f \<le> 32" "1 \<le> tp_hash_func_count ?tp" "tp_hash_func_count ?tp \<le> 8" "0 < tp_max_items_per_bin ?tp" "0 < tp_table_size ?tp"
    and q: "qp_ps_low_degree (pp_query_params pp) \<le> tp_max_items_per_bin ?tp" "1 \<in> set (qp_query_powers (pp_query_params pp))"
      "0 \<notin> set (qp_query_powers (pp_query_params pp))" "length (qp_query_powers (pp_query_params pp)) \<le> tp_max_items_per_bin ?tp"
      "\<forall>p \<in> set (qp_query_powers (pp_query_params pp)). p \<le> tp_max_items_per_bin ?tp \<and>
        (p > qp_ps_low_degree (pp_query_params pp) \<longrightarrow> p mod (qp_ps_low_degree (pp_query_params pp) + 1) = 0)"
    and d: "pp_item_bit_count_per_felt pp = ?b" "pp_item_bit_count pp = ?b * ?f" "80 \<le> pp_item_bit_count pp" "pp_item_bit_count pp \<le> 128"
      "0 < pp_items_per_bundle pp" "pp_bins_per_bundle pp = pp_items_per_bundle pp * ?f"
      "pp_bundle_idx_count pp * pp_items_per_bundle pp = tp_table_size ?tp" "tp_max_items_per_bin ?tp < 2 ^ 32"
    using ok unfolding psi_params_ok_def Let_def by blast+
  have "check_table_params (pp_item_params pp) ?tp = Inr ()" using f by (simp add: check_table_params_def param_limits)
  moreover have "check_query_params ?tp (pp_query_params pp) = Inr ()"
    using q check_query_powers_ok [OF d(8)] by (simp add: check_query_params_def)
  moreover have "check_seal_params (pp_seal_params pp) = Inr ()" using flags by (simp add: check_seal_params_def)
  moreover have "derive_params (pp_item_params pp) ?tp (pp_query_params pp) (pp_seal_params pp) = Inr pp"
  proof -
    have b: "sub32 (mod_bit_count (sp_plain_modulus (pp_seal_params pp))) 1 = ?b" using bits by simp
    have bf: "wrap32 (?b * ?f) = ?b * ?f" using d(2,4) by simp
    have n: "wrap32 (pp_items_per_bundle pp * ?f) = pp_items_per_bundle pp * ?f" using derived_counts(1) [OF items d(5) f(1)] .
    have t: "tp_table_size ?tp mod pp_items_per_bundle pp = 0" "tp_table_size ?tp div pp_items_per_bundle pp = pp_bundle_idx_count pp"
      using d(5) by (simp_all flip: d(7))
    have limits: "\<not> (?b * ?f < item_bit_count_min \<or> item_bit_count_max < ?b * ?f)" using d(2-4) by (simp add: param_limits)
    show ?thesis unfolding derive_params_def Let_def b bf items [symmetric] n
      using limits d(1,2,5,6) t by (simp only: if_False) simp
  qed
  ultimately show ?thesis by (simp add: psi_initialize_def)
qed

subsection \<open>Properties\<close>

text \<open>
  C18. \<open>PSIParams::initialize\<close> accepts exactly the well-formed parameters. For 32-bit table sizes and a plain modulus of 1 to
  64 bits, it returns parameters exactly when SEAL accepts its own parameters for batching, all the limits on the counts and the powers
  hold, items have 80 to 128 bits, and the table is divided into bundles of as many items as fit in a
  ciphertext; none of the derived 32-bit counts wraps around.
\<close>
theorem psi_initialize_accepts:
  assumes "tp_table_size tp < 2 ^ 32" and "tp_max_items_per_bin tp < 2 ^ 32"
    and "1 \<le> mod_bit_count (sp_plain_modulus sp)" and "mod_bit_count (sp_plain_modulus sp) \<le> 64"
  shows "psi_initialize ip tp qp sp = Inr pp \<longleftrightarrow> psi_params_ok pp \<and> pp_item_params pp = ip \<and> pp_table_params pp = tp \<and>
    pp_query_params pp = qp \<and> pp_seal_params pp = sp \<and> sp_parameters_set sp \<and> sp_using_batching sp \<and>
    pp_items_per_bundle pp = wrap32 (sp_poly_modulus_degree sp) div ip_felts_per_item ip"
proof
  assume init: "psi_initialize ip tp qp sp = Inr pp"
  have "sp_parameters_set sp \<and> sp_using_batching sp \<and> pp_items_per_bundle pp = wrap32 (sp_poly_modulus_degree sp) div ip_felts_per_item ip"
    using init by (auto simp: psi_initialize_def check_seal_params_def derive_params_def Let_def result_simps split: if_splits)
  then show "psi_params_ok pp \<and> pp_item_params pp = ip \<and> pp_table_params pp = tp \<and>
    pp_query_params pp = qp \<and> pp_seal_params pp = sp \<and> sp_parameters_set sp \<and> sp_using_batching sp \<and>
    pp_items_per_bundle pp = wrap32 (sp_poly_modulus_degree sp) div ip_felts_per_item ip"
    using psi_initialize_spec [OF init assms] by simp
qed (use psi_initialize_complete [of pp] assms in auto)

theorem psi_initialize_accepts_witness:
  "\<exists>pp. psi_initialize \<lparr>ip_felts_per_item = 8\<rparr> \<lparr>tp_table_size = 1024, tp_max_items_per_bin = 92, tp_hash_func_count = 3\<rparr>
      \<lparr>qp_ps_low_degree = 0, qp_query_powers = [1, 3, 4, 5, 8, 14, 20, 26, 32, 38, 41, 42, 43, 45, 46]\<rparr>
      \<lparr>sp_plain_modulus = \<lparr>mod_value = 40961, mod_bit_count = 16\<rparr>, sp_poly_modulus_degree = 4096, sp_parameters_set = True, sp_using_batching = True\<rparr> =
      Inr pp \<and> psi_params_ok pp \<and> pp_items_per_bundle pp = 512 \<and> pp_bundle_idx_count pp = 2"
proof -
  let ?ip = "\<lparr>ip_felts_per_item = 8\<rparr>" and ?tp = "\<lparr>tp_table_size = 1024, tp_max_items_per_bin = 92, tp_hash_func_count = 3\<rparr>"
    and ?qp = "\<lparr>qp_ps_low_degree = 0, qp_query_powers = [1, 3, 4, 5, 8, 14, 20, 26, 32, 38, 41, 42, 43, 45, 46]\<rparr>"
    and ?sp = "\<lparr>sp_plain_modulus = \<lparr>mod_value = 40961, mod_bit_count = 16\<rparr>, sp_poly_modulus_degree = 4096, sp_parameters_set = True, sp_using_batching = True\<rparr>"
  let ?pp = "\<lparr>pp_item_params = ?ip, pp_table_params = ?tp, pp_query_params = ?qp, pp_seal_params = ?sp, pp_items_per_bundle = 512,
    pp_bins_per_bundle = 4096, pp_bundle_idx_count = 2, pp_item_bit_count = 120, pp_item_bit_count_per_felt = 15\<rparr>"
  have "psi_params_ok ?pp" by (simp add: psi_params_ok_def)
  moreover from this have "psi_initialize ?ip ?tp ?qp ?sp = Inr ?pp" by (subst psi_initialize_accepts) simp_all
  ultimately show ?thesis by (intro exI [of _ ?pp]) simp
qed

end
