(* ===== verification/LabelEncryptor.thy ===== *)
theory LabelEncryptor
  imports Utils
begin

text \<open>
  Label encryption (\<open>common/apsi/util/label_encryptor.cpp\<close>): a random nonce, and the label xored with the
  Blake2xb stream of nonce and key. Blake2xb (SEAL) and the random source are parameters.
\<close>

type_synonym label = "byte list"
type_synonym label_key = "byte list"
type_synonym xof = "nat \<Rightarrow> byte list \<Rightarrow> byte list \<Rightarrow> byte list"

definition label_key_byte_count :: nat where "label_key_byte_count = 16"
definition max_nonce_byte_count :: nat where "max_nonce_byte_count = 16"

definition encrypt_label :: "xof \<Rightarrow> (nat \<Rightarrow> byte list) \<Rightarrow> label \<Rightarrow> label_key \<Rightarrow> nat \<Rightarrow> nat \<Rightarrow> byte list res" where
  "encrypt_label blake2xb random_bytes label key label_byte_count nonce_byte_count =
     (if nonce_byte_count > max_nonce_byte_count then Inl (Invalid_argument ''nonce_byte_count is too large'')
      else
        let nonce = random_bytes nonce_byte_count;
            mask = blake2xb label_byte_count nonce key
        in Inr (nonce @ xor_buffers mask label (min (length label) label_byte_count)))"

definition decrypt_label :: "xof \<Rightarrow> byte list \<Rightarrow> label_key \<Rightarrow> nat \<Rightarrow> label res" where
  "decrypt_label blake2xb encrypted_label key nonce_byte_count =
     (if nonce_byte_count > max_nonce_byte_count then Inl (Invalid_argument ''nonce_byte_count is too large'')
      else if length encrypted_label < nonce_byte_count then
        Inl (Invalid_argument ''encrypted_label cannot be smaller than nonce_byte_count'')
      else
        let label_byte_count = length encrypted_label - nonce_byte_count;
            mask = blake2xb label_byte_count (take nonce_byte_count encrypted_label) key
        in Inr (xor_buffers mask (drop nonce_byte_count encrypted_label) label_byte_count))"

text \<open>What is relied on of the stream and of the random source: they fill the buffer they are given.\<close>

definition xof_fills :: "xof \<Rightarrow> bool" where
  "xof_fills blake2xb \<longleftrightarrow> (\<forall>n input key. length (blake2xb n input key) = n)"

definition random_fills :: "(nat \<Rightarrow> byte list) \<Rightarrow> bool" where
  "random_fills random_bytes \<longleftrightarrow> (\<forall>n. length (random_bytes n) = n)"

text \<open>The label as it comes back: cut or padded with zeros to the label byte count.\<close>

definition fit_label :: "nat \<Rightarrow> label \<Rightarrow> label" where
  "fit_label n label = take n label @ replicate (n - length label) 0"

lemma encrypt_label_length:
  assumes "xof_fills xb" "random_fills rb" "nbc \<le> 16"
  shows "\<exists>e. encrypt_label xb rb label key lbc nbc = Inr e \<and> length e = nbc + lbc"
  using assms by (simp add: encrypt_label_def max_nonce_byte_count_def xof_fills_def random_fills_def Let_def xor_buffers_correct)

lemma xor_mask_twice:
  fixes mask ys :: "byte list"
  assumes "length ys \<le> length mask"
  shows "map2 (XOR) mask (map2 (XOR) (take (length ys) mask) ys @ drop (length ys) mask) =
    ys @ replicate (length mask - length ys) 0"
proof (rule nth_equalityI)
  fix i assume "i < length (map2 (XOR) mask (map2 (XOR) (take (length ys) mask) ys @ drop (length ys) mask))"
  then have i: "i < length mask" by simp
  show "map2 (XOR) mask (map2 (XOR) (take (length ys) mask) ys @ drop (length ys) mask) ! i =
    (ys @ replicate (length mask - length ys) 0) ! i"
    using assms i by (cases "i < length ys") (simp_all add: nth_append xor.assoc [symmetric])
qed (use assms in simp)

lemma label_decrypted:
  assumes "xof_fills xb" "random_fills rb" "nbc \<le> 16"
  shows "bind_res (encrypt_label xb rb label key lbc nbc) (\<lambda>e. decrypt_label xb e key nbc) = Inr (fit_label lbc label)"
proof -
  let ?mask = "xb lbc (rb nbc) key" and ?n = "min (length label) lbc"
  have len: "length ?mask = lbc" "length (rb nbc) = nbc" using assms by (simp_all add: xof_fills_def random_fills_def)
  have enc: "encrypt_label xb rb label key lbc nbc =
      Inr (rb nbc @ map2 (XOR) (take ?n ?mask) (take ?n label) @ drop ?n ?mask)"
    using assms(3) len by (simp add: encrypt_label_def max_nonce_byte_count_def Let_def xor_buffers_correct)
  have "map2 (XOR) ?mask (map2 (XOR) (take ?n ?mask) (take ?n label) @ drop ?n ?mask) =
      take ?n label @ replicate (lbc - ?n) 0"
    using xor_mask_twice [of "take ?n label" ?mask] len by simp
  then show ?thesis
    using assms(3) len unfolding enc
    by (simp add: decrypt_label_def max_nonce_byte_count_def Let_def xor_buffers_correct fit_label_def)
      (simp add: min_def)
qed

text \<open>
  A label survives encryption: for every admissible nonce size, whatever the nonce and the key,
  decrypting the encrypted label returns the label, cut or padded with zeros to the label byte
  count of the database.
\<close>
theorem label_encryption_roundtrip:
  assumes "xof_fills xb" and "random_fills rb" and "nbc \<le> 16"
  shows "bind_res (encrypt_label xb rb label key lbc nbc) (\<lambda>e. decrypt_label xb e key nbc) =
    Inr (take lbc label @ replicate (lbc - length label) 0)"
  using label_decrypted [OF assms] by (simp add: fit_label_def)

theorem label_encryption_roundtrip_witness:
  "bind_res (encrypt_label (\<lambda>n i k. replicate n 85) (\<lambda>n. replicate n 3) [1, 2, 3, 4, 5] [7] 8 2)
     (\<lambda>e. decrypt_label (\<lambda>n i k. replicate n 85) e [7] 2) =
   Inr (take 8 [1, 2, 3, 4, 5] @ replicate (8 - length [1, 2, 3, 4, 5 :: byte]) 0)"
  by (rule label_encryption_roundtrip) (simp_all add: xof_fills_def random_fills_def)

end
