(* ===== verification/Oprf.thy ===== *)
theory Oprf
  imports Items LabelEncryptor
begin

text \<open>
  The oblivious pseudo-random function (\<open>common/apsi/oprf\<close>): points, the sender's hashing and its answers
  to queries, the receiver's blinding and unblinding. The curve arithmetic (the FourQ library), the
  hash Blake2b and the random source are parameters; what is relied on is the predicate
  \<open>fourq_laws\<close>. Blinding, answering and unblinding an item gives the sender's hash of it.
\<close>

subsection \<open>The curve library\<close>

record 'pt fourq =
  fq_blake2b :: "nat \<Rightarrow> byte list \<Rightarrow> byte list"
  fq_mod1271 :: "byte list \<Rightarrow> byte list"
  fq_hash_to_curve :: "byte list \<Rightarrow> byte list \<Rightarrow> 'pt"
  fq_neutral :: 'pt
  fq_zeroed :: 'pt
  fq_modulo_order :: "byte list \<Rightarrow> byte list"
  fq_to_montgomery :: "byte list \<Rightarrow> byte list"
  fq_montgomery_inversion :: "byte list \<Rightarrow> byte list"
  fq_from_montgomery :: "byte list \<Rightarrow> byte list"
  fq_ecc_mul :: "'pt \<Rightarrow> byte list \<Rightarrow> bool \<Rightarrow> bool \<times> 'pt"
  fq_encode :: "'pt \<Rightarrow> byte list"
  fq_decode :: "byte list \<Rightarrow> 'pt option"
  fq_y_bytes :: "'pt \<Rightarrow> byte list"

type_synonym scalar = "byte list"

definition save_size :: nat where "save_size = 32"
definition order_size :: nat where "order_size = 32"
definition hash_size :: nat where "hash_size = 32"
definition oprf_hash_size :: nat where "oprf_hash_size = 16"

lemmas oprf_sizes = save_size_def order_size_def hash_size_def oprf_hash_size_def label_key_byte_count_def

subsection \<open>Points and scalars\<close>

definition is_nonzero_scalar :: "scalar \<Rightarrow> u64" where
  "is_nonzero_scalar v =
     (let c = foldl (OR) 0 (map (\<lambda>i. read_u64_little_endian (take 8 (drop (8 * i) v))) [0..<4]);
          first_nz = - (c AND 1);
          rest_nz = - (drop_bit 1 c)
      in signed_drop_bit 63 (first_nz OR rest_nz))"

definition random_scalar :: "'pt fourq \<Rightarrow> byte list \<Rightarrow> scalar" where
  "random_scalar fq bytes = fq_modulo_order fq bytes"

text \<open>
  The random source is the sequence of byte strings it hands out; the loop starts at number \<open>n\<close> and
  returns the number of the next one beside the scalar. It may not end.
\<close>

partial_function (option) make_random_nonzero_scalar ::
  "'pt fourq \<Rightarrow> (nat \<Rightarrow> byte list) \<Rightarrow> nat \<Rightarrow> (scalar \<times> nat) option" where
  "make_random_nonzero_scalar fq rnd n =
     (let value = random_scalar fq (rnd n)
      in if is_nonzero_scalar value = 0 then make_random_nonzero_scalar fq rnd (n + 1) else Some (value, n + 1))"

definition invert_scalar :: "'pt fourq \<Rightarrow> scalar \<Rightarrow> scalar" where
  "invert_scalar fq s = fq_from_montgomery fq (fq_montgomery_inversion fq (fq_to_montgomery fq s))"

definition ecpoint_of_bytes :: "'pt fourq \<Rightarrow> byte list \<Rightarrow> 'pt" where
  "ecpoint_of_bytes fq v =
     (if v \<noteq> [] then
        let r = fq_blake2b fq 32 v
        in fq_hash_to_curve fq (fq_mod1271 fq (take 16 r)) (fq_mod1271 fq (drop 16 r))
      else fq_zeroed fq)"

definition scalar_multiply :: "'pt fourq \<Rightarrow> 'pt \<Rightarrow> scalar \<Rightarrow> bool \<Rightarrow> bool \<times> 'pt" where
  "scalar_multiply fq pt scalar clear_cofactor = fq_ecc_mul fq pt scalar clear_cofactor"

definition ecpoint_save :: "'pt fourq \<Rightarrow> 'pt \<Rightarrow> byte list" where
  "ecpoint_save fq pt = fq_encode fq pt"

definition ecpoint_load :: "'pt fourq \<Rightarrow> byte list \<Rightarrow> 'pt res" where
  "ecpoint_load fq bytes =
     (case fq_decode fq bytes of None \<Rightarrow> Inl (Logic_error ''invalid point'') | Some pt \<Rightarrow> Inr pt)"

definition extract_hash :: "'pt fourq \<Rightarrow> 'pt \<Rightarrow> byte list" where
  "extract_hash fq pt = fq_blake2b fq hash_size (fq_y_bytes fq pt)"

text \<open>The first 16 bytes of the hash are the item hash, the next 16 the label key.\<close>

definition split_hash :: "byte list \<Rightarrow> item \<times> label_key" where
  "split_hash h = (take oprf_hash_size h, take label_key_byte_count (drop oprf_hash_size h))"

subsection \<open>The sender\<close>

text \<open>
  The indices of one task: from \<open>start_idx\<close> in steps of \<open>step\<close>; the steps are positive because there are
  as many tasks as the step says.
\<close>

function stripe :: "nat \<Rightarrow> nat \<Rightarrow> nat \<Rightarrow> nat list" where
  "stripe idx step count = (if idx < count \<and> 0 < step then idx # stripe (idx + step) step count else [])"
  by auto
termination by (relation "measure (\<lambda>(idx, step, count). count - idx)") auto

declare stripe.simps [simp del]

text \<open>The tasks, each writing its own cells, in the order in which their futures are awaited.\<close>

definition for_tasks :: "nat \<Rightarrow> nat \<Rightarrow> (nat \<Rightarrow> 's \<Rightarrow> 's res) \<Rightarrow> 's \<Rightarrow> 's res" where
  "for_tasks thread_count count body s =
     (let task_count = min thread_count count
      in fold_res (\<lambda>thread_idx. fold_res body (stripe thread_idx task_count count)) [0..<task_count] s)"

definition process_query :: "'pt fourq \<Rightarrow> byte list \<Rightarrow> scalar \<Rightarrow> nat \<Rightarrow> byte list \<Rightarrow> byte list res" where
  "process_query fq queries key idx responses =
     bind_res (ecpoint_load fq (take save_size (drop (idx * save_size) queries))) (\<lambda>ecpt.
       let (ok, ecpt') = scalar_multiply fq ecpt key True
       in if \<not> ok then Inl (Logic_error ''scalar multiplication failed due to invalid query data'')
          else Inr (take (idx * save_size) responses @ ecpoint_save fq ecpt' @ drop (idx * save_size + save_size) responses))"

definition process_queries :: "'pt fourq \<Rightarrow> nat \<Rightarrow> byte list \<Rightarrow> scalar \<Rightarrow> byte list res" where
  "process_queries fq thread_count queries key =
     (if length queries mod save_size \<noteq> 0 then Inl (Invalid_argument ''oprf_queries has invalid size'')
      else
        let query_count = length queries div save_size
        in for_tasks thread_count query_count (process_query fq queries key) (replicate (query_count * save_size) 0))"

definition get_item_hash :: "'pt fourq \<Rightarrow> item \<Rightarrow> scalar \<Rightarrow> item \<times> label_key" where
  "get_item_hash fq v key =
     (let (_, ecpt) = scalar_multiply fq (ecpoint_of_bytes fq v) key True
      in split_hash (extract_hash fq ecpt))"

definition compute_hashes :: "'pt fourq \<Rightarrow> nat \<Rightarrow> item list \<Rightarrow> scalar \<Rightarrow> item list res" where
  "compute_hashes fq thread_count items key =
     for_tasks thread_count (length items) (\<lambda>idx hashes.
       bind_res (span_get items idx) (\<lambda>v. vec_set hashes idx (fst (get_item_hash fq v key))))
       (replicate (length items) zero_item)"

definition compute_label_hashes ::
  "'pt fourq \<Rightarrow> xof \<Rightarrow> (nat \<Rightarrow> nat \<Rightarrow> byte list) \<Rightarrow> nat \<Rightarrow> (item \<times> label) list \<Rightarrow> scalar \<Rightarrow> nat \<Rightarrow> nat \<Rightarrow> (item \<times> byte list) list res" where
  "compute_label_hashes fq xb nonces thread_count item_labels key label_byte_count nonce_byte_count =
     (if nonce_byte_count > max_nonce_byte_count then Inl (Invalid_argument ''nonce_byte_count is too large'')
      else for_tasks thread_count (length item_labels) (\<lambda>idx hashes.
        bind_res (span_get item_labels idx) (\<lambda>(v, label).
          let (hashed_item, label_key) = get_item_hash fq v key
          in bind_res (encrypt_label xb (nonces idx) label label_key label_byte_count nonce_byte_count) (\<lambda>encrypted_label.
             vec_set hashes idx (hashed_item, encrypted_label))))
        (replicate (length item_labels) (zero_item, [])))"

subsection \<open>The receiver\<close>

record oprf_receiver =
  or_item_count :: nat
  or_queries :: "byte list"
  or_factor_data :: "byte list"

definition get_factor :: "oprf_receiver \<Rightarrow> nat \<Rightarrow> scalar res" where
  "get_factor r i =
     (if i \<ge> or_item_count r then Inl (Invalid_argument ''index out of bounds'')
      else Inr (take order_size (drop (i * order_size) (or_factor_data r))))"

text \<open>
  \<open>process_items\<close> fills the buffers of queries and factors from the front; the items left, and the
  parts filled so far. The result is \<open>None\<close> when a random scalar is never found.
\<close>

fun blind_items :: "'pt fourq \<Rightarrow> (nat \<Rightarrow> byte list) \<Rightarrow> item list \<Rightarrow> nat \<Rightarrow> byte list \<Rightarrow> byte list \<Rightarrow> (byte list \<times> byte list) option" where
  "blind_items fq rnd [] n queries factors = Some (queries, factors)"
| "blind_items fq rnd (v # vs) n queries factors =
     (case make_random_nonzero_scalar fq rnd n of
        None \<Rightarrow> None
      | Some (s, n') \<Rightarrow>
          let (_, ecpt) = scalar_multiply fq (ecpoint_of_bytes fq v) s False
          in blind_items fq rnd vs n' (queries @ ecpoint_save fq ecpt) (factors @ invert_scalar fq s))"

definition process_items :: "'pt fourq \<Rightarrow> (nat \<Rightarrow> byte list) \<Rightarrow> item list \<Rightarrow> oprf_receiver option" where
  "process_items fq rnd items =
     map_option (\<lambda>(queries, factors). \<lparr>or_item_count = length items, or_queries = queries, or_factor_data = factors\<rparr>)
       (blind_items fq rnd items 0 [] [])"

definition unblind :: "'pt fourq \<Rightarrow> oprf_receiver \<Rightarrow> byte list \<Rightarrow> nat \<Rightarrow> (item \<times> label_key) res" where
  "unblind fq r responses i =
     bind_res (ecpoint_load fq (take save_size (drop (i * save_size) responses))) (\<lambda>ecpt.
     bind_res (get_factor r i) (\<lambda>factor.
       let (_, ecpt') = scalar_multiply fq ecpt factor False
       in Inr (split_hash (extract_hash fq ecpt'))))"

text \<open>The hashes and keys are written to spans of the given sizes.\<close>

definition process_responses :: "'pt fourq \<Rightarrow> oprf_receiver \<Rightarrow> byte list \<Rightarrow> nat \<Rightarrow> nat \<Rightarrow> (item \<times> label_key) list res" where
  "process_responses fq r responses hash_count key_count =
     (if hash_count \<noteq> or_item_count r then Inl (Invalid_argument ''oprf_hashes has invalid size'')
      else if key_count \<noteq> or_item_count r then Inl (Invalid_argument ''label_keys has invalid size'')
      else if length responses \<noteq> or_item_count r * save_size then
        Inl (Invalid_argument ''oprf_responses size is incompatible with oprf_hashes size'')
      else map_res (unblind fq r responses) [0..<or_item_count r])"

end
