(* ===== verification/SenderDb.thy ===== *)
theory SenderDb
  imports BinBundle PsiParams Oprf
begin

text \<open>
  The sender's database (\<open>sender/apsi/sender_db.cpp\<close>): items are hashed, turned into field elements and
  stored, at each of their table locations, in consecutive bins of a bin bundle. Inserting, removing
  and reading are modelled with the worker tasks, the set of hashed items and the caches. The
  reader-writer lock makes the operations atomic, so it has no counterpart.
\<close>

subsection \<open>Libraries\<close>

text \<open>
  What the database calls outside of its sources: the hash functions of Kuku, the order in which a
  \<open>std::unordered_set\<close> is walked, the curve library, the stream cipher, the number of threads, the
  random table of the cuckoo filters, what is left in a vector that was moved from, and the result of
  an undefined shift in the decoding of labels.
\<close>

record 'pt db_library =
  dl_make_item :: "nat \<Rightarrow> nat \<Rightarrow> item"
  dl_location :: "nat \<Rightarrow> item \<Rightarrow> item \<Rightarrow> nat"
  dl_set_order :: "nat list \<Rightarrow> nat list"
  dl_fourq :: "'pt fourq"
  dl_xof :: xof
  dl_threads :: nat
  dl_table :: hash_table
  dl_moved_from :: "byte list \<Rightarrow> byte list"
  dl_undefined_shift :: "u32 \<Rightarrow> nat \<Rightarrow> u32"

subsection \<open>Locations and field elements\<close>

type_synonym loc_func = "nat \<times> item"

definition hash_functions :: "'pt db_library \<Rightarrow> psi_params \<Rightarrow> loc_func list" where
  "hash_functions lib pp =
     map (\<lambda>i. (tp_table_size (pp_table_params pp), dl_make_item lib i 0)) [0..<tp_hash_func_count (pp_table_params pp)]"

definition all_locations :: "'pt db_library \<Rightarrow> loc_func list \<Rightarrow> item \<Rightarrow> nat list" where
  "all_locations lib hash_funcs v = dl_set_order lib (map (\<lambda>(table_size, seed). dl_location lib table_size seed v) hash_funcs)"

definition compute_label_size :: "nat \<Rightarrow> psi_params \<Rightarrow> nat res" where
  "compute_label_size label_byte_count pp =
     (if pp_item_bit_count pp = 0 then Inl Div_by_zero
      else Inr ((label_byte_count * 8 + pp_item_bit_count pp - 1) div pp_item_bit_count pp))"

definition unpack_cuckoo_idx :: "nat \<Rightarrow> nat \<Rightarrow> (nat \<times> nat) res" where
  "unpack_cuckoo_idx cuckoo_idx bins_per_bundle =
     (if bins_per_bundle = 0 then Inl Div_by_zero
      else let bin_idx = cuckoo_idx mod bins_per_bundle;
               bundle_idx = (cuckoo_idx - bin_idx) div bins_per_bundle
           in Inr (bin_idx, bundle_idx))"

definition preprocess_labeled_data ::
  "'pt db_library \<Rightarrow> (item \<times> byte list) list \<Rightarrow> psi_params \<Rightarrow> (alg_item_label \<times> nat) list res" where
  "preprocess_labeled_data lib data pp =
     (let bins_per_item = ip_felts_per_item (pp_item_params pp); item_bit_count = pp_item_bit_count pp;
          hash_funcs = hash_functions lib pp
      in bind_res (map_res (\<lambda>(v, label).
           bind_res (algebraize_item_label v label item_bit_count (sp_plain_modulus (pp_seal_params pp))) (\<lambda>alg_item_label.
             Inr (map (\<lambda>location. (alg_item_label, location * bins_per_item)) (all_locations lib hash_funcs v)))) data)
         (\<lambda>xss. Inr (concat xss)))"

definition preprocess_unlabeled_data ::
  "'pt db_library \<Rightarrow> item list \<Rightarrow> psi_params \<Rightarrow> (alg_item \<times> nat) list res" where
  "preprocess_unlabeled_data lib data pp =
     (let bins_per_item = ip_felts_per_item (pp_item_params pp); item_bit_count = pp_item_bit_count pp;
          hash_funcs = hash_functions lib pp
      in bind_res (map_res (\<lambda>v.
           bind_res (algebraize_item v item_bit_count (sp_plain_modulus (pp_seal_params pp))) (\<lambda>alg_item.
             Inr (map (\<lambda>location. (alg_item, location * bins_per_item)) (all_locations lib hash_funcs v)))) data)
         (\<lambda>xss. Inr (concat xss)))"

subsection \<open>Workers\<close>

text \<open>
  The worker is a template over the data; \<open>ins\<close> and \<open>ovw\<close> are \<open>multi_insert\<close> and
  \<open>try_multi_overwrite\<close> at its type. The first argument of \<open>ins\<close> numbers the datum, so that every
  insertion has its own random evictions.
\<close>

type_synonym ('d, 'p) inserter = "nat \<Rightarrow> 'd \<Rightarrow> nat \<Rightarrow> bool \<Rightarrow> 'p bin_bundle \<Rightarrow> ('p bin_bundle \<times> int) res"
type_synonym ('d, 'p) overwriter = "'d \<Rightarrow> nat \<Rightarrow> 'p bin_bundle \<Rightarrow> ('p bin_bundle \<times> bool) res"

definition ins_items :: "hash_table \<Rightarrow> (nat \<Rightarrow> nat \<Rightarrow> nat \<Rightarrow> nat) \<Rightarrow> (felt list, 'p) inserter" where
  "ins_items ra rnd k d start dry_run b = multi_insert_items ra (rnd k) d start dry_run b"

definition ins_labels :: "hash_table \<Rightarrow> (nat \<Rightarrow> nat \<Rightarrow> nat \<Rightarrow> nat) \<Rightarrow> ((felt \<times> felt list) list, 'p) inserter" where
  "ins_labels ra rnd k d start dry_run b = multi_insert_labels ra (rnd k) d start dry_run b"

text \<open>The loop over the bundles of a set, the last one first; \<open>j\<close> bundles are left.\<close>

fun write_to_set ::
  "('d, 'p) inserter \<Rightarrow> ('d, 'p) overwriter \<Rightarrow> nat \<Rightarrow> bool \<Rightarrow> nat \<Rightarrow> 'd \<Rightarrow> nat \<Rightarrow> nat \<Rightarrow> 'p bin_bundle list \<Rightarrow>
   ('p bin_bundle list \<times> bool) res" where
  "write_to_set ins ovw max_bin_size overwrite k d bin_idx 0 bundle_set = Inr (bundle_set, False)"
| "write_to_set ins ovw max_bin_size overwrite k d bin_idx (Suc j) bundle_set =
     bind_res (vec_get bundle_set j) (\<lambda>b.
     bind_res (if overwrite then ovw d bin_idx b else Inr (b, False)) (\<lambda>(b1, written).
       if written then Inr (bundle_set[j := b1], True)
       else
         bind_res (ins k d bin_idx True b1) (\<lambda>(b2, new_largest_bin_size).
           if new_largest_bin_size > 0 \<and> nat new_largest_bin_size < max_bin_size then
             bind_res (ins k d bin_idx False b2) (\<lambda>(b3, _). Inr (bundle_set[j := b3], True))
           else write_to_set ins ovw max_bin_size overwrite k d bin_idx j (bundle_set[j := b2]))))"

text \<open>One datum; \<open>fresh\<close> is a new bundle.\<close>

definition insert_or_assign_one ::
  "('d, 'p) inserter \<Rightarrow> ('d, 'p) overwriter \<Rightarrow> 'p bin_bundle res \<Rightarrow> nat \<Rightarrow> nat \<Rightarrow> bool \<Rightarrow> nat \<Rightarrow> nat \<Rightarrow> 'd \<times> nat \<Rightarrow>
   'p bin_bundle list list \<Rightarrow> 'p bin_bundle list list res" where
  "insert_or_assign_one ins ovw fresh bins_per_bundle max_bin_size overwrite bundle_index k data_with_idx bin_bundles =
     (case data_with_idx of (d, cuckoo_idx) \<Rightarrow>
     bind_res (unpack_cuckoo_idx cuckoo_idx bins_per_bundle) (\<lambda>(bin_idx, bundle_idx).
       if bundle_idx \<noteq> bundle_index then Inr bin_bundles
       else
         bind_res (vec_get bin_bundles bundle_idx) (\<lambda>bundle_set.
         bind_res (write_to_set ins ovw max_bin_size overwrite k d bin_idx (length bundle_set) bundle_set) (\<lambda>(bundle_set', written).
           if overwrite \<and> \<not> written then Inl (Logic_error ''tried to overwrite non-existent item'')
           else if \<not> written then
             bind_res fresh (\<lambda>new_bin_bundle.
             bind_res (ins k d bin_idx False new_bin_bundle) (\<lambda>(new_bin_bundle', res).
               if res < 0 then Inl (Logic_error ''failed to insert item into a new BinBundle'')
               else Inr (bin_bundles[bundle_idx := bundle_set' @ [new_bin_bundle']])))
           else Inr (bin_bundles[bundle_idx := bundle_set'])))))"

fun insert_or_assign_worker ::
  "('d, 'p) inserter \<Rightarrow> ('d, 'p) overwriter \<Rightarrow> 'p bin_bundle res \<Rightarrow> nat \<Rightarrow> nat \<Rightarrow> bool \<Rightarrow> nat \<Rightarrow> nat \<Rightarrow> ('d \<times> nat) list \<Rightarrow>
   'p bin_bundle list list \<Rightarrow> 'p bin_bundle list list res" where
  "insert_or_assign_worker ins ovw fresh bins_per_bundle max_bin_size overwrite bundle_index k [] bin_bundles = Inr bin_bundles"
| "insert_or_assign_worker ins ovw fresh bins_per_bundle max_bin_size overwrite bundle_index k (d # ds) bin_bundles =
     bind_res (insert_or_assign_one ins ovw fresh bins_per_bundle max_bin_size overwrite bundle_index k d bin_bundles)
       (insert_or_assign_worker ins ovw fresh bins_per_bundle max_bin_size overwrite bundle_index (k + 1) ds)"

text \<open>The bundle indices of the data, as a sorted set.\<close>

definition bundle_indices :: "('d \<times> nat) list \<Rightarrow> nat \<Rightarrow> oset res" where
  "bundle_indices data_with_indices bins_per_bundle =
     fold_res (\<lambda>data_with_idx result.
       bind_res (unpack_cuckoo_idx (snd data_with_idx) bins_per_bundle) (\<lambda>(bin_idx, bundle_idx).
         Inr (insort_insert bundle_idx result))) data_with_indices []"

text \<open>
  Every worker task reads and writes the set of one bundle index; the tasks are run in the order in
  which their futures are awaited.
\<close>

definition dispatch_insert_or_assign ::
  "('d, 'p) inserter \<Rightarrow> ('d, 'p) overwriter \<Rightarrow> 'p bin_bundle res \<Rightarrow> ('d \<times> nat) list \<Rightarrow> nat \<Rightarrow> nat \<Rightarrow> bool \<Rightarrow>
   'p bin_bundle list list \<Rightarrow> 'p bin_bundle list list res" where
  "dispatch_insert_or_assign ins ovw fresh data_with_indices bins_per_bundle max_bin_size overwrite bin_bundles =
     bind_res (bundle_indices data_with_indices bins_per_bundle) (\<lambda>indices.
       fold_res (\<lambda>bundle_idx. insert_or_assign_worker ins ovw fresh bins_per_bundle max_bin_size overwrite
         (wrap32 bundle_idx) 0 data_with_indices) indices bin_bundles)"

text \<open>Removal: the first bundle that holds the field elements loses them, then empty bundles go.\<close>

fun remove_from_set ::
  "(felt list \<Rightarrow> nat \<Rightarrow> 'p bin_bundle \<Rightarrow> ('p bin_bundle \<times> bool) res) \<Rightarrow> felt list \<Rightarrow> nat \<Rightarrow> 'p bin_bundle list \<Rightarrow>
   ('p bin_bundle list \<times> bool) res" where
  "remove_from_set rem d bin_idx [] = Inr ([], False)"
| "remove_from_set rem d bin_idx (b # bs) =
     bind_res (rem d bin_idx b) (\<lambda>(b', removed).
       if removed then Inr (b' # bs, True)
       else bind_res (remove_from_set rem d bin_idx bs) (\<lambda>(bs', removed'). Inr (b' # bs', removed')))"

definition remove_one ::
  "(felt list \<Rightarrow> nat \<Rightarrow> 'p bin_bundle \<Rightarrow> ('p bin_bundle \<times> bool) res) \<Rightarrow> nat \<Rightarrow> nat \<Rightarrow> felt list \<times> nat \<Rightarrow>
   'p bin_bundle list list \<Rightarrow> 'p bin_bundle list list res" where
  "remove_one rem bins_per_bundle bundle_index data_with_idx bin_bundles =
     (case data_with_idx of (d, cuckoo_idx) \<Rightarrow>
     bind_res (unpack_cuckoo_idx cuckoo_idx bins_per_bundle) (\<lambda>(bin_idx, bundle_idx).
       if bundle_idx \<noteq> bundle_index then Inr bin_bundles
       else
         bind_res (vec_get bin_bundles bundle_idx) (\<lambda>bundle_set.
         bind_res (remove_from_set rem d bin_idx bundle_set) (\<lambda>(bundle_set', removed).
           let bin_bundles' = bin_bundles[bundle_idx := filter (\<lambda>b. \<not> bundle_empty b) bundle_set']
           in if \<not> removed then Inl (Logic_error ''failed to remove item'') else Inr bin_bundles'))))"

fun remove_worker ::
  "(nat \<Rightarrow> felt list \<Rightarrow> nat \<Rightarrow> 'p bin_bundle \<Rightarrow> ('p bin_bundle \<times> bool) res) \<Rightarrow> nat \<Rightarrow> nat \<Rightarrow> nat \<Rightarrow> (felt list \<times> nat) list \<Rightarrow>
   'p bin_bundle list list \<Rightarrow> 'p bin_bundle list list res" where
  "remove_worker rem bins_per_bundle bundle_index k [] bin_bundles = Inr bin_bundles"
| "remove_worker rem bins_per_bundle bundle_index k (d # ds) bin_bundles =
     bind_res (remove_one (rem k) bins_per_bundle bundle_index d bin_bundles)
       (remove_worker rem bins_per_bundle bundle_index (k + 1) ds)"

definition dispatch_remove ::
  "(nat \<Rightarrow> felt list \<Rightarrow> nat \<Rightarrow> 'p bin_bundle \<Rightarrow> ('p bin_bundle \<times> bool) res) \<Rightarrow> (felt list \<times> nat) list \<Rightarrow> nat \<Rightarrow>
   'p bin_bundle list list \<Rightarrow> 'p bin_bundle list list res" where
  "dispatch_remove rem data_with_indices bins_per_bundle bin_bundles =
     bind_res (bundle_indices data_with_indices bins_per_bundle) (\<lambda>indices.
       fold_res (\<lambda>bundle_idx. remove_worker rem bins_per_bundle (wrap32 bundle_idx) 0 data_with_indices) indices bin_bundles)"

definition collect_caches :: "'p bin_bundle list \<Rightarrow> 'p bundle_cache list res" where
  "collect_caches bin_bundles = map_res bundle_get_cache bin_bundles"

subsection \<open>The database\<close>

record 'p sender_db =
  db_hashed_items :: "item set"
  db_params :: psi_params
  db_label_byte_count :: nat
  db_nonce_byte_count :: nat
  db_item_count :: nat
  db_stripped :: bool
  db_bin_bundles :: "'p bin_bundle list list"
  db_oprf_key :: scalar

definition is_labeled :: "'p sender_db \<Rightarrow> bool" where
  "is_labeled db \<longleftrightarrow> db_label_byte_count db \<noteq> 0"

definition clear_internal :: "'p sender_db \<Rightarrow> 'p sender_db" where
  "clear_internal db = db\<lparr>db_hashed_items := {}, db_item_count := 0,
     db_bin_bundles := replicate (pp_bundle_idx_count (db_params db)) [], db_stripped := False\<rparr>"

definition db_clear :: "'p sender_db \<Rightarrow> 'p sender_db" where
  "db_clear db = clear_internal db"

text \<open>The constructor; the key is the one given, or the one that \<open>OPRFKey()\<close> draws.\<close>

definition make_sender_db :: "psi_params \<Rightarrow> scalar \<Rightarrow> nat \<Rightarrow> nat \<Rightarrow> 'p sender_db res" where
  "make_sender_db params oprf_key label_byte_count nonce_byte_count =
     (let nonce_byte_count' = (if label_byte_count \<noteq> 0 then nonce_byte_count else 0)
      in if label_byte_count > 1024 then Inl (Invalid_argument ''label_byte_count is too large'')
         else if nonce_byte_count' > max_nonce_byte_count then Inl (Invalid_argument ''nonce_byte_count is too large'')
         else Inr (db_clear \<lparr>db_hashed_items = {}, db_params = params, db_label_byte_count = label_byte_count,
           db_nonce_byte_count = nonce_byte_count', db_item_count = 0, db_stripped = False, db_bin_bundles = [],
           db_oprf_key = oprf_key\<rparr>))"

text \<open>
  Move construction: the new database takes everything over, the source gets a fresh key and is
  cleared. The result is the new database and what is left of the source.
\<close>

definition move_sender_db :: "scalar \<Rightarrow> 'p sender_db \<Rightarrow> 'p sender_db \<times> 'p sender_db" where
  "move_sender_db fresh_key source = (source, clear_internal (source\<lparr>db_oprf_key := fresh_key\<rparr>))"

definition get_bin_bundle_count_at :: "nat \<Rightarrow> 'p sender_db \<Rightarrow> nat res" where
  "get_bin_bundle_count_at bundle_idx db =
     (if bundle_idx < length (db_bin_bundles db) then Inr (length (db_bin_bundles db ! bundle_idx)) else Inl Out_of_range)"

definition get_bin_bundle_count :: "'p sender_db \<Rightarrow> nat" where
  "get_bin_bundle_count db = foldl (\<lambda>a b. wrap64 (a + length b)) 0 (db_bin_bundles db)"

definition generate_caches :: "('p, 'c) seal \<Rightarrow> 'p bin_bundle list list \<Rightarrow> 'p bin_bundle list list res" where
  "generate_caches se bin_bundles = map_res (map_res (regen_cache se)) bin_bundles"

definition get_cache_at :: "nat \<Rightarrow> 'p sender_db \<Rightarrow> 'p bundle_cache list res" where
  "get_cache_at bundle_idx db =
     (if bundle_idx < length (db_bin_bundles db) then collect_caches (db_bin_bundles db ! bundle_idx) else Inl Out_of_range)"

definition db_strip :: "('p, 'c) seal \<Rightarrow> 'p sender_db \<Rightarrow> ('p sender_db \<times> scalar) res" where
  "db_strip se db =
     bind_res (map_res (map_res (bundle_strip se)) (db_bin_bundles db)) (\<lambda>bin_bundles.
       Inr (db\<lparr>db_stripped := True, db_oprf_key := replicate order_size 0, db_hashed_items := {},
         db_bin_bundles := bin_bundles\<rparr>, db_oprf_key db))"

definition get_oprf_key :: "'p sender_db \<Rightarrow> scalar res" where
  "get_oprf_key db = (if db_stripped db then Inl (Logic_error ''failed to return OPRF key'') else Inr (db_oprf_key db))"

text \<open>
  \<open>std::remove_if\<close> with a predicate that updates the state \<open>'s\<close>, over the positions from \<open>i\<close>, \<open>n\<close> of them:
  an element that is kept is moved to position \<open>result\<close>, and what is left of it in its old place is
  \<open>moved\<close> of it. Elements in front of the first one to be removed stay where they are.
\<close>

fun remove_if :: "('a \<Rightarrow> 's \<Rightarrow> bool \<times> 's) \<Rightarrow> ('a \<Rightarrow> 'a) \<Rightarrow> nat \<Rightarrow> nat \<Rightarrow> nat \<Rightarrow> 'a list \<Rightarrow> 's \<Rightarrow> 'a list \<times> nat \<times> 's" where
  "remove_if pred moved i 0 result xs s = (xs, result, s)"
| "remove_if pred moved i (Suc n) result xs s =
     (case pred (xs ! i) s of (remove, s') \<Rightarrow>
        if remove then remove_if pred moved (i + 1) n result xs s'
        else if result = i then remove_if pred moved (i + 1) n (result + 1) xs s'
        else remove_if pred moved (i + 1) n (result + 1) (xs[result := xs ! i, i := moved (xs ! i)]) s')"

text \<open>The predicates: an item is looked up, and recorded as inserted or as removed.\<close>

definition found_or_insert :: "item \<Rightarrow> item set \<times> nat \<Rightarrow> bool \<times> (item set \<times> nat)" where
  "found_or_insert v s = (case s of (hashed, n) \<Rightarrow>
     if v \<in> hashed then (True, s) else (False, (insert v hashed, n + 1)))"

definition missing_or_erase :: "item \<Rightarrow> item set \<times> nat \<Rightarrow> bool \<times> (item set \<times> nat)" where
  "missing_or_erase v s = (case s of (hashed, n) \<Rightarrow>
     if v \<in> hashed then (False, (hashed - {v}, sub64 n 1)) else (True, s))"

definition fresh_bundle_for :: "'p sender_db \<Rightarrow> nat \<Rightarrow> 'p bin_bundle res" where
  "fresh_bundle_for db label_size =
     make_bundle True label_size (tp_max_items_per_bin (pp_table_params (db_params db)))
       (qp_ps_low_degree (pp_query_params (db_params db))) (pp_bins_per_bundle (db_params db)) False"

definition insert_or_assign_labeled ::
  "('p, 'c) seal \<Rightarrow> 'pt db_library \<Rightarrow> (nat \<Rightarrow> nat \<Rightarrow> byte list) \<Rightarrow> (nat \<Rightarrow> nat \<Rightarrow> nat \<Rightarrow> nat) \<Rightarrow> (nat \<Rightarrow> nat \<Rightarrow> nat \<Rightarrow> nat) \<Rightarrow>
   (item \<times> label) list \<Rightarrow> 'p sender_db \<Rightarrow> 'p sender_db res" where
  "insert_or_assign_labeled se lib nonces rnd_old rnd_new data db =
     (if db_stripped db then Inl (Logic_error ''failed to insert data'')
      else if \<not> is_labeled db then Inl (Logic_error ''failed to insert data'')
      else
        let pp = db_params db; ra = dl_table lib; max_bin_size = tp_max_items_per_bin (pp_table_params pp);
            ovw = try_multi_overwrite_labels ra
        in bind_res (compute_label_hashes (dl_fourq lib) (dl_xof lib) nonces (dl_threads lib) data (db_oprf_key db)
             (db_label_byte_count db) (db_nonce_byte_count db)) (\<lambda>hashed_data.
           let (hashed_data', new_data_end, hashed_items, item_count) =
                 remove_if (\<lambda>x. found_or_insert (fst x)) (\<lambda>(v, label). (v, dl_moved_from lib label)) 0 (length hashed_data) 0
                   hashed_data (db_hashed_items db, db_item_count db);
               new_item_count = new_data_end;
               existing_item_count = length hashed_data' - new_data_end
           in bind_res (compute_label_size (db_nonce_byte_count db + db_label_byte_count db) pp) (\<lambda>label_size.
              bind_res (if existing_item_count \<noteq> 0 then
                  bind_res (preprocess_labeled_data lib (drop new_data_end hashed_data') pp) (\<lambda>data_with_indices.
                    dispatch_insert_or_assign (ins_labels ra rnd_old) ovw (fresh_bundle_for db label_size) data_with_indices
                      (pp_bins_per_bundle pp) max_bin_size True (db_bin_bundles db))
                else Inr (db_bin_bundles db)) (\<lambda>bin_bundles1.
              let hashed_data'' = (if existing_item_count \<noteq> 0 then take new_data_end hashed_data' else hashed_data')
              in bind_res (if new_item_count \<noteq> 0 then
                  bind_res (preprocess_labeled_data lib hashed_data'' pp) (\<lambda>data_with_indices.
                    dispatch_insert_or_assign (ins_labels ra rnd_new) ovw (fresh_bundle_for db label_size) data_with_indices
                      (pp_bins_per_bundle pp) max_bin_size False bin_bundles1)
                else Inr bin_bundles1) (\<lambda>bin_bundles2.
              bind_res (generate_caches se bin_bundles2) (\<lambda>bin_bundles3.
                Inr (db\<lparr>db_hashed_items := hashed_items, db_item_count := item_count, db_bin_bundles := bin_bundles3\<rparr>)))))))"

definition insert_or_assign_unlabeled ::
  "('p, 'c) seal \<Rightarrow> 'pt db_library \<Rightarrow> (nat \<Rightarrow> nat \<Rightarrow> nat \<Rightarrow> nat) \<Rightarrow> item list \<Rightarrow> 'p sender_db \<Rightarrow> 'p sender_db res" where
  "insert_or_assign_unlabeled se lib rnd data db =
     (if db_stripped db then Inl (Logic_error ''failed to insert data'')
      else if is_labeled db then Inl (Logic_error ''failed to insert data'')
      else
        let pp = db_params db; ra = dl_table lib
        in bind_res (compute_hashes (dl_fourq lib) (dl_threads lib) data (db_oprf_key db)) (\<lambda>hashed_data.
           let (hashed_data', new_data_end, hashed_items, item_count) =
                 remove_if found_or_insert (\<lambda>v. v) 0 (length hashed_data) 0 hashed_data (db_hashed_items db, db_item_count db)
           in bind_res (preprocess_unlabeled_data lib (take new_data_end hashed_data') pp) (\<lambda>data_with_indices.
              bind_res (dispatch_insert_or_assign (ins_items ra rnd) (try_multi_overwrite_items ra) (fresh_bundle_for db 0)
                data_with_indices (pp_bins_per_bundle pp) (tp_max_items_per_bin (pp_table_params pp)) False (db_bin_bundles db)) (\<lambda>bin_bundles1.
              bind_res (generate_caches se bin_bundles1) (\<lambda>bin_bundles2.
                Inr (db\<lparr>db_hashed_items := hashed_items, db_item_count := item_count, db_bin_bundles := bin_bundles2\<rparr>))))))"

text \<open>
  Removal. The items that were not found stay behind the new end of the range, and all of the range is
  processed.
\<close>

definition db_remove ::
  "('p, 'c) seal \<Rightarrow> 'pt db_library \<Rightarrow> (nat \<Rightarrow> nat \<Rightarrow> nat \<Rightarrow> nat) \<Rightarrow> item list \<Rightarrow> 'p sender_db \<Rightarrow> 'p sender_db res" where
  "db_remove se lib rnd data db =
     (if db_stripped db then Inl (Logic_error ''failed to remove data'')
      else
        let pp = db_params db; ra = dl_table lib
        in bind_res (compute_hashes (dl_fourq lib) (dl_threads lib) data (db_oprf_key db)) (\<lambda>hashed_data.
           let (hashed_data', existing_data_end, hashed_items, item_count) =
                 remove_if missing_or_erase (\<lambda>v. v) 0 (length hashed_data) 0 hashed_data (db_hashed_items db, db_item_count db)
           in bind_res (preprocess_unlabeled_data lib hashed_data' pp) (\<lambda>data_with_indices.
              bind_res (dispatch_remove (\<lambda>k. try_multi_remove ra (rnd k)) data_with_indices (pp_bins_per_bundle pp)
                (db_bin_bundles db)) (\<lambda>bin_bundles1.
              bind_res (generate_caches se bin_bundles1) (\<lambda>bin_bundles2.
                Inr (db\<lparr>db_hashed_items := hashed_items, db_item_count := item_count, db_bin_bundles := bin_bundles2\<rparr>))))))"

definition set_data_labeled ::
  "('p, 'c) seal \<Rightarrow> 'pt db_library \<Rightarrow> (nat \<Rightarrow> nat \<Rightarrow> byte list) \<Rightarrow> (nat \<Rightarrow> nat \<Rightarrow> nat \<Rightarrow> nat) \<Rightarrow> (nat \<Rightarrow> nat \<Rightarrow> nat \<Rightarrow> nat) \<Rightarrow>
   (item \<times> label) list \<Rightarrow> 'p sender_db \<Rightarrow> 'p sender_db res" where
  "set_data_labeled se lib nonces rnd_old rnd_new data db =
     insert_or_assign_labeled se lib nonces rnd_old rnd_new data (db_clear db)"

definition set_data_unlabeled ::
  "('p, 'c) seal \<Rightarrow> 'pt db_library \<Rightarrow> (nat \<Rightarrow> nat \<Rightarrow> nat \<Rightarrow> nat) \<Rightarrow> item list \<Rightarrow> 'p sender_db \<Rightarrow> 'p sender_db res" where
  "set_data_unlabeled se lib rnd data db = insert_or_assign_unlabeled se lib rnd data (db_clear db)"

subsection \<open>Reading\<close>

definition has_item :: "'pt db_library \<Rightarrow> item \<Rightarrow> 'p sender_db \<Rightarrow> bool res" where
  "has_item lib v db =
     (if db_stripped db then Inl (Logic_error ''failed to retrieve the presence of item'')
      else bind_res (compute_hashes (dl_fourq lib) (dl_threads lib) [v] (db_oprf_key db)) (\<lambda>hashes.
           bind_res (vec_get hashes 0) (\<lambda>hashed_item. Inr (hashed_item \<in> db_hashed_items db))))"

fun label_from_set :: "hash_table \<Rightarrow> alg_item \<Rightarrow> nat \<Rightarrow> 'p bin_bundle list \<Rightarrow> felt list option res" where
  "label_from_set ra alg_item bin_idx [] = Inr None"
| "label_from_set ra alg_item bin_idx (b # bs) =
     bind_res (try_get_multi_label ra alg_item bin_idx b) (\<lambda>got. case got of
       Some alg_label \<Rightarrow> Inr (Some alg_label)
     | None \<Rightarrow> label_from_set ra alg_item bin_idx bs)"

definition resize_bytes :: "byte list \<Rightarrow> nat \<Rightarrow> byte list" where
  "resize_bytes bs n = take n bs @ replicate (n - length bs) 0"

definition get_label :: "'pt db_library \<Rightarrow> item \<Rightarrow> 'p sender_db \<Rightarrow> label res" where
  "get_label lib v db =
     (if db_stripped db then Inl (Logic_error ''failed to retrieve label'')
      else if \<not> is_labeled db then Inl (Logic_error ''failed to retrieve label'')
      else
        let pp = db_params db; (hashed_item, key) = get_item_hash (dl_fourq lib) v (db_oprf_key db)
        in if hashed_item \<notin> db_hashed_items db then Inl (Invalid_argument ''failed to retrieve label'')
           else
             bind_res (preprocess_unlabeled_data lib [hashed_item] pp) (\<lambda>data_with_indices.
             bind_res (vec_get data_with_indices 0) (\<lambda>(alg_item, cuckoo_idx).
             bind_res (unpack_cuckoo_idx cuckoo_idx (pp_bins_per_bundle pp)) (\<lambda>(bin_idx, bundle_idx).
             bind_res (vec_get (db_bin_bundles db) bundle_idx) (\<lambda>bundle_set.
             bind_res (label_from_set (dl_table lib) alg_item bin_idx bundle_set) (\<lambda>got. case got of
               None \<Rightarrow> Inl (Logic_error ''failed to retrieve label'')
             | Some alg_label \<Rightarrow>
                 bind_res (dealgebraize_label (dl_undefined_shift lib) alg_label
                   (length alg_label * pp_item_bit_count_per_felt pp) (sp_plain_modulus (pp_seal_params pp))) (\<lambda>encrypted_label.
                   decrypt_label (dl_xof lib)
                     (resize_bytes encrypted_label (db_nonce_byte_count db + db_label_byte_count db)) key (db_nonce_byte_count db))))))))"

end
