(* ===== verification/SenderQuery.thy ===== *)
theory SenderQuery
  imports SenderDb BundleCache PlaintextPowers
begin

text \<open>
  The sender's side of a query: the extraction and validation of a query request
  (\<open>sender/apsi/query.cpp\<close>) and its evaluation on the database (\<open>sender/apsi/sender.cpp\<close>).
\<close>

subsection \<open>Query requests\<close>

text \<open>
  SEAL objects in a request are loaded and checked by SEAL; \<open>'o\<close> and \<open>'k\<close> are the serialized
  ciphertexts and relinearization keys. The unordered map of exponents is an association list.
\<close>

record ('o, 'c, 'k) seal_io =
  io_extract :: "'o \<Rightarrow> 'c res"
  io_ciphertext_valid :: "'c \<Rightarrow> bool"
  io_extract_keys :: "'k \<Rightarrow> 'k res"
  io_keys_valid :: "'k \<Rightarrow> bool"
  io_no_keys :: 'k

record ('o, 'k) query_request =
  qr_compr_mode :: nat
  qr_relin_keys :: 'k
  qr_data :: "(nat \<times> 'o list) list"

record ('c, 'k) query =
  qu_relin_keys :: 'k
  qu_data :: "(nat \<times> 'c list) list"
  qu_pd :: powers_dag
  qu_valid :: bool
  qu_compr_mode :: nat

text \<open>The ciphertexts of one exponent, until one is invalid.\<close>

fun extract_ciphertexts :: "('o, 'c, 'k) seal_io \<Rightarrow> 'o list \<Rightarrow> 'c list option res" where
  "extract_ciphertexts io [] = Inr (Some [])"
| "extract_ciphertexts io (ct # cts) =
     bind_res (io_extract io ct) (\<lambda>c.
       if \<not> io_ciphertext_valid io c then Inr None
       else bind_res (extract_ciphertexts io cts) (\<lambda>rest. Inr (map_option ((#) c) rest)))"

text \<open>The whole data; the flag says whether all of it was valid.\<close>

fun extract_data :: "('o, 'c, 'k) seal_io \<Rightarrow> (nat \<times> 'o list) list \<Rightarrow> (nat \<times> 'c list) list \<Rightarrow> ((nat \<times> 'c list) list \<times> bool) res" where
  "extract_data io [] data = Inr (data, True)"
| "extract_data io ((e, cts) # q) data =
     bind_res (extract_ciphertexts io cts) (\<lambda>got. case got of
       None \<Rightarrow> Inr (data, False)
     | Some cs \<Rightarrow> extract_data io q (AList.update e cs data))"

fun check_query_data :: "nat \<Rightarrow> oset \<Rightarrow> (nat \<times> 'c list) list \<Rightarrow> bool" where
  "check_query_data bundle_idx_count query_powers [] = True"
| "check_query_data bundle_idx_count query_powers ((e, cs) # data) =
     (if length cs \<noteq> bundle_idx_count then False
      else if e \<notin> set query_powers then False
      else check_query_data bundle_idx_count query_powers data)"

text \<open>The plan of the powers, and the check of the data against it; \<open>None\<close> when the plan is never made.\<close>

definition plan_query :: "psi_params \<Rightarrow> ('c, 'k) query \<Rightarrow> ('c, 'k) query res option" where
  "plan_query pp q =
     map_option (\<lambda>targets. bind_res targets (\<lambda>target_powers.
       let query_powers = qp_query_powers (pp_query_params pp)
       in bind_res (pd_configure empty_dag query_powers target_powers) (\<lambda>(pd, _).
          let q1 = q\<lparr>qu_pd := pd\<rparr>
          in if \<not> pd_configured pd then Inr q1
             else if length (qu_data q1) \<noteq> length query_powers then Inr q1
             else if \<not> check_query_data (pp_bundle_idx_count pp) query_powers (qu_data q1) then Inr q1
             else Inr (q1\<lparr>qu_valid := True\<rparr>))))
       (create_powers_set (qp_ps_low_degree (pp_query_params pp)) (tp_max_items_per_bin (pp_table_params pp)))"

definition extract_query ::
  "('o, 'c, 'k) seal_io \<Rightarrow> psi_params \<Rightarrow> ('o, 'k) query_request \<Rightarrow> ('c, 'k) query \<Rightarrow> ('c, 'k) query res option" where
  "extract_query io pp req q =
     (case extract_data io (qr_data req) [] of
        Inl e \<Rightarrow> Some (Inl e)
      | Inr (data, ok) \<Rightarrow> if ok then plan_query pp (q\<lparr>qu_data := data\<rparr>) else Some (Inr (q\<lparr>qu_data := data\<rparr>)))"

text \<open>The constructor; a null pointer is \<open>None\<close>, and of the database only its parameters are read.\<close>

definition make_query ::
  "('o, 'c, 'k) seal_io \<Rightarrow> bool \<Rightarrow> ('o, 'k) query_request option \<Rightarrow> psi_params option \<Rightarrow> ('c, 'k) query res option" where
  "make_query io using_keyswitching query_request sender_db =
     (case sender_db of
        None \<Rightarrow> Some (Inl (Invalid_argument ''sender_db cannot be null''))
      | Some pp \<Rightarrow>
     (case query_request of
        None \<Rightarrow> Some (Inl (Invalid_argument ''query_request cannot be null''))
      | Some req \<Rightarrow>
        let q = \<lparr>qu_relin_keys = io_no_keys io, qu_data = [], qu_pd = empty_dag, qu_valid = False,
              qu_compr_mode = qr_compr_mode req\<rparr>
        in if using_keyswitching then
             (case io_extract_keys io (qr_relin_keys req) of
                Inl e \<Rightarrow> Some (Inl e)
              | Inr keys \<Rightarrow>
                  if \<not> io_keys_valid io keys then Some (Inr (q\<lparr>qu_relin_keys := keys\<rparr>))
                  else extract_query io pp req (q\<lparr>qu_relin_keys := keys\<rparr>))
           else extract_query io pp req q))"

text \<open>The copy starts from a default query: its plan is empty and it is not valid.\<close>

definition deep_copy :: "'k \<Rightarrow> ('c, 'k) query \<Rightarrow> ('c, 'k) query" where
  "deep_copy no_keys q = \<lparr>qu_relin_keys = qu_relin_keys q, qu_data = qu_data q, qu_pd = empty_dag, qu_valid = False,
     qu_compr_mode = qu_compr_mode q\<rparr>"

subsection \<open>The powers of a query\<close>

definition init_powers :: "('p, 'c) seal \<Rightarrow> psi_params \<Rightarrow> 'c list list" where
  "init_powers se pp = replicate (pp_bundle_idx_count pp)
     (replicate (tp_max_items_per_bin (pp_table_params pp) + 1) (se_fresh_ciphertext se))"

definition load_exponent :: "nat \<times> 'c list \<Rightarrow> 'c list list \<Rightarrow> 'c list list res" where
  "load_exponent q all_powers =
     (case q of (exponent, cts) \<Rightarrow>
       fold_res (\<lambda>bundle_idx ps. bind_res (vec_get cts bundle_idx) (\<lambda>c.
         bind_res (vec_get ps bundle_idx) (\<lambda>powers.
         bind_res (vec_set powers exponent c) (\<lambda>powers'. vec_set ps bundle_idx powers')))) [0..<length all_powers] all_powers)"

definition load_powers :: "(nat \<times> 'c list) list \<Rightarrow> 'c list list \<Rightarrow> 'c list list res" where
  "load_powers data all_powers = fold_res load_exponent data all_powers"

text \<open>The call for one node of the plan.\<close>

definition multiply_node :: "('p, 'c) seal \<Rightarrow> powers_node \<Rightarrow> 'c list \<Rightarrow> 'c list res" where
  "multiply_node se node powers =
     (if is_source node then Inr powers
      else let (p1, p2) = pn_parents node
        in bind_res (if p1 = p2 then bind_res (vec_get powers p1) (se_square se)
             else bind_res (vec_get powers p1) (\<lambda>c1. bind_res (vec_get powers p2) (se_multiply se c1))) (\<lambda>prod.
           bind_res (if se_using_keyswitching se then se_relinearize se prod else Inr prod) (\<lambda>prod'.
             vec_set powers (pn_power node) prod')))"

text \<open>
  \<open>parallel_apply\<close> makes these calls in an order that respects the plan; the order in which they end is an
  argument here.
\<close>

definition multiply_nodes :: "('p, 'c) seal \<Rightarrow> powers_dag \<Rightarrow> nat list \<Rightarrow> 'c list \<Rightarrow> 'c list res" where
  "multiply_nodes se pd order powers =
     (if \<not> pd_configured pd then Inl (Logic_error ''PowersDag has not been configured'')
      else fold_res (\<lambda>p ps. bind_res (node_at (pd_nodes pd) p) (\<lambda>node. multiply_node se node ps)) order powers)"

text \<open>The task that brings one power to the level and form that the evaluation needs.\<close>

definition switch_power :: "('p, 'c) seal \<Rightarrow> nat \<Rightarrow> nat \<Rightarrow> 'c list \<Rightarrow> 'c list res" where
  "switch_power se ps_low_degree p powers =
     (let high = get_parms_id_for_chain_idx se 1; low = get_parms_id_for_chain_idx se 2
      in bind_res (vec_get powers p) (\<lambda>c.
         bind_res (if ps_low_degree = 0 then bind_res (se_mod_switch_to se c high) (se_to_ntt se)
           else if p \<le> ps_low_degree then bind_res (se_mod_switch_to se c low) (se_to_ntt se)
           else se_mod_switch_to se c high) (\<lambda>c'. vec_set powers p c')))"

definition compute_powers ::
  "('p, 'c) seal \<Rightarrow> 'p sender_db \<Rightarrow> powers_dag \<Rightarrow> nat list \<Rightarrow> nat \<Rightarrow> 'c list list \<Rightarrow> 'c list list res" where
  "compute_powers se db pd order bundle_idx all_powers =
     bind_res (get_cache_at bundle_idx db) (\<lambda>bundle_caches.
       if bundle_caches = [] then Inr all_powers
       else
         bind_res (vec_get all_powers bundle_idx) (\<lambda>powers.
         bind_res (multiply_nodes se pd order powers) (\<lambda>powers1.
         bind_res (dag_target_powers pd) (\<lambda>targets.
         bind_res (fold_res (switch_power se (qp_ps_low_degree (pp_query_params (db_params db)))) targets powers1)
           (\<lambda>powers2. vec_set all_powers bundle_idx powers2)))))"

subsection \<open>Evaluation\<close>

record 'c result_package =
  rp_bundle_idx :: nat
  rp_compr_mode :: nat
  rp_psi_result :: 'c
  rp_label_byte_count :: nat
  rp_nonce_byte_count :: nat
  rp_label_result :: "'c list"

definition process_bin_bundle_cache ::
  "('p, 'c) seal \<Rightarrow> 'p sender_db \<Rightarrow> 'c list list \<Rightarrow> nat \<Rightarrow> nat \<Rightarrow> 'p bundle_cache \<Rightarrow> 'c result_package res" where
  "process_bin_bundle_cache se db all_powers bundle_idx compr_mode cache =
     bind_res (safe_cast_u32 (db_nonce_byte_count db)) (\<lambda>nonce_byte_count.
     bind_res (safe_cast_u32 (db_label_byte_count db)) (\<lambda>label_byte_count.
     bind_res (vec_get all_powers bundle_idx) (\<lambda>powers.
       let ps_low_degree = qp_ps_low_degree (pp_query_params (db_params db))
       in bind_res (eval_batched se (bc_batched_matching_polyn cache) powers ps_low_degree) (\<lambda>psi_result.
          bind_res (map_res (\<lambda>interp_polyn. eval_batched se interp_polyn powers ps_low_degree) (bc_batched_interp_polyns cache))
            (\<lambda>label_result.
              Inr \<lparr>rp_bundle_idx = bundle_idx, rp_compr_mode = compr_mode, rp_psi_result = psi_result,
                rp_label_byte_count = label_byte_count, rp_nonce_byte_count = nonce_byte_count,
                rp_label_result = label_result\<rparr>)))))"

text \<open>
  The query response that was sent, which is the number of result parts, and the parts in the order of the
  tasks, or the exception; every task sends its part when it is ready. The orders of the nodes are given
  for each bundle index.
\<close>

definition run_query ::
  "('p, 'c) seal \<Rightarrow> 'p sender_db \<Rightarrow> ('c, 'k) query \<Rightarrow> (nat \<Rightarrow> nat list) \<Rightarrow> nat option \<times> 'c result_package list res" where
  "run_query se db q orders =
     (if \<not> qu_valid q then (None, Inl (Invalid_argument ''query is invalid''))
      else
        let pp = db_params db; bundle_idx_count = pp_bundle_idx_count pp
        in case safe_cast_u32 (get_bin_bundle_count db) of
             Inl e \<Rightarrow> (None, Inl e)
           | Inr package_count \<Rightarrow> (Some package_count,
               bind_res (load_powers (qu_data q) (init_powers se pp)) (\<lambda>loaded.
               bind_res (fold_res (\<lambda>bundle_idx. compute_powers se db (qu_pd q) (orders bundle_idx) (wrap32 bundle_idx))
                 [0..<bundle_idx_count] loaded) (\<lambda>all_powers.
               bind_res (map_res (\<lambda>bundle_idx. bind_res (get_cache_at (wrap32 bundle_idx) db)
                   (map_res (process_bin_bundle_cache se db all_powers (wrap32 bundle_idx) (qu_compr_mode q))))
                 [0..<bundle_idx_count]) (\<lambda>parts. Inr (concat parts))))))"

text \<open>The other two requests. A failed OPRF request is not answered.\<close>

definition run_params :: "bool \<Rightarrow> 'p sender_db option \<Rightarrow> psi_params res" where
  "run_params request_valid sender_db =
     (if \<not> request_valid then Inl (Invalid_argument ''request is invalid'')
      else case sender_db of
        None \<Rightarrow> Inl (Logic_error ''SenderDB is not set'')
      | Some db \<Rightarrow> Inr (db_params db))"

definition run_oprf :: "'pt fourq \<Rightarrow> nat \<Rightarrow> byte list option \<Rightarrow> scalar \<Rightarrow> byte list option res" where
  "run_oprf fq thread_count oprf_request key =
     (case oprf_request of
        None \<Rightarrow> Inl (Invalid_argument ''request is invalid'')
      | Some data \<Rightarrow>
          (case process_queries fq thread_count data key of
             Inl e \<Rightarrow> Inr None
           | Inr response \<Rightarrow> Inr (Some response)))"

end
