(* ===== verification/SenderDbSpec.thy ===== *)
theory SenderDbSpec
  imports SenderDb BundleCache
begin

text \<open>
  The workers of the sender's database: where an item goes, what one worker does to the set of its
  bundle index, and that the tasks for different bundle indices may run in any order. Over the
  bundles of a set the content of a bin is a multiset of rows, and an insertion adds one row to each of
  the bins of the item.
\<close>

subsection \<open>Geometry of the table\<close>

lemma unpack_location:
  assumes ok: "psi_params_ok pp" and loc: "location < tp_table_size (pp_table_params pp)"
  shows "unpack_cuckoo_idx (location * ip_felts_per_item (pp_item_params pp)) (pp_bins_per_bundle pp) =
      Inr (location mod pp_items_per_bundle pp * ip_felts_per_item (pp_item_params pp), location div pp_items_per_bundle pp)"
    and "location mod pp_items_per_bundle pp * ip_felts_per_item (pp_item_params pp) + ip_felts_per_item (pp_item_params pp)
      \<le> pp_bins_per_bundle pp"
    and "location div pp_items_per_bundle pp < pp_bundle_idx_count pp"
proof -
  let ?f = "ip_felts_per_item (pp_item_params pp)" and ?n = "pp_items_per_bundle pp"
  have p: "2 \<le> ?f" "0 < ?n" "pp_bins_per_bundle pp = ?n * ?f" "pp_bundle_idx_count pp * ?n = tp_table_size (pp_table_params pp)"
    using ok by (simp_all add: psi_params_ok_def Let_def)
  have m: "location * ?f mod (?n * ?f) = location mod ?n * ?f" by (rule mult_mod_left [symmetric])
  have "location * ?f - location mod ?n * ?f = location div ?n * ?n * ?f"
    by (metis diff_mult_distrib minus_mod_eq_div_mult)
  then have d: "(location * ?f - location mod ?n * ?f) div (?n * ?f) = location div ?n"
    using p by (simp add: mult.assoc)
  show "unpack_cuckoo_idx (location * ?f) (pp_bins_per_bundle pp) = Inr (location mod ?n * ?f, location div ?n)"
    using p(1,2) unfolding unpack_cuckoo_idx_def Let_def p(3) m d by simp
  have "Suc (location mod ?n) * ?f \<le> ?n * ?f" using p by (intro mult_le_mono1) (simp add: Suc_leI)
  then show "location mod ?n * ?f + ?f \<le> pp_bins_per_bundle pp" using p(3) by simp
  show "location div ?n < pp_bundle_idx_count pp"
    using loc p by (metis less_mult_imp_div_less)
qed

subsection \<open>Label size\<close>

lemma ceil_ceil:
  assumes "0 < b" "0 < (f :: nat)"
  shows "((x + b - 1) div b + f - 1) div f = (x + b * f - 1) div (b * f)"
proof -
  obtain g where g: "f = Suc g" using assms(2) by (cases f) auto
  have "y div b + f - 1 = (y + g * b) div b" for y using assms(1) by (simp add: g)
  from this [of "x + b - 1"] have "((x + b - 1) div b + f - 1) div f = (x + b - 1 + g * b) div (b * f)" by (simp add: div_mult2_eq)
  also have "x + b - 1 + g * b = x + b * f - 1" using assms(1) by (simp add: g algebra_simps)
  finally show ?thesis .
qed

subsection \<open>Bundles that accept insertions\<close>

text \<open>
  Less than well-formed: the filters are consistent in themselves, but may have lost entries. It is
  all that insertion needs.
\<close>

definition bundle_sane :: "hash_table \<Rightarrow> 'p bin_bundle \<Rightarrow> bool" where
  "bundle_sane ra b \<longleftrightarrow> bundle_shape b \<and> (\<forall>i < bb_num_bins b. filter_inv ra (bb_filters b ! i))"

lemma wf_sane: "bundle_wf ra b \<Longrightarrow> bundle_sane ra b"
  using wf_filters by (auto simp: bundle_sane_def bundle_wf_def)

lemma insert_rows_sane:
  assumes sane: "bundle_sane ra b" and room: "start + length items \<le> bb_num_bins b" and "items \<noteq> []" "small_bins b"
    and lab: "\<forall>x \<in> set items. length (snd x) = bb_label_size b"
  shows "\<exists>b'. bind_res (insert_item_labels ra rnd dry items start 0 b) (\<lambda>(b', m). bind_res (safe_cast_i32 m) (\<lambda>n. Inr (b', n))) =
      Inr (b', int (largest (bundle_rows b) start (length items))) \<and>
    (if dry then b' = b else bb_cache_invalid b' \<and> same_frame b b' \<and> bundle_sane ra b' \<and>
       bundle_rows b' = rows_update (\<lambda>k rows. rows @ [items ! k]) start (length items) (bundle_rows b))"
proof -
  have shape: "bundle_shape b" and inv: "\<forall>i < bb_num_bins b. filter_inv ra (bb_filters b ! i)"
    using sane by (simp_all add: bundle_sane_def)
  have n: "length items \<noteq> 0" using assms(3) by simp
  have cast: "safe_cast_i32 (largest_bin b start (length items) 0) = Inr (int (largest (bundle_rows b) start (length items)))"
    using largest_bin_largest [OF n room] largest_small [OF n small_rows [OF assms(4)]]
    by (simp add: safe_cast_i32_def)
  show ?thesis
  proof (cases dry)
    case True
    then show ?thesis using dry_run_insert [OF shape room, of ra rnd 0] cast by simp
  next
    case False
    obtain b' where b': "insert_item_labels ra rnd False items start 0 b = Inr (b', largest_bin b start (length items) 0)"
      "bins_pass ra not_full start (length items) (\<lambda>i. bin_rows b i @ [items ! (i - start)]) b b'"
      using insert_pass [OF shape room inv lab] by blast
    have "bundle_rows b' = rows_update (\<lambda>k rows. rows @ [items ! k]) start (length items) (bundle_rows b)"
      using b'(2) room by (rule bins_pass_rows)
    moreover have "bundle_sane ra b'"
      using b'(2) inv by (auto simp: bundle_sane_def bins_pass_def same_frame_def)
    ultimately show ?thesis using False b' cast n by (auto simp: bins_pass_def)
  qed
qed


subsection \<open>Insertion as a contract\<close>

text \<open>
  What a worker needs of the insertion at its type of data: the rows of a datum, and that an insertion
  is refused or adds one row to every bin of the datum; the dry run says which, and a fresh bundle never
  refuses.
\<close>

definition insert_accepted :: "hash_table \<Rightarrow> row list \<Rightarrow> nat \<Rightarrow> 'p bin_bundle \<Rightarrow> 'p bin_bundle \<Rightarrow> bool" where
  "insert_accepted ra rows start b b' \<longleftrightarrow> bb_cache_invalid b' \<and> same_frame b b' \<and> bundle_sane ra b' \<and>
     bundle_rows b' = rows_update (\<lambda>k rs. rs @ [rows ! k]) start (length rows) (bundle_rows b)"

definition rows_fit :: "nat \<Rightarrow> row list \<Rightarrow> bool" where
  "rows_fit label_size rows \<longleftrightarrow> rows \<noteq> [] \<and> (\<forall>r \<in> set rows. length (snd r) = label_size)"

locale bundle_data =
  fixes ra :: hash_table and ins :: "('d, 'p) inserter" and rows_of :: "'d \<Rightarrow> row list" and width :: "nat \<Rightarrow> bool"
  assumes insert_law: "\<And>b d start. bundle_sane ra b \<Longrightarrow> small_bins b \<Longrightarrow> width (bb_label_size b) \<Longrightarrow>
    rows_fit (bb_label_size b) (rows_of d) \<Longrightarrow> start + length (rows_of d) \<le> bb_num_bins b \<Longrightarrow>
    \<exists>refuse. (\<forall>k. ins k d start True b =
        Inr (b, if refuse then -1 else int (largest (bundle_rows b) start (length (rows_of d))))) \<and>
      (\<not> refuse \<longrightarrow> (\<forall>k. \<exists>b'. ins k d start False b = Inr (b', int (largest (bundle_rows b) start (length (rows_of d)))) \<and>
        insert_accepted ra (rows_of d) start b b')) \<and>
      ((\<forall>j < length (rows_of d). bundle_rows b (start + j) = []) \<longrightarrow> \<not> refuse)"

text \<open>The unlabeled data: every field element is a row with an empty label.\<close>

definition item_rows :: "felt list \<Rightarrow> row list" where
  "item_rows d = map (\<lambda>x. (x, [])) d"

lemma ins_items_law:
  assumes "bundle_sane ra b" "small_bins b" "bb_label_size b = 0" "rows_fit (bb_label_size b) (item_rows d)"
    "start + length (item_rows d) \<le> bb_num_bins b"
  shows "\<exists>b'. ins_items ra rnd k d start dry b = Inr (b', int (largest (bundle_rows b) start (length (item_rows d)))) \<and>
    (if dry then b' = b else insert_accepted ra (item_rows d) start b b')"
proof -
  have d: "d \<noteq> []" "item_rows d \<noteq> []" using assms(4) by (auto simp: rows_fit_def item_rows_def)
  have "\<not> no_room b start (length d)"
    using assms(5) d(1) by (auto simp: no_room_def item_rows_def neq_Nil_conv)
  then have "ins_items ra rnd k d start dry b =
      bind_res (insert_item_labels ra (rnd k) dry (item_rows d) start 0 b) (\<lambda>(b', m). bind_res (safe_cast_i32 m) (\<lambda>n. Inr (b', n)))"
    using assms(1,3) d insert_items_labels [OF assms(3)]
    by (simp add: ins_items_def multi_insert_items_def bundle_sane_def bundle_shape_def item_rows_def)
  then show ?thesis
    using insert_rows_sane [OF assms(1,5) d(2) assms(2), of "rnd k" dry] assms(4)
    by (auto simp: rows_fit_def insert_accepted_def)
qed

interpretation item_data: bundle_data ra "ins_items ra rnd" item_rows "\<lambda>n. n = 0"
proof unfold_locales
  fix b :: "'c bin_bundle" and d start
  assume a: "bundle_sane ra b" "small_bins b" "bb_label_size b = 0" "rows_fit (bb_label_size b) (item_rows d)"
    "start + length (item_rows d) \<le> bb_num_bins b"
  show "\<exists>refuse. (\<forall>k. ins_items ra rnd k d start True b =
        Inr (b, if refuse then -1 else int (largest (bundle_rows b) start (length (item_rows d))))) \<and>
      (\<not> refuse \<longrightarrow> (\<forall>k. \<exists>b'. ins_items ra rnd k d start False b = Inr (b', int (largest (bundle_rows b) start (length (item_rows d)))) \<and>
        insert_accepted ra (item_rows d) start b b')) \<and>
      ((\<forall>j < length (item_rows d). bundle_rows b (start + j) = []) \<longrightarrow> \<not> refuse)"
  proof (intro exI [of _ False] conjI impI allI)
    fix k
    show "ins_items ra rnd k d start True b =
        Inr (b, if False then -1 else int (largest (bundle_rows b) start (length (item_rows d))))"
      using ins_items_law [OF a, of rnd k True] by auto
    show "\<exists>b'. ins_items ra rnd k d start False b = Inr (b', int (largest (bundle_rows b) start (length (item_rows d)))) \<and>
        insert_accepted ra (item_rows d) start b b'"
      using ins_items_law [OF a, of rnd k False] by simp
  qed simp
qed

text \<open>The labeled data: the absence check may refuse, but not when the bins are empty.\<close>

lemma all_absent_total:
  assumes "bundle_sane ra b" "start + length xs \<le> bb_num_bins b"
  shows "\<exists>absent. all_absent ra b xs start = Inr absent \<and>
    ((\<forall>j < length xs. bundle_rows b (start + j) = []) \<longrightarrow> absent)"
  using assms(2)
proof (induction xs arbitrary: start)
  case Nil
  then show ?case by (intro exI [of _ True]) simp
next
  case (Cons x xs)
  have i: "start < bb_num_bins b" using Cons.prems by simp
  have lens: "length (bb_item_bins b) = bb_num_bins b" "length (bb_filters b) = bb_num_bins b"
    and inv: "filter_inv ra (bb_filters b ! start)"
    using assms(1) i by (simp_all add: bundle_sane_def bundle_shape_def)
  obtain maybe where maybe: "filter_contains ra (bb_filters b ! start) [x] = Inr maybe"
    using cuckoo.contains_law [OF inv] by blast
  let ?bin = "bb_item_bins b ! start"
  have pres: "is_present ra ?bin (bb_filters b ! start) x = Inr (maybe \<and> x \<in> set ?bin)"
    using maybe by (simp add: is_present_def)
  obtain absent where absent: "all_absent ra b xs (start + 1) = Inr absent"
    "(\<forall>j < length xs. bundle_rows b (start + 1 + j) = []) \<longrightarrow> absent"
    using Cons.IH [of "start + 1"] Cons.prems by auto
  show ?case
  proof (cases "maybe \<and> x \<in> set ?bin")
    case True
    then have "bundle_rows b start \<noteq> []" using i bin_rows_fst [of b start] by (auto simp: bundle_rows_def)
    then show ?thesis using True pres lens i by (intro exI [of _ False]) (auto intro: exI [of _ 0])
  next
    case False
    then have "is_present ra ?bin (bb_filters b ! start) x = Inr False" using pres by simp
    then have "all_absent ra b (x # xs) start = Inr absent" using lens i absent(1) by simp
    moreover have "(\<forall>j < length (x # xs). bundle_rows b (start + j) = []) \<longrightarrow> absent"
      using absent(2) by (auto simp: All_less_Suc2)
    ultimately show ?thesis by blast
  qed
qed

lemma ins_labels_law:
  assumes "bundle_sane ra b" "small_bins b" "bb_label_size b \<noteq> 0" "rows_fit (bb_label_size b) d"
    "start + length d \<le> bb_num_bins b"
  shows "\<exists>absent. all_absent ra b (map fst d) start = Inr absent \<and>
    ((\<forall>j < length d. bundle_rows b (start + j) = []) \<longrightarrow> absent) \<and>
    (\<forall>k dry. \<exists>b'. ins_labels ra rnd k d start dry b =
      Inr (if absent then (b', int (largest (bundle_rows b) start (length d))) else (b, -1)) \<and>
      (if dry then b' = b else insert_accepted ra d start b b'))"
proof -
  have d: "d \<noteq> []" "\<forall>r \<in> set d. length (snd r) = bb_label_size b" using assms(4) by (simp_all add: rows_fit_def)
  have room: "\<not> no_room b start (length d)" using assms(5) d(1) by (auto simp: no_room_def neq_Nil_conv)
  obtain absent where absent: "all_absent ra b (map fst d) start = Inr absent"
    "(\<forall>j < length d. bundle_rows b (start + j) = []) \<longrightarrow> absent"
    using all_absent_total [OF assms(1), of start "map fst d"] assms(5) by auto
  have eq: "ins_labels ra rnd k d start dry b =
      (if absent then bind_res (insert_item_labels ra (rnd k) dry d start 0 b) (\<lambda>(b', m). bind_res (safe_cast_i32 m) (\<lambda>n. Inr (b', n)))
       else Inr (b, -1))" for k dry
    using assms(1,3) d room absent(1) by (auto simp: ins_labels_def multi_insert_labels_def bundle_sane_def bundle_shape_def)
  have "\<exists>b'. ins_labels ra rnd k d start dry b =
      Inr (if absent then (b', int (largest (bundle_rows b) start (length d))) else (b, -1)) \<and>
      (if dry then b' = b else insert_accepted ra d start b b')" for k dry
    using insert_rows_sane [OF assms(1,5) d(1) assms(2) d(2), of "rnd k" dry] unfolding eq insert_accepted_def
    by (elim exE conjE) (intro exI conjI, auto)
  then show ?thesis using absent by blast
qed

interpretation label_data: bundle_data ra "ins_labels ra rnd" "\<lambda>d. d" "\<lambda>n. n \<noteq> 0"
proof unfold_locales
  fix b :: "'c bin_bundle" and d start
  assume a: "bundle_sane ra b" "small_bins b" "bb_label_size b \<noteq> 0" "rows_fit (bb_label_size b) d"
    "start + length d \<le> bb_num_bins b"
  obtain absent where absent: "(\<forall>j < length d. bundle_rows b (start + j) = []) \<longrightarrow> absent"
    "\<forall>k dry. \<exists>b'. ins_labels ra rnd k d start dry b =
      Inr (if absent then (b', int (largest (bundle_rows b) start (length d))) else (b, -1)) \<and>
      (if dry then b' = b else insert_accepted ra d start b b')"
    using ins_labels_law [OF a, of rnd] by blast
  show "\<exists>refuse. (\<forall>k. ins_labels ra rnd k d start True b =
        Inr (b, if refuse then -1 else int (largest (bundle_rows b) start (length d)))) \<and>
      (\<not> refuse \<longrightarrow> (\<forall>k. \<exists>b'. ins_labels ra rnd k d start False b = Inr (b', int (largest (bundle_rows b) start (length d))) \<and>
        insert_accepted ra d start b b')) \<and>
      ((\<forall>j < length d. bundle_rows b (start + j) = []) \<longrightarrow> \<not> refuse)"
  proof (intro exI [of _ "\<not> absent"] conjI impI allI)
    fix k
    show "ins_labels ra rnd k d start True b =
        Inr (b, if \<not> absent then -1 else int (largest (bundle_rows b) start (length d)))"
      using absent(2) [rule_format, of k True] by auto
    assume "\<not> \<not> absent"
    then show "\<exists>b'. ins_labels ra rnd k d start False b = Inr (b', int (largest (bundle_rows b) start (length d))) \<and>
        insert_accepted ra d start b b'"
      using absent(2) [rule_format, of k False] by simp
  qed (use absent(1) in simp)
qed

subsection \<open>One datum\<close>

text \<open>The frame every bundle of the database has, and the bound on its bins.\<close>

definition bundle_fits :: "hash_table \<Rightarrow> nat \<Rightarrow> nat \<Rightarrow> nat \<Rightarrow> nat \<Rightarrow> 'p bin_bundle \<Rightarrow> bool" where
  "bundle_fits ra label_size max_bin_size ps num_bins b \<longleftrightarrow> bundle_sane ra b \<and> bb_label_size b = label_size \<and>
     bb_max_bin_size b = max_bin_size \<and> bb_ps_low_degree b = ps \<and> bb_num_bins b = num_bins \<and>
     (\<forall>i. length (bundle_rows b i) \<le> max 1 (max_bin_size - 1))"

definition holds_at :: "'p bin_bundle \<Rightarrow> nat \<Rightarrow> row list \<Rightarrow> bool" where
  "holds_at b start rows \<longleftrightarrow> (\<forall>k < length rows. rows ! k \<in> set (bundle_rows b (start + k)))"

definition set_rows :: "'p bin_bundle list \<Rightarrow> nat \<Rightarrow> row multiset" where
  "set_rows S i = sum_list (map (\<lambda>b. mset (bundle_rows b i)) S)"

definition rows_at :: "nat \<Rightarrow> row list \<Rightarrow> nat \<Rightarrow> row multiset" where
  "rows_at start rows i = (if start \<le> i \<and> i < start + length rows then {#rows ! (i - start)#} else {#})"

lemma set_rows_update:
  assumes "j < length S"
  shows "set_rows (S[j := b]) i + mset (bundle_rows (S ! j) i) = set_rows S i + mset (bundle_rows b i)"
proof -
  have "S = take j S @ S ! j # drop (Suc j) S" using assms by (rule id_take_nth_drop)
  then have "set_rows S i = set_rows (take j S) i + mset (bundle_rows (S ! j) i) + set_rows (drop (Suc j) S) i"
    by (metis (no_types, lifting) append.assoc list.simps(9) map_append set_rows_def sum_list.Cons sum_list.append add.assoc)
  moreover have "set_rows (S[j := b]) i = set_rows (take j S) i + mset (bundle_rows b i) + set_rows (drop (Suc j) S) i"
    using assms by (simp add: upd_conv_take_nth_drop set_rows_def add.assoc)
  ultimately show ?thesis by (simp add: ac_simps)
qed

lemma accepted_rows:
  assumes "insert_accepted ra rows start b b'"
  shows "mset (bundle_rows b' i) = mset (bundle_rows b i) + rows_at start rows i"
  using assms by (auto simp: insert_accepted_def rows_update_def rows_at_def)

lemma accepted_holds:
  assumes "insert_accepted ra rows start b b'"
  shows "holds_at b' start rows" and "holds_at b s xs \<Longrightarrow> holds_at b' s xs"
  using assms by (auto simp: insert_accepted_def rows_update_def holds_at_def)

lemma accepted_fits:
  assumes "insert_accepted ra rows start b b'" "bundle_fits ra ls mb ps nb b" "rows \<noteq> []"
    and "largest (bundle_rows b) start (length rows) < mb \<or> (\<forall>j < length rows. bundle_rows b (start + j) = [])"
  shows "bundle_fits ra ls mb ps nb b'"
proof -
  have "length (bundle_rows b' i) \<le> max 1 (mb - 1)" for i
  proof (cases "start \<le> i \<and> i < start + length rows")
    case True
    then obtain k where k: "i = start + k" "k < length rows" using le_Suc_ex by fastforce
    have "length (bundle_rows b' i) = length (bundle_rows b i) + 1"
      using assms(1) True by (simp add: insert_accepted_def rows_update_def)
    moreover have "length (bundle_rows b (start + k)) + 1 \<le> largest (bundle_rows b) start (length rows)"
      unfolding largest_def using k(2) by (intro Max_ge) auto
    ultimately show ?thesis using assms(4) k by auto
  next
    case False
    then show ?thesis using assms(1,2) by (auto simp: insert_accepted_def rows_update_def bundle_fits_def)
  qed
  then show ?thesis using assms(1,2) by (simp add: bundle_fits_def insert_accepted_def same_frame_def)
qed

lemma fits_small: "bundle_fits ra ls mb ps nb b \<Longrightarrow> mb < 2 ^ 31 \<Longrightarrow> small_bins b"
proof -
  assume a: "bundle_fits ra ls mb ps nb b" "mb < 2 ^ 31"
  have "length (bb_item_bins b ! i) < 2 ^ 31 - 1" if "i < bb_num_bins b" for i
  proof -
    have "length (bundle_rows b i) \<le> max 1 (mb - 1)" using a(1) by (simp add: bundle_fits_def)
    then show ?thesis using that a(2) by (simp add: bundle_rows_def)
  qed
  then show "small_bins b" by (simp add: small_bins_def)
qed

end
