(* ===== verification/SenderDbTasks.thy ===== *)
theory SenderDbTasks
  imports SenderDb
begin

text \<open>
  The worker tasks of the sender's database run in parallel, one for each bundle index of the data. A
  step of a task is one datum; it reads and writes the set of its own bundle index only. Therefore every
  interleaving of the steps of the tasks has the result of running the tasks one after the other.
\<close>

text \<open>What a fold over the data does to one set, for steps that each write a single set.\<close>

definition owned :: "nat \<Rightarrow> nat \<Rightarrow> (nat \<times> 'd \<times> nat) list \<Rightarrow> (nat \<times> 'd \<times> nat) list" where
  "owned bins_per_bundle B xs = filter (\<lambda>x. snd (snd x) div bins_per_bundle = B) xs"

text \<open>Interleavings: every event belongs to a task, and the events of a task are its data in order.\<close>

definition interleaving :: "nat list \<Rightarrow> 'x list \<Rightarrow> (nat \<times> 'x) list \<Rightarrow> bool" where
  "interleaving tasks data evs \<longleftrightarrow> fst ` set evs \<subseteq> set tasks \<and>
     (\<forall>B \<in> set tasks. map snd (filter (\<lambda>e. fst e = B) evs) = data)"

lemma interleaving_sequential:
  assumes "distinct tasks"
  shows "interleaving tasks data (concat (map (\<lambda>B. map (Pair B) data) tasks))"
proof -
  have own: "filter (\<lambda>e. fst e = B) (map (Pair C) data) = (if C = B then map (Pair C) data else [])" for B C
    by (induction data) auto
  have "map snd (filter (\<lambda>e. fst e = B) (concat (map (\<lambda>B. map (Pair B) data) tasks))) =
      (if B \<in> set tasks then data else [])" if "distinct tasks" for B
    using that by (induction tasks) (auto simp: own comp_def)
  then show ?thesis using assms by (auto simp: interleaving_def)
qed

lemma fold_res_cong:
  "(\<And>x t. x \<in> set xs \<Longrightarrow> f x t = g x t) \<Longrightarrow> fold_res f xs s = fold_res g xs s"
proof (induction xs arbitrary: s)
  case (Cons x xs)
  then show ?case by (cases "g x s") simp_all
qed simp

lemma bind_res_assoc: "bind_res (bind_res m f) g = bind_res m (\<lambda>x. bind_res (f x) g)"
  by (cases m) simp_all

subsection \<open>Tasks that own a set\<close>

locale bundle_tasks =
  fixes step :: "nat \<Rightarrow> nat \<Rightarrow> 'd \<times> nat \<Rightarrow> 'b list \<Rightarrow> 'b list res"
    and set_step :: "nat \<Rightarrow> 'd \<Rightarrow> nat \<Rightarrow> 'b \<Rightarrow> 'b res" and bins_per_bundle :: nat
  assumes step_law: "\<And>B k d c D. bins_per_bundle \<noteq> 0 \<Longrightarrow> B < length D \<Longrightarrow>
    step B k (d, c) D = (if c div bins_per_bundle = B
      then bind_res (set_step k d (c mod bins_per_bundle) (D ! B)) (\<lambda>S. Inr (D[B := S])) else Inr D)"
begin

definition apply_set :: "nat \<times> 'd \<times> nat \<Rightarrow> 'b \<Rightarrow> 'b res" where
  "apply_set x = set_step (fst x) (fst (snd x)) (snd (snd x) mod bins_per_bundle)"

lemma events_pointwise:
  assumes "bins_per_bundle \<noteq> 0" and "\<forall>e \<in> set evs. fst e < length D"
  shows "fold_res (\<lambda>(B, k, x). step B k x) evs D = Inr D' \<longleftrightarrow>
    length D' = length D \<and> (\<forall>B < length D.
      fold_res apply_set (owned bins_per_bundle B (map snd (filter (\<lambda>e. fst e = B) evs))) (D ! B) = Inr (D' ! B))"
  using assms(2)
proof (induction evs arbitrary: D)
  case Nil
  show ?case by (auto simp: owned_def list_eq_iff_nth_eq)
next
  case (Cons e evs)
  obtain B k d c where e: "e = (B, k, d, c)" by (metis prod.exhaust)
  have B: "B < length D" using Cons.prems e by simp
  have step: "step B k (d, c) D = (if c div bins_per_bundle = B
      then bind_res (apply_set (k, d, c) (D ! B)) (\<lambda>S. Inr (D[B := S])) else Inr D)"
    using step_law [OF assms(1) B] by (simp add: apply_set_def)
  show ?case
  proof (cases "c div bins_per_bundle = B")
    case False
    then have own: "owned bins_per_bundle C (map snd (filter (\<lambda>e. fst e = C) (e # evs))) =
        owned bins_per_bundle C (map snd (filter (\<lambda>e. fst e = C) evs))" for C
      by (auto simp: owned_def e)
    show ?thesis unfolding own using Cons.IH [of D] Cons.prems False by (simp add: step e)
  next
    case True
    show ?thesis
    proof (cases "apply_set (k, d, c) (D ! B)")
      case (Inl x)
      then have "fold_res apply_set (owned bins_per_bundle B (map snd (filter (\<lambda>e. fst e = B) (e # evs)))) (D ! B) = Inl x"
        using True by (simp add: owned_def e)
      then have "\<not> (\<forall>C < length D. fold_res apply_set
          (owned bins_per_bundle C (map snd (filter (\<lambda>e. fst e = C) (e # evs)))) (D ! C) = Inr (D' ! C))"
        using B by (intro notI) auto
      moreover have "fold_res (\<lambda>(B, k, x). step B k x) (e # evs) D = Inl x" using True Inl by (simp add: step e)
      ultimately show ?thesis by (metis sum.distinct(1))
    next
      case (Inr S)
      have own: "fold_res apply_set (owned bins_per_bundle C (map snd (filter (\<lambda>e. fst e = C) (e # evs)))) (D ! C) =
          fold_res apply_set (owned bins_per_bundle C (map snd (filter (\<lambda>e. fst e = C) evs))) (D[B := S] ! C)"
        if "C < length D" for C
        using True Inr that by (auto simp: owned_def e)
      have "fold_res (\<lambda>(B, k, x). step B k x) (e # evs) D = fold_res (\<lambda>(B, k, x). step B k x) evs (D[B := S])"
        using True Inr by (simp add: step e)
      then have "fold_res (\<lambda>(B, k, x). step B k x) (e # evs) D = Inr D' \<longleftrightarrow> length D' = length D \<and> (\<forall>C < length D.
          fold_res apply_set (owned bins_per_bundle C (map snd (filter (\<lambda>e. fst e = C) evs))) (D[B := S] ! C) = Inr (D' ! C))"
        using Cons.IH [of "D[B := S]"] Cons.prems by (simp only: length_list_update) simp
      then show ?thesis by (simp only: own cong: all_cong conj_cong)
    qed
  qed
qed

lemma interleaving_result:
  assumes "bins_per_bundle \<noteq> 0" and "interleaving tasks data evs" and "\<forall>B \<in> set tasks. B < length D"
  shows "fold_res (\<lambda>(B, k, x). step B k x) evs D = Inr D' \<longleftrightarrow>
    length D' = length D \<and> (\<forall>B < length D.
      fold_res apply_set (owned bins_per_bundle B (if B \<in> set tasks then data else [])) (D ! B) = Inr (D' ! B))"
proof -
  have "map snd (filter (\<lambda>e. fst e = B) evs) = (if B \<in> set tasks then data else [])" for B
    using assms(2) by (auto simp: interleaving_def filter_empty_conv)
  moreover have "\<forall>e \<in> set evs. fst e < length D" using assms(2,3) by (auto simp: interleaving_def)
  ultimately show ?thesis using events_pointwise [OF assms(1), of evs D D'] by simp
qed

lemma any_interleaving:
  assumes "bins_per_bundle \<noteq> 0" "distinct tasks" "interleaving tasks data evs" "\<forall>B \<in> set tasks. B < length D"
  shows "fold_res (\<lambda>(B, k, x). step B k x) evs D = Inr D' \<longleftrightarrow>
    fold_res (\<lambda>B. fold_res (\<lambda>(k, x). step B k x) data) tasks D = Inr D'"
proof -
  have task: "fold_res (\<lambda>(B, k, x). step B k x) (map (Pair B) data) D = fold_res (\<lambda>(k, x). step B k x) data D"
    for B and data :: "(nat \<times> 'd \<times> nat) list" and D
  proof (induction data arbitrary: D)
    case (Cons x xs)
    then show ?case by (cases x) (simp cong: bind_res_cong)
  qed simp
  have "fold_res (\<lambda>(B, k, x). step B k x) (concat (map (\<lambda>B. map (Pair B) data) tasks)) D =
      fold_res (\<lambda>B. fold_res (\<lambda>(k, x). step B k x) data) tasks D"
    by (induction tasks arbitrary: D) (simp_all add: fold_res_append task cong: bind_res_cong)
  then show ?thesis
    using interleaving_result [OF assms(1,3,4), of D']
      interleaving_result [OF assms(1) interleaving_sequential [OF assms(2)] assms(4), of data D'] by simp
qed

end

subsection \<open>The bundle indices\<close>

lemma bundle_indices_eq:
  assumes "bins_per_bundle \<noteq> 0"
  shows "\<exists>tasks. bundle_indices data bins_per_bundle = Inr tasks \<and> distinct tasks \<and> sorted tasks \<and>
    set tasks = (\<lambda>x. snd x div bins_per_bundle) ` set data"
proof -
  have unpack: "unpack_cuckoo_idx c bins_per_bundle = Inr (c mod bins_per_bundle, c div bins_per_bundle)" for c
    using assms by (simp add: unpack_cuckoo_idx_def minus_mod_eq_mult_div)
  have "\<exists>tasks. fold_res (\<lambda>x result. bind_res (unpack_cuckoo_idx (snd x) bins_per_bundle) (\<lambda>(bin_idx, bundle_idx).
         Inr (insort_insert bundle_idx result))) data acc = Inr tasks \<and> distinct tasks \<and> sorted tasks \<and>
      set tasks = set acc \<union> (\<lambda>x. snd x div bins_per_bundle) ` set data" if "distinct acc" "sorted acc" for acc
    using that
  proof (induction data arbitrary: acc)
    case (Cons x data)
    show ?case using Cons.IH [of "insort_insert (snd x div bins_per_bundle) acc"] Cons.prems
      by (auto simp: unpack distinct_insort_insert sorted_insort_insert set_insort_insert)
  qed simp
  from this [of "[]"] show ?thesis by (simp add: bundle_indices_def)
qed

text \<open>What \<open>insert_or_assign_worker\<close> and \<open>remove_worker\<close> do to the set of their bundle index, for one datum.\<close>

definition insert_one_set ::
  "('d, 'p) inserter \<Rightarrow> ('d, 'p) overwriter \<Rightarrow> 'p bin_bundle res \<Rightarrow> nat \<Rightarrow> bool \<Rightarrow> nat \<Rightarrow> 'd \<Rightarrow> nat \<Rightarrow>
   'p bin_bundle list \<Rightarrow> 'p bin_bundle list res" where
  "insert_one_set ins ovw fresh max_bin_size overwrite k d bin_idx S =
     bind_res (write_to_set ins ovw max_bin_size overwrite k d bin_idx (length S) S) (\<lambda>(S', written).
       if overwrite \<and> \<not> written then Inl (Logic_error ''tried to overwrite non-existent item'')
       else if written then Inr S'
       else bind_res fresh (\<lambda>b. bind_res (ins k d bin_idx False b) (\<lambda>(b', res).
         if res < 0 then Inl (Logic_error ''failed to insert item into a new BinBundle'') else Inr (S' @ [b']))))"

definition remove_one_set ::
  "(felt list \<Rightarrow> nat \<Rightarrow> 'p bin_bundle \<Rightarrow> ('p bin_bundle \<times> bool) res) \<Rightarrow> felt list \<Rightarrow> nat \<Rightarrow>
   'p bin_bundle list \<Rightarrow> 'p bin_bundle list res" where
  "remove_one_set rem d bin_idx S =
     bind_res (remove_from_set rem d bin_idx S) (\<lambda>(S', removed).
       if removed then Inr (filter (\<lambda>b. \<not> bundle_empty b) S') else Inl (Logic_error ''failed to remove item''))"

lemma unpack_eq:
  "n \<noteq> 0 \<Longrightarrow> unpack_cuckoo_idx c n = Inr (c mod n, c div n)"
  by (simp add: unpack_cuckoo_idx_def minus_mod_eq_mult_div)

interpretation insert_tasks: bundle_tasks
  "insert_or_assign_one ins ovw fresh bins_per_bundle max_bin_size overwrite"
  "insert_one_set ins ovw fresh max_bin_size overwrite" bins_per_bundle
  by unfold_locales
    (auto simp: insert_or_assign_one_def insert_one_set_def unpack_eq bind_res_assoc intro!: bind_res_cong)

interpretation remove_tasks: bundle_tasks
  "\<lambda>B k. remove_one (rem k) bins_per_bundle B" "\<lambda>k. remove_one_set (rem k)" bins_per_bundle
  by unfold_locales
    (auto simp: remove_one_def remove_one_set_def unpack_eq Let_def bind_res_assoc intro!: bind_res_cong)

subsection \<open>The dispatchers\<close>

lemma enumerate_snd: "x \<in> set (enumerate n xs) \<Longrightarrow> snd x \<in> set xs"
  by (metis image_eqI list.set_map map_snd_enumerate)

lemma insert_worker_fold:
  "insert_or_assign_worker ins ovw fresh n max_bin_size overwrite B k data =
   fold_res (\<lambda>(k, x). insert_or_assign_one ins ovw fresh n max_bin_size overwrite B k x) (enumerate k data)"
proof (induction data arbitrary: k)
  case (Cons x data)
  show ?case by (rule ext) (simp add: Cons.IH)
qed auto

lemma remove_worker_fold:
  "remove_worker rem n B k data = fold_res (\<lambda>(k, x). remove_one (rem k) n B x) (enumerate k data)"
proof (induction data arbitrary: k)
  case (Cons x data)
  show ?case by (rule ext) (simp add: Cons.IH)
qed auto

lemma insert_dispatch_events:
  assumes n: "bins_per_bundle \<noteq> 0" and small: "length D \<le> 2 ^ 32"
    and idx: "\<forall>x \<in> set data. snd x div bins_per_bundle < length D"
    and evs: "bundle_indices data bins_per_bundle = Inr tasks" "interleaving tasks (enumerate 0 data) evs"
  shows "dispatch_insert_or_assign ins ovw fresh data bins_per_bundle max_bin_size overwrite D = Inr D' \<longleftrightarrow>
    fold_res (\<lambda>(B, k, x). insert_or_assign_one ins ovw fresh bins_per_bundle max_bin_size overwrite B k x) evs D = Inr D'"
proof -
  have tasks: "distinct tasks" "set tasks = (\<lambda>x. snd x div bins_per_bundle) ` set data"
    using bundle_indices_eq [OF n, of data] evs(1) by auto
  have own: "\<forall>B \<in> set tasks. B < length D" using tasks(2) idx by auto
  have "fold_res (\<lambda>B. insert_or_assign_worker ins ovw fresh bins_per_bundle max_bin_size overwrite (wrap32 B) 0 data) tasks D =
      fold_res (\<lambda>B. fold_res (\<lambda>(k, x). insert_or_assign_one ins ovw fresh bins_per_bundle max_bin_size overwrite B k x)
        (enumerate 0 data)) tasks D"
    using own small by (intro fold_res_cong) (auto simp: insert_worker_fold)
  then show ?thesis
    using insert_tasks.any_interleaving [OF n tasks(1) evs(2) own, of ins ovw fresh max_bin_size overwrite D']
    by (simp add: dispatch_insert_or_assign_def evs(1))
qed

lemma remove_dispatch_events:
  assumes n: "bins_per_bundle \<noteq> 0" and small: "length D \<le> 2 ^ 32"
    and idx: "\<forall>x \<in> set data. snd x div bins_per_bundle < length D"
    and evs: "bundle_indices data bins_per_bundle = Inr tasks" "interleaving tasks (enumerate 0 data) evs"
  shows "dispatch_remove rem data bins_per_bundle D = Inr D' \<longleftrightarrow>
    fold_res (\<lambda>(B, k, x). remove_one (rem k) bins_per_bundle B x) evs D = Inr D'"
proof -
  have tasks: "distinct tasks" "set tasks = (\<lambda>x. snd x div bins_per_bundle) ` set data"
    using bundle_indices_eq [OF n, of data] evs(1) by auto
  have own: "\<forall>B \<in> set tasks. B < length D" using tasks(2) idx by auto
  have "fold_res (\<lambda>B. remove_worker rem bins_per_bundle (wrap32 B) 0 data) tasks D =
      fold_res (\<lambda>B. fold_res (\<lambda>(k, x). remove_one (rem k) bins_per_bundle B x) (enumerate 0 data)) tasks D"
    using own small by (intro fold_res_cong) (auto simp: remove_worker_fold)
  then show ?thesis
    using remove_tasks.any_interleaving [OF n tasks(1) evs(2) own, of rem D'] by (simp add: dispatch_remove_def evs(1))
qed

text \<open>The result of a dispatch, set by set.\<close>

lemma insert_dispatch_sets:
  assumes n: "bins_per_bundle \<noteq> 0" and small: "length D \<le> 2 ^ 32"
    and idx: "\<forall>x \<in> set data. snd x div bins_per_bundle < length D"
  shows "dispatch_insert_or_assign ins ovw fresh data bins_per_bundle max_bin_size overwrite D = Inr D' \<longleftrightarrow>
    length D' = length D \<and> (\<forall>B < length D.
      fold_res (\<lambda>(k, d, c). insert_one_set ins ovw fresh max_bin_size overwrite k d (c mod bins_per_bundle))
        (owned bins_per_bundle B (enumerate 0 data)) (D ! B) = Inr (D' ! B))"
proof -
  obtain tasks where tasks: "bundle_indices data bins_per_bundle = Inr tasks" "distinct tasks"
    "set tasks = (\<lambda>x. snd x div bins_per_bundle) ` set data" using bundle_indices_eq [OF n] by blast
  let ?evs = "concat (map (\<lambda>B. map (Pair B) (enumerate 0 data)) tasks)"
  have inter: "interleaving tasks (enumerate 0 data) ?evs" by (rule interleaving_sequential [OF tasks(2)])
  have own: "\<forall>B \<in> set tasks. B < length D" using tasks(3) idx by auto
  have none: "owned bins_per_bundle B (if B \<in> set tasks then enumerate 0 data else []) = owned bins_per_bundle B (enumerate 0 data)" for B
    using tasks(3) enumerate_snd [of _ 0 data] by (auto simp: owned_def filter_empty_conv image_iff eq_commute [of "[]"])
  have "insert_tasks.apply_set ins ovw fresh max_bin_size overwrite bins_per_bundle =
      (\<lambda>(k, d, c). insert_one_set ins ovw fresh max_bin_size overwrite k d (c mod bins_per_bundle))"
    by (simp add: insert_tasks.apply_set_def fun_eq_iff)
  then show ?thesis
    using insert_dispatch_events [OF n small idx tasks(1) inter, of ins ovw fresh max_bin_size overwrite D']
      insert_tasks.interleaving_result [OF n inter own, of ins ovw fresh max_bin_size overwrite D'] by (simp only: none)
qed

subsection \<open>Properties\<close>

text \<open>
  C19. The insertion tasks may be interleaved in any way, datum by datum: a schedule in which every
  task walks the whole data in order leads from the bundles \<open>D\<close> to \<open>D'\<close> exactly when the tasks, run one after
  the other, do.
\<close>

theorem insert_tasks_interleave:
  assumes "bins_per_bundle \<noteq> 0" "length D \<le> 2 ^ 32" "\<forall>x \<in> set data. snd x div bins_per_bundle < length D"
    and "bundle_indices data bins_per_bundle = Inr tasks" "interleaving tasks (enumerate 0 data) evs"
  shows "dispatch_insert_or_assign ins ovw fresh data bins_per_bundle max_bin_size overwrite D = Inr D' \<longleftrightarrow>
    fold_res (\<lambda>(B, k, x). insert_or_assign_one ins ovw fresh bins_per_bundle max_bin_size overwrite B k x) evs D = Inr D'"
  by (rule insert_dispatch_events [OF assms])

theorem insert_tasks_interleave_witness:
  "\<exists>tasks. bundle_indices [([1 :: felt, 2], 0), ([3, 4], 4)] 4 = Inr tasks \<and>
     (\<forall>S T. \<forall>D' :: unit bin_bundle list list.
       (dispatch_insert_or_assign (ins_items (\<lambda>_. 0) (\<lambda>_ _ _. 0)) (try_multi_overwrite_items (\<lambda>_. 0)) (make_bundle True 0 10 2 4 False)
          [([1, 2], 0), ([3, 4], 4)] 4 10 False [S, T] = Inr D' \<longleftrightarrow>
        fold_res (\<lambda>(B, k, x). insert_or_assign_one (ins_items (\<lambda>_. 0) (\<lambda>_ _ _. 0)) (try_multi_overwrite_items (\<lambda>_. 0))
          (make_bundle True 0 10 2 4 False) 4 10 False B k x)
          [(1, 0, ([1, 2], 0)), (0, 0, ([1, 2], 0)), (1, 1, ([3, 4], 4)), (0, 1, ([3, 4], 4))] [S, T] = Inr D'))"
proof (intro exI [of _ "[0, 1]"] conjI allI)
  show tasks: "bundle_indices [([1 :: felt, 2], 0), ([3, 4], 4)] 4 = Inr [0, 1]"
    by (simp add: bundle_indices_def unpack_cuckoo_idx_def insort_insert_key_def)
  fix S T and D' :: "unit bin_bundle list list"
  have inter: "interleaving [0, 1] (enumerate 0 [([1 :: felt, 2], 0 :: nat), ([3, 4], 4)])
      [(1, 0, ([1, 2], 0)), (0, 0, ([1, 2], 0)), (1, 1, ([3, 4], 4)), (0, 1, ([3, 4], 4))]"
    by (simp add: interleaving_def)
  show "dispatch_insert_or_assign (ins_items (\<lambda>_. 0) (\<lambda>_ _ _. 0)) (try_multi_overwrite_items (\<lambda>_. 0)) (make_bundle True 0 10 2 4 False)
        [([1, 2], 0), ([3, 4], 4)] 4 10 False [S, T] = Inr D' \<longleftrightarrow>
      fold_res (\<lambda>(B, k, x). insert_or_assign_one (ins_items (\<lambda>_. 0) (\<lambda>_ _ _. 0)) (try_multi_overwrite_items (\<lambda>_. 0))
        (make_bundle True 0 10 2 4 False) 4 10 False B k x)
        [(1, 0, ([1, 2], 0)), (0, 0, ([1, 2], 0)), (1, 1, ([3, 4], 4)), (0, 1, ([3, 4], 4))] [S, T] = Inr D'"
    by (rule insert_tasks_interleave [OF _ _ _ tasks inter]) simp_all
qed

text \<open>The removal tasks may be interleaved in any way as well.\<close>

theorem remove_tasks_interleave:
  assumes "bins_per_bundle \<noteq> 0" "length D \<le> 2 ^ 32" "\<forall>x \<in> set data. snd x div bins_per_bundle < length D"
    and "bundle_indices data bins_per_bundle = Inr tasks" "interleaving tasks (enumerate 0 data) evs"
  shows "dispatch_remove rem data bins_per_bundle D = Inr D' \<longleftrightarrow>
    fold_res (\<lambda>(B, k, x). remove_one (rem k) bins_per_bundle B x) evs D = Inr D'"
  by (rule remove_dispatch_events [OF assms])

theorem remove_tasks_interleave_witness:
  "\<forall>S T. \<forall>D' :: unit bin_bundle list list.
     (dispatch_remove (\<lambda>k. try_multi_remove (\<lambda>_. 0) (\<lambda>_ _. k)) [([1 :: felt, 2], 0), ([3, 4], 4)] 4 [S, T] = Inr D' \<longleftrightarrow>
      fold_res (\<lambda>(B, k, x). remove_one (try_multi_remove (\<lambda>_. 0) (\<lambda>_ _. k)) 4 B x)
        [(1, 0, ([1, 2], 0)), (1, 1, ([3, 4], 4)), (0, 0, ([1, 2], 0)), (0, 1, ([3, 4], 4))] [S, T] = Inr D')"
proof (intro allI)
  fix S T and D' :: "unit bin_bundle list list"
  have tasks: "bundle_indices [([1 :: felt, 2], 0), ([3, 4], 4)] 4 = Inr [0, 1]"
    by (simp add: bundle_indices_def unpack_cuckoo_idx_def insort_insert_key_def)
  have inter: "interleaving [0, 1] (enumerate 0 [([1 :: felt, 2], 0 :: nat), ([3, 4], 4)])
      [(1, 0, ([1, 2], 0)), (1, 1, ([3, 4], 4)), (0, 0, ([1, 2], 0)), (0, 1, ([3, 4], 4))]"
    by (simp add: interleaving_def)
  show "dispatch_remove (\<lambda>k. try_multi_remove (\<lambda>_. 0) (\<lambda>_ _. k)) [([1 :: felt, 2], 0), ([3, 4], 4)] 4 [S, T] = Inr D' \<longleftrightarrow>
      fold_res (\<lambda>(B, k, x). remove_one (try_multi_remove (\<lambda>_. 0) (\<lambda>_ _. k)) 4 B x)
        [(1, 0, ([1, 2], 0)), (1, 1, ([3, 4], 4)), (0, 0, ([1, 2], 0)), (0, 1, ([3, 4], 4))] [S, T] = Inr D'"
    by (rule remove_tasks_interleave [OF _ _ _ tasks inter]) simp_all
qed

end
