(* ===== verification/SenderDbInsert.thy ===== *)
theory SenderDbInsert
  imports SenderDbSpec SenderDbTasks
begin

text \<open>
  Insertion into the bundles of the sender's database. A datum goes to one bundle of its set that has
  room, or to a fresh one; afterwards every bundle still fits its bound, every bin of the set holds,
  as a multiset over the bundles, what it held and the rows of the data that belong there, and all of a
  datum is in one bundle.
\<close>

subsection \<open>One datum in a set\<close>

text \<open>The set of bundles grew by one datum: one bundle accepted it, or a fresh one that did was added.\<close>

definition set_grown :: "hash_table \<Rightarrow> row list \<Rightarrow> nat \<Rightarrow> 'p bin_bundle list \<Rightarrow> 'p bin_bundle list \<Rightarrow> bool" where
  "set_grown ra rows start S S' \<longleftrightarrow>
     (\<exists>j b'. j < length S \<and> insert_accepted ra rows start (S ! j) b' \<and> S' = S[j := b']) \<or>
     (\<exists>b b'. bundle_rows b = (\<lambda>i. []) \<and> insert_accepted ra rows start b b' \<and> S' = S @ [b'])"

lemma grown_replaced: "j < length S \<Longrightarrow> insert_accepted ra rows start (S ! j) b' \<Longrightarrow> set_grown ra rows start S (S[j := b'])"
  unfolding set_grown_def by blast

lemma grown_appended:
  "bundle_rows b = (\<lambda>i. []) \<Longrightarrow> insert_accepted ra rows start b b' \<Longrightarrow> set_grown ra rows start S (S @ [b'])"
  unfolding set_grown_def by blast

lemma grown_rows:
  assumes "set_grown ra rows start S S'"
  shows "set_rows S' i = set_rows S i + rows_at start rows i"
  using assms unfolding set_grown_def
proof (elim disjE exE conjE)
  fix j b' assume a: "j < length S" "insert_accepted ra rows start (S ! j) b'" "S' = S[j := b']"
  show ?thesis using set_rows_update [OF a(1), of b' i] accepted_rows [OF a(2), of i] a(3) by (simp add: ac_simps)
next
  fix b b' assume a: "bundle_rows b = (\<lambda>i. [])" "insert_accepted ra rows start b b'" "S' = S @ [b']"
  show ?thesis using accepted_rows [OF a(2), of i] a(1,3) by (simp add: set_rows_def)
qed

definition set_holds :: "'p bin_bundle list \<Rightarrow> nat \<Rightarrow> row list \<Rightarrow> bool" where
  "set_holds S start rows \<longleftrightarrow> (\<exists>b \<in> set S. holds_at b start rows)"

lemma grown_holds:
  assumes "set_grown ra rows start S S'"
  shows "set_holds S' start rows" and "set_holds S s xs \<Longrightarrow> set_holds S' s xs"
proof -
  show "set_holds S' start rows"
    using assms unfolding set_grown_def
  proof (elim disjE exE conjE)
    fix j b' assume a: "j < length S" "insert_accepted ra rows start (S ! j) b'" "S' = S[j := b']"
    then show ?thesis using accepted_holds(1) [OF a(2)] set_update_memI [OF a(1)] unfolding set_holds_def by blast
  next
    fix b b' assume a: "insert_accepted ra rows start b b'" "S' = S @ [b']"
    then show ?thesis using accepted_holds(1) [OF a(1)] unfolding set_holds_def by simp
  qed
  assume "set_holds S s xs"
  then obtain i where i: "i < length S" "holds_at (S ! i) s xs" by (auto simp: set_holds_def in_set_conv_nth)
  show "set_holds S' s xs"
    using assms unfolding set_grown_def
  proof (elim disjE exE conjE)
    fix j b' assume a: "j < length S" "insert_accepted ra rows start (S ! j) b'" "S' = S[j := b']"
    have "holds_at (S' ! i) s xs" using i accepted_holds(2) [OF a(2)] a(1,3) by (cases "i = j") auto
    then show ?thesis using i(1) a(3) unfolding set_holds_def by (intro bexI [of _ "S' ! i"]) simp_all
  next
    fix b b' assume "S' = S @ [b']"
    then show ?thesis using i by (auto simp: set_holds_def)
  qed
qed

lemma grown_all:
  assumes "set_grown ra rows start S S'" "\<forall>b \<in> set S. P b" "\<And>b b'. insert_accepted ra rows start b b' \<Longrightarrow> P b'"
  shows "\<forall>b \<in> set S'. P b"
  using assms(1) unfolding set_grown_def
proof (elim disjE exE conjE)
  fix j b' assume a: "insert_accepted ra rows start (S ! j) b'" "S' = S[j := b']"
  then show ?thesis using assms(2) assms(3) [OF a(1)] set_update_subset_insert [of S j b'] by blast
next
  fix b b' assume a: "insert_accepted ra rows start b b'" "S' = S @ [b']"
  then show ?thesis using assms(2) assms(3) [OF a(1)] by simp
qed

text \<open>What the database is created with: the bounds on its bundles and what makes a fresh bundle.\<close>

definition fresh_ok :: "hash_table \<Rightarrow> nat \<Rightarrow> nat \<Rightarrow> nat \<Rightarrow> nat \<Rightarrow> 'p bin_bundle res \<Rightarrow> bool" where
  "fresh_ok ra label_size max_bin_size ps num_bins mk \<longleftrightarrow> max_bin_size < 2 ^ 31 \<and>
     (\<exists>b. mk = Inr b \<and> bundle_fits ra label_size max_bin_size ps num_bins b \<and> bundle_rows b = (\<lambda>i. []))"

lemma make_bundle_fresh:
  assumes "ps \<le> max_bin_size" "num_bins \<noteq> 0" "max_bin_size < 2 ^ 31"
  shows "fresh_ok ra label_size max_bin_size ps num_bins (make_bundle True label_size max_bin_size ps num_bins False :: 'p bin_bundle res)"
proof -
  obtain b :: "'p bin_bundle" where b: "make_bundle True label_size max_bin_size ps num_bins False = Inr b"
    "bundle_wf ra b" "bb_label_size b = label_size" "bb_num_bins b = num_bins" "bb_ps_low_degree b = ps"
    "\<forall>i < num_bins. bin_rows b i = [] \<and> not_full (bb_filters b ! i)"
    using make_bundle_ok [OF assms(1,2), of label_size ra] assms(3) by auto
  have "bundle_rows b = (\<lambda>i. [])" using b(4,6) by (auto simp: bundle_rows_def)
  moreover have "bb_max_bin_size b = max_bin_size"
    using b(1) assms(1,2) by (auto simp: make_bundle_def bundle_clear_def bundle_clear_cache_def result_simps)
  ultimately have "bundle_fits ra label_size max_bin_size ps num_bins b \<and> bundle_rows b = (\<lambda>i. [])"
    using b(3-5) wf_sane [OF b(2)] by (simp add: bundle_fits_def)
  then show ?thesis using b(1) assms(3) unfolding fresh_ok_def by blast
qed

text \<open>What an insertion into a set keeps and adds, for the rows \<open>R\<close> of the data, as a multiset at every bin.\<close>

definition sets_extend :: "hash_table \<Rightarrow> (nat \<Rightarrow> row multiset) \<Rightarrow> 'p bin_bundle list \<Rightarrow> 'p bin_bundle list \<Rightarrow> bool" where
  "sets_extend ra R S S' \<longleftrightarrow> (\<forall>i. set_rows S' i = set_rows S i + R i) \<and>
     (\<forall>s xs. set_holds S s xs \<longrightarrow> set_holds S' s xs) \<and> (\<forall>b \<in> set S'. b \<in> set S \<or> bb_cache_invalid b)"

lemma extend_refl: "sets_extend ra (\<lambda>i. {#}) S S"
  by (simp add: sets_extend_def)

lemma extend_trans: "sets_extend ra R S T \<Longrightarrow> sets_extend ra Q T U \<Longrightarrow> sets_extend ra (\<lambda>i. R i + Q i) S U"
  unfolding sets_extend_def by (auto simp: ac_simps)

lemma grown_length: "set_grown ra rows start S S' \<Longrightarrow> length S' \<le> Suc (length S)"
  by (auto simp: set_grown_def)

lemma grown_extend: "set_grown ra rows start S S' \<Longrightarrow> sets_extend ra (rows_at start rows) S S'"
  unfolding sets_extend_def
  using grown_rows grown_holds(2) grown_all [of ra rows start S S' "\<lambda>b. b \<in> set S \<or> bb_cache_invalid b"]
  by (auto simp: insert_accepted_def)

context bundle_data
begin

lemma write_ok:
  assumes fits: "\<forall>b \<in> set S. bundle_fits ra ls mb ps nb b" and "mb < 2 ^ 31" "width ls"
    and d: "rows_fit ls (rows_of d)" "start + length (rows_of d) \<le> nb" and "j \<le> length S"
  shows "\<exists>S' written. write_to_set ins ovw mb False k d start j S = Inr (S', written) \<and>
    (\<forall>b \<in> set S'. bundle_fits ra ls mb ps nb b) \<and>
    (if written then set_grown ra (rows_of d) start S S' else S' = S)"
  using assms(6)
proof (induction j)
  case 0
  then show ?case using fits by (intro exI [of _ S] exI [of _ False]) simp
next
  case (Suc j)
  let ?b = "S ! j"
  have fit: "bundle_fits ra ls mb ps nb ?b" using Suc.prems fits by simp
  then have sane: "bundle_sane ra ?b" "bb_label_size ?b = ls" "bb_num_bins ?b = nb" by (simp_all add: bundle_fits_def)
  obtain refuse where law: "\<forall>k. ins k d start True ?b =
      Inr (?b, if refuse then -1 else int (largest (bundle_rows ?b) start (length (rows_of d))))"
    "\<not> refuse \<longrightarrow> (\<forall>k. \<exists>b'. ins k d start False ?b = Inr (b', int (largest (bundle_rows ?b) start (length (rows_of d)))) \<and>
      insert_accepted ra (rows_of d) start ?b b')"
    using insert_law [OF sane(1) fits_small [OF fit assms(2)], of d start] assms(3) d by (auto simp: sane(2,3))
  show ?case
  proof (cases "\<not> refuse \<and> largest (bundle_rows ?b) start (length (rows_of d)) > 0 \<and>
      largest (bundle_rows ?b) start (length (rows_of d)) < mb")
    case True
    obtain b' where b': "ins k d start False ?b = Inr (b', int (largest (bundle_rows ?b) start (length (rows_of d))))"
      "insert_accepted ra (rows_of d) start ?b b'" using law(2) True by blast
    have "bundle_fits ra ls mb ps nb b'"
      using True d(1) by (intro accepted_fits [OF b'(2) fit]) (auto simp: rows_fit_def)
    then have "\<forall>b \<in> set (S[j := b']). bundle_fits ra ls mb ps nb b"
      using fits set_update_subset_insert [of S j b'] by auto
    moreover have "set_grown ra (rows_of d) start S (S[j := b'])"
      using Suc.prems by (intro grown_replaced b'(2)) simp
    ultimately show ?thesis using True law(1) b'(1) Suc.prems
      by (intro exI [of _ "S[j := b']"] exI [of _ True]) simp
  next
    case False
    then have "write_to_set ins ovw mb False k d start (Suc j) S = write_to_set ins ovw mb False k d start j S"
      using law(1) Suc.prems by auto
    then show ?thesis using Suc by simp
  qed
qed

lemma insert_one_ok:
  assumes fits: "\<forall>b \<in> set S. bundle_fits ra ls mb ps nb b" and mk: "fresh_ok ra ls mb ps nb mk" and "width ls"
    and d: "rows_fit ls (rows_of d)" "start + length (rows_of d) \<le> nb"
  shows "\<exists>S'. insert_one_set ins ovw mk mb False k d start S = Inr S' \<and>
    (\<forall>b \<in> set S'. bundle_fits ra ls mb ps nb b) \<and> set_grown ra (rows_of d) start S S'"
proof -
  obtain b where mb: "mb < 2 ^ 31" and b: "mk = Inr b" "bundle_fits ra ls mb ps nb b" "bundle_rows b = (\<lambda>i. [])"
    using mk by (auto simp: fresh_ok_def)
  obtain S' written where w: "write_to_set ins ovw mb False k d start (length S) S = Inr (S', written)"
    "\<forall>b \<in> set S'. bundle_fits ra ls mb ps nb b"
    "if written then set_grown ra (rows_of d) start S S' else S' = S"
    using write_ok [OF fits mb assms(3) d, of "length S"] by blast
  show ?thesis
  proof (cases written)
    case True
    then show ?thesis using w by (simp add: insert_one_set_def)
  next
    case False
    have sane: "bundle_sane ra b" "bb_label_size b = ls" "bb_num_bins b = nb" using b(2) by (simp_all add: bundle_fits_def)
    obtain b' where b': "ins k d start False b = Inr (b', int (largest (bundle_rows b) start (length (rows_of d))))"
      "insert_accepted ra (rows_of d) start b b'"
      using insert_law [OF sane(1) fits_small [OF b(2) mb], of d start] assms(3) d b(3) by (auto simp: sane(2,3))
    have "bundle_fits ra ls mb ps nb b'"
      using d(1) b(3) by (intro accepted_fits [OF b'(2) b(2)]) (auto simp: rows_fit_def)
    moreover have "set_grown ra (rows_of d) start S (S @ [b'])" by (rule grown_appended [OF b(3) b'(2)])
    ultimately show ?thesis using w False b(1) b'(1) by (simp add: insert_one_set_def)
  qed
qed

lemma insert_all_ok:
  assumes fits: "\<forall>b \<in> set S. bundle_fits ra ls mb ps nb b" and mk: "fresh_ok ra ls mb ps nb mk" and "width ls"
    and d: "\<forall>(k, d, c) \<in> set xs. rows_fit ls (rows_of d) \<and> c mod n + length (rows_of d) \<le> nb"
  shows "\<exists>S'. fold_res (\<lambda>(k, d, c). insert_one_set ins ovw mk mb False k d (c mod n)) xs S = Inr S' \<and>
    (\<forall>b \<in> set S'. bundle_fits ra ls mb ps nb b) \<and>
    sets_extend ra (\<lambda>i. sum_list (map (\<lambda>(d, c). rows_at (c mod n) (rows_of d) i) (map snd xs))) S S' \<and>
    (\<forall>(k, d, c) \<in> set xs. set_holds S' (c mod n) (rows_of d)) \<and> length S' \<le> length S + length xs"
  using fits d
proof (induction xs arbitrary: S)
  case Nil
  then show ?case by (simp add: extend_refl)
next
  case (Cons x xs)
  obtain k d c where x: "x = (k, d, c)" by (metis prod.exhaust)
  have d: "rows_fit ls (rows_of d)" "c mod n + length (rows_of d) \<le> nb" using Cons.prems(2) x by auto
  obtain T where T: "insert_one_set ins ovw mk mb False k d (c mod n) S = Inr T"
    "\<forall>b \<in> set T. bundle_fits ra ls mb ps nb b" "set_grown ra (rows_of d) (c mod n) S T"
    using insert_one_ok [OF Cons.prems(1) mk assms(3) d] by blast
  obtain U where U: "fold_res (\<lambda>(k, d, c). insert_one_set ins ovw mk mb False k d (c mod n)) xs T = Inr U"
    "\<forall>b \<in> set U. bundle_fits ra ls mb ps nb b"
    "sets_extend ra (\<lambda>i. sum_list (map (\<lambda>(d, c). rows_at (c mod n) (rows_of d) i) (map snd xs))) T U"
    "\<forall>(k, d, c) \<in> set xs. set_holds U (c mod n) (rows_of d)" "length U \<le> length T + length xs"
    using Cons.IH [OF T(2)] Cons.prems(2) by auto
  have "set_holds U (c mod n) (rows_of d)" using grown_holds(1) [OF T(3)] U(3) by (auto simp: sets_extend_def)
  then show ?case using T(1) U extend_trans [OF grown_extend [OF T(3)] U(3)] grown_length [OF T(3)] by (simp add: x)
qed

text \<open>All of the tasks together.\<close>

lemma dispatch_ok:
  assumes n: "n \<noteq> 0" and small: "length D \<le> 2 ^ 32"
    and fits: "\<forall>S \<in> set D. \<forall>b \<in> set S. bundle_fits ra ls mb ps nb b"
    and mk: "fresh_ok ra ls mb ps nb mk" and "width ls"
    and d: "\<forall>(d, c) \<in> set data. rows_fit ls (rows_of d) \<and> c mod n + length (rows_of d) \<le> nb \<and> c div n < length D"
  shows "\<exists>D'. dispatch_insert_or_assign ins ovw mk data n mb False D = Inr D' \<and> length D' = length D \<and>
    (\<forall>S \<in> set D'. \<forall>b \<in> set S. bundle_fits ra ls mb ps nb b) \<and>
    (\<forall>B < length D. sets_extend ra (\<lambda>i. sum_list (map (\<lambda>(d, c). rows_at (c mod n) (rows_of d) i)
       (filter (\<lambda>x. snd x div n = B) data))) (D ! B) (D' ! B)) \<and>
    (\<forall>(d, c) \<in> set data. set_holds (D' ! (c div n)) (c mod n) (rows_of d)) \<and>
    (\<forall>B < length D. length (D' ! B) \<le> length (D ! B) + length (filter (\<lambda>x. snd x div n = B) data))"
proof -
  let ?own = "\<lambda>B. owned n B (enumerate 0 data)"
  let ?run = "\<lambda>B. fold_res (\<lambda>(k, d, c). insert_one_set ins ovw mk mb False k d (c mod n)) (?own B)"
  have snd_own: "map snd (owned n B xs) = filter (\<lambda>x. snd x div n = B) (map snd xs)" for B and xs :: "(nat \<times> 'd \<times> nat) list"
    by (induction xs) (auto simp: owned_def)
  have len_own: "length (?own B) = length (filter (\<lambda>x. snd x div n = B) data)" for B
    using arg_cong [OF snd_own [of B "enumerate 0 data"], of length] by simp
  have set_own: "set (?own B) \<subseteq> set (enumerate 0 data)" for B by (auto simp: owned_def)
  have "\<exists>S'. ?run B (D ! B) = Inr S' \<and> (\<forall>b \<in> set S'. bundle_fits ra ls mb ps nb b) \<and>
      sets_extend ra (\<lambda>i. sum_list (map (\<lambda>(d, c). rows_at (c mod n) (rows_of d) i) (filter (\<lambda>x. snd x div n = B) data))) (D ! B) S' \<and>
      (\<forall>(k, d, c) \<in> set (?own B). set_holds S' (c mod n) (rows_of d)) \<and> length S' \<le> length (D ! B) + length (?own B)" if "B < length D" for B
    using insert_all_ok [of "D ! B" ls mb ps nb mk "?own B" n ovw] fits mk assms(5) d that set_own [of B] enumerate_snd [of _ 0 data]
    by (fastforce simp: snd_own)
  then obtain F where F: "\<And>B. B < length D \<Longrightarrow> ?run B (D ! B) = Inr (F B) \<and> (\<forall>b \<in> set (F B). bundle_fits ra ls mb ps nb b) \<and>
      sets_extend ra (\<lambda>i. sum_list (map (\<lambda>(d, c). rows_at (c mod n) (rows_of d) i) (filter (\<lambda>x. snd x div n = B) data))) (D ! B) (F B) \<and>
      (\<forall>(k, d, c) \<in> set (?own B). set_holds (F B) (c mod n) (rows_of d)) \<and> length (F B) \<le> length (D ! B) + length (?own B)"
    by metis
  let ?D' = "map F [0..<length D]"
  have "dispatch_insert_or_assign ins ovw mk data n mb False D = Inr ?D'"
    using F d by (subst insert_dispatch_sets [OF n small]) auto
  moreover have "set_holds (?D' ! (c div n)) (c mod n) (rows_of d)" if dc: "(d, c) \<in> set data" for d c
  proof -
    have B: "c div n < length D" using d dc by auto
    obtain i where "i < length data" "data ! i = (d, c)" using dc by (auto simp: in_set_conv_nth)
    then have "(i, d, c) \<in> set (?own (c div n))" by (simp add: owned_def in_set_enumerate_eq)
    then show ?thesis using F [OF B] B by auto
  qed
  ultimately show ?thesis using F by (intro exI [of _ ?D']) (auto simp: len_own)
qed

end

end
