(* ===== verification/OprfSpec.thy ===== *)
theory OprfSpec
  imports Oprf ModArith
begin

text \<open>
  Correctness of the oblivious pseudo-random function: the tasks that share the work cover every cell
  once, drawing a scalar ends when it can, and blinding and unblinding cancel.
\<close>

subsection \<open>Tasks\<close>

lemma stripe_set:
  assumes "0 < step"
  shows "set (stripe idx step count) = {j. idx \<le> j \<and> j < count \<and> step dvd j - idx}"
  using assms
proof (induction idx step count rule: stripe.induct)
  case (1 idx step count)
  have pos: "0 < step" by (rule 1(2))
  show ?case
  proof (cases "idx < count \<and> 0 < step")
    case True
    have "j = idx \<or> (idx + step \<le> j \<and> step dvd j - (idx + step)) \<longleftrightarrow> idx \<le> j \<and> step dvd j - idx" for j
    proof (cases "idx + step \<le> j")
      case True
      then have "j - idx = (j - (idx + step)) + step" by simp
      then show ?thesis using True dvd_add_left_iff [of step step "j - (idx + step)"] by (simp only:) auto
    next
      case False
      have "j = idx" if "idx \<le> j" "step dvd j - idx"
        using that False dvd_imp_le [of step "j - idx"] by (cases "j = idx") auto
      then show ?thesis using False by auto
    qed
    then show ?thesis using True 1 by (subst stripe.simps) auto
  next
    case False
    then show ?thesis by (subst stripe.simps) (use False pos in auto)
  qed
qed

lemma fold_tasks: "fold_res (\<lambda>t. fold_res body (f t)) ts s = fold_res body (concat (map f ts)) s"
  by (induction ts arbitrary: s) (simp_all add: fold_res_append cong: bind_res_cong)

lemma fold_cells:
  assumes step: "\<And>idx s. idx < count \<Longrightarrow> P s \<Longrightarrow>
      \<exists>s'. body idx s = Inr s' \<and> P s' \<and> (\<forall>j < count. cell s' j = (if j = idx then g idx else cell s j))"
    and "\<forall>idx \<in> set xs. idx < count" "P s"
  shows "\<exists>s'. fold_res body xs s = Inr s' \<and> P s' \<and> (\<forall>j < count. cell s' j = (if j \<in> set xs then g j else cell s j))"
  using assms(2,3)
proof (induction xs arbitrary: s)
  case (Cons x xs)
  obtain s1 where s1: "body x s = Inr s1" "P s1" "\<forall>j < count. cell s1 j = (if j = x then g x else cell s j)"
    using step [of x s] Cons.prems by auto
  obtain s' where "fold_res body xs s1 = Inr s'" "P s'" "\<forall>j < count. cell s' j = (if j \<in> set xs then g j else cell s1 j)"
    using Cons.IH [of s1] Cons.prems(1) s1(2) by auto
  then show ?case using s1 by auto
qed simp

text \<open>Every cell is written, however the cells are dealt out to the tasks.\<close>

lemma for_tasks_cells:
  assumes step: "\<And>idx s. idx < count \<Longrightarrow> P s \<Longrightarrow>
      \<exists>s'. body idx s = Inr s' \<and> P s' \<and> (\<forall>j < count. cell s' j = (if j = idx then g idx else cell s j))"
    and "P s" "0 < thread_count"
  shows "\<exists>s'. for_tasks thread_count count body s = Inr s' \<and> P s' \<and> (\<forall>j < count. cell s' j = g j)"
proof -
  let ?tc = "min thread_count count"
  let ?xs = "concat (map (\<lambda>t. stripe t ?tc count) [0..<?tc])"
  have all: "j \<in> set ?xs \<longleftrightarrow> j < count" for j
  proof (cases "count = 0")
    case False
    then have tc: "0 < ?tc" using assms(3) by simp
    show ?thesis
    proof
      assume "j < count"
      moreover have "j mod ?tc < ?tc" using tc by (rule mod_less_divisor)
      moreover have "?tc dvd j - j mod ?tc" by (rule dvd_minus_mod)
      ultimately show "j \<in> set ?xs" 
        using stripe_set [OF tc, of "j mod ?tc" count] mod_less_eq_dividend [of j ?tc]
        by (simp only: set_concat set_map set_upt) (blast intro: atLeastLessThan_iff [THEN iffD2])
    qed (use tc stripe_set [OF tc] in auto)
  qed simp
  have "\<exists>s'. fold_res body ?xs s = Inr s' \<and> P s' \<and> (\<forall>j < count. cell s' j = (if j \<in> set ?xs then g j else cell s j))"
    by (rule fold_cells [OF step]) (use all assms(2) in simp_all)
  then show ?thesis unfolding for_tasks_def Let_def fold_tasks using all by auto
qed

lemma chunk_concat:
  assumes "\<forall>x \<in> set xs. length x = n" "i < length xs"
  shows "take n (drop (i * n) (concat xs)) = xs ! i"
  using assms
proof (induction xs arbitrary: i)
  case (Cons x xs)
  then show ?case by (cases i) simp_all
qed simp

lemma length_concat_equal: "\<forall>x \<in> set xs. length x = n \<Longrightarrow> length (concat xs) = length xs * n"
  by (induction xs) simp_all

lemma chunks_eqI:
  assumes "length xs = k * n" "\<And>i. i < k \<Longrightarrow> take n (drop (i * n) xs) = f i"
  shows "xs = concat (map f [0..<k])"
  using assms
proof (induction k arbitrary: xs)
  case (Suc k)
  have "take (k * n) xs = concat (map f [0..<k])"
  proof (rule Suc.IH)
    show "length (take (k * n) xs) = k * n" using Suc.prems(1) by simp
    fix i assume i: "i < k"
    then have "i * n + n \<le> k * n" using mult_le_mono1 [of "Suc i" k n] by simp
    then have "n \<le> k * n - i * n" by linarith
    then have "take n (drop (i * n) (take (k * n) xs)) = take n (drop (i * n) xs)"
      by (simp only: drop_take take_take min_absorb1)
    then show "take n (drop (i * n) (take (k * n) xs)) = f i" using Suc.prems(2) i by simp
  qed
  moreover have "drop (k * n) xs = f k" using Suc.prems(1) Suc.prems(2) [of k] by simp
  moreover have "concat (map f [0..<Suc k]) = concat (map f [0..<k]) @ f k" by simp
  ultimately show ?case using append_take_drop_id [of "k * n" xs] by (simp only:)
qed simp

subsection \<open>Random scalars\<close>

definition scalar_val :: "scalar \<Rightarrow> nat" where
  "scalar_val s = horner_sum unat 256 s"

lemma scalar_val_0: "scalar_val s = 0 \<longleftrightarrow> (\<forall>b \<in> set s. b = 0)"
  by (induction s) (auto simp: scalar_val_def unat_eq_0)

lemma top_bit_u64: "bit (w :: u64) 63 \<longleftrightarrow> 2 ^ 63 \<le> unat w"
proof -
  have "unat w < 2 ^ 64" using unsigned_less [of w] by simp
  then have "unat w div 2 ^ 63 < 2" by (subst div_less_iff_less_mult) simp_all
  then obtain d where d: "unat w div 2 ^ 63 = d" "d = 0 \<or> d = 1" using less_2_cases by fastforce
  have "bit w 63 \<longleftrightarrow> odd d" using bit_unsigned_iff [of w 63, where ?'a = nat] d(1) by (simp add: bit_iff_odd)
  moreover have "0 < d \<longleftrightarrow> 2 ^ 63 \<le> unat w" unfolding d(1) [symmetric] by (rule div_greater_zero_iff [THEN trans]) simp
  ultimately show ?thesis using d(2) by (elim disjE) simp_all
qed

lemma top_bit_minus: "\<not> bit w 63 \<Longrightarrow> bit (- w :: u64) 63 \<longleftrightarrow> w \<noteq> 0"
  using unat_sub_if' [of 0 w] unsigned_less [of w] unfolding top_bit_u64 by (auto simp: unat_eq_0 word_size split: if_splits)

lemma signed_drop_top: "signed_drop_bit 63 (w :: u64) \<noteq> 0 \<longleftrightarrow> bit w 63"
proof -
  have "bit (signed_drop_bit 63 w) n \<longleftrightarrow> bit w 63" if "n < 64" for n
    using that by (cases n) (simp_all add: bit_signed_drop_bit_iff)
  note bits = this
  show ?thesis
  proof
    assume "signed_drop_bit 63 w \<noteq> 0"
    then obtain n where "bit (signed_drop_bit 63 w) n" by (metis bit_eq_iff bit_0_eq bot_apply bot_bool_def)
    then show "bit w 63" using bits [of n] bit_imp_le_length [of "signed_drop_bit 63 w" n] by simp
  next
    assume "bit w 63"
    then have "bit (signed_drop_bit 63 w) 0" using bits [of 0] by simp
    then show "signed_drop_bit 63 w \<noteq> 0" by (metis bit_0_eq bot_apply bot_bool_def)
  qed
qed

text \<open>The test of the code is the test whether some digit is not zero.\<close>

lemma nonzero_mask: "signed_drop_bit 63 (- (c AND 1) OR - drop_bit 1 (c :: u64)) \<noteq> 0 \<longleftrightarrow> c \<noteq> 0"
proof -
  let ?w = "- (c AND 1) OR - drop_bit 1 c"
  have "signed_drop_bit 63 ?w \<noteq> 0 \<longleftrightarrow> bit ?w 63"
    by (rule signed_drop_top)
  also have "\<dots> \<longleftrightarrow> c AND 1 \<noteq> 0 \<or> drop_bit 1 c \<noteq> 0"
  proof -
    have "\<not> bit (c AND 1) 63" "\<not> bit (drop_bit 1 c) 63"
      using bit_imp_le_length [of c 64] by (auto simp: bit_and_iff bit_1_iff bit_drop_bit_eq)
    then show ?thesis unfolding bit_or_iff by (intro arg_cong2 [of _ _ _ _ "(\<or>)"] top_bit_minus)
  qed
  also have "\<dots> \<longleftrightarrow> c \<noteq> 0"
  proof -
    have "c = 0" if "c AND 1 = 0" "drop_bit 1 c = 0"
    proof -
      have "c = push_bit 1 (drop_bit 1 c) OR (c AND 1)"
        by (rule bit_word_eqI, simp only: bit_or_iff bit_and_iff bit_1_iff bit_drop_bit_eq bit_push_bit_iff, case_tac n)
          simp_all
      then show ?thesis using that by simp
    qed
    then show ?thesis by auto
  qed
  finally show ?thesis .
qed

lemma is_nonzero_scalar_or:
  "is_nonzero_scalar v \<noteq> 0 \<longleftrightarrow> (\<exists>i < 4. read_u64_little_endian (take 8 (drop (8 * i) v)) \<noteq> 0)"
proof -
  have four: "[0..<4] = [0, 1, 2, 3 :: nat]" by (simp add: upt_rec)
  have "(\<exists>i < 4. P i) \<longleftrightarrow> P 0 \<or> P 1 \<or> P 2 \<or> P 3" for P :: "nat \<Rightarrow> bool"
    by (auto simp: less_Suc_eq numeral_eq_Suc)
  then show ?thesis
    unfolding is_nonzero_scalar_def Let_def nonzero_mask four by (simp add: or_eq_0_iff)
qed


lemma make_random_spec:
  "make_random_nonzero_scalar fq rnd n =
   (if \<exists>k \<ge> n. is_nonzero_scalar (random_scalar fq (rnd k)) \<noteq> 0
    then let k = LEAST k. n \<le> k \<and> is_nonzero_scalar (random_scalar fq (rnd k)) \<noteq> 0 in Some (random_scalar fq (rnd k), k + 1)
    else None)" (is "_ = ?R n")
proof (cases "\<exists>k \<ge> n. is_nonzero_scalar (random_scalar fq (rnd k)) \<noteq> 0")
  case True
  define k where "k = (LEAST k. n \<le> k \<and> is_nonzero_scalar (random_scalar fq (rnd k)) \<noteq> 0)"
  have k: "n \<le> k" "is_nonzero_scalar (random_scalar fq (rnd k)) \<noteq> 0"
    using LeastI_ex [OF True] by (auto simp: k_def)
  have less: "is_nonzero_scalar (random_scalar fq (rnd j)) = 0" if "n \<le> j" "j < k" for j
    using not_less_Least [of j "\<lambda>k. n \<le> k \<and> is_nonzero_scalar (random_scalar fq (rnd k)) \<noteq> 0"] that by (auto simp: k_def)
  have "make_random_nonzero_scalar fq rnd j = Some (random_scalar fq (rnd k), k + 1)" if "n \<le> j" "j \<le> k" for j
    using that(2,1)
  proof (induction rule: inc_induct)
    case base
    then show ?case using k(2) by (simp add: make_random_nonzero_scalar.simps [of fq rnd k] Let_def)
  next
    case (step j)
    then show ?case using less [of j] by (simp add: make_random_nonzero_scalar.simps [of fq rnd j] Let_def)
  qed
  from this [OF order_refl k(1)] show ?thesis using True by (simp add: k_def Let_def)
next
  case False
  have none: "make_random_nonzero_scalar fq rnd n \<noteq> Some r" for r
  proof
    assume "make_random_nonzero_scalar fq rnd n = Some r"
    then have "\<exists>k \<ge> n. is_nonzero_scalar (random_scalar fq (rnd k)) \<noteq> 0"
    proof (rule make_random_nonzero_scalar.raw_induct [rotated])
      fix mk :: "'a fourq \<Rightarrow> (nat \<Rightarrow> byte list) \<Rightarrow> nat \<Rightarrow> (scalar \<times> nat) option" and fq rnd n y
      assume IH: "\<And>fq rnd n y. mk fq rnd n = Some y \<Longrightarrow> \<exists>k \<ge> n. is_nonzero_scalar (random_scalar fq (rnd k)) \<noteq> 0"
        and step: "(let value = random_scalar fq (rnd n)
          in if is_nonzero_scalar value = 0 then mk fq rnd (n + 1) else Some (value, n + 1)) = Some y"
      show "\<exists>k \<ge> n. is_nonzero_scalar (random_scalar fq (rnd k)) \<noteq> 0"
      proof (cases "is_nonzero_scalar (random_scalar fq (rnd n)) = 0")
        case True
        then have "mk fq rnd (n + 1) = Some y" using step by (simp add: Let_def)
        from IH [OF this] show ?thesis by (meson add_leD1)
      qed blast
    qed
    then show False using False by blast
  qed
  then show ?thesis using False by (cases "make_random_nonzero_scalar fq rnd n") auto
qed
subsection \<open>Laws of the curve library\<close>

text \<open>
  Points of the prime-order subgroup (\<open>valid\<close>; hashing to the curve clears the cofactor), the
  action of numbers on them, and the order; the Montgomery routines invert a scalar modulo the order.
\<close>

definition fourq_laws :: "'pt fourq \<Rightarrow> (nat \<Rightarrow> 'pt \<Rightarrow> 'pt) \<Rightarrow> nat \<Rightarrow> ('pt \<Rightarrow> bool) \<Rightarrow> bool" where
  "fourq_laws fq act order valid \<longleftrightarrow> 1 < order \<and>
     (\<forall>r s. valid (fq_hash_to_curve fq r s)) \<and>
     (\<forall>P a. valid P \<longrightarrow> valid (act a P)) \<and>
     (\<forall>P a b. valid P \<longrightarrow> act a (act b P) = act (a * b) P) \<and>
     (\<forall>P a b. valid P \<and> a mod order = b mod order \<longrightarrow> act a P = act b P) \<and>
     (\<forall>P s cc. valid P \<longrightarrow> fq_ecc_mul fq P s cc = (True, act (scalar_val s) (if cc then act 392 P else P))) \<and>
     (\<forall>P. valid P \<longrightarrow> fq_decode fq (fq_encode fq P) = Some P) \<and>
     (\<forall>P. length (fq_encode fq P) = 32) \<and>
     (\<forall>s. length s = 32 \<longrightarrow> length (fq_modulo_order fq s) = 32 \<and> scalar_val (fq_modulo_order fq s) = scalar_val s mod order) \<and>
     (\<forall>s. length s = 32 \<and> scalar_val s mod order \<noteq> 0 \<longrightarrow>
        length (fq_from_montgomery fq (fq_montgomery_inversion fq (fq_to_montgomery fq s))) = 32 \<and>
        scalar_val (fq_from_montgomery fq (fq_montgomery_inversion fq (fq_to_montgomery fq s))) * scalar_val s mod order = 1)"

lemma fourq_lawsD:
  assumes "fourq_laws fq act order valid"
  shows fq_hash_valid: "valid (fq_hash_to_curve fq r s)"
    and fq_act_valid: "valid P \<Longrightarrow> valid (act a P)"
    and fq_act_act: "valid P \<Longrightarrow> act a (act b P) = act (a * b) P"
    and fq_act_cong: "valid P \<Longrightarrow> a mod order = b mod order \<Longrightarrow> act a P = act b P"
    and fq_mul: "valid P \<Longrightarrow> fq_ecc_mul fq P sc cc = (True, act (scalar_val sc) (if cc then act 392 P else P))"
    and fq_decode_encode: "valid P \<Longrightarrow> fq_decode fq (fq_encode fq P) = Some P"
    and fq_encode_length: "length (fq_encode fq Q) = 32"
    and fq_modulo: "length sc = 32 \<Longrightarrow> length (fq_modulo_order fq sc) = 32 \<and> scalar_val (fq_modulo_order fq sc) = scalar_val sc mod order"
    and fq_invert: "length sc = 32 \<Longrightarrow> scalar_val sc mod order \<noteq> 0 \<Longrightarrow>
      length (invert_scalar fq sc) = 32 \<and> scalar_val (invert_scalar fq sc) * scalar_val sc mod order = 1"
  using assms unfolding fourq_laws_def invert_scalar_def by blast+

lemma read_u64_zero: "read_u64_little_endian (replicate 8 0) = 0"
  by (simp add: read_u64_little_endian_def numeral_eq_Suc)

lemma nonzero_scalar_val:
  assumes "length s = 32" "is_nonzero_scalar s \<noteq> 0"
  shows "scalar_val s \<noteq> 0"
proof
  assume "scalar_val s = 0"
  then have z: "\<forall>b \<in> set s. b = 0" by (simp add: scalar_val_0)
  then have "s = replicate 32 0" using assms(1) by (simp add: replicate_eqI)
  then have "take 8 (drop (8 * i) s) = replicate 8 0" if "i < 4" for i
    using that by (simp add: min_def)
  then show False using assms(2) read_u64_zero by (auto simp: is_nonzero_scalar_or)
qed

lemma scalar_val_nonzero:
  assumes "length s = 32" "scalar_val s \<noteq> 0"
  shows "is_nonzero_scalar s \<noteq> 0"
proof -
  obtain b where "b \<in> set s" "b \<noteq> 0" using assms(2) by (auto simp: scalar_val_0)
  then obtain j where j: "j < 32" "s ! j \<noteq> 0" using assms(1) by (auto simp: in_set_conv_nth)
  then obtain t where t: "t < 8" "bit (s ! j) t" using byte_eqI [of "s ! j" 0] by auto
  let ?i = "j div 8" and ?k = "8 * (j mod 8) + t"
  have "?k div 8 = j mod 8" "?k mod 8 = t" using t(1) by simp_all
  then have "bit_at (take 8 (drop (8 * ?i) s)) ?k"
    using t(2) j(1) assms(1) by (simp add: bit_at_def)
  moreover have "j mod 8 \<le> 7" by simp
  then have "?k < 64" using t(1) by linarith
  ultimately have "read_u64_little_endian (take 8 (drop (8 * ?i) s)) \<noteq> 0"
    using bit_read_u64 [of ?k "take 8 (drop (8 * ?i) s)"] by auto
  moreover have "?i < 4" using j(1) by linarith
  ultimately show ?thesis unfolding is_nonzero_scalar_or by blast
qed

lemma random_scalar_ok:
  assumes laws: "fourq_laws fq act order valid" and len: "\<forall>k. length (rnd k) = 32"
    and "make_random_nonzero_scalar fq rnd n = Some (s, m)"
  shows "length s = 32" "scalar_val s mod order \<noteq> 0"
proof -
  obtain k where k: "s = random_scalar fq (rnd k)" "is_nonzero_scalar s \<noteq> 0"
  proof -
    have ex: "\<exists>k \<ge> n. is_nonzero_scalar (random_scalar fq (rnd k)) \<noteq> 0"
      using assms(3) unfolding make_random_spec [of fq rnd n] by (auto split: if_splits)
    define k where "k = (LEAST k. n \<le> k \<and> is_nonzero_scalar (random_scalar fq (rnd k)) \<noteq> 0)"
    have "s = random_scalar fq (rnd k)"
      using assms(3) unfolding make_random_spec [of fq rnd n] if_P [OF ex] Let_def k_def [symmetric] by simp
    moreover have "is_nonzero_scalar (random_scalar fq (rnd k)) \<noteq> 0"
      using LeastI_ex [OF ex] by (simp add: k_def)
    ultimately show thesis using that by simp
  qed
  have m: "length s = 32" "scalar_val s = scalar_val (rnd k) mod order"
    using fq_modulo [OF laws] len k(1) by (auto simp: random_scalar_def)
  show "length s = 32" by (rule m(1))
  show "scalar_val s mod order \<noteq> 0" using nonzero_scalar_val [OF m(1) k(2)] m(2) by simp
qed

lemma blind_items_ok:
  assumes laws: "fourq_laws fq act order valid" and len: "\<forall>k. length (rnd k) = 32"
    and "blind_items fq rnd vs n q f = Some (q', f')"
  shows "\<exists>ss. length ss = length vs \<and> (\<forall>s \<in> set ss. length s = 32 \<and> scalar_val s mod order \<noteq> 0) \<and>
    q' = q @ concat (map2 (\<lambda>v s. ecpoint_save fq (snd (scalar_multiply fq (ecpoint_of_bytes fq v) s False))) vs ss) \<and>
    f' = f @ concat (map (invert_scalar fq) ss)"
  using assms(3)
proof (induction vs arbitrary: n q f)
  case (Cons v vs)
  obtain s n' where s: "make_random_nonzero_scalar fq rnd n = Some (s, n')"
    "blind_items fq rnd vs n' (q @ ecpoint_save fq (snd (scalar_multiply fq (ecpoint_of_bytes fq v) s False)))
      (f @ invert_scalar fq s) = Some (q', f')"
    using Cons.prems by (auto simp: case_prod_unfold Let_def split: option.splits)
  obtain ss where ss: "length ss = length vs" "\<forall>s \<in> set ss. length s = 32 \<and> scalar_val s mod order \<noteq> 0"
    "q' = (q @ ecpoint_save fq (snd (scalar_multiply fq (ecpoint_of_bytes fq v) s False))) @
      concat (map2 (\<lambda>v s. ecpoint_save fq (snd (scalar_multiply fq (ecpoint_of_bytes fq v) s False))) vs ss)"
    "f' = (f @ invert_scalar fq s) @ concat (map (invert_scalar fq) ss)"
    using Cons.IH [OF s(2)] by (elim exE conjE)
  then show ?case using random_scalar_ok [OF laws len s(1)] by (intro exI [of _ "s # ss"]) simp
qed simp

text \<open>What the sender and the receiver compute of the point of one item.\<close>

lemma unblinded_point:
  assumes laws: "fourq_laws fq act order valid" and P: "valid P"
    and s: "length s = 32" "scalar_val s mod order \<noteq> 0"
  shows "act (scalar_val (invert_scalar fq s)) (act (scalar_val key) (act 392 (act (scalar_val s) P))) =
    act (scalar_val key) (act 392 P)"
proof -
  let ?r = "scalar_val s" and ?i = "scalar_val (invert_scalar fq s)" and ?k = "scalar_val key"
  note assoc = fq_act_act [OF laws] and valid = fq_act_valid [OF laws]
  have inv: "?i * ?r mod order = 1" using fq_invert [OF laws s] by simp
  have "act ?i (act ?k (act 392 (act ?r P))) = act (?i * (?k * (392 * ?r))) P"
    using P by (simp only: assoc valid)
  also have "\<dots> = act (?k * 392) P"
  proof -
    have "?i * (?k * (392 * ?r)) = (?k * 392) * (?i * ?r)" by simp
    moreover have "(?k * 392) * (?i * ?r) mod order = ?k * 392 mod order"
      using inv by (metis mod_mult_right_eq mult.right_neutral)
    ultimately show ?thesis by (intro fq_act_cong [OF laws P]) (simp only:)
  qed
  also have "\<dots> = act ?k (act 392 P)" using P by (simp only: assoc)
  finally show ?thesis .
qed

text \<open>
  Blinding, answering and unblinding: the responses to the queries of a receiver, item by item.
\<close>

lemma process_queries_ok:
  assumes laws: "fourq_laws fq act order valid" and "0 < thread_count"
    and Q: "\<forall>i < n. valid (Q i)" and q: "queries = concat (map (\<lambda>i. fq_encode fq (Q i)) [0..<n])"
  shows "process_queries fq thread_count queries key =
    Inr (concat (map (\<lambda>i. fq_encode fq (act (scalar_val key) (act 392 (Q i)))) [0..<n]))"
proof -
  let ?g = "\<lambda>i. fq_encode fq (act (scalar_val key) (act 392 (Q i)))"
  note e = fq_encode_length [OF laws]
  have len: "length queries = n * 32" unfolding q using length_concat_equal [of "map (\<lambda>i. fq_encode fq (Q i)) [0..<n]" 32] e by simp
  have chunk: "take 32 (drop (i * 32) queries) = fq_encode fq (Q i)" if "i < n" for i
    unfolding q using chunk_concat [of "map (\<lambda>i. fq_encode fq (Q i)) [0..<n]" 32 i] e that by simp
  have step: "\<exists>s'. process_query fq queries key idx s = Inr s' \<and> length s' = n * 32 \<and>
      (\<forall>j < n. take 32 (drop (j * 32) s') = (if j = idx then ?g idx else take 32 (drop (j * 32) s)))"
    if idx: "idx < n" and s: "length s = n * 32" for idx s
  proof -
    let ?s = "take (idx * 32) s @ ?g idx @ drop (idx * 32 + 32) s"
    have le: "idx * 32 + 32 \<le> n * 32" using mult_le_mono1 [of "Suc idx" n 32] idx by simp
    have "process_query fq queries key idx s = Inr ?s"
      using Q idx fq_mul [OF laws] fq_decode_encode [OF laws]
      by (simp add: process_query_def save_size_def ecpoint_load_def chunk scalar_multiply_def ecpoint_save_def)
    moreover have "length ?s = n * 32" using le s e by simp
    moreover have "take 32 (drop (j * 32) ?s) = (if j = idx then ?g idx else take 32 (drop (j * 32) s))" if j: "j < n" for j
    proof (cases j idx rule: linorder_cases)
      case less
      then have "32 \<le> idx * 32 - j * 32" by simp
      then have "take 32 (drop (j * 32) (take (idx * 32) s)) = take 32 (drop (j * 32) s)"
        by (simp only: drop_take take_take min_absorb1)
      then show ?thesis using less s le by simp
    next
      case equal
      then show ?thesis using s le e by simp
    next
      case greater
      then have "idx * 32 + 32 \<le> j * 32" by simp
      then obtain d where d: "j * 32 = idx * 32 + 32 + d" using le_Suc_ex by blast
      then show ?thesis using greater s le e [of "act (scalar_val key) (act 392 (Q idx))"] by (simp add: d add.commute)
    qed
    ultimately show ?thesis by blast
  qed
  have "\<exists>s'. for_tasks thread_count n (process_query fq queries key) (replicate (n * 32) 0) = Inr s' \<and>
      length s' = n * 32 \<and> (\<forall>j < n. take 32 (drop (j * 32) s') = ?g j)"
    by (rule for_tasks_cells [where P = "\<lambda>s. length s = n * 32" and cell = "\<lambda>s j. take 32 (drop (j * 32) s)", OF step])
      (use assms(2) in simp_all)
  then obtain s' where s': "for_tasks thread_count n (process_query fq queries key) (replicate (n * 32) 0) = Inr s'"
    "length s' = n * 32" "\<forall>j < n. take 32 (drop (j * 32) s') = ?g j" by blast
  then show ?thesis using chunks_eqI [of s' n 32 ?g] len by (simp add: process_queries_def save_size_def)
qed

lemma for_tasks_map:
  assumes "0 < thread_count" "\<And>idx s. idx < n \<Longrightarrow> length s = n \<Longrightarrow> body idx s = Inr (s[idx := g idx])"
  shows "for_tasks thread_count n body (replicate n z) = Inr (map g [0..<n])"
proof -
  have "\<exists>s'. for_tasks thread_count n body (replicate n z) = Inr s' \<and> length s' = n \<and> (\<forall>j < n. s' ! j = g j)"
    by (rule for_tasks_cells [where P = "\<lambda>s. length s = n" and cell = "(!)"]) (use assms in simp_all)
  then show ?thesis using nth_equalityI [of _ "map g [0..<n]"] by fastforce
qed

lemma compute_hashes_ok:
  "0 < thread_count \<Longrightarrow> compute_hashes fq thread_count items key = Inr (map (\<lambda>v. fst (get_item_hash fq v key)) items)"
  unfolding compute_hashes_def by (subst for_tasks_map) (auto intro: nth_equalityI)

lemma compute_hashes_no_threads: "compute_hashes fq 0 items key = Inr (replicate (length items) zero_item)"
  by (simp add: compute_hashes_def for_tasks_def)

text \<open>The item hash and the encrypted label of an item-label pair.\<close>

definition hashed_pair ::
  "'pt fourq \<Rightarrow> xof \<Rightarrow> (nat \<Rightarrow> byte list) \<Rightarrow> scalar \<Rightarrow> nat \<Rightarrow> nat \<Rightarrow> item \<times> label \<Rightarrow> item \<times> byte list" where
  "hashed_pair fq xb rb key lbc nbc = (\<lambda>(v, label). (fst (get_item_hash fq v key),
     case encrypt_label xb rb label (snd (get_item_hash fq v key)) lbc nbc of Inr e \<Rightarrow> e | Inl _ \<Rightarrow> []))"

lemma compute_label_hashes_ok:
  assumes "0 < thread_count" "nbc \<le> 16" "xof_fills xb" "\<forall>i. random_fills (nonces i)"
  shows "compute_label_hashes fq xb nonces thread_count items key lbc nbc =
    Inr (map (\<lambda>i. hashed_pair fq xb (nonces i) key lbc nbc (items ! i)) [0..<length items])"
proof -
  have enc: "\<exists>e. encrypt_label xb (nonces i) label k lbc nbc = Inr e" for i label k
    using encrypt_label_length [of xb "nonces i" nbc] assms by blast
  have no: "encrypt_label xb (nonces i) label k lbc nbc \<noteq> Inl x" for i label k x using enc [of i label k] by auto
  show ?thesis
    unfolding compute_label_hashes_def using assms(2)
    by (simp add: max_nonce_byte_count_def, intro for_tasks_map [OF assms(1)])
      (use no in \<open>auto simp: hashed_pair_def case_prod_unfold Let_def split: sum.splits\<close>)
qed

lemma oprf_spec:
  assumes laws: "fourq_laws fq act order valid" and rnd: "\<forall>k. length (rnd k) = 32" and tc: "0 < thread_count"
    and items: "\<forall>v \<in> set items. v \<noteq> []" and r: "process_items fq rnd items = Some r"
  shows "bind_res (process_queries fq thread_count (or_queries r) key) (\<lambda>responses.
      process_responses fq r responses (length items) (length items)) = Inr (map (\<lambda>v. get_item_hash fq v key) items)"
proof -
  let ?n = "length items"
  obtain ss where ss: "length ss = ?n" "\<forall>s \<in> set ss. length s = 32 \<and> scalar_val s mod order \<noteq> 0"
    "or_queries r = concat (map2 (\<lambda>v s. ecpoint_save fq (snd (scalar_multiply fq (ecpoint_of_bytes fq v) s False))) items ss)"
    "or_factor_data r = concat (map (invert_scalar fq) ss)" "or_item_count r = ?n"
    using r blind_items_ok [OF laws rnd, of items 0 "[]" "[]"] by (fastforce simp: process_items_def)
  define P Q where "P i = ecpoint_of_bytes fq (items ! i)" and "Q i = act (scalar_val (ss ! i)) (P i)" for i
  have P: "valid (P i)" if "i < ?n" for i
    using items that fq_hash_valid [OF laws] by (simp add: P_def ecpoint_of_bytes_def Let_def)
  note valid = fq_act_valid [OF laws] and mul = fq_mul [OF laws] and e = fq_encode_length [OF laws]
  have q: "or_queries r = concat (map (\<lambda>i. fq_encode fq (Q i)) [0..<?n])"
    unfolding ss(3) using ss(1) P
    by (intro arg_cong [of _ _ concat] nth_equalityI) (simp_all add: ecpoint_save_def scalar_multiply_def mul Q_def flip: P_def)
  have "\<forall>i < ?n. valid (Q i)" using P valid by (simp add: Q_def)
  note resp = process_queries_ok [OF laws tc this q, of key]
  let ?S = "\<lambda>i. act (scalar_val key) (act 392 (Q i))"
  let ?resp = "concat (map (\<lambda>i. fq_encode fq (?S i)) [0..<?n])"
  have factor: "get_factor r i = Inr (invert_scalar fq (ss ! i))" if "i < ?n" for i
  proof -
    have "length (invert_scalar fq s) = 32" if "s \<in> set ss" for s
      using fq_invert [OF laws] ss(2) that by simp
    then have "take 32 (drop (i * 32) (concat (map (invert_scalar fq) ss))) = map (invert_scalar fq) ss ! i"
      using that ss(1) by (intro chunk_concat) auto
    then show ?thesis using that ss(1,4,5) by (simp add: get_factor_def order_size_def)
  qed
  have unblind: "unblind fq r ?resp i = Inr (get_item_hash fq (items ! i) key)" if i: "i < ?n" for i
  proof -
    have "take 32 (drop (i * 32) ?resp) = fq_encode fq (?S i)"
      using chunk_concat [of "map (\<lambda>i. fq_encode fq (?S i)) [0..<?n]" 32 i] e i by simp
    moreover have "valid (?S i)" using P [OF i] valid by (simp add: Q_def)
    then have "fq_decode fq (fq_encode fq (?S i)) = Some (?S i)" "valid (?S i)" using fq_decode_encode [OF laws] by simp_all
    moreover have "ss ! i \<in> set ss" using i ss(1) by simp
    then have "act (scalar_val (invert_scalar fq (ss ! i))) (?S i) = act (scalar_val key) (act 392 (P i))"
      unfolding Q_def using unblinded_point [OF laws P [OF i]] ss(2) by blast
    ultimately show ?thesis
      using factor [OF i] mul P [OF i]
      by (simp add: unblind_def save_size_def ecpoint_load_def scalar_multiply_def get_item_hash_def flip: P_def)
  qed
  have "length ?resp = ?n * 32" using length_concat_equal [of "map (\<lambda>i. fq_encode fq (?S i)) [0..<?n]" 32] e by simp
  moreover have "map_res (unblind fq r ?resp) [0..<?n] = Inr (map (\<lambda>v. get_item_hash fq v key) items)"
  proof -
    have "map_res f [0..<n] = Inr (map g [0..<n])" if "\<And>i. i < n \<Longrightarrow> f i = Inr (g i)" for f :: "nat \<Rightarrow> exn + 'c" and g n
    proof -
      have "map_res f xs = Inr (map g xs)" if "\<forall>x \<in> set xs. f x = Inr (g x)" for xs
        using that by (induction xs) simp_all
      then show ?thesis using that by simp
    qed
    from this [OF unblind] have "map_res (unblind fq r ?resp) [0..<?n] =
      Inr (map (\<lambda>i. get_item_hash fq (items ! i) key) [0..<?n])" .
    also have "map (\<lambda>i. get_item_hash fq (items ! i) key) [0..<?n] = map (\<lambda>v. get_item_hash fq v key) items"
      by (rule nth_equalityI) simp_all
    finally show ?thesis .
  qed
  ultimately show ?thesis unfolding resp by (simp add: process_responses_def ss(5) save_size_def)
qed


subsection \<open>An instance\<close>

text \<open>The numbers modulo 17 as the points, used to apply theorems at concrete inputs.\<close>

definition bytes_of_residue :: "nat \<Rightarrow> byte list" where
  "bytes_of_residue n = of_nat n # replicate 31 0"

definition toy_fourq :: "nat fourq" where
  "toy_fourq = \<lparr>fq_blake2b = (\<lambda>n v. map (\<lambda>i. if i < length v then v ! i else 0) [0..<n]),
     fq_mod1271 = (\<lambda>x. x), fq_hash_to_curve = (\<lambda>r s. (unat (hd r) + unat (hd s)) mod 17),
     fq_neutral = 0, fq_zeroed = 0, fq_modulo_order = (\<lambda>s. bytes_of_residue (scalar_val s mod 17)),
     fq_to_montgomery = (\<lambda>s. s), fq_montgomery_inversion = (\<lambda>s. bytes_of_residue (scalar_val s ^ 15 mod 17)),
     fq_from_montgomery = (\<lambda>s. s),
     fq_ecc_mul = (\<lambda>P s cc. (True, scalar_val s * (if cc then 392 * P mod 17 else P) mod 17)),
     fq_encode = (\<lambda>P. bytes_of_residue (P mod 17)), fq_decode = (\<lambda>bs. Some (unat (hd bs))),
     fq_y_bytes = bytes_of_residue\<rparr>"

lemma residue_val: "n < 17 \<Longrightarrow> scalar_val (bytes_of_residue n) = n"
proof -
  have "horner_sum unat 256 (replicate k (0 :: byte)) = 0" for k by (induction k) simp_all
  then show "n < 17 \<Longrightarrow> scalar_val (bytes_of_residue n) = n"
    by (simp add: scalar_val_def bytes_of_residue_def unat_of_nat)
qed

lemma residue_bytes: "length (bytes_of_residue n) = 32" "hd (bytes_of_residue n) = of_nat n"
  by (simp_all add: bytes_of_residue_def)

lemma inverse_mod_17: "(n :: nat) mod 17 \<noteq> 0 \<Longrightarrow> (n ^ 15 mod 17) * n mod 17 = 1"
proof -
  assume n: "n mod 17 \<noteq> 0"
  have "n mod 17 < 17" by simp
  then obtain m where m: "n mod 17 = m" "m < 17" by blast
  have "(n ^ 15 mod 17) * n mod 17 = n ^ 15 * n mod 17" by (rule mod_mult_left_eq)
  also have "n ^ 15 * n = n ^ 16" using power_add [of n 15 1] by simp
  also have "n ^ 16 mod 17 = m ^ 16 mod 17" by (simp add: power_mod flip: m(1))
  also have "m ^ 16 mod 17 = 1"
    using fermat [of 17 m] is_prime_17 m n by (auto dest: dvd_imp_le simp: dvd_eq_mod_eq_0)
  finally show ?thesis .
qed

lemma toy_laws: "fourq_laws toy_fourq (\<lambda>a P. a * P mod (17 :: nat)) 17 (\<lambda>P. P < 17)"
  unfolding fourq_laws_def
proof (intro conjI allI impI)
  fix s :: scalar assume "length s = 32 \<and> scalar_val s mod 17 \<noteq> 0"
  then show "scalar_val (fq_from_montgomery toy_fourq (fq_montgomery_inversion toy_fourq (fq_to_montgomery toy_fourq s))) *
      scalar_val s mod 17 = 1"
    using inverse_mod_17 by (simp add: toy_fourq_def residue_val)
next
  fix P a b :: nat assume "P < (17 :: nat) \<and> a mod 17 = b mod 17"
  then show "a * P mod 17 = b * P mod 17" by (metis mod_mult_left_eq)
qed (auto simp: toy_fourq_def residue_val residue_bytes unat_of_nat mod_mult_right_eq mult.assoc)


subsection \<open>Properties\<close>

text \<open>
  C7. The oblivious evaluation agrees with the sender's own hashing: for every number of threads, every
  key and every run of the random source, when the receiver blinds its items, the sender answers the
  queries, and the receiver removes the factors, the receiver holds the item hash and the label key
  that the sender computes for each item, and no call fails.
\<close>
theorem oprf_correct:
  assumes "fourq_laws fq act order valid" and "\<forall>k. length (rnd k) = 32" and "0 < thread_count"
    and "\<forall>v \<in> set items. v \<noteq> []" and "process_items fq rnd items = Some r"
  shows "bind_res (process_queries fq thread_count (or_queries r) key) (\<lambda>responses.
      process_responses fq r responses (length items) (length items)) = Inr (map (\<lambda>v. get_item_hash fq v key) items)"
  using assms by (rule oprf_spec)

lemma toy_items: "\<exists>r. process_items toy_fourq (\<lambda>_. 3 # replicate 31 0) items = Some r"
proof -
  have "scalar_val (3 # replicate 31 0) = 3" using residue_val [of 3] by (simp add: bytes_of_residue_def)
  then have "scalar_val (fq_modulo_order toy_fourq (3 # replicate 31 0)) = 3" by (simp add: toy_fourq_def residue_val)
  then have nz: "is_nonzero_scalar (random_scalar toy_fourq (3 # replicate 31 0)) \<noteq> 0"
    by (intro scalar_val_nonzero) (simp_all add: random_scalar_def, simp add: toy_fourq_def residue_bytes)
  have "make_random_nonzero_scalar toy_fourq (\<lambda>_. 3 # replicate 31 0) n =
      Some (random_scalar toy_fourq (3 # replicate 31 0), n + 1)" for n
    by (subst make_random_nonzero_scalar.simps) (simp add: Let_def nz)
  then have "\<exists>q' f'. blind_items toy_fourq (\<lambda>_. 3 # replicate 31 0) items n q f = Some (q', f')" for n q f
    by (induction items arbitrary: n q f) (simp_all add: case_prod_unfold Let_def)
  then show ?thesis by (fastforce simp: process_items_def)
qed

theorem oprf_correct_witness:
  "\<exists>r. process_items toy_fourq (\<lambda>_. 3 # replicate 31 0) [[1, 2], [7]] = Some r \<and>
    bind_res (process_queries toy_fourq 2 (or_queries r) [5]) (\<lambda>responses.
      process_responses toy_fourq r responses (length [[1, 2], [7 :: byte]]) (length [[1, 2], [7 :: byte]])) =
    Inr (map (\<lambda>v. get_item_hash toy_fourq v [5]) [[1, 2], [7]])"
proof -
  obtain r where r: "process_items toy_fourq (\<lambda>_. 3 # replicate 31 0) [[1, 2], [7]] = Some r"
    using toy_items by blast
  have "\<forall>k :: nat. length (3 # replicate 31 (0 :: byte)) = 32" "\<forall>v \<in> set [[1, 2], [7 :: byte]]. v \<noteq> []" by simp_all
  from oprf_correct [OF toy_laws this(1) _ this(2) r, of 2 "[5]"] r show ?thesis by auto
qed

text \<open>
  C40. Drawing a nonzero scalar. With the laws of the curve library and 32 bytes from every call of
  the random source, the loop goes on for ever exactly when every string from the current position on
  is zero modulo the group order. Otherwise it returns the first one that is not, reduced modulo the
  order: 32 bytes whose value lies strictly between zero and the order.
\<close>
theorem random_scalar_terminates:
  assumes "fourq_laws fq act order valid" and "\<forall>k. length (rnd k) = 32"
  shows "case make_random_nonzero_scalar fq rnd n of
      None \<Rightarrow> (\<forall>k \<ge> n. scalar_val (rnd k) mod order = 0)
    | Some (s, m) \<Rightarrow> n < m \<and> length s = 32 \<and> scalar_val s = scalar_val (rnd (m - 1)) mod order \<and>
        0 < scalar_val s \<and> scalar_val s < order \<and>
        (\<forall>k. n \<le> k \<and> k < m - 1 \<longrightarrow> scalar_val (rnd k) mod order = 0)"
proof -
  let ?nz = "\<lambda>k. is_nonzero_scalar (random_scalar fq (rnd k)) \<noteq> 0"
  have rs: "length (random_scalar fq (rnd k)) = 32" "scalar_val (random_scalar fq (rnd k)) = scalar_val (rnd k) mod order" for k
    using fq_modulo [OF assms(1)] assms(2) by (simp_all add: random_scalar_def)
  have order: "0 < order" using assms(1) by (simp add: fourq_laws_def)
  have nz: "?nz k \<longleftrightarrow> scalar_val (rnd k) mod order \<noteq> 0" for k
    using nonzero_scalar_val [OF rs(1)] scalar_val_nonzero [OF rs(1)] rs(2) by metis
  show ?thesis
  proof (cases "\<exists>k \<ge> n. ?nz k")
    case True
    define k where "k = (LEAST k. n \<le> k \<and> ?nz k)"
    have "n \<le> k" "?nz k" using LeastI_ex [OF True] by (simp_all add: k_def)
    moreover have "\<not> ?nz j" if "n \<le> j" "j < k" for j
      using not_less_Least [of j "\<lambda>k. n \<le> k \<and> ?nz k"] that by (auto simp: k_def)
    moreover have "make_random_nonzero_scalar fq rnd n = Some (random_scalar fq (rnd k), k + 1)"
      unfolding make_random_spec [of fq rnd n] if_P [OF True] Let_def k_def ..
    ultimately show ?thesis using order by (simp add: rs nz)
  next
    case False
    then show ?thesis unfolding make_random_spec [of fq rnd n] if_not_P [OF False] by (simp add: nz)
  qed
qed

theorem random_scalar_terminates_witness:
  "\<exists>s m. make_random_nonzero_scalar toy_fourq (\<lambda>k. (if k < 2 then 17 else 20) # replicate 31 0) 0 = Some (s, m) \<and>
    0 < scalar_val s \<and> scalar_val s < 17 \<and> m = 3 \<and> scalar_val s = 3"
proof -
  let ?rnd = "\<lambda>k :: nat. (if k < 2 then 17 else 20) # replicate 31 (0 :: byte)"
  have zero: "horner_sum unat 256 (replicate k (0 :: byte)) = 0" for k by (induction k) simp_all
  have val: "scalar_val (?rnd k) mod 17 = (if k < 2 then 0 else 3)" for k
    by (simp add: scalar_val_def zero)
  have len: "\<forall>k. length (?rnd k) = 32" by simp
  note r = random_scalar_terminates [OF toy_laws len, of 0, unfolded val]
  show ?thesis
  proof (cases "make_random_nonzero_scalar toy_fourq ?rnd 0")
    case None
    then have "\<forall>k :: nat. (if k < 2 then 0 else 3) = (0 :: nat)" using r by simp
    from this [rule_format, of 2] show ?thesis by simp
  next
    case (Some sm)
    obtain s m where sm: "sm = (s, m)" by (cases sm)
    then have c: "0 < scalar_val s" "scalar_val s < 17" "scalar_val s = (if m - 1 < 2 then 0 else 3)"
      "\<forall>k. k < m - 1 \<longrightarrow> (if k < 2 then 0 else 3) = (0 :: nat)"
      using r Some by simp_all
    have "\<not> m - 1 < 2" using c(1,3) by (auto split: if_splits)
    moreover have "\<not> 2 < m - 1"
    proof
      assume "2 < m - 1"
      then have "(if (2 :: nat) < 2 then 0 else 3) = (0 :: nat)" using c(4) by blast
      then show False by simp
    qed
    ultimately have "m = 3" "scalar_val s = 3" using c(3) by auto
    then show ?thesis using Some sm c(1,2) by simp
  qed
qed

text \<open>
  The sender's hashes do not depend on the number of threads, as long as there is one; with a
  thread count of zero, which \<open>hardware_concurrency\<close> may report, every hash is the zero item.
\<close>
theorem compute_hashes_threads:
  "compute_hashes fq thread_count items key =
    Inr (if thread_count = 0 then replicate (length items) zero_item else map (\<lambda>v. fst (get_item_hash fq v key)) items)"
  using compute_hashes_ok [of thread_count fq items key] compute_hashes_no_threads [of fq items key] by simp

end
