(* ===== verification/SenderDbInvariant.thy ===== *)
theory SenderDbInvariant
  imports SenderDbInsert OprfSpec
begin

text \<open>
  The state of the sender's unlabeled database and what insertion keeps of it. Abstractly the database
  is the set of hashed items; the bins of the bundles hold exactly the field elements of these items at
  their locations, no bin outgrows its bound, and the caches are up to date.
\<close>

subsection \<open>What \<open>remove_if\<close> keeps\<close>

fun keep_if :: "('a \<Rightarrow> 's \<Rightarrow> bool \<times> 's) \<Rightarrow> 'a list \<Rightarrow> 's \<Rightarrow> 'a list \<times> 's" where
  "keep_if pred [] s = ([], s)"
| "keep_if pred (x # xs) s =
     (case pred x s of (remove, s') \<Rightarrow> case keep_if pred xs s' of (ks, t) \<Rightarrow> (if remove then ks else x # ks, t))"

lemma remove_if_keeps:
  assumes "result \<le> i" "i + n \<le> length xs"
  shows "\<exists>ys. remove_if pred moved i n result xs s =
      (ys, result + length (fst (keep_if pred (take n (drop i xs)) s)), snd (keep_if pred (take n (drop i xs)) s)) \<and>
    length ys = length xs \<and>
    take (result + length (fst (keep_if pred (take n (drop i xs)) s))) ys =
      take result xs @ fst (keep_if pred (take n (drop i xs)) s)"
  using assms
proof (induction n arbitrary: i result xs s)
  case (Suc n)
  have i: "i < length xs" using Suc.prems by simp
  obtain rm t where p: "pred (xs ! i) s = (rm, t)" by fastforce
  have step: "take (Suc n) (drop i xs) = xs ! i # take n (drop (i + 1) xs)"
    using i by (metis Cons_nth_drop_Suc Suc_eq_plus1 take_Suc_Cons)
  let ?k = "keep_if pred (take n (drop (i + 1) xs)) t"
  show ?case
  proof (cases rm)
    case True
    then show ?thesis using Suc.IH [of result "i + 1" xs t] Suc.prems p
      by (simp add: step case_prod_unfold)
  next
    case False
    define zs where "zs = (if result = i then xs else xs[result := xs ! i, i := moved (xs ! i)])"
    have zs: "length zs = length xs" "drop (i + 1) zs = drop (i + 1) xs" "take (result + 1) zs = take result xs @ [xs ! i]"
      using i Suc.prems(1) by (auto simp: zs_def take_Suc_conv_app_nth nth_list_update intro: nth_equalityI)
    have "remove_if pred moved i (Suc n) result xs s = remove_if pred moved (i + 1) n (result + 1) zs t"
      using False p by (simp add: zs_def)
    moreover obtain ys where "remove_if pred moved (i + 1) n (result + 1) zs t = (ys, result + 1 + length (fst ?k), snd ?k)"
      "length ys = length zs" "take (result + 1 + length (fst ?k)) ys = take (result + 1) zs @ fst ?k"
      using Suc.IH [of "result + 1" "i + 1" zs t] Suc.prems zs(1,2) by auto
    ultimately show ?thesis using zs(1,3) p False by (simp add: step case_prod_unfold)
  qed
qed simp

lemma keep_found:
  "\<exists>ks. keep_if found_or_insert xs (H, c) = (ks, (H \<union> set xs, c + length ks)) \<and> distinct ks \<and> set ks = set xs - H"
proof (induction xs arbitrary: H c)
  case (Cons x xs)
  have step: "found_or_insert x (H, c) = (if x \<in> H then (True, (H, c)) else (False, (insert x H, c + 1)))"
    by (simp add: found_or_insert_def)
  show ?case
  proof (cases "x \<in> H")
    case True
    then show ?thesis using Cons.IH [of H c] by (auto simp: step)
  next
    case False
    obtain ks where "keep_if found_or_insert xs (insert x H, c + 1) = (ks, (insert x H \<union> set xs, c + 1 + length ks))"
      "distinct ks" "set ks = set xs - insert x H" using Cons.IH by blast
    then show ?thesis using False by (intro exI [of _ "x # ks"]) (auto simp: step)
  qed
qed simp

subsection \<open>Where an item goes\<close>

definition item_slots :: "'pt db_library \<Rightarrow> psi_params \<Rightarrow> item \<Rightarrow> (felt list \<times> nat) list" where
  "item_slots lib pp h =
     (case algebraize_item h (pp_item_bit_count pp) (sp_plain_modulus (pp_seal_params pp)) of
        Inl e \<Rightarrow> []
      | Inr d \<Rightarrow> map (\<lambda>location. (d, location * ip_felts_per_item (pp_item_params pp))) (all_locations lib (hash_functions lib pp) h))"

definition slot_rows :: "psi_params \<Rightarrow> nat \<Rightarrow> nat \<Rightarrow> (felt list \<times> nat) list \<Rightarrow> row multiset" where
  "slot_rows pp B i slots = sum_list (map (\<lambda>(d, c). rows_at (c mod pp_bins_per_bundle pp) (item_rows d) i)
     (filter (\<lambda>x. snd x div pp_bins_per_bundle pp = B) slots))"

text \<open>The documented behaviour of the libraries that the database relies on.\<close>

definition library_ok :: "'pt db_library \<Rightarrow> bool" where
  "library_ok lib \<longleftrightarrow> 0 < dl_threads lib \<and> (\<forall>n bytes. length (fq_blake2b (dl_fourq lib) n bytes) = n) \<and>
     (\<forall>table_size seed v. 0 < table_size \<longrightarrow> dl_location lib table_size seed v < table_size) \<and>
     (\<forall>xs. set (dl_set_order lib xs) = set xs \<and> distinct (dl_set_order lib xs))"

definition params_fit :: "('p, 'c) seal \<Rightarrow> ('p, 'c) he_view \<Rightarrow> psi_params \<Rightarrow> bool" where
  "params_fit se v pp \<longleftrightarrow> psi_params_ok pp \<and> tp_max_items_per_bin (pp_table_params pp) < 2 ^ 31 \<and>
     usable_modulus (sp_plain_modulus (pp_seal_params pp)) \<and>
     2 ^ (mod_bit_count (sp_plain_modulus (pp_seal_params pp)) - 1) \<le> mo_value (se_mod se) \<and>
     seal_laws se v \<and> mo_is_prime (se_mod se) \<and> pp_bins_per_bundle pp \<le> hv_slot_count v"

lemma felt_small: "(\<And>j. j < 64 \<Longrightarrow> bit x j \<Longrightarrow> j < b) \<Longrightarrow> unat (x :: felt) < 2 ^ b"
proof -
  assume a: "\<And>j. j < 64 \<Longrightarrow> bit x j \<Longrightarrow> j < b"
  have "take_bit b x = x" using a by (auto simp: bit_eq_iff bit_take_bit_iff dest: bit_imp_le_length)
  then have "unat x = take_bit b (unat x)" by (metis unsigned_take_bit_eq)
  then show ?thesis by (metis take_bit_nat_less_exp)
qed

lemma hashed_item_wf: "library_ok lib \<Longrightarrow> item_wf (fst (get_item_hash (dl_fourq lib) x key))"
  by (simp add: library_ok_def get_item_hash_def split_hash_def extract_hash_def item_wf_def oprf_sizes Let_def case_prod_unfold)

lemma slots_ok:
  assumes lib: "library_ok lib" and pp: "params_fit se v pp" and h: "item_wf h"
  shows "\<exists>d. algebraize_item h (pp_item_bit_count pp) (sp_plain_modulus (pp_seal_params pp)) = Inr d \<and>
    length d = ip_felts_per_item (pp_item_params pp) \<and> (\<forall>x \<in> set d. unat x < mo_value (se_mod se)) \<and>
    (\<forall>(d', c) \<in> set (item_slots lib pp h). d' = d \<and> rows_fit 0 (item_rows d') \<and>
       c mod pp_bins_per_bundle pp + length (item_rows d') \<le> pp_bins_per_bundle pp \<and>
       c div pp_bins_per_bundle pp < pp_bundle_idx_count pp)"
proof -
  let ?m = "sp_plain_modulus (pp_seal_params pp)" and ?f = "ip_felts_per_item (pp_item_params pp)"
  have ok: "psi_params_ok pp" and m: "usable_modulus ?m" and big: "2 ^ (mod_bit_count ?m - 1) \<le> mo_value (se_mod se)"
    using pp by (simp_all add: params_fit_def)
  have bits: "80 \<le> pp_item_bit_count pp" using ok unfolding psi_params_ok_def Let_def by blast
  then have pos: "0 < pp_item_bit_count pp" by linarith
  have p: "pp_item_bit_count pp = ?f * (mod_bit_count ?m - 1)" "pp_item_bit_count pp \<le> 128" "2 \<le> ?f"
    "0 < tp_table_size (pp_table_params pp)" "pp_bins_per_bundle pp \<noteq> 0"
    using ok by (simp_all add: psi_params_ok_def Let_def)
  obtain d where d: "algebraize_item h (pp_item_bit_count pp) ?m = Inr d" "length d = felt_count (pp_item_bit_count pp) ?m"
    "\<forall>i<length d. \<forall>j<64. bit (d ! i) j \<longrightarrow> j < mod_bit_count ?m - 1"
    using algebraize_item_ok [OF h m pos p(2)] by auto
  have len: "length d = ?f" using felt_count_mult [OF m, of ?f] p(3) d(2) by (simp add: p(1))
  have "unat x < mo_value (se_mod se)" if "x \<in> set d" for x
    using d(3) that big felt_small [of x "mod_bit_count ?m - 1"] by (fastforce simp: in_set_conv_nth)
  moreover have "d' = d \<and> rows_fit 0 (item_rows d') \<and> c mod pp_bins_per_bundle pp + length (item_rows d') \<le> pp_bins_per_bundle pp \<and>
      c div pp_bins_per_bundle pp < pp_bundle_idx_count pp" if slot: "(d', c) \<in> set (item_slots lib pp h)" for d' c
  proof -
    obtain location where loc: "d' = d" "c = location * ?f" "location \<in> set (all_locations lib (hash_functions lib pp) h)"
      using slot d(1) by (auto simp: item_slots_def)
    have "location < tp_table_size (pp_table_params pp)"
      using loc(3) lib p(4) by (auto simp: all_locations_def hash_functions_def library_ok_def)
    from unpack_location [OF ok this] have "c mod pp_bins_per_bundle pp + ?f \<le> pp_bins_per_bundle pp"
      "c div pp_bins_per_bundle pp < pp_bundle_idx_count pp"
      by (simp_all add: unpack_eq [OF p(5)] loc(2) flip: mult_mod_left)
    then show ?thesis using loc(1) len p(3) by (auto simp: rows_fit_def item_rows_def)
  qed
  ultimately show ?thesis using d(1) len by blast
qed

lemma preprocess_ok:
  assumes "library_ok lib" "params_fit se v pp" "\<forall>h \<in> set hs. item_wf h"
  shows "preprocess_unlabeled_data lib hs pp = Inr (concat (map (item_slots lib pp) hs))"
proof -
  have "map_res (\<lambda>h. bind_res (algebraize_item h (pp_item_bit_count pp) (sp_plain_modulus (pp_seal_params pp))) (\<lambda>alg_item.
      Inr (map (\<lambda>location. (alg_item, location * ip_felts_per_item (pp_item_params pp))) (all_locations lib (hash_functions lib pp) h)))) hs =
    Inr (map (item_slots lib pp) hs)"
    using assms(3)
  proof (induction hs)
    case (Cons h hs)
    obtain d where "algebraize_item h (pp_item_bit_count pp) (sp_plain_modulus (pp_seal_params pp)) = Inr d"
      using slots_ok [OF assms(1,2), of h] Cons.prems by auto
    then show ?case using Cons by (simp add: item_slots_def)
  qed simp
  then show ?thesis by (simp add: preprocess_unlabeled_data_def Let_def)
qed

subsection \<open>Caches\<close>

definition cached :: "('p, 'c) seal \<Rightarrow> ('p, 'c) he_view \<Rightarrow> 'p bin_bundle \<Rightarrow> bool" where
  "cached se v b \<longleftrightarrow> \<not> bb_cache_invalid b \<and> cache_ok se v b (bb_cache b)"

text \<open>The bundle with the same data and an up-to-date cache.\<close>

definition recached :: "('p, 'c) seal \<Rightarrow> ('p, 'c) he_view \<Rightarrow> 'p bin_bundle \<Rightarrow> 'p bin_bundle \<Rightarrow> bool" where
  "recached se v b b' \<longleftrightarrow> cached se v b' \<and> (\<exists>c. b' = b\<lparr>bb_cache := c, bb_cache_invalid := False\<rparr>)"

lemma regen_recached:
  assumes fits: "bundle_fits ra 0 mb ps nb b" and "bb_cache_invalid b \<or> cached se v b"
    and "seal_laws se v" "mo_is_prime (se_mod se)" "felts_reduced se b" "nb \<le> hv_slot_count v" "ps + 1 < 2 ^ 32"
  shows "\<exists>b'. regen_cache se b = Inr b' \<and> recached se v b b'"
proof (cases "bb_cache_invalid b")
  case True
  have frame: "bundle_shape b" "bb_label_size b = 0" "bb_num_bins b = nb" "bb_ps_low_degree b = ps"
    using fits by (simp_all add: bundle_fits_def bundle_sane_def)
  obtain c where c: "regen_cache se b = Inr (b\<lparr>bb_cache := c, bb_cache_invalid := False\<rparr>)" "cache_ok se v b c"
    using regen_cache_ok [OF frame(1) _ True assms(3,4,5)] assms(6,7) frame(2-4) by auto
  then show ?thesis by (auto simp: recached_def cached_def cache_ok_def)
next
  case False
  then have "recached se v b b" using assms(2) by (auto simp: recached_def cached_def intro!: exI [of _ "bb_cache b"])
  then show ?thesis using False by (simp add: regen_cache_def)
qed

lemma map_res_rel:
  assumes "\<And>x. x \<in> set xs \<Longrightarrow> \<exists>y. f x = Inr y \<and> R x y"
  shows "\<exists>ys. map_res f xs = Inr ys \<and> list_all2 R xs ys"
  using assms
proof (induction xs)
  case (Cons x xs)
  obtain y where "f x = Inr y" "R x y" using Cons.prems by auto
  moreover obtain ys where "map_res f xs = Inr ys" "list_all2 R xs ys" using Cons by auto
  ultimately show ?case by simp
qed simp

lemma generate_caches_ok:
  assumes "\<And>S b. S \<in> set D \<Longrightarrow> b \<in> set S \<Longrightarrow> \<exists>b'. regen_cache se b = Inr b' \<and> recached se v b b'"
  shows "\<exists>D'. generate_caches se D = Inr D' \<and> list_all2 (list_all2 (recached se v)) D D'"
  unfolding generate_caches_def by (intro map_res_rel) (auto intro: map_res_rel assms)

lemma recached_rows:
  assumes "recached se v b b'"
  shows "bundle_rows b' = bundle_rows b" and "bundle_fits ra ls mb ps nb b \<Longrightarrow> bundle_fits ra ls mb ps nb b'"
proof -
  obtain c where c: "b' = b\<lparr>bb_cache := c, bb_cache_invalid := False\<rparr>" using assms by (auto simp: recached_def)
  have "bin_rows b' i = bin_rows b i" for i by (simp add: c bin_rows_def)
  then show rows: "bundle_rows b' = bundle_rows b" by (simp add: bundle_rows_def c fun_eq_iff)
  show "bundle_fits ra ls mb ps nb b \<Longrightarrow> bundle_fits ra ls mb ps nb b'"
    unfolding bundle_fits_def rows by (simp add: c bundle_sane_def bundle_shape_def)
qed

lemma recached_set_rows: "list_all2 (recached se v) S S' \<Longrightarrow> set_rows S' i = set_rows S i"
  by (induction S S' rule: list_all2_induct) (simp_all add: set_rows_def recached_rows(1))

lemma recached_set_holds:
  assumes "list_all2 (recached se v) S S'" "set_holds S s xs"
  shows "set_holds S' s xs"
proof -
  obtain i where i: "i < length S" "holds_at (S ! i) s xs" using assms(2) by (auto simp: set_holds_def in_set_conv_nth)
  have "recached se v (S ! i) (S' ! i)" "i < length S'"
    using assms(1) i(1) list_all2_nthD list_all2_lengthD by fastforce+
  then have "holds_at (S' ! i) s xs" using i(2) recached_rows(1) [of se v "S ! i" "S' ! i"] by (simp add: holds_at_def)
  then show ?thesis using \<open>i < length S'\<close> unfolding set_holds_def by (intro bexI [of _ "S' ! i"]) simp_all
qed

lemma recached_set_fits:
  assumes "list_all2 (recached se v) S S'" "\<forall>b \<in> set S. bundle_fits ra ls mb ps nb b" "b' \<in> set S'"
  shows "cached se v b' \<and> bundle_fits ra ls mb ps nb b'"
proof -
  obtain i where i: "i < length S'" "S' ! i = b'" using assms(3) by (auto simp: in_set_conv_nth)
  have "recached se v (S ! i) b'" "S ! i \<in> set S"
    using assms(1) i list_all2_nthD2 list_all2_lengthD by fastforce+
  then show ?thesis using assms(2) recached_rows(2) [of se v "S ! i" b'] by (auto simp: recached_def)
qed

subsection \<open>The invariant\<close>

definition slot_count :: "psi_params \<Rightarrow> nat \<Rightarrow> (felt list \<times> nat) list \<Rightarrow> nat" where
  "slot_count pp B slots = length (filter (\<lambda>x. snd x div pp_bins_per_bundle pp = B) slots)"

definition db_content :: "'pt db_library \<Rightarrow> psi_params \<Rightarrow> item set \<Rightarrow> 'p bin_bundle list list \<Rightarrow> bool" where
  "db_content lib pp H D \<longleftrightarrow>
     (\<forall>B < length D. \<forall>i. set_rows (D ! B) i = (\<Sum>h \<in> H. slot_rows pp B i (item_slots lib pp h))) \<and>
     (\<forall>h \<in> H. \<forall>(d, c) \<in> set (item_slots lib pp h).
        set_holds (D ! (c div pp_bins_per_bundle pp)) (c mod pp_bins_per_bundle pp) (item_rows d)) \<and>
     (\<forall>B < length D. length (D ! B) \<le> (\<Sum>h \<in> H. slot_count pp B (item_slots lib pp h)))"

definition db_fits :: "('p, 'c) seal \<Rightarrow> ('p, 'c) he_view \<Rightarrow> 'pt db_library \<Rightarrow> psi_params \<Rightarrow> 'p bin_bundle list list \<Rightarrow> bool" where
  "db_fits se v lib pp D \<longleftrightarrow> length D = pp_bundle_idx_count pp \<and>
     (\<forall>S \<in> set D. \<forall>b \<in> set S. cached se v b \<and> bundle_fits (dl_table lib) 0 (tp_max_items_per_bin (pp_table_params pp))
        (qp_ps_low_degree (pp_query_params pp)) (pp_bins_per_bundle pp) b)"

definition db_ok :: "('p, 'c) seal \<Rightarrow> ('p, 'c) he_view \<Rightarrow> 'pt db_library \<Rightarrow> 'p sender_db \<Rightarrow> bool" where
  "db_ok se v lib db \<longleftrightarrow> \<not> db_stripped db \<and> \<not> is_labeled db \<and>
     finite (db_hashed_items db) \<and> (\<forall>h \<in> db_hashed_items db. item_wf h) \<and> db_item_count db = card (db_hashed_items db) \<and>
     db_fits se v lib (db_params db) (db_bin_bundles db) \<and>
     db_content lib (db_params db) (db_hashed_items db) (db_bin_bundles db)"

lemma set_rows_member: "b \<in> set S \<Longrightarrow> r \<in> set (bundle_rows b i) \<Longrightarrow> r \<in># set_rows S i"
  by (induction S) (auto simp: set_rows_def)

lemma sum_list_member: "r \<in># sum_list (map f xs) \<Longrightarrow> \<exists>x \<in> set xs. r \<in># f x"
  by (induction xs) auto

lemma slot_rows_member: "r \<in># slot_rows pp B i slots \<Longrightarrow> \<exists>(d, c) \<in> set slots. r \<in> set (item_rows d)"
  unfolding slot_rows_def
  by (drule sum_list_member) (auto simp: rows_at_def split: if_splits intro!: bexI nth_mem)

text \<open>The content of the bins comes from the hashed items, so it is reduced.\<close>

lemma content_reduced:
  assumes "library_ok lib" "params_fit se v pp" "finite H" "\<forall>h \<in> H. item_wf h"
    and rows: "\<And>i. set_rows S i = (\<Sum>h \<in> H. slot_rows pp B i (item_slots lib pp h))"
    and b: "b \<in> set S" "bundle_shape b" "bb_label_size b = 0"
  shows "felts_reduced se b"
proof -
  have "unat x < mo_value (se_mod se)" if i: "i < bb_num_bins b" and x: "x \<in> set (bb_item_bins b ! i)" for i x
  proof -
    obtain r where r: "r \<in> set (bundle_rows b i)" "fst r = x"
    proof -
      have "x \<in> set (map fst (bin_rows b i))" using x by (simp only: bin_rows_fst)
      then show thesis using i by (auto simp: bundle_rows_def intro: that)
    qed
    have "r \<in># (\<Sum>h \<in> H. slot_rows pp B i (item_slots lib pp h))" using set_rows_member [OF b(1) r(1)] by (simp add: rows)
    then obtain h where h: "h \<in> H" "r \<in># slot_rows pp B i (item_slots lib pp h)"
      using assms(3) by (auto simp: set_mset_sum)
    then obtain d c where dc: "(d, c) \<in> set (item_slots lib pp h)" "r \<in> set (item_rows d)" using slot_rows_member by fast
    then have "x \<in> set d" using r(2) by (auto simp: item_rows_def)
    then show ?thesis using slots_ok [OF assms(1,2), of h] assms(4) h(1) dc(1) by fast
  qed
  then show ?thesis by (simp add: felts_reduced_def b(3))
qed

subsection \<open>Insertion\<close>

text \<open>
  Dispatching the slots of new items, and regenerating the caches, extends the content of the bundles
  by these items.
\<close>

lemma insert_content:
  assumes lib: "library_ok lib" and pp: "params_fit se v pp"
    and H: "finite H" "\<forall>h \<in> H. item_wf h" and D: "db_fits se v lib pp D" "db_content lib pp H D"
    and hs: "distinct hs" "\<forall>h \<in> set hs. item_wf h" "set hs \<inter> H = {}"
    and mk: "fresh_ok (dl_table lib) 0 (tp_max_items_per_bin (pp_table_params pp)) (qp_ps_low_degree (pp_query_params pp))
      (pp_bins_per_bundle pp) mk"
  shows "\<exists>D1 D2. dispatch_insert_or_assign (ins_items (dl_table lib) rnd) ovw mk (concat (map (item_slots lib pp) hs))
        (pp_bins_per_bundle pp) (tp_max_items_per_bin (pp_table_params pp)) False D = Inr D1 \<and>
      generate_caches se D1 = Inr D2 \<and> db_fits se v lib pp D2 \<and> db_content lib pp (H \<union> set hs) D2"
proof -
  let ?n = "pp_bins_per_bundle pp" and ?data = "concat (map (item_slots lib pp) hs)"
    and ?mb = "tp_max_items_per_bin (pp_table_params pp)" and ?ps = "qp_ps_low_degree (pp_query_params pp)"
  let ?fits = "bundle_fits (dl_table lib) 0 ?mb ?ps ?n"
  have p: "psi_params_ok pp" "?mb < 2 ^ 31" "seal_laws se v" "mo_is_prime (se_mod se)" "?n \<le> hv_slot_count v"
    using pp by (simp_all add: params_fit_def)
  have q: "0 < ?n" "tp_table_size (pp_table_params pp) < 2 ^ 32" "?ps \<le> ?mb"
      "pp_bundle_idx_count pp * pp_items_per_bundle pp = tp_table_size (pp_table_params pp)" "0 < pp_items_per_bundle pp"
    using p(1) by (simp_all add: psi_params_ok_def Let_def)
  have "pp_bundle_idx_count pp * 1 \<le> tp_table_size (pp_table_params pp)"
    unfolding q(4) [symmetric] using q(5) by (intro mult_le_mono2) simp
  then have small: "pp_bundle_idx_count pp \<le> 2 ^ 32" using q(2) by simp
  have len: "length D = pp_bundle_idx_count pp" using D(1) by (simp add: db_fits_def)
  have data: "\<forall>(d, c) \<in> set ?data. rows_fit 0 (item_rows d) \<and> c mod ?n + length (item_rows d) \<le> ?n \<and> c div ?n < length D"
    using slots_ok [OF lib pp] hs(2) len by fastforce
  obtain D1 where D1: "dispatch_insert_or_assign (ins_items (dl_table lib) rnd) ovw mk ?data ?n ?mb False D = Inr D1"
    "length D1 = length D" "\<forall>S \<in> set D1. \<forall>b \<in> set S. ?fits b"
    "\<forall>B < length D. sets_extend (dl_table lib) (\<lambda>i. slot_rows pp B i ?data) (D ! B) (D1 ! B)"
    "\<forall>(d, c) \<in> set ?data. set_holds (D1 ! (c div ?n)) (c mod ?n) (item_rows d)"
    "\<forall>B < length D. length (D1 ! B) \<le> length (D ! B) + slot_count pp B ?data"
    using item_data.dispatch_ok [OF _ _ _ mk refl data, of rnd ovw] q(1) small len D(1)
    by (auto simp: slot_rows_def slot_count_def db_fits_def)
  have slots: "slot_rows pp B i ?data = (\<Sum>h \<in> set hs. slot_rows pp B i (item_slots lib pp h))" for B i
    using hs(1) by (induction hs) (simp_all add: slot_rows_def)
  have counts: "slot_count pp B ?data = (\<Sum>h \<in> set hs. slot_count pp B (item_slots lib pp h))" for B
    using hs(1) by (induction hs) (simp_all add: slot_count_def)
  have bound: "length (D1 ! B) \<le> (\<Sum>h \<in> H \<union> set hs. slot_count pp B (item_slots lib pp h))" if B: "B < length D" for B
  proof -
    have "length (D ! B) \<le> (\<Sum>h \<in> H. slot_count pp B (item_slots lib pp h))" using D(2) B by (simp add: db_content_def)
    then show ?thesis
      using D1(6) [rule_format, OF B] sum.union_disjoint [OF H(1) finite_set, of hs "\<lambda>h. slot_count pp B (item_slots lib pp h)"] hs(3)
      by (simp add: counts Int_commute)
  qed
  have rows: "set_rows (D1 ! B) i = (\<Sum>h \<in> H \<union> set hs. slot_rows pp B i (item_slots lib pp h))" if "B < length D" for B i
    using D1(4) D(2) that hs(3) H(1) by (simp add: sets_extend_def db_content_def slots sum.union_disjoint Int_commute)
  have regen: "\<exists>b'. regen_cache se b = Inr b' \<and> recached se v b b'" if b: "S \<in> set D1" "b \<in> set S" for S b
  proof (rule regen_recached)
    show "?fits b" using D1(3) b by blast
    obtain B where B: "B < length D" "D1 ! B = S" using b(1) D1(2) by (auto simp: in_set_conv_nth)
    then have "b \<in> set (D ! B) \<or> bb_cache_invalid b" using D1(4) b(2) by (auto simp: sets_extend_def)
    then show "bb_cache_invalid b \<or> cached se v b" using D(1) B(1) by (auto simp: db_fits_def)
    have "finite (H \<union> set hs)" "\<forall>h \<in> H \<union> set hs. item_wf h" using H hs(2) by auto
    from content_reduced [OF lib pp this, of S B b] show "felts_reduced se b"
      using rows [OF B(1)] B(2) b D1(3) by (simp add: bundle_fits_def bundle_sane_def)
  qed (use p q in auto)
  obtain D2 where D2: "generate_caches se D1 = Inr D2" "list_all2 (list_all2 (recached se v)) D1 D2"
    using generate_caches_ok [of D1 se v] regen by blast
  have each: "B < length D \<Longrightarrow> list_all2 (recached se v) (D1 ! B) (D2 ! B)" for B
    using D2(2) D1(2) by (simp add: list_all2_nthD)
  have len2: "length D2 = length D" using D2(2) D1(2) by (simp add: list_all2_lengthD)
  have "cached se v b \<and> ?fits b" if S: "S \<in> set D2" "b \<in> set S" for S b
  proof -
    obtain B where B: "B < length D" "D2 ! B = S" using S(1) len2 by (auto simp: in_set_conv_nth)
    then have "\<forall>b \<in> set (D1 ! B). ?fits b" using D1(3) nth_mem [of B D1] D1(2) by auto
    from recached_set_fits [OF each [OF B(1)] this, of b] show ?thesis using S(2) B(2) by simp
  qed
  then have "db_fits se v lib pp D2" using len len2 by (simp add: db_fits_def)
  moreover have "db_content lib pp (H \<union> set hs) D2"
    unfolding db_content_def
  proof (intro conjI allI impI ballI)
    fix B i assume "B < length D2"
    then show "set_rows (D2 ! B) i = (\<Sum>h \<in> H \<union> set hs. slot_rows pp B i (item_slots lib pp h))"
      using rows [of B i] recached_set_rows [OF each, of B i] len2 by simp
  next
    fix h x assume h: "h \<in> H \<union> set hs" and x: "x \<in> set (item_slots lib pp h)"
    obtain d c where dc: "x = (d, c)" by fastforce
    have B: "c div ?n < length D" using slots_ok [OF lib pp, of h] h H(2) hs(2) x len unfolding dc by fastforce
    have "set_holds (D1 ! (c div ?n)) (c mod ?n) (item_rows d)"
    proof (cases "h \<in> set hs")
      case True
      then show ?thesis using D1(5) x unfolding dc by fastforce
    next
      case False
      then have "set_holds (D ! (c div ?n)) (c mod ?n) (item_rows d)"
        using D(2) h x unfolding dc db_content_def by fast
      then show ?thesis using D1(4) B by (simp add: sets_extend_def)
    qed
    from recached_set_holds [OF each [OF B] this]
    show "case x of (d, c) \<Rightarrow> set_holds (D2 ! (c div ?n)) (c mod ?n) (item_rows d)" by (simp add: dc)
  next
    fix B assume B: "B < length D2"
    then show "length (D2 ! B) \<le> (\<Sum>h \<in> H \<union> set hs. slot_count pp B (item_slots lib pp h))"
      using bound [of B] list_all2_lengthD [OF each, of B] len2 by simp
  qed
  ultimately show ?thesis using D1(1) D2(1) by blast
qed

definition item_hashes :: "'pt db_library \<Rightarrow> scalar \<Rightarrow> item list \<Rightarrow> item set" where
  "item_hashes lib key data = (\<lambda>x. fst (get_item_hash (dl_fourq lib) x key)) ` set data"

lemma insert_unlabeled_ok:
  assumes lib: "library_ok lib" and pp: "params_fit se v (db_params db)" and db: "db_ok se v lib db"
  shows "\<exists>db'. insert_or_assign_unlabeled se lib rnd data db = Inr db' \<and> db_ok se v lib db' \<and>
    db_hashed_items db' = db_hashed_items db \<union> item_hashes lib (db_oprf_key db) data \<and>
    db_params db' = db_params db \<and> db_oprf_key db' = db_oprf_key db"
proof -
  let ?pp = "db_params db" and ?H = "db_hashed_items db"
  let ?hash = "\<lambda>x. fst (get_item_hash (dl_fourq lib) x (db_oprf_key db))"
  let ?hs = "map ?hash data"
  have h: "finite ?H" "\<forall>h \<in> ?H. item_wf h" "db_item_count db = card ?H" "db_fits se v lib ?pp (db_bin_bundles db)"
    "db_content lib ?pp ?H (db_bin_bundles db)" "\<not> db_stripped db" "\<not> is_labeled db"
    using db by (simp_all add: db_ok_def)
  obtain ks where ks: "keep_if found_or_insert ?hs (?H, db_item_count db) = (ks, (?H \<union> set ?hs, db_item_count db + length ks))"
    "distinct ks" "set ks = set ?hs - ?H" using keep_found by blast
  obtain ys where ys: "remove_if found_or_insert (\<lambda>v. v) 0 (length ?hs) 0 ?hs (?H, db_item_count db) =
      (ys, length ks, (?H \<union> set ?hs, db_item_count db + length ks))" "take (length ks) ys = ks"
    using remove_if_keeps [of 0 0 "length ?hs" ?hs found_or_insert "\<lambda>v. v" "(?H, db_item_count db)"] ks(1) by auto
  have wf: "\<forall>k \<in> set ks. item_wf k" using hashed_item_wf [OF lib] by (auto simp: ks(3))
  have hashes: "compute_hashes (dl_fourq lib) (dl_threads lib) data (db_oprf_key db) = Inr ?hs"
    using lib by (intro compute_hashes_ok) (simp add: library_ok_def)
  have p: "psi_params_ok ?pp" "tp_max_items_per_bin (pp_table_params ?pp) < 2 ^ 31" using pp by (simp_all add: params_fit_def)
  have mk: "fresh_ok (dl_table lib) 0 (tp_max_items_per_bin (pp_table_params ?pp)) (qp_ps_low_degree (pp_query_params ?pp))
      (pp_bins_per_bundle ?pp) (fresh_bundle_for db 0)"
    unfolding fresh_bundle_for_def using p by (intro make_bundle_fresh) (simp_all add: psi_params_ok_def Let_def)
  obtain D1 D2 where D: "dispatch_insert_or_assign (ins_items (dl_table lib) rnd) (try_multi_overwrite_items (dl_table lib))
        (fresh_bundle_for db 0) (concat (map (item_slots lib ?pp) ks)) (pp_bins_per_bundle ?pp)
        (tp_max_items_per_bin (pp_table_params ?pp)) False (db_bin_bundles db) = Inr D1"
      "generate_caches se D1 = Inr D2" "db_fits se v lib ?pp D2" "db_content lib ?pp (?H \<union> set ks) D2"
    using insert_content [OF lib pp h(1,2,4,5) ks(2) wf _ mk] ks(3) by blast
  let ?db' = "db\<lparr>db_hashed_items := ?H \<union> set ?hs, db_item_count := db_item_count db + length ks, db_bin_bundles := D2\<rparr>"
  have "insert_or_assign_unlabeled se lib rnd data db = Inr ?db'"
    using h(6,7) hashes ys preprocess_ok [OF lib pp wf] D(1,2) by (simp add: insert_or_assign_unlabeled_def Let_def)
  moreover have union: "?H \<union> set ks = ?H \<union> set ?hs" by (auto simp: ks(3))
  have "db_item_count db + length ks = card (?H \<union> set ?hs)"
  proof -
    have "card (?H \<union> set ks) = card ?H + card (set ks)" using h(1) ks(3) by (intro card_Un_disjoint) auto
    then show ?thesis using h(3) ks(2) union by (simp add: distinct_card)
  qed
  then have "db_ok se v lib ?db'"
    using h D(3,4) hashed_item_wf [OF lib] unfolding union by (auto simp: db_ok_def is_labeled_def)
  ultimately show ?thesis by (auto simp: item_hashes_def)
qed

text \<open>A database that was just created, and one that was cleared, satisfies the invariant.\<close>

lemma clear_ok: "\<not> is_labeled db \<Longrightarrow> db_ok se v lib (db_clear db)"
  by (auto simp: db_ok_def db_clear_def clear_internal_def is_labeled_def db_fits_def db_content_def set_rows_def)

lemma make_db_ok: "make_sender_db pp key 0 nonce = Inr db \<Longrightarrow> db_ok se v lib db"
  by (auto simp: make_sender_db_def Let_def clear_ok is_labeled_def split: if_splits)

end
