(* ===== verification/SenderDbReach.thy ===== *)
theory SenderDbReach
  imports SenderDbInvariant
begin

text \<open>
  Histories of an unlabeled sender's database as a step relation, the invariant over all of them, and
  what an encrypted query finds in a database that was built this way.
\<close>

subsection \<open>Histories\<close>

inductive db_reachable :: "('p, 'c) seal \<Rightarrow> 'pt db_library \<Rightarrow> psi_params \<Rightarrow> 'p sender_db \<Rightarrow> bool"
  for se lib pp where
  created: "make_sender_db pp key 0 nonce_byte_count = Inr db \<Longrightarrow> db_reachable se lib pp db"
| inserted: "db_reachable se lib pp db \<Longrightarrow> insert_or_assign_unlabeled se lib rnd data db = Inr db' \<Longrightarrow>
    db_reachable se lib pp db'"
| replaced: "db_reachable se lib pp db \<Longrightarrow> set_data_unlabeled se lib rnd data db = Inr db' \<Longrightarrow> db_reachable se lib pp db'"
| cleared: "db_reachable se lib pp db \<Longrightarrow> db_reachable se lib pp (db_clear db)"
| moved_to: "db_reachable se lib pp db \<Longrightarrow> db_reachable se lib pp (fst (move_sender_db fresh_key db))"
| moved_from: "db_reachable se lib pp db \<Longrightarrow> db_reachable se lib pp (snd (move_sender_db fresh_key db))"

lemma clear_frame [simp]: "db_params (db_clear db) = db_params db" "db_oprf_key (db_clear db) = db_oprf_key db"
  "db_hashed_items (db_clear db) = {}" "is_labeled (db_clear db) = is_labeled db"
  by (simp_all add: db_clear_def clear_internal_def is_labeled_def)

lemma move_frame: "fst (move_sender_db fresh_key db) = db"
  "snd (move_sender_db fresh_key db) = db_clear (db\<lparr>db_oprf_key := fresh_key\<rparr>)"
  by (simp_all add: move_sender_db_def db_clear_def)

lemma reachable_ok:
  assumes "db_reachable se lib pp db" and lib: "library_ok lib" and pp: "params_fit se v pp"
  shows "db_params db = pp \<and> db_ok se v lib db"
  using assms(1)
proof induction
  case (created key nonce db)
  then show ?case using make_db_ok [OF created] by (auto simp: make_sender_db_def Let_def split: if_splits)
next
  case (inserted db rnd data db')
  then show ?case using insert_unlabeled_ok [OF lib, of se v db rnd data] pp by auto
next
  case (replaced db rnd data db')
  then have "db_ok se v lib (db_clear db)" by (intro clear_ok) (simp add: db_ok_def)
  then show ?case using insert_unlabeled_ok [OF lib, of se v "db_clear db" rnd data] pp replaced
    by (auto simp: set_data_unlabeled_def)
next
  case (cleared db)
  then have "db_ok se v lib (db_clear db)" by (intro clear_ok) (simp add: db_ok_def)
  then show ?case using cleared by simp
next
  case (moved_to db fresh_key)
  then show ?case by (simp add: move_frame)
next
  case (moved_from db fresh_key)
  then have "\<not> is_labeled (db\<lparr>db_oprf_key := fresh_key\<rparr>)" by (simp add: db_ok_def is_labeled_def)
  then show ?case using moved_from clear_ok by (simp add: move_frame)
qed

subsection \<open>Bins\<close>

lemma ok_bins:
  assumes "db_ok se v lib db" "S \<in> set (db_bin_bundles db)" "b \<in> set S" "i < bb_num_bins b"
  shows "length (bb_item_bins b ! i) \<le> max 1 (tp_max_items_per_bin (pp_table_params (db_params db)) - 1)"
proof -
  have "length (bundle_rows b i) \<le> max 1 (tp_max_items_per_bin (pp_table_params (db_params db)) - 1)"
    using assms(1-3) by (auto simp: db_ok_def db_fits_def bundle_fits_def)
  then show ?thesis using assms(4) by (simp add: bundle_rows_def)
qed

text \<open>There are no more bundles than locations of hashed items.\<close>

lemma filter_partition: "(\<Sum>B < (n :: nat). length (filter (\<lambda>x. g x = B) xs)) \<le> length xs"
proof (induction xs)
  case (Cons x xs)
  have "(\<Sum>B < n. length (filter (\<lambda>y. g y = B) (x # xs))) = (\<Sum>B < n. (if B = g x then 1 else 0) + length (filter (\<lambda>y. g y = B) xs))"
    by (rule sum.cong) auto
  then show ?case using Cons by (simp add: sum.distrib)
qed simp

lemma ok_bundle_count:
  assumes lib: "library_ok lib" and pp: "params_fit se v (db_params db)" and ok: "db_ok se v lib db"
  shows "(\<Sum>S \<leftarrow> db_bin_bundles db. length S) \<le> card (db_hashed_items db) * tp_hash_func_count (pp_table_params (db_params db))"
proof -
  let ?D = "db_bin_bundles db" and ?H = "db_hashed_items db" and ?k = "tp_hash_func_count (pp_table_params (db_params db))"
  let ?slots = "item_slots lib (db_params db)"
  have D: "\<forall>B < length ?D. length (?D ! B) \<le> (\<Sum>h \<in> ?H. slot_count (db_params db) B (?slots h))"
    using ok by (simp_all add: db_ok_def db_content_def)
  have slots: "length (?slots h) \<le> ?k" for h
  proof -
    have "distinct (all_locations lib (hash_functions lib (db_params db)) h)" using lib by (simp add: all_locations_def library_ok_def)
    then have "length (all_locations lib (hash_functions lib (db_params db)) h) = card (set (all_locations lib (hash_functions lib (db_params db)) h))"
      by (rule distinct_card [symmetric])
    also have "\<dots> \<le> ?k"
    proof -
      let ?ls = "map (\<lambda>(table_size, seed). dl_location lib table_size seed h) (hash_functions lib (db_params db))"
      have "set (all_locations lib (hash_functions lib (db_params db)) h) = set ?ls"
        using lib unfolding library_ok_def all_locations_def by blast
      then show ?thesis using card_length [of ?ls] by (simp add: hash_functions_def)
    qed
    finally have "length (all_locations lib (hash_functions lib (db_params db)) h) \<le> ?k" .
    moreover have "length (?slots h) \<le> length (all_locations lib (hash_functions lib (db_params db)) h)"
      unfolding item_slots_def by (simp split: sum.split)
    ultimately show ?thesis by (rule order_trans [rotated])
  qed
  have "(\<Sum>S \<leftarrow> ?D. length S) = (\<Sum>B < length ?D. length (?D ! B))" by (simp add: sum_list_sum_nth atLeast0LessThan)
  also have "\<dots> \<le> (\<Sum>B < length ?D. \<Sum>h \<in> ?H. slot_count (db_params db) B (?slots h))" using D by (intro sum_mono) simp
  also have "\<dots> = (\<Sum>h \<in> ?H. \<Sum>B < length ?D. slot_count (db_params db) B (?slots h))" by (rule sum.swap)
  also have "\<dots> \<le> (\<Sum>h \<in> ?H. length (?slots h))" unfolding slot_count_def by (intro sum_mono filter_partition)
  also have "\<dots> \<le> (\<Sum>h \<in> ?H. ?k)" using slots by (intro sum_mono)
  finally show ?thesis by simp
qed

subsection \<open>Queries\<close>

text \<open>The powers of an encrypted query with the value \<open>x i\<close> in slot \<open>i\<close>, as far as the database needs them.\<close>

definition query_fits :: "('p, 'c) seal \<Rightarrow> ('p, 'c) he_view \<Rightarrow> psi_params \<Rightarrow> 'c list \<Rightarrow> (nat \<Rightarrow> nat) \<Rightarrow> bool" where
  "query_fits se v pp powers x \<longleftrightarrow>
     query_powers_ok se v powers (qp_ps_low_degree (pp_query_params pp)) (tp_max_items_per_bin (pp_table_params pp)) x \<and>
     (\<forall>i. x i < mo_value (se_mod se))"

definition bundle_result :: "('p, 'c) seal \<Rightarrow> psi_params \<Rightarrow> 'c list \<Rightarrow> 'p bin_bundle \<Rightarrow> 'c res" where
  "bundle_result se pp powers b =
     eval_batched se (bc_batched_matching_polyn (bb_cache b)) powers (qp_ps_low_degree (pp_query_params pp))"

lemma query_result:
  assumes pp: "params_fit se v (db_params db)" and ok: "db_ok se v lib db" and comp: "compression_law se v"
    and ps: "qp_ps_low_degree (pp_query_params (db_params db)) \<noteq> 1"
    and q: "query_fits se v (db_params db) powers x"
    and b: "S \<in> set (db_bin_bundles db)" "b \<in> set S"
  shows "\<exists>r. bundle_result se (db_params db) powers b = Inr r \<and> decryptable v r \<and>
    (\<forall>i < bb_num_bins b. cv_slots v r i = 0 \<longleftrightarrow> (\<exists>k. key_at (bundle_rows b) i k \<and> unat k = x i))"
proof -
  let ?pp = "db_params db"
  let ?mb = "tp_max_items_per_bin (pp_table_params ?pp)"
  have fit: "cached se v b" "bundle_fits (dl_table lib) 0 ?mb (qp_ps_low_degree (pp_query_params ?pp)) (pp_bins_per_bundle ?pp) b"
    using ok b by (auto simp: db_ok_def db_fits_def)
  then have frame: "cache_ok se v b (bb_cache b)" "bundle_shape b" "bb_ps_low_degree b = qp_ps_low_degree (pp_query_params ?pp)"
    "bb_num_bins b = pp_bins_per_bundle ?pp" "\<forall>i. length (bundle_rows b i) \<le> max 1 (?mb - 1)"
    by (simp_all add: cached_def bundle_fits_def bundle_sane_def)
  have p: "qp_ps_low_degree (pp_query_params ?pp) \<le> ?mb" "0 < ?mb" "?mb < 2 ^ 32 - 1" "pp_bins_per_bundle ?pp \<le> hv_slot_count v"
    "seal_laws se v"
    using pp by (simp_all add: params_fit_def psi_params_ok_def Let_def)
  have "max 1 (?mb - 1) \<le> ?mb" using p(2) by simp
  then have len: "\<forall>i < bb_num_bins b. length (bundle_rows b i) \<le> ?mb" using frame(5) order_trans by blast
  show ?thesis
    using query_bundle_ok [OF frame(1) p(5) comp _ _ p(2,3) _ len, of powers x] frame(3,4) ps p(1,4) q
    by (simp add: query_fits_def bundle_result_def)
qed

text \<open>The field elements of a hashed item are together in one bundle, at the item's bins.\<close>

lemma hashed_in_bundle:
  assumes lib: "library_ok lib" and pp: "params_fit se v (db_params db)" and ok: "db_ok se v lib db"
    and h: "h \<in> db_hashed_items db" "(d, c) \<in> set (item_slots lib (db_params db) h)"
  shows "c div pp_bins_per_bundle (db_params db) < length (db_bin_bundles db)"
    "c mod pp_bins_per_bundle (db_params db) + length d \<le> pp_bins_per_bundle (db_params db)"
    "\<exists>b \<in> set (db_bin_bundles db ! (c div pp_bins_per_bundle (db_params db))). bb_num_bins b = pp_bins_per_bundle (db_params db) \<and>
       (\<forall>k < length d. key_at (bundle_rows b) (c mod pp_bins_per_bundle (db_params db) + k) (d ! k))"
proof -
  let ?n = "pp_bins_per_bundle (db_params db)"
  let ?B = "c div ?n" and ?s = "c mod ?n"
  have fits: "db_fits se v lib (db_params db) (db_bin_bundles db)" "db_content lib (db_params db) (db_hashed_items db) (db_bin_bundles db)"
    and wf: "item_wf h" using ok h(1) by (auto simp: db_ok_def)
  show B: "?B < length (db_bin_bundles db)" and "?s + length d \<le> ?n"
    using slots_ok [OF lib pp wf] h(2) fits(1) by (auto simp: db_fits_def item_rows_def)
  obtain b where b: "b \<in> set (db_bin_bundles db ! ?B)" "holds_at b ?s (item_rows d)"
    using fits(2) h by (fastforce simp: db_content_def set_holds_def)
  have "bb_num_bins b = ?n" using fits(1) b(1) B by (auto simp: db_fits_def bundle_fits_def)
  moreover have "key_at (bundle_rows b) (?s + k) (d ! k)" if k: "k < length d" for k
  proof -
    have "(d ! k, []) \<in> set (bundle_rows b (?s + k))" using b(2) k by (simp add: holds_at_def item_rows_def)
    then show ?thesis by (force simp: key_at_def)
  qed
  ultimately show "\<exists>b \<in> set (db_bin_bundles db ! ?B). bb_num_bins b = ?n \<and> (\<forall>k < length d. key_at (bundle_rows b) (?s + k) (d ! k))"
    using b(1) by blast
qed

text \<open>Every field element in a bin comes from a hashed item that belongs there.\<close>

lemma bundle_key_hashed:
  assumes ok: "db_ok se v lib db" and b: "B < length (db_bin_bundles db)" "b \<in> set (db_bin_bundles db ! B)"
    and k: "key_at (bundle_rows b) i key"
  shows "\<exists>h \<in> db_hashed_items db. \<exists>(d, c) \<in> set (item_slots lib (db_params db) h).
    c div pp_bins_per_bundle (db_params db) = B \<and> (\<exists>k < length d. i = c mod pp_bins_per_bundle (db_params db) + k \<and> d ! k = key)"
proof -
  let ?pp = "db_params db" and ?H = "db_hashed_items db"
  let ?n = "pp_bins_per_bundle ?pp"
  have rows: "set_rows (db_bin_bundles db ! B) i = (\<Sum>h \<in> ?H. slot_rows ?pp B i (item_slots lib ?pp h))" and fin: "finite ?H"
    using ok b(1) by (auto simp: db_ok_def db_content_def)
  obtain row where row: "row \<in> set (bundle_rows b i)" "fst row = key" using k by (auto simp: key_at_def)
  have "row \<in># set_rows (db_bin_bundles db ! B) i" by (rule set_rows_member [OF b(2) row(1)])
  then obtain h where h: "h \<in> ?H" "row \<in># slot_rows ?pp B i (item_slots lib ?pp h)"
    unfolding rows using fin by (auto simp: set_mset_sum)
  then obtain d c where dc: "(d, c) \<in> set (item_slots lib ?pp h)" "c div ?n = B" "row \<in># rows_at (c mod ?n) (item_rows d) i"
    unfolding slot_rows_def by (auto dest!: sum_list_member)
  then have i: "c mod ?n \<le> i" "i < c mod ?n + length d" "row = item_rows d ! (i - c mod ?n)"
    by (auto simp: rows_at_def item_rows_def split: if_splits)
  then have "d ! (i - c mod ?n) = key" using row(2) by (simp add: item_rows_def)
  then have "\<exists>k < length d. i = c mod ?n + k \<and> d ! k = key" using i by (intro exI [of _ "i - c mod ?n"]) auto
  then show ?thesis using h(1) dc(1,2) by blast
qed

lemma query_complete:
  assumes lib: "library_ok lib" and pp: "params_fit se v (db_params db)" and ok: "db_ok se v lib db" and comp: "compression_law se v"
    and ps: "qp_ps_low_degree (pp_query_params (db_params db)) \<noteq> 1"
    and q: "query_fits se v (db_params db) powers x"
    and h: "h \<in> db_hashed_items db" "(d, c) \<in> set (item_slots lib (db_params db) h)"
    and x: "\<forall>k < length d. x (c mod pp_bins_per_bundle (db_params db) + k) = unat (d ! k)"
  shows "\<exists>b \<in> set (db_bin_bundles db ! (c div pp_bins_per_bundle (db_params db))). \<exists>r.
    bundle_result se (db_params db) powers b = Inr r \<and>
    (\<forall>k < length d. cv_slots v r (c mod pp_bins_per_bundle (db_params db) + k) = 0)"
proof -
  let ?n = "pp_bins_per_bundle (db_params db)"
  let ?B = "c div ?n" and ?s = "c mod ?n"
  note at = hashed_in_bundle [OF lib pp ok h]
  obtain b where b: "b \<in> set (db_bin_bundles db ! ?B)" "bb_num_bins b = ?n"
    "\<forall>k < length d. key_at (bundle_rows b) (?s + k) (d ! k)" using at(3) by blast
  obtain r where r: "bundle_result se (db_params db) powers b = Inr r"
    "\<forall>i < bb_num_bins b. cv_slots v r i = 0 \<longleftrightarrow> (\<exists>k. key_at (bundle_rows b) i k \<and> unat k = x i)"
    using query_result [OF pp ok comp ps q nth_mem [OF at(1)] b(1)] by blast
  then show ?thesis using r b at(2) x by (intro bexI [OF _ b(1)] exI [of _ r]) auto
qed

text \<open>A zero slot comes from a field element of a hashed item that belongs there.\<close>

lemma query_sound:
  assumes pp: "params_fit se v (db_params db)" and ok: "db_ok se v lib db" and comp: "compression_law se v"
    and ps: "qp_ps_low_degree (pp_query_params (db_params db)) \<noteq> 1"
    and q: "query_fits se v (db_params db) powers x"
    and b: "B < length (db_bin_bundles db)" "b \<in> set (db_bin_bundles db ! B)"
    and r: "bundle_result se (db_params db) powers b = Inr r" "i < pp_bins_per_bundle (db_params db)" "cv_slots v r i = 0"
  shows "\<exists>h \<in> db_hashed_items db. \<exists>(d, c) \<in> set (item_slots lib (db_params db) h).
    c div pp_bins_per_bundle (db_params db) = B \<and> (\<exists>k < length d. i = c mod pp_bins_per_bundle (db_params db) + k \<and> unat (d ! k) = x i)"
proof -
  have S: "db_bin_bundles db ! B \<in> set (db_bin_bundles db)" using b(1) by simp
  have n: "bb_num_bins b = pp_bins_per_bundle (db_params db)"
    using ok b S by (auto simp: db_ok_def db_fits_def bundle_fits_def)
  obtain k where "key_at (bundle_rows b) i k" "unat k = x i"
    using query_result [OF pp ok comp ps q S b(2)] r n by auto
  then show ?thesis using bundle_key_hashed [OF ok b, of i k] by fastforce
qed

subsection \<open>A concrete library and parameters\<close>

definition toy_library :: "nat db_library" where
  "toy_library = \<lparr>dl_make_item = (\<lambda>i j. zero_item),
     dl_location = (\<lambda>table_size seed v. if v = seed then 0 else 3 mod table_size), dl_set_order = remdups,
     dl_fourq = toy_fourq, dl_xof = (\<lambda>n _ _. replicate n 0), dl_threads = 1, dl_table = (\<lambda>_. 0),
     dl_moved_from = (\<lambda>_. []), dl_undefined_shift = (\<lambda>_ _. 0)\<rparr>"

definition toy_params :: psi_params where
  "toy_params = \<lparr>pp_item_params = \<lparr>ip_felts_per_item = 27\<rparr>,
     pp_table_params = \<lparr>tp_table_size = 4, tp_max_items_per_bin = 5, tp_hash_func_count = 2\<rparr>,
     pp_query_params = \<lparr>qp_ps_low_degree = 0, qp_query_powers = [1, 2, 3, 4, 5]\<rparr>,
     pp_seal_params = \<lparr>sp_plain_modulus = \<lparr>mod_value = 13, mod_bit_count = 4\<rparr>, sp_poly_modulus_degree = 54,
       sp_parameters_set = True, sp_using_batching = True\<rparr>,
     pp_items_per_bundle = 2, pp_bins_per_bundle = 54, pp_bundle_idx_count = 2, pp_item_bit_count = 81,
     pp_item_bit_count_per_felt = 3\<rparr>"

lemma toy_library_ok: "library_ok toy_library"
  by (simp add: library_ok_def toy_library_def toy_fourq_def)

lemma toy_params_fit: "params_fit (clear_seal 13 54 1) (clear_view 54 1) toy_params"
  unfolding params_fit_def
proof (intro conjI)
  show "psi_params_ok toy_params" by (simp add: psi_params_ok_def toy_params_def)
  show "seal_laws (clear_seal 13 54 1) (clear_view 54 1)" by (rule clear_laws) simp
  have "is_prime 13" by (simp add: is_prime_list upt_rec)
  then show "mo_is_prime (se_mod (clear_seal 13 54 1))" by (simp add: clear_seal_def std_ops_def)
qed (simp_all add: toy_params_def usable_modulus_def mod_is_zero_def clear_seal_def clear_view_def std_ops_def)

lemma toy_reachable:
  "\<exists>db db'. make_sender_db toy_params key 0 0 = Inr db \<and>
     insert_or_assign_unlabeled (clear_seal 13 54 1) toy_library rnd data db = Inr db' \<and>
     db_reachable (clear_seal 13 54 1) toy_library toy_params db \<and>
     db_reachable (clear_seal 13 54 1) toy_library toy_params db' \<and> db_params db' = toy_params \<and>
     db_hashed_items db' = item_hashes toy_library key data"
proof -
  obtain db :: "clear_plaintext sender_db" where db: "make_sender_db toy_params key 0 0 = Inr db" "db_params db = toy_params"
    "db_oprf_key db = key" "db_hashed_items db = {}"
    by (simp add: make_sender_db_def db_clear_def clear_internal_def)
  have ok: "db_ok (clear_seal 13 54 1) (clear_view 54 1) toy_library db" by (rule make_db_ok [OF db(1)])
  have reach: "db_reachable (clear_seal 13 54 1) toy_library toy_params db" by (rule created [OF db(1)])
  obtain db' where db': "insert_or_assign_unlabeled (clear_seal 13 54 1) toy_library rnd data db = Inr db'"
    "db_hashed_items db' = item_hashes toy_library key data" "db_params db' = toy_params"
    using insert_unlabeled_ok [OF toy_library_ok _ ok, of rnd data] toy_params_fit db by auto
  then show ?thesis using db(1) reach inserted [OF reach db'(1)] by blast
qed

text \<open>A key, and the hashes it gives to items of one byte.\<close>

abbreviation toy_key :: scalar where
  "toy_key \<equiv> 3 # replicate 31 0"

lemma toy_hash:
  assumes "n < 17"
  shows "fst (get_item_hash toy_fourq [of_nat n] toy_key) = of_nat (3 * n mod 17) # replicate 15 0"
proof -
  have key: "scalar_val toy_key = 3" using residue_val [of 3] by (simp add: bytes_of_residue_def)
  have n: "unat (of_nat n :: byte) = n" using assms by (simp add: unat_of_nat)
  have "fq_blake2b toy_fourq 32 [of_nat n] = of_nat n # replicate 31 0"
    by (rule nth_equalityI) (auto simp: toy_fourq_def nth_Cons split: nat.split)
  then have "ecpoint_of_bytes toy_fourq [of_nat n] = n"
    using assms by (simp add: ecpoint_of_bytes_def) (simp add: toy_fourq_def n)
  moreover have "392 * n mod 17 = n" using mod_mult_self2 [of n 17 "23 * n"] assms by simp
  ultimately have point: "scalar_multiply toy_fourq (ecpoint_of_bytes toy_fourq [of_nat n]) toy_key True = (True, 3 * n mod 17)"
    by (simp add: scalar_multiply_def) (simp add: toy_fourq_def key)
  have hash: "extract_hash toy_fourq m = bytes_of_residue m" for m
    by (rule nth_equalityI) (simp_all add: extract_hash_def toy_fourq_def hash_size_def residue_bytes)
  have "take 16 (bytes_of_residue m) = of_nat m # replicate 15 0" for m by (simp add: bytes_of_residue_def)
  then show ?thesis by (simp add: get_item_hash_def split_hash_def point hash oprf_hash_size_def)
qed

subsection \<open>Properties\<close>

text \<open>
  C6. Inserting items into an unlabeled database succeeds, whatever the random evictions of the cuckoo
  filters, and adds the hashes of the items to the set of hashed items: the new database satisfies the
  invariant again, that is, its bins hold exactly the field elements of the hashed items at their
  locations, each item within one bundle, no bin outgrows its bound and all caches are up to date.
\<close>
theorem insert_unlabeled_refines_union:
  assumes "library_ok lib" "params_fit se v (db_params db)" "db_ok se v lib db"
  shows "\<exists>db'. insert_or_assign_unlabeled se lib rnd data db = Inr db' \<and> db_ok se v lib db' \<and>
    db_hashed_items db' = db_hashed_items db \<union> item_hashes lib (db_oprf_key db) data \<and>
    db_params db' = db_params db \<and> db_oprf_key db' = db_oprf_key db"
  by (rule insert_unlabeled_ok [OF assms])

theorem insert_unlabeled_refines_union_witness:
  "\<forall>rnd. \<exists>db db'. make_sender_db toy_params (replicate 32 1) 0 0 = Inr db \<and>
     insert_or_assign_unlabeled (clear_seal 13 54 1) toy_library rnd [zero_item, replicate 16 1, zero_item] db = Inr db' \<and>
     db_ok (clear_seal 13 54 1) (clear_view 54 1) toy_library db' \<and>
     db_hashed_items db' = db_hashed_items db \<union> item_hashes toy_library (db_oprf_key db) [zero_item, replicate 16 1, zero_item]"
proof
  fix rnd
  obtain db :: "clear_plaintext sender_db" where db: "make_sender_db toy_params (replicate 32 1) 0 0 = Inr db"
    "db_params db = toy_params"
    by (simp add: make_sender_db_def db_clear_def clear_internal_def)
  have fit: "params_fit (clear_seal 13 54 1) (clear_view 54 1) (db_params db)" using toy_params_fit by (simp only: db(2))
  show "\<exists>db db'. make_sender_db toy_params (replicate 32 1) 0 0 = Inr db \<and>
     insert_or_assign_unlabeled (clear_seal 13 54 1) toy_library rnd [zero_item, replicate 16 1, zero_item] db = Inr db' \<and>
     db_ok (clear_seal 13 54 1) (clear_view 54 1) toy_library db' \<and>
     db_hashed_items db' = db_hashed_items db \<union> item_hashes toy_library (db_oprf_key db) [zero_item, replicate 16 1, zero_item]"
    using insert_unlabeled_refines_union [OF toy_library_ok fit make_db_ok [OF db(1)], of rnd "[zero_item, replicate 16 1, zero_item]"]
      db(1) by blast
qed

text \<open>
  C9. Every database that is created, filled, cleared and moved by any sequence of operations satisfies
  the invariant, for the parameters it was created with.
\<close>
theorem reachable_invariant:
  assumes "db_reachable se lib pp db" "library_ok lib" "params_fit se v pp"
  shows "db_params db = pp \<and> db_ok se v lib db"
  by (rule reachable_ok [OF assms])

theorem reachable_invariant_witness:
  "\<exists>db. make_sender_db toy_params (replicate 32 1) 0 0 = Inr db \<and> db_params db = toy_params \<and>
     db_ok (clear_seal 13 54 1) (clear_view 54 1) toy_library (db_clear db)"
proof -
  obtain db where db: "make_sender_db toy_params (replicate 32 1) 0 0 = Inr db" "db_params db = toy_params"
    "db_reachable (clear_seal 13 54 1) toy_library toy_params db"
    using created [of toy_params "replicate 32 1" 0] by (force simp: make_sender_db_def db_clear_def clear_internal_def)
  have "db_ok (clear_seal 13 54 1) (clear_view 54 1) toy_library (db_clear db)"
    using reachable_invariant [OF cleared [OF db(3)] toy_library_ok toy_params_fit] by blast
  then show ?thesis using db(1,2) by blast
qed

text \<open>
  C20. In every such database no bin of a bundle holds more than \<open>max_items_per_bin - 1\<close> items, or one item
  where \<open>max_items_per_bin\<close> is 1: a datum goes to an existing bundle only when its bins stay below the bound
  (the comment of the worker says that they may reach it), and a fresh bundle takes its first item without
  looking at the bound. So no bin outgrows \<open>max_items_per_bin\<close>, the highest power that a query provides.
\<close>
theorem reachable_bins_bounded:
  assumes "db_reachable se lib pp db" "library_ok lib" "params_fit se v pp"
    and "S \<in> set (db_bin_bundles db)" "b \<in> set S" "i < bb_num_bins b"
  shows "length (bb_item_bins b ! i) \<le>
      (if tp_max_items_per_bin (pp_table_params pp) = 1 then 1 else tp_max_items_per_bin (pp_table_params pp) - 1) \<and>
    length (bb_item_bins b ! i) \<le> tp_max_items_per_bin (pp_table_params pp)"
proof -
  have "0 < tp_max_items_per_bin (pp_table_params pp)"
    using assms(3) by (simp add: params_fit_def psi_params_ok_def Let_def)
  moreover have "length (bb_item_bins b ! i) \<le> max 1 (tp_max_items_per_bin (pp_table_params pp) - 1)"
    using reachable_ok [OF assms(1-3)] ok_bins [OF _ assms(4-6)] by blast
  ultimately show ?thesis by (auto split: if_splits)
qed

theorem reachable_bins_bounded_witness:
  "\<forall>rnd data. \<exists>db. db_reachable (clear_seal 13 54 1) toy_library toy_params db \<and>
     db_hashed_items db = item_hashes toy_library (replicate 32 1) data \<and>
     (\<forall>S \<in> set (db_bin_bundles db). \<forall>b \<in> set S. \<forall>i < bb_num_bins b. length (bb_item_bins b ! i) \<le> 4)"
proof (intro allI)
  fix rnd :: "nat \<Rightarrow> nat \<Rightarrow> nat \<Rightarrow> nat" and data
  obtain db where db: "db_reachable (clear_seal 13 54 1) toy_library toy_params db"
    "db_hashed_items db = item_hashes toy_library (replicate 32 1) data"
    using toy_reachable by blast
  have "length (bb_item_bins b ! i) \<le> 4" if "S \<in> set (db_bin_bundles db)" "b \<in> set S" "i < bb_num_bins b" for S b i
    using reachable_bins_bounded [OF db(1) toy_library_ok toy_params_fit that] by (simp add: toy_params_def)
  then show "\<exists>db. db_reachable (clear_seal 13 54 1) toy_library toy_params db \<and>
     db_hashed_items db = item_hashes toy_library (replicate 32 1) data \<and>
     (\<forall>S \<in> set (db_bin_bundles db). \<forall>b \<in> set S. \<forall>i < bb_num_bins b. length (bb_item_bins b ! i) \<le> 4)"
    using db by blast
qed

text \<open>
  No false negatives. If the hash of an item was inserted and an encrypted query carries the field
  elements of that hash in the bins of one of its locations, then for some bundle at the location's bundle
  index the evaluation of the matching polynomial succeeds and decrypts to zero in all of these bins.
\<close>
theorem hashed_items_match:
  assumes "db_reachable se lib pp db" "library_ok lib" "params_fit se v pp" "compression_law se v"
    and "qp_ps_low_degree (pp_query_params pp) \<noteq> 1" "query_fits se v pp powers x"
    and "h \<in> db_hashed_items db" "(d, c) \<in> set (item_slots lib pp h)"
    and "\<forall>k < length d. x (c mod pp_bins_per_bundle pp + k) = unat (d ! k)"
  shows "\<exists>b \<in> set (db_bin_bundles db ! (c div pp_bins_per_bundle pp)). \<exists>r. bundle_result se pp powers b = Inr r \<and>
    (\<forall>k < length d. cv_slots v r (c mod pp_bins_per_bundle pp + k) = 0)"
proof -
  have db: "db_params db = pp" "db_ok se v lib db" using reachable_ok [OF assms(1-3)] by simp_all
  show ?thesis using query_complete [where db = db, OF assms(2) _ db(2) assms(4)] assms(3,5-9) by (simp add: db(1))
qed

text \<open>Every item has a slot, and a query can ask for it.\<close>

lemma toy_slot:
  assumes "item_wf h"
  shows "\<exists>d c. (d, c) \<in> set (item_slots toy_library toy_params h) \<and> (\<forall>x \<in> set d. unat x < 13)"
proof -
  obtain d where d: "algebraize_item h (pp_item_bit_count toy_params) (sp_plain_modulus (pp_seal_params toy_params)) = Inr d"
    "\<forall>x \<in> set d. unat x < mo_value (se_mod (clear_seal 13 54 1))"
    using slots_ok [OF toy_library_ok toy_params_fit assms] by blast
  have "all_locations toy_library (hash_functions toy_library toy_params) h \<noteq> []"
    by (simp add: all_locations_def hash_functions_def toy_library_def toy_params_def)
  then obtain location where "location \<in> set (all_locations toy_library (hash_functions toy_library toy_params) h)"
    by (meson ex_in_conv set_empty)
  then have "(d, location * ip_felts_per_item (pp_item_params toy_params)) \<in> set (item_slots toy_library toy_params h)"
    using d(1) by (auto simp: item_slots_def)
  then show ?thesis using d(2) by (auto simp: clear_seal_def std_ops_def)
qed

definition toy_query :: "felt list \<Rightarrow> nat \<Rightarrow> nat \<Rightarrow> nat" where
  "toy_query d s i = (if s \<le> i \<and> i < s + length d then unat (d ! (i - s)) else 0)"

lemma toy_query_fits:
  assumes "\<forall>x \<in> set d. unat x < 13"
  shows "query_fits (clear_seal 13 54 1) (clear_view 54 1) toy_params (clear_powers 13 5 (toy_query d s)) (toy_query d s)"
  using clear_powers_ok [of 13 54 5 "toy_query d s"] assms
  by (auto simp: query_fits_def toy_params_def toy_query_def clear_seal_def std_ops_def)

text \<open>A database with one item, and a query for it.\<close>

lemma toy_match:
  "\<exists>db d c. db_reachable (clear_seal 13 54 1) toy_library toy_params db \<and>
     db_hashed_items db = item_hashes toy_library (replicate 32 1) [zero_item] \<and> d \<noteq> [] \<and> c div 54 < length (db_bin_bundles db) \<and>
     c mod 54 + length d \<le> 54 \<and> (d, c) \<in> set (item_slots toy_library toy_params (fst (get_item_hash toy_fourq zero_item (replicate 32 1)))) \<and>
     fst (get_item_hash toy_fourq zero_item (replicate 32 1)) \<in> db_hashed_items db \<and>
     query_fits (clear_seal 13 54 1) (clear_view 54 1) toy_params (clear_powers 13 5 (toy_query d (c mod 54))) (toy_query d (c mod 54)) \<and>
     (\<forall>k < length d. toy_query d (c mod 54) (c mod pp_bins_per_bundle toy_params + k) = unat (d ! k))"
proof -
  let ?h = "fst (get_item_hash toy_fourq zero_item (replicate 32 1))"
  obtain db where db: "db_reachable (clear_seal 13 54 1) toy_library toy_params db"
    "db_hashed_items db = item_hashes toy_library (replicate 32 1) [zero_item]"
    using toy_reachable [of "replicate 32 1" _ "[zero_item]"] by blast
  have fq: "dl_fourq toy_library = toy_fourq" by (simp add: toy_library_def)
  have h: "?h \<in> db_hashed_items db" by (simp add: db(2) item_hashes_def fq)
  have wf: "item_wf ?h" using hashed_item_wf [OF toy_library_ok] by (simp only: fq)
  then obtain d c where dc: "(d, c) \<in> set (item_slots toy_library toy_params ?h)" "\<forall>x \<in> set d. unat x < 13"
    using toy_slot by blast
  have n: "pp_bins_per_bundle toy_params = 54" "pp_bundle_idx_count toy_params = 2" by (simp_all add: toy_params_def)
  have "length (db_bin_bundles db) = 2"
    using reachable_ok [OF db(1) toy_library_ok toy_params_fit] n(2) by (auto simp: db_ok_def db_fits_def)
  moreover have "d \<noteq> []" "c mod 54 + length d \<le> 54" "c div 54 < 2"
    using slots_ok [OF toy_library_ok toy_params_fit wf] dc(1) by (auto simp: n rows_fit_def item_rows_def)
  ultimately show ?thesis using db h dc(1) toy_query_fits [OF dc(2), of "c mod 54"]
    by (intro exI [of _ db] exI [of _ d] exI [of _ c]) (simp add: toy_query_def n)
qed

theorem hashed_items_match_witness:
  "\<exists>db d c. \<exists>b \<in> set (db_bin_bundles db ! (c div 54)). \<exists>r.
     db_reachable (clear_seal 13 54 1) toy_library toy_params db \<and> db_hashed_items db = item_hashes toy_library (replicate 32 1) [zero_item] \<and>
     (d, c) \<in> set (item_slots toy_library toy_params (fst (get_item_hash toy_fourq zero_item (replicate 32 1)))) \<and>
     bundle_result (clear_seal 13 54 1) toy_params (clear_powers 13 5 (toy_query d (c mod 54))) b = Inr r \<and>
     (\<forall>k < length d. cv_slots (clear_view 54 1) r (c mod 54 + k) = 0)"
proof -
  obtain db d c where db: "db_reachable (clear_seal 13 54 1) toy_library toy_params db"
      "db_hashed_items db = item_hashes toy_library (replicate 32 1) [zero_item]"
    and dc: "(d, c) \<in> set (item_slots toy_library toy_params (fst (get_item_hash toy_fourq zero_item (replicate 32 1))))"
    and h: "fst (get_item_hash toy_fourq zero_item (replicate 32 1)) \<in> db_hashed_items db"
    and q: "query_fits (clear_seal 13 54 1) (clear_view 54 1) toy_params (clear_powers 13 5 (toy_query d (c mod 54))) (toy_query d (c mod 54))"
    and x: "\<forall>k < length d. toy_query d (c mod 54) (c mod pp_bins_per_bundle toy_params + k) = unat (d ! k)"
    using toy_match by blast
  have n: "pp_bins_per_bundle toy_params = 54" by (simp add: toy_params_def)
  have ps: "qp_ps_low_degree (pp_query_params toy_params) \<noteq> 1" by (simp add: toy_params_def)
  have "\<exists>b \<in> set (db_bin_bundles db ! (c div 54)). \<exists>r.
      bundle_result (clear_seal 13 54 1) toy_params (clear_powers 13 5 (toy_query d (c mod 54))) b = Inr r \<and>
      (\<forall>k < length d. cv_slots (clear_view 54 1) r (c mod 54 + k) = 0)"
    using hashed_items_match [OF db(1) toy_library_ok toy_params_fit clear_compression ps q h dc x]
    unfolding n .
  then show ?thesis using db dc by blast
qed

text \<open>
  No slot matches by accident: where the result of a bundle decrypts to zero in a bin, some hashed
  item has the queried field element at that bin.
\<close>
theorem matches_are_hashed_items:
  assumes "db_reachable se lib pp db" "library_ok lib" "params_fit se v pp" "compression_law se v"
    and "qp_ps_low_degree (pp_query_params pp) \<noteq> 1" "query_fits se v pp powers x"
    and "B < length (db_bin_bundles db)" "b \<in> set (db_bin_bundles db ! B)"
    and "bundle_result se pp powers b = Inr r" "i < pp_bins_per_bundle pp" "cv_slots v r i = 0"
  shows "\<exists>h \<in> db_hashed_items db. \<exists>(d, c) \<in> set (item_slots lib pp h).
    c div pp_bins_per_bundle pp = B \<and> (\<exists>k < length d. i = c mod pp_bins_per_bundle pp + k \<and> unat (d ! k) = x i)"
proof -
  have db: "db_params db = pp" "db_ok se v lib db" using reachable_ok [OF assms(1-3)] by simp_all
  show ?thesis using query_sound [where db = db, OF _ db(2) assms(4)] assms(3,5-11) by (simp add: db(1))
qed

theorem matches_are_hashed_items_witness:
  "\<exists>db b r d c. db_reachable (clear_seal 13 54 1) toy_library toy_params db \<and> b \<in> set (db_bin_bundles db ! (c div 54)) \<and>
     bundle_result (clear_seal 13 54 1) toy_params (clear_powers 13 5 (toy_query d (c mod 54))) b = Inr r \<and>
     cv_slots (clear_view 54 1) r (c mod 54) = 0 \<and>
     (\<exists>h \<in> db_hashed_items db. \<exists>(d', c') \<in> set (item_slots toy_library toy_params h). c' div 54 = c div 54 \<and>
       (\<exists>k < length d'. c mod 54 = c' mod 54 + k \<and> unat (d' ! k) = toy_query d (c mod 54) (c mod 54)))"
proof -
  let ?se = "clear_seal 13 54 1" and ?v = "clear_view 54 1"
  obtain db d c where db: "db_reachable ?se toy_library toy_params db"
    and d: "d \<noteq> []" "c div 54 < length (db_bin_bundles db)" "c mod 54 + length d \<le> 54"
    and dc: "(d, c) \<in> set (item_slots toy_library toy_params (fst (get_item_hash toy_fourq zero_item (replicate 32 1))))"
    and h: "fst (get_item_hash toy_fourq zero_item (replicate 32 1)) \<in> db_hashed_items db"
    and q: "query_fits ?se ?v toy_params (clear_powers 13 5 (toy_query d (c mod 54))) (toy_query d (c mod 54))"
    and x: "\<forall>k < length d. toy_query d (c mod 54) (c mod pp_bins_per_bundle toy_params + k) = unat (d ! k)"
    using toy_match by blast
  have n: "pp_bins_per_bundle toy_params = 54" and ps: "qp_ps_low_degree (pp_query_params toy_params) \<noteq> 1"
    by (simp_all add: toy_params_def)
  have ok: "db_params db = toy_params" "db_ok ?se ?v toy_library db"
    using reachable_ok [OF db toy_library_ok toy_params_fit] by simp_all
  obtain b r where b: "b \<in> set (db_bin_bundles db ! (c div 54))"
    "bundle_result ?se toy_params (clear_powers 13 5 (toy_query d (c mod 54))) b = Inr r"
    "\<forall>k < length d. cv_slots ?v r (c mod 54 + k) = 0"
    using query_complete [where db = db, OF toy_library_ok _ ok(2) clear_compression, of "clear_powers 13 5 (toy_query d (c mod 54))"
      "toy_query d (c mod 54)" "fst (get_item_hash toy_fourq zero_item (replicate 32 1))" d c] toy_params_fit ps q h dc x
    by (auto simp: ok(1) n)
  have zero: "cv_slots ?v r (c mod 54) = 0" using b(3) d(1) by force
  have i: "c mod 54 < pp_bins_per_bundle toy_params" by (simp add: n)
  have "\<exists>h \<in> db_hashed_items db. \<exists>(d', c') \<in> set (item_slots toy_library toy_params h). c' div 54 = c div 54 \<and>
      (\<exists>k < length d'. c mod 54 = c' mod 54 + k \<and> unat (d' ! k) = toy_query d (c mod 54) (c mod 54))"
    using matches_are_hashed_items [OF db toy_library_ok toy_params_fit clear_compression ps q d(2) b(1,2) i zero]
    unfolding n .
  then show ?thesis using db b(1,2) zero by blast
qed

end
