(* ===== verification/SenderQuerySpec.thy ===== *)
theory SenderQuerySpec
  imports SenderQuery SenderDbReach PowersPar
begin

text \<open>
  What the sender computes for a query: the powers it multiplies up, in any order that the workers of
  \<open>parallel_apply\<close> can produce, have the values, levels and forms that the evaluation needs; and every
  bundle of the database answers with one result part.
\<close>

subsection \<open>The orders of the calls\<close>

text \<open>The order in which the calls of a log, which is newest first, returned.\<close>

fun finished :: "event list \<Rightarrow> nat list" where
  "finished [] = []"
| "finished (Start p # lg) = finished lg"
| "finished (Finish p # lg) = finished lg @ [p]"

definition plan_order :: "powers_dag \<Rightarrow> nat list \<Rightarrow> bool" where
  "plan_order d order \<longleftrightarrow> distinct order \<and> set order = set (pd_target_powers d) \<and>
     (\<forall>i < length order. parents_at d (order ! i) = (0, 0) \<or>
        fst (parents_at d (order ! i)) \<in> set (take i order) \<and> snd (parents_at d (order ! i)) \<in> set (take i order))"

lemma finished_set: "set (finished lg) = {p. Finish p \<in> set lg}"
  by (induction lg rule: finished.induct) auto

lemma log_started:
  "log_ok d lg \<Longrightarrow> Start p \<in> set lg \<Longrightarrow> parents_at d p = (0, 0) \<or>
     Finish (fst (parents_at d p)) \<in> set lg \<and> Finish (snd (parents_at d p)) \<in> set lg"
  by (induction lg rule: finished.induct) auto

lemma finished_order:
  "log_ok d lg \<Longrightarrow> distinct (finished lg) \<and> (\<forall>i < length (finished lg). parents_at d (finished lg ! i) = (0, 0) \<or>
     fst (parents_at d (finished lg ! i)) \<in> set (take i (finished lg)) \<and>
     snd (parents_at d (finished lg ! i)) \<in> set (take i (finished lg)))"
proof (induction lg rule: finished.induct)
  case (3 p lg)
  then have "parents_at d p = (0, 0) \<or> fst (parents_at d p) \<in> set (finished lg) \<and> snd (parents_at d p) \<in> set (finished lg)"
    using log_started [of d lg p] by (simp add: finished_set)
  then show ?case using 3 by (auto simp: finished_set less_Suc_eq nth_append)
qed auto

text \<open>A run of \<open>parallel_apply\<close> in which some worker saw the end gives such an order.\<close>

lemma run_plan_order:
  assumes "dag_ok d" "reachable d n s" "Done \<in> set (po_workers s)"
  shows "plan_order d (finished (po_log s))"
proof -
  have inv: "pool_inv d s" using assms(1,2) by (simp add: pool_inv_reachable)
  then have lok: "log_ok d (po_log s)" and len: "length (po_states s) = length (pd_target_powers d)"
    and st: "\<And>p. Start p \<in> set (po_log s) \<Longrightarrow> p \<in> set (pd_target_powers d)" by (simp_all add: pool_inv_def)
  have "\<forall>x<length (po_states s). po_states s ! x = Computed"
    using inv assms(3) by (fastforce simp: pool_inv_def in_set_conv_nth)
  then have "Finish p \<in> set (po_log s)" if "p \<in> set (pd_target_powers d)" for p
    using that inv len by (auto simp: pool_inv_def state_ok_def in_set_conv_nth)
  then have "set (finished (po_log s)) = set (pd_target_powers d)"
    using st log_ok_finish_start [OF lok] by (auto simp: finished_set)
  then show ?thesis using finished_order [OF lok] by (simp add: plan_order_def)
qed

subsection \<open>Multiplying up\<close>

definition power_is :: "('p, 'c) seal \<Rightarrow> ('p, 'c) he_view \<Rightarrow> (nat \<Rightarrow> nat) \<Rightarrow> nat \<Rightarrow> 'c \<Rightarrow> bool" where
  "power_is se v x t c \<longleftrightarrow> ciphertext_is v c False (se_first_chain_index se) 2 (\<lambda>i. x i ^ t mod mo_value (se_mod se))"

lemma multiply_node_ok:
  assumes laws: "seal_laws se v" and node: "pn_parents node = (a, b)" "0 < a" "0 < b" "a + b = p" "pn_power node = p"
    and len: "a < length powers" "b < length powers" "p < length powers" and key: "se_using_keyswitching se"
    and ok: "power_is se v x a (powers ! a)" "power_is se v x b (powers ! b)"
  shows "\<exists>c. multiply_node se node powers = Inr (powers[p := c]) \<and> power_is se v x p c"
proof -
  let ?m = "mo_value (se_mod se)" and ?L = "se_first_chain_index se"
  have prod_eq: "(\<lambda>i. x i ^ a mod ?m * (x i ^ b mod ?m) mod ?m) = (\<lambda>i. x i ^ p mod ?m)"
    by (simp add: mod_simps power_add flip: node(4))
  have "\<exists>prod. (if a = b then bind_res (vec_get powers a) (se_square se)
      else bind_res (vec_get powers a) (\<lambda>c1. bind_res (vec_get powers b) (se_multiply se c1))) = Inr prod \<and>
    ciphertext_is v prod False ?L 3 (\<lambda>i. x i ^ p mod ?m)"
  proof (cases "a = b")
    case True
    then show ?thesis using law_square [OF laws ok(1) [unfolded power_is_def]] len prod_eq by auto
  next
    case False
    then show ?thesis using law_multiply [OF laws ok(1) [unfolded power_is_def] ok(2) [unfolded power_is_def]] len prod_eq
      by auto
  qed
  then obtain prod where prod: "(if a = b then bind_res (vec_get powers a) (se_square se)
      else bind_res (vec_get powers a) (\<lambda>c1. bind_res (vec_get powers b) (se_multiply se c1))) = Inr prod"
    "ciphertext_is v prod False ?L 3 (\<lambda>i. x i ^ p mod ?m)" by blast
  obtain c where c: "se_relinearize se prod = Inr c" "ciphertext_is v c False ?L 2 (\<lambda>i. x i ^ p mod ?m)"
    using law_relinearize [OF laws key prod(2)] by auto
  have "\<not> is_source node" using node by (simp add: is_source_def)
  then have "multiply_node se node powers = Inr (powers[p := c])"
    unfolding multiply_node_def using prod(1) c(1) key len(3) node(1,5) by simp
  then show ?thesis using c(2) by (auto simp: power_is_def)
qed

lemma multiply_nodes_ok:
  assumes laws: "seal_laws se v" and conf: "pd_configured d" and plan: "valid_plan d S" and order: "plan_order d order"
    and key: "se_using_keyswitching se \<or> set (pd_target_powers d) \<subseteq> S"
    and len: "\<forall>t \<in> set (pd_target_powers d). t < length powers"
    and src: "\<forall>t \<in> set (pd_target_powers d) \<inter> S. power_is se v x t (powers ! t)"
  shows "\<exists>powers'. multiply_nodes se d order powers = Inr powers' \<and> length powers' = length powers \<and>
    (\<forall>t \<in> set (pd_target_powers d). power_is se v x t (powers' ! t))"
proof -
  let ?T = "set (pd_target_powers d)"
  let ?step = "\<lambda>p ps. bind_res (node_at (pd_nodes d) p) (\<lambda>node. multiply_node se node ps)"
  have "\<exists>powers'. fold_res ?step rest ps = Inr powers' \<and> length powers' = length powers \<and>
      (\<forall>t \<in> ?T. t \<in> S \<or> t \<in> set (pre @ rest) \<longrightarrow> power_is se v x t (powers' ! t))"
    if "order = pre @ rest" "length ps = length powers" "\<forall>t \<in> ?T. t \<in> S \<or> t \<in> set pre \<longrightarrow> power_is se v x t (ps ! t)" for pre rest ps
    using that
  proof (induction rest arbitrary: pre ps)
    case (Cons p rest)
    have pT: "p \<in> ?T" using order Cons.prems(1) by (auto simp: plan_order_def)
    obtain node where node: "map_of (pd_nodes d) p = Some node" "pn_power node = p"
      "if p \<in> S then pn_parents node = (0, 0) else (\<exists>a b. pn_parents node = (a, b) \<and> split_of ?T p a b)"
      using plan pT unfolding valid_plan_def node_valid_def by metis
    have par: "parents_at d p = pn_parents node" using node(1) by (simp add: parents_at_def node_at_some)
    have "\<exists>ps'. multiply_node se node ps = Inr ps' \<and> length ps' = length powers \<and>
        (\<forall>t \<in> ?T. t \<in> S \<or> t \<in> set (pre @ [p]) \<longrightarrow> power_is se v x t (ps' ! t))"
    proof (cases "p \<in> S")
      case True
      then have "multiply_node se node ps = Inr ps" using node(3) by (simp add: multiply_node_def is_source_def)
      then show ?thesis using True Cons.prems(2,3) by auto
    next
      case False
      then obtain a b where ab: "pn_parents node = (a, b)" "a \<in> ?T" "b \<in> ?T" "0 < a" "0 < b" "a + b = p"
        using node(3) by (auto simp: split_of_def)
      have "length pre < length order" "order ! length pre = p" "take (length pre) order = pre" using Cons.prems(1) by simp_all
      then have "a \<in> set pre" "b \<in> set pre" using order ab(1,4) par unfolding plan_order_def by (metis fst_conv less_irrefl snd_conv)+
      then have "power_is se v x a (ps ! a)" "power_is se v x b (ps ! b)" using Cons.prems(3) ab(2,3) by auto
      moreover have "se_using_keyswitching se" using key False pT by auto
      moreover have "a < length ps" "b < length ps" "p < length ps" using len ab(2,3) pT Cons.prems(2) by auto
      ultimately obtain c where c: "multiply_node se node ps = Inr (ps[p := c])" "power_is se v x p c"
        using multiply_node_ok [OF laws ab(1,4-6) node(2)] by metis
      then show ?thesis using Cons.prems(2,3) \<open>p < length ps\<close> by (intro exI [of _ "ps[p := c]"]) (auto simp: nth_list_update)
    qed
    then obtain ps' where ps': "multiply_node se node ps = Inr ps'" "length ps' = length powers"
        "\<forall>t \<in> ?T. t \<in> S \<or> t \<in> set (pre @ [p]) \<longrightarrow> power_is se v x t (ps' ! t)" by blast
    then show ?case using Cons.IH [of "pre @ [p]" ps'] Cons.prems(1) node(1) by (simp add: node_at_some)
  qed auto
  from this [of "[]" order powers] show ?thesis
    using src conf order by (auto simp: multiply_nodes_def plan_order_def)
qed

end
