(* ===== verification/Receiver.thy ===== *)
theory Receiver
  imports SenderQuery
begin

text \<open>
  The receiver (\<open>receiver/apsi/receiver.cpp\<close>, \<open>itt.h\<close>, \<open>match_record.h\<close>): OPRF requests and their
  responses, the cuckoo table of the query items, the encrypted powers of a query, and the match records
  that are extracted from the result parts.
\<close>

subsection \<open>Libraries\<close>

text \<open>
  The cuckoo table of Kuku, and the encoder, encryptor and decryptor of SEAL, are parameters. An insertion
  returns whether the item was inserted, or throws. Encrypted objects are handed to the channel as they are;
  decryption returns the decoded slots.
\<close>

record 'kt kuku =
  ku_new :: "nat \<Rightarrow> nat \<Rightarrow> 'kt"
  ku_insert :: "item \<Rightarrow> 'kt \<Rightarrow> (bool \<times> 'kt) res"
  ku_leftover_empty :: "'kt \<Rightarrow> bool"
  ku_query :: "item \<Rightarrow> 'kt \<Rightarrow> nat res"
  ku_table :: "'kt \<Rightarrow> item list"

record ('p, 'o, 'c, 'k) client_crypto =
  cl_mod :: mod_ops
  cl_encode :: "nat list \<Rightarrow> 'p"
  cl_encryptor :: "('p \<Rightarrow> 'o) option"
  cl_decryptor :: "('c \<Rightarrow> nat list res) option"
  cl_relin_keys :: 'k
  cl_using_keyswitching :: bool
  cl_no_keys :: 'k
  cl_compr_mode_default :: nat

subsection \<open>State\<close>

record 'k receiver =
  rc_params :: psi_params
  rc_pd :: powers_dag
  rc_relin_keys :: 'k

text \<open>The map from the table to the items is an association list.\<close>

record index_translation_table =
  itt_map :: "(nat \<times> nat) list"
  itt_item_count :: nat

definition find_item_idx :: "index_translation_table \<Rightarrow> nat \<Rightarrow> nat" where
  "find_item_idx itt table_idx = (case map_of (itt_map itt) table_idx of None \<Rightarrow> itt_item_count itt | Some i \<Rightarrow> i)"

record match_record =
  mr_found :: bool
  mr_label :: "byte list"

definition no_match :: match_record where
  "no_match = \<lparr>mr_found = False, mr_label = []\<rparr>"

definition label_has_data :: "match_record \<Rightarrow> bool" where
  "label_has_data mr \<longleftrightarrow> mr_label mr \<noteq> []"

subsection \<open>Initialization\<close>

definition reset_keys :: "('p, 'o, 'c, 'k) client_crypto \<Rightarrow> 'k receiver \<Rightarrow> 'k receiver" where
  "reset_keys cl rc = rc\<lparr>rc_relin_keys := (if cl_using_keyswitching cl then cl_relin_keys cl else cl_no_keys cl)\<rparr>"

text \<open>Recompute the plan; the result is the receiver and the depth, and \<open>None\<close> when the targets are never made.\<close>

definition reset_powers_dag :: "oset \<Rightarrow> 'k receiver \<Rightarrow> ('k receiver \<times> nat) res option" where
  "reset_powers_dag source_powers rc =
     map_option (\<lambda>targets. bind_res targets (\<lambda>target_powers.
       bind_res (pd_configure (rc_pd rc) source_powers target_powers) (\<lambda>(pd, _).
         if \<not> pd_configured pd then Inl (Logic_error ''failed to configure PowersDag'')
         else bind_res (dag_depth pd) (\<lambda>depth. Inr (rc\<lparr>rc_pd := pd\<rparr>, depth)))))
       (create_powers_set (qp_ps_low_degree (pp_query_params (rc_params rc))) (tp_max_items_per_bin (pp_table_params (rc_params rc))))"

definition make_receiver :: "('p, 'o, 'c, 'k) client_crypto \<Rightarrow> psi_params \<Rightarrow> 'k receiver res option" where
  "make_receiver cl pp =
     map_option (\<lambda>r. bind_res r (\<lambda>(rc, _). Inr (reset_keys cl rc)))
       (reset_powers_dag (qp_query_powers (pp_query_params pp)) \<lparr>rc_params = pp, rc_pd = empty_dag, rc_relin_keys = cl_no_keys cl\<rparr>)"

subsection \<open>OPRF\<close>

definition oprf_response_size :: nat where "oprf_response_size = save_size"

definition create_oprf_request :: "oprf_receiver \<Rightarrow> byte list" where
  "create_oprf_request r = or_queries r"

definition extract_hashes :: "'pt fourq \<Rightarrow> byte list option \<Rightarrow> oprf_receiver \<Rightarrow> (item \<times> label_key) list res" where
  "extract_hashes fq oprf_response r =
     (case oprf_response of
        None \<Rightarrow> Inr []
      | Some data \<Rightarrow>
          let response_size = length data; oprf_response_item_count = response_size div oprf_response_size
          in if response_size mod oprf_response_size \<noteq> 0 \<or> oprf_response_item_count \<noteq> or_item_count r then Inr []
             else process_responses fq r data (or_item_count r) (or_item_count r))"

subsection \<open>Creating a query\<close>

definition cuckoo_insert_all :: "'kt kuku \<Rightarrow> item list \<Rightarrow> 'kt \<Rightarrow> 'kt res" where
  "cuckoo_insert_all ku items cuckoo =
     fold_res (\<lambda>v cuckoo. bind_res (ku_insert ku v cuckoo) (\<lambda>(inserted, cuckoo').
       if \<not> inserted \<and> \<not> ku_leftover_empty ku cuckoo' then
         Inl (Runtime_error ''failed to insert item into cuckoo table'')
       else Inr cuckoo')) items cuckoo"

definition fill_itt :: "'kt kuku \<Rightarrow> 'kt \<Rightarrow> item list \<Rightarrow> (nat \<times> nat) list res" where
  "fill_itt ku cuckoo items =
     fold_res (\<lambda>item_idx al. bind_res (ku_query ku (items ! item_idx) cuckoo) (\<lambda>item_loc.
       Inr (AList.update item_loc item_idx al))) [0..<length items] []"

text \<open>The field elements of the table entries of one bundle.\<close>

definition bundle_felts :: "psi_params \<Rightarrow> item list \<Rightarrow> nat \<Rightarrow> felt list res" where
  "bundle_felts pp table bundle_idx =
     (let start = bundle_idx * pp_items_per_bundle pp
      in if start + pp_items_per_bundle pp > length table then Inl Bad_access
         else bind_res (map_res (\<lambda>v. bind_res (make_bitstring_view v (pp_item_bit_count pp)) (\<lambda>item_bits.
                bits_to_field_elts (bs_data item_bits) (bs_bit_count item_bits) (sp_plain_modulus (pp_seal_params pp))))
                (take (pp_items_per_bundle pp) (drop start table)))
              (\<lambda>alg_items. Inr (concat alg_items)))"

definition prepare_data :: "mod_ops \<Rightarrow> 'k receiver \<Rightarrow> item list \<Rightarrow> (nat \<times> nat list) list list res" where
  "prepare_data m rc table =
     map_res (\<lambda>bundle_idx. bind_res (bundle_felts (rc_params rc) table bundle_idx) (\<lambda>alg_items.
       compute_plaintext_powers m (map unat alg_items) (rc_pd rc))) [0..<pp_bundle_idx_count (rc_params rc)]"

text \<open>\<open>encrypted_powers[e.first].emplace_back(e.second)\<close>\<close>

definition add_power :: "nat \<times> 'o \<Rightarrow> (nat \<times> 'o list) list \<Rightarrow> (nat \<times> 'o list) list" where
  "add_power e al = AList.update (fst e) ((case map_of al (fst e) of None \<Rightarrow> [] | Some cts \<Rightarrow> cts) @ [snd e]) al"

definition encrypt_data ::
  "('p, 'o, 'c, 'k) client_crypto \<Rightarrow> (nat \<times> nat list) list list \<Rightarrow> (nat \<times> 'o list) list res" where
  "encrypt_data cl plain_powers =
     fold_res (\<lambda>powers al. bind_res (encrypt_powers (cl_encryptor cl) (cl_encode cl) powers) (\<lambda>encrypted_power.
       Inr (fold add_power encrypted_power al))) plain_powers []"

definition create_query ::
  "'kt kuku \<Rightarrow> ('p, 'o, 'c, 'k) client_crypto \<Rightarrow> 'k receiver \<Rightarrow> item list \<Rightarrow>
   (('o, 'k) query_request \<times> index_translation_table) res" where
  "create_query ku cl rc items =
     (let pp = rc_params rc; tp = pp_table_params pp
      in bind_res (cuckoo_insert_all ku items (ku_new ku (tp_table_size tp) (tp_hash_func_count tp))) (\<lambda>cuckoo.
         bind_res (fill_itt ku cuckoo items) (\<lambda>table_idx_to_item_idx.
         bind_res (prepare_data (cl_mod cl) rc (ku_table ku cuckoo)) (\<lambda>plain_powers.
         bind_res (encrypt_data cl plain_powers) (\<lambda>encrypted_powers.
           Inr (\<lparr>qr_compr_mode = cl_compr_mode_default cl, qr_relin_keys = rc_relin_keys rc, qr_data = encrypted_powers\<rparr>,
                \<lparr>itt_map = table_idx_to_item_idx, itt_item_count = length items\<rparr>))))))"

subsection \<open>Result parts\<close>

record plain_result_package =
  pr_bundle_idx :: nat
  pr_psi_result :: "nat list"
  pr_label_byte_count :: nat
  pr_nonce_byte_count :: nat
  pr_label_result :: "nat list list"

definition extract_result :: "('p, 'o, 'c, 'k) client_crypto \<Rightarrow> 'c result_package \<Rightarrow> plain_result_package res" where
  "extract_result cl rp =
     (case cl_decryptor cl of
        None \<Rightarrow> Inl (Runtime_error ''decryptor is not configured in CryptoContext'')
      | Some decrypt \<Rightarrow>
          bind_res (decrypt (rp_psi_result rp)) (\<lambda>psi_result.
          bind_res (map_res decrypt (rp_label_result rp)) (\<lambda>label_result.
            Inr \<lparr>pr_bundle_idx = rp_bundle_idx rp, pr_psi_result = psi_result,
              pr_label_byte_count = rp_label_byte_count rp, pr_nonce_byte_count = rp_nonce_byte_count rp,
              pr_label_result = label_result\<rparr>)))"

definition has_n_zeros :: "nat list \<Rightarrow> nat \<Rightarrow> bool" where
  "has_n_zeros xs n = list_all (\<lambda>a. a = 0) (take n xs)"

definition mul_safe64 :: "nat \<Rightarrow> nat \<Rightarrow> nat res" where
  "mul_safe64 a b = (if a * b < 2 ^ 64 then Inr (a * b) else Inl (Logic_error ''unsigned overflow''))"

definition add_safe64 :: "nat \<Rightarrow> nat \<Rightarrow> nat res" where
  "add_safe64 a b = (if a + b < 2 ^ 64 then Inr (a + b) else Inl (Logic_error ''unsigned overflow''))"

text \<open>
  How much label data is expected: the label and nonce byte counts that the package announces, corrected by
  what was received and by whether there are keys; the result is the label, nonce and effective byte counts
  and the number of bits received.
\<close>

definition label_expectation ::
  "psi_params \<Rightarrow> nat \<Rightarrow> nat \<Rightarrow> plain_result_package \<Rightarrow> (nat \<times> nat \<times> nat \<times> nat) res" where
  "label_expectation pp key_count item_count plain_rp =
     (let label_byte_count = (if pr_label_byte_count plain_rp \<noteq> 0 \<and> pr_label_result plain_rp = [] then 0
            else pr_label_byte_count plain_rp);
          nonce_byte_count = (if label_byte_count \<noteq> 0 then pr_nonce_byte_count plain_rp else 0)
      in bind_res (add_safe64 nonce_byte_count label_byte_count) (\<lambda>effective_label_byte_count.
         bind_res (mul_safe64 (pp_item_bit_count pp) (length (pr_label_result plain_rp))) (\<lambda>received_label_bit_count.
           let received_label_byte_count = received_label_bit_count div 8;
               (label_byte_count1, effective1) =
                 (if received_label_byte_count < nonce_byte_count then (0, 0)
                  else if received_label_byte_count < effective_label_byte_count then
                    (received_label_byte_count - nonce_byte_count, received_label_byte_count)
                  else (label_byte_count, effective_label_byte_count));
               (label_byte_count2, effective2) =
                 (if label_byte_count1 \<noteq> 0 \<and> key_count \<noteq> item_count then (0, 0) else (label_byte_count1, effective1))
           in Inr (label_byte_count2, nonce_byte_count, effective2, received_label_bit_count))))"

text \<open>The label of the item at position \<open>bundle_offset\<close> of the bundle.\<close>

definition extract_label ::
  "xof \<Rightarrow> (u32 \<Rightarrow> nat \<Rightarrow> u32) \<Rightarrow> psi_params \<Rightarrow> label_key list \<Rightarrow> nat \<times> nat \<times> nat \<times> nat \<Rightarrow> nat list list \<Rightarrow> nat \<Rightarrow> nat \<Rightarrow> label res" where
  "extract_label blake2xb ub_shl pp label_keys expectation label_result bundle_offset item_idx =
     (case expectation of (label_byte_count, nonce_byte_count, effective_label_byte_count, received_label_bit_count) \<Rightarrow>
       let felts_per_item = ip_felts_per_item (pp_item_params pp)
       in bind_res (mul_safe64 bundle_offset felts_per_item) (\<lambda>label_offset.
          bind_res (map_res (\<lambda>label_parts. if label_offset + felts_per_item > length label_parts then Inl Bad_access
              else Inr (map word_of_nat (take felts_per_item (drop label_offset label_parts)))) label_result) (\<lambda>parts.
          bind_res (dealgebraize_label ub_shl (concat parts) received_label_bit_count (sp_plain_modulus (pp_seal_params pp)))
            (\<lambda>encrypted_label.
          bind_res (vec_get label_keys item_idx) (\<lambda>key.
            decrypt_label blake2xb (resize_bytes encrypted_label effective_label_byte_count) key nonce_byte_count)))))"

text \<open>The check of one item of the bundle.\<close>

definition process_entry ::
  "xof \<Rightarrow> (u32 \<Rightarrow> nat \<Rightarrow> u32) \<Rightarrow> psi_params \<Rightarrow> label_key list \<Rightarrow> index_translation_table \<Rightarrow> plain_result_package \<Rightarrow>
   nat \<times> nat \<times> nat \<times> nat \<Rightarrow> nat \<Rightarrow> nat \<Rightarrow> match_record list \<Rightarrow> match_record list res" where
  "process_entry blake2xb ub_shl pp label_keys itt plain_rp expectation bundle_start bundle_offset mrs =
     (let felts_per_item = ip_felts_per_item (pp_item_params pp);
          felts = drop (bundle_offset * felts_per_item) (pr_psi_result plain_rp)
      in if length felts < felts_per_item then Inl Bad_access
         else if \<not> has_n_zeros felts felts_per_item then Inr mrs
         else bind_res (add_safe64 bundle_offset bundle_start) (\<lambda>table_idx.
           let item_idx = find_item_idx itt table_idx
           in if item_idx = itt_item_count itt then Inr mrs
              else bind_res (vec_get mrs item_idx) (\<lambda>mr0.
                if mr_found mr0 then Inl (Runtime_error ''found a duplicate positive match; something is seriously wrong'')
                else if fst expectation = 0 then vec_set mrs item_idx \<lparr>mr_found = True, mr_label = []\<rparr>
                else bind_res (extract_label blake2xb ub_shl pp label_keys expectation (pr_label_result plain_rp) bundle_offset item_idx)
                  (\<lambda>label. vec_set mrs item_idx \<lparr>mr_found = True, mr_label = label\<rparr>))))"

definition process_result_part ::
  "('p, 'o, 'c, 'k) client_crypto \<Rightarrow> xof \<Rightarrow> (u32 \<Rightarrow> nat \<Rightarrow> u32) \<Rightarrow> psi_params \<Rightarrow> label_key list \<Rightarrow>
   index_translation_table \<Rightarrow> 'c result_package option \<Rightarrow> match_record list res" where
  "process_result_part cl blake2xb ub_shl pp label_keys itt result_part =
     (case result_part of
        None \<Rightarrow> Inr []
      | Some rp \<Rightarrow>
          bind_res (extract_result cl rp) (\<lambda>plain_rp.
          bind_res (mul_safe64 (pr_bundle_idx plain_rp) (pp_items_per_bundle pp)) (\<lambda>bundle_start.
          bind_res (label_expectation pp (length label_keys) (itt_item_count itt) plain_rp) (\<lambda>expectation.
            fold_res (process_entry blake2xb ub_shl pp label_keys itt plain_rp expectation bundle_start)
              [0..<pp_items_per_bundle pp] (replicate (itt_item_count itt) no_match)))))"

subsection \<open>Merging\<close>

definition merge_at :: "match_record list \<Rightarrow> nat \<Rightarrow> match_record list \<Rightarrow> match_record list res" where
  "merge_at this_mrs i mrs =
     bind_res (vec_get this_mrs i) (\<lambda>mr. bind_res (vec_get mrs i) (\<lambda>mr0.
       if mr_found mr \<and> \<not> mr_found mr0 then vec_set mrs i mr
       else if mr_found mr \<and> mr_found mr0 then
         Inl (Runtime_error ''found a duplicate positive match; something is seriously wrong'')
       else Inr mrs))"

definition merge_records :: "match_record list \<Rightarrow> match_record list \<Rightarrow> match_record list res" where
  "merge_records this_mrs mrs = fold_res (merge_at this_mrs) [0..<length mrs] mrs"

definition process_result ::
  "('p, 'o, 'c, 'k) client_crypto \<Rightarrow> xof \<Rightarrow> (u32 \<Rightarrow> nat \<Rightarrow> u32) \<Rightarrow> psi_params \<Rightarrow> label_key list \<Rightarrow>
   index_translation_table \<Rightarrow> 'c result_package option list \<Rightarrow> match_record list res" where
  "process_result cl blake2xb ub_shl pp label_keys itt result =
     fold_res (\<lambda>result_part mrs.
       bind_res (process_result_part cl blake2xb ub_shl pp label_keys itt result_part) (\<lambda>this_mrs.
         if length this_mrs \<noteq> length mrs then Inr mrs else merge_records this_mrs mrs))
       result (replicate (itt_item_count itt) no_match)"

end
