(* ===== verification/QueryRequest.thy ===== *)
theory QueryRequest
  imports SenderQuerySpec
begin

text \<open>
  Which query requests the sender accepts, and what an accepted query guarantees for its evaluation.
\<close>

subsection \<open>Accepted requests\<close>

definition query_ok :: "psi_params \<Rightarrow> ('c, 'k) query \<Rightarrow> bool" where
  "query_ok pp q \<longleftrightarrow>
     (let powers = set (qp_query_powers (pp_query_params pp));
          targets = power_targets (qp_ps_low_degree (pp_query_params pp)) (tp_max_items_per_bin (pp_table_params pp))
      in qu_valid q \<and> pd_configured (qu_pd q) \<and> valid_plan (qu_pd q) powers \<and> powers \<subseteq> targets \<and>
         distinct (pd_target_powers (qu_pd q)) \<and> set (pd_target_powers (qu_pd q)) = targets \<and>
         distinct (map fst (qu_data q)) \<and> fst ` set (qu_data q) = powers \<and>
         (\<forall>(e, cts) \<in> set (qu_data q). length cts = pp_bundle_idx_count pp))"

text \<open>What the constructor checks of a request.\<close>

definition request_ok :: "('o, 'c, 'k) seal_io \<Rightarrow> bool \<Rightarrow> psi_params \<Rightarrow> ('o, 'k) query_request \<Rightarrow> bool" where
  "request_ok io using_keyswitching pp req \<longleftrightarrow>
     (using_keyswitching \<longrightarrow> (\<exists>keys. io_extract_keys io (qr_relin_keys req) = Inr keys \<and> io_keys_valid io keys)) \<and>
     (\<forall>(e, cts) \<in> set (qr_data req). \<forall>ct \<in> set cts. \<exists>c. io_extract io ct = Inr c \<and> io_ciphertext_valid io c) \<and>
     fst ` set (qr_data req) = set (qp_query_powers (pp_query_params pp)) \<and>
     (\<forall>(e, cts) \<in> set (qr_data req). length cts = pp_bundle_idx_count pp)"

text \<open>The parameters as far as the plan of the powers depends on them.\<close>

definition powers_fit :: "psi_params \<Rightarrow> bool" where
  "powers_fit pp \<longleftrightarrow> psi_params_ok pp \<and> tp_max_items_per_bin (pp_table_params pp) < 2 ^ 31 \<and>
     distinct (qp_query_powers (pp_query_params pp))"

lemma query_powers_within:
  assumes "psi_params_ok pp"
  shows "set (qp_query_powers (pp_query_params pp)) \<subseteq>
    power_targets (qp_ps_low_degree (pp_query_params pp)) (tp_max_items_per_bin (pp_table_params pp))"
proof
  let ?low = "qp_ps_low_degree (pp_query_params pp)" and ?mb = "tp_max_items_per_bin (pp_table_params pp)"
  fix p assume p: "p \<in> set (qp_query_powers (pp_query_params pp))"
  have all: "\<forall>p \<in> set (qp_query_powers (pp_query_params pp)). p \<le> ?mb \<and> (p > ?low \<longrightarrow> p mod (?low + 1) = 0)"
    and zero: "0 \<notin> set (qp_query_powers (pp_query_params pp))"
    using assms unfolding psi_params_ok_def Let_def by blast+
  have b: "1 \<le> p" "p \<le> ?mb" "p > ?low \<longrightarrow> p mod (?low + 1) = 0" using p all zero by (cases "p = 0"; auto)+
  show "p \<in> power_targets ?low ?mb"
  proof (cases "p \<le> ?low \<or> ?low = 0")
    case False
    then obtain k where k: "p = k * (?low + 1)" using b(3) by (metis div_mult_mod_eq add_0_right linorder_not_le)
    then have "1 \<le> k" using b(1) by (cases k) simp_all
    then show ?thesis using b(2) False k by (auto simp: power_targets_def)
  qed (use b in \<open>auto simp: power_targets_def\<close>)
qed

lemma check_query_data_iff:
  "check_query_data n powers data \<longleftrightarrow> (\<forall>(e, cts) \<in> set data. length cts = n \<and> e \<in> set powers)"
  by (induction data rule: check_query_data.induct) auto

lemma plan_query_ok:
  assumes fit: "powers_fit pp" and q: "\<not> qu_valid q" "distinct (map fst (qu_data q))"
  shows "\<exists>q'. plan_query pp q = Some (Inr q') \<and> qu_data q' = qu_data q \<and> (qu_valid q' \<longrightarrow> query_ok pp q') \<and>
    (qu_valid q' \<longleftrightarrow> fst ` set (qu_data q) = set (qp_query_powers (pp_query_params pp)) \<and>
       (\<forall>(e, cts) \<in> set (qu_data q). length cts = pp_bundle_idx_count pp))"
proof -
  let ?low = "qp_ps_low_degree (pp_query_params pp)" and ?mb = "tp_max_items_per_bin (pp_table_params pp)"
    and ?S = "qp_query_powers (pp_query_params pp)"
  have ok: "psi_params_ok pp" and mb: "?mb < 2 ^ 31" and dS: "distinct ?S" using fit by (simp_all add: powers_fit_def)
  have low: "?low \<le> ?mb" "0 < ?mb" "1 \<in> set ?S" using ok unfolding psi_params_ok_def Let_def by blast+
  then have small: "?mb + ?low + 1 < 2 ^ 32" using mb by simp
  obtain T where T: "create_powers_set ?low ?mb = Some (Inr T)" "oset_ok T" "set T = power_targets ?low ?mb"
    using create_powers_set_targets [OF low(1,2) small] by blast
  have sub: "set ?S \<subseteq> set T" using query_powers_within [OF ok] by (simp add: T(3))
  have closed: "\<exists>a b. split_of (set T) p a b" if "p \<in> set T - set ?S" for p
    using that low(3) power_targets_closed [of p ?low ?mb] by (auto simp: T(3))
  have T0: "0 \<notin> set T" by (simp add: T(3) power_targets_pos)
  obtain nodes cd where conf: "pd_configure empty_dag ?S T =
      Inr (\<lparr>pd_nodes = nodes, pd_configured = True, pd_target_powers = T, pd_depth = cd, pd_source_count = length ?S\<rparr>, True)"
    and nodes: "\<forall>p \<in> set T. node_valid nodes (set ?S) (set T) p"
    using configure_ok [OF T(2) T0 low(3) sub closed, of empty_dag] by blast
  define pd where "pd = \<lparr>pd_nodes = nodes, pd_configured = True, pd_target_powers = T, pd_depth = cd, pd_source_count = length ?S\<rparr>"
  let ?ok = "length (qu_data q) = length ?S \<and> check_query_data (pp_bundle_idx_count pp) ?S (qu_data q)"
  have run: "plan_query pp q = Some (Inr (if ?ok then q\<lparr>qu_pd := pd, qu_valid := True\<rparr> else q\<lparr>qu_pd := pd\<rparr>))"
    by (simp add: plan_query_def T(1) conf Let_def flip: pd_def) (simp add: pd_def)
  have len: "length (qu_data q) = card (fst ` set (qu_data q))" "length ?S = card (set ?S)"
    using distinct_card [OF q(2)] distinct_card [OF dS] by simp_all
  have iff: "?ok \<longleftrightarrow> fst ` set (qu_data q) = set ?S \<and> (\<forall>(e, cts) \<in> set (qu_data q). length cts = pp_bundle_idx_count pp)"
  proof
    assume a: ?ok
    then have "fst ` set (qu_data q) \<subseteq> set ?S" by (auto simp: check_query_data_iff)
    then have "fst ` set (qu_data q) = set ?S" using a len by (metis card_subset_eq List.finite_set)
    then show "fst ` set (qu_data q) = set ?S \<and> (\<forall>(e, cts) \<in> set (qu_data q). length cts = pp_bundle_idx_count pp)"
      using a by (auto simp: check_query_data_iff)
  next
    assume a: "fst ` set (qu_data q) = set ?S \<and> (\<forall>(e, cts) \<in> set (qu_data q). length cts = pp_bundle_idx_count pp)"
    then have "e \<in> set ?S" if "(e, cts) \<in> set (qu_data q)" for e cts using that by force
    then show ?ok using a len by (auto simp: check_query_data_iff)
  qed
  have "distinct T" using T(2) by (simp add: oset_ok_def strict_sorted_iff)
  then have "query_ok pp (q\<lparr>qu_pd := pd, qu_valid := True\<rparr>)" if ?ok
    using that iff nodes sub q(2) by (auto simp: query_ok_def pd_def valid_plan_def T(3))
  then show ?thesis using run q(1) iff by auto
qed

text \<open>The extraction of the ciphertexts.\<close>

definition extracts :: "('o, 'c, 'k) seal_io \<Rightarrow> 'o \<Rightarrow> 'c \<Rightarrow> bool" where
  "extracts io ct c \<longleftrightarrow> io_extract io ct = Inr c \<and> io_ciphertext_valid io c"

lemma extract_ciphertexts_some:
  "extract_ciphertexts io cts = Inr (Some cs) \<longleftrightarrow> list_all2 (extracts io) cts cs"
proof (induction cts arbitrary: cs)
  case (Cons ct cts)
  show ?case
  proof (cases "io_extract io ct")
    case (Inr c)
    then show ?thesis using Cons
      by (cases "extract_ciphertexts io cts") (auto simp: extracts_def list_all2_Cons1)
  qed (simp add: extracts_def list_all2_Cons1)
qed auto

definition row_extracts :: "('o, 'c, 'k) seal_io \<Rightarrow> nat \<times> 'o list \<Rightarrow> nat \<times> 'c list \<Rightarrow> bool" where
  "row_extracts io q r \<longleftrightarrow> fst q = fst r \<and> list_all2 (extracts io) (snd q) (snd r)"

lemma update_fresh: "k \<notin> fst ` set al \<Longrightarrow> AList.update k v al = al @ [(k, v)]"
  by (induction al) auto

lemma extract_data_some:
  assumes "distinct (map fst req)" "fst ` set req \<inter> fst ` set acc = {}"
  shows "extract_data io req acc = Inr (data, True) \<longleftrightarrow> (\<exists>rows. data = acc @ rows \<and> list_all2 (row_extracts io) req rows)"
  using assms
proof (induction req arbitrary: acc)
  case (Cons q req)
  obtain e cts where q: "q = (e, cts)" by fastforce
  show ?case
  proof (cases "extract_ciphertexts io cts")
    case (Inl err)
    then have "\<not> list_all2 (extracts io) cts cs" for cs using extract_ciphertexts_some [of io cts cs] by auto
    then show ?thesis using Inl by (auto simp: q row_extracts_def list_all2_Cons1)
  next
    case (Inr got)
    show ?thesis
    proof (cases got)
      case None
      then have "\<not> list_all2 (extracts io) cts cs" for cs using extract_ciphertexts_some [of io cts cs] Inr by auto
      then show ?thesis using Inr None by (auto simp: q row_extracts_def list_all2_Cons1)
    next
      case (Some cs)
      have only: "list_all2 (extracts io) cts cs' \<longleftrightarrow> cs' = cs" for cs'
        using extract_ciphertexts_some [of io cts cs'] Inr Some by auto
      have e: "e \<notin> fst ` set acc" using Cons.prems(2) by (simp add: q)
      have "extract_data io (q # req) acc = extract_data io req (acc @ [(e, cs)])"
        using Inr Some by (simp add: q update_fresh [OF e])
      also have "\<dots> = Inr (data, True) \<longleftrightarrow> (\<exists>rows. data = (acc @ [(e, cs)]) @ rows \<and> list_all2 (row_extracts io) req rows)"
        using Cons.prems by (intro Cons.IH) (auto simp: q)
      also have "\<dots> \<longleftrightarrow> (\<exists>rows. data = acc @ rows \<and> list_all2 (row_extracts io) (q # req) rows)"
        by (auto simp: list_all2_Cons1 row_extracts_def q only)
      finally show ?thesis .
    qed
  qed
qed auto

lemma list_all2_exists: "(\<exists>ys. list_all2 R xs ys) \<longleftrightarrow> (\<forall>x \<in> set xs. \<exists>y. R x y)"
proof (induction xs)
  case (Cons x xs)
  have "(\<exists>ys. list_all2 R (x # xs) ys) \<longleftrightarrow> (\<exists>y. R x y) \<and> (\<exists>ys. list_all2 R xs ys)"
    unfolding list_all2_Cons1 by blast
  then show ?case by (simp add: Cons.IH)
qed simp

lemma rows_exist:
  "(\<exists>rows. list_all2 (row_extracts io) req rows) \<longleftrightarrow> (\<forall>(e, cts) \<in> set req. \<forall>ct \<in> set cts. \<exists>c. extracts io ct c)"
proof -
  have "(\<exists>r. row_extracts io q r) \<longleftrightarrow> (\<forall>ct \<in> set (snd q). \<exists>c. extracts io ct c)" for q
    unfolding list_all2_exists [symmetric] by (auto simp: row_extracts_def)
  then show ?thesis by (simp add: list_all2_exists case_prod_unfold)
qed

lemma rows_frame:
  assumes "list_all2 (row_extracts io) req rows"
  shows "map fst rows = map fst req" and "(\<forall>(e, cts) \<in> set rows. length cts = n) \<longleftrightarrow> (\<forall>(e, cts) \<in> set req. length cts = n)"
  using assms by (induction rule: list_all2_induct) (auto simp: row_extracts_def case_prod_unfold dest: list_all2_lengthD)

lemma extract_data_distinct:
  "extract_data io req acc = Inr (data, ok) \<Longrightarrow> distinct (map fst acc) \<Longrightarrow> distinct (map fst data)"
  by (induction io req acc rule: extract_data.induct) (auto simp: result_simps distinct_update split: option.splits)

lemma extract_query_ok:
  assumes fit: "powers_fit pp" and q: "\<not> qu_valid q" "distinct (map fst (qr_data req))"
  shows "\<exists>r. extract_query io pp req q = Some r \<and> (\<forall>q'. r = Inr q' \<and> qu_valid q' \<longrightarrow> query_ok pp q' \<and>
       list_all2 (row_extracts io) (qr_data req) (qu_data q')) \<and>
    ((\<exists>q'. r = Inr q' \<and> qu_valid q') \<longleftrightarrow>
       (\<forall>(e, cts) \<in> set (qr_data req). \<forall>ct \<in> set cts. \<exists>c. extracts io ct c) \<and>
       fst ` set (qr_data req) = set (qp_query_powers (pp_query_params pp)) \<and>
       (\<forall>(e, cts) \<in> set (qr_data req). length cts = pp_bundle_idx_count pp))"
proof (cases "\<exists>rows. list_all2 (row_extracts io) (qr_data req) rows")
  case True
  then obtain rows where rows: "list_all2 (row_extracts io) (qr_data req) rows" by blast
  then have x: "extract_data io (qr_data req) [] = Inr (rows, True)" using extract_data_some [of "qr_data req" "[]" io rows] q(2) by simp
  have keys: "fst ` set rows = fst ` set (qr_data req)" using rows_frame(1) [OF rows] by (metis list.set_map)
  have len: "(\<forall>(e, cts) \<in> set rows. length cts = n) \<longleftrightarrow> (\<forall>(e, cts) \<in> set (qr_data req). length cts = n)" for n
    by (rule rows_frame(2) [OF rows])
  have dist: "distinct (map fst (qu_data (q\<lparr>qu_data := rows\<rparr>)))" and inv: "\<not> qu_valid (q\<lparr>qu_data := rows\<rparr>)"
    using q rows_frame(1) [OF rows] by simp_all
  have data: "qu_data (q\<lparr>qu_data := rows\<rparr>) = rows" by simp
  obtain q' where q': "plan_query pp (q\<lparr>qu_data := rows\<rparr>) = Some (Inr q')" "qu_data q' = rows" "qu_valid q' \<longrightarrow> query_ok pp q'"
    "qu_valid q' \<longleftrightarrow> fst ` set rows = set (qp_query_powers (pp_query_params pp)) \<and>
       (\<forall>(e, cts) \<in> set rows. length cts = pp_bundle_idx_count pp)"
    using plan_query_ok [OF fit inv dist] unfolding data by (elim exE conjE) (rule that)
  have "\<forall>(e, cts) \<in> set (qr_data req). \<forall>ct \<in> set cts. \<exists>c. extracts io ct c" using True by (simp only: rows_exist)
  then show ?thesis using x q' rows unfolding keys len by (auto simp: extract_query_def)
next
  case False
  then have "\<not> (\<forall>(e, cts) \<in> set (qr_data req). \<forall>ct \<in> set cts. \<exists>c. extracts io ct c)" by (simp only: rows_exist not_False_eq_True)
  moreover from False have "\<not> (\<exists>data. extract_data io (qr_data req) [] = Inr (data, True))"
    using False extract_data_some [of "qr_data req" "[]" io] q(2) by simp
  then have "\<exists>r. extract_query io pp req q = Some r \<and> (\<nexists>q'. r = Inr q' \<and> qu_valid q')" using q(1)
    by (cases "extract_data io (qr_data req) []") (auto simp: extract_query_def)
  ultimately show ?thesis by blast
qed

text \<open>
  The constructor always returns; the query is valid exactly when the request passes the checks, and then
  it has everything that the evaluation relies on.
\<close>

lemma make_query_ok:
  assumes "powers_fit pp" "distinct (map fst (qr_data req))"
  shows "\<exists>r. make_query io using_keyswitching (Some req) (Some pp) = Some r \<and>
    ((\<exists>q. r = Inr q \<and> qu_valid q) \<longleftrightarrow> request_ok io using_keyswitching pp req) \<and>
    (\<forall>q. r = Inr q \<and> qu_valid q \<longrightarrow> query_ok pp q \<and> list_all2 (row_extracts io) (qr_data req) (qu_data q))"
proof -
  let ?q = "\<lparr>qu_relin_keys = io_no_keys io, qu_data = [], qu_pd = empty_dag, qu_valid = False, qu_compr_mode = qr_compr_mode req\<rparr>"
  let ?checks = "(\<forall>(e, cts) \<in> set (qr_data req). \<forall>ct \<in> set cts. \<exists>c. extracts io ct c) \<and>
       fst ` set (qr_data req) = set (qp_query_powers (pp_query_params pp)) \<and>
       (\<forall>(e, cts) \<in> set (qr_data req). length cts = pp_bundle_idx_count pp)"
  consider q where "make_query io using_keyswitching (Some req) (Some pp) = extract_query io pp req q" "\<not> qu_valid q"
      "request_ok io using_keyswitching pp req \<longleftrightarrow> ?checks"
    | r where "make_query io using_keyswitching (Some req) (Some pp) = Some r" "\<nexists>q. r = Inr q \<and> qu_valid q"
      "\<not> request_ok io using_keyswitching pp req"
  proof (cases "using_keyswitching \<longrightarrow> (\<exists>keys. io_extract_keys io (qr_relin_keys req) = Inr keys \<and> io_keys_valid io keys)")
    case True
    then have ok: "request_ok io using_keyswitching pp req \<longleftrightarrow> ?checks" by (simp add: request_ok_def extracts_def)
    show thesis
    proof (cases using_keyswitching)
      case True
      then obtain keys where "io_extract_keys io (qr_relin_keys req) = Inr keys" "io_keys_valid io keys"
        using \<open>using_keyswitching \<longrightarrow> _\<close> by blast
      then show thesis using True ok by (intro that(1) [of "?q\<lparr>qu_relin_keys := keys\<rparr>"]) (simp_all add: make_query_def Let_def)
    next
      case False
      then show thesis using ok by (intro that(1) [of ?q]) (simp_all add: make_query_def Let_def)
    qed
  next
    case False
    then have no: "\<not> request_ok io using_keyswitching pp req" by (simp add: request_ok_def)
    have "\<exists>r. make_query io using_keyswitching (Some req) (Some pp) = Some r \<and> (\<nexists>q. r = Inr q \<and> qu_valid q)"
      using False by (cases "io_extract_keys io (qr_relin_keys req)") (simp_all add: make_query_def Let_def)
    then show thesis using no that(2) by blast
  qed
  then show ?thesis
  proof cases
    case 1
    obtain r where "extract_query io pp req q = Some r" "(\<exists>q'. r = Inr q' \<and> qu_valid q') \<longleftrightarrow> ?checks"
      "\<forall>q'. r = Inr q' \<and> qu_valid q' \<longrightarrow> query_ok pp q' \<and> list_all2 (row_extracts io) (qr_data req) (qu_data q')"
      using extract_query_ok [OF assms(1) 1(2) assms(2), of io] by (elim exE conjE) (rule that)
    then show ?thesis unfolding 1(1,3) by (intro exI [of _ r] conjI)
  next
    case 2
    then show ?thesis by blast
  qed
qed

end
