(* ===== verification/ReceiverQuery.thy ===== *)
theory ReceiverQuery
  imports Receiver QueryRequest
begin

text \<open>
  The query that the receiver makes: every item has one place in the cuckoo table, the translation table
  leads back from there, and the encrypted data is what the sender accepts and evaluates.
\<close>

subsection \<open>The cuckoo table\<close>

text \<open>
  The documented behaviour of Kuku: a table of the given size keeps every inserted item at one of its
  locations, and \<open>query\<close> returns that location; \<open>contains t I\<close> says that the items \<open>I\<close> are in the table.
\<close>

definition kuku_laws :: "'kt kuku \<Rightarrow> ('kt \<Rightarrow> item set \<Rightarrow> bool) \<Rightarrow> 'pt db_library \<Rightarrow> psi_params \<Rightarrow> bool" where
  "kuku_laws ku contains lib pp \<longleftrightarrow>
     contains (ku_new ku (tp_table_size (pp_table_params pp)) (tp_hash_func_count (pp_table_params pp))) {} \<and>
     (\<forall>t I v t'. contains t I \<and> ku_insert ku v t = Inr (True, t') \<longrightarrow> contains t' (insert v I)) \<and>
     (\<forall>t I v t'. contains t I \<and> ku_insert ku v t = Inr (False, t') \<and> ku_leftover_empty ku t' \<longrightarrow> v \<in> I \<and> contains t' I) \<and>
     (\<forall>t I. contains t I \<longrightarrow> length (ku_table ku t) = tp_table_size (pp_table_params pp) \<and>
        set (ku_table ku t) \<subseteq> insert zero_item I \<and>
        (\<forall>v \<in> I. \<exists>loc. ku_query ku v t = Inr loc \<and> loc < tp_table_size (pp_table_params pp) \<and> ku_table ku t ! loc = v \<and>
           loc \<in> set (all_locations lib (hash_functions lib pp) v)))"

lemma cuckoo_insert_contains:
  assumes "kuku_laws ku contains lib pp" "cuckoo_insert_all ku items t = Inr t'" "contains t I"
  shows "contains t' (I \<union> set items)"
  using assms(2,3)
proof (induction items arbitrary: t I)
  case (Cons v items)
  obtain b u where ins: "ku_insert ku v t = Inr (b, u)" "b \<or> ku_leftover_empty ku u" "cuckoo_insert_all ku items u = Inr t'"
    using Cons.prems(1) by (auto simp: cuckoo_insert_all_def result_simps split: if_splits)
  have "contains u (insert v I)"
  proof (cases b)
    case True
    then have "ku_insert ku v t = Inr (True, u)" using ins(1) by simp
    then show ?thesis using assms(1) Cons.prems(2) unfolding kuku_laws_def by blast
  next
    case False
    then have "ku_insert ku v t = Inr (False, u)" "ku_leftover_empty ku u" using ins(1,2) by simp_all
    then have "v \<in> I \<and> contains u I" using assms(1) Cons.prems(2) unfolding kuku_laws_def by blast
    then show ?thesis by (simp add: insert_absorb)
  qed
  then show ?case using Cons.IH [OF ins(3), of "insert v I"] by simp
qed (simp add: cuckoo_insert_all_def)

text \<open>The place of an item in the final table.\<close>

definition place :: "'kt kuku \<Rightarrow> 'kt \<Rightarrow> item \<Rightarrow> nat" where
  "place ku t v = (case ku_query ku v t of Inl e \<Rightarrow> 0 | Inr loc \<Rightarrow> loc)"

definition places_ok :: "'kt kuku \<Rightarrow> 'pt db_library \<Rightarrow> psi_params \<Rightarrow> 'kt \<Rightarrow> item list \<Rightarrow> bool" where
  "places_ok ku lib pp t items \<longleftrightarrow> length (ku_table ku t) = tp_table_size (pp_table_params pp) \<and>
     set (ku_table ku t) \<subseteq> insert zero_item (set items) \<and>
     (\<forall>v \<in> set items. ku_query ku v t = Inr (place ku t v) \<and> place ku t v < tp_table_size (pp_table_params pp) \<and>
        ku_table ku t ! place ku t v = v \<and> place ku t v \<in> set (all_locations lib (hash_functions lib pp) v))"

lemma cuckoo_places:
  assumes "kuku_laws ku contains lib pp"
    and "cuckoo_insert_all ku items (ku_new ku (tp_table_size (pp_table_params pp)) (tp_hash_func_count (pp_table_params pp))) = Inr t"
  shows "places_ok ku lib pp t items"
proof -
  have "contains (ku_new ku (tp_table_size (pp_table_params pp)) (tp_hash_func_count (pp_table_params pp))) {}"
    using assms(1) unfolding kuku_laws_def by blast
  from cuckoo_insert_contains [OF assms this] have "contains t (set items)" by simp
  then have "length (ku_table ku t) = tp_table_size (pp_table_params pp) \<and> set (ku_table ku t) \<subseteq> insert zero_item (set items) \<and>
        (\<forall>v \<in> set items. \<exists>loc. ku_query ku v t = Inr loc \<and> loc < tp_table_size (pp_table_params pp) \<and> ku_table ku t ! loc = v \<and>
           loc \<in> set (all_locations lib (hash_functions lib pp) v))"
    using assms(1) unfolding kuku_laws_def by blast
  then show ?thesis by (auto simp: places_ok_def place_def)
qed

subsection \<open>The translation table\<close>

text \<open>A repeated item is recorded under its last index.\<close>

definition last_index :: "item list \<Rightarrow> nat \<Rightarrow> bool" where
  "last_index items i \<longleftrightarrow> i < length items \<and> items ! i \<notin> set (drop (i + 1) items)"

definition itt_ok :: "'kt kuku \<Rightarrow> 'kt \<Rightarrow> item list \<Rightarrow> index_translation_table \<Rightarrow> bool" where
  "itt_ok ku t items itt \<longleftrightarrow> itt_item_count itt = length items \<and>
     (\<forall>loc i. map_of (itt_map itt) loc = Some i \<longleftrightarrow> last_index items i \<and> place ku t (items ! i) = loc)"

lemma last_index_take:
  "last_index (take (Suc n) items) i \<longleftrightarrow> i = n \<or> last_index (take n items) i \<and> items ! i \<noteq> items ! n"
  if "n < length items"
proof -
  have "take (Suc n) items = take n items @ [items ! n]" using that by (simp add: take_Suc_conv_app_nth)
  then show ?thesis using that by (auto simp: last_index_def nth_append less_Suc_eq)
qed

lemma fill_itt_ok:
  assumes places: "places_ok ku lib pp t items"
  shows "\<exists>al. fill_itt ku t items = Inr al \<and> itt_ok ku t items \<lparr>itt_map = al, itt_item_count = length items\<rparr>"
proof -
  let ?step = "\<lambda>item_idx al. bind_res (ku_query ku (items ! item_idx) t) (\<lambda>item_loc. Inr (AList.update item_loc item_idx al))"
  have inj: "items ! i = items ! j" if "i < length items" "j < length items" "place ku t (items ! i) = place ku t (items ! j)" for i j
    using places that nth_mem unfolding places_ok_def by metis
  have "\<exists>al. fold_res ?step [0..<n] [] = Inr al \<and>
      (\<forall>loc i. map_of al loc = Some i \<longleftrightarrow> last_index (take n items) i \<and> place ku t (items ! i) = loc)" if "n \<le> length items" for n
    using that
  proof (induction n)
    case 0
    then show ?case by (simp add: last_index_def)
  next
    case (Suc n)
    then obtain al where al: "fold_res ?step [0..<n] [] = Inr al"
      "\<forall>loc i. map_of al loc = Some i \<longleftrightarrow> last_index (take n items) i \<and> place ku t (items ! i) = loc" by auto
    have n: "n < length items" "ku_query ku (items ! n) t = Inr (place ku t (items ! n))"
      using Suc.prems places by (auto simp: places_ok_def)
    let ?al = "AList.update (place ku t (items ! n)) n al"
    have "fold_res ?step [0..<Suc n] [] = Inr ?al" using al(1) n(2) by (simp add: fold_res_append)
    moreover have "map_of ?al loc = Some i \<longleftrightarrow> last_index (take (Suc n) items) i \<and> place ku t (items ! i) = loc" for loc i
    proof (cases "loc = place ku t (items ! n)")
      case True
      then show ?thesis using inj [of i n] n(1) unfolding last_index_take [OF n(1)]
        by (auto simp: map_of_update last_index_def)
    next
      case False
      then show ?thesis using al(2) unfolding last_index_take [OF n(1)] by (auto simp: map_of_update)
    qed
    ultimately show ?case by blast
  qed
  from this [of "length items"] show ?thesis by (auto simp: fill_itt_def itt_ok_def)
qed

subsection \<open>The field elements of a bundle\<close>

definition item_felts :: "psi_params \<Rightarrow> item \<Rightarrow> felt list" where
  "item_felts pp v = (case algebraize_item v (pp_item_bit_count pp) (sp_plain_modulus (pp_seal_params pp)) of Inl e \<Rightarrow> [] | Inr d \<Rightarrow> d)"

definition table_felts :: "psi_params \<Rightarrow> item list \<Rightarrow> nat \<Rightarrow> felt list" where
  "table_felts pp table B =
     concat (map (item_felts pp) (take (pp_items_per_bundle pp) (drop (B * pp_items_per_bundle pp) table)))"

lemma item_felts_ok:
  assumes "library_ok lib" "params_fit se v pp" "item_wf h"
  shows "algebraize_item h (pp_item_bit_count pp) (sp_plain_modulus (pp_seal_params pp)) = Inr (item_felts pp h)"
    "length (item_felts pp h) = ip_felts_per_item (pp_item_params pp)" "\<forall>x \<in> set (item_felts pp h). unat x < mo_value (se_mod se)"
  using slots_ok [OF assms] by (auto simp: item_felts_def)

lemma item_slots_felts:
  assumes "library_ok lib" "params_fit se v pp" "item_wf h"
  shows "(d, c) \<in> set (item_slots lib pp h) \<longleftrightarrow> d = item_felts pp h \<and>
    (\<exists>loc \<in> set (all_locations lib (hash_functions lib pp) h). c = loc * ip_felts_per_item (pp_item_params pp))"
  using item_felts_ok(1) [OF assms] by (auto simp: item_slots_def)

lemma concat_same_length:
  "\<forall>xs \<in> set xss. length xs = f \<Longrightarrow> o' < length xss \<Longrightarrow> k < f \<Longrightarrow> concat xss ! (o' * f + k) = xss ! o' ! k"
proof (induction xss arbitrary: o')
  case (Cons xs xss)
  then show ?case
  proof (cases o')
    case (Suc n)
    have "concat (xs # xss) ! (o' * f + k) = concat xss ! (n * f + k)" using Cons.prems(1) by (simp add: nth_append Suc)
    then show ?thesis using Cons.IH [of n] Cons.prems Suc by simp
  qed (simp add: nth_append)
qed simp

text \<open>The bit string of an item is the one that the database encodes.\<close>

lemma item_bits_felts:
  assumes "library_ok lib" "params_fit se v pp" "item_wf h"
  shows "bind_res (make_bitstring_view h (pp_item_bit_count pp)) (\<lambda>item_bits.
      bits_to_field_elts (bs_data item_bits) (bs_bit_count item_bits) (sp_plain_modulus (pp_seal_params pp))) = Inr (item_felts pp h)"
proof -
  have "pp_item_bit_count pp \<le> 128" using assms(2) unfolding params_fit_def psi_params_ok_def Let_def by blast
  then have "safe_cast_u32 (pp_item_bit_count pp) = Inr (pp_item_bit_count pp)" by (simp add: safe_cast_u32_def)
  then show ?thesis using item_felts_ok(1) [OF assms] by (simp add: algebraize_item_def)
qed

lemma map_res_eq: "\<forall>x \<in> set xs. f x = Inr (g x) \<Longrightarrow> map_res f xs = Inr (map g xs)"
  by (induction xs) auto

lemma bundle_felts_ok:
  assumes lib: "library_ok lib" and pp: "params_fit se v pp" and table: "length table = tp_table_size (pp_table_params pp)"
    "\<forall>h \<in> set table. item_wf h" and B: "B < pp_bundle_idx_count pp"
  shows "bundle_felts pp table B = Inr (table_felts pp table B)" "length (table_felts pp table B) = pp_bins_per_bundle pp"
    "\<forall>x \<in> set (table_felts pp table B). unat x < mo_value (se_mod se)"
    "\<And>o' k. o' < pp_items_per_bundle pp \<Longrightarrow> k < ip_felts_per_item (pp_item_params pp) \<Longrightarrow>
       table_felts pp table B ! (o' * ip_felts_per_item (pp_item_params pp) + k) = item_felts pp (table ! (B * pp_items_per_bundle pp + o')) ! k"
proof -
  let ?n = "pp_items_per_bundle pp" and ?f = "ip_felts_per_item (pp_item_params pp)"
  let ?hs = "take ?n (drop (B * ?n) table)"
  have ok: "psi_params_ok pp" using pp by (simp add: params_fit_def)
  have n: "pp_bundle_idx_count pp * ?n = length table" "0 < ?n" "pp_bins_per_bundle pp = ?n * ?f"
    using ok unfolding table(1) psi_params_ok_def Let_def by blast+
  have "(B + 1) * ?n \<le> pp_bundle_idx_count pp * ?n" using B by (intro mult_le_mono1) simp
  then have room: "B * ?n + ?n \<le> length table" using n(1) by simp
  then have len: "length ?hs = ?n" by simp
  have wf: "\<forall>h \<in> set ?hs. item_wf h" using table(2) by (meson in_set_dropD in_set_takeD)
  note felts = item_felts_ok(2,3) [OF lib pp]
  have "map_res (\<lambda>v. bind_res (make_bitstring_view v (pp_item_bit_count pp)) (\<lambda>item_bits.
      bits_to_field_elts (bs_data item_bits) (bs_bit_count item_bits) (sp_plain_modulus (pp_seal_params pp)))) ?hs =
    Inr (map (item_felts pp) ?hs)"
    using wf item_bits_felts [OF lib pp] by (intro map_res_eq) blast
  then show "bundle_felts pp table B = Inr (table_felts pp table B)"
    using room by (simp add: bundle_felts_def table_felts_def Let_def)
  have lens: "\<forall>xs \<in> set (map (item_felts pp) ?hs). length xs = ?f" using wf felts(1) by auto
  show "length (table_felts pp table B) = pp_bins_per_bundle pp"
    using lens n(3) len unfolding table_felts_def by (simp add: length_concat o_def sum_list_triv cong: map_cong)
  show "\<forall>x \<in> set (table_felts pp table B). unat x < mo_value (se_mod se)"
    using wf felts(2) by (auto simp: table_felts_def)
  fix o' k assume o: "o' < ?n" and k: "k < ?f"
  have "concat (map (item_felts pp) ?hs) ! (o' * ?f + k) = map (item_felts pp) ?hs ! o' ! k"
    using concat_same_length [OF lens _ k, of o'] o len by simp
  then show "table_felts pp table B ! (o' * ?f + k) = item_felts pp (table ! (B * ?n + o')) ! k"
    using o len room by (simp add: table_felts_def)
qed

subsection \<open>The encrypted powers\<close>

text \<open>What is relied on of SEAL between the two parties: keys and ciphertexts that were encrypted are extracted
  on the other side, and decryption of a result returns its slots.\<close>

definition client_laws ::
  "('p, 'c) seal \<Rightarrow> ('p, 'c) he_view \<Rightarrow> ('o, 'c, 'k) seal_io \<Rightarrow> ('p, 'o, 'c, 'k) client_crypto \<Rightarrow> bool" where
  "client_laws se v io cl \<longleftrightarrow> cl_mod cl = se_mod se \<and> cl_using_keyswitching cl = se_using_keyswitching se \<and>
     (se_using_keyswitching se \<longrightarrow> (\<exists>keys. io_extract_keys io (cl_relin_keys cl) = Inr keys \<and> io_keys_valid io keys)) \<and>
     (\<exists>enc. cl_encryptor cl = Some enc \<and>
        (\<forall>xs. length xs \<le> hv_slot_count v \<and> (\<forall>x \<in> set xs. x < mo_value (se_mod se)) \<longrightarrow>
          (\<exists>c. extracts io (enc (cl_encode cl xs)) c \<and> ciphertext_is v c False (se_first_chain_index se) 2
             (\<lambda>i. if i < length xs then xs ! i else 0)))) \<and>
     (\<exists>dec. cl_decryptor cl = Some dec \<and> (\<forall>c. decryptable v c \<longrightarrow> dec c = Inr (map (cv_slots v c) [0..<hv_slot_count v])))"

lemma fold_add_power:
  assumes "distinct (map fst es)" "distinct (map fst al)"
  shows "distinct (map fst (fold add_power es al)) \<and> map_of (fold add_power es al) k =
    (case map_of es k of None \<Rightarrow> map_of al k | Some c \<Rightarrow> Some ((case map_of al k of None \<Rightarrow> [] | Some cts \<Rightarrow> cts) @ [c]))"
  using assms
proof (induction es arbitrary: al)
  case (Cons e es)
  obtain p c where e: "e = (p, c)" by fastforce
  have "distinct (map fst (add_power e al))" using Cons.prems(2) by (simp add: add_power_def distinct_update)
  note IH = Cons.IH [OF _ this]
  have step: "map_of (add_power (p, c) al) j = (if j = p then Some ((case map_of al p of None \<Rightarrow> [] | Some cts \<Rightarrow> cts) @ [c]) else map_of al j)" for j
    by (simp add: add_power_def map_of_update)
  have none: "map_of es p = None" using Cons.prems(1) by (simp add: e map_of_eq_None_iff)
  have "distinct (map fst es)" using Cons.prems(1) by simp
  note IH = IH [OF this]
  show ?case
  proof (cases "k = p")
    case True
    then show ?thesis using IH none by (simp add: e step)
  next
    case False
    then show ?thesis using IH unfolding e step by simp
  qed
qed simp

lemma encrypt_data_ok:
  assumes enc: "cl_encryptor cl = Some enc"
    and powers: "\<forall>powers \<in> set PL. distinct (map fst powers) \<and> dom (map_of powers) = S"
  shows "\<exists>al. encrypt_data cl PL = Inr al \<and> distinct (map fst al) \<and>
    map_of al = (\<lambda>e. if e \<in> S \<and> PL \<noteq> [] then Some (map (\<lambda>powers. enc (cl_encode cl (the (map_of powers e)))) PL) else None)"
  using powers
proof (induction PL rule: rev_induct)
  case (snoc powers PL)
  obtain al where al: "encrypt_data cl PL = Inr al" "distinct (map fst al)"
    "map_of al = (\<lambda>e. if e \<in> S \<and> PL \<noteq> [] then Some (map (\<lambda>powers. enc (cl_encode cl (the (map_of powers e)))) PL) else None)"
    using snoc by auto
  let ?es = "map (\<lambda>(p, ys). (p, enc (cl_encode cl ys))) powers"
  have es: "encrypt_powers (cl_encryptor cl) (cl_encode cl) powers = Inr ?es" by (simp add: encrypt_powers_def enc)
  have keys: "map fst ?es = map fst powers" by (induction powers) auto
  have "distinct (map fst ?es)" unfolding keys using snoc.prems by simp
  note add = fold_add_power [OF this al(2)]
  have "map_of ?es e = map_option (\<lambda>ys. enc (cl_encode cl ys)) (map_of powers e)" for e by (induction powers) auto
  moreover have "e \<in> S \<longleftrightarrow> map_of powers e \<noteq> None" for e using snoc.prems by auto
  ultimately have "map_of (fold add_power ?es al) =
      (\<lambda>e. if e \<in> S \<and> PL @ [powers] \<noteq> [] then Some (map (\<lambda>powers. enc (cl_encode cl (the (map_of powers e)))) (PL @ [powers])) else None)"
    using add by (auto simp: al(3) fun_eq_iff split: option.splits)
  moreover have "encrypt_data cl (PL @ [powers]) = Inr (fold add_power ?es al)"
    using al(1) es by (simp add: encrypt_data_def fold_res_append)
  ultimately show ?case using add by blast
qed (simp add: encrypt_data_def)

subsection \<open>The receiver's plan\<close>

definition receiver_ok :: "('p, 'o, 'c, 'k) client_crypto \<Rightarrow> psi_params \<Rightarrow> 'k receiver \<Rightarrow> bool" where
  "receiver_ok cl pp rc \<longleftrightarrow> rc_params rc = pp \<and>
     rc_relin_keys rc = (if cl_using_keyswitching cl then cl_relin_keys cl else cl_no_keys cl) \<and>
     (\<exists>T. create_powers_set (qp_ps_low_degree (pp_query_params pp)) (tp_max_items_per_bin (pp_table_params pp)) = Some (Inr T) \<and>
        set (qp_query_powers (pp_query_params pp)) \<subseteq> set T \<and>
        pd_configure empty_dag (qp_query_powers (pp_query_params pp)) T = Inr (rc_pd rc, True))"

lemma powers_fit_bounds:
  assumes "powers_fit pp"
  defines "low \<equiv> qp_ps_low_degree (pp_query_params pp)" and "mb \<equiv> tp_max_items_per_bin (pp_table_params pp)"
  shows "low \<le> mb" "0 < mb" "mb + low + 1 < 2 ^ 32" "1 \<in> set (qp_query_powers (pp_query_params pp))"
    "set (qp_query_powers (pp_query_params pp)) \<subseteq> power_targets low mb"
proof -
  have ok: "psi_params_ok pp" and mb: "mb < 2 ^ 31" using assms(1) by (simp_all add: powers_fit_def mb_def)
  show "low \<le> mb" "0 < mb" "1 \<in> set (qp_query_powers (pp_query_params pp))"
    using ok unfolding psi_params_ok_def Let_def low_def mb_def by blast+
  then show "mb + low + 1 < 2 ^ 32" using mb by simp
  show "set (qp_query_powers (pp_query_params pp)) \<subseteq> power_targets low mb"
    using query_powers_within [OF ok] by (simp add: low_def mb_def)
qed

text \<open>The constructor succeeds for all parameters that pass the checks.\<close>

lemma make_receiver_ok:
  assumes fit: "powers_fit pp"
  shows "\<exists>rc. make_receiver cl pp = Some (Inr rc) \<and> receiver_ok cl pp rc"
proof -
  let ?low = "qp_ps_low_degree (pp_query_params pp)" and ?mb = "tp_max_items_per_bin (pp_table_params pp)"
    and ?S = "qp_query_powers (pp_query_params pp)"
  note b = powers_fit_bounds [OF fit]
  obtain T where T: "create_powers_set ?low ?mb = Some (Inr T)" "oset_ok T" "set T = power_targets ?low ?mb"
    using create_powers_set_targets [OF b(1,2,3)] by blast
  have sub: "set ?S \<subseteq> set T" using b(5) by (simp add: T(3))
  have closed: "\<exists>a b. split_of (set T) p a b" if "p \<in> set T - set ?S" for p
    using that b(4) power_targets_closed [of p ?low ?mb] by (auto simp: T(3))
  have T0: "0 \<notin> set T" by (simp add: T(3) power_targets_pos)
  obtain nodes cd where conf: "pd_configure empty_dag ?S T =
      Inr (\<lparr>pd_nodes = nodes, pd_configured = True, pd_target_powers = T, pd_depth = cd, pd_source_count = length ?S\<rparr>, True)"
    using configure_ok [OF T(2) T0 b(4) sub closed, of empty_dag] by blast
  then show ?thesis using T(1) sub
    by (simp add: make_receiver_def reset_powers_dag_def reset_keys_def receiver_ok_def dag_depth_def configured_only_def)
qed

lemma make_receiver_is_ok: "powers_fit pp \<Longrightarrow> make_receiver cl pp = Some (Inr rc) \<Longrightarrow> receiver_ok cl pp rc"
  using make_receiver_ok [of pp cl] by auto

subsection \<open>The query\<close>

text \<open>The value of slot \<open>i\<close> of bundle index \<open>B\<close>.\<close>

definition query_value :: "psi_params \<Rightarrow> item list \<Rightarrow> nat \<Rightarrow> nat \<Rightarrow> nat" where
  "query_value pp table B i = (if i < length (table_felts pp table B) then unat (table_felts pp table B ! i) else 0)"

lemma prepare_data_ok:
  assumes lib: "library_ok lib" and pp: "params_fit se v pp" "powers_fit pp" and rc: "receiver_ok cl pp rc"
    and table: "length table = tp_table_size (pp_table_params pp)" "\<forall>h \<in> set table. item_wf h"
  shows "\<exists>PL. prepare_data (se_mod se) rc table = Inr PL \<and> length PL = pp_bundle_idx_count pp \<and>
    (\<forall>B < length PL. distinct (map fst (PL ! B)) \<and> map_of (PL ! B) = (\<lambda>e. if e \<in> set (qp_query_powers (pp_query_params pp))
       then Some (map (\<lambda>f. unat f ^ e mod mo_value (se_mod se)) (table_felts pp table B)) else None))"
proof -
  let ?S = "qp_query_powers (pp_query_params pp)" and ?m = "se_mod se"
  note b = powers_fit_bounds [OF pp(2)]
  obtain T where T: "create_powers_set (qp_ps_low_degree (pp_query_params pp)) (tp_max_items_per_bin (pp_table_params pp)) = Some (Inr T)"
    "set ?S \<subseteq> set T" "pd_configure empty_dag ?S T = Inr (rc_pd rc, True)" and rcp: "rc_params rc = pp"
    using rc by (auto simp: receiver_ok_def)
  have arith: "seal_arith ?m" using pp(1) by (simp add: params_fit_def seal_laws_def)
  let ?ok = "\<lambda>B powers. distinct (map fst powers) \<and> map_of powers = (\<lambda>e. if e \<in> set ?S
       then Some (map (\<lambda>f. unat f ^ e mod mo_value ?m) (table_felts pp table B)) else None)"
  have step: "\<exists>powers. bind_res (bundle_felts (rc_params rc) table B) (\<lambda>alg_items. compute_plaintext_powers ?m (map unat alg_items) (rc_pd rc)) =
      Inr powers \<and> ?ok B powers" if "B \<in> set [0..<pp_bundle_idx_count pp]" for B
  proof -
    have B: "B < pp_bundle_idx_count pp" using that by simp
    note felts = bundle_felts_ok [OF lib pp(1) table B]
    have "\<forall>x \<in> set (map unat (table_felts pp table B)). x < mo_value ?m" using felts(3) by auto
    from plaintext_powers_ok [OF T(1) b(1,2,3,4) T(2,3) arith this]
    show ?thesis using felts(1) by (auto simp: rcp fun_eq_iff)
  qed
  have "\<exists>PL. prepare_data ?m rc table = Inr PL \<and> list_all2 ?ok [0..<pp_bundle_idx_count pp] PL"
    unfolding prepare_data_def rcp by (rule map_res_rel) (rule step [unfolded rcp])
  then obtain PL where PL: "prepare_data ?m rc table = Inr PL" "list_all2 ?ok [0..<pp_bundle_idx_count pp] PL"
    by (elim exE conjE) (rule that)
  have "length PL = pp_bundle_idx_count pp" using list_all2_lengthD [OF PL(2)] by simp
  moreover from this have "[0..<pp_bundle_idx_count pp] ! B = B" if "B < length PL" for B using that by simp
  then have "?ok B (PL ! B)" if "B < length PL" for B using list_all2_nthD2 [OF PL(2) that] that by presburger
  ultimately show ?thesis using PL(1) by blast
qed

text \<open>
  If the items fit into the cuckoo table, a query is made that the sender accepts, whose ciphertexts carry
  the field elements of the table.
\<close>

lemma create_query_ok:
  assumes lib: "library_ok lib" and pp: "params_fit se v pp" "powers_fit pp" and rc: "receiver_ok cl pp rc"
    and cl: "client_laws se v io cl" and ku: "kuku_laws ku contains lib pp" and items: "\<forall>h \<in> set items. item_wf h"
    and t: "cuckoo_insert_all ku items (ku_new ku (tp_table_size (pp_table_params pp)) (tp_hash_func_count (pp_table_params pp))) = Inr t"
  shows "\<exists>req itt. create_query ku cl rc items = Inr (req, itt) \<and> places_ok ku lib pp t items \<and> itt_ok ku t items itt \<and>
    distinct (map fst (qr_data req)) \<and> request_ok io (se_using_keyswitching se) pp req \<and>
    (\<forall>data. list_all2 (row_extracts io) (qr_data req) data \<longrightarrow> (\<forall>(e, cts) \<in> set data. \<forall>B < length cts.
       power_is se v (query_value pp (ku_table ku t) B) e (cts ! B)))"
proof -
  let ?table = "ku_table ku t" and ?S = "set (qp_query_powers (pp_query_params pp))" and ?p = "mo_value (se_mod se)"
  have rcp: "rc_params rc = pp" "rc_relin_keys rc = (if se_using_keyswitching se then cl_relin_keys cl else cl_no_keys cl)"
    and md: "cl_mod cl = se_mod se" using rc cl by (simp_all add: receiver_ok_def client_laws_def)
  have places: "places_ok ku lib pp t items" by (rule cuckoo_places [OF ku t])
  obtain al where al: "fill_itt ku t items = Inr al" "itt_ok ku t items \<lparr>itt_map = al, itt_item_count = length items\<rparr>"
    using fill_itt_ok [OF places] by blast
  have "item_wf zero_item" by (simp add: item_wf_def zero_item_def)
  then have table: "length ?table = tp_table_size (pp_table_params pp)" "\<forall>h \<in> set ?table. item_wf h"
    using places items by (auto simp: places_ok_def)
  obtain PL where PL: "prepare_data (se_mod se) rc ?table = Inr PL" "length PL = pp_bundle_idx_count pp"
    "\<forall>B < length PL. distinct (map fst (PL ! B)) \<and> map_of (PL ! B) = (\<lambda>e. if e \<in> ?S
       then Some (map (\<lambda>f. unat f ^ e mod ?p) (table_felts pp ?table B)) else None)"
    using prepare_data_ok [OF lib pp rc table] by blast
  obtain enc where enc: "cl_encryptor cl = Some enc" "\<forall>xs. length xs \<le> hv_slot_count v \<and> (\<forall>x \<in> set xs. x < ?p) \<longrightarrow>
      (\<exists>c. extracts io (enc (cl_encode cl xs)) c \<and> ciphertext_is v c False (se_first_chain_index se) 2
         (\<lambda>i. if i < length xs then xs ! i else 0))"
    using cl unfolding client_laws_def by blast
  have "\<forall>powers \<in> set PL. distinct (map fst powers) \<and> dom (map_of powers) = ?S"
  proof
    fix powers assume "powers \<in> set PL"
    then obtain B where "B < length PL" "PL ! B = powers" by (auto simp: in_set_conv_nth)
    then show "distinct (map fst powers) \<and> dom (map_of powers) = ?S" using PL(3) by (auto simp: dom_def split: if_splits)
  qed
  from encrypt_data_ok [OF enc(1) this] obtain data where data: "encrypt_data cl PL = Inr data" "distinct (map fst data)"
    "map_of data = (\<lambda>e. if e \<in> ?S \<and> PL \<noteq> [] then Some (map (\<lambda>powers. enc (cl_encode cl (the (map_of powers e)))) PL) else None)"
    by blast
  have "0 < pp_bundle_idx_count pp" using pp(1) unfolding params_fit_def psi_params_ok_def Let_def by blast
  then have ne: "PL \<noteq> []" using PL(2) by auto
  have row: "e \<in> ?S \<and> cts = map (\<lambda>powers. enc (cl_encode cl (the (map_of powers e)))) PL" if "(e, cts) \<in> set data" for e cts
  proof -
    have "map_of data e = Some cts" using data(2) that by (rule map_of_is_SomeI)
    then show ?thesis by (simp add: data(3) split: if_splits)
  qed
  have keys: "fst ` set data = ?S"
  proof -
    have "fst ` set data = dom (map_of data)" by (rule dom_map_of_conv_image_fst [symmetric])
    also have "\<dots> = ?S" using ne by (auto simp: data(3) split: if_splits)
    finally show ?thesis .
  qed
  have good: "\<exists>c. extracts io (cts ! B) c \<and> power_is se v (query_value pp ?table B) e c"
    if r: "(e, cts) \<in> set data" and B: "B < length cts" for e cts B
  proof -
    let ?xs = "map (\<lambda>f. unat f ^ e mod ?p) (table_felts pp ?table B)"
    have e: "e \<in> ?S" "B < length PL" "cts ! B = enc (cl_encode cl ?xs)"
      using row [OF r] B PL(3) by auto
    have "0 < e" using e(1) powers_fit_bounds(5) [OF pp(2)] power_targets_pos by (metis gr0I subsetD)
    have p: "0 < ?p" using pp(1) by (simp add: params_fit_def seal_laws_def seal_arith_def)
    have small: "length ?xs \<le> hv_slot_count v \<and> (\<forall>x \<in> set ?xs. x < ?p)"
      using bundle_felts_ok(2) [OF lib pp(1) table, of B] e(2) PL(2) pp(1) p by (auto simp: params_fit_def)
    obtain c where c: "extracts io (cts ! B) c" "ciphertext_is v c False (se_first_chain_index se) 2
         (\<lambda>i. if i < length ?xs then ?xs ! i else 0)" using enc(2) [rule_format, OF small] unfolding e(3) by blast
    have "power_is se v (query_value pp ?table B) e c" unfolding power_is_def
      by (rule ciphertext_is_cong [OF c(2)]) (use \<open>0 < e\<close> in \<open>simp add: query_value_def zero_power\<close>)
    then show ?thesis using c(1) by blast
  qed
  let ?req = "\<lparr>qr_compr_mode = cl_compr_mode_default cl, qr_relin_keys = rc_relin_keys rc, qr_data = data\<rparr>"
  have "create_query ku cl rc items = Inr (?req, \<lparr>itt_map = al, itt_item_count = length items\<rparr>)"
    using t al(1) PL(1) data(1) by (simp add: create_query_def rcp(1) md Let_def)
  moreover have "request_ok io (se_using_keyswitching se) pp ?req"
  proof -
    have "length cts = pp_bundle_idx_count pp" if "(e, cts) \<in> set data" for e cts using row [OF that] PL(2) by simp
    moreover have "\<exists>c. io_extract io ct = Inr c \<and> io_ciphertext_valid io c" if "(e, cts) \<in> set data" "ct \<in> set cts" for e cts ct
    proof -
      obtain B where "B < length cts" "cts ! B = ct" using \<open>ct \<in> set cts\<close> by (auto simp: in_set_conv_nth)
      then show ?thesis using good [OF that(1)] unfolding extracts_def by blast
    qed
    moreover have "se_using_keyswitching se \<longrightarrow> (\<exists>keys. io_extract_keys io (qr_relin_keys ?req) = Inr keys \<and> io_keys_valid io keys)"
      using cl by (simp add: rcp(2) client_laws_def)
    ultimately show ?thesis using keys by (auto simp: request_ok_def)
  qed
  moreover have "power_is se v (query_value pp ?table B) e (cts ! B)"
    if rows: "list_all2 (row_extracts io) data out" "(e, cts) \<in> set out" "B < length cts" for out e cts B
  proof -
    obtain i where i: "i < length out" "out ! i = (e, cts)" using rows(2) by (auto simp: in_set_conv_nth)
    obtain os where os: "data ! i = (e, os)" "list_all2 (extracts io) os cts" "(e, os) \<in> set data"
    proof -
      have "row_extracts io (data ! i) (e, cts)" "i < length data"
        using list_all2_nthD2 [OF rows(1) i(1)] i(2) list_all2_lengthD [OF rows(1)] i(1) by simp_all
      then show thesis using that by (cases "data ! i") (auto simp: row_extracts_def in_set_conv_nth)
    qed
    have B: "B < length os" "extracts io (os ! B) (cts ! B)"
      using list_all2_lengthD [OF os(2)] list_all2_nthD2 [OF os(2) rows(3)] rows(3) by simp_all
    show ?thesis using good [OF os(3) B(1)] B(2) by (auto simp: extracts_def)
  qed
  then have "\<forall>out. list_all2 (row_extracts io) (qr_data ?req) out \<longrightarrow> (\<forall>(e, cts) \<in> set out. \<forall>B < length cts.
       power_is se v (query_value pp ?table B) e (cts ! B))" unfolding query_request.select_convs by blast
  ultimately show ?thesis using places al(2) data(2) unfolding query_request.select_convs
    by (intro exI [of _ ?req] exI [of _ "\<lparr>itt_map = al, itt_item_count = length items\<rparr>"] conjI) (simp_all only: query_request.select_convs)
qed

end
