(* ===== verification/SenderRun.thy ===== *)
theory SenderRun
  imports QueryRequest
begin

text \<open>
  The evaluation of an accepted query on an unlabeled database: the powers that the sender computes have
  the values, levels and forms that the bundles need, every bundle answers with one result part, and the
  parts decrypt to zero exactly in the bins that hold the queried field elements.
\<close>

subsection \<open>Updates of the powers\<close>

text \<open>A fold over the indices of a list whose step replaces the entry at its index.\<close>

lemma fold_update:
  assumes "\<And>i ys. i < length xs \<Longrightarrow> length ys = length xs \<Longrightarrow> ys ! i = xs ! i \<Longrightarrow> step i ys = Inr (ys[i := g i])"
    and "n \<le> length xs"
  shows "fold_res step [0..<n] xs = Inr (map g [0..<n] @ drop n xs)"
  using assms(2)
proof (induction n)
  case (Suc n)
  let ?ys = "map g [0..<n] @ drop n xs"
  have n: "n < length xs" "length ?ys = length xs" "?ys ! n = xs ! n" using Suc.prems by (simp_all add: nth_append)
  have "drop n xs = xs ! n # drop (Suc n) xs" using n(1) by (simp add: Cons_nth_drop_Suc)
  then have "?ys[n := g n] = map g [0..<Suc n] @ drop (Suc n) xs" by (simp add: list_update_append)
  moreover have "step n ?ys = Inr (?ys[n := g n])" by (rule assms(1) [OF n])
  ultimately show ?case using Suc n(1) by (simp add: fold_res_append)
qed simp

lemma load_exponent_ok:
  assumes "length cts = length ps" "\<forall>powers \<in> set ps. e < length powers"
  shows "load_exponent (e, cts) ps = Inr (map (\<lambda>B. (ps ! B)[e := cts ! B]) [0..<length ps])"
proof -
  have "fold_res (\<lambda>bundle_idx ps. bind_res (vec_get cts bundle_idx) (\<lambda>c.
         bind_res (vec_get ps bundle_idx) (\<lambda>powers.
         bind_res (vec_set powers e c) (\<lambda>powers'. vec_set ps bundle_idx powers')))) [0..<length ps] ps =
      Inr (map (\<lambda>B. (ps ! B)[e := cts ! B]) [0..<length ps] @ drop (length ps) ps)"
    using assms by (intro fold_update) auto
  then show ?thesis by (simp add: load_exponent_def)
qed

lemma load_powers_ok:
  assumes "distinct (map fst data)" "\<forall>(e, cts) \<in> set data. length cts = length ps \<and> e < n" "\<forall>powers \<in> set ps. length powers = n"
  shows "\<exists>ps'. load_powers data ps = Inr ps' \<and> length ps' = length ps \<and> (\<forall>powers \<in> set ps'. length powers = n) \<and>
    (\<forall>B < length ps. (\<forall>t. t \<notin> fst ` set data \<longrightarrow> ps' ! B ! t = ps ! B ! t) \<and> (\<forall>(e, cts) \<in> set data. ps' ! B ! e = cts ! B))"
  using assms
proof (induction data arbitrary: ps)
  case (Cons d data)
  obtain e cts where d: "d = (e, cts)" by fastforce
  let ?ps = "map (\<lambda>B. (ps ! B)[e := cts ! B]) [0..<length ps]"
  have load: "load_exponent d ps = Inr ?ps" using Cons.prems unfolding d by (intro load_exponent_ok) auto
  have len: "\<forall>powers \<in> set ?ps. length powers = n" using Cons.prems(3) by auto
  have e: "e \<notin> fst ` set data" "\<forall>B < length ps. e < length (ps ! B)" using Cons.prems by (auto simp: d)
  obtain ps' where ps': "load_powers data ?ps = Inr ps'" "length ps' = length ?ps" "\<forall>powers \<in> set ps'. length powers = n"
    "\<forall>B < length ?ps. (\<forall>t. t \<notin> fst ` set data \<longrightarrow> ps' ! B ! t = ?ps ! B ! t) \<and> (\<forall>(e, cts) \<in> set data. ps' ! B ! e = cts ! B)"
    using Cons.IH [OF _ _ len] Cons.prems by auto
  show ?case
    using load ps' e by (intro exI [of _ ps']) (auto simp: load_powers_def d nth_list_update)
qed (simp add: load_powers_def)

subsection \<open>Switching the powers\<close>

definition switched_is :: "('p, 'c) seal \<Rightarrow> ('p, 'c) he_view \<Rightarrow> nat \<Rightarrow> (nat \<Rightarrow> nat) \<Rightarrow> nat \<Rightarrow> 'c \<Rightarrow> bool" where
  "switched_is se v low x t c \<longleftrightarrow> ciphertext_is v c (t \<le> low \<or> low = 0)
     (get_parms_id_for_chain_idx se (if t \<le> low \<and> low \<noteq> 0 then 2 else 1)) 2 (\<lambda>i. x i ^ t mod mo_value (se_mod se))"

lemma switch_power_ok:
  assumes laws: "seal_laws se v" and t: "t < length powers" "power_is se v x t (powers ! t)"
  shows "\<exists>c. switch_power se low t powers = Inr (powers[t := c]) \<and> switched_is se v low x t c"
proof -
  let ?L = "get_parms_id_for_chain_idx se (if t \<le> low \<and> low \<noteq> 0 then 2 else 1)"
  have "?L \<le> se_first_chain_index se" by (simp add: get_parms_id_for_chain_idx_min)
  then obtain c where c: "se_mod_switch_to se (powers ! t) ?L = Inr c"
    "ciphertext_is v c False ?L 2 (\<lambda>i. x i ^ t mod mo_value (se_mod se))"
    using law_mod_switch_to [OF laws t(2) [unfolded power_is_def]] by blast
  obtain c' where c': "se_to_ntt se c = Inr c'" "ciphertext_is v c' True ?L 2 (\<lambda>i. x i ^ t mod mo_value (se_mod se))"
    using law_to_ntt [OF laws c(2)] by blast
  show ?thesis
  proof (cases "t \<le> low \<or> low = 0")
    case True
    then show ?thesis using c(1) c' t(1) by (intro exI [of _ c']) (auto simp: switch_power_def switched_is_def Let_def)
  next
    case False
    then show ?thesis using c t(1) by (intro exI [of _ c]) (auto simp: switch_power_def switched_is_def Let_def)
  qed
qed

lemma switch_powers_ok:
  assumes "seal_laws se v" "distinct ts" "\<forall>t \<in> set ts. t < length powers \<and> power_is se v x t (powers ! t)"
  shows "\<exists>powers'. fold_res (switch_power se low) ts powers = Inr powers' \<and> length powers' = length powers \<and>
    (\<forall>t. t \<notin> set ts \<longrightarrow> powers' ! t = powers ! t) \<and> (\<forall>t \<in> set ts. switched_is se v low x t (powers' ! t))"
  using assms(2,3)
proof (induction ts arbitrary: powers)
  case (Cons t ts)
  obtain c where c: "switch_power se low t powers = Inr (powers[t := c])" "switched_is se v low x t c"
    using switch_power_ok [OF assms(1), where t = t and powers = powers and x = x and low = low] Cons.prems by auto
  have "\<forall>u \<in> set ts. u < length (powers[t := c]) \<and> power_is se v x u (powers[t := c] ! u)"
    using Cons.prems by (auto simp: nth_list_update)
  then obtain powers' where p: "fold_res (switch_power se low) ts (powers[t := c]) = Inr powers'" "length powers' = length powers"
    "\<forall>u. u \<notin> set ts \<longrightarrow> powers' ! u = powers[t := c] ! u" "\<forall>u \<in> set ts. switched_is se v low x u (powers' ! u)"
    using Cons.IH [of "powers[t := c]"] Cons.prems(1) by auto
  then show ?case using c Cons.prems by (intro exI [of _ powers']) auto
qed simp

lemma switched_query:
  assumes "\<forall>t \<in> power_targets low mb. switched_is se v low x t (powers ! t)" "length powers = mb + 1" "low \<le> mb"
  shows "query_powers_ok se v powers low mb x"
proof -
  let ?val = "\<lambda>t i. x i ^ t mod mo_value (se_mod se)"
  have low_power: "ciphertext_is v (powers ! t) True (encode_level se low) 2 (?val t)" if "1 \<le> t" "t \<le> mb" "low = 0 \<or> t \<le> low" for t
  proof -
    have "t \<in> power_targets low mb" using that by (auto simp: power_targets_def)
    then have "switched_is se v low x t (powers ! t)" using assms(1) by blast
    then show ?thesis using that(3)
      by (auto simp: switched_is_def encode_level_def get_parms_id_for_chain_idx_min min.commute)
  qed
  have high_power: "ciphertext_is v (powers ! t) False (get_parms_id_for_chain_idx se 1) 2 (?val t)"
    if t: "t = k * (low + 1)" "1 \<le> k" "t \<le> mb" "low \<noteq> 0" for t k
  proof -
    have "t \<in> power_targets low mb" using t by (auto simp: power_targets_def)
    then have "switched_is se v low x t (powers ! t)" using assms(1) by blast
    moreover have "low < t" using t(1,2) by (cases k) auto
    ultimately show ?thesis using t(4) by (simp add: switched_is_def)
  qed
  show ?thesis
  proof (cases "low = 0")
    case True
    then show ?thesis using low_power assms(2) by (simp add: query_powers_ok_def ntt_powers_ok_def)
  next
    case False
    then show ?thesis using low_power high_power assms(2,3) by (simp add: query_powers_ok_def ps_powers_ok_def)
  qed
qed

subsection \<open>The powers of all bundle indices\<close>

text \<open>The query carries the values \<open>x B i\<close> for slot \<open>i\<close> of bundle index \<open>B\<close>.\<close>

definition query_carries :: "('p, 'c) seal \<Rightarrow> ('p, 'c) he_view \<Rightarrow> ('c, 'k) query \<Rightarrow> (nat \<Rightarrow> nat \<Rightarrow> nat) \<Rightarrow> bool" where
  "query_carries se v q x \<longleftrightarrow> (\<forall>(e, cts) \<in> set (qu_data q). \<forall>B < length cts. power_is se v (x B) e (cts ! B)) \<and>
     (\<forall>B i. x B i < mo_value (se_mod se))"

text \<open>Relinearization is available wherever a product of ciphertexts is needed.\<close>

definition keys_fit :: "('p, 'c) seal \<Rightarrow> psi_params \<Rightarrow> bool" where
  "keys_fit se pp \<longleftrightarrow> se_using_keyswitching se \<or>
     power_targets (qp_ps_low_degree (pp_query_params pp)) (tp_max_items_per_bin (pp_table_params pp)) \<subseteq>
       set (qp_query_powers (pp_query_params pp))"

lemma power_targets_le: "t \<in> power_targets low mb \<Longrightarrow> low \<le> mb \<Longrightarrow> t \<le> mb"
  by (auto simp: power_targets_def split: if_splits)

lemma load_query_ok:
  assumes q: "query_ok pp q" and fit: "psi_params_ok pp" and x: "query_carries se v q x"
  shows "\<exists>loaded. load_powers (qu_data q) (init_powers se pp) = Inr loaded \<and> length loaded = pp_bundle_idx_count pp \<and>
    (\<forall>B < pp_bundle_idx_count pp. length (loaded ! B) = tp_max_items_per_bin (pp_table_params pp) + 1 \<and>
      (\<forall>t \<in> set (qp_query_powers (pp_query_params pp)). power_is se v (x B) t (loaded ! B ! t)))"
proof -
  let ?mb = "tp_max_items_per_bin (pp_table_params pp)" and ?S = "set (qp_query_powers (pp_query_params pp))"
  have low: "qp_ps_low_degree (pp_query_params pp) \<le> ?mb" using fit unfolding psi_params_ok_def Let_def by blast
  have q': "distinct (map fst (qu_data q))" "fst ` set (qu_data q) = ?S"
    "\<forall>(e, cts) \<in> set (qu_data q). length cts = pp_bundle_idx_count pp" "\<forall>t \<in> ?S. t \<le> ?mb"
    using q low by (auto simp: query_ok_def Let_def intro: power_targets_le)
  have "e \<le> ?mb" if "(e, cts) \<in> set (qu_data q)" for e cts using q'(2,4) that by force
  then have "\<forall>(e, cts) \<in> set (qu_data q). length cts = length (init_powers se pp) \<and> e < ?mb + 1"
    using q'(3) by (fastforce simp: init_powers_def less_Suc_eq_le)
  from load_powers_ok [OF q'(1) this] obtain loaded where l: "load_powers (qu_data q) (init_powers se pp) = Inr loaded"
    "length loaded = pp_bundle_idx_count pp" "\<forall>powers \<in> set loaded. length powers = ?mb + 1"
    "\<forall>B < pp_bundle_idx_count pp. \<forall>(e, cts) \<in> set (qu_data q). loaded ! B ! e = cts ! B"
    by (auto simp: init_powers_def)
  have "power_is se v (x B) t (loaded ! B ! t)" if B: "B < pp_bundle_idx_count pp" and t: "t \<in> ?S" for B t
  proof -
    obtain cts where "(t, cts) \<in> set (qu_data q)" using t q'(2) by force
    then show ?thesis using l(4) B q'(3) x by (fastforce simp: query_carries_def)
  qed
  then show ?thesis using l by auto
qed

lemma compute_powers_ok:
  assumes fit: "psi_params_ok (db_params db)" "seal_laws se v" "keys_fit se (db_params db)"
    and q: "query_ok (db_params db) q" "plan_order (qu_pd q) order"
    and caches: "get_cache_at B db = Inr caches"
    and ps: "length L = tp_max_items_per_bin (pp_table_params (db_params db)) + 1"
      "\<forall>t \<in> set (qp_query_powers (pp_query_params (db_params db))). power_is se v y t (L ! t)"
  shows "\<exists>powers. (\<forall>ps. B < length ps \<longrightarrow> ps ! B = L \<longrightarrow> compute_powers se db (qu_pd q) order B ps = Inr (ps[B := powers])) \<and>
    (caches \<noteq> [] \<longrightarrow> query_powers_ok se v powers (qp_ps_low_degree (pp_query_params (db_params db)))
       (tp_max_items_per_bin (pp_table_params (db_params db))) y)"
proof (cases "caches = []")
  case True
  then show ?thesis using caches by (intro exI [of _ L]) (auto simp: compute_powers_def)
next
  case False
  let ?pp = "db_params db"
  let ?low = "qp_ps_low_degree (pp_query_params ?pp)" and ?mb = "tp_max_items_per_bin (pp_table_params ?pp)"
  have low: "?low \<le> ?mb" using fit(1) unfolding psi_params_ok_def Let_def by blast
  have T: "pd_configured (qu_pd q)" "valid_plan (qu_pd q) (set (qp_query_powers (pp_query_params ?pp)))"
    "distinct (pd_target_powers (qu_pd q))" "set (pd_target_powers (qu_pd q)) = power_targets ?low ?mb"
    using q(1) by (simp_all add: query_ok_def Let_def)
  have len: "\<forall>t \<in> set (pd_target_powers (qu_pd q)). t < length L"
    using power_targets_le [OF _ low] by (auto simp: T(4) ps(1) less_Suc_eq_le)
  obtain powers1 where p1: "multiply_nodes se (qu_pd q) order L = Inr powers1" "length powers1 = length L"
    "\<forall>t \<in> set (pd_target_powers (qu_pd q)). power_is se v y t (powers1 ! t)"
    using multiply_nodes_ok [OF fit(2) T(1,2) q(2) _ len, of y] fit(3) ps(2) by (auto simp: keys_fit_def T(4))
  have "\<forall>t \<in> set (pd_target_powers (qu_pd q)). t < length powers1 \<and> power_is se v y t (powers1 ! t)" using p1(2,3) len by simp
  from switch_powers_ok [OF fit(2) T(3) this] obtain powers2 where
    p2: "fold_res (switch_power se ?low) (pd_target_powers (qu_pd q)) powers1 = Inr powers2" "length powers2 = length powers1"
      "\<forall>t \<in> set (pd_target_powers (qu_pd q)). switched_is se v ?low y t (powers2 ! t)" by blast
  have "compute_powers se db (qu_pd q) order B ps = Inr (ps[B := powers2])" if "B < length ps" "ps ! B = L" for ps
    using that False caches p1(1) p2(1) T(1) by (simp add: compute_powers_def dag_target_powers_def configured_only_def)
  moreover have "query_powers_ok se v powers2 ?low ?mb y"
    using p2 p1(2) ps(1) low by (intro switched_query) (simp_all add: T(4))
  ultimately show ?thesis by blast
qed

lemma compute_all_ok:
  assumes fit: "psi_params_ok (db_params db)" "seal_laws se v" "keys_fit se (db_params db)"
    and q: "query_ok (db_params db) q" "\<forall>B < n. plan_order (qu_pd q) (orders B)"
    and n: "length loaded = n" "n < 2 ^ 32" and caches: "\<forall>B < n. get_cache_at B db = Inr (caches B)"
    and loaded: "\<forall>B < n. length (loaded ! B) = tp_max_items_per_bin (pp_table_params (db_params db)) + 1 \<and>
      (\<forall>t \<in> set (qp_query_powers (pp_query_params (db_params db))). power_is se v (x B) t (loaded ! B ! t))"
  shows "\<exists>all_powers. fold_res (\<lambda>B. compute_powers se db (qu_pd q) (orders B) (wrap32 B)) [0..<n] loaded = Inr all_powers \<and>
    length all_powers = n \<and> (\<forall>B < n. caches B \<noteq> [] \<longrightarrow>
      query_powers_ok se v (all_powers ! B) (qp_ps_low_degree (pp_query_params (db_params db)))
        (tp_max_items_per_bin (pp_table_params (db_params db))) (x B))"
proof -
  let ?ok = "\<lambda>B powers. (\<forall>ps. B < length ps \<longrightarrow> ps ! B = loaded ! B \<longrightarrow>
      compute_powers se db (qu_pd q) (orders B) B ps = Inr (ps[B := powers])) \<and>
    (caches B \<noteq> [] \<longrightarrow> query_powers_ok se v powers (qp_ps_low_degree (pp_query_params (db_params db)))
        (tp_max_items_per_bin (pp_table_params (db_params db))) (x B))"
  have "\<exists>powers. ?ok B powers" if "B < n" for B
    by (rule compute_powers_ok [OF fit q(1)]) (use that q(2) caches loaded in auto)
  then obtain g where g: "\<And>B. B < n \<Longrightarrow> ?ok B (g B)" by metis
  have "fold_res (\<lambda>B. compute_powers se db (qu_pd q) (orders B) (wrap32 B)) [0..<n] loaded = Inr (map g [0..<n] @ drop n loaded)"
  proof (rule fold_update)
    fix B ps assume "B < length loaded" "length ps = length loaded" "ps ! B = loaded ! B"
    moreover from this have "wrap32 B = B" using n by simp
    ultimately show "compute_powers se db (qu_pd q) (orders B) (wrap32 B) ps = Inr (ps[B := g B])" using g [of B] n(1) by simp
  qed (simp add: n(1))
  then show ?thesis using g n(1) by auto
qed

subsection \<open>The parts\<close>

text \<open>
  The part of a bundle: it is tagged with the bundle index, it can be decrypted, and a slot of it is zero
  exactly when the bin has the queried value.
\<close>

definition answers :: "('p, 'c) he_view \<Rightarrow> (nat \<Rightarrow> nat \<Rightarrow> nat) \<Rightarrow> nat \<Rightarrow> 'p bin_bundle \<Rightarrow> 'c result_package \<Rightarrow> bool" where
  "answers v x B b rp \<longleftrightarrow> rp_bundle_idx rp = B \<and> rp_label_byte_count rp = 0 \<and> rp_label_result rp = [] \<and>
     decryptable v (rp_psi_result rp) \<and>
     (\<forall>i < bb_num_bins b. cv_slots v (rp_psi_result rp) i = 0 \<longleftrightarrow> (\<exists>k. key_at (bundle_rows b) i k \<and> unat k = x B i))"

lemma process_cache_ok:
  assumes pp: "params_fit se v (db_params db)" and ok: "db_ok se v lib db" and comp: "compression_law se v"
    and ps: "qp_ps_low_degree (pp_query_params (db_params db)) \<noteq> 1"
    and x: "\<forall>i. x B i < mo_value (se_mod se)" and counts: "db_nonce_byte_count db < 2 ^ 32"
    and powers: "B < length all_powers" "query_powers_ok se v (all_powers ! B) (qp_ps_low_degree (pp_query_params (db_params db)))
        (tp_max_items_per_bin (pp_table_params (db_params db))) (x B)"
    and b: "S \<in> set (db_bin_bundles db)" "b \<in> set S"
  shows "\<exists>rp. process_bin_bundle_cache se db all_powers B compr_mode (bb_cache b) = Inr rp \<and> answers v x B b rp"
proof -
  have q: "query_fits se v (db_params db) (all_powers ! B) (x B)" using powers(2) x by (simp add: query_fits_def)
  have frame: "bb_label_size b = 0" "cache_ok se v b (bb_cache b)" "db_label_byte_count db = 0"
    using ok b by (auto simp: db_ok_def db_fits_def bundle_fits_def bundle_sane_def cached_def is_labeled_def)
  then have none: "bc_batched_interp_polyns (bb_cache b) = []" by (simp add: cache_ok_def)
  obtain r where "bundle_result se (db_params db) (all_powers ! B) b = Inr r" "decryptable v r"
    "\<forall>i < bb_num_bins b. cv_slots v r i = 0 \<longleftrightarrow> (\<exists>k. key_at (bundle_rows b) i k \<and> unat k = x B i)"
    using query_result [OF pp ok comp ps q b] by blast
  then show ?thesis using counts powers(1) frame(3) none
    by (auto simp: process_bin_bundle_cache_def bundle_result_def safe_cast_u32_def answers_def Let_def)
qed

lemma bundle_count: "(\<Sum>S \<leftarrow> D. length S) < 2 ^ 64 \<Longrightarrow> foldl (\<lambda>a b. wrap64 (a + length b)) 0 D = (\<Sum>S \<leftarrow> D. length S)"
proof (induction D rule: rev_induct)
  case (snoc S D)
  then show ?case by (simp add: wrap64_def)
qed simp

lemma parts_count: "length partss = length D \<Longrightarrow> \<forall>B < length D. length (partss ! B) = length (D ! B) \<Longrightarrow>
    length (concat partss) = (\<Sum>S \<leftarrow> D. length S)"
  unfolding length_concat by (rule arg_cong [of _ _ sum_list]) (auto intro: nth_equalityI)

text \<open>What the evaluation of a query assumes of the database and the query, besides the laws of SEAL.\<close>

definition run_fits :: "('p, 'c) seal \<Rightarrow> ('p, 'c) he_view \<Rightarrow> 'pt db_library \<Rightarrow> 'p sender_db \<Rightarrow> ('c, 'k) query \<Rightarrow> (nat \<Rightarrow> nat list) \<Rightarrow> bool" where
  "run_fits se v lib db q orders \<longleftrightarrow> db_ok se v lib db \<and> params_fit se v (db_params db) \<and> compression_law se v \<and>
     keys_fit se (db_params db) \<and> qp_ps_low_degree (pp_query_params (db_params db)) \<noteq> 1 \<and>
     db_nonce_byte_count db < 2 ^ 32 \<and> (\<Sum>S \<leftarrow> db_bin_bundles db. length S) < 2 ^ 32 \<and>
     query_ok (db_params db) q \<and> (\<forall>B < pp_bundle_idx_count (db_params db). plan_order (qu_pd q) (orders B))"

lemma run_query_ok:
  assumes run: "run_fits se v lib db q orders" and x: "query_carries se v q x"
  shows "\<exists>partss. run_query se db q orders = (Some (length (concat partss)), Inr (concat partss)) \<and>
    length partss = length (db_bin_bundles db) \<and>
    (\<forall>B < length partss. list_all2 (answers v x B) (db_bin_bundles db ! B) (partss ! B))"
proof -
  let ?pp = "db_params db" and ?D = "db_bin_bundles db"
  define n where "n = pp_bundle_idx_count ?pp"
  have ok: "db_ok se v lib db" and fit: "params_fit se v ?pp" and q: "query_ok ?pp q"
    and orders: "\<forall>B < n. plan_order (qu_pd q) (orders B)" and comp: "compression_law se v"
    and misc: "keys_fit se ?pp" "qp_ps_low_degree (pp_query_params ?pp) \<noteq> 1" "db_nonce_byte_count db < 2 ^ 32"
      "(\<Sum>S \<leftarrow> ?D. length S) < 2 ^ 32"
    using run by (simp_all add: run_fits_def n_def)
  have ppok: "psi_params_ok ?pp" and laws: "seal_laws se v" using fit by (simp_all add: params_fit_def)
  have n: "length ?D = n" using ok by (simp add: db_ok_def db_fits_def n_def)
  have "n * pp_items_per_bundle ?pp = tp_table_size (pp_table_params ?pp)" "tp_table_size (pp_table_params ?pp) < 2 ^ 32"
    "0 < pp_items_per_bundle ?pp"
    using ppok unfolding psi_params_ok_def Let_def n_def by blast+
  moreover from this(3) have "n \<le> n * pp_items_per_bundle ?pp" by simp
  ultimately have n32: "n < 2 ^ 32" by linarith
  have caches: "get_cache_at B db = Inr (map bb_cache (?D ! B))" if "B < n" for B
  proof -
    have "map_res bundle_get_cache S = Inr (map bb_cache S)" if "\<forall>b \<in> set S. \<not> bb_cache_invalid b" for S :: "'a bin_bundle list"
      using that by (induction S) (auto simp: bundle_get_cache_def)
    moreover have "\<forall>b \<in> set (?D ! B). \<not> bb_cache_invalid b" using ok that n by (auto simp: db_ok_def db_fits_def cached_def)
    ultimately show ?thesis using that n by (simp add: get_cache_at_def collect_caches_def)
  qed
  obtain loaded where l: "load_powers (qu_data q) (init_powers se ?pp) = Inr loaded" "length loaded = n"
    "\<forall>B < n. length (loaded ! B) = tp_max_items_per_bin (pp_table_params ?pp) + 1 \<and>
      (\<forall>t \<in> set (qp_query_powers (pp_query_params ?pp)). power_is se v (x B) t (loaded ! B ! t))"
    using load_query_ok [OF q ppok x] by (auto simp: n_def)
  obtain A where A: "fold_res (\<lambda>B. compute_powers se db (qu_pd q) (orders B) (wrap32 B)) [0..<n] loaded = Inr A" "length A = n"
    "\<forall>B < n. map bb_cache (?D ! B) \<noteq> [] \<longrightarrow> query_powers_ok se v (A ! B) (qp_ps_low_degree (pp_query_params ?pp))
        (tp_max_items_per_bin (pp_table_params ?pp)) (x B)"
    using compute_all_ok [OF ppok laws misc(1) q orders l(2) n32 _ l(3), of "\<lambda>B. map bb_cache (?D ! B)"] caches by blast
  have xs: "\<forall>i. x B i < mo_value (se_mod se)" for B using x by (simp add: query_carries_def)
  let ?process = "\<lambda>B. process_bin_bundle_cache se db A B (qu_compr_mode q)"
  have one: "\<exists>parts. map_res (?process B) (map bb_cache (?D ! B)) = Inr parts \<and> list_all2 (answers v x B) (?D ! B) parts" if B: "B < n" for B
  proof -
    have "\<exists>rp. ?process B (bb_cache b) = Inr rp \<and> answers v x B b rp" if b: "b \<in> set (?D ! B)" for b
    proof -
      have "query_powers_ok se v (A ! B) (qp_ps_low_degree (pp_query_params ?pp)) (tp_max_items_per_bin (pp_table_params ?pp)) (x B)"
        using A(3) B b by fastforce
      moreover have "?D ! B \<in> set ?D" "B < length A" using B n A(2) by simp_all
      ultimately show ?thesis
        using process_cache_ok [where x = x and B = B and all_powers = A, OF fit ok comp misc(2) xs misc(3)] b by blast
    qed
    then obtain parts where "map_res (\<lambda>b. ?process B (bb_cache b)) (?D ! B) = Inr parts" "list_all2 (answers v x B) (?D ! B) parts"
      using map_res_rel [of "?D ! B" "\<lambda>b. ?process B (bb_cache b)" "answers v x B"] by blast
    moreover have "map_res f (map g zs) = map_res (\<lambda>z. f (g z)) zs" for f :: "'a bundle_cache \<Rightarrow> 'b result_package res" and g and zs :: "'a bin_bundle list"
      by (induction zs) simp_all
    ultimately show ?thesis by simp
  qed
  let ?task = "\<lambda>B. bind_res (get_cache_at (wrap32 B) db) (map_res (?process (wrap32 B)))"
  have tasks: "\<exists>parts. ?task B = Inr parts \<and> list_all2 (answers v x B) (?D ! B) parts" if "B \<in> set [0..<n]" for B
    using one [of B] caches [of B] that n32 by simp
  have "\<exists>partss. map_res ?task [0..<n] = Inr partss \<and> list_all2 (\<lambda>B. list_all2 (answers v x B) (?D ! B)) [0..<n] partss"
    by (rule map_res_rel) (rule tasks)
  then obtain partss where ps: "map_res ?task [0..<n] = Inr partss" "list_all2 (\<lambda>B. list_all2 (answers v x B) (?D ! B)) [0..<n] partss"
    by (elim exE conjE) (rule that)
  have len: "length partss = n" "\<forall>B < n. list_all2 (answers v x B) (?D ! B) (partss ! B)"
    using list_all2_lengthD [OF ps(2)] list_all2_nthD [OF ps(2)] by simp_all
  have "length (partss ! B) = length (?D ! B)" if "B < n" for B using len(2) that list_all2_lengthD by metis
  then have total: "length (concat partss) = (\<Sum>S \<leftarrow> ?D. length S)" using len(1) n by (intro parts_count) simp_all
  have "(\<Sum>S \<leftarrow> ?D. length S) < 2 ^ 64" by (rule less_trans [OF misc(4)]) simp
  then have "get_bin_bundle_count db = length (concat partss)" unfolding get_bin_bundle_count_def total by (rule bundle_count)
  moreover have "length (concat partss) < 2 ^ 32" using misc(4) by (simp only: total)
  ultimately have "run_query se db q orders = (Some (length (concat partss)), Inr (concat partss))"
    using q l(1) A(1) ps(1) by (simp add: run_query_def query_ok_def Let_def safe_cast_u32_def flip: n_def)
  then show ?thesis using len n by auto
qed

end
