(* ===== verification/ReceiverResult.thy ===== *)
theory ReceiverResult
  imports ReceiverQuery SenderRun
begin

text \<open>
  The result parts on the receiver's side: the match records of a part, the merge of the records of all
  parts, and what they say about the items of the query.
\<close>

subsection \<open>Merging\<close>

abbreviation duplicate_match :: exn where
  "duplicate_match \<equiv> Runtime_error ''found a duplicate positive match; something is seriously wrong''"

definition disjoint_records :: "match_record list list \<Rightarrow> nat \<Rightarrow> bool" where
  "disjoint_records Rs n \<longleftrightarrow> sorted_wrt (\<lambda>R R'. \<forall>i < n. \<not> (mr_found (R ! i) \<and> mr_found (R' ! i))) Rs"

text \<open>The records \<open>mrs\<close> are those of all the parts together.\<close>

definition merged :: "match_record list list \<Rightarrow> match_record list \<Rightarrow> bool" where
  "merged Rs mrs \<longleftrightarrow> (\<forall>i < length mrs.
     (\<forall>R \<in> set Rs. mr_found (R ! i) \<longrightarrow> mrs ! i = R ! i) \<and> ((\<forall>R \<in> set Rs. \<not> mr_found (R ! i)) \<longrightarrow> mrs ! i = no_match))"

lemma merged_unique: "merged Rs mrs \<Longrightarrow> merged Rs mrs' \<Longrightarrow> length mrs' = length mrs \<Longrightarrow> mrs' = mrs"
  unfolding merged_def by (rule nth_equalityI) metis+

lemma merged_found: "merged Rs mrs \<Longrightarrow> i < length mrs \<Longrightarrow> mr_found (mrs ! i) \<longleftrightarrow> (\<exists>R \<in> set Rs. mr_found (R ! i))"
  unfolding merged_def by (metis match_record.select_convs(1) no_match_def)

lemma fold_res_snoc: "fold_res f (xs @ [x]) s = bind_res (fold_res f xs s) (f x)"
proof -
  have "fold_res f [x] t = f x t" for t by (cases "f x t") simp_all
  then show ?thesis unfolding fold_res_append by (cases "fold_res f xs s") simp_all
qed

lemma merge_at_eq:
  "i < length this \<Longrightarrow> i < length mrs \<Longrightarrow> merge_at this i mrs =
     (if mr_found (this ! i) \<and> mr_found (mrs ! i) then Inl duplicate_match
      else Inr (mrs[i := if mr_found (this ! i) then this ! i else mrs ! i]))"
  by (simp add: merge_at_def)

lemma merge_records_eq:
  assumes "length this = length mrs"
  shows "merge_records this mrs =
    (if \<exists>i < length mrs. mr_found (this ! i) \<and> mr_found (mrs ! i) then Inl duplicate_match
     else Inr (map (\<lambda>i. if mr_found (this ! i) then this ! i else mrs ! i) [0..<length mrs]))"
proof -
  let ?new = "\<lambda>i. if mr_found (this ! i) then this ! i else mrs ! i"
  have "fold_res (merge_at this) [0..<n] mrs =
      (if \<exists>i < n. mr_found (this ! i) \<and> mr_found (mrs ! i) then Inl duplicate_match
       else Inr (map ?new [0..<n] @ drop n mrs))" if "n \<le> length mrs" for n
    using that
  proof (induction n)
    case (Suc n)
    let ?ys = "map ?new [0..<n] @ drop n mrs"
    have n: "n < length mrs" "n < length this" "length ?ys = length mrs" "?ys ! n = mrs ! n"
      using Suc.prems assms by (simp_all add: nth_append)
    have "drop n mrs = mrs ! n # drop (Suc n) mrs" using n(1) by (simp add: Cons_nth_drop_Suc)
    then have upd: "?ys[n := ?new n] = map ?new [0..<Suc n] @ drop (Suc n) mrs" by (simp add: list_update_append)
    then have "merge_at this n ?ys = (if mr_found (this ! n) \<and> mr_found (mrs ! n) then Inl duplicate_match
        else Inr (map ?new [0..<Suc n] @ drop (Suc n) mrs))"
      using merge_at_eq [of n this ?ys] n by (simp only:)
    moreover have "fold_res (merge_at this) [0..<Suc n] mrs = bind_res (fold_res (merge_at this) [0..<n] mrs) (merge_at this n)"
      by (simp add: fold_res_snoc)
    ultimately show ?case using Suc n(1,2) by (auto simp: less_Suc_eq simp del: upt_Suc)
  qed simp
  from this [of "length mrs"] show ?thesis by (auto simp: merge_records_def)
qed

text \<open>The sequential processing of the parts.\<close>

lemma process_result_eq:
  assumes parts: "list_all2 (\<lambda>rp R. process_result_part cl blake2xb ub_shl pp label_keys itt (Some rp) = Inr R \<and>
      length R = itt_item_count itt) parts Rs"
  shows "case process_result cl blake2xb ub_shl pp label_keys itt (map Some parts) of
      Inl e \<Rightarrow> e = duplicate_match \<and> \<not> disjoint_records Rs (itt_item_count itt)
    | Inr mrs \<Rightarrow> length mrs = itt_item_count itt \<and> merged Rs mrs \<and> disjoint_records Rs (itt_item_count itt)"
proof -
  let ?n = "itt_item_count itt"
  let ?step = "\<lambda>result_part mrs. bind_res (process_result_part cl blake2xb ub_shl pp label_keys itt result_part) (\<lambda>this_mrs.
         if length this_mrs \<noteq> length mrs then Inr mrs else merge_records this_mrs mrs)"
  have "case fold_res ?step (map Some parts) (replicate ?n no_match) of
      Inl e \<Rightarrow> e = duplicate_match \<and> \<not> disjoint_records Rs ?n
    | Inr mrs \<Rightarrow> length mrs = ?n \<and> merged Rs mrs \<and> disjoint_records Rs ?n"
    using parts
  proof (induction parts arbitrary: Rs rule: rev_induct)
    case Nil
    then show ?case by (simp add: merged_def disjoint_records_def)
  next
    case (snoc rp parts)
    obtain Rs' R where Rs: "Rs = Rs' @ [R]" "list_all2 (\<lambda>rp R. process_result_part cl blake2xb ub_shl pp label_keys itt (Some rp) = Inr R \<and>
        length R = ?n) parts Rs'" "process_result_part cl blake2xb ub_shl pp label_keys itt (Some rp) = Inr R" "length R = ?n"
      using snoc.prems by (auto simp: list_all2_append1 list_all2_Cons1)
    have dis: "disjoint_records Rs ?n \<longleftrightarrow> disjoint_records Rs' ?n \<and> (\<forall>i < ?n. \<not> (mr_found (R ! i) \<and> (\<exists>R' \<in> set Rs'. mr_found (R' ! i))))"
      unfolding disjoint_records_def Rs(1) by (auto simp: sorted_wrt_append)
    note IH = snoc.IH [OF Rs(2)]
    show ?case
    proof (cases "fold_res ?step (map Some parts) (replicate ?n no_match)")
      case (Inl e)
      then show ?thesis using IH by (simp add: fold_res_append dis)
    next
      case (Inr mrs)
      have mrs: "length mrs = ?n" "merged Rs' mrs" "disjoint_records Rs' ?n" using IH Inr by simp_all
      have found: "mr_found (mrs ! i) \<longleftrightarrow> (\<exists>R' \<in> set Rs'. mr_found (R' ! i))" if "i < ?n" for i
        using merged_found [OF mrs(2)] that mrs(1) by simp
      have run: "fold_res ?step (map Some (parts @ [rp])) (replicate ?n no_match) = merge_records R mrs"
        using Inr Rs(3,4) mrs(1) by (simp add: fold_res_snoc)
      show ?thesis unfolding run
        using merge_records_eq [of R mrs] Rs(4) mrs found by (auto simp: dis) (auto simp: merged_def Rs(1))
    qed
  qed
  then show ?thesis by (simp add: process_result_def)
qed

subsection \<open>One part\<close>

definition found_record :: match_record where
  "found_record = \<lparr>mr_found = True, mr_label = []\<rparr>"

text \<open>The match of the item at position \<open>o'\<close> of a bundle.\<close>

definition zero_run :: "('p, 'c) he_view \<Rightarrow> psi_params \<Rightarrow> 'c \<Rightarrow> nat \<Rightarrow> bool" where
  "zero_run v pp c o' \<longleftrightarrow> (\<forall>k < ip_felts_per_item (pp_item_params pp). cv_slots v c (o' * ip_felts_per_item (pp_item_params pp) + k) = 0)"

text \<open>Every item is reached from one table index only, and indices without an item lead nowhere.\<close>

definition itt_fits :: "index_translation_table \<Rightarrow> bool" where
  "itt_fits itt \<longleftrightarrow> (\<forall>loc. find_item_idx itt loc \<le> itt_item_count itt) \<and>
     (\<forall>loc loc'. find_item_idx itt loc = find_item_idx itt loc' \<and> find_item_idx itt loc < itt_item_count itt \<longrightarrow> loc = loc')"

definition part_records :: "('p, 'c) he_view \<Rightarrow> psi_params \<Rightarrow> index_translation_table \<Rightarrow> 'c result_package \<Rightarrow> match_record list" where
  "part_records v pp itt rp = map (\<lambda>i. if \<exists>o' < pp_items_per_bundle pp. zero_run v pp (rp_psi_result rp) o' \<and>
       find_item_idx itt (rp_bundle_idx rp * pp_items_per_bundle pp + o') = i then found_record else no_match) [0..<itt_item_count itt]"

lemma process_entry_ok:
  assumes itt: "itt_fits itt" and n: "bundle_start + o' < 2 ^ 64"
    and slots: "o' * ip_felts_per_item (pp_item_params pp) + ip_felts_per_item (pp_item_params pp) \<le> length (pr_psi_result prp)"
    and mrs: "length mrs = itt_item_count itt" and fresh_idx: "find_item_idx itt (bundle_start + o') < itt_item_count itt \<longrightarrow>
      mrs ! find_item_idx itt (bundle_start + o') = no_match" and exp: "fst expectation = 0"
  shows "process_entry blake2xb ub_shl pp label_keys itt prp expectation bundle_start o' mrs =
    Inr (map (\<lambda>i. if has_n_zeros (drop (o' * ip_felts_per_item (pp_item_params pp)) (pr_psi_result prp)) (ip_felts_per_item (pp_item_params pp)) \<and>
      find_item_idx itt (bundle_start + o') = i then found_record else mrs ! i) [0..<itt_item_count itt])"
proof -
  let ?f = "ip_felts_per_item (pp_item_params pp)" and ?idx = "find_item_idx itt (bundle_start + o')"
  let ?z = "has_n_zeros (drop (o' * ?f) (pr_psi_result prp)) ?f"
  have add: "add_safe64 o' bundle_start = Inr (bundle_start + o')" using n by (simp add: add_safe64_def add.commute)
  have le: "?idx \<le> itt_item_count itt" using itt by (simp add: itt_fits_def)
  have same: "map (\<lambda>i. mrs ! i) [0..<itt_item_count itt] = mrs" using map_nth [of mrs] by (simp add: mrs)
  consider "\<not> ?z" | "?z" "?idx = itt_item_count itt" | "?z" "?idx < itt_item_count itt" using le by fastforce
  then show ?thesis
  proof cases
    case 1
    then show ?thesis using slots same by (simp add: process_entry_def Let_def)
  next
    case 2
    then have "map (\<lambda>i. if ?z \<and> ?idx = i then found_record else mrs ! i) [0..<itt_item_count itt] = mrs"
      using same by (auto intro!: nth_equalityI simp: mrs)
    then show ?thesis using 2 slots add by (simp add: process_entry_def Let_def)
  next
    case 3
    then have "process_entry blake2xb ub_shl pp label_keys itt prp expectation bundle_start o' mrs = Inr (mrs[?idx := found_record])"
      using slots add fresh_idx mrs exp by (simp add: process_entry_def Let_def no_match_def found_record_def)
    moreover have "mrs[?idx := found_record] = map (\<lambda>i. if ?z \<and> ?idx = i then found_record else mrs ! i) [0..<itt_item_count itt]"
      using 3 by (auto intro!: nth_equalityI simp: mrs nth_list_update)
    ultimately show ?thesis by simp
  qed
qed

lemma process_part_ok:
  assumes cl: "client_laws se v io cl" and itt: "itt_fits itt"
    and rp: "rp_label_byte_count rp = 0" "rp_label_result rp = []" "decryptable v (rp_psi_result rp)"
    and pp: "pp_items_per_bundle pp * ip_felts_per_item (pp_item_params pp) \<le> hv_slot_count v"
      "rp_bundle_idx rp * pp_items_per_bundle pp + pp_items_per_bundle pp < 2 ^ 64"
  shows "process_result_part cl blake2xb ub_shl pp label_keys itt (Some rp) = Inr (part_records v pp itt rp)"
proof -
  let ?f = "ip_felts_per_item (pp_item_params pp)" and ?n = "pp_items_per_bundle pp" and ?c = "rp_psi_result rp"
  let ?start = "rp_bundle_idx rp * ?n" and ?slots = "map (cv_slots v ?c) [0..<hv_slot_count v]"
  define prp where "prp = \<lparr>pr_bundle_idx = rp_bundle_idx rp, pr_psi_result = ?slots, pr_label_byte_count = 0,
      pr_nonce_byte_count = rp_nonce_byte_count rp, pr_label_result = []\<rparr>"
  obtain dec where "cl_decryptor cl = Some dec" "dec ?c = Inr ?slots" using cl rp(3) unfolding client_laws_def by blast
  then have ext: "extract_result cl rp = Inr prp" using rp(1,2) by (simp add: extract_result_def prp_def)
  have start: "mul_safe64 (pr_bundle_idx prp) ?n = Inr ?start" using pp(2) by (simp add: mul_safe64_def prp_def)
  have exp: "label_expectation pp (length label_keys) (itt_item_count itt) prp = Inr (0, 0, 0, 0)"
    by (simp add: label_expectation_def prp_def add_safe64_def mul_safe64_def)
  have zeros: "has_n_zeros (drop (o' * ?f) (pr_psi_result prp)) ?f \<longleftrightarrow> zero_run v pp ?c o'" and
    room: "o' * ?f + ?f \<le> length (pr_psi_result prp)" if o: "o' < ?n" for o'
  proof -
    have "(o' + 1) * ?f \<le> ?n * ?f" using o by (intro mult_le_mono1) simp
    then have r: "o' * ?f + ?f \<le> hv_slot_count v" using pp(1) by simp
    then show "o' * ?f + ?f \<le> length (pr_psi_result prp)" by (simp add: prp_def)
    have "take ?f (drop (o' * ?f) ?slots) = map (cv_slots v ?c) [o' * ?f..<o' * ?f + ?f]"
      using r by (simp add: drop_map take_map)
    then show "has_n_zeros (drop (o' * ?f) (pr_psi_result prp)) ?f \<longleftrightarrow> zero_run v pp ?c o'"
      unfolding has_n_zeros_def zero_run_def prp_def
      by (auto simp: list_all_iff) (metis add_diff_cancel_left' le_add1 le_iff_add nat_add_left_cancel_less)+
  qed
  let ?rec = "\<lambda>m. map (\<lambda>i. if \<exists>o' < m. zero_run v pp ?c o' \<and> find_item_idx itt (?start + o') = i then found_record else no_match)
      [0..<itt_item_count itt]"
  have "fold_res (process_entry blake2xb ub_shl pp label_keys itt prp (0, 0, 0, 0) ?start) [0..<m] (replicate (itt_item_count itt) no_match) =
      Inr (?rec m)" if "m \<le> ?n" for m
    using that
  proof (induction m)
    case 0
    show ?case by (simp add: map_replicate_const)
  next
    case (Suc m)
    have other: "find_item_idx itt (?start + o') \<noteq> find_item_idx itt (?start + m)"
      if "o' < m" "find_item_idx itt (?start + m) < itt_item_count itt" for o'
      using itt that unfolding itt_fits_def by (metis add_left_cancel less_irrefl)
    have "process_entry blake2xb ub_shl pp label_keys itt prp (0, 0, 0, 0) ?start m (?rec m) =
      Inr (map (\<lambda>i. if zero_run v pp ?c m \<and> find_item_idx itt (?start + m) = i then found_record else ?rec m ! i) [0..<itt_item_count itt])"
      unfolding zeros [OF Suc_le_lessD [OF Suc.prems], symmetric]
      using itt room [of m] Suc.prems pp(2) other by (intro process_entry_ok) auto
    also have "map (\<lambda>i. if zero_run v pp ?c m \<and> find_item_idx itt (?start + m) = i then found_record else ?rec m ! i) [0..<itt_item_count itt] = ?rec (Suc m)"
      by (auto simp: less_Suc_eq)
    finally show ?case using Suc by (simp add: fold_res_snoc)
  qed
  from this [of ?n] show ?thesis
    by (simp add: process_result_part_def ext start exp part_records_def)
qed

end
