(* ===== verification/LabelDelivery.thy ===== *)
theory LabelDelivery
  imports ReceiverResult
begin

text \<open>
  The way of a label: encrypted and algebraized by the sender (\<open>encrypt_label\<close>, \<open>algebraize_item_label\<close>), carried
  in the slots of the label parts of a result, and read by the receiver (\<open>process_result_part\<close>).
\<close>

text \<open>The decrypted label parts of a result have the label felts of an item at the item's place in the bundle.\<close>

definition carries_label :: "psi_params \<Rightarrow> alg_item_label \<Rightarrow> nat \<Rightarrow> nat \<Rightarrow> nat list list \<Rightarrow> bool" where
  "carries_label pp ail L bundle_offset label_result \<longleftrightarrow> length label_result = L \<and>
     (let f = ip_felts_per_item (pp_item_params pp)
      in \<forall>l < L. (bundle_offset + 1) * f \<le> length (label_result ! l) \<and>
           (\<forall>i < f. label_result ! l ! (bundle_offset * f + i) = unat (snd (ail ! i) ! l)))"

lemma carried_part:
  assumes "carries_label pp ail L bo lr" "l < L" "length ail = ip_felts_per_item (pp_item_params pp)"
  shows "map word_of_nat (take (length ail) (drop (bo * length ail) (lr ! l))) = map (\<lambda>i. map snd ail ! i ! l) [0..<length (map snd ail)]"
proof (rule nth_equalityI)
  have len: "bo * length ail + length ail \<le> length (lr ! l)"
    using assms by (auto simp: carries_label_def Let_def)
  then show "length (map word_of_nat (take (length ail) (drop (bo * length ail) (lr ! l))) :: felt list) =
      length (map (\<lambda>i. map snd ail ! i ! l) [0..<length (map snd ail)])" by simp
  fix i assume "i < length (map word_of_nat (take (length ail) (drop (bo * length ail) (lr ! l))) :: felt list)"
  then have i: "i < length ail" by simp
  then have "lr ! l ! (bo * length ail + i) = unat (snd (ail ! i) ! l)" using assms by (auto simp: carries_label_def Let_def)
  then show "(map word_of_nat (take (length ail) (drop (bo * length ail) (lr ! l))) :: felt list) ! i =
      map (\<lambda>i. map snd ail ! i ! l) [0..<length (map snd ail)] ! i"
    using i len by simp
qed

lemma map_res_all: "(\<And>x. x \<in> set xs \<Longrightarrow> f x = Inr (g x)) \<Longrightarrow> map_res f xs = Inr (map g xs)"
  by (induction xs) (simp_all add: result_simps)

lemma label_delivered_ok:
  assumes pp: "psi_params_ok pp" and m: "usable_modulus (sp_plain_modulus (pp_seal_params pp))" and v: "item_wf v"
    and lbc: "0 < lbc" "lbc \<le> 1024" and nbc: "nbc \<le> 16" and xb: "xof_fills xb" and rb: "random_fills rb"
    and enc: "encrypt_label xb rb label key lbc nbc = Inr enc"
  shows "\<exists>ail L. algebraize_item_label v enc (pp_item_bit_count pp) (sp_plain_modulus (pp_seal_params pp)) = Inr ail \<and>
    (\<forall>p \<in> set ail. length (snd p) = L) \<and>
    (\<forall>prp keys bo i. pr_label_byte_count prp = lbc \<and> pr_nonce_byte_count prp = nbc \<and> carries_label pp ail L bo (pr_label_result prp) \<and>
       bo * ip_felts_per_item (pp_item_params pp) < 2 ^ 64 \<and> i < length keys \<and> keys ! i = key \<longrightarrow>
       bind_res (label_expectation pp (length keys) (length keys) prp) (\<lambda>expectation.
         extract_label xb ub_shl pp keys expectation (pr_label_result prp) bo i) = Inr (fit_label lbc label))"
proof -
  let ?m = "sp_plain_modulus (pp_seal_params pp)" and ?bc = "pp_item_bit_count pp" and ?f = "ip_felts_per_item (pp_item_params pp)"
  let ?b = "mod_bit_count ?m - 1"
  have bc: "?bc = ?b * ?f" "80 \<le> ?bc" "?bc \<le> 128" "2 \<le> ?f" using pp unfolding psi_params_ok_def Let_def by blast+
  then have bc: "?bc = ?b * ?f" "0 < ?bc" "?bc \<le> 128" "0 < ?f" by linarith+
  have decrypted: "decrypt_label xb enc key nbc = Inr (fit_label lbc label)"
    using label_decrypted [OF xb rb nbc, of label key lbc] enc by simp
  have len: "length enc = nbc + lbc"
    using enc nbc xb rb xor_buffers_correct by (auto simp: encrypt_label_def max_nonce_byte_count_def Let_def xof_fills_def random_fills_def)
  then have ne: "enc \<noteq> []" "8 * length enc + 1024 < 2 ^ 32" using lbc nbc by auto
  obtain ail L bytes where ail: "algebraize_item_label v enc ?bc ?m = Inr ail" "algebraize_item v ?bc ?m = Inr (map fst ail)"
    "\<forall>p \<in> set ail. length (snd p) = L"
    "dealgebraize_label ub_shl (collect_label (map snd ail) L) (L * length ail * ?b) ?m = Inr bytes" "take (length enc) bytes = enc"
    "8 * length enc \<le> L * length ail * ?b"
    using label_dealt [OF v m bc(2,3) ne, of ub_shl] by blast
  have "length (map fst ail) = felt_count ?bc ?m" using algebraize_item_ok [OF v m bc(2,3)] ail(2) by auto
  moreover have "felt_count ?bc ?m = ?f" using felt_count_mult [OF m bc(4)] by (simp add: bc(1) mult.commute)
  ultimately have f: "length ail = ?f" by simp
  have bits: "L * length ail * ?b = ?bc * L" by (simp add: bc(1) f)
  have L0: "0 < L" using ail(6) ne(1) by (cases L) simp_all
  have small: "?bc * L < 2 ^ 64"
  proof -
    have "L * length ail * ?b < 2 ^ 32"
      using ail(4) by (rule contrapos_pp) (simp add: dealgebraize_label_def safe_cast_u32_def)
    then show ?thesis unfolding bits by simp
  qed
  have resized: "resize_bytes bytes (nbc + lbc) = enc"
  proof -
    have "nbc + lbc \<le> length bytes" using arg_cong [OF ail(5), of length] by (simp add: len)
    then show ?thesis using ail(5) by (simp add: resize_bytes_def len)
  qed
  have "bind_res (label_expectation pp (length keys) (length keys) prp) (\<lambda>expectation.
      extract_label xb ub_shl pp keys expectation (pr_label_result prp) bo i) = Inr (fit_label lbc label)"
    if prp: "pr_label_byte_count prp = lbc" "pr_nonce_byte_count prp = nbc" "carries_label pp ail L bo (pr_label_result prp)"
      "bo * ?f < 2 ^ 64" "i < length keys" "keys ! i = key" for prp keys bo i
  proof -
    let ?lr = "pr_label_result prp"
    have lr: "length ?lr = L" "?lr \<noteq> []" using prp(3) L0 by (auto simp: carries_label_def)
    have room: "\<not> ?bc * L div 8 < nbc + lbc" using ail(6) len unfolding bits by simp
    then have "label_expectation pp (length keys) (length keys) prp = Inr (lbc, nbc, nbc + lbc, ?bc * L)"
      using lbc nbc small lr by (simp add: label_expectation_def Let_def prp(1,2) add_safe64_def mul_safe64_def)
    moreover have "map_res (\<lambda>label_parts. if bo * ?f + ?f > length label_parts then Inl Bad_access
        else Inr (map word_of_nat (take ?f (drop (bo * ?f) label_parts)) :: felt list)) ?lr =
        Inr (map (\<lambda>label_parts. map word_of_nat (take ?f (drop (bo * ?f) label_parts))) ?lr)"
      using prp(3) by (intro map_res_all) (auto simp: carries_label_def Let_def in_set_conv_nth)
    moreover have "concat (map (\<lambda>label_parts. map word_of_nat (take ?f (drop (bo * ?f) label_parts))) ?lr) = collect_label (map snd ail) L"
    proof -
      have "map (\<lambda>label_parts. map word_of_nat (take ?f (drop (bo * ?f) label_parts))) ?lr =
          map (\<lambda>l. map (\<lambda>i. map snd ail ! i ! l) [0..<length (map snd ail)]) [0..<L]"
        by (rule nth_equalityI) (simp_all add: lr carried_part [OF prp(3) _ f, unfolded f] f)
      then show ?thesis by (simp add: collect_label_def)
    qed
    ultimately show ?thesis
      using ail(4) [unfolded bits] prp(4-6) resized decrypted by (simp add: extract_label_def mul_safe64_def Let_def)
  qed
  then show ?thesis using ail(1,3) by blast
qed

subsection \<open>Properties\<close>

text \<open>
  C8. A label that is found is the label that was stored. When the sender encrypts the label of an item
  and algebraizes it with the item, and the decrypted label parts of a result hold these field elements at the item's
  place in the bundle, then the receiver, who has the label key of the item from the oblivious evaluation,
  reads the label, cut or padded with zeros to the label byte count of the database. No overflow check and no length check
  on the way fails.
\<close>
theorem label_delivered:
  assumes "psi_params_ok pp" and "usable_modulus (sp_plain_modulus (pp_seal_params pp))" and "item_wf v"
    and "0 < lbc" "lbc \<le> 1024" and "nbc \<le> 16" and "xof_fills xb" and "random_fills rb"
    and "encrypt_label xb rb label key lbc nbc = Inr enc"
  shows "\<exists>ail L. algebraize_item_label v enc (pp_item_bit_count pp) (sp_plain_modulus (pp_seal_params pp)) = Inr ail \<and>
    (\<forall>p \<in> set ail. length (snd p) = L) \<and>
    (\<forall>prp keys bo i. pr_label_byte_count prp = lbc \<and> pr_nonce_byte_count prp = nbc \<and> carries_label pp ail L bo (pr_label_result prp) \<and>
       bo * ip_felts_per_item (pp_item_params pp) < 2 ^ 64 \<and> i < length keys \<and> keys ! i = key \<longrightarrow>
       bind_res (label_expectation pp (length keys) (length keys) prp) (\<lambda>expectation.
         extract_label xb ub_shl pp keys expectation (pr_label_result prp) bo i) =
       Inr (take lbc label @ replicate (lbc - length label) 0))"
  using label_delivered_ok [OF assms, of ub_shl] by (simp only: fit_label_def)

theorem label_delivered_witness:
  "\<exists>prp enc. encrypt_label (\<lambda>n _ _. replicate n 7) (\<lambda>n. replicate n 0) [9, 8, 7] [1] 4 2 = Inr enc \<and>
    bind_res (label_expectation toy_params 2 2 prp) (\<lambda>expectation.
      extract_label (\<lambda>n _ _. replicate n 7) (\<lambda>_ _. 0) toy_params [[3], [1]] expectation (pr_label_result prp) 1 1) = Inr [9, 8, 7, 0]"
proof -
  let ?xb = "\<lambda>n _ _. replicate n (7 :: byte)" and ?rb = "\<lambda>n. replicate n (0 :: byte)"
  obtain enc where enc: "encrypt_label ?xb ?rb [9, 8, 7] [1] 4 2 = Inr enc" by (simp add: encrypt_label_def max_nonce_byte_count_def Let_def)
  have fills: "xof_fills ?xb" "random_fills ?rb" by (simp_all add: xof_fills_def random_fills_def)
  have pp: "psi_params_ok toy_params" "usable_modulus (sp_plain_modulus (pp_seal_params toy_params))"
    using toy_params_fit by (simp_all add: params_fit_def)
  have v: "item_wf (replicate 16 5)" by (simp add: item_wf_def)
  obtain ail L where ail: "\<forall>prp keys bo i. pr_label_byte_count prp = 4 \<and> pr_nonce_byte_count prp = 2 \<and>
      carries_label toy_params ail L bo (pr_label_result prp) \<and> bo * ip_felts_per_item (pp_item_params toy_params) < 2 ^ 64 \<and>
      i < length keys \<and> keys ! i = [1] \<longrightarrow>
      bind_res (label_expectation toy_params (length keys) (length keys) prp) (\<lambda>expectation.
        extract_label ?xb (\<lambda>_ _. 0) toy_params keys expectation (pr_label_result prp) bo i) =
      Inr (take 4 [9, 8, 7] @ replicate (4 - length [9, 8, 7 :: byte]) 0)"
    using label_delivered [OF pp v _ _ _ fills enc, of "\<lambda>_ _. 0"] by auto
  define prp where "prp = \<lparr>pr_bundle_idx = 0, pr_psi_result = [], pr_label_byte_count = 4, pr_nonce_byte_count = 2,
    pr_label_result = map (\<lambda>l. replicate 27 0 @ map (\<lambda>i. unat (snd (ail ! i) ! l)) [0..<27]) [0..<L]\<rparr>"
  have "carries_label toy_params ail L 1 (pr_label_result prp)"
    by (simp add: carries_label_def toy_params_def prp_def nth_append)
  then have "bind_res (label_expectation toy_params (length [[3], [1 :: byte]]) (length [[3], [1 :: byte]]) prp) (\<lambda>expectation.
      extract_label ?xb (\<lambda>_ _. 0) toy_params [[3], [1]] expectation (pr_label_result prp) 1 1) =
      Inr (take 4 [9, 8, 7] @ replicate (4 - length [9, 8, 7 :: byte]) 0)"
    by (intro ail [rule_format]) (simp_all add: prp_def, simp add: toy_params_def)
  then show ?thesis using enc by (intro exI [of _ prp] exI [of _ enc]) (simp add: numeral_2_eq_2)
qed

end
