(* ===== verification/SenderDbPacking.thy ===== *)
theory SenderDbPacking
  imports SenderDbReach
begin

text \<open>
  How the workers of the sender's database pack the bundles of a bundle index: a further bundle is
  opened only for a datum that every bundle there has refused, so that each bundle but the last one has a
  bin that is as full as the bound allows.
\<close>

subsection \<open>Packed sets of bundles\<close>

definition set_packed :: "nat \<Rightarrow> 'p bin_bundle list \<Rightarrow> bool" where
  "set_packed max_bin_size S \<longleftrightarrow> (\<forall>b \<in> set S. \<exists>i. bundle_rows b i \<noteq> []) \<and>
     (\<forall>j. Suc j < length S \<longrightarrow> (\<exists>i. max_bin_size - 1 \<le> length (bundle_rows (S ! j) i)))"

lemma accepted_grows:
  assumes "insert_accepted ra rows start b b'"
  shows "length (bundle_rows b i) \<le> length (bundle_rows b' i)" and "rows \<noteq> [] \<Longrightarrow> bundle_rows b' start \<noteq> []"
  using assms by (auto simp: insert_accepted_def rows_update_def)

lemma packed_replaced:
  assumes "set_packed mb S" "insert_accepted ra rows start (S ! j) b'" "rows \<noteq> []"
  shows "set_packed mb (S[j := b'])"
proof -
  have "\<exists>i. bundle_rows b i \<noteq> []" if "b \<in> set (S[j := b'])" for b
    using that assms(1) accepted_grows(2) [OF assms(2,3)] set_update_subset_insert [of S j b']
    by (auto simp: set_packed_def)
  moreover have "\<exists>i. mb - 1 \<le> length (bundle_rows (S[j := b'] ! t) i)" if t: "Suc t < length S" for t
  proof (cases "t = j")
    case True
    obtain i where "mb - 1 \<le> length (bundle_rows (S ! j) i)" using assms(1) t True by (auto simp: set_packed_def)
    then show ?thesis using accepted_grows(1) [OF assms(2), of i] t True by (auto intro: order_trans)
  next
    case False
    then show ?thesis using assms(1) t by (simp add: set_packed_def)
  qed
  ultimately show ?thesis by (simp add: set_packed_def)
qed

lemma packed_appended:
  assumes "set_packed mb S" "insert_accepted ra rows start b b'" "rows \<noteq> []"
    and "\<forall>j < length S. \<exists>i. mb - 1 \<le> length (bundle_rows (S ! j) i)"
  shows "set_packed mb (S @ [b'])"
  using assms(1,4) accepted_grows(2) [OF assms(2,3)] by (auto simp: set_packed_def nth_append)

text \<open>Refreshing the caches keeps the rows, and so the packing.\<close>

lemma packed_rows:
  assumes "list_all2 (\<lambda>b b'. bundle_rows b' = bundle_rows b) S S'" "set_packed mb S"
  shows "set_packed mb S'"
proof -
  have len: "length S' = length S" using assms(1) by (simp add: list_all2_lengthD)
  have at: "bundle_rows (S' ! j) = bundle_rows (S ! j)" if "j < length S" for j
    using list_all2_nthD [OF assms(1) that] .
  have "\<exists>i. bundle_rows b i \<noteq> []" if b: "b \<in> set S'" for b
  proof -
    obtain j where "j < length S" "b = S' ! j" using b len by (auto simp: in_set_conv_nth)
    then show ?thesis using assms(2) at by (simp add: set_packed_def)
  qed
  then show ?thesis using assms(2) at len by (simp add: set_packed_def)
qed

lemma regen_keeps_rows: "regen_cache se b = Inr b' \<Longrightarrow> bundle_rows b' = bundle_rows b"
  by (auto simp: regen_cache_def regen_polyns_def regen_plaintexts_def bundle_clear_cache_def fun_eq_iff
      bundle_rows_def bin_rows_def result_simps split: if_splits)

lemma map_res_list_all2: "map_res f xs = Inr ys \<Longrightarrow> list_all2 (\<lambda>x y. f x = Inr y) xs ys"
  by (induction xs arbitrary: ys) (auto simp: result_simps)

lemma generate_keeps_packed:
  assumes "generate_caches se D = Inr D'" "\<forall>S \<in> set D. set_packed mb S"
  shows "\<forall>S \<in> set D'. set_packed mb S"
proof
  fix S' assume "S' \<in> set D'"
  then obtain B where B: "B < length D'" "S' = D' ! B" by (auto simp: in_set_conv_nth)
  have all: "list_all2 (\<lambda>S S'. map_res (regen_cache se) S = Inr S') D D'"
    using assms(1) by (intro map_res_list_all2) (simp add: generate_caches_def)
  then have len: "B < length D" using B(1) by (simp add: list_all2_lengthD)
  then have "map_res (regen_cache se) (D ! B) = Inr S'" using list_all2_nthD [OF all] B(2) by simp
  then have "list_all2 (\<lambda>b b'. bundle_rows b' = bundle_rows b) (D ! B) S'"
    by (intro list_all2_mono [OF map_res_list_all2]) (auto intro: regen_keeps_rows)
  from packed_rows [OF this] show "set_packed mb S'" using assms(2) nth_mem [OF len] by blast
qed

subsection \<open>One datum\<close>

lemma write_length: "write_to_set ins ovw mb False k d start j S = Inr (S', written) \<Longrightarrow> length S' = length S"
proof (induction j arbitrary: S)
  case (Suc j)
  obtain b where b: "vec_get S j = Inr b" using Suc.prems by (cases "vec_get S j") auto
  obtain b1 n where dry: "ins k d start True b = Inr (b1, n)"
    using Suc.prems b by (cases "ins k d start True b") auto
  show ?case
  proof (cases "n > 0 \<and> nat n < mb")
    case True
    obtain b2 n2 where "ins k d start False b1 = Inr (b2, n2)"
      using Suc.prems b dry True by (cases "ins k d start False b1") auto
    then show ?thesis using Suc.prems b dry True by auto
  next
    case False
    then have "write_to_set ins ovw mb False k d start j (S[j := b1]) = Inr (S', written)"
      using Suc.prems b dry by auto
    from Suc.IH [OF this] show ?thesis by simp
  qed
qed simp

text \<open>A datum that no bundle took would have filled a bin of each of them to the bound.\<close>

lemma unwritten_full:
  assumes fits: "\<forall>b \<in> set S. bundle_fits ra 0 mb ps nb b" and "mb < 2 ^ 31"
    and d: "rows_fit 0 (item_rows d)" "start + length (item_rows d) \<le> nb" and "j \<le> length S"
    and "write_to_set (ins_items ra rnd) ovw mb False k d start j S = Inr (S', False)"
  shows "\<forall>i < j. mb \<le> largest (bundle_rows (S ! i)) start (length (item_rows d))"
  using assms(5,6)
proof (induction j)
  case (Suc j)
  let ?b = "S ! j" and ?l = "largest (bundle_rows (S ! j)) start (length (item_rows d))"
  have j: "j < length S" and fit: "bundle_fits ra 0 mb ps nb ?b" using Suc.prems(1) fits by simp_all
  then have b: "bundle_sane ra ?b" "bb_label_size ?b = 0" "bb_num_bins ?b = nb" by (simp_all add: bundle_fits_def)
  note law = ins_items_law [OF b(1) fits_small [OF fit assms(2)] b(2), of d start rnd k, unfolded b(2,3), OF d]
  have dry: "ins_items ra rnd k d start True ?b = Inr (?b, int ?l)" using law [of True] by auto
  obtain b' where real: "ins_items ra rnd k d start False ?b = Inr (b', int ?l)" using law [of False] by auto
  have "0 < ?l"
  proof -
    have "length (bundle_rows ?b (start + 0)) + 1 \<le> ?l"
      unfolding largest_def using d(1) by (intro Max_ge imageI) (simp_all add: rows_fit_def)
    then show ?thesis by simp
  qed
  then have full: "\<not> ?l < mb" using Suc.prems(2) dry real j by auto
  then have "write_to_set (ins_items ra rnd) ovw mb False k d start j S = Inr (S', False)"
    using Suc.prems(2) dry j by (simp add: list_update_id)
  then show ?case using Suc.IH Suc.prems(1) full by (auto simp: less_Suc_eq)
qed simp

lemma largest_reached: "n \<noteq> 0 \<Longrightarrow> \<exists>i. largest rows start n = length (rows i) + 1"
proof -
  assume "n \<noteq> 0"
  then have "largest rows start n \<in> (\<lambda>k. length (rows (start + k)) + 1) ` {..<n}"
    unfolding largest_def by (intro Max_in) auto
  then show ?thesis by auto
qed

lemma insert_one_packed:
  assumes fits: "\<forall>b \<in> set S. bundle_fits ra 0 mb ps nb b" and mk: "fresh_ok ra 0 mb ps nb mk"
    and d: "rows_fit 0 (item_rows d)" "start + length (item_rows d) \<le> nb" and packed: "set_packed mb S"
    and ins: "insert_one_set (ins_items ra rnd) ovw mk mb False k d start S = Inr S'"
  shows "set_packed mb S'"
proof -
  have ne: "item_rows d \<noteq> []" using d(1) by (simp add: rows_fit_def)
  have "set_grown ra (item_rows d) start S S'"
    using item_data.insert_one_ok [OF fits mk refl d, of rnd ovw k] ins by auto
  then consider (replaced) j b' where "insert_accepted ra (item_rows d) start (S ! j) b'" "S' = S[j := b']"
    | (appended) b b' where "insert_accepted ra (item_rows d) start b b'" "S' = S @ [b']"
    unfolding set_grown_def by blast
  then show ?thesis
  proof cases
    case replaced
    then show ?thesis using packed_replaced [OF packed replaced(1) ne] by simp
  next
    case appended
    obtain S1 written where w: "write_to_set (ins_items ra rnd) ovw mb False k d start (length S) S = Inr (S1, written)"
      "written \<Longrightarrow> S' = S1"
      using ins by (auto simp: insert_one_set_def result_simps split: if_splits)
    have "\<not> written" using w write_length [OF w(1)] appended(2) by auto
    then have full: "\<forall>i < length S. mb \<le> largest (bundle_rows (S ! i)) start (length (item_rows d))"
      using unwritten_full [OF fits _ d order_refl] w(1) mk by (auto simp: fresh_ok_def)
    have "\<exists>i. mb - 1 \<le> length (bundle_rows (S ! j) i)" if "j < length S" for j
    proof -
      obtain i where "largest (bundle_rows (S ! j)) start (length (item_rows d)) = length (bundle_rows (S ! j) i) + 1"
        using largest_reached [of "length (item_rows d)"] ne by blast
      then have "mb - 1 \<le> length (bundle_rows (S ! j) i)" using full that by fastforce
      then show ?thesis by blast
    qed
    then show ?thesis using packed_appended [OF packed appended(1) ne] appended(2) by blast
  qed
qed

subsection \<open>All of the data\<close>

lemma insert_all_packed:
  assumes fits: "\<forall>b \<in> set S. bundle_fits ra 0 mb ps nb b" and mk: "fresh_ok ra 0 mb ps nb mk"
    and d: "\<forall>(k, d, c) \<in> set xs. rows_fit 0 (item_rows d) \<and> c mod n + length (item_rows d) \<le> nb"
    and packed: "set_packed mb S"
    and run: "fold_res (\<lambda>(k, d, c). insert_one_set (ins_items ra rnd) ovw mk mb False k d (c mod n)) xs S = Inr S'"
  shows "set_packed mb S'"
  using fits d packed run
proof (induction xs arbitrary: S)
  case (Cons x xs)
  obtain k d c where x: "x = (k, d, c)" by (metis prod.exhaust)
  have d: "rows_fit 0 (item_rows d)" "c mod n + length (item_rows d) \<le> nb" using Cons.prems(2) x by auto
  obtain T where T: "insert_one_set (ins_items ra rnd) ovw mk mb False k d (c mod n) S = Inr T"
    "\<forall>b \<in> set T. bundle_fits ra 0 mb ps nb b"
    using item_data.insert_one_ok [OF Cons.prems(1) mk refl d, of rnd ovw k] by blast
  have "set_packed mb T" by (rule insert_one_packed [OF Cons.prems(1) mk d Cons.prems(3) T(1)])
  moreover have "fold_res (\<lambda>(k, d, c). insert_one_set (ins_items ra rnd) ovw mk mb False k d (c mod n)) xs T = Inr S'"
    using Cons.prems(4) T(1) by (simp add: x)
  ultimately show ?case using Cons.IH [OF T(2)] Cons.prems(2) by simp
qed simp

lemma dispatch_packed:
  assumes n: "n \<noteq> 0" and small: "length D \<le> 2 ^ 32"
    and fits: "\<forall>S \<in> set D. \<forall>b \<in> set S. bundle_fits ra 0 mb ps nb b" and mk: "fresh_ok ra 0 mb ps nb mk"
    and d: "\<forall>(d, c) \<in> set data. rows_fit 0 (item_rows d) \<and> c mod n + length (item_rows d) \<le> nb \<and> c div n < length D"
    and packed: "\<forall>S \<in> set D. set_packed mb S"
    and run: "dispatch_insert_or_assign (ins_items ra rnd) ovw mk data n mb False D = Inr D'"
  shows "\<forall>S \<in> set D'. set_packed mb S"
proof
  fix S' assume "S' \<in> set D'"
  then obtain B where B: "B < length D'" "S' = D' ! B" by (auto simp: in_set_conv_nth)
  have idx: "\<forall>x \<in> set data. snd x div n < length D" using d by auto
  have len: "length D' = length D" and sets: "\<And>B. B < length D \<Longrightarrow>
      fold_res (\<lambda>(k, d, c). insert_one_set (ins_items ra rnd) ovw mk mb False k d (c mod n)) (owned n B (enumerate 0 data)) (D ! B) =
      Inr (D' ! B)"
    using insert_dispatch_sets [OF n small idx, of "ins_items ra rnd" ovw mk mb False D'] run by blast+
  have own: "\<forall>(k, d, c) \<in> set (owned n B (enumerate 0 data)). rows_fit 0 (item_rows d) \<and> c mod n + length (item_rows d) \<le> nb"
    using d enumerate_snd [of _ 0 data] by (fastforce simp: owned_def)
  have Bd: "B < length D" using B(1) len by simp
  have mem: "D ! B \<in> set D" using Bd by simp
  show "set_packed mb S'"
    using insert_all_packed [OF bspec [OF fits mem] mk own bspec [OF packed mem] sets [OF Bd]] B(2) by simp
qed

subsection \<open>Insertion into the database\<close>

text \<open>The items that remain after the check for known hashes are well-formed.\<close>

lemma new_hashes_wf:
  assumes "\<forall>h \<in> set hs. item_wf h" "remove_if found_or_insert (\<lambda>v. v) 0 (length hs) 0 hs (H, n) = (ys, m, t)"
  shows "\<forall>h \<in> set (take m ys). item_wf h"
proof -
  obtain ks where ks: "keep_if found_or_insert hs (H, n) = (ks, (H \<union> set hs, n + length ks))" "set ks = set hs - H"
    using keep_found by blast
  obtain zs where "remove_if found_or_insert (\<lambda>v. v) 0 (length hs) 0 hs (H, n) = (zs, length ks, (H \<union> set hs, n + length ks))"
    "take (length ks) zs = ks"
    using remove_if_keeps [of 0 0 "length hs" hs found_or_insert "\<lambda>v. v" "(H, n)"] ks(1) by auto
  then show ?thesis using assms ks(2) by auto
qed

lemma insert_unlabeled_packed:
  assumes lib: "library_ok lib" and pp: "params_fit se v (db_params db)" and db: "db_ok se v lib db"
    and run: "insert_or_assign_unlabeled se lib rnd data db = Inr db'"
    and packed: "\<forall>S \<in> set (db_bin_bundles db). set_packed (tp_max_items_per_bin (pp_table_params (db_params db))) S"
  shows "\<forall>S \<in> set (db_bin_bundles db'). set_packed (tp_max_items_per_bin (pp_table_params (db_params db))) S"
proof -
  let ?pp = "db_params db" and ?H = "db_hashed_items db"
  let ?hash = "\<lambda>x. fst (get_item_hash (dl_fourq lib) x (db_oprf_key db))"
  let ?hs = "map ?hash data" and ?n = "pp_bins_per_bundle ?pp" and ?mb = "tp_max_items_per_bin (pp_table_params ?pp)"
  let ?ps = "qp_ps_low_degree (pp_query_params ?pp)"
  have h: "db_fits se v lib ?pp (db_bin_bundles db)" "\<not> db_stripped db" "\<not> is_labeled db"
    using db by (simp_all add: db_ok_def)
  have hashes: "compute_hashes (dl_fourq lib) (dl_threads lib) data (db_oprf_key db) = Inr ?hs"
    using lib by (intro compute_hashes_ok) (simp add: library_ok_def)
  obtain ys m H' n' where found: "remove_if found_or_insert (\<lambda>v. v) 0 (length ?hs) 0 ?hs (?H, db_item_count db) = (ys, m, H', n')"
    by (metis prod.exhaust)
  have wf: "\<forall>h \<in> set (take m ys). item_wf h"
    using hashed_item_wf [OF lib] by (intro new_hashes_wf [OF _ found]) auto
  let ?data = "concat (map (item_slots lib ?pp) (take m ys))"
  obtain D1 where D1: "dispatch_insert_or_assign (ins_items (dl_table lib) rnd) (try_multi_overwrite_items (dl_table lib))
        (fresh_bundle_for db 0) ?data ?n ?mb False (db_bin_bundles db) = Inr D1" "generate_caches se D1 = Inr (db_bin_bundles db')"
    using run h(2,3) hashes found preprocess_ok [OF lib pp wf]
    by (auto simp: insert_or_assign_unlabeled_def Let_def result_simps)
  have p: "psi_params_ok ?pp" "?mb < 2 ^ 31" using pp by (simp_all add: params_fit_def)
  have q: "0 < ?n" "?ps \<le> ?mb" "tp_table_size (pp_table_params ?pp) < 2 ^ 32"
      "pp_bundle_idx_count ?pp * pp_items_per_bundle ?pp = tp_table_size (pp_table_params ?pp)" "0 < pp_items_per_bundle ?pp"
    using p(1) by (simp_all add: psi_params_ok_def Let_def)
  have len: "length (db_bin_bundles db) = pp_bundle_idx_count ?pp" using h(1) by (simp add: db_fits_def)
  have "pp_bundle_idx_count ?pp * 1 \<le> tp_table_size (pp_table_params ?pp)"
    unfolding q(4) [symmetric] using q(5) by (intro mult_le_mono2) simp
  then have small: "length (db_bin_bundles db) \<le> 2 ^ 32" using q(3) len by simp
  have mk: "fresh_ok (dl_table lib) 0 ?mb ?ps ?n (fresh_bundle_for db 0)"
    unfolding fresh_bundle_for_def using q(1,2) p(2) by (intro make_bundle_fresh) simp_all
  have fits: "\<forall>S \<in> set (db_bin_bundles db). \<forall>b \<in> set S. bundle_fits (dl_table lib) 0 ?mb ?ps ?n b"
    using h(1) by (simp add: db_fits_def)
  have slots: "\<forall>(d, c) \<in> set ?data. rows_fit 0 (item_rows d) \<and> c mod ?n + length (item_rows d) \<le> ?n \<and> c div ?n < length (db_bin_bundles db)"
    using slots_ok [OF lib pp] wf len by fastforce
  have "?n \<noteq> 0" using q(1) by simp
  from dispatch_packed [OF this small fits mk slots packed D1(1)] show ?thesis by (rule generate_keeps_packed [OF D1(2)])
qed

subsection \<open>Histories\<close>

lemma clear_packed: "S \<in> set (db_bin_bundles (db_clear db)) \<Longrightarrow> set_packed mb S"
  by (auto simp: db_clear_def clear_internal_def set_packed_def)

lemma reachable_packed:
  assumes "db_reachable se lib pp db" and lib: "library_ok lib" and pp: "params_fit se v pp"
  shows "\<forall>S \<in> set (db_bin_bundles db). set_packed (tp_max_items_per_bin (pp_table_params pp)) S"
  using assms(1)
proof induction
  case (created key nonce db)
  then show ?case by (auto simp: make_sender_db_def Let_def clear_packed split: if_splits)
next
  case (inserted db rnd data db')
  have "db_params db = pp" "db_ok se v lib db" using reachable_ok [OF inserted(1) lib pp] by simp_all
  then show ?case using insert_unlabeled_packed [OF lib _ _ inserted(2)] inserted(3) pp by blast
next
  case (replaced db rnd data db')
  have db: "db_params db = pp" "db_ok se v lib db" using reachable_ok [OF replaced(1) lib pp] by simp_all
  then have ok: "db_ok se v lib (db_clear db)" by (intro clear_ok) (simp add: db_ok_def)
  have run: "insert_or_assign_unlabeled se lib rnd data (db_clear db) = Inr db'"
    using replaced(2) by (simp add: set_data_unlabeled_def)
  have fit: "params_fit se v (db_params (db_clear db))" using pp db(1) by simp
  have "\<forall>S \<in> set (db_bin_bundles (db_clear db)). set_packed (tp_max_items_per_bin (pp_table_params (db_params (db_clear db)))) S"
    using clear_packed by blast
  from insert_unlabeled_packed [OF lib fit ok run this] show ?case using db(1) by simp
next
  case (cleared db)
  then show ?case using clear_packed by blast
next
  case (moved_to db fresh_key)
  then show ?case by (simp add: move_frame)
next
  case (moved_from db fresh_key)
  then show ?case unfolding move_frame using clear_packed by blast
qed

subsection \<open>Properties\<close>

text \<open>
  C21. The bundles of a bundle index are packed. In every database that a history of creations, insertions,
  replacements, clears and moves leads to, no bundle is empty, and every bundle but the last of its bundle
  index has a bin with as many items as the worker allows, \<open>max_items_per_bin - 1\<close> (one where that is zero): a
  further bundle is opened only for an item that all earlier ones refuse.
\<close>
theorem reachable_bundles_packed:
  assumes "db_reachable se lib pp db" "library_ok lib" "params_fit se v pp" "S \<in> set (db_bin_bundles db)"
  shows "(\<forall>b \<in> set S. \<exists>i < bb_num_bins b. bb_item_bins b ! i \<noteq> []) \<and>
    (\<forall>j. Suc j < length S \<longrightarrow> (\<exists>i < bb_num_bins (S ! j).
       length (bb_item_bins (S ! j) ! i) = max 1 (tp_max_items_per_bin (pp_table_params pp) - 1)))"
proof -
  let ?m = "tp_max_items_per_bin (pp_table_params pp)"
  have db: "db_params db = pp" "db_ok se v lib db" using reachable_ok [OF assms(1-3)] by simp_all
  have packed: "set_packed ?m S" using reachable_packed [OF assms(1-3)] assms(4) by blast
  have filled: "i < bb_num_bins b" "length (bundle_rows b i) = length (bb_item_bins b ! i)" if "bundle_rows b i \<noteq> []"
    for b :: "'a bin_bundle" and i
    using that by (auto simp: bundle_rows_def split: if_splits)
  have some: "\<exists>i. bundle_rows b i \<noteq> []" if "b \<in> set S" for b using packed that by (simp add: set_packed_def)
  then have "\<exists>i < bb_num_bins b. bb_item_bins b ! i \<noteq> []" if "b \<in> set S" for b
    using that filled by (metis length_0_conv)
  moreover have "\<exists>i < bb_num_bins (S ! j). length (bb_item_bins (S ! j) ! i) = max 1 (?m - 1)" if j: "Suc j < length S" for j
  proof -
    have mem: "S ! j \<in> set S" using j by simp
    obtain i where "max 1 (?m - 1) \<le> length (bundle_rows (S ! j) i)"
    proof (cases "?m - 1 = 0")
      case True
      obtain i where "bundle_rows (S ! j) i \<noteq> []" using some [OF mem] by blast
      then show ?thesis using True by (intro that [of i]) (cases "bundle_rows (S ! j) i"; simp)
    next
      case False
      obtain i where "?m - 1 \<le> length (bundle_rows (S ! j) i)" using packed j by (auto simp: set_packed_def)
      then show ?thesis using False by (intro that [of i]) simp
    qed
    moreover from this have "bundle_rows (S ! j) i \<noteq> []" by auto
    note filled [OF this]
    moreover have "length (bb_item_bins (S ! j) ! i) \<le> max 1 (?m - 1)"
      using ok_bins [OF db(2) assms(4) mem \<open>i < bb_num_bins (S ! j)\<close>] by (simp add: db(1))
    ultimately show ?thesis by auto
  qed
  ultimately show ?thesis by blast
qed

text \<open>
  Five items whose hashes go to the same location: a bin takes four of them, so there is a second bundle,
  and the first one is full.
\<close>

lemma toy_item_slot:
  assumes "item_wf h" "h \<noteq> zero_item"
  shows "\<exists>d. item_slots toy_library toy_params h = [(d, 81)] \<and> length d = 27"
proof -
  obtain d where d: "algebraize_item h (pp_item_bit_count toy_params) (sp_plain_modulus (pp_seal_params toy_params)) = Inr d"
    "length d = ip_felts_per_item (pp_item_params toy_params)"
    using slots_ok [OF toy_library_ok toy_params_fit assms(1)] by blast
  have "all_locations toy_library (hash_functions toy_library toy_params) h = [3]"
    using assms(2) by (simp add: all_locations_def hash_functions_def toy_library_def toy_params_def upt_rec)
  then show ?thesis using d by (simp add: item_slots_def toy_params_def)
qed

lemma toy_full:
  assumes ok: "db_ok se v toy_library db" "db_params db = toy_params"
    and H: "5 \<le> card (db_hashed_items db)" "zero_item \<notin> db_hashed_items db"
  shows "2 \<le> length (db_bin_bundles db ! 1)"
proof -
  let ?H = "db_hashed_items db" and ?S = "db_bin_bundles db ! 1"
  have h: "finite ?H" "\<forall>h \<in> ?H. item_wf h" "length (db_bin_bundles db) = 2"
    and rows: "\<And>B i. B < length (db_bin_bundles db) \<Longrightarrow> set_rows (db_bin_bundles db ! B) i =
      (\<Sum>h \<in> ?H. slot_rows toy_params B i (item_slots toy_library toy_params h))"
    and bound: "\<forall>S \<in> set (db_bin_bundles db). \<forall>b \<in> set S. \<forall>i. length (bundle_rows b i) \<le> 4"
    using ok by (auto simp: db_ok_def db_fits_def db_content_def bundle_fits_def) (auto simp: toy_params_def)
  have "?S \<in> set (db_bin_bundles db)" using h(3) by simp
  with bound have small: "length (bundle_rows b i) \<le> 4" if "b \<in> set ?S" for b i using that by blast
  have "size (slot_rows toy_params 1 27 (item_slots toy_library toy_params h)) = 1" if h_in: "h \<in> ?H" for h
  proof -
    have "h \<noteq> zero_item" using h_in H(2) by blast
    then obtain d where "item_slots toy_library toy_params h = [(d, 81)]" "length d = 27"
      using toy_item_slot [of h] h_in h(2) by blast
    then show ?thesis by (simp add: slot_rows_def rows_at_def item_rows_def toy_params_def)
  qed
  then have "size (set_rows ?S 27) = card ?H" using rows [of 1 27] h(1,3) by (simp add: size_multiset_sum)
  moreover have "size (set_rows S i) \<le> 4 * length S" if "\<And>b. b \<in> set S \<Longrightarrow> length (bundle_rows b i) \<le> 4"
    for S :: "'a bin_bundle list" and i
    using that by (induction S) (fastforce simp: set_rows_def)+
  then have "size (set_rows ?S 27) \<le> 4 * length ?S" using small by blast
  ultimately show ?thesis using H(1) by linarith
qed

theorem reachable_bundles_packed_witness:
  "\<forall>rnd. \<exists>db0 db b c i. make_sender_db toy_params toy_key 0 0 = Inr db0 \<and>
     insert_or_assign_unlabeled (clear_seal 13 54 1) toy_library rnd (map (\<lambda>n. [of_nat n]) [1..<6]) db0 = Inr db \<and>
     db_bin_bundles db ! 1 = b # c \<and> c \<noteq> [] \<and> length (bb_item_bins b ! i) = 4"
proof
  fix rnd :: "nat \<Rightarrow> nat \<Rightarrow> nat \<Rightarrow> nat"
  let ?data = "map (\<lambda>n. [of_nat n :: byte]) [1..<6]"
  obtain db0 db where run: "make_sender_db toy_params toy_key 0 0 = Inr db0"
    "insert_or_assign_unlabeled (clear_seal 13 54 1) toy_library rnd ?data db0 = Inr db"
    and db: "db_reachable (clear_seal 13 54 1) toy_library toy_params db" "db_params db = toy_params"
      "db_hashed_items db = item_hashes toy_library toy_key ?data"
    using toy_reachable by blast
  have ok: "db_ok (clear_seal 13 54 1) (clear_view 54 1) toy_library db"
    using reachable_ok [OF db(1) toy_library_ok toy_params_fit] by blast
  have lib: "dl_fourq toy_library = toy_fourq" by (simp add: toy_library_def)
  have "db_hashed_items db = (\<lambda>n. of_nat (3 * n mod 17) # replicate 15 0) ` set [1..<6]"
    unfolding db(3) item_hashes_def lib set_map image_image by (intro image_cong refl toy_hash) simp
  also have "set [1..<6 :: nat] = {1, 2, 3, 4, 5}" by (auto simp: upt_rec)
  finally have H: "db_hashed_items db = {3 # replicate 15 0, 6 # replicate 15 0, 9 # replicate 15 0, 12 # replicate 15 0, 15 # replicate 15 0}"
    by simp
  have "hd zero_item = 0" by (simp add: zero_item_def)
  then have "zero_item \<noteq> x # xs" if "x \<noteq> 0" for x xs using that by (metis list.sel(1))
  then have "zero_item \<notin> db_hashed_items db" unfolding H by simp
  moreover have "5 \<le> card (db_hashed_items db)" unfolding H by simp
  ultimately have two: "2 \<le> length (db_bin_bundles db ! 1)" using toy_full [OF ok db(2)] by blast
  have "db_bin_bundles db ! 1 \<in> set (db_bin_bundles db)"
    using ok by (auto simp: db_ok_def db_fits_def db(2)) (simp add: toy_params_def)
  from reachable_bundles_packed [OF db(1) toy_library_ok toy_params_fit this, THEN conjunct2, rule_format, of 0]
  have "\<exists>i. length (bb_item_bins (db_bin_bundles db ! 1 ! 0) ! i) = 4" using two by (auto simp: toy_params_def)
  moreover obtain b c where "db_bin_bundles db ! 1 = b # c" "c \<noteq> []"
    using two by (cases "db_bin_bundles db ! 1"; cases "tl (db_bin_bundles db ! 1)") auto
  ultimately show "\<exists>db0 db b c i. make_sender_db toy_params toy_key 0 0 = Inr db0 \<and>
     insert_or_assign_unlabeled (clear_seal 13 54 1) toy_library rnd ?data db0 = Inr db \<and>
     db_bin_bundles db ! 1 = b # c \<and> c \<noteq> [] \<and> length (bb_item_bins b ! i) = 4"
    using run by auto
qed

end
