(* ===== verification/Wire.thy ===== *)
theory Wire
  imports Utils SenderQuery "HOL-Library.Multiset"
begin

text \<open>
  What goes over the network: saving and loading of requests (\<open>common/apsi/network/sender_operation.cpp\<close>), responses
  (\<open>sender_operation_response.cpp\<close>), result packages (\<open>result_package.cpp\<close>) and parameters (\<open>PSIParams::save\<close> and
  \<open>Load\<close>). The builders and readers that \<open>flatc\<close> generates from the \<open>.fbs\<close> files are the record \<open>flatbuffers\<close>, and
  SEAL's own serialization is the record \<open>seal_codec\<close>.
\<close>

subsection \<open>Tables\<close>

text \<open>
  The tables of the schemas. A field that is not required can be missing, which is \<open>None\<close>; vectors of
  ciphertexts are lists of byte strings.
\<close>

record header_table =
  ht_version :: u32
  ht_type :: u32

datatype request_table =
    No_request
  | Parms_request
  | Oprf_request "byte list"
  | Query_request byte "byte list option" "(u32 \<times> byte list list) list"

datatype response_table =
    No_response
  | Parms_response "byte list option"
  | Oprf_response "byte list"
  | Query_response u32

record result_table =
  rt_bundle_idx :: u32
  rt_psi_result :: "byte list"
  rt_label_byte_count :: u32
  rt_nonce_byte_count :: u32
  rt_label_result :: "byte list list option"

record params_table =
  mt_version :: u32
  mt_item_params :: "u32 option"
  mt_table_params :: "(u32 \<times> u32 \<times> u32) option"
  mt_query_params :: "(u32 \<times> u32 list option) option"
  mt_seal_params :: "byte list"

text \<open>The generated code: the finished buffer of a table, and the table of a buffer that the verifier accepts.\<close>

record flatbuffers =
  fb_build_header :: "header_table \<Rightarrow> byte list"
  fb_read_header :: "byte list \<Rightarrow> header_table option"
  fb_build_request :: "request_table \<Rightarrow> byte list"
  fb_read_request :: "byte list \<Rightarrow> request_table option"
  fb_build_response :: "response_table \<Rightarrow> byte list"
  fb_read_response :: "byte list \<Rightarrow> response_table option"
  fb_build_result :: "result_table \<Rightarrow> byte list"
  fb_read_result :: "byte list \<Rightarrow> result_table option"
  fb_build_params :: "params_table \<Rightarrow> byte list"
  fb_read_params :: "byte list \<Rightarrow> params_table option"

text \<open>SEAL: ciphertexts of requests and of results, keys, and parameters with the flag of the BFV scheme.\<close>

record ('o, 'c, 'k) seal_codec =
  sc_save_request :: "nat \<Rightarrow> 'o \<Rightarrow> byte list"
  sc_load_request :: "byte list \<Rightarrow> 'o res"
  sc_save_keys :: "nat \<Rightarrow> 'k \<Rightarrow> byte list"
  sc_load_keys :: "byte list \<Rightarrow> 'k res"
  sc_no_keys :: 'k
  sc_save_result :: "nat \<Rightarrow> 'c \<Rightarrow> byte list"
  sc_load_result :: "byte list \<Rightarrow> 'c res"
  sc_save_params :: "seal_params \<Rightarrow> byte list"
  sc_load_params :: "byte list \<Rightarrow> (bool \<times> seal_params) res"
  sc_supported_mode :: "nat \<Rightarrow> bool"
  sc_mode_default :: nat

text \<open>A context that is not null.\<close>

record seal_context =
  cx_parameters_set :: bool
  cx_using_keyswitching :: bool

definition apsi_serialization_version :: u32 where "apsi_serialization_version = 1"

definition same_serialization_version :: "u32 \<Rightarrow> bool" where
  "same_serialization_version sv \<longleftrightarrow> sv = apsi_serialization_version"

subsection \<open>Reading a buffer\<close>

text \<open>
  Every load reads one size-prefixed buffer. A stream whose exceptions are enabled and that cannot deliver
  has consumed what it had. \<open>None\<close> would be a read that does not end.
\<close>

definition after_failure :: "istream \<Rightarrow> istream" where
  "after_failure s = s\<lparr>is_bytes := (if is_fail s then is_bytes s else []), is_fail := True\<rparr>"

definition load_with :: "(byte list \<Rightarrow> 'a res) \<Rightarrow> istream \<Rightarrow> (istream \<times> ('a \<times> nat) res) option" where
  "load_with f s =
     map_option (\<lambda>r. case r of
         Inl e \<Rightarrow> (after_failure s, Inl e)
       | Inr (s', in_data) \<Rightarrow> (s', bind_res (f in_data) (\<lambda>x. Inr (x, length in_data))))
       (read_sized_from_stream s)"

text \<open>
  SEAL's exceptions are caught by their class and thrown again as \<open>runtime_error\<close>; the text of the caught
  exception, which is appended to the message, is left out.
\<close>

fun rethrown :: "string \<Rightarrow> exn \<Rightarrow> exn" where
  "rethrown msg (Invalid_argument w) = Runtime_error msg"
| "rethrown msg (Logic_error w) = Runtime_error msg"
| "rethrown msg (Runtime_error w) = Runtime_error msg"
| "rethrown msg Out_of_range = Runtime_error msg"
| "rethrown msg e = e"

definition rethrow :: "string \<Rightarrow> 'a res \<Rightarrow> 'a res" where
  "rethrow msg r = (case r of Inl e \<Rightarrow> Inl (rethrown msg e) | Inr x \<Rightarrow> Inr x)"

definition verified :: "string \<Rightarrow> 't option \<Rightarrow> 't res" where
  "verified msg t = (case t of None \<Rightarrow> Inl (Runtime_error msg) | Some t \<Rightarrow> Inr t)"

subsection \<open>Headers\<close>

definition save_header :: "flatbuffers \<Rightarrow> header_table \<Rightarrow> byte list" where
  "save_header fb h = fb_build_header fb h"

definition load_header :: "flatbuffers \<Rightarrow> istream \<Rightarrow> (istream \<times> (header_table \<times> nat) res) option" where
  "load_header fb = load_with (\<lambda>in_data. verified ''failed to load SenderOperationHeader: invalid buffer'' (fb_read_header fb in_data))"

subsection \<open>Requests\<close>

text \<open>The operation types; an operation of one of the three classes.\<close>

definition sop_unknown :: u32 where "sop_unknown = 0"
definition sop_parms :: u32 where "sop_parms = 1"
definition sop_oprf :: u32 where "sop_oprf = 2"
definition sop_query :: u32 where "sop_query = 3"

lemmas sop_types = sop_unknown_def sop_parms_def sop_oprf_def sop_query_def

datatype ('o, 'k) sender_operation = Op_parms | Op_oprf "byte list" | Op_query "('o, 'k) query_request"

fun operation_type :: "('o, 'k) sender_operation \<Rightarrow> u32" where
  "operation_type Op_parms = sop_parms"
| "operation_type (Op_oprf data) = sop_oprf"
| "operation_type (Op_query req) = sop_query"

definition save_query :: "flatbuffers \<Rightarrow> ('o, 'c, 'k) seal_codec \<Rightarrow> ('o, 'k) query_request \<Rightarrow> byte list" where
  "save_query fb sc req =
     (let mode = qr_compr_mode req
      in fb_build_request fb (Query_request (word_of_nat mode) (Some (sc_save_keys sc mode (qr_relin_keys req)))
           (map (\<lambda>(e, cts). (word_of_nat e, map (sc_save_request sc mode) cts)) (qr_data req))))"

fun save_operation :: "flatbuffers \<Rightarrow> ('o, 'c, 'k) seal_codec \<Rightarrow> ('o, 'k) sender_operation \<Rightarrow> byte list" where
  "save_operation fb sc Op_parms = fb_build_request fb Parms_request"
| "save_operation fb sc (Op_oprf data) = fb_build_request fb (Oprf_request data)"
| "save_operation fb sc (Op_query req) = save_query fb sc req"

definition read_request :: "flatbuffers \<Rightarrow> byte list \<Rightarrow> request_table res" where
  "read_request fb in_data = verified ''failed to load SenderOperation: invalid buffer'' (fb_read_request fb in_data)"

definition load_parms :: "flatbuffers \<Rightarrow> seal_context option \<Rightarrow> istream \<Rightarrow> (istream \<times> (('o, 'k) sender_operation \<times> nat) res) option" where
  "load_parms fb context s =
     (if context \<noteq> None then Some (s, Inl (Invalid_argument ''context must be null''))
      else load_with (\<lambda>in_data. bind_res (read_request fb in_data) (\<lambda>sop. case sop of
          Parms_request \<Rightarrow> Inr Op_parms
        | _ \<Rightarrow> Inl (Runtime_error ''unexpected operation type''))) s)"

definition load_oprf :: "flatbuffers \<Rightarrow> seal_context option \<Rightarrow> istream \<Rightarrow> (istream \<times> (('o, 'k) sender_operation \<times> nat) res) option" where
  "load_oprf fb context s =
     (if context \<noteq> None then Some (s, Inl (Invalid_argument ''context must be null''))
      else load_with (\<lambda>in_data. bind_res (read_request fb in_data) (\<lambda>sop. case sop of
          Oprf_request data \<Rightarrow> Inr (Op_oprf data)
        | _ \<Rightarrow> Inl (Runtime_error ''unexpected operation type''))) s)"

text \<open>The loop over the parts of a query, with the data so far.\<close>

fun load_query_parts :: "('o, 'c, 'k) seal_codec \<Rightarrow> (u32 \<times> byte list list) list \<Rightarrow> (nat \<times> 'o list) list \<Rightarrow> (nat \<times> 'o list) list res" where
  "load_query_parts sc [] data = Inr data"
| "load_query_parts sc ((exponent, cts) # query) data =
     (if unat exponent \<in> fst ` set data then Inl (Runtime_error ''invalid query data'')
      else bind_res (map_res (\<lambda>ct. rethrow ''failed to load query ciphertext: '' (sc_load_request sc ct)) cts) (\<lambda>cts_vec.
        load_query_parts sc query (data @ [(unat exponent, cts_vec)])))"

definition load_query_table :: "('o, 'c, 'k) seal_codec \<Rightarrow> bool \<Rightarrow> byte \<Rightarrow> byte list option \<Rightarrow> (u32 \<times> byte list list) list \<Rightarrow>
   ('o, 'k) query_request res" where
  "load_query_table sc using_keyswitching mode keys query =
     (if \<not> sc_supported_mode sc (unat mode) then Inl (Runtime_error ''unsupported compression mode'')
      else bind_res
        (if using_keyswitching then (case keys of
            None \<Rightarrow> Inl (Runtime_error ''realinearization keys data is missing'')
          | Some bs \<Rightarrow> rethrow ''failed to load relinearization keys: '' (sc_load_keys sc bs))
         else Inr (sc_no_keys sc)) (\<lambda>relin_keys.
        bind_res (load_query_parts sc query []) (\<lambda>data.
          Inr \<lparr>qr_compr_mode = unat mode, qr_relin_keys = relin_keys, qr_data = data\<rparr>)))"

definition load_query :: "flatbuffers \<Rightarrow> ('o, 'c, 'k) seal_codec \<Rightarrow> seal_context option \<Rightarrow> istream \<Rightarrow>
   (istream \<times> (('o, 'k) sender_operation \<times> nat) res) option" where
  "load_query fb sc context s =
     (case context of
        None \<Rightarrow> Some (s, Inl (Invalid_argument ''context cannot be null''))
      | Some cx \<Rightarrow>
          if \<not> cx_parameters_set cx then Some (s, Inl (Invalid_argument ''context is invalid''))
          else load_with (\<lambda>in_data. bind_res (read_request fb in_data) (\<lambda>sop. case sop of
              Query_request mode keys query \<Rightarrow>
                bind_res (load_query_table sc (cx_using_keyswitching cx) mode keys query) (\<lambda>req. Inr (Op_query req))
            | _ \<Rightarrow> Inl (Runtime_error ''unexpected operation type''))) s)"

subsection \<open>Responses\<close>

text \<open>The parameters of a response are a pointer that can be null.\<close>

datatype sender_response = Re_parms "psi_params option" | Re_oprf "byte list" | Re_query nat

fun response_type :: "sender_response \<Rightarrow> u32" where
  "response_type (Re_parms params) = sop_parms"
| "response_type (Re_oprf data) = sop_oprf"
| "response_type (Re_query package_count) = sop_query"

definition save_params :: "flatbuffers \<Rightarrow> ('o, 'c, 'k) seal_codec \<Rightarrow> psi_params \<Rightarrow> byte list" where
  "save_params fb sc pp =
     (let tp = pp_table_params pp; qp = pp_query_params pp
      in fb_build_params fb \<lparr>mt_version = apsi_serialization_version,
           mt_item_params = Some (word_of_nat (ip_felts_per_item (pp_item_params pp))),
           mt_table_params = Some (word_of_nat (tp_table_size tp), word_of_nat (tp_max_items_per_bin tp), word_of_nat (tp_hash_func_count tp)),
           mt_query_params = Some (word_of_nat (qp_ps_low_degree qp), Some (map word_of_nat (qp_query_powers qp))),
           mt_seal_params = sc_save_params sc (pp_seal_params pp)\<rparr>)"

text \<open>A table that is not there is dereferenced all the same.\<close>

definition deref :: "'a option \<Rightarrow> 'a res" where
  "deref p = (case p of None \<Rightarrow> Inl Undefined | Some x \<Rightarrow> Inr x)"

definition read_params :: "flatbuffers \<Rightarrow> ('o, 'c, 'k) seal_codec \<Rightarrow> byte list \<Rightarrow> psi_params res" where
  "read_params fb sc in_data =
     bind_res (verified ''failed to load parameters: invalid buffer'' (fb_read_params fb in_data)) (\<lambda>t.
       if \<not> same_serialization_version (mt_version t) then
         Inl (Runtime_error ''failed to load parameters: incompatible serialization version'')
       else bind_res (deref (mt_item_params t)) (\<lambda>felts_per_item.
         bind_res (deref (mt_table_params t)) (\<lambda>(table_size, max_items_per_bin, hash_func_count).
         bind_res (deref (mt_query_params t)) (\<lambda>(ps_low_degree, query_powers).
         bind_res (deref query_powers) (\<lambda>powers.
         bind_res (rethrow ''failed to load parameters: '' (sc_load_params sc (mt_seal_params t))) (\<lambda>(bfv, sp).
           if \<not> bfv then Inl (Runtime_error ''failed to load parameters: invalid scheme type'')
           else psi_initialize \<lparr>ip_felts_per_item = unat felts_per_item\<rparr>
             \<lparr>tp_table_size = unat table_size, tp_max_items_per_bin = unat max_items_per_bin, tp_hash_func_count = unat hash_func_count\<rparr>
             \<lparr>qp_ps_low_degree = unat ps_low_degree, qp_query_powers = fold (\<lambda>p. insort_insert (unat p)) powers []\<rparr> sp))))))"

definition load_params :: "flatbuffers \<Rightarrow> ('o, 'c, 'k) seal_codec \<Rightarrow> istream \<Rightarrow> (istream \<times> (psi_params \<times> nat) res) option" where
  "load_params fb sc = load_with (read_params fb sc)"

fun save_response :: "flatbuffers \<Rightarrow> ('o, 'c, 'k) seal_codec \<Rightarrow> sender_response \<Rightarrow> byte list res" where
  "save_response fb sc (Re_parms None) = Inl (Logic_error ''parameters are not set'')"
| "save_response fb sc (Re_parms (Some pp)) = Inr (fb_build_response fb (Parms_response (Some (save_params fb sc pp))))"
| "save_response fb sc (Re_oprf data) = Inr (fb_build_response fb (Oprf_response data))"
| "save_response fb sc (Re_query package_count) = Inr (fb_build_response fb (Query_response (word_of_nat package_count)))"

definition read_response :: "flatbuffers \<Rightarrow> byte list \<Rightarrow> response_table res" where
  "read_response fb in_data = verified ''failed to load SenderOperationResponse: invalid buffer'' (fb_read_response fb in_data)"

text \<open>A stream over the bytes of a string or an array.\<close>

definition stream_of :: "byte list \<Rightarrow> istream" where
  "stream_of bs = \<lparr>is_bytes = bs, is_fail = False, is_throws = False\<rparr>"

definition load_parms_response :: "flatbuffers \<Rightarrow> ('o, 'c, 'k) seal_codec \<Rightarrow> istream \<Rightarrow> (istream \<times> (sender_response \<times> nat) res) option" where
  "load_parms_response fb sc s =
     (case load_with (\<lambda>in_data. bind_res (read_response fb in_data) (\<lambda>resp. case resp of
          Parms_response data \<Rightarrow> deref data
        | _ \<Rightarrow> Inl (Runtime_error ''unexpected operation type''))) s of
        None \<Rightarrow> None
      | Some (s', Inl e) \<Rightarrow> Some (s', Inl e)
      | Some (s', Inr (params_data, in_size)) \<Rightarrow>
          map_option (\<lambda>(_, r). (s', bind_res r (\<lambda>(params, _). Inr (Re_parms (Some params), in_size))))
            (load_params fb sc (stream_of params_data)))"

definition load_oprf_response :: "flatbuffers \<Rightarrow> istream \<Rightarrow> (istream \<times> (sender_response \<times> nat) res) option" where
  "load_oprf_response fb = load_with (\<lambda>in_data. bind_res (read_response fb in_data) (\<lambda>resp. case resp of
       Oprf_response data \<Rightarrow> Inr (Re_oprf data)
     | _ \<Rightarrow> Inl (Runtime_error ''unexpected operation type'')))"

definition load_query_response :: "flatbuffers \<Rightarrow> istream \<Rightarrow> (istream \<times> (sender_response \<times> nat) res) option" where
  "load_query_response fb = load_with (\<lambda>in_data. bind_res (read_response fb in_data) (\<lambda>resp. case resp of
       Query_response package_count \<Rightarrow> Inr (Re_query (unat package_count))
     | _ \<Rightarrow> Inl (Runtime_error ''unexpected operation type'')))"

subsection \<open>Result packages\<close>

definition save_result :: "flatbuffers \<Rightarrow> ('o, 'c, 'k) seal_codec \<Rightarrow> 'c result_package \<Rightarrow> byte list res" where
  "save_result fb sc rp =
     (let mode = rp_compr_mode rp
      in if \<not> sc_supported_mode sc mode then Inl (Runtime_error ''unsupported compression mode'')
         else Inr (fb_build_result fb \<lparr>rt_bundle_idx = word_of_nat (rp_bundle_idx rp),
           rt_psi_result = sc_save_result sc mode (rp_psi_result rp),
           rt_label_byte_count = word_of_nat (rp_label_byte_count rp), rt_nonce_byte_count = word_of_nat (rp_nonce_byte_count rp),
           rt_label_result = Some (map (sc_save_result sc mode) (rp_label_result rp))\<rparr>))"

definition read_result :: "flatbuffers \<Rightarrow> ('o, 'c, 'k) seal_codec \<Rightarrow> byte list \<Rightarrow> 'c result_package res" where
  "read_result fb sc in_data =
     bind_res (verified ''failed to load ResultPackage: invalid buffer'' (fb_read_result fb in_data)) (\<lambda>rp.
     bind_res (rethrow ''failed to load PSI ciphertext: '' (sc_load_result sc (rt_psi_result rp))) (\<lambda>psi_result.
       let label_byte_count = unat (rt_label_byte_count rp);
           nonce_byte_count = (if label_byte_count \<noteq> 0 then unat (rt_nonce_byte_count rp) else 0)
       in if label_byte_count > 1024 then Inl (Runtime_error ''failed to load ResultPackage: label_byte_count is too large'')
          else if label_byte_count \<noteq> 0 \<and> rt_label_result rp = None then
            Inl (Runtime_error ''failed to load ResultPackage: label data is missing'')
          else if nonce_byte_count > max_nonce_byte_count then
            Inl (Runtime_error ''failed to load ResultPackage: nonce_byte_count is too large'')
          else bind_res (case rt_label_result rp of None \<Rightarrow> Inr []
              | Some cts \<Rightarrow> map_res (\<lambda>ct. rethrow ''failed to load label ciphertext: '' (sc_load_result sc ct)) cts) (\<lambda>label_result.
            Inr \<lparr>rp_bundle_idx = unat (rt_bundle_idx rp), rp_compr_mode = sc_mode_default sc, rp_psi_result = psi_result,
              rp_label_byte_count = label_byte_count, rp_nonce_byte_count = nonce_byte_count, rp_label_result = label_result\<rparr>)))"

definition load_result :: "flatbuffers \<Rightarrow> ('o, 'c, 'k) seal_codec \<Rightarrow> seal_context option \<Rightarrow> istream \<Rightarrow>
   (istream \<times> ('c result_package \<times> nat) res) option" where
  "load_result fb sc context s =
     (case context of
        None \<Rightarrow> Some (s, Inl (Invalid_argument ''context cannot be null''))
      | Some cx \<Rightarrow>
          if \<not> cx_parameters_set cx then Some (s, Inl (Invalid_argument ''context is invalid''))
          else load_with (read_result fb sc) s)"

subsection \<open>What is relied on\<close>

text \<open>
  A finished buffer of less than \<open>2 ^ 32\<close> bytes starts with the size of the rest, passes the verifier and reads back as
  its table. SEAL loads what it has saved: a local ciphertext or key in place of a serializable one, which
  extracts to the same value.
\<close>

definition sized :: "byte list \<Rightarrow> bool" where
  "sized bs \<longleftrightarrow> 4 \<le> length bs \<and> u32_of_bytes (take 4 bs) = length bs - 4"

definition reads_back :: "('t \<Rightarrow> byte list) \<Rightarrow> (byte list \<Rightarrow> 't option) \<Rightarrow> bool" where
  "reads_back build read \<longleftrightarrow> (\<forall>t. length (build t) < 2 ^ 32 \<longrightarrow> sized (build t) \<and> read (build t) = Some t)"

definition flatbuffers_laws :: "flatbuffers \<Rightarrow> bool" where
  "flatbuffers_laws fb \<longleftrightarrow> reads_back (fb_build_header fb) (fb_read_header fb) \<and> reads_back (fb_build_request fb) (fb_read_request fb) \<and>
     reads_back (fb_build_response fb) (fb_read_response fb) \<and> reads_back (fb_build_result fb) (fb_read_result fb) \<and>
     reads_back (fb_build_params fb) (fb_read_params fb)"

definition codec_laws :: "('o, 'c, 'k) seal_io \<Rightarrow> ('o, 'c, 'k) seal_codec \<Rightarrow> bool" where
  "codec_laws io sc \<longleftrightarrow>
     (\<forall>mode ct. \<exists>ct'. sc_load_request sc (sc_save_request sc mode ct) = Inr ct' \<and> io_extract io ct' = io_extract io ct) \<and>
     (\<forall>mode k. \<exists>k'. sc_load_keys sc (sc_save_keys sc mode k) = Inr k' \<and> io_extract_keys io k' = io_extract_keys io k) \<and>
     (\<forall>mode c. sc_load_result sc (sc_save_result sc mode c) = Inr c) \<and>
     (\<forall>sp. sc_load_params sc (sc_save_params sc sp) = Inr (True, sp))"

text \<open>Two requests with the same ciphertexts, in any order of the exponents.\<close>

definition row_same :: "('o, 'c, 'k) seal_io \<Rightarrow> nat \<times> 'o list \<Rightarrow> nat \<times> 'o list \<Rightarrow> bool" where
  "row_same io q q' \<longleftrightarrow> fst q = fst q' \<and> list_all2 (\<lambda>ct ct'. io_extract io ct' = io_extract io ct) (snd q) (snd q')"

definition same_query :: "('o, 'c, 'k) seal_io \<Rightarrow> bool \<Rightarrow> ('o, 'k) query_request \<Rightarrow> ('o, 'k) query_request \<Rightarrow> bool" where
  "same_query io using_keyswitching req req' \<longleftrightarrow> qr_compr_mode req' = qr_compr_mode req \<and>
     (using_keyswitching \<longrightarrow> io_extract_keys io (qr_relin_keys req') = io_extract_keys io (qr_relin_keys req)) \<and>
     (\<exists>rows. mset rows = mset (qr_data req) \<and> list_all2 (row_same io) rows (qr_data req'))"

fun same_operation :: "('o, 'c, 'k) seal_io \<Rightarrow> bool \<Rightarrow> ('o, 'k) sender_operation \<Rightarrow> ('o, 'k) sender_operation \<Rightarrow> bool" where
  "same_operation io ks (Op_query req) (Op_query req') = same_query io ks req req'"
| "same_operation io ks op op' \<longleftrightarrow> op = op'"

text \<open>What fits into the fields of the tables.\<close>

fun operation_fits :: "('o, 'c, 'k) seal_codec \<Rightarrow> ('o, 'k) sender_operation \<Rightarrow> bool" where
  "operation_fits sc (Op_query req) \<longleftrightarrow> distinct (map fst (qr_data req)) \<and> (\<forall>q \<in> set (qr_data req). fst q < 2 ^ 32) \<and>
     qr_compr_mode req < 2 ^ 8 \<and> sc_supported_mode sc (qr_compr_mode req)"
| "operation_fits sc op \<longleftrightarrow> True"

definition params_made :: "psi_params \<Rightarrow> bool" where
  "params_made pp \<longleftrightarrow> psi_initialize (pp_item_params pp) (pp_table_params pp) (pp_query_params pp) (pp_seal_params pp) = Inr pp \<and>
     ip_felts_per_item (pp_item_params pp) < 2 ^ 32 \<and> tp_table_size (pp_table_params pp) < 2 ^ 32 \<and>
     tp_max_items_per_bin (pp_table_params pp) < 2 ^ 32 \<and> tp_hash_func_count (pp_table_params pp) < 2 ^ 32 \<and>
     qp_ps_low_degree (pp_query_params pp) < 2 ^ 32 \<and> (\<forall>p \<in> set (qp_query_powers (pp_query_params pp)). p < 2 ^ 32) \<and>
     oset_ok (qp_query_powers (pp_query_params pp))"

fun response_fits :: "flatbuffers \<Rightarrow> ('o, 'c, 'k) seal_codec \<Rightarrow> sender_response \<Rightarrow> bool" where
  "response_fits fb sc (Re_parms params) \<longleftrightarrow> (\<exists>pp. params = Some pp \<and> params_made pp \<and> length (save_params fb sc pp) < 2 ^ 32)"
| "response_fits fb sc (Re_oprf data) \<longleftrightarrow> True"
| "response_fits fb sc (Re_query package_count) \<longleftrightarrow> package_count < 2 ^ 32"

definition result_fits :: "('o, 'c, 'k) seal_codec \<Rightarrow> 'c result_package \<Rightarrow> bool" where
  "result_fits sc rp \<longleftrightarrow> rp_bundle_idx rp < 2 ^ 32 \<and> rp_label_byte_count rp \<le> 1024 \<and>
     rp_nonce_byte_count rp \<le> max_nonce_byte_count \<and> sc_supported_mode sc (rp_compr_mode rp)"

text \<open>The compression mode is not sent, and the nonce size only when there are labels.\<close>

definition received_result :: "('o, 'c, 'k) seal_codec \<Rightarrow> 'c result_package \<Rightarrow> 'c result_package" where
  "received_result sc rp = rp\<lparr>rp_compr_mode := sc_mode_default sc,
     rp_nonce_byte_count := (if rp_label_byte_count rp = 0 then 0 else rp_nonce_byte_count rp)\<rparr>"

subsection \<open>Round trips\<close>

lemma load_sized:
  assumes "sized bs" "length bs < 2 ^ 32" "\<not> is_fail s" "is_bytes s = bs @ rest"
  shows "load_with f s = Some (s\<lparr>is_bytes := rest\<rparr>, bind_res (f bs) (\<lambda>x. Inr (x, length bs)))"
proof -
  let ?n = "u32_of_bytes (take 4 bs)" and ?s = "s\<lparr>is_bytes := drop 4 bs @ rest\<rparr>"
  have n: "4 \<le> length bs" "?n = length bs - 4" using assms(1) by (simp_all add: sized_def)
  have "stream_read s 4 = Inr (?s, take 4 bs)" using n(1) assms(3,4) by (simp add: stream_read_def)
  moreover have "read_from_stream ?s ?n (take 4 bs) = Some (Inr (s\<lparr>is_bytes := rest\<rparr>, take 4 bs @ take ?n (drop 4 bs @ rest)))"
    unfolding read_from_stream_def using n assms(2,3) by (subst read_rounds_correct) auto
  ultimately show ?thesis using n by (simp add: load_with_def read_sized_from_stream_def)
qed

lemma read_rounds_total:
  "n < 2 ^ 32 \<Longrightarrow> 0 < r \<or> n = 0 \<Longrightarrow> r \<le> n \<Longrightarrow> read_rounds s n r dest \<noteq> None"
proof (induction n arbitrary: s r dest rule: less_induct)
  case (less n)
  show ?case
  proof (cases "n = 0 \<or> (\<exists>e. stream_read s r = Inl e)")
    case True
    then show ?thesis by (subst read_rounds.simps) auto
  next
    case False
    then obtain s' chunk where read: "stream_read s r = Inr (s', chunk)" by (cases "stream_read s r") auto
    have r: "0 < r" "sub32 n r = n - r" using less.prems False by auto
    have "read_rounds s' (n - r) (min (2 * r) (n - r)) (dest @ chunk) \<noteq> None"
      using less.prems r False by (intro less.IH) auto
    then show ?thesis using False read r by (subst read_rounds.simps) simp
  qed
qed

lemma u32_of_bytes_less: "u32_of_bytes bs < 2 ^ 32"
proof -
  have b: "unat (b :: byte) < 2 ^ 8" for b using unsigned_less [of b, where ?'a = nat] by simp
  show ?thesis using b [of "bs ! 0"] b [of "bs ! 1"] b [of "bs ! 2"] b [of "bs ! 3"] by (simp add: u32_of_bytes_def)
qed

lemma load_with_total: "load_with f s \<noteq> None"
proof -
  have "read_from_stream s' (u32_of_bytes bs) dest \<noteq> None" for s' bs dest
    unfolding read_from_stream_def using u32_of_bytes_less [of bs] by (intro read_rounds_total) auto
  then show ?thesis by (auto simp: load_with_def read_sized_from_stream_def split: sum.splits)
qed

text \<open>A stream without exceptions always delivers a buffer, if not the one that was sent.\<close>

lemma stream_read_delivers: "\<not> is_throws s \<Longrightarrow> \<exists>s' chunk. stream_read s n = Inr (s', chunk) \<and> \<not> is_throws s'"
  by (simp add: stream_read_def Let_def)

lemma read_rounds_delivers:
  "n < 2 ^ 32 \<Longrightarrow> 0 < r \<or> n = 0 \<Longrightarrow> r \<le> n \<Longrightarrow> \<not> is_throws s \<Longrightarrow> \<exists>s' bs. read_rounds s n r dest = Some (Inr (s', bs))"
proof (induction n arbitrary: s r dest rule: less_induct)
  case (less n)
  show ?case
  proof (cases "n = 0")
    case True
    then show ?thesis by (subst read_rounds.simps) auto
  next
    case False
    obtain s' chunk where read: "stream_read s r = Inr (s', chunk)" "\<not> is_throws s'"
      using stream_read_delivers [OF less.prems(4)] by blast
    have r: "0 < r" "sub32 n r = n - r" using less.prems False by auto
    have "\<exists>s'' bs. read_rounds s' (n - r) (min (2 * r) (n - r)) (dest @ chunk) = Some (Inr (s'', bs))"
      using less.prems r False read(2) by (intro less.IH) auto
    then show ?thesis using False read(1) r by (subst read_rounds.simps) simp
  qed
qed

lemma load_delivers:
  assumes "\<not> is_throws s"
  shows "\<exists>s' bs. load_with f s = Some (s', bind_res (f bs) (\<lambda>x. Inr (x, length bs)))"
proof -
  obtain s1 sz where s1: "stream_read s 4 = Inr (s1, sz)" "\<not> is_throws s1"
    using stream_read_delivers [OF assms] by blast
  have "\<exists>s' bs. read_from_stream s1 (u32_of_bytes sz) sz = Some (Inr (s', bs))"
    unfolding read_from_stream_def using u32_of_bytes_less [of sz] s1(2) by (intro read_rounds_delivers) auto
  then show ?thesis using s1(1) by (auto simp: load_with_def read_sized_from_stream_def)
qed

lemma loads_back:
  assumes "reads_back build read" "length (build t) < 2 ^ 32" "\<not> is_fail s" "is_bytes s = build t @ rest"
  shows "load_with (\<lambda>bs. bind_res (verified msg (read bs)) f) s =
    Some (s\<lparr>is_bytes := rest\<rparr>, bind_res (f t) (\<lambda>x. Inr (x, length (build t))))"
proof -
  have "sized (build t)" "read (build t) = Some t" using assms(1,2) by (simp_all add: reads_back_def)
  then show ?thesis by (simp add: load_sized [OF _ assms(2-4)] verified_def)
qed

lemma header_back:
  assumes "flatbuffers_laws fb" "length (save_header fb h) < 2 ^ 32" "\<not> is_fail s" "is_bytes s = save_header fb h @ rest"
  shows "load_header fb s = Some (s\<lparr>is_bytes := rest\<rparr>, Inr (h, length (save_header fb h)))"
proof -
  have law: "reads_back (fb_build_header fb) (fb_read_header fb)" using assms(1) by (simp add: flatbuffers_laws_def)
  have "sized (fb_build_header fb h)" "fb_read_header fb (fb_build_header fb h) = Some h"
    using law assms(2) by (simp_all add: reads_back_def save_header_def)
  then show ?thesis
    by (simp add: load_header_def load_sized [OF _ assms(2-4), unfolded save_header_def] verified_def save_header_def)
qed

lemma rethrow_Inr [simp]: "rethrow msg (Inr x) = Inr x"
  by (simp add: rethrow_def)

lemma map_res_related: "(\<And>x. x \<in> set xs \<Longrightarrow> \<exists>y. f x = Inr y \<and> R x y) \<Longrightarrow> \<exists>ys. map_res f xs = Inr ys \<and> list_all2 R xs ys"
  by (induction xs) (force simp: list_all2_Cons1)+

lemma map_res_map: "map_res f (map g xs) = map_res (\<lambda>x. f (g x)) xs"
  by (induction xs) simp_all

lemma parts_back:
  assumes codec: "codec_laws io sc" and distinct: "distinct (map fst data @ map fst qs)" "\<forall>q \<in> set qs. fst q < 2 ^ 32"
  shows "\<exists>rows. load_query_parts sc (map (\<lambda>(e, cts). (word_of_nat e, map (sc_save_request sc mode) cts)) qs) data = Inr (data @ rows) \<and>
    list_all2 (row_same io) qs rows"
  using distinct
proof (induction qs arbitrary: data)
  case (Cons q qs)
  obtain e cts where q: "q = (e, cts)" by fastforce
  have e: "unat (word_of_nat e :: u32) = e" "e \<notin> fst ` set data" using Cons.prems by (auto simp: q unat_of_nat)
  have one: "\<exists>ct'. sc_load_request sc (sc_save_request sc mode ct) = Inr ct' \<and> io_extract io ct' = io_extract io ct" for ct
    using codec by (simp add: codec_laws_def)
  have "\<exists>cts'. map_res (\<lambda>ct. rethrow ''failed to load query ciphertext: '' (sc_load_request sc (sc_save_request sc mode ct))) cts = Inr cts' \<and>
      list_all2 (\<lambda>ct ct'. io_extract io ct' = io_extract io ct) cts cts'"
  proof (rule map_res_related)
    show "\<exists>ct'. rethrow ''failed to load query ciphertext: '' (sc_load_request sc (sc_save_request sc mode ct)) = Inr ct' \<and>
        io_extract io ct' = io_extract io ct" for ct
      using one [of ct] by auto
  qed
  then obtain cts' where cts': "map_res (\<lambda>ct. rethrow ''failed to load query ciphertext: '' (sc_load_request sc (sc_save_request sc mode ct))) cts = Inr cts'"
    "list_all2 (\<lambda>ct ct'. io_extract io ct' = io_extract io ct) cts cts'" by blast
  obtain rows where "load_query_parts sc (map (\<lambda>(e, cts). (word_of_nat e, map (sc_save_request sc mode) cts)) qs) (data @ [(e, cts')]) =
      Inr ((data @ [(e, cts')]) @ rows)" "list_all2 (row_same io) qs rows"
    using Cons.IH [of "data @ [(e, cts')]"] Cons.prems by (auto simp: q)
  moreover have "row_same io (e, cts) (e, cts')" using cts'(2) by (simp add: row_same_def)
  ultimately show ?case using e cts'(1) by (intro exI [of _ "(e, cts') # rows"]) (simp add: q map_res_map)
qed simp

lemma query_back:
  assumes laws: "flatbuffers_laws fb" "codec_laws io sc" and fits: "operation_fits sc (Op_query req)" and cx: "cx_parameters_set cx"
    and s: "length (save_query fb sc req) < 2 ^ 32" "\<not> is_fail s" "is_bytes s = save_query fb sc req @ rest"
  shows "\<exists>req'. load_query fb sc (Some cx) s = Some (s\<lparr>is_bytes := rest\<rparr>, Inr (Op_query req', length (save_query fb sc req))) \<and>
    same_query io (cx_using_keyswitching cx) req req'"
proof -
  let ?mode = "qr_compr_mode req"
  have read: "reads_back (fb_build_request fb) (fb_read_request fb)" using laws(1) by (simp add: flatbuffers_laws_def)
  have mode: "unat (word_of_nat ?mode :: byte) = ?mode" "sc_supported_mode sc ?mode" using fits by (simp_all add: unat_of_nat)
  obtain keys where keys: "sc_load_keys sc (sc_save_keys sc ?mode (qr_relin_keys req)) = Inr keys"
    "io_extract_keys io keys = io_extract_keys io (qr_relin_keys req)" using laws(2) unfolding codec_laws_def by blast
  obtain rows where rows: "load_query_parts sc (map (\<lambda>(e, cts). (word_of_nat e, map (sc_save_request sc ?mode) cts)) (qr_data req)) [] = Inr rows"
    "list_all2 (row_same io) (qr_data req) rows"
    using parts_back [OF laws(2), of "[]" "qr_data req" ?mode] fits by auto
  let ?req = "\<lambda>ks. \<lparr>qr_compr_mode = ?mode, qr_relin_keys = (if ks then keys else sc_no_keys sc), qr_data = rows\<rparr>"
  let ?query = "map (\<lambda>(e, cts). (word_of_nat e :: u32, map (sc_save_request sc ?mode) cts)) (qr_data req)"
  let ?t = "Query_request (word_of_nat ?mode) (Some (sc_save_keys sc ?mode (qr_relin_keys req))) ?query"
  have table: "load_query_table sc ks (word_of_nat ?mode) (Some (sc_save_keys sc ?mode (qr_relin_keys req))) ?query = Inr (?req ks)" for ks
    using mode keys(1) rows(1) by (simp add: load_query_table_def)
  have eq: "save_query fb sc req = fb_build_request fb ?t" by (simp add: save_query_def Let_def)
  have "load_query fb sc (Some cx) s = Some (s\<lparr>is_bytes := rest\<rparr>, Inr (Op_query (?req (cx_using_keyswitching cx)), length (save_query fb sc req)))"
    unfolding eq using cx table
    by (simp add: load_query_def read_request_def loads_back [OF read s [unfolded eq]])
  moreover have "same_query io (cx_using_keyswitching cx) req (?req (cx_using_keyswitching cx))"
    using rows(2) keys(2) by (auto simp: same_query_def)
  ultimately show ?thesis by blast
qed

lemma oset_sort: "oset_ok xs \<Longrightarrow> fold insort_insert xs [] = xs"
proof -
  have "oset_ok (fold insort_insert ys acc) \<and> set (fold insort_insert ys acc) = set acc \<union> set ys" if "oset_ok acc" for ys acc :: oset
    using that by (induction ys arbitrary: acc) (auto simp: set_insort_insert)
  from this [of "[]" xs] show "oset_ok xs \<Longrightarrow> fold insort_insert xs [] = xs" by (intro oset_set_inj) auto
qed

lemma params_back:
  assumes laws: "flatbuffers_laws fb" "codec_laws io sc" and fits: "params_made pp"
    and s: "length (save_params fb sc pp) < 2 ^ 32" "\<not> is_fail s" "is_bytes s = save_params fb sc pp @ rest"
  shows "load_params fb sc s = Some (s\<lparr>is_bytes := rest\<rparr>, Inr (pp, length (save_params fb sc pp)))"
proof -
  have read: "reads_back (fb_build_params fb) (fb_read_params fb)" using laws(1) by (simp add: flatbuffers_laws_def)
  have load: "sc_load_params sc (sc_save_params sc sp) = Inr (True, sp)" for sp using laws(2) by (simp add: codec_laws_def)
  have u: "n < 2 ^ 32 \<Longrightarrow> unat (word_of_nat n :: u32) = n" for n by (simp add: unat_of_nat)
  have "fold (\<lambda>p. insort_insert (unat p)) (map word_of_nat (qp_query_powers (pp_query_params pp)) :: u32 list) [] =
      fold insort_insert (map (\<lambda>p. unat (word_of_nat p :: u32)) (qp_query_powers (pp_query_params pp))) []"
    by (simp add: fold_map o_def)
  also have "map (\<lambda>p. unat (word_of_nat p :: u32)) (qp_query_powers (pp_query_params pp)) = qp_query_powers (pp_query_params pp)"
    using fits by (intro map_idI u) (simp add: params_made_def)
  finally have powers: "fold (\<lambda>p. insort_insert (unat p)) (map word_of_nat (qp_query_powers (pp_query_params pp)) :: u32 list) [] =
      qp_query_powers (pp_query_params pp)" using fits by (simp add: oset_sort params_made_def)
  let ?tp = "pp_table_params pp" and ?qp = "pp_query_params pp"
  let ?t = "\<lparr>mt_version = apsi_serialization_version, mt_item_params = Some (word_of_nat (ip_felts_per_item (pp_item_params pp)) :: u32),
      mt_table_params = Some (word_of_nat (tp_table_size ?tp), word_of_nat (tp_max_items_per_bin ?tp), word_of_nat (tp_hash_func_count ?tp)),
      mt_query_params = Some (word_of_nat (qp_ps_low_degree ?qp), Some (map word_of_nat (qp_query_powers ?qp))),
      mt_seal_params = sc_save_params sc (pp_seal_params pp)\<rparr>"
  have eq: "save_params fb sc pp = fb_build_params fb ?t" by (simp add: save_params_def Let_def)
  have fields: "ip_felts_per_item (pp_item_params pp) < 2 ^ 32" "tp_table_size ?tp < 2 ^ 32" "tp_max_items_per_bin ?tp < 2 ^ 32"
    "tp_hash_func_count ?tp < 2 ^ 32" "qp_ps_low_degree ?qp < 2 ^ 32"
    and init: "psi_initialize (pp_item_params pp) ?tp ?qp (pp_seal_params pp) = Inr pp" using fits by (simp_all add: params_made_def)
  have eta: "\<lparr>ip_felts_per_item = ip_felts_per_item (pp_item_params pp)\<rparr> = pp_item_params pp"
    "\<lparr>tp_table_size = tp_table_size ?tp, tp_max_items_per_bin = tp_max_items_per_bin ?tp, tp_hash_func_count = tp_hash_func_count ?tp\<rparr> = ?tp"
    "\<lparr>qp_ps_low_degree = qp_ps_low_degree ?qp, qp_query_powers = qp_query_powers ?qp\<rparr> = ?qp" by simp_all
  show ?thesis
    unfolding eq
    using init by (simp add: load_params_def read_params_def [abs_def] loads_back [OF read s [unfolded eq]] same_serialization_version_def deref_def
      load powers fields [THEN u] eta)
qed

lemma result_back:
  assumes laws: "flatbuffers_laws fb" "codec_laws io sc" and fits: "result_fits sc rp" and cx: "cx_parameters_set cx"
    and s: "save_result fb sc rp = Inr bs" "length bs < 2 ^ 32" "\<not> is_fail s" "is_bytes s = bs @ rest"
  shows "load_result fb sc (Some cx) s = Some (s\<lparr>is_bytes := rest\<rparr>, Inr (received_result sc rp, length bs))"
proof -
  have read: "reads_back (fb_build_result fb) (fb_read_result fb)" using laws(1) by (simp add: flatbuffers_laws_def)
  have load: "sc_load_result sc (sc_save_result sc mode c) = Inr c" for mode c using laws(2) by (simp add: codec_laws_def)
  have labels: "map_res (\<lambda>ct. rethrow msg (sc_load_result sc ct)) (map (sc_save_result sc mode) cts) = Inr cts" for msg mode cts
    by (induction cts) (simp_all add: load)
  have u: "n < 2 ^ 32 \<Longrightarrow> unat (word_of_nat n :: u32) = n" for n by (simp add: unat_of_nat)
  let ?t = "\<lparr>rt_bundle_idx = word_of_nat (rp_bundle_idx rp), rt_psi_result = sc_save_result sc (rp_compr_mode rp) (rp_psi_result rp),
      rt_label_byte_count = word_of_nat (rp_label_byte_count rp), rt_nonce_byte_count = word_of_nat (rp_nonce_byte_count rp),
      rt_label_result = Some (map (sc_save_result sc (rp_compr_mode rp)) (rp_label_result rp))\<rparr>"
  have bs: "bs = fb_build_result fb ?t" using s(1) by (auto simp: save_result_def Let_def split: if_splits)
  have n: "rp_bundle_idx rp < 2 ^ 32" "rp_label_byte_count rp \<le> 1024" "rp_nonce_byte_count rp \<le> max_nonce_byte_count"
    "rp_label_byte_count rp < 2 ^ 32" "rp_nonce_byte_count rp < 2 ^ 32"
    using fits by (simp_all add: result_fits_def max_nonce_byte_count_def)
  show ?thesis
    using cx n s(2) unfolding bs
    by (simp add: load_result_def read_result_def [abs_def] loads_back [OF read _ s(3) s(4) [unfolded bs]] load labels u Let_def received_result_def)
qed

end
