(* ===== verification/Session.thy ===== *)
theory Session
  imports ReceiverResult Wire
begin

text \<open>
  A whole query between a receiver and a sender's unlabeled database, and what the receiver learns: no
  inserted item is missed, and what is reported as found is made of field elements of inserted items.
\<close>

subsection \<open>The session\<close>

text \<open>
  The receiver's query, the sender's validation and evaluation, and the receiver's processing of the parts in
  the order in which the tasks of the sender were made. \<open>orders\<close> is the order in which the sender's threads
  multiply the powers of each bundle index; \<open>None\<close> is a plan of powers that is never made.
\<close>

definition query_session ::
  "'kt kuku \<Rightarrow> ('p, 'o, 'c, 'k) client_crypto \<Rightarrow> ('o, 'c, 'k) seal_io \<Rightarrow> xof \<Rightarrow> (u32 \<Rightarrow> nat \<Rightarrow> u32) \<Rightarrow> ('p, 'c) seal \<Rightarrow>
   (powers_dag \<Rightarrow> nat \<Rightarrow> nat list) \<Rightarrow> 'p sender_db \<Rightarrow> 'k receiver \<Rightarrow> label_key list \<Rightarrow> item list \<Rightarrow> match_record list res option" where
  "query_session ku cl io blake2xb ub_shl se orders db rc label_keys items =
     (case create_query ku cl rc items of
        Inl e \<Rightarrow> Some (Inl e)
      | Inr (req, itt) \<Rightarrow>
          map_option (\<lambda>r. bind_res r (\<lambda>q. bind_res (snd (run_query se db q (orders (qu_pd q)))) (\<lambda>parts.
            process_result cl blake2xb ub_shl (rc_params rc) label_keys itt (map Some parts))))
          (make_query io (se_using_keyswitching se) (Some req) (Some (db_params db))))"

definition cuckoo_fits :: "'kt kuku \<Rightarrow> psi_params \<Rightarrow> item list \<Rightarrow> bool" where
  "cuckoo_fits ku pp items \<longleftrightarrow>
     (\<exists>t. cuckoo_insert_all ku items (ku_new ku (tp_table_size (pp_table_params pp)) (tp_hash_func_count (pp_table_params pp))) = Inr t)"

text \<open>The orders of the multiplications respect every plan; the runs of \<open>parallel_apply\<close> are such orders.\<close>

definition scheduler_ok :: "(powers_dag \<Rightarrow> nat \<Rightarrow> nat list) \<Rightarrow> bool" where
  "scheduler_ok orders \<longleftrightarrow> (\<forall>d S B. valid_plan d S \<and> distinct (pd_target_powers d) \<longrightarrow> plan_order d (orders d B))"

lemma sorted_order:
  assumes "valid_plan d S" "distinct (pd_target_powers d)"
  shows "plan_order d (sort (pd_target_powers d))"
proof -
  let ?ts = "sort (pd_target_powers d)"
  have "parents_at d (?ts ! i) = (0, 0) \<or> fst (parents_at d (?ts ! i)) \<in> set (take i ?ts) \<and> snd (parents_at d (?ts ! i)) \<in> set (take i ?ts)"
    if i: "i < length ?ts" for i
  proof -
    have "?ts ! i \<in> set (pd_target_powers d)" using nth_mem [OF i] by simp
    then obtain node where node: "map_of (pd_nodes d) (?ts ! i) = Some node" "pn_parents node = (0, 0) \<or>
        (\<exists>a b. pn_parents node = (a, b) \<and> split_of (set (pd_target_powers d)) (?ts ! i) a b)"
      using assms(1) unfolding valid_plan_def node_valid_def by metis
    have before: "a \<in> set (take i ?ts)" if a: "a \<in> set (pd_target_powers d)" "a < ?ts ! i" for a
    proof -
      obtain j where j: "j < length ?ts" "?ts ! j = a" using a(1) by (metis in_set_conv_nth set_sort)
      have "j < i" using a(2) j sorted_nth_mono [OF sorted_sort, of i j "pd_target_powers d"] by (meson leD leI)
      then show ?thesis using j i by (force simp: in_set_conv_nth)
    qed
    have "parents_at d (?ts ! i) = pn_parents node" using node(1) by (simp add: parents_at_def node_at_some)
    then show ?thesis using node(2) before by (auto simp: split_of_def)
  qed
  then show ?thesis using assms(2) by (simp add: plan_order_def)
qed

lemma sorted_scheduler: "scheduler_ok (\<lambda>d B. sort (pd_target_powers d))"
  unfolding scheduler_ok_def using sorted_order by blast

text \<open>What the two parties share: the parameters, the schemes and their laws.\<close>

definition session_fits ::
  "('p, 'c) seal \<Rightarrow> ('p, 'c) he_view \<Rightarrow> 'pt db_library \<Rightarrow> psi_params \<Rightarrow> 'kt kuku \<Rightarrow> ('p, 'o, 'c, 'k) client_crypto \<Rightarrow>
   ('o, 'c, 'k) seal_io \<Rightarrow> (powers_dag \<Rightarrow> nat \<Rightarrow> nat list) \<Rightarrow> bool" where
  "session_fits se v lib pp ku cl io orders \<longleftrightarrow> library_ok lib \<and> params_fit se v pp \<and> powers_fit pp \<and>
     qp_ps_low_degree (pp_query_params pp) \<noteq> 1 \<and> compression_law se v \<and> keys_fit se pp \<and> client_laws se v io cl \<and>
     (\<exists>contains. kuku_laws ku contains lib pp) \<and> scheduler_ok orders"

definition small_db :: "'p sender_db \<Rightarrow> bool" where
  "small_db db \<longleftrightarrow> (\<Sum>S \<leftarrow> db_bin_bundles db. length S) < 2 ^ 32 \<and> db_nonce_byte_count db < 2 ^ 32"

subsection \<open>The table and the bins\<close>

lemma itt_places:
  assumes itt: "itt_ok ku t items itt" and places: "places_ok ku lib pp t items"
  shows "itt_fits itt" and "last_index items i \<Longrightarrow> find_item_idx itt (place ku t (items ! i)) = i"
    and "find_item_idx itt loc = i \<Longrightarrow> i < length items \<Longrightarrow> place ku t (items ! i) = loc"
proof -
  have some: "map_of (itt_map itt) loc = Some i \<longleftrightarrow> last_index items i \<and> place ku t (items ! i) = loc" for loc i
    using itt by (simp add: itt_ok_def)
  have count: "itt_item_count itt = length items" using itt by (simp add: itt_ok_def)
  show "last_index items i \<Longrightarrow> find_item_idx itt (place ku t (items ! i)) = i"
    using some [of "place ku t (items ! i)" i] by (simp add: find_item_idx_def)
  have found: "place ku t (items ! i) = loc" if "find_item_idx itt loc = i" "i < length items" for loc i
    using that some [of loc i] count by (auto simp: find_item_idx_def split: option.splits)
  then show "find_item_idx itt loc = i \<Longrightarrow> i < length items \<Longrightarrow> place ku t (items ! i) = loc" .
  have "find_item_idx itt loc \<le> itt_item_count itt" for loc
    using some [of loc] count by (auto simp: find_item_idx_def last_index_def split: option.splits)
  then show "itt_fits itt" using found count unfolding itt_fits_def by metis
qed

text \<open>A location lies in one bundle, and the bins of an item start at a multiple of the item's size.\<close>

lemma location_bins:
  assumes "psi_params_ok pp"
  shows "loc * ip_felts_per_item (pp_item_params pp) div pp_bins_per_bundle pp = loc div pp_items_per_bundle pp"
    and "loc * ip_felts_per_item (pp_item_params pp) mod pp_bins_per_bundle pp =
      loc mod pp_items_per_bundle pp * ip_felts_per_item (pp_item_params pp)"
    and "0 < pp_items_per_bundle pp"
    and "loc < tp_table_size (pp_table_params pp) \<Longrightarrow> loc div pp_items_per_bundle pp < pp_bundle_idx_count pp"
proof -
  have n: "pp_bins_per_bundle pp = pp_items_per_bundle pp * ip_felts_per_item (pp_item_params pp)" "0 < pp_items_per_bundle pp"
    "2 \<le> ip_felts_per_item (pp_item_params pp)" "pp_bundle_idx_count pp * pp_items_per_bundle pp = tp_table_size (pp_table_params pp)"
    using assms unfolding psi_params_ok_def Let_def by blast+
  show "loc * ip_felts_per_item (pp_item_params pp) div pp_bins_per_bundle pp = loc div pp_items_per_bundle pp"
    using n(3) by (simp add: n(1))
  show "loc * ip_felts_per_item (pp_item_params pp) mod pp_bins_per_bundle pp =
      loc mod pp_items_per_bundle pp * ip_felts_per_item (pp_item_params pp)" by (simp add: n(1) mult_mod_left)
  show "0 < pp_items_per_bundle pp" by (rule n(2))
  show "loc < tp_table_size (pp_table_params pp) \<Longrightarrow> loc div pp_items_per_bundle pp < pp_bundle_idx_count pp"
    using n(2,4) by (simp add: less_mult_imp_div_less)
qed

text \<open>A record of a part is a match exactly when the bins of the item's place hold its field elements.\<close>

lemma part_found:
  assumes lib: "library_ok lib" and pp: "params_fit se v pp" and places: "places_ok ku lib pp t items"
    and itt: "itt_ok ku t items itt" and items: "\<forall>h \<in> set items. item_wf h"
    and rp: "answers v (query_value pp (ku_table ku t)) B b rp" and b: "bb_num_bins b = pp_bins_per_bundle pp"
    and B: "B < pp_bundle_idx_count pp" and i: "i < length items"
  shows "mr_found (part_records v pp itt rp ! i) \<longleftrightarrow> find_item_idx itt (place ku t (items ! i)) = i \<and>
    place ku t (items ! i) div pp_items_per_bundle pp = B \<and>
    (\<forall>k < ip_felts_per_item (pp_item_params pp). key_at (bundle_rows b)
       (place ku t (items ! i) mod pp_items_per_bundle pp * ip_felts_per_item (pp_item_params pp) + k) (item_felts pp (items ! i) ! k))"
proof -
  let ?n = "pp_items_per_bundle pp" and ?f = "ip_felts_per_item (pp_item_params pp)" and ?loc = "place ku t (items ! i)"
  have ok: "psi_params_ok pp" using pp by (simp add: params_fit_def)
  have n: "pp_bins_per_bundle pp = ?n * ?f" "0 < ?n" using ok unfolding psi_params_ok_def Let_def by blast+
  have count: "itt_item_count itt = length items" using itt by (simp add: itt_ok_def)
  have "item_wf zero_item" by (simp add: item_wf_def zero_item_def)
  then have table: "length (ku_table ku t) = tp_table_size (pp_table_params pp)" "\<forall>h \<in> set (ku_table ku t). item_wf h"
    and at: "ku_table ku t ! ?loc = items ! i"
    using places items i by (auto simp: places_ok_def)
  note felts = bundle_felts_ok [OF lib pp table B]
  have slot: "o' * ?f + k < pp_bins_per_bundle pp" if "o' < ?n" "k < ?f" for o' k
  proof -
    have "(o' + 1) * ?f \<le> ?n * ?f" using that(1) by (intro mult_le_mono1) simp
    then show ?thesis using that(2) by (simp add: n(1))
  qed
  have slot_value: "query_value pp (ku_table ku t) B (o' * ?f + k) = unat (item_felts pp (ku_table ku t ! (B * ?n + o')) ! k)"
    if "o' < ?n" "k < ?f" for o' k
    using slot [OF that] felts(2,4) that by (simp add: query_value_def)
  have zero: "zero_run v pp (rp_psi_result rp) o' \<longleftrightarrow>
      (\<forall>k < ?f. key_at (bundle_rows b) (o' * ?f + k) (item_felts pp (ku_table ku t ! (B * ?n + o')) ! k))" if "o' < ?n" for o'
  proof -
    have "(\<exists>k'. key_at (bundle_rows b) j k' \<and> unat k' = unat y) \<longleftrightarrow> key_at (bundle_rows b) j y" for j and y :: felt
      by (auto simp flip: word_unat_eq_iff)
    then show ?thesis using rp slot [OF that] slot_value [OF that] by (simp add: zero_run_def answers_def b)
  qed
  have "mr_found (part_records v pp itt rp ! i) \<longleftrightarrow>
      (\<exists>o' < ?n. zero_run v pp (rp_psi_result rp) o' \<and> find_item_idx itt (B * ?n + o') = i)"
    using i rp by (simp add: part_records_def count answers_def found_record_def no_match_def)
  also have "\<dots> \<longleftrightarrow> find_item_idx itt ?loc = i \<and> ?loc div ?n = B \<and> zero_run v pp (rp_psi_result rp) (?loc mod ?n)"
  proof
    assume "\<exists>o' < ?n. zero_run v pp (rp_psi_result rp) o' \<and> find_item_idx itt (B * ?n + o') = i"
    then obtain o' where o: "o' < ?n" "zero_run v pp (rp_psi_result rp) o'" "find_item_idx itt (B * ?n + o') = i" by blast
    have "?loc = B * ?n + o'" using itt_places(3) [OF itt places o(3) i] .
    then show "find_item_idx itt ?loc = i \<and> ?loc div ?n = B \<and> zero_run v pp (rp_psi_result rp) (?loc mod ?n)"
      using o by simp
  next
    assume "find_item_idx itt ?loc = i \<and> ?loc div ?n = B \<and> zero_run v pp (rp_psi_result rp) (?loc mod ?n)"
    then show "\<exists>o' < ?n. zero_run v pp (rp_psi_result rp) o' \<and> find_item_idx itt (B * ?n + o') = i"
      using n(2) by (intro exI [of _ "?loc mod ?n"]) auto
  qed
  also have "\<dots> \<longleftrightarrow> find_item_idx itt ?loc = i \<and> ?loc div ?n = B \<and>
      (\<forall>k < ?f. key_at (bundle_rows b) (?loc mod ?n * ?f + k) (item_felts pp (items ! i) ! k))"
    using zero [of "?loc mod ?n"] n(2) at by auto
  finally show ?thesis .
qed

lemma find_last: "itt_ok ku t items itt \<Longrightarrow> i < length items \<Longrightarrow>
    find_item_idx itt (place ku t (items ! i)) = i \<longleftrightarrow> last_index items i"
proof -
  assume a: "itt_ok ku t items itt" "i < length items"
  have count: "itt_item_count itt = length items" using a(1) by (simp add: itt_ok_def)
  have "find_item_idx itt loc = i \<longleftrightarrow> map_of (itt_map itt) loc = Some i" for loc
    using a(2) count by (auto simp: find_item_idx_def split: option.splits)
  then show ?thesis using a(1) by (simp add: itt_ok_def)
qed

lemma query_value_reduced:
  assumes "library_ok lib" "params_fit se v pp" "\<forall>h \<in> set table. item_wf h"
  shows "query_value pp table B i < mo_value (se_mod se)"
proof -
  have "0 < mo_value (se_mod se)" using assms(2) by (simp add: params_fit_def seal_laws_def seal_arith_def)
  moreover have "unat x < mo_value (se_mod se)" if x: "x \<in> set (table_felts pp table B)" for x
  proof -
    obtain h where "h \<in> set (take (pp_items_per_bundle pp) (drop (B * pp_items_per_bundle pp) table))" "x \<in> set (item_felts pp h)"
      using x by (auto simp: table_felts_def)
    then show ?thesis using item_felts_ok(3) [OF assms(1,2), of h] assms(3) by (meson in_set_dropD in_set_takeD)
  qed
  ultimately show ?thesis by (simp add: query_value_def)
qed

text \<open>The parts of all bundles, and the bundle of every part.\<close>

lemma concat_position:
  "a < length (concat xss) \<Longrightarrow> \<exists>B < length xss. \<exists>j < length (xss ! B). concat xss ! a = xss ! B ! j \<and>
     a = sum_list (map length (take B xss)) + j"
proof (induction xss arbitrary: a)
  case (Cons xs xss)
  show ?case
  proof (cases "a < length xs")
    case True
    then show ?thesis by (intro exI [of _ 0]) (simp add: nth_append)
  next
    case False
    have "a - length xs < length (concat xss)" using False Cons.prems by simp
    from Cons.IH [OF this] obtain B j where p: "B < length xss" "j < length (xss ! B)" "concat xss ! (a - length xs) = xss ! B ! j"
      "a - length xs = sum_list (map length (take B xss)) + j" by blast
    have "concat (xs # xss) ! a = xss ! B ! j" using False p(3) by (simp add: nth_append)
    moreover have "a = length xs + sum_list (map length (take B xss)) + j" using False p(4) by linarith
    ultimately show ?thesis using p(1,2) by (intro exI [of _ "Suc B"]) (simp add: exI [of _ j])
  qed
qed simp

lemma part_of_bundle:
  assumes "length partss = length D" "\<forall>B < length partss. list_all2 (answers v x B) (D ! B) (partss ! B)"
    and "a < length (concat partss)"
  shows "\<exists>B < length D. \<exists>j < length (D ! B). answers v x B (D ! B ! j) (concat partss ! a) \<and>
    a = sum_list (map length (take B partss)) + j"
proof -
  obtain B j where p: "B < length partss" "j < length (partss ! B)" "concat partss ! a = partss ! B ! j"
    "a = sum_list (map length (take B partss)) + j" using concat_position [OF assms(3)] by blast
  have "answers v x B (D ! B ! j) (partss ! B ! j)" "j < length (D ! B)"
    using assms(2) p(1,2) list_all2_nthD2 list_all2_lengthD by fastforce+
  then show ?thesis using p assms(1) by auto
qed

lemma bundle_has_part:
  assumes "length partss = length D" "\<forall>B < length partss. list_all2 (answers v x B) (D ! B) (partss ! B)"
    and "B < length D" "b \<in> set (D ! B)"
  shows "\<exists>rp \<in> set (concat partss). answers v x B b rp"
proof -
  obtain j where j: "j < length (D ! B)" "D ! B ! j = b" using assms(4) by (auto simp: in_set_conv_nth)
  have "answers v x B b (partss ! B ! j)" "j < length (partss ! B)"
    using assms j list_all2_nthD list_all2_lengthD by fastforce+
  moreover from this(2) have "partss ! B ! j \<in> set (concat partss)"
    unfolding set_concat using assms(1,3) by (intro UN_I [of "partss ! B"]) simp_all
  ultimately show ?thesis by blast
qed

text \<open>A bundle holds all field elements of an item at its place.\<close>

definition holds_item :: "psi_params \<Rightarrow> 'p bin_bundle \<Rightarrow> nat \<Rightarrow> item \<Rightarrow> bool" where
  "holds_item pp b loc h \<longleftrightarrow> (\<forall>k < ip_felts_per_item (pp_item_params pp). key_at (bundle_rows b)
     (loc mod pp_items_per_bundle pp * ip_felts_per_item (pp_item_params pp) + k) (item_felts pp h ! k))"

text \<open>
  The outcome of a session: the match records are exactly those of the items that some bundle holds, and the
  only error is the duplicate match, when two bundles hold the same item.
\<close>

definition session_result :: "psi_params \<Rightarrow> 'p sender_db \<Rightarrow> (item \<Rightarrow> nat) \<Rightarrow> item list \<Rightarrow> match_record list res \<Rightarrow> bool" where
  "session_result pp db loc items r \<longleftrightarrow> (case r of
     Inl e \<Rightarrow> e = duplicate_match \<and> (\<exists>i. last_index items i \<and>
       (let S = db_bin_bundles db ! (loc (items ! i) div pp_items_per_bundle pp)
        in \<exists>j < length S. \<exists>j' < length S. j \<noteq> j' \<and> holds_item pp (S ! j) (loc (items ! i)) (items ! i) \<and>
           holds_item pp (S ! j') (loc (items ! i)) (items ! i)))
   | Inr mrs \<Rightarrow> length mrs = length items \<and> (\<forall>i < length items. mr_found (mrs ! i) \<longleftrightarrow> last_index items i \<and>
       (\<exists>b \<in> set (db_bin_bundles db ! (loc (items ! i) div pp_items_per_bundle pp)). holds_item pp b (loc (items ! i)) (items ! i))))"

text \<open>
  The query of the session, and what the sender answers to it, or to a request with the same ciphertexts.
\<close>

lemma same_query_refl: "same_query io ks req req"
  unfolding same_query_def row_same_def
  by (intro conjI exI [of _ "qr_data req"]) (simp_all add: list_all2_refl)

lemma same_query_ok:
  assumes same: "same_query io ks req req'" and req: "distinct (map fst (qr_data req))" "request_ok io ks pp req"
    and data: "\<forall>data. list_all2 (row_extracts io) (qr_data req) data \<longrightarrow> P (set data)"
  shows "distinct (map fst (qr_data req')) \<and> request_ok io ks pp req' \<and>
    (\<forall>data. list_all2 (row_extracts io) (qr_data req') data \<longrightarrow> P (set data))"
proof -
  obtain rows where rows: "mset rows = mset (qr_data req)" "list_all2 (row_same io) rows (qr_data req')"
    using same by (auto simp: same_query_def)
  have set: "set rows = set (qr_data req)" using rows(1) by (rule mset_eq_setD)
  have exps: "map fst (qr_data req') = map fst rows"
    using rows(2) by (induction rule: list_all2_induct) (auto simp: row_same_def)
  then have es: "fst ` set (qr_data req') = fst ` set (qr_data req)" using set by (metis list.set_map)
  have "mset (map fst (qr_data req')) = mset (map fst (qr_data req))" using exps rows(1) by simp
  then have distinct: "distinct (map fst (qr_data req'))" using req(1) mset_eq_imp_distinct_iff by blast
  have row: "\<exists>q \<in> set (qr_data req). row_same io q q'" if "q' \<in> set (qr_data req')" for q'
    using rows(2) that set by (metis in_set_conv_nth list_all2_conv_all_nth)
  have each: "(\<forall>ct' \<in> set (snd q'). \<exists>c. io_extract io ct' = Inr c \<and> io_ciphertext_valid io c) \<and> length (snd q') = pp_bundle_idx_count pp"
    if q': "q' \<in> set (qr_data req')" for q'
  proof -
    obtain q where q: "q \<in> set (qr_data req)" "row_same io q q'" using row [OF q'] by blast
    have "\<forall>ct \<in> set (snd q). \<exists>c. io_extract io ct = Inr c \<and> io_ciphertext_valid io c" "length (snd q) = pp_bundle_idx_count pp"
      using req(2) q(1) by (auto simp: request_ok_def split_beta)
    then show ?thesis using q(2) unfolding row_same_def list_all2_conv_all_nth by (metis in_set_conv_nth)
  qed
  have "request_ok io ks pp req'" using req(2) same each es by (auto simp: request_ok_def same_query_def split_beta)
  moreover have "P (set data)" if d: "list_all2 (row_extracts io) (qr_data req') data" for data
  proof -
    have "list_all2 (row_extracts io) rows data"
    proof (rule list_all2_trans [OF _ rows(2) d])
      fix q q' d assume "row_same io q q'" "row_extracts io q' d"
      then show "row_extracts io q d"
        by (auto simp: row_same_def row_extracts_def extracts_def list_all2_conv_all_nth)
    qed
    then obtain data' where "list_all2 (row_extracts io) (qr_data req) data'" "mset data' = mset data"
      using list_all2_reorder_left_invariance [OF _ rows(1) [symmetric]] by blast
    then show ?thesis using data mset_eq_setD by metis
  qed
  ultimately show ?thesis using distinct by blast
qed

lemma session_run:
  assumes fits: "session_fits se v lib pp ku cl io orders" and db: "db_ok se v lib db" "db_params db = pp" "small_db db"
    and rc: "make_receiver cl pp = Some (Inr rc)" and items: "\<forall>h \<in> set items. item_wf h"
    and cuckoo: "cuckoo_fits ku pp items"
  shows "\<exists>t req itt. create_query ku cl rc items = Inr (req, itt) \<and> places_ok ku lib pp t items \<and> itt_ok ku t items itt \<and>
    (\<forall>req'. same_query io (se_using_keyswitching se) req req' \<longrightarrow>
      (\<exists>q partss. make_query io (se_using_keyswitching se) (Some req') (Some pp) = Some (Inr q) \<and>
        run_query se db q (orders (qu_pd q)) = (Some (length (concat partss)), Inr (concat partss)) \<and>
        length partss = length (db_bin_bundles db) \<and>
        (\<forall>B < length partss. list_all2 (answers v (query_value pp (ku_table ku t)) B) (db_bin_bundles db ! B) (partss ! B))))"
proof -
  let ?D = "db_bin_bundles db"
  have lib: "library_ok lib" and pp: "params_fit se v pp" "powers_fit pp" and cl: "client_laws se v io cl"
    and sched: "scheduler_ok orders" and run: "qp_ps_low_degree (pp_query_params pp) \<noteq> 1" "compression_law se v" "keys_fit se pp"
    using fits by (simp_all add: session_fits_def)
  obtain contains where ku: "kuku_laws ku contains lib pp" using fits unfolding session_fits_def by blast
  have rcok: "receiver_ok cl pp rc" by (rule make_receiver_is_ok [OF pp(2) rc])
  obtain t where t: "cuckoo_insert_all ku items (ku_new ku (tp_table_size (pp_table_params pp)) (tp_hash_func_count (pp_table_params pp))) = Inr t"
    using cuckoo by (auto simp: cuckoo_fits_def)
  obtain req itt where req: "create_query ku cl rc items = Inr (req, itt)" "places_ok ku lib pp t items" "itt_ok ku t items itt"
    "distinct (map fst (qr_data req))" "request_ok io (se_using_keyswitching se) pp req"
    "\<forall>data. list_all2 (row_extracts io) (qr_data req) data \<longrightarrow> (\<forall>(e, cts) \<in> set data. \<forall>B < length cts.
       power_is se v (query_value pp (ku_table ku t) B) e (cts ! B))"
    using create_query_ok [OF lib pp rcok cl ku items t] by blast
  define x where "x = query_value pp (ku_table ku t)"
  define x where "x = query_value pp (ku_table ku t)"
  have "item_wf zero_item" by (simp add: item_wf_def zero_item_def)
  then have table: "length (ku_table ku t) = tp_table_size (pp_table_params pp)" "\<forall>h \<in> set (ku_table ku t). item_wf h"
    using req(2) items by (auto simp: places_ok_def)
  have "\<exists>q partss. make_query io (se_using_keyswitching se) (Some req') (Some pp) = Some (Inr q) \<and>
      run_query se db q (orders (qu_pd q)) = (Some (length (concat partss)), Inr (concat partss)) \<and>
      length partss = length ?D \<and> (\<forall>B < length partss. list_all2 (answers v x B) (?D ! B) (partss ! B))"
    if same: "same_query io (se_using_keyswitching se) req req'" for req'
  proof -
    have req': "distinct (map fst (qr_data req'))" "request_ok io (se_using_keyswitching se) pp req'"
      "\<forall>data. list_all2 (row_extracts io) (qr_data req') data \<longrightarrow> (\<forall>(e, cts) \<in> set data. \<forall>B < length cts. power_is se v (x B) e (cts ! B))"
      using same_query_ok [OF same req(4,5), of "\<lambda>data. \<forall>(e, cts) \<in> data. \<forall>B < length cts. power_is se v (x B) e (cts ! B)"] req(6)
      by (simp_all add: x_def)
    obtain q where q: "make_query io (se_using_keyswitching se) (Some req') (Some pp) = Some (Inr q)" "query_ok pp q"
      "list_all2 (row_extracts io) (qr_data req') (qu_data q)"
      using make_query_ok [OF pp(2) req'(1)] req'(2) by blast
    have carries: "query_carries se v q x"
      using req'(3) q(3) query_value_reduced [OF lib pp(1) table(2)] by (simp add: query_carries_def x_def)
    have "run_fits se v lib db q (orders (qu_pd q))"
      using db pp(1) run q(2) sched by (auto simp: run_fits_def small_db_def query_ok_def Let_def scheduler_ok_def)
    then obtain partss where ps: "run_query se db q (orders (qu_pd q)) = (Some (length (concat partss)), Inr (concat partss))"
      "length partss = length ?D" "\<forall>B < length partss. list_all2 (answers v x B) (?D ! B) (partss ! B)"
      using run_query_ok [OF _ carries] by blast
    show ?thesis by (intro exI [of _ q] exI [of _ partss] conjI q(1) ps)
  qed
  then show ?thesis using req(1-3) by (intro exI [of _ t] exI [of _ req] exI [of _ itt]) (simp add: x_def)
qed

text \<open>
  Parts that answer for every bundle, one list for each bundle index, are processed to the result of the
  session.
\<close>

lemma process_answers:
  assumes fits: "session_fits se v lib pp ku cl io orders" and db: "db_ok se v lib db" "db_params db = pp"
    and items: "\<forall>h \<in> set items. item_wf h" and places: "places_ok ku lib pp t items" "itt_ok ku t items itt"
    and ps: "length partss = length (db_bin_bundles db)"
      "\<forall>B < length partss. list_all2 (answers v (query_value pp (ku_table ku t)) B) (db_bin_bundles db ! B) (partss ! B)"
  shows "session_result pp db (place ku t) items (process_result cl blake2xb ub_shl pp label_keys itt (map Some (concat partss)))"
proof -
  let ?n = "pp_items_per_bundle pp" and ?f = "ip_felts_per_item (pp_item_params pp)" and ?D = "db_bin_bundles db"
  have lib: "library_ok lib" and pp: "params_fit se v pp" "powers_fit pp" and cl: "client_laws se v io cl"
    using fits by (simp_all add: session_fits_def)
  have ok: "psi_params_ok pp" using pp(1) by (simp add: params_fit_def)
  define x where "x = query_value pp (ku_table ku t)"
  note ps = ps(1) ps(2) [folded x_def]
  have D: "length ?D = pp_bundle_idx_count pp" "\<And>B b. B < length ?D \<Longrightarrow> b \<in> set (?D ! B) \<Longrightarrow> bb_num_bins b = pp_bins_per_bundle pp"
    using db(1,2) by (auto simp: db_ok_def db_fits_def bundle_fits_def)
  have fit: "itt_fits itt" by (rule itt_places(1) [OF places(2,1)])
  have n: "pp_bins_per_bundle pp = ?n * ?f" "pp_bins_per_bundle pp \<le> hv_slot_count v" "pp_bundle_idx_count pp * ?n < 2 ^ 32"
  proof -
    show "pp_bins_per_bundle pp \<le> hv_slot_count v" using pp(1) by (simp add: params_fit_def)
    show "pp_bins_per_bundle pp = ?n * ?f" using ok unfolding psi_params_ok_def Let_def by blast
    show "pp_bundle_idx_count pp * ?n < 2 ^ 32" using ok unfolding psi_params_ok_def Let_def by metis
  qed
  have part: "process_result_part cl blake2xb ub_shl pp label_keys itt (Some rp) = Inr (part_records v pp itt rp)"
    if rp: "rp \<in> set (concat partss)" for rp
  proof -
    obtain a where "a < length (concat partss)" "concat partss ! a = rp" using rp by (metis in_set_conv_nth)
    then obtain B b where B: "B < length ?D" "answers v x B b rp" using part_of_bundle [OF ps] by metis
    have "(B + 1) * ?n \<le> pp_bundle_idx_count pp * ?n" using B(1) D(1) by (intro mult_le_mono1) simp
    then have "B * ?n + ?n < 2 ^ 64" using n(3) by simp
    then show ?thesis using B(2) n(1,2) by (intro process_part_ok [OF cl fit]) (simp_all add: answers_def)
  qed
  let ?Rs = "map (part_records v pp itt) (concat partss)"
  have count: "itt_item_count itt = length items" using places(2) by (simp add: itt_ok_def)
  have "list_all2 (\<lambda>rp R. process_result_part cl blake2xb ub_shl pp label_keys itt (Some rp) = Inr R \<and> length R = itt_item_count itt)
      (concat partss) ?Rs"
    by (rule list_all2_all_nthI) (simp_all add: part [OF nth_mem] part_records_def)
  note processed = process_result_eq [OF this]
  have one: "mr_found (part_records v pp itt rp ! i) \<longleftrightarrow> last_index items i \<and> place ku t (items ! i) div ?n = B \<and>
      holds_item pp b (place ku t (items ! i)) (items ! i)"
    if "B < length ?D" "b \<in> set (?D ! B)" "answers v x B b rp" "i < length items" for B b rp i
    using part_found [OF lib pp(1) places items _ D(2) [OF that(1,2)] _ that(4)] that D(1) find_last [OF places(2) that(4)]
    by (simp add: x_def holds_item_def)
  have found: "(\<exists>R \<in> set ?Rs. mr_found (R ! i)) \<longleftrightarrow> last_index items i \<and>
      (\<exists>b \<in> set (?D ! (place ku t (items ! i) div ?n)). holds_item pp b (place ku t (items ! i)) (items ! i))"
    if i: "i < length items" for i
  proof -
    let ?loc = "place ku t (items ! i)"
    have "?loc < tp_table_size (pp_table_params pp)" using places(1) i by (simp add: places_ok_def)
    then have B: "?loc div ?n < length ?D" using location_bins(4) [OF ok] D(1) by simp
    show ?thesis
    proof
      assume "\<exists>R \<in> set ?Rs. mr_found (R ! i)"
      then obtain rp where rp: "rp \<in> set (concat partss)" "mr_found (part_records v pp itt rp ! i)" by auto
      then obtain a where "a < length (concat partss)" "concat partss ! a = rp" by (metis in_set_conv_nth)
      then obtain B j where "B < length ?D" "j < length (?D ! B)" "answers v x B (?D ! B ! j) rp"
        using part_of_bundle [OF ps] by metis
      then show "last_index items i \<and> (\<exists>b \<in> set (?D ! (?loc div ?n)). holds_item pp b ?loc (items ! i))"
        using one [OF _ nth_mem _ i] rp(2) nth_mem by blast
    next
      assume a: "last_index items i \<and> (\<exists>b \<in> set (?D ! (?loc div ?n)). holds_item pp b ?loc (items ! i))"
      then obtain b where b: "b \<in> set (?D ! (?loc div ?n))" "holds_item pp b ?loc (items ! i)" by blast
      obtain rp where rp: "rp \<in> set (concat partss)" "answers v x (?loc div ?n) b rp"
        using bundle_has_part [OF ps B b(1)] by blast
      have "mr_found (part_records v pp itt rp ! i)" using one [OF B b(1) rp(2) i] a b(2) by simp
      then show "\<exists>R \<in> set ?Rs. mr_found (R ! i)" using rp(1) by auto
    qed
  qed
  have duplicate: "\<exists>i. last_index items i \<and> (let S = ?D ! (place ku t (items ! i) div ?n)
        in \<exists>j < length S. \<exists>j' < length S. j \<noteq> j' \<and> holds_item pp (S ! j) (place ku t (items ! i)) (items ! i) \<and>
           holds_item pp (S ! j') (place ku t (items ! i)) (items ! i))"
    if dis: "\<not> disjoint_records ?Rs (length items)"
  proof -
    obtain a a' i where ai: "a < a'" "a' < length (concat partss)" "i < length items" "mr_found (?Rs ! a ! i)" "mr_found (?Rs ! a' ! i)"
      using dis by (auto simp: disjoint_records_def sorted_wrt_iff_nth_less)
    then have f: "mr_found (part_records v pp itt (concat partss ! a) ! i)" "mr_found (part_records v pp itt (concat partss ! a') ! i)"
      by simp_all
    obtain B j where B: "B < length ?D" "j < length (?D ! B)" "answers v x B (?D ! B ! j) (concat partss ! a)"
      "a = sum_list (map length (take B partss)) + j" using part_of_bundle [OF ps, of a] ai(1,2) by auto
    obtain B' j' where B': "B' < length ?D" "j' < length (?D ! B')" "answers v x B' (?D ! B' ! j') (concat partss ! a')"
      "a' = sum_list (map length (take B' partss)) + j'" using part_of_bundle [OF ps, of a'] ai(2) by auto
    note h = one [OF B(1) nth_mem [OF B(2)] B(3) ai(3)] one [OF B'(1) nth_mem [OF B'(2)] B'(3) ai(3)]
    have same: "B = place ku t (items ! i) div ?n" "B' = B" using h f by simp_all
    then have "j \<noteq> j'" using B(4) B'(4) ai(1) by auto
    moreover have "last_index items i" "holds_item pp (?D ! B ! j) (place ku t (items ! i)) (items ! i)"
      "holds_item pp (?D ! B ! j') (place ku t (items ! i)) (items ! i)" using h f by (simp_all add: same(2))
    moreover have "j' < length (?D ! B)" using B'(2) by (simp add: same(2))
    ultimately show ?thesis using B(2) unfolding Let_def same(1) by blast
  qed
  show ?thesis
  proof (cases "process_result cl blake2xb ub_shl pp label_keys itt (map Some (concat partss))")
    case (Inl e)
    then have "e = duplicate_match" "\<not> disjoint_records ?Rs (length items)" using processed by (simp_all add: count)
    then show ?thesis using duplicate unfolding Inl by (simp add: session_result_def)
  next
    case (Inr mrs)
    then have m: "length mrs = length items" "merged ?Rs mrs" using processed by (simp_all add: count)
    have "mr_found (mrs ! i) \<longleftrightarrow> last_index items i \<and>
        (\<exists>b \<in> set (?D ! (place ku t (items ! i) div ?n)). holds_item pp b (place ku t (items ! i)) (items ! i))"
      if i: "i < length items" for i
      unfolding merged_found [OF m(2), of i, unfolded m(1), OF i] by (rule found [OF i])
    then show ?thesis using m(1) unfolding Inr by (simp add: session_result_def)
  qed
qed


lemma session_ok:
  assumes fits: "session_fits se v lib pp ku cl io orders" and db: "db_ok se v lib db" "db_params db = pp" "small_db db"
    and rc: "make_receiver cl pp = Some (Inr rc)" and items: "\<forall>h \<in> set items. item_wf h"
    and cuckoo: "cuckoo_fits ku pp items"
  shows "\<exists>r t. query_session ku cl io blake2xb ub_shl se orders db rc label_keys items = Some r \<and> places_ok ku lib pp t items \<and>
    session_result pp db (place ku t) items r"
proof -
  have "powers_fit pp" using fits by (simp add: session_fits_def)
  then have rcp: "rc_params rc = pp" using make_receiver_is_ok [OF _ rc] by (simp add: receiver_ok_def)
  obtain t req itt where req: "create_query ku cl rc items = Inr (req, itt)" "places_ok ku lib pp t items" "itt_ok ku t items itt"
    and run: "\<forall>req'. same_query io (se_using_keyswitching se) req req' \<longrightarrow>
      (\<exists>q partss. make_query io (se_using_keyswitching se) (Some req') (Some pp) = Some (Inr q) \<and>
        run_query se db q (orders (qu_pd q)) = (Some (length (concat partss)), Inr (concat partss)) \<and>
        length partss = length (db_bin_bundles db) \<and>
        (\<forall>B < length partss. list_all2 (answers v (query_value pp (ku_table ku t)) B) (db_bin_bundles db ! B) (partss ! B)))"
    using session_run [OF fits db rc items cuckoo] by (elim exE conjE) (rule that)
  obtain q partss where q: "make_query io (se_using_keyswitching se) (Some req) (Some pp) = Some (Inr q)"
    and ps: "run_query se db q (orders (qu_pd q)) = (Some (length (concat partss)), Inr (concat partss))" "length partss = length (db_bin_bundles db)"
      "\<forall>B < length partss. list_all2 (answers v (query_value pp (ku_table ku t)) B) (db_bin_bundles db ! B) (partss ! B)"
    using run same_query_refl by blast
  have "query_session ku cl io blake2xb ub_shl se orders db rc label_keys items =
      Some (process_result cl blake2xb ub_shl pp label_keys itt (map Some (concat partss)))"
    using req(1) q ps(1) rcp db(2) by (simp add: query_session_def)
  then show ?thesis using req(2) process_answers [OF fits db(1,2) items req(2,3) ps(2,3)] by blast
qed

end
