(* ===== verification/Protocol.thy ===== *)
theory Protocol
  imports Session
begin

text \<open>
  The whole protocol: the oblivious evaluation of the item hashes, the query, and the match records; with
  the guarantees that it gives for a database that was built by any history of operations, and a concrete
  instance of everything that the guarantees assume.
\<close>

subsection \<open>Reachable databases in a session\<close>

lemma insert_nonce:
  "insert_or_assign_unlabeled se lib rnd data db = Inr db' \<Longrightarrow> db_nonce_byte_count db' = db_nonce_byte_count db"
  by (auto simp: insert_or_assign_unlabeled_def Let_def result_simps case_prod_unfold split: if_splits)

lemma reachable_nonce:
  "db_reachable se lib pp db \<Longrightarrow> db_nonce_byte_count db = 0"
proof (induction rule: db_reachable.induct)
  case (inserted db rnd data db')
  then show ?case using insert_nonce by metis
next
  case (replaced db rnd data db')
  then show ?case using insert_nonce [of se lib rnd data "db_clear db" db'] by (simp add: set_data_unlabeled_def db_clear_def clear_internal_def)
qed (auto simp: make_sender_db_def db_clear_def clear_internal_def move_sender_db_def Let_def split: if_splits)

lemma reachable_small:
  assumes "db_reachable se lib pp db" and lib: "library_ok lib" and pp: "params_fit se v pp"
    and "card (db_hashed_items db) * tp_hash_func_count (pp_table_params pp) < 2 ^ 32"
  shows "small_db db"
  using assms(4) ok_bundle_count [OF lib, of se v db] reachable_ok [OF assms(1) lib pp] pp reachable_nonce [OF assms(1)]
  by (simp add: small_db_def)

lemma session_full:
  assumes "cuckoo_insert_all ku items (ku_new ku (tp_table_size (pp_table_params pp)) (tp_hash_func_count (pp_table_params pp))) = Inl e"
    and "rc_params rc = pp"
  shows "query_session ku cl io blake2xb ub_shl se orders db rc label_keys items = Some (Inl e)"
  using assms by (simp add: query_session_def create_query_def Let_def)

text \<open>Which hashed items give the rows of a bin.\<close>

definition item_at :: "'pt db_library \<Rightarrow> psi_params \<Rightarrow> nat \<Rightarrow> nat \<Rightarrow> felt \<Rightarrow> item \<Rightarrow> bool" where
  "item_at lib pp loc k x h \<longleftrightarrow> loc \<in> set (all_locations lib (hash_functions lib pp) h) \<and> item_felts pp h ! k = x"

lemma item_row_count:
  assumes lib: "library_ok lib" and pp: "params_fit se v pp" and h: "item_wf h" and k: "k < ip_felts_per_item (pp_item_params pp)"
  shows "slot_rows pp (loc div pp_items_per_bundle pp) (loc mod pp_items_per_bundle pp * ip_felts_per_item (pp_item_params pp) + k)
      (item_slots lib pp h) =
    (if loc \<in> set (all_locations lib (hash_functions lib pp) h) then {#(item_felts pp h ! k, [])#} else {#})"
proof -
  let ?f = "ip_felts_per_item (pp_item_params pp)" and ?n = "pp_items_per_bundle pp"
  let ?i = "loc mod ?n * ?f + k" and ?row = "(item_felts pp h ! k, [])"
  have ok: "psi_params_ok pp" using pp by (simp add: params_fit_def)
  have slots: "item_slots lib pp h = map (\<lambda>l. (item_felts pp h, l * ?f)) (all_locations lib (hash_functions lib pp) h)"
    using item_felts_ok(1) [OF lib pp h] by (simp add: item_slots_def)
  have one: "rows_at (l * ?f mod pp_bins_per_bundle pp) (item_rows (item_felts pp h)) ?i = (if l mod ?n = loc mod ?n then {#?row#} else {#})" for l
  proof -
    have "l mod ?n * ?f \<le> ?i \<and> ?i < l mod ?n * ?f + ?f \<longleftrightarrow> ?i div ?f = l mod ?n"
      using k by (metis div_nat_eqI dividend_less_times_div add.commute div_times_less_eq_dividend gr_implies_not_zero mult.commute mult_Suc neq0_conv)
    moreover have "?i div ?f = loc mod ?n" using k by simp
    ultimately show ?thesis
      using k item_felts_ok(2) [OF lib pp h] by (auto simp: rows_at_def location_bins(2) [OF ok] item_rows_def)
  qed
  have same: "l = loc" if "l div ?n = loc div ?n" "l mod ?n = loc mod ?n" for l using that by (metis div_mult_mod_eq)
  have sum: "distinct ls \<Longrightarrow> sum_list (map (\<lambda>l. if l mod ?n = loc mod ?n then {#?row#} else {#}) (filter (\<lambda>l. l div ?n = loc div ?n) ls)) =
      (if loc \<in> set ls then {#?row#} else {#})" for ls
  proof (induction ls)
    case (Cons l ls)
    then show ?case using same [of l] by (cases "l = loc") auto
  qed simp
  have "distinct (all_locations lib (hash_functions lib pp) h)" using lib by (simp add: all_locations_def library_ok_def)
  then show ?thesis
    by (simp add: slot_rows_def slots filter_map o_def one location_bins(1) [OF ok] sum)
qed

lemma sum_list_at_least: "j < length xs \<Longrightarrow> j' < length xs \<Longrightarrow> j \<noteq> j' \<Longrightarrow> (xs ! j :: nat) + xs ! j' \<le> sum_list xs"
proof (induction xs arbitrary: j j')
  case (Cons x xs)
  have elem: "i < length xs \<Longrightarrow> xs ! i \<le> sum_list xs" for i by (simp add: elem_le_sum_list)
  then show ?case using Cons by (cases j; cases j') (auto simp: add_mono trans_le_add2)
qed simp

lemma hashed_rows:
  assumes lib: "library_ok lib" and pp: "params_fit se v pp" and ok: "db_ok se v lib db" "db_params db = pp"
    and loc: "loc < tp_table_size (pp_table_params pp)" and k: "k < ip_felts_per_item (pp_item_params pp)"
  shows "set_rows (db_bin_bundles db ! (loc div pp_items_per_bundle pp)) (loc mod pp_items_per_bundle pp * ip_felts_per_item (pp_item_params pp) + k) =
    (\<Sum>h \<in> {h \<in> db_hashed_items db. loc \<in> set (all_locations lib (hash_functions lib pp) h)}. {#(item_felts pp h ! k, [])#})"
proof -
  have B: "loc div pp_items_per_bundle pp < length (db_bin_bundles db)"
    using location_bins(4) [of pp loc] loc pp ok by (simp add: db_ok_def db_fits_def params_fit_def)
  have "finite (db_hashed_items db)" "\<forall>h \<in> db_hashed_items db. item_wf h" using ok(1) by (simp_all add: db_ok_def)
  then show ?thesis using ok B item_row_count [OF lib pp _ k, where loc = loc] by (simp add: db_ok_def db_content_def sum.If_cases Int_def)
qed

text \<open>A key in a bin is a field element of a hashed item of that location, and the keys of two bundles are those of two items.\<close>

lemma key_hashed:
  assumes lib: "library_ok lib" and pp: "params_fit se v pp" and ok: "db_ok se v lib db" "db_params db = pp"
    and loc: "loc < tp_table_size (pp_table_params pp)" and k: "k < ip_felts_per_item (pp_item_params pp)"
    and b: "b \<in> set (db_bin_bundles db ! (loc div pp_items_per_bundle pp))"
      "key_at (bundle_rows b) (loc mod pp_items_per_bundle pp * ip_felts_per_item (pp_item_params pp) + k) x"
  shows "\<exists>h \<in> db_hashed_items db. item_at lib pp loc k x h"
proof -
  obtain row where row: "row \<in> set (bundle_rows b (loc mod pp_items_per_bundle pp * ip_felts_per_item (pp_item_params pp) + k))" "fst row = x"
    using b(2) by (auto simp: key_at_def)
  have "finite (db_hashed_items db)" using ok(1) by (simp add: db_ok_def)
  then show ?thesis
    using set_rows_member [OF b(1) row(1)] row(2) unfolding hashed_rows [OF lib pp ok loc k] by (auto simp: set_mset_sum item_at_def)
qed

lemma key_hashed_twice:
  assumes lib: "library_ok lib" and pp: "params_fit se v pp" and ok: "db_ok se v lib db" "db_params db = pp"
    and loc: "loc < tp_table_size (pp_table_params pp)" and k: "k < ip_felts_per_item (pp_item_params pp)"
    and S: "S = db_bin_bundles db ! (loc div pp_items_per_bundle pp)" and j: "j < length S" "j' < length S" "j \<noteq> j'"
    and b: "key_at (bundle_rows (S ! j)) (loc mod pp_items_per_bundle pp * ip_felts_per_item (pp_item_params pp) + k) x"
      "key_at (bundle_rows (S ! j')) (loc mod pp_items_per_bundle pp * ip_felts_per_item (pp_item_params pp) + k) x"
  shows "\<exists>h \<in> db_hashed_items db. \<exists>h' \<in> db_hashed_items db. h \<noteq> h' \<and> item_at lib pp loc k x h \<and> item_at lib pp loc k x h'"
proof -
  let ?i = "loc mod pp_items_per_bundle pp * ip_felts_per_item (pp_item_params pp) + k"
  let ?H = "{h \<in> db_hashed_items db. loc \<in> set (all_locations lib (hash_functions lib pp) h)}"
  note rows = hashed_rows [OF lib pp ok loc k, folded S]
  have fin: "finite ?H" using ok(1) by (simp add: db_ok_def)
  have empty: "snd row = []" if row: "i < length S" "row \<in> set (bundle_rows (S ! i) ?i)" for i row
    using set_rows_member [OF nth_mem [OF row(1)] row(2)] fin unfolding rows by (auto simp: set_mset_sum)
  have in_row: "(x, []) \<in># mset (bundle_rows (S ! i) ?i)" if "i < length S" "key_at (bundle_rows (S ! i)) ?i x" for i
    using that empty [OF that(1)] by (force simp: key_at_def)
  have "1 \<le> Multiset.count (mset (bundle_rows (S ! i) ?i)) (x, [])" if "i = j \<or> i = j'" for i
    using in_row [of i] j(1,2) b that by (auto simp: Suc_le_eq)
  from add_mono [OF this [of j] this [of j']]
  have "2 \<le> map (\<lambda>b. Multiset.count (mset (bundle_rows b ?i)) (x, [])) S ! j + map (\<lambda>b. Multiset.count (mset (bundle_rows b ?i)) (x, [])) S ! j'"
    using j(1,2) by simp
  also have "\<dots> \<le> sum_list (map (\<lambda>b. Multiset.count (mset (bundle_rows b ?i)) (x, [])) S)"
    by (rule sum_list_at_least) (simp_all add: j)
  also have "\<dots> = Multiset.count (set_rows S ?i) (x, [])"
    unfolding set_rows_def by (induction S) simp_all
  also have "\<dots> = (\<Sum>h \<in> ?H. if item_felts pp h ! k = x then 1 else 0)"
    unfolding rows count_sum by (rule sum.cong) auto
  also have "\<dots> = card {h \<in> ?H. item_felts pp h ! k = x}" using fin by (simp add: sum.If_cases Int_def)
  finally have "\<not> card {h \<in> ?H. item_felts pp h ! k = x} \<le> Suc 0" by simp
  moreover have "finite {h \<in> ?H. item_felts pp h ! k = x}" by (rule finite_subset [OF _ fin]) blast
  ultimately obtain h h' where "h \<in> {h \<in> ?H. item_felts pp h ! k = x}" "h' \<in> {h \<in> ?H. item_felts pp h ! k = x}" "h \<noteq> h'"
    by (auto simp only: card_le_Suc0_iff_eq)
  then show ?thesis by (auto simp: item_at_def)
qed

text \<open>
  The outcome of a query in terms of the database's set of hashed items: no error but the duplicate match, no
  hashed item is missed, and every match or duplicate is made of field elements of hashed items.
\<close>

definition psi_outcome :: "'pt db_library \<Rightarrow> psi_params \<Rightarrow> item set \<Rightarrow> item list \<Rightarrow> match_record list res \<Rightarrow> bool" where
  "psi_outcome lib pp H hs r \<longleftrightarrow> (case r of
     Inl e \<Rightarrow> e = duplicate_match \<and> (\<exists>i < length hs. \<exists>loc \<in> set (all_locations lib (hash_functions lib pp) (hs ! i)).
       \<forall>k < ip_felts_per_item (pp_item_params pp). \<exists>h \<in> H. \<exists>h' \<in> H. h \<noteq> h' \<and>
         item_at lib pp loc k (item_felts pp (hs ! i) ! k) h \<and> item_at lib pp loc k (item_felts pp (hs ! i) ! k) h')
   | Inr mrs \<Rightarrow> length mrs = length hs \<and> (\<forall>i < length hs.
       (last_index hs i \<and> hs ! i \<in> H \<longrightarrow> mr_found (mrs ! i)) \<and>
       (mr_found (mrs ! i) \<longrightarrow> last_index hs i \<and> (\<exists>loc \<in> set (all_locations lib (hash_functions lib pp) (hs ! i)).
          \<forall>k < ip_felts_per_item (pp_item_params pp). \<exists>h \<in> H. item_at lib pp loc k (item_felts pp (hs ! i) ! k) h))))"

lemma result_outcome:
  assumes lib: "library_ok lib" and pp: "params_fit se v pp" and ok: "db_ok se v lib db" "db_params db = pp"
    and places: "places_ok ku lib pp t items" and items: "\<forall>h \<in> set items. item_wf h"
    and r: "session_result pp db (place ku t) items r"
  shows "psi_outcome lib pp (db_hashed_items db) items r"
proof -
  let ?f = "ip_felts_per_item (pp_item_params pp)" and ?H = "db_hashed_items db"
  let ?loc = "\<lambda>i. place ku t (items ! i)"
  have ppok: "psi_params_ok pp" using pp by (simp add: params_fit_def)
  have loc: "?loc i \<in> set (all_locations lib (hash_functions lib pp) (items ! i))" "?loc i < tp_table_size (pp_table_params pp)"
    if "i < length items" for i using places that by (simp_all add: places_ok_def)
  show ?thesis
  proof (cases r)
    case (Inl e)
    then obtain i j j' where e: "e = duplicate_match" "last_index items i"
      "j < length (db_bin_bundles db ! (?loc i div pp_items_per_bundle pp))" "j' < length (db_bin_bundles db ! (?loc i div pp_items_per_bundle pp))"
      "j \<noteq> j'" "holds_item pp (db_bin_bundles db ! (?loc i div pp_items_per_bundle pp) ! j) (?loc i) (items ! i)"
      "holds_item pp (db_bin_bundles db ! (?loc i div pp_items_per_bundle pp) ! j') (?loc i) (items ! i)"
      using r by (auto simp: session_result_def Let_def)
    have i: "i < length items" using e(2) by (simp add: last_index_def)
    have "\<forall>k < ?f. \<exists>h \<in> ?H. \<exists>h' \<in> ?H. h \<noteq> h' \<and> item_at lib pp (?loc i) k (item_felts pp (items ! i) ! k) h \<and>
        item_at lib pp (?loc i) k (item_felts pp (items ! i) ! k) h'"
      using key_hashed_twice [OF lib pp ok loc(2) [OF i] _ refl e(3,4,5)] e(6,7) by (simp add: holds_item_def)
    then show ?thesis using e(1) i loc(1) [OF i] unfolding Inl psi_outcome_def by auto
  next
    case (Inr mrs)
    then have m: "length mrs = length items" "\<And>i. i < length items \<Longrightarrow> mr_found (mrs ! i) \<longleftrightarrow> last_index items i \<and>
       (\<exists>b \<in> set (db_bin_bundles db ! (?loc i div pp_items_per_bundle pp)). holds_item pp b (?loc i) (items ! i))"
      using r by (simp_all add: session_result_def)
    have complete: "mr_found (mrs ! i)" if i: "last_index items i" "items ! i \<in> ?H" for i
    proof -
      have len: "i < length items" using i(1) by (simp add: last_index_def)
      then have wf: "item_wf (items ! i)" using items by simp
      have "(item_felts pp (items ! i), ?loc i * ?f) \<in> set (item_slots lib (db_params db) (items ! i))"
        using item_slots_felts [OF lib pp wf] loc(1) [OF len] by (auto simp: ok(2))
      from hashed_in_bundle(3) [OF lib _ ok(1) i(2) this] show ?thesis
        using pp m(2) [OF len] i(1) item_felts_ok(2) [OF lib pp wf]
        by (auto simp: ok(2) holds_item_def location_bins(1,2) [OF ppok])
    qed
    have sound: "last_index items i \<and> (\<exists>loc \<in> set (all_locations lib (hash_functions lib pp) (items ! i)).
        \<forall>k < ?f. \<exists>h \<in> ?H. item_at lib pp loc k (item_felts pp (items ! i) ! k) h)" if i: "i < length items" "mr_found (mrs ! i)" for i
    proof -
      obtain b where b: "b \<in> set (db_bin_bundles db ! (?loc i div pp_items_per_bundle pp))" "holds_item pp b (?loc i) (items ! i)"
        and last: "last_index items i" using m(2) [OF i(1)] i(2) by blast
      have "\<forall>k < ?f. \<exists>h \<in> ?H. item_at lib pp (?loc i) k (item_felts pp (items ! i) ! k) h"
        using key_hashed [OF lib pp ok loc(2) [OF i(1)] _ b(1)] b(2) by (simp add: holds_item_def)
      then show ?thesis using last loc(1) [OF i(1)] by blast
    qed
    have each: "(last_index items i \<and> items ! i \<in> ?H \<longrightarrow> mr_found (mrs ! i)) \<and> (mr_found (mrs ! i) \<longrightarrow> last_index items i \<and>
        (\<exists>loc \<in> set (all_locations lib (hash_functions lib pp) (items ! i)).
          \<forall>k < ?f. \<exists>h \<in> ?H. item_at lib pp loc k (item_felts pp (items ! i) ! k) h))" if i: "i < length items" for i
      by (rule conjI [OF impI impI]) (erule conjE, erule (1) complete, rule sound [OF i])
    show ?thesis unfolding Inr psi_outcome_def sum.case by (rule conjI [OF m(1)], intro allI impI, rule each)
  qed
qed

lemma session_outcome:
  assumes fits: "session_fits se v lib pp ku cl io orders" and db: "db_reachable se lib pp db"
      "card (db_hashed_items db) * tp_hash_func_count (pp_table_params pp) < 2 ^ 32"
    and rc: "make_receiver cl pp = Some (Inr rc)" and items: "\<forall>h \<in> set items. item_wf h" and cuckoo: "cuckoo_fits ku pp items"
  shows "\<exists>r. query_session ku cl io blake2xb ub_shl se orders db rc label_keys items = Some r \<and>
    psi_outcome lib pp (db_hashed_items db) items r"
proof -
  have lib: "library_ok lib" and pp: "params_fit se v pp" using fits by (simp_all add: session_fits_def)
  have ok: "db_params db = pp" "db_ok se v lib db" using reachable_ok [OF db(1) lib pp] by simp_all
  obtain r t where r: "query_session ku cl io blake2xb ub_shl se orders db rc label_keys items = Some r"
    "places_ok ku lib pp t items" "session_result pp db (place ku t) items r"
    using session_ok [OF fits ok(2,1) reachable_small [OF db(1) lib pp db(2)] rc items cuckoo, where blake2xb = blake2xb and ub_shl = ub_shl
      and label_keys = label_keys] by (elim exE conjE) (rule that)
  show ?thesis by (intro exI [of _ r] conjI r(1) result_outcome [OF lib pp ok(2,1) r(2) items r(3)])
qed

subsection \<open>The oblivious evaluation before the query\<close>

text \<open>
  The receiver blinds its items, the sender answers with its key, and the unblinded hashes and label keys
  are those of the query. \<open>None\<close> is a random source that never delivers a scalar.
\<close>

definition psi_run ::
  "'kt kuku \<Rightarrow> ('p, 'o, 'c, 'k) client_crypto \<Rightarrow> ('o, 'c, 'k) seal_io \<Rightarrow> 'pt db_library \<Rightarrow> ('p, 'c) seal \<Rightarrow>
   (powers_dag \<Rightarrow> nat \<Rightarrow> nat list) \<Rightarrow> 'p sender_db \<Rightarrow> 'k receiver \<Rightarrow> (nat \<Rightarrow> byte list) \<Rightarrow> item list \<Rightarrow> match_record list res option" where
  "psi_run ku cl io lib se orders db rc rnd items =
     (case process_items (dl_fourq lib) rnd items of
        None \<Rightarrow> None
      | Some r \<Rightarrow>
          (case bind_res (get_oprf_key db) (\<lambda>key.
             bind_res (run_oprf (dl_fourq lib) (dl_threads lib) (Some (create_oprf_request r)) key) (\<lambda>response.
             extract_hashes (dl_fourq lib) response r)) of
             Inl e \<Rightarrow> Some (Inl e)
           | Inr hashes \<Rightarrow> query_session ku cl io (dl_xof lib) (dl_undefined_shift lib) se orders db rc (map snd hashes) (map fst hashes)))"

definition hash_of :: "'pt db_library \<Rightarrow> 'p sender_db \<Rightarrow> item \<Rightarrow> item" where
  "hash_of lib db v = fst (get_item_hash (dl_fourq lib) v (db_oprf_key db))"

text \<open>What the oblivious evaluation assumes: the laws of the curve, full random draws, and items that are not empty.\<close>

definition oprf_fits :: "'pt db_library \<Rightarrow> (nat \<Rightarrow> byte list) \<Rightarrow> item list \<Rightarrow> bool" where
  "oprf_fits lib rnd items \<longleftrightarrow> (\<exists>act order valid. fourq_laws (dl_fourq lib) act order valid) \<and> (\<forall>k. length (rnd k) = 32) \<and>
     (\<forall>v \<in> set items. v \<noteq> [])"

lemma oprf_exchange:
  assumes lib: "library_ok lib" and oprf: "oprf_fits lib rnd items" and rv: "process_items (dl_fourq lib) rnd items = Some rv"
  shows "\<exists>resp. run_oprf (dl_fourq lib) (dl_threads lib) (Some (create_oprf_request rv)) (db_oprf_key db) = Inr (Some resp) \<and>
    extract_hashes (dl_fourq lib) (Some resp) rv = Inr (map (\<lambda>v. get_item_hash (dl_fourq lib) v (db_oprf_key db)) items)"
proof -
  let ?fq = "dl_fourq lib" and ?key = "db_oprf_key db"
  obtain act order valid where laws: "fourq_laws ?fq act order valid" and rnd: "\<forall>k. length (rnd k) = 32" and ne: "\<forall>v \<in> set items. v \<noteq> []"
    using oprf by (auto simp: oprf_fits_def)
  have threads: "0 < dl_threads lib" using lib by (simp add: library_ok_def)
  have "bind_res (process_queries ?fq (dl_threads lib) (or_queries rv) ?key) (\<lambda>responses.
      process_responses ?fq rv responses (length items) (length items)) = Inr (map (\<lambda>v. get_item_hash ?fq v ?key) items)"
    by (rule oprf_spec [OF laws rnd threads ne rv])
  then obtain resp where resp: "process_queries ?fq (dl_threads lib) (or_queries rv) ?key = Inr resp"
    "process_responses ?fq rv resp (length items) (length items) = Inr (map (\<lambda>v. get_item_hash ?fq v ?key) items)"
    by (auto simp: result_simps)
  then have len: "or_item_count rv = length items" "length resp = length items * save_size"
    by (auto simp: process_responses_def split: if_splits)
  have "extract_hashes ?fq (Some resp) rv = Inr (map (\<lambda>v. get_item_hash ?fq v ?key) items)"
    using resp(2) len by (simp add: extract_hashes_def oprf_response_size_def oprf_sizes Let_def)
  then show ?thesis using resp(1) by (simp add: run_oprf_def create_oprf_request_def)
qed

lemma psi_run_session:
  assumes lib: "library_ok lib" and oprf: "oprf_fits lib rnd items" and db: "\<not> db_stripped db"
    and run: "process_items (dl_fourq lib) rnd items \<noteq> None"
  shows "\<exists>keys. psi_run ku cl io lib se orders db rc rnd items =
    query_session ku cl io (dl_xof lib) (dl_undefined_shift lib) se orders db rc keys (map (hash_of lib db) items)"
proof -
  obtain rv where rv: "process_items (dl_fourq lib) rnd items = Some rv" using run by auto
  obtain resp where resp: "run_oprf (dl_fourq lib) (dl_threads lib) (Some (create_oprf_request rv)) (db_oprf_key db) = Inr (Some resp)"
    "extract_hashes (dl_fourq lib) (Some resp) rv = Inr (map (\<lambda>v. get_item_hash (dl_fourq lib) v (db_oprf_key db)) items)"
    using oprf_exchange [OF lib oprf rv] by blast
  then show ?thesis using rv db by (auto simp: psi_run_def get_oprf_key_def o_def hash_of_def [abs_def])
qed

lemma hash_wf: "library_ok lib \<Longrightarrow> item_wf (hash_of lib db v)"
  by (simp add: hash_of_def hashed_item_wf)

subsection \<open>The stored items\<close>

text \<open>A database with the raw items that its history of operations has left in it.\<close>

inductive db_stores :: "('p, 'c) seal \<Rightarrow> 'pt db_library \<Rightarrow> psi_params \<Rightarrow> item set \<Rightarrow> 'p sender_db \<Rightarrow> bool"
  for se lib pp where
  stores_created: "make_sender_db pp key 0 nonce_byte_count = Inr db \<Longrightarrow> db_stores se lib pp {} db"
| stores_inserted: "db_stores se lib pp V db \<Longrightarrow> insert_or_assign_unlabeled se lib rnd data db = Inr db' \<Longrightarrow>
    db_stores se lib pp (V \<union> set data) db'"
| stores_replaced: "db_stores se lib pp V db \<Longrightarrow> set_data_unlabeled se lib rnd data db = Inr db' \<Longrightarrow> db_stores se lib pp (set data) db'"
| stores_cleared: "db_stores se lib pp V db \<Longrightarrow> db_stores se lib pp {} (db_clear db)"
| stores_moved_to: "db_stores se lib pp V db \<Longrightarrow> db_stores se lib pp V (fst (move_sender_db fresh_key db))"
| stores_moved_from: "db_stores se lib pp V db \<Longrightarrow> db_stores se lib pp {} (snd (move_sender_db fresh_key db))"

lemma stores_ok:
  assumes "db_stores se lib pp V db" and lib: "library_ok lib" and pp: "params_fit se v pp"
  shows "db_reachable se lib pp db \<and> db_hashed_items db = hash_of lib db ` V \<and> finite V"
  using assms(1)
proof induction
  case (stores_created key nonce_byte_count db)
  then show ?case using created [OF stores_created]
    by (auto simp: make_sender_db_def db_clear_def clear_internal_def Let_def split: if_splits)
next
  case (stores_inserted V db rnd data db')
  then have ok: "db_params db = pp" "db_ok se v lib db" using reachable_ok [OF _ lib pp] by simp_all
  show ?case
    using insert_unlabeled_ok [OF lib _ ok(2), of rnd data] pp ok(1) stores_inserted inserted [of se lib pp db rnd data db']
    by (auto simp: item_hashes_def hash_of_def image_Un)
next
  case (stores_replaced V db rnd data db')
  then have reach: "db_reachable se lib pp (db_clear db)" by (intro cleared) simp
  have ok: "db_params (db_clear db) = pp" "db_ok se v lib (db_clear db)" using reachable_ok [OF reach lib pp] by (rule conjunct1, rule conjunct2)
  have ins: "insert_or_assign_unlabeled se lib rnd data (db_clear db) = Inr db'" using stores_replaced(2) by (simp add: set_data_unlabeled_def)
  show ?case
    using insert_unlabeled_ok [OF lib _ ok(2), of rnd data] pp ok(1) ins inserted [OF reach ins]
    by (auto simp: item_hashes_def hash_of_def simp del: clear_frame(1))
next
  case (stores_moved_from V db fresh_key)
  then show ?case by (simp add: moved_from) (simp add: move_frame)
qed (simp_all add: cleared moved_to, simp_all add: move_frame)

subsection \<open>The outcome of a run\<close>

text \<open>
  A run that draws its scalars returns: with the error of the cuckoo table when the hashes do not fit in it,
  and otherwise with the outcome for the hashes of the stored items.
\<close>

definition hashes_inserted :: "'kt kuku \<Rightarrow> psi_params \<Rightarrow> item list \<Rightarrow> 'kt res" where
  "hashes_inserted ku pp hs =
     cuckoo_insert_all ku hs (ku_new ku (tp_table_size (pp_table_params pp)) (tp_hash_func_count (pp_table_params pp)))"

lemma psi_run_ok:
  assumes fits: "session_fits se v lib pp ku cl io orders" and oprf: "oprf_fits lib rnd items"
    and db: "db_stores se lib pp V db" "card V * tp_hash_func_count (pp_table_params pp) < 2 ^ 32" and rc: "make_receiver cl pp = Some (Inr rc)"
    and rv: "process_items (dl_fourq lib) rnd items \<noteq> None"
  shows "\<exists>r. psi_run ku cl io lib se orders db rc rnd items = Some r \<and>
    (case hashes_inserted ku pp (map (hash_of lib db) items) of Inl e \<Rightarrow> r = Inl e
     | Inr t \<Rightarrow> psi_outcome lib pp (hash_of lib db ` V) (map (hash_of lib db) items) r)"
proof -
  let ?hs = "map (hash_of lib db) items"
  have lib: "library_ok lib" and pp: "params_fit se v pp" and powers: "powers_fit pp" using fits by (simp_all add: session_fits_def)
  have reach: "db_reachable se lib pp db" "db_hashed_items db = hash_of lib db ` V" "finite V" using stores_ok [OF db(1) lib pp] by simp_all
  have "card (hash_of lib db ` V) * tp_hash_func_count (pp_table_params pp) \<le> card V * tp_hash_func_count (pp_table_params pp)"
    using card_image_le [OF reach(3)] by (rule mult_le_mono1)
  then have small: "card (db_hashed_items db) * tp_hash_func_count (pp_table_params pp) < 2 ^ 32"
    using db(2) unfolding reach(2) by (rule le_less_trans)
  have full: "\<not> db_stripped db" using reachable_ok [OF reach(1) lib pp] by (simp add: db_ok_def)
  obtain keys where q: "psi_run ku cl io lib se orders db rc rnd items =
      query_session ku cl io (dl_xof lib) (dl_undefined_shift lib) se orders db rc keys ?hs"
    using psi_run_session [OF lib oprf full rv] by blast
  have rcp: "rc_params rc = pp" using make_receiver_is_ok [OF powers rc] by (simp add: receiver_ok_def)
  have wf: "\<forall>h \<in> set ?hs. item_wf h" by (simp add: hash_wf [OF lib])
  show ?thesis
  proof (cases "hashes_inserted ku pp ?hs")
    case (Inl e)
    then show ?thesis using session_full [OF Inl [unfolded hashes_inserted_def] rcp] by (simp add: q)
  next
    case (Inr t)
    then have "cuckoo_fits ku pp ?hs" by (simp add: cuckoo_fits_def hashes_inserted_def)
    from session_outcome [OF fits reach(1) small rc wf this, where blake2xb = "dl_xof lib" and ub_shl = "dl_undefined_shift lib"
        and label_keys = keys]
    show ?thesis by (simp add: q Inr reach(2))
  qed
qed

text \<open>
  Every queried hash has, in some position, a field element that no other stored hash has there. Then the
  field elements of different stored items cannot add up to a match.
\<close>

definition tell_apart :: "psi_params \<Rightarrow> item set \<Rightarrow> item list \<Rightarrow> bool" where
  "tell_apart pp H hs \<longleftrightarrow> (\<forall>h \<in> set hs. \<exists>k < ip_felts_per_item (pp_item_params pp).
     \<forall>h' \<in> H. item_felts pp h' ! k = item_felts pp h ! k \<longrightarrow> h' = h)"

lemma outcome_exact:
  assumes out: "psi_outcome lib pp H hs r" and apart: "tell_apart pp H hs"
  shows "\<exists>mrs. r = Inr mrs \<and> length mrs = length hs \<and> (\<forall>i < length hs. mr_found (mrs ! i) \<longleftrightarrow> last_index hs i \<and> hs ! i \<in> H)"
proof -
  have unique: "\<exists>k < ip_felts_per_item (pp_item_params pp). \<forall>h' \<in> H. item_felts pp h' ! k = item_felts pp (hs ! i) ! k \<longrightarrow> h' = hs ! i"
    if "i < length hs" for i using apart that by (simp add: tell_apart_def)
  show ?thesis
  proof (cases r)
    case (Inl e)
    then obtain i loc where i: "i < length hs" and dup: "\<forall>k < ip_felts_per_item (pp_item_params pp). \<exists>h \<in> H. \<exists>h' \<in> H. h \<noteq> h' \<and>
        item_at lib pp loc k (item_felts pp (hs ! i) ! k) h \<and> item_at lib pp loc k (item_felts pp (hs ! i) ! k) h'"
      using out unfolding psi_outcome_def by auto
    then show ?thesis using unique [OF i] unfolding item_at_def by metis
  next
    case (Inr mrs)
    have m: "length mrs = length hs" "\<And>i. i < length hs \<Longrightarrow> last_index hs i \<and> hs ! i \<in> H \<longrightarrow> mr_found (mrs ! i)"
      "\<And>i. i < length hs \<Longrightarrow> mr_found (mrs ! i) \<longrightarrow> last_index hs i \<and> (\<exists>loc \<in> set (all_locations lib (hash_functions lib pp) (hs ! i)).
          \<forall>k < ip_felts_per_item (pp_item_params pp). \<exists>h \<in> H. item_at lib pp loc k (item_felts pp (hs ! i) ! k) h)"
      using out unfolding psi_outcome_def Inr sum.case by blast+
    have "mr_found (mrs ! i) \<longleftrightarrow> last_index hs i \<and> hs ! i \<in> H" if i: "i < length hs" for i
    proof
      assume found: "mr_found (mrs ! i)"
      obtain k where k: "k < ip_felts_per_item (pp_item_params pp)"
        "\<forall>h' \<in> H. item_felts pp h' ! k = item_felts pp (hs ! i) ! k \<longrightarrow> h' = hs ! i" using unique [OF i] by blast
      obtain h where "h \<in> H" "item_felts pp h ! k = item_felts pp (hs ! i) ! k"
        using m(3) [OF i] found k(1) unfolding item_at_def by blast
      then show "last_index hs i \<and> hs ! i \<in> H" using m(3) [OF i] found k(2) by blast
    qed (use m(2) [OF i] in blast)
    then show ?thesis using m(1) Inr by blast
  qed
qed

lemma last_index_map:
  "inj_on f (set xs) \<Longrightarrow> i < length xs \<Longrightarrow> last_index (map f xs) i \<longleftrightarrow> last_index xs i"
  using inj_on_image_mem_iff [of f "set xs" "xs ! i" "set (drop (i + 1) xs)"] set_drop_subset [of "i + 1" xs]
  by (simp add: last_index_def drop_map)

lemma last_index_of: "x \<in> set xs \<Longrightarrow> \<exists>i < length xs. xs ! i = x \<and> last_index xs i"
proof -
  assume "x \<in> set xs"
  then obtain ys zs where "xs = ys @ x # zs" "x \<notin> set zs" using split_list_last by metis
  then show ?thesis by (intro exI [of _ "length ys"]) (simp add: last_index_def)
qed

text \<open>When no two items have the same hash, the found hashes are those of the stored items.\<close>

lemma found_items:
  assumes inj: "inj_on f (V \<union> set items)"
    and found: "\<forall>i < length (map f items). mr_found (mrs ! i) \<longleftrightarrow> last_index (map f items) i \<and> map f items ! i \<in> f ` V"
    and i: "i < length items"
  shows "mr_found (mrs ! i) \<longleftrightarrow> items ! i \<in> V \<and> last_index items i"
proof -
  have "inj_on f (set items)" using inj by (rule inj_on_subset) simp
  then have "last_index (map f items) i \<longleftrightarrow> last_index items i" using i by (rule last_index_map)
  moreover have "f (items ! i) \<in> f ` V \<longleftrightarrow> items ! i \<in> V" using inj_on_image_mem_iff [OF inj, of "items ! i" V] i by simp
  ultimately show ?thesis using found i by auto
qed

end
