(* ===== verification/ReceiverWorkers.thy ===== *)
theory ReceiverWorkers
  imports Session "HOL-Library.Multiset"
begin

text \<open>
  The result workers of the receiver (\<open>Receiver::request_query\<close> and \<open>process_result_worker\<close> in
  \<open>receiver/apsi/receiver.cpp\<close>): tasks that share the number of outstanding packages, the channel and the
  match records. A scheduler lets one worker take one atomic action at a time.
\<close>

subsection \<open>Workers\<close>

text \<open>
  What the workers share. The channel is what will arrive, in order; \<open>None\<close> is a result that
  \<open>receive_result\<close> rejects.
\<close>

record 'part shared =
  sh_count :: nat
  sh_channel :: "'part option list"
  sh_mrs :: "match_record list"

text \<open>
  The places of a worker between two accesses to shared data. \<open>Claim c\<close> has read the count \<open>c\<close>; \<open>Look R i\<close> is at
  index \<open>i\<close> of the merge of the records \<open>R\<close>; \<open>Store R i\<close> has found that the record \<open>i\<close> is to be moved.
\<close>

datatype 'part result_worker =
    Check | Claim nat | Receive | Process 'part
  | Look "match_record list" nat | Store "match_record list" nat | Exited | Threw exn

fun result_step :: "('part \<Rightarrow> match_record list res) \<Rightarrow> 'part shared \<Rightarrow> 'part result_worker \<Rightarrow> 'part shared \<times> 'part result_worker" where
  "result_step process sh Check = (sh, if sh_count sh = 0 then Exited else Claim (sh_count sh))"
| "result_step process sh (Claim c) =
     (if sh_count sh = c then (sh\<lparr>sh_count := c - 1\<rparr>, Receive) else (sh, Check))"
| "result_step process sh Receive =
     (case sh_channel sh of
        [] \<Rightarrow> (sh, Receive)
      | None # ch \<Rightarrow> (sh\<lparr>sh_channel := ch\<rparr>, Receive)
      | Some part # ch \<Rightarrow> (sh\<lparr>sh_channel := ch\<rparr>, Process part))"
| "result_step process sh (Process part) =
     (sh, case process part of Inl e \<Rightarrow> Threw e | Inr this_mrs \<Rightarrow> Look this_mrs 0)"
| "result_step process sh (Look this_mrs i) =
     (sh, if i \<ge> length (sh_mrs sh) then Check
          else case vec_get this_mrs i of
            Inl e \<Rightarrow> Threw e
          | Inr mr \<Rightarrow>
              if mr_found mr \<and> \<not> mr_found (sh_mrs sh ! i) then Store this_mrs i
              else if mr_found mr \<and> mr_found (sh_mrs sh ! i) then Threw duplicate_match
              else Look this_mrs (i + 1))"
| "result_step process sh (Store this_mrs i) =
     (sh\<lparr>sh_mrs := (sh_mrs sh)[i := this_mrs ! i]\<rparr>, Look this_mrs (i + 1))"
| "result_step process sh Exited = (sh, Exited)"
| "result_step process sh (Threw e) = (sh, Threw e)"

type_synonym 'part result_pool = "'part shared \<times> 'part result_worker list"

definition launch_workers :: "nat \<Rightarrow> nat \<Rightarrow> nat \<Rightarrow> 'part option list \<Rightarrow> 'part result_pool" where
  "launch_workers thread_count package_count item_count channel =
     (\<lparr>sh_count = package_count, sh_channel = channel, sh_mrs = replicate item_count no_match\<rparr>,
      replicate (min thread_count package_count) Check)"

definition results_step :: "('part \<Rightarrow> match_record list res) \<Rightarrow> nat \<Rightarrow> 'part result_pool \<Rightarrow> 'part result_pool" where
  "results_step process k pool =
     (case pool of (sh, ws) \<Rightarrow> case result_step process sh (ws ! k) of (sh', w) \<Rightarrow> (sh', ws[k := w]))"

text \<open>A schedule is the list of the workers that act, in order.\<close>

definition run_workers :: "('part \<Rightarrow> match_record list res) \<Rightarrow> nat list \<Rightarrow> 'part result_pool \<Rightarrow> 'part result_pool" where
  "run_workers process ks pool = fold (results_step process) ks pool"

text \<open>
  Waiting for the tasks in the order in which they were launched; the first one that threw passes its exception on.
  \<open>None\<close> is a task that has not finished.
\<close>

fun join_workers :: "'part result_worker list \<Rightarrow> unit res option" where
  "join_workers [] = Some (Inr ())"
| "join_workers (Exited # ws) = join_workers ws"
| "join_workers (Threw e # ws) = Some (Inl e)"
| "join_workers (w # ws) = None"

text \<open>
  The request: the query is made and sent; \<open>respond\<close> is the answer to it, that is, the number of packages it
  announces, and what arrives on the channel.
\<close>

definition request_query ::
  "'kt kuku \<Rightarrow> ('p, 'o, 'c, 'k) client_crypto \<Rightarrow> xof \<Rightarrow> (u32 \<Rightarrow> nat \<Rightarrow> u32) \<Rightarrow> 'k receiver \<Rightarrow> nat \<Rightarrow>
   (('o, 'k) query_request \<Rightarrow> nat \<times> 'c result_package option list) \<Rightarrow> nat list \<Rightarrow> item list \<Rightarrow> label_key list \<Rightarrow>
   match_record list res option" where
  "request_query ku cl blake2xb ub_shl rc thread_count respond schedule items label_keys =
     (case create_query ku cl rc items of
        Inl e \<Rightarrow> Some (Inl e)
      | Inr (req, itt) \<Rightarrow>
          let (package_count, channel) = respond req;
              (sh, ws) = run_workers (\<lambda>rp. process_result_part cl blake2xb ub_shl (rc_params rc) label_keys itt (Some rp)) schedule
                (launch_workers thread_count package_count (itt_item_count itt) channel)
          in map_option (\<lambda>r. bind_res r (\<lambda>_. Inr (sh_mrs sh))) (join_workers ws))"

subsection \<open>Invariant\<close>

text \<open>The parts that arrive, and the records that a worker is merging with how many of them are merged.\<close>

definition valid_parts :: "'part option list \<Rightarrow> 'part list" where
  "valid_parts ch = map the (filter (\<lambda>p. p \<noteq> None) ch)"

lemma valid_parts_simps [simp]: "valid_parts [] = []" "valid_parts (None # ch) = valid_parts ch" "valid_parts (Some p # ch) = p # valid_parts ch"
  by (simp_all add: valid_parts_def)

fun worker_merge :: "('part \<Rightarrow> match_record list) \<Rightarrow> 'part result_worker \<Rightarrow> (match_record list \<times> nat) multiset" where
  "worker_merge rec (Process p) = {#(rec p, 0)#}"
| "worker_merge rec (Look R i) = {#(R, i)#}"
| "worker_merge rec (Store R i) = {#(R, i)#}"
| "worker_merge rec w = {#}"

definition merging :: "('part \<Rightarrow> match_record list) \<Rightarrow> nat \<Rightarrow> 'part result_pool \<Rightarrow> match_record list multiset \<Rightarrow> (match_record list \<times> nat) multiset" where
  "merging rec n pool D = mset (map (\<lambda>p. (rec p, 0)) (valid_parts (sh_channel (fst pool)))) +
     sum_list (map (worker_merge rec) (snd pool)) + image_mset (\<lambda>R. (R, n)) D"

fun worker_fits :: "'part set \<Rightarrow> nat \<Rightarrow> nat \<Rightarrow> 'part result_worker \<Rightarrow> bool" where
  "worker_fits P c n (Claim c') \<longleftrightarrow> c' \<noteq> 0"
| "worker_fits P c n (Process p) \<longleftrightarrow> p \<in> P"
| "worker_fits P c n (Look R i) \<longleftrightarrow> i \<le> n \<and> length R = n"
| "worker_fits P c n (Store R i) \<longleftrightarrow> i < n \<and> length R = n \<and> mr_found (R ! i)"
| "worker_fits P c n Exited \<longleftrightarrow> c = 0"
| "worker_fits P c n (Threw e) \<longleftrightarrow> False"
| "worker_fits P c n w \<longleftrightarrow> True"

text \<open>The record \<open>i\<close> holds what was merged at \<open>i\<close>.\<close>

definition merged_at :: "(match_record list \<times> nat) multiset \<Rightarrow> nat \<Rightarrow> match_record \<Rightarrow> bool" where
  "merged_at X i mr \<longleftrightarrow> (\<forall>(R, j) \<in># X. i < j \<and> mr_found (R ! i) \<longrightarrow> mr = R ! i) \<and>
     ((\<forall>(R, j) \<in># X. i < j \<longrightarrow> \<not> mr_found (R ! i)) \<longrightarrow> mr = no_match)"

definition pool_ok :: "('part \<Rightarrow> match_record list) \<Rightarrow> 'part set \<Rightarrow> nat \<Rightarrow> match_record list multiset \<Rightarrow> 'part result_pool \<Rightarrow> bool" where
  "pool_ok rec P n M pool \<longleftrightarrow> length (sh_mrs (fst pool)) = n \<and> set (valid_parts (sh_channel (fst pool))) \<subseteq> P \<and>
     (\<forall>w \<in> set (snd pool). worker_fits P (sh_count (fst pool)) n w) \<and>
     sh_count (fst pool) + length (filter (\<lambda>w. w = Receive) (snd pool)) = length (valid_parts (sh_channel (fst pool))) \<and>
     (\<exists>D. image_mset fst (merging rec n pool D) = M \<and> (\<forall>i < n. merged_at (merging rec n pool D) i (sh_mrs (fst pool) ! i)))"

text \<open>No item is found in two parts.\<close>

definition at_most_once :: "nat \<Rightarrow> match_record list multiset \<Rightarrow> bool" where
  "at_most_once n M \<longleftrightarrow> (\<forall>i < n. size (filter_mset (\<lambda>R. mr_found (R ! i)) M) \<le> 1)"

lemma once_others:
  assumes "at_most_once n (image_mset fst (add_mset (R, i) Y))" "m < n" "mr_found (R ! m)" "(R', j) \<in># Y"
  shows "\<not> mr_found (R' ! m)"
proof
  assume "mr_found (R' ! m)"
  moreover obtain Z where "Y = add_mset (R', j) Z" using assms(4) by (metis insert_DiffM)
  ultimately show False using assms(1-3) by (auto simp: at_most_once_def)
qed

lemma merged_skip: "merged_at (add_mset (R, i) Y) m mr \<Longrightarrow> m \<noteq> i \<or> \<not> mr_found (R ! m) \<Longrightarrow> merged_at (add_mset (R, Suc i) Y) m mr"
  by (auto simp: merged_at_def less_Suc_eq)

lemma merged_not_yet:
  assumes "merged_at (add_mset (R, i) Y) i mr" "at_most_once n (image_mset fst (add_mset (R, i) Y))" "i < n" "mr_found (R ! i)"
  shows "\<not> mr_found mr"
proof -
  have "\<forall>(R', j) \<in># add_mset (R, i) Y. i < j \<longrightarrow> \<not> mr_found (R' ! i)" using once_others [OF assms(2-4)] by fastforce
  then have "mr = no_match" using assms(1) by (simp add: merged_at_def)
  then show ?thesis by (simp add: no_match_def)
qed

lemma merged_stored:
  assumes "at_most_once n (image_mset fst (add_mset (R, i) Y))" "i < n" "mr_found (R ! i)"
  shows "merged_at (add_mset (R, Suc i) Y) i (R ! i)"
  using once_others [OF assms] assms(3) by (fastforce simp: merged_at_def)

text \<open>What is left to do; a failed claim is made up for by the claim that made it fail.\<close>

fun worker_potential :: "nat \<Rightarrow> nat \<Rightarrow> 'part result_worker \<Rightarrow> nat" where
  "worker_potential n c Check = 2"
| "worker_potential n c (Claim c') = (if c' = c then 1 else 3)"
| "worker_potential n c Receive = 2 * n + 7"
| "worker_potential n c (Process p) = 2 * n + 6"
| "worker_potential n c (Look R i) = 2 * (n - i) + 3"
| "worker_potential n c (Store R i) = 2 * (n - i) + 2"
| "worker_potential n c Exited = 0"
| "worker_potential n c (Threw e) = 0"

definition potential :: "nat \<Rightarrow> 'part result_pool \<Rightarrow> nat" where
  "potential n pool = sh_count (fst pool) * (2 * n + 7 + 2 * length (snd pool)) + length (sh_channel (fst pool)) +
     (\<Sum>w \<leftarrow> snd pool. worker_potential n (sh_count (fst pool)) w)"

lemma potential_count: "worker_potential n c w \<le> worker_potential n c' w + 2"
  by (cases w) simp_all

lemma potentials_count: "(\<Sum>w \<leftarrow> ws. worker_potential n c w) \<le> (\<Sum>w \<leftarrow> ws. worker_potential n c' w) + 2 * length ws"
proof (induction ws)
  case (Cons w ws)
  then show ?case using potential_count [of n c w c'] by simp
qed simp

lemma fits_count: "worker_fits P c n w \<Longrightarrow> c \<noteq> 0 \<Longrightarrow> worker_fits P c' n w"
  by (cases w) simp_all

text \<open>One action of a worker keeps the invariant, and leaves less to do.\<close>

definition process_fits :: "('part \<Rightarrow> match_record list res) \<Rightarrow> ('part \<Rightarrow> match_record list) \<Rightarrow> 'part set \<Rightarrow> nat \<Rightarrow> bool" where
  "process_fits process rec P n \<longleftrightarrow> (\<forall>p \<in> P. process p = Inr (rec p) \<and> length (rec p) = n)"

lemma action_ok:
  assumes ok: "pool_ok rec P n M (sh, xs @ w # ys)" and once: "at_most_once n M" and fits: "process_fits process rec P n"
    and act: "result_step process sh w = (sh', w')"
  shows "pool_ok rec P n M (sh', xs @ w' # ys) \<and> (w \<noteq> Exited \<longrightarrow> potential n (sh', xs @ w' # ys) < potential n (sh, xs @ w # ys))"
proof -
  obtain D where D: "image_mset fst (merging rec n (sh, xs @ w # ys) D) = M"
    "\<forall>i < n. merged_at (merging rec n (sh, xs @ w # ys) D) i (sh_mrs sh ! i)" using ok by (auto simp: pool_ok_def)
  have len: "length (sh_mrs sh) = n" "set (valid_parts (sh_channel sh)) \<subseteq> P" "\<forall>w \<in> set (xs @ w # ys). worker_fits P (sh_count sh) n w"
    "sh_count sh + length (filter (\<lambda>w. w = Receive) (xs @ w # ys)) = length (valid_parts (sh_channel sh))"
    using ok by (simp_all add: pool_ok_def)
  show ?thesis
  proof (cases w)
    case Check
    then show ?thesis using act len D
      by (auto simp: pool_ok_def potential_def merging_def split: if_splits)
  next
    case (Claim c)
    show ?thesis
    proof (cases "sh_count sh = c")
      case True
      have c: "c \<noteq> 0" using len(3) Claim by simp
      have "\<forall>w \<in> set (xs @ ys). worker_fits P c n w" using len(3) True by simp
      then have "\<forall>w \<in> set (xs @ ys). worker_fits P (c - 1) n w" using fits_count [OF _ c] by blast
      then have "pool_ok rec P n M (sh', xs @ w' # ys)"
        using True c act len D Claim by (auto simp: pool_ok_def merging_def)
      moreover have "c * (2 * n + 7 + 2 * length (xs @ w # ys)) = (c - 1) * (2 * n + 7 + 2 * length (xs @ w # ys)) + (2 * n + 7 + 2 * length (xs @ w # ys))"
        using c by (cases c) simp_all
      then have "potential n (sh', xs @ w' # ys) < potential n (sh, xs @ w # ys)"
        using True act Claim potentials_count [of n "c - 1" xs c] potentials_count [of n "c - 1" ys c]
        by (auto simp: potential_def)
      ultimately show ?thesis by blast
    next
      case False
      then show ?thesis using act len D Claim by (auto simp: pool_ok_def potential_def merging_def)
    qed
  next
    case Receive
    have "sh_channel sh \<noteq> []" using len(4) Receive by auto
    then obtain p ch where ch: "sh_channel sh = p # ch" by (cases "sh_channel sh") auto
    then show ?thesis using act len D Receive by (cases p) (auto simp: pool_ok_def potential_def merging_def)
  next
    case (Process p)
    then have p: "process p = Inr (rec p)" "length (rec p) = n" using len(3) fits by (auto simp: process_fits_def)
    then show ?thesis using act len D Process by (auto simp: pool_ok_def potential_def merging_def)
  next
    case (Look R i)
    have R: "i \<le> n" "length R = n" using len(3) Look by simp_all
    let ?Y = "mset (map (\<lambda>p. (rec p, 0)) (valid_parts (sh_channel sh))) + sum_list (map (worker_merge rec) (xs @ ys)) + image_mset (\<lambda>R. (R, n)) D"
    have X: "merging rec n (sh, xs @ w # ys) D = add_mset (R, i) ?Y" by (simp add: merging_def Look)
    show ?thesis
    proof (cases "i = n")
      case True
      have same: "merging rec n (sh, xs @ Check # ys) (add_mset R D) = merging rec n (sh, xs @ w # ys) D" by (simp add: merging_def Look True)
      have next_: "sh' = sh" "w' = Check" using act Look True len(1) by simp_all
      have "pool_ok rec P n M (sh', xs @ w' # ys)"
        unfolding pool_ok_def next_ by (intro conjI exI [of _ "add_mset R D"]; use len D Look in \<open>simp add: same\<close>)
      then show ?thesis using Look by (simp add: potential_def next_)
    next
      case False
      then have i: "i < n" "vec_get R i = Inr (R ! i)" using R by (simp_all add: vec_get_def)
      have once': "at_most_once n (image_mset fst (add_mset (R, i) ?Y))" using once D(1) unfolding X by simp
      show ?thesis
      proof (cases "mr_found (R ! i)")
        case True
        have "\<not> mr_found (sh_mrs sh ! i)" using merged_not_yet [OF _ once' i(1) True] D(2) i(1) unfolding X by blast
        then show ?thesis using act len D Look True i R by (auto simp: pool_ok_def potential_def merging_def)
      next
        case no: False
        have next_: "sh' = sh" "w' = Look R (Suc i)" using act Look i no len(1) by simp_all
        have X': "merging rec n (sh, xs @ w' # ys) D = add_mset (R, Suc i) ?Y" by (simp add: merging_def next_)
        have "merged_at (merging rec n (sh, xs @ w' # ys) D) m (sh_mrs sh ! m)" if "m < n" for m
          using merged_skip [of R i ?Y m] D(2) that no unfolding X X' by blast
        moreover have "image_mset fst (merging rec n (sh, xs @ w' # ys) D) = M" using D(1) unfolding X X' by simp
        ultimately have "pool_ok rec P n M (sh', xs @ w' # ys)" using len R i(1) Look by (auto simp: pool_ok_def next_)
        then show ?thesis using i(1) Look by (simp add: potential_def next_)
      qed
    qed
  next
    case (Store R i)
    have R: "i < n" "length R = n" "mr_found (R ! i)" using len(3) Store by simp_all
    let ?Y = "mset (map (\<lambda>p. (rec p, 0)) (valid_parts (sh_channel sh))) + sum_list (map (worker_merge rec) (xs @ ys)) + image_mset (\<lambda>R. (R, n)) D"
    have next_: "sh' = sh\<lparr>sh_mrs := (sh_mrs sh)[i := R ! i]\<rparr>" "w' = Look R (Suc i)" using act Store by simp_all
    have X: "merging rec n (sh, xs @ w # ys) D = add_mset (R, i) ?Y" "merging rec n (sh', xs @ w' # ys) D = add_mset (R, Suc i) ?Y"
      by (simp_all add: merging_def Store next_)
    have once': "at_most_once n (image_mset fst (add_mset (R, i) ?Y))" using once D(1) unfolding X by simp
    have "merged_at (merging rec n (sh', xs @ w' # ys) D) m (sh_mrs sh' ! m)" if m: "m < n" for m
    proof (cases "m = i")
      case True
      then show ?thesis using merged_stored [OF once' R(1,3)] R(1) len(1) unfolding X by (simp add: next_)
    next
      case False
      then show ?thesis using merged_skip [of R i ?Y m] D(2) m unfolding X by (simp add: next_)
    qed
    moreover have "image_mset fst (merging rec n (sh', xs @ w' # ys) D) = M" using D(1) unfolding X by simp
    ultimately have "pool_ok rec P n M (sh', xs @ w' # ys)" using len R Store by (auto simp: pool_ok_def next_)
    then show ?thesis using R(1) Store by (simp add: potential_def next_)
  next
    case Exited
    then show ?thesis using act ok by simp
  next
    case (Threw e)
    then show ?thesis using len(3) by simp
  qed
qed

lemma step_ok:
  assumes "pool_ok rec P n M (sh, ws)" "at_most_once n M" "process_fits process rec P n" "k < length ws"
    and "results_step process k (sh, ws) = (sh', ws')"
  shows "pool_ok rec P n M (sh', ws') \<and> length ws' = length ws \<and> (\<forall>j. j \<noteq> k \<longrightarrow> ws' ! j = ws ! j) \<and>
    (if ws ! k = Exited then ws' ! k = Exited \<and> sh' = sh else potential n (sh', ws') < potential n (sh, ws))"
proof -
  obtain sh1 w' where act: "result_step process sh (ws ! k) = (sh1, w')" by fastforce
  have split: "ws = take k ws @ ws ! k # drop (Suc k) ws" using assms(4) by (rule id_take_nth_drop)
  have next_: "sh' = sh1" "ws' = ws[k := w']" using assms(5) act by (simp_all add: results_step_def)
  have upd: "ws[k := w'] = take k ws @ w' # drop (Suc k) ws" using assms(4) by (simp add: upd_conv_take_nth_drop)
  note one = action_ok [OF _ assms(2,3) act, of "take k ws" "drop (Suc k) ws", folded split upd, OF assms(1)]
  have "sh1 = sh \<and> w' = Exited" if "ws ! k = Exited" using act that by simp
  then show ?thesis using one assms(4) unfolding next_ by auto
qed

text \<open>The initial pool.\<close>

lemma launch_ok:
  assumes "length (valid_parts ch) = c"
  shows "pool_ok rec (set (valid_parts ch)) n (mset (map rec (valid_parts ch))) (launch_workers threads c n ch)"
proof -
  have "sum_list (replicate m {#}) = {#}" for m by (induction m) simp_all
  then have "merging rec n (launch_workers threads c n ch) {#} = mset (map (\<lambda>p. (rec p, 0)) (valid_parts ch))"
    by (simp add: merging_def launch_workers_def map_replicate_const)
  moreover have "image_mset fst (mset (map (\<lambda>p. (rec p, 0 :: nat)) (valid_parts ch))) = mset (map rec (valid_parts ch))"
    by (simp add: image_mset.compositionality o_def)
  moreover have "merged_at (mset (map (\<lambda>p. (rec p, 0)) (valid_parts ch))) i no_match" for i by (auto simp: merged_at_def)
  ultimately show ?thesis using assms by (auto simp: pool_ok_def launch_workers_def intro!: exI [of _ "{#}"])
qed

text \<open>Whatever the schedule, the invariant holds, and the actions of workers that have not exited use up the potential.\<close>

fun busy :: "('part \<Rightarrow> match_record list res) \<Rightarrow> nat list \<Rightarrow> 'part result_pool \<Rightarrow> nat" where
  "busy process [] pool = 0"
| "busy process (k # ks) pool = (if snd pool ! k = Exited then 0 else 1) + busy process ks (results_step process k pool)"

lemma run_ok:
  assumes "pool_ok rec P n M pool" "at_most_once n M" "process_fits process rec P n" "set ks \<subseteq> {..<length (snd pool)}"
  shows "pool_ok rec P n M (run_workers process ks pool) \<and> length (snd (run_workers process ks pool)) = length (snd pool) \<and>
    busy process ks pool + potential n (run_workers process ks pool) \<le> potential n pool \<and>
    (\<forall>k < length (snd pool). snd pool ! k = Exited \<longrightarrow> snd (run_workers process ks pool) ! k = Exited) \<and>
    (\<forall>k < length (snd pool). snd (run_workers process ks pool) ! k \<noteq> Exited \<longrightarrow> count_list ks k \<le> busy process ks pool)"
  using assms(1,4)
proof (induction ks arbitrary: pool)
  case Nil
  then show ?case by (simp add: run_workers_def)
next
  case (Cons k ks)
  obtain sh ws where pool: "pool = (sh, ws)" by fastforce
  obtain sh' ws' where next_: "results_step process k pool = (sh', ws')" by fastforce
  have k: "k < length ws" using Cons.prems(2) pool by simp
  have st: "pool_ok rec P n M (sh', ws')" "length ws' = length ws" "\<forall>j. j \<noteq> k \<longrightarrow> ws' ! j = ws ! j"
    "if ws ! k = Exited then ws' ! k = Exited \<and> sh' = sh else potential n (sh', ws') < potential n (sh, ws)"
    using step_ok [OF Cons.prems(1) [unfolded pool] assms(2,3) k next_ [unfolded pool]] by simp_all
  have same: "(sh', ws') = (sh, ws)" if "ws ! k = Exited" using st that by (auto intro!: nth_equalityI) metis
  note IH = Cons.IH [OF st(1)]
  have run: "run_workers process (k # ks) pool = run_workers process ks (sh', ws')" by (simp add: run_workers_def next_)
  have IH': "pool_ok rec P n M (run_workers process ks (sh', ws'))" "length (snd (run_workers process ks (sh', ws'))) = length ws"
    "busy process ks (sh', ws') + potential n (run_workers process ks (sh', ws')) \<le> potential n (sh', ws')"
    "\<forall>k < length ws. ws' ! k = Exited \<longrightarrow> snd (run_workers process ks (sh', ws')) ! k = Exited"
    "\<forall>k < length ws. snd (run_workers process ks (sh', ws')) ! k \<noteq> Exited \<longrightarrow> count_list ks k \<le> busy process ks (sh', ws')"
    using IH Cons.prems(2) st(2) pool by simp_all
  have b: "busy process (k # ks) (sh, ws) = (if ws ! k = Exited then 0 else 1) + busy process ks (sh', ws')"
    using next_ [unfolded pool] by simp
  have "busy process (k # ks) pool + potential n (run_workers process ks (sh', ws')) \<le> potential n pool"
    using IH'(3) st(4) same unfolding pool b by (auto split: if_splits)
  moreover have "snd (run_workers process ks (sh', ws')) ! j = Exited" if "j < length ws" "ws ! j = Exited" for j
    using that IH'(4) st(3,4) by (metis (full_types))
  moreover have "count_list (k # ks) j \<le> busy process (k # ks) pool" if j: "j < length ws" "snd (run_workers process ks (sh', ws')) ! j \<noteq> Exited" for j
  proof (cases "j = k")
    case True
    then have "ws ! k \<noteq> Exited" using j IH'(4) st(4) by (metis (full_types))
    then show ?thesis using IH'(5) j True unfolding pool b by simp
  next
    case False
    then show ?thesis using IH'(5) j unfolding pool b by (simp add: trans_le_add2)
  qed
  ultimately show ?case using IH'(1,2) unfolding run by (simp add: pool)
qed

text \<open>When all workers have exited, the records are those of all parts together.\<close>

lemma exited_merged:
  assumes ok: "pool_ok rec P n M (sh, ws)" and all: "\<forall>w \<in> set ws. w = Exited" and "ws = [] \<longrightarrow> sh_count sh = 0"
    and len: "\<forall>R \<in># M. length R = n"
  shows "length (sh_mrs sh) = n \<and> (\<forall>i < n. (\<forall>R \<in># M. mr_found (R ! i) \<longrightarrow> sh_mrs sh ! i = R ! i) \<and>
    ((\<forall>R \<in># M. \<not> mr_found (R ! i)) \<longrightarrow> sh_mrs sh ! i = no_match))"
proof -
  have zero: "sh_count sh = 0"
  proof (cases ws)
    case (Cons w ws')
    then show ?thesis using ok all by (auto simp: pool_ok_def)
  qed (use assms(3) in simp)
  have none: "filter (\<lambda>w. w = Receive) ws = []" using all by (auto simp: filter_empty_conv)
  then have ch: "valid_parts (sh_channel sh) = []" using ok zero by (simp add: pool_ok_def)
  have ws: "sum_list (map (worker_merge rec) ws) = {#}" using all by (induction ws) auto
  obtain D where D: "image_mset fst (merging rec n (sh, ws) D) = M" "\<forall>i < n. merged_at (merging rec n (sh, ws) D) i (sh_mrs sh ! i)"
    using ok by (auto simp: pool_ok_def)
  have X: "merging rec n (sh, ws) D = image_mset (\<lambda>R. (R, n)) D" by (simp add: merging_def ch ws)
  have "M = D" using D(1) unfolding X by (simp add: image_mset.compositionality o_def)
  then show ?thesis using D(2) ok unfolding X by (auto simp: merged_at_def pool_ok_def)
qed

lemma disjoint_once: "disjoint_records Rs n \<Longrightarrow> at_most_once n (mset Rs)"
proof (induction Rs)
  case (Cons R Rs)
  then have IH: "at_most_once n (mset Rs)" and R: "\<forall>R' \<in> set Rs. \<forall>i < n. \<not> (mr_found (R ! i) \<and> mr_found (R' ! i))"
    by (auto simp: disjoint_records_def)
  have "filter_mset (\<lambda>R. mr_found (R ! i)) (mset Rs) = {#}" if "i < n" "mr_found (R ! i)" for i
    using R that by (auto simp: filter_empty_conv simp flip: mset_filter)
  then show ?case using IH by (auto simp: at_most_once_def)
qed (simp add: at_most_once_def)

text \<open>All of a run, from the launch of the workers.\<close>

definition worker_bound :: "nat \<Rightarrow> nat \<Rightarrow> nat \<Rightarrow> nat \<Rightarrow> nat" where
  "worker_bound threads c n m = c * (2 * n + 7 + 2 * min threads c) + m + 2 * min threads c"

lemma launched_run_ok:
  assumes c: "length (valid_parts ch) = c" "0 < threads" and fits: "process_fits process rec (set (valid_parts ch)) n"
    and once: "at_most_once n (mset (map rec (valid_parts ch)))" and ks: "set ks \<subseteq> {..<min threads c}"
    and run: "run_workers process ks (launch_workers threads c n ch) = (sh, ws)"
  shows "length ws = min threads c \<and> (\<forall>e. Threw e \<notin> set ws) \<and>
    ((\<forall>w \<in> set ws. w = Exited) \<longrightarrow> length (sh_mrs sh) = n \<and> merged (map rec (valid_parts ch)) (sh_mrs sh)) \<and>
    ((\<forall>k < min threads c. worker_bound threads c n (length ch) \<le> count_list ks k) \<longrightarrow> (\<forall>w \<in> set ws. w = Exited))"
proof -
  let ?pool = "launch_workers threads c n ch" and ?M = "mset (map rec (valid_parts ch))"
  have len: "length (snd ?pool) = min threads c" by (simp add: launch_workers_def)
  have ks': "set ks \<subseteq> {..<length (snd ?pool)}" using ks by (simp add: len)
  note ok = run_ok [OF launch_ok [OF c(1)] once fits ks', unfolded len run snd_conv]
  have inv: "pool_ok rec (set (valid_parts ch)) n ?M (sh, ws)" "length ws = min threads c" using ok by simp_all
  have pot: "potential n ?pool = worker_bound threads c n (length ch)"
    by (simp add: potential_def launch_workers_def worker_bound_def sum_list_replicate)
  have "Threw e \<notin> set ws" for e using inv(1) by (auto simp: pool_ok_def)
  moreover have "length (sh_mrs sh) = n \<and> merged (map rec (valid_parts ch)) (sh_mrs sh)" if all: "\<forall>w \<in> set ws. w = Exited"
  proof -
    have "sh_count sh = 0" if "ws = []"
    proof -
      have "c = 0" using inv(2) c(2) that by (simp add: min_def split: if_splits)
      then show ?thesis using ks run c(1) by (auto simp: run_workers_def launch_workers_def)
    qed
    then show ?thesis
      using exited_merged [OF inv(1) all] fits by (auto simp: process_fits_def merged_def)
  qed
  moreover have "\<forall>w \<in> set ws. w = Exited" if enough: "\<forall>k < min threads c. worker_bound threads c n (length ch) \<le> count_list ks k"
  proof (rule ccontr)
    assume "\<not> (\<forall>w \<in> set ws. w = Exited)"
    then obtain k where k: "k < length ws" "ws ! k \<noteq> Exited" by (auto simp: in_set_conv_nth)
    then have "worker_bound threads c n (length ch) \<le> busy process ks ?pool"
      using ok enough inv(2) order_trans by (metis (no_types, lifting))
    then have "potential n (sh, ws) = 0" using ok pot by simp
    moreover have "worker_potential n (sh_count sh) (ws ! k) \<noteq> 0"
      using k inv(1) nth_mem [OF k(1)] by (cases "ws ! k") (auto simp: pool_ok_def)
    moreover have "worker_potential n (sh_count sh) (ws ! k) \<in> set (map (worker_potential n (sh_count sh)) ws)" using k(1) by simp
    ultimately show False by (auto simp: potential_def sum_list_eq_0_iff)
  qed
  ultimately show ?thesis using inv(2) by blast
qed

text \<open>The parts of a successful sequential processing, as the workers process them.\<close>

lemma process_entry_length:
  "process_entry blake2xb ub_shl pp label_keys itt prp expectation bundle_start o' mrs = Inr mrs' \<Longrightarrow> length mrs' = length mrs"
  by (auto simp: process_entry_def Let_def result_simps vec_set_def vec_get_def split: if_splits)

lemma fold_res_length:
  "fold_res f xs s = Inr s' \<Longrightarrow> (\<And>x s s'. f x s = Inr s' \<Longrightarrow> length s' = length s) \<Longrightarrow> length s' = length s"
  by (induction xs arbitrary: s) (auto simp: result_simps)

lemma process_part_length:
  "process_result_part cl blake2xb ub_shl pp label_keys itt (Some rp) = Inr R \<Longrightarrow> length R = itt_item_count itt"
  using fold_res_length [OF _ process_entry_length] by (fastforce simp: process_result_part_def result_simps)

lemma process_result_parts:
  assumes "process_result cl blake2xb ub_shl pp label_keys itt (map Some parts) = Inr mrs"
  shows "\<forall>p \<in> set parts. \<exists>R. process_result_part cl blake2xb ub_shl pp label_keys itt (Some p) = Inr R"
proof -
  have "\<forall>p \<in> set parts. \<exists>R. g (Some p) = Inr R" if "fold_res (\<lambda>x s. bind_res (g x) (h s)) (map Some parts) s = Inr s'"
    for g :: "'c result_package option \<Rightarrow> match_record list res" and h s s'
    using that by (induction parts arbitrary: s) (auto simp: result_simps)
  from this [where h = "\<lambda>mrs this_mrs. if length this_mrs \<noteq> length mrs then Inr mrs else merge_records this_mrs mrs"]
  show ?thesis using assms unfolding process_result_def by blast
qed

lemma join_unthrown:
  "\<forall>e. Threw e \<notin> set ws \<Longrightarrow> join_workers ws = (if \<forall>w \<in> set ws. w = Exited then Some (Inr ()) else None)"
  by (induction ws rule: join_workers.induct) auto

lemma request_query_ok:
  assumes query: "create_query ku cl rc items = Inr (req, itt)" and resp: "respond req = (length parts, ch)"
    and ch: "mset (valid_parts ch) = mset parts"
    and seq: "process_result cl blake2xb ub_shl (rc_params rc) label_keys itt (map Some parts) = Inr mrs"
    and threads: "0 < threads" and ks: "set ks \<subseteq> {..<min threads (length parts)}"
  shows "case request_query ku cl blake2xb ub_shl rc threads respond ks items label_keys of
      None \<Rightarrow> \<exists>k < min threads (length parts). count_list ks k < worker_bound threads (length parts) (itt_item_count itt) (length ch)
    | Some r \<Rightarrow> r = Inr mrs"
proof -
  let ?process = "\<lambda>rp. process_result_part cl blake2xb ub_shl (rc_params rc) label_keys itt (Some rp)"
  let ?rec = "\<lambda>rp. case ?process rp of Inl e \<Rightarrow> [] | Inr R \<Rightarrow> R" and ?n = "itt_item_count itt"
  have each: "?process p = Inr (?rec p) \<and> length (?rec p) = ?n" if "p \<in> set parts" for p
    using process_result_parts [OF seq] process_part_length that by fastforce
  have set: "set (valid_parts ch) = set parts" using ch by (rule mset_eq_setD)
  have len: "length (valid_parts ch) = length parts" using ch by (rule mset_eq_length)
  have fits: "process_fits ?process ?rec (set (valid_parts ch)) ?n" using each by (simp add: process_fits_def set)
  have "list_all2 (\<lambda>rp R. ?process rp = Inr R \<and> length R = ?n) parts (map ?rec parts)"
    using each by (simp add: list_all2_conv_all_nth)
  from process_result_eq [OF this] have m: "length mrs = ?n" "merged (map ?rec parts) mrs" "disjoint_records (map ?rec parts) ?n"
    by (simp_all add: seq)
  have "at_most_once ?n (mset (map ?rec (valid_parts ch)))" using disjoint_once [OF m(3)] ch by simp
  obtain sh ws where run: "run_workers ?process ks (launch_workers threads (length parts) ?n ch) = (sh, ws)" by fastforce
  note ok = launched_run_ok [OF len threads fits \<open>at_most_once ?n (mset (map ?rec (valid_parts ch)))\<close> ks run]
  have req: "request_query ku cl blake2xb ub_shl rc threads respond ks items label_keys =
      map_option (\<lambda>r. bind_res r (\<lambda>_. Inr (sh_mrs sh))) (join_workers ws)"
    using query resp run by (simp add: request_query_def)
  have threw: "\<forall>e. Threw e \<notin> set ws" using ok by blast
  show ?thesis
  proof (cases "\<forall>w \<in> set ws. w = Exited")
    case True
    then have "length (sh_mrs sh) = ?n" "merged (map ?rec (valid_parts ch)) (sh_mrs sh)" using ok by blast+
    then have "sh_mrs sh = mrs" using m(1,2) merged_unique [of "map ?rec parts" mrs "sh_mrs sh"] by (simp add: merged_def set)
    then show ?thesis using True unfolding req join_unthrown [OF threw] by simp
  next
    case False
    then have "\<exists>k < min threads (length parts). count_list ks k < worker_bound threads (length parts) ?n (length ch)"
      using ok by (meson not_less)
    then show ?thesis unfolding req join_unthrown [OF threw] if_not_P [OF False] by simp
  qed
qed

subsection \<open>Properties\<close>

text \<open>
  C16. The workers merge their records without a lock, and the check for a duplicate match is not atomic with
  the store. When two parts have a match for the same item, one schedule ends with the exception, as
  \<open>process_result\<close> does; in another one both workers look before either stores, so both exit as if nothing
  was wrong, and the record that is stored last replaces the other.
\<close>
theorem duplicate_check_races:
  assumes "process p = Inr [mr]" "process q = Inr [mr']" "mr_found mr" "mr_found mr'"
  shows "\<exists>ks ks'. Threw duplicate_match \<in> set (snd (run_workers process ks (launch_workers 2 2 1 [Some p, Some q]))) \<and>
    snd (run_workers process ks' (launch_workers 2 2 1 [Some p, Some q])) = [Exited, Exited] \<and>
    sh_mrs (fst (run_workers process ks' (launch_workers 2 2 1 [Some p, Some q]))) = [mr']"
proof (intro exI conjI)
  have launch: "launch_workers 2 2 1 [Some p, Some q] =
      (\<lparr>sh_count = 2, sh_channel = [Some p, Some q], sh_mrs = [no_match]\<rparr>, [Check, Check])"
    by (simp add: launch_workers_def numeral_2_eq_2)
  have fresh_record: "\<not> mr_found no_match" by (simp add: no_match_def)
  note eval = run_workers_def results_step_def vec_get_def assms fresh_record
  show "Threw duplicate_match \<in> set (snd (run_workers process ([0, 0, 0, 0, 0, 0] @ [1, 1, 1, 1, 1]) (launch_workers 2 2 1 [Some p, Some q])))"
    unfolding launch by (simp add: eval)
  show "snd (run_workers process ([0, 0, 0, 0] @ [1, 1, 1, 1] @ [0, 1] @ [0, 0, 0, 0] @ [1, 1, 1, 1]) (launch_workers 2 2 1 [Some p, Some q])) = [Exited, Exited]"
    unfolding launch by (simp add: eval)
  show "sh_mrs (fst (run_workers process ([0, 0, 0, 0] @ [1, 1, 1, 1] @ [0, 1] @ [0, 0, 0, 0] @ [1, 1, 1, 1]) (launch_workers 2 2 1 [Some p, Some q]))) = [mr']"
    unfolding launch by (simp add: eval)
qed

theorem duplicate_check_races_witness:
  "\<exists>ks ks'. Threw duplicate_match \<in> set (snd (run_workers (\<lambda>part :: nat. Inr [found_record]) ks (launch_workers 2 2 1 [Some 0, Some 1]))) \<and>
    snd (run_workers (\<lambda>part :: nat. Inr [found_record]) ks' (launch_workers 2 2 1 [Some 0, Some 1])) = [Exited, Exited] \<and>
    sh_mrs (fst (run_workers (\<lambda>part :: nat. Inr [found_record]) ks' (launch_workers 2 2 1 [Some 0, Some 1]))) = [found_record]"
  by (rule duplicate_check_races [of _ 0 found_record 1 found_record]) (simp_all add: found_record_def)

end
