(* ===== verification/ProtocolSpec.thy ===== *)
theory ProtocolSpec
  imports Protocol ReceiverWorkers
begin

text \<open>
  A concrete instance of everything that the guarantees of the protocol assume, and the guarantees.
\<close>

subsection \<open>A concrete session\<close>

text \<open>
  A cuckoo table without evictions: an item takes the first of its locations that is free, and the insertion
  throws when there is none.
\<close>

definition free_location :: "'pt db_library \<Rightarrow> psi_params \<Rightarrow> (item \<times> nat) list \<Rightarrow> item \<Rightarrow> nat option" where
  "free_location lib pp t v = find (\<lambda>loc. loc \<notin> snd ` set t) (all_locations lib (hash_functions lib pp) v)"

definition first_fit :: "'pt db_library \<Rightarrow> psi_params \<Rightarrow> (item \<times> nat) list kuku" where
  "first_fit lib pp = \<lparr>ku_new = (\<lambda>_ _. []),
     ku_insert = (\<lambda>v t. if v \<in> fst ` set t then Inr (False, t)
       else case free_location lib pp t v of None \<Rightarrow> Inl (Runtime_error ''full'') | Some loc \<Rightarrow> Inr (True, (v, loc) # t)),
     ku_leftover_empty = (\<lambda>t. True),
     ku_query = (\<lambda>v t. case map_of t v of None \<Rightarrow> Inr 0 | Some loc \<Rightarrow> Inr loc),
     ku_table = (\<lambda>t. map (\<lambda>loc. case map_of (map (\<lambda>(v, l). (l, v)) t) loc of None \<Rightarrow> zero_item | Some v \<Rightarrow> v)
       [0..<tp_table_size (pp_table_params pp)])\<rparr>"

definition fitted :: "'pt db_library \<Rightarrow> psi_params \<Rightarrow> (item \<times> nat) list \<Rightarrow> item set \<Rightarrow> bool" where
  "fitted lib pp t I \<longleftrightarrow> I = fst ` set t \<and> distinct (map fst t) \<and> distinct (map snd t) \<and>
     (\<forall>(v, loc) \<in> set t. loc \<in> set (all_locations lib (hash_functions lib pp) v))"

lemma first_fit_laws:
  assumes "library_ok lib" "0 < tp_table_size (pp_table_params pp)"
  shows "kuku_laws (first_fit lib pp) (fitted lib pp) lib pp"
proof -
  have small: "loc < tp_table_size (pp_table_params pp)" if "loc \<in> set (all_locations lib (hash_functions lib pp) v)" for loc v
    using that assms by (auto simp: all_locations_def hash_functions_def library_ok_def)
  have free: "loc \<in> set (all_locations lib (hash_functions lib pp) v)" "loc \<notin> snd ` set t" if "free_location lib pp t v = Some loc" for t v loc
    using that by (auto simp: free_location_def find_Some_iff)
  have ins: "fitted lib pp t' (insert v I)" if step: "fitted lib pp t I \<and> ku_insert (first_fit lib pp) v t = Inr (True, t')" for t I v t'
  proof -
    obtain loc where loc: "t' = (v, loc) # t" "v \<notin> fst ` set t" "free_location lib pp t v = Some loc"
      using step by (auto simp: first_fit_def split: if_splits option.splits)
    show ?thesis using step free [OF loc(3)] by (auto simp: fitted_def loc(1,2))
  qed
  have table: "length (ku_table (first_fit lib pp) t) = tp_table_size (pp_table_params pp) \<and>
        set (ku_table (first_fit lib pp) t) \<subseteq> insert zero_item I \<and>
        (\<forall>v \<in> I. \<exists>loc. ku_query (first_fit lib pp) v t = Inr loc \<and> loc < tp_table_size (pp_table_params pp) \<and>
           ku_table (first_fit lib pp) t ! loc = v \<and> loc \<in> set (all_locations lib (hash_functions lib pp) v))" if fit: "fitted lib pp t I" for t I
  proof (intro conjI ballI)
    let ?inv = "map (\<lambda>(v, l). (l, v)) t"
    have inv: "distinct (map fst ?inv)" using fit by (simp add: fitted_def o_def case_prod_unfold)
    show "set (ku_table (first_fit lib pp) t) \<subseteq> insert zero_item I"
      using fit by (auto simp: first_fit_def fitted_def split: option.splits dest!: map_of_SomeD) force
    fix v assume "v \<in> I"
    then obtain loc where loc: "(v, loc) \<in> set t" using fit by (auto simp: fitted_def)
    have "map_of t v = Some loc" using fit loc by (simp add: fitted_def)
    moreover have "map_of ?inv loc = Some v" using inv loc by (intro map_of_is_SomeI) auto
    moreover have "loc \<in> set (all_locations lib (hash_functions lib pp) v)" using fit loc by (auto simp: fitted_def)
    ultimately show "\<exists>loc. ku_query (first_fit lib pp) v t = Inr loc \<and> loc < tp_table_size (pp_table_params pp) \<and>
           ku_table (first_fit lib pp) t ! loc = v \<and> loc \<in> set (all_locations lib (hash_functions lib pp) v)"
      using small [of loc v] by (simp add: first_fit_def)
  qed (simp add: first_fit_def)
  have rep: "v \<in> I \<and> fitted lib pp t' I" if "fitted lib pp t I \<and> ku_insert (first_fit lib pp) v t = Inr (False, t') \<and>
      ku_leftover_empty (first_fit lib pp) t'" for t I v t'
    using that by (auto simp: fitted_def first_fit_def split: if_splits option.splits)
  have new: "fitted lib pp (ku_new (first_fit lib pp) a b) {}" for a b by (simp add: fitted_def first_fit_def)
  show ?thesis unfolding kuku_laws_def
    by (rule conjI [OF new conjI [OF _ conjI]], intro allI impI, erule ins, intro allI impI, erule rep, intro allI impI, erule table)
qed


text \<open>A client whose ciphertexts are the values in the clear, and the loading of such ciphertexts.\<close>

definition toy_client :: "(clear_plaintext, clear_ciphertext, clear_ciphertext, unit) client_crypto" where
  "toy_client = \<lparr>cl_mod = std_ops 13,
     cl_encode = (\<lambda>xs. \<lparr>cp_ntt = False, cp_level = 0, cp_slots = (\<lambda>i. if i < length xs then xs ! i else 0)\<rparr>),
     cl_encryptor = Some (\<lambda>pt. \<lparr>cc_valid = True, cc_ntt = False, cc_level = 1, cc_size = 2, cc_slots = cp_slots pt\<rparr>),
     cl_decryptor = Some (\<lambda>c. Inr (map (cc_slots c) [0..<54])),
     cl_relin_keys = (), cl_using_keyswitching = True, cl_no_keys = (), cl_compr_mode_default = 0\<rparr>"

definition toy_io :: "(clear_ciphertext, clear_ciphertext, unit) seal_io" where
  "toy_io = \<lparr>io_extract = Inr, io_ciphertext_valid = (\<lambda>c. True), io_extract_keys = Inr, io_keys_valid = (\<lambda>k. True), io_no_keys = ()\<rparr>"

lemma toy_client_laws: "client_laws (clear_seal 13 54 1) (clear_view 54 1) toy_io toy_client"
  by (auto simp: client_laws_def toy_client_def toy_io_def clear_seal_def clear_view_def extracts_def ciphertext_is_def)

abbreviation toy_orders :: "powers_dag \<Rightarrow> nat \<Rightarrow> nat list" where
  "toy_orders \<equiv> \<lambda>d B. sort (pd_target_powers d)"

lemma toy_session_fits:
  "session_fits (clear_seal 13 54 1) (clear_view 54 1) toy_library toy_params (first_fit toy_library toy_params) toy_client toy_io toy_orders"
  unfolding session_fits_def
proof (intro conjI exI)
  show "powers_fit toy_params" using toy_params_fit by (simp add: powers_fit_def params_fit_def) (simp add: toy_params_def)
  show "keys_fit (clear_seal 13 54 1) toy_params" by (simp add: keys_fit_def clear_seal_def)
  show "kuku_laws (first_fit toy_library toy_params) (fitted toy_library toy_params) toy_library toy_params"
    by (rule first_fit_laws [OF toy_library_ok]) (simp add: toy_params_def)
  show "qp_ps_low_degree (pp_query_params toy_params) \<noteq> 1" by (simp add: toy_params_def)
qed (rule toy_library_ok toy_params_fit clear_compression toy_client_laws sorted_scheduler)+

text \<open>Hashes whose first bits differ have different field elements.\<close>

lemma toy_felts:
  assumes "item_wf h" "item_wf h'" "bit_at h 0 \<noteq> bit_at h' 0"
  shows "item_felts toy_params h ! 0 \<noteq> item_felts toy_params h' ! 0"
proof -
  have "bit (item_felts toy_params v ! 0) 0 = bit_at v 0" if v: "item_wf v" for v
  proof -
    let ?m = "sp_plain_modulus (pp_seal_params toy_params)"
    have m: "usable_modulus ?m" "mod_bit_count ?m = 4" by (simp_all add: toy_params_def usable_modulus_def mod_is_zero_def)
    obtain fs where fs: "algebraize_item v 81 ?m = Inr fs" "length fs = felt_count 81 ?m"
      "\<forall>i < length fs. \<forall>j < 64. bit (fs ! i) j = (j < mod_bit_count ?m - 1 \<and> i * (mod_bit_count ?m - 1) + j < 81 \<and>
         bit_at v (i * (mod_bit_count ?m - 1) + j))"
      using algebraize_item_ok [OF v m(1), of 81] by fastforce
    have "0 < length fs" using fs(2) m(2) by (simp add: felt_count_def)
    then have "bit (fs ! 0) 0 = bit_at v 0" using fs(3) m(2) by simp
    moreover have "item_felts toy_params v = fs" using fs(1) by (simp add: item_felts_def) (simp add: toy_params_def)
    ultimately show ?thesis by simp
  qed
  then show ?thesis using assms by metis
qed

text \<open>A database that holds one item, and a query for it and for another one.\<close>

lemma toy_stored:
  "\<exists>db. db_stores (clear_seal 13 54 1) toy_library toy_params {[5]} db \<and> (\<forall>n < 17. hash_of toy_library db [of_nat n] = of_nat (3 * n mod 17) # replicate 15 0)"
proof -
  obtain db :: "clear_plaintext sender_db" where db: "make_sender_db toy_params toy_key 0 0 = Inr db" "db_params db = toy_params" "db_oprf_key db = toy_key"
    by (simp add: make_sender_db_def db_clear_def clear_internal_def)
  obtain db' where db': "insert_or_assign_unlabeled (clear_seal 13 54 1) toy_library (\<lambda>_ _ _. 0) [[5]] db = Inr db'" "db_oprf_key db' = db_oprf_key db"
  proof -
    have "params_fit (clear_seal 13 54 1) (clear_view 54 1) (db_params db)" using toy_params_fit by (simp only: db(2))
    from insert_unlabeled_ok [OF toy_library_ok this make_db_ok [OF db(1)], of "\<lambda>_ _ _. 0" "[[5]]"] show thesis using that by blast
  qed
  have "db_stores (clear_seal 13 54 1) toy_library toy_params ({} \<union> set [[5]]) db'"
    by (rule stores_inserted [OF stores_created [OF db(1)] db'(1)])
  moreover have "hash_of toy_library db' [of_nat n] = of_nat (3 * n mod 17) # replicate 15 0" if "n < 17" for n
    using toy_hash [OF that] db'(2) db(3) by (simp add: hash_of_def) (simp add: toy_library_def)
  ultimately show ?thesis by auto
qed

lemma toy_two_hashes:
  assumes "\<forall>n < 17. hash_of toy_library db [of_nat n] = of_nat (3 * n mod 17) # replicate 15 0"
  shows "hash_of toy_library db [0] = zero_item" "hash_of toy_library db [5] = 15 # replicate 15 0"
    "\<exists>t. hashes_inserted (first_fit toy_library toy_params) toy_params (map (hash_of toy_library db) [[0], [5]]) = Inr t"
    "inj_on (hash_of toy_library db) ({[5]} \<union> set [[0], [5]])"
    "tell_apart toy_params (hash_of toy_library db ` {[5]}) (map (hash_of toy_library db) [[0], [5]])"
proof -
  show h: "hash_of toy_library db [0] = zero_item" "hash_of toy_library db [5] = 15 # replicate 15 0"
    using assms [rule_format, of 0] assms [rule_format, of 5] by (simp_all add: zero_item_def flip: replicate_Suc)
  have "hd zero_item \<noteq> hd ((15 :: byte) # replicate 15 0)" by (simp add: zero_item_def)
  then have ne: "zero_item \<noteq> 15 # replicate 15 0" by metis
  show "inj_on (hash_of toy_library db) ({[5]} \<union> set [[0], [5]])" using ne by (simp add: h)
  have loc: "all_locations toy_library (hash_functions toy_library toy_params) v = [if v = zero_item then 0 else 3]" for v
    by (simp add: all_locations_def hash_functions_def toy_library_def toy_params_def upt_rec)
  show "\<exists>t. hashes_inserted (first_fit toy_library toy_params) toy_params (map (hash_of toy_library db) [[0], [5]]) = Inr t"
    using ne by (simp add: hashes_inserted_def cuckoo_insert_all_def h) (simp add: first_fit_def free_location_def loc)
  have wf: "item_wf zero_item" "item_wf (15 # replicate 15 0)" by (simp_all add: item_wf_def zero_item_def)
  have "bit_at zero_item 0 \<noteq> bit_at (15 # replicate 15 0) 0" by (simp add: bit_at_def zero_item_def)
  from toy_felts [OF wf this] have "item_felts toy_params zero_item ! 0 \<noteq> item_felts toy_params (15 # replicate 15 0) ! 0" .
  then show "tell_apart toy_params (hash_of toy_library db ` {[5]}) (map (hash_of toy_library db) [[0], [5]])"
    by (auto simp: tell_apart_def h toy_params_def intro!: exI [of _ 0])
qed

lemma toy_oprf_fits: "oprf_fits toy_library (\<lambda>_. toy_key) [[0], [5]]"
  using toy_laws by (auto simp: oprf_fits_def toy_library_def)

lemma toy_session:
  "\<exists>db rc keys req itt parts mrs. db_stores (clear_seal 13 54 1) toy_library toy_params {[5]} db \<and>
    make_receiver toy_client toy_params = Some (Inr rc) \<and>
    create_query (first_fit toy_library toy_params) toy_client rc (map (hash_of toy_library db) [[0], [5]]) = Inr (req, itt) \<and>
    process_result toy_client (dl_xof toy_library) (dl_undefined_shift toy_library) (rc_params rc) keys itt (map Some parts) = Inr mrs \<and>
    \<not> mr_found (mrs ! 0) \<and> mr_found (mrs ! 1)"
proof -
  obtain db where db: "db_stores (clear_seal 13 54 1) toy_library toy_params {[5]} db"
    "\<forall>n < 17. hash_of toy_library db [of_nat n] = of_nat (3 * n mod 17) # replicate 15 0" using toy_stored by blast
  note two = toy_two_hashes [OF db(2)]
  have "powers_fit toy_params" using toy_session_fits by (simp add: session_fits_def)
  then obtain rc where rc: "make_receiver toy_client toy_params = Some (Inr rc)" using make_receiver_ok by blast
  have rnd: "process_items (dl_fourq toy_library) (\<lambda>_. toy_key) [[0], [5]] \<noteq> None"
    using toy_items [of "[[0], [5]]"] by (auto simp: toy_library_def)
  have small: "card {[5 :: byte]} * tp_hash_func_count (pp_table_params toy_params) < 2 ^ 32" by (simp add: toy_params_def)
  let ?hs = "map (hash_of toy_library db) [[0], [5]]"
  obtain r where r: "psi_run (first_fit toy_library toy_params) toy_client toy_io toy_library (clear_seal 13 54 1) toy_orders db rc (\<lambda>_. toy_key) [[0], [5]] = Some r"
    "psi_outcome toy_library toy_params (hash_of toy_library db ` {[5]}) ?hs r"
    using psi_run_ok [OF toy_session_fits toy_oprf_fits db(1) small rc rnd] two(3) by auto
  obtain mrs where m: "r = Inr mrs" "\<forall>i < length ?hs. mr_found (mrs ! i) \<longleftrightarrow> last_index ?hs i \<and> ?hs ! i \<in> hash_of toy_library db ` {[5]}"
    using outcome_exact [OF r(2) two(5)] by blast
  have distinct: "?hs ! 0 \<noteq> ?hs ! 1" using two(4) by (auto simp: inj_on_def)
  have found: "\<not> mr_found (mrs ! 0)" "mr_found (mrs ! 1)" using m(2) distinct by (auto simp: last_index_def less_Suc_eq)
  have lib: "library_ok toy_library" by (rule toy_library_ok)
  have "\<not> db_stripped db" using stores_ok [OF db(1) lib toy_params_fit] reachable_ok [OF _ lib toy_params_fit] by (auto simp: db_ok_def)
  from psi_run_session [OF lib toy_oprf_fits this rnd] obtain keys where
    "query_session (first_fit toy_library toy_params) toy_client toy_io (dl_xof toy_library) (dl_undefined_shift toy_library) (clear_seal 13 54 1)
      toy_orders db rc keys ?hs = Some (Inr mrs)" using r(1) m(1) by metis
  then have "\<exists>req itt parts. create_query (first_fit toy_library toy_params) toy_client rc ?hs = Inr (req, itt) \<and>
      process_result toy_client (dl_xof toy_library) (dl_undefined_shift toy_library) (rc_params rc) keys itt (map Some parts) = Inr mrs"
    by (auto simp: query_session_def result_simps split: sum.splits)
  then show ?thesis using db(1) rc found by blast
qed

subsection \<open>Properties\<close>

text \<open>
  C1. The protocol computes the intersection. The receiver's items are hashed obliviously, the hashes put
  into the cuckoo table, and their encrypted powers sent; the sender, whose database holds the items \<open>V\<close>
  after any history of operations, answers; and the receiver reads the match records off. If the hashes
  fit in the cuckoo table and no two items have the same hash or can be confused by their field elements,
  the run returns, and exactly the items of \<open>V\<close> are found, each at its last position in the query.
\<close>
theorem psi_computes_intersection:
  assumes "session_fits se v lib pp ku cl io orders" and "oprf_fits lib rnd items"
    and "db_stores se lib pp V db" and "card V * tp_hash_func_count (pp_table_params pp) < 2 ^ 32"
    and "make_receiver cl pp = Some (Inr rc)" and "process_items (dl_fourq lib) rnd items \<noteq> None"
    and "hashes_inserted ku pp (map (hash_of lib db) items) = Inr t"
    and "inj_on (hash_of lib db) (V \<union> set items)"
    and "tell_apart pp (hash_of lib db ` V) (map (hash_of lib db) items)"
  shows "\<exists>mrs. psi_run ku cl io lib se orders db rc rnd items = Some (Inr mrs) \<and> length mrs = length items \<and>
    (\<forall>i < length items. mr_found (mrs ! i) \<longleftrightarrow> items ! i \<in> V \<and> last_index items i) \<and>
    {items ! i | i. i < length items \<and> mr_found (mrs ! i)} = set items \<inter> V"
proof -
  let ?hs = "map (hash_of lib db) items"
  obtain r where r: "psi_run ku cl io lib se orders db rc rnd items = Some r" "psi_outcome lib pp (hash_of lib db ` V) ?hs r"
    using psi_run_ok [OF assms(1-6)] assms(7) by auto
  obtain mrs where m: "r = Inr mrs" "length mrs = length ?hs"
    "\<forall>i < length ?hs. mr_found (mrs ! i) \<longleftrightarrow> last_index ?hs i \<and> ?hs ! i \<in> hash_of lib db ` V"
    using outcome_exact [OF r(2) assms(9)] by blast
  have each: "mr_found (mrs ! i) \<longleftrightarrow> items ! i \<in> V \<and> last_index items i" if i: "i < length items" for i
    by (rule found_items [OF assms(8) m(3) i])
  then have "{items ! i | i. i < length items \<and> mr_found (mrs ! i)} = set items \<inter> V"
    using last_index_of [of _ items] by fastforce
  then show ?thesis using r(1) m(1,2) each by auto
qed

theorem psi_computes_intersection_witness:
  "\<exists>db rc mrs. db_stores (clear_seal 13 54 1) toy_library toy_params {[5]} db \<and> make_receiver toy_client toy_params = Some (Inr rc) \<and>
    psi_run (first_fit toy_library toy_params) toy_client toy_io toy_library (clear_seal 13 54 1) toy_orders db rc (\<lambda>_. toy_key) [[0], [5]] =
      Some (Inr mrs) \<and> \<not> mr_found (mrs ! 0) \<and> mr_found (mrs ! 1)"
proof -
  obtain db where db: "db_stores (clear_seal 13 54 1) toy_library toy_params {[5]} db"
    "\<forall>n < 17. hash_of toy_library db [of_nat n] = of_nat (3 * n mod 17) # replicate 15 0" using toy_stored by blast
  note two = toy_two_hashes [OF db(2)]
  obtain t where t: "hashes_inserted (first_fit toy_library toy_params) toy_params (map (hash_of toy_library db) [[0], [5]]) = Inr t" using two(3) by blast
  have "powers_fit toy_params" using toy_session_fits by (simp add: session_fits_def)
  then obtain rc where rc: "make_receiver toy_client toy_params = Some (Inr rc)" using make_receiver_ok by blast
  have rnd: "process_items (dl_fourq toy_library) (\<lambda>_. toy_key) [[0], [5]] \<noteq> None"
    using toy_items [of "[[0], [5]]"] by (auto simp: toy_library_def)
  have small: "card {[5 :: byte]} * tp_hash_func_count (pp_table_params toy_params) < 2 ^ 32" by (simp add: toy_params_def)
  obtain mrs where "psi_run (first_fit toy_library toy_params) toy_client toy_io toy_library (clear_seal 13 54 1) toy_orders db rc (\<lambda>_. toy_key) [[0], [5]] =
      Some (Inr mrs)" "\<forall>i < length [[0], [5 :: byte]]. mr_found (mrs ! i) \<longleftrightarrow> [[0], [5]] ! i \<in> {[5 :: byte]} \<and> last_index [[0], [5]] i"
    using psi_computes_intersection [OF toy_session_fits toy_oprf_fits db(1) small rc rnd t two(4,5)] by blast
  then show ?thesis using db(1) rc by (force simp: last_index_def less_Suc_eq)
qed

text \<open>
  C2. Without any assumption on the hashes, a run that draws its scalars returns one of three outcomes. When the hashes do not
  fit in the cuckoo table, it is the error of the insertion. Otherwise it is either the match records, where no stored
  item is missed and every match is made of field elements of stored hashes at one location of the item; or
  the error of a duplicate match, and then at one location of a queried item each of its field elements
  is shared by two different stored hashes.
\<close>
theorem psi_outcome_explained:
  assumes "session_fits se v lib pp ku cl io orders" and "oprf_fits lib rnd items"
    and "db_stores se lib pp V db" and "card V * tp_hash_func_count (pp_table_params pp) < 2 ^ 32"
    and "make_receiver cl pp = Some (Inr rc)" and "process_items (dl_fourq lib) rnd items \<noteq> None"
  shows "\<exists>r. psi_run ku cl io lib se orders db rc rnd items = Some r \<and>
    (case hashes_inserted ku pp (map (hash_of lib db) items) of Inl e \<Rightarrow> r = Inl e
     | Inr t \<Rightarrow> psi_outcome lib pp (hash_of lib db ` V) (map (hash_of lib db) items) r)"
  by (rule psi_run_ok [OF assms])

theorem psi_outcome_explained_witness:
  "\<exists>db rc r. db_stores (clear_seal 13 54 1) toy_library toy_params {[5]} db \<and> make_receiver toy_client toy_params = Some (Inr rc) \<and>
    psi_run (first_fit toy_library toy_params) toy_client toy_io toy_library (clear_seal 13 54 1) toy_orders db rc (\<lambda>_. toy_key) [[0], [5]] = Some r \<and>
    psi_outcome toy_library toy_params (hash_of toy_library db ` {[5]}) (map (hash_of toy_library db) [[0], [5]]) r"
proof -
  obtain db where db: "db_stores (clear_seal 13 54 1) toy_library toy_params {[5]} db"
    "\<forall>n < 17. hash_of toy_library db [of_nat n] = of_nat (3 * n mod 17) # replicate 15 0" using toy_stored by blast
  obtain t where t: "hashes_inserted (first_fit toy_library toy_params) toy_params (map (hash_of toy_library db) [[0], [5]]) = Inr t"
    using toy_two_hashes(3) [OF db(2)] by blast
  have "powers_fit toy_params" using toy_session_fits by (simp add: session_fits_def)
  then obtain rc where rc: "make_receiver toy_client toy_params = Some (Inr rc)" using make_receiver_ok by blast
  have rnd: "process_items (dl_fourq toy_library) (\<lambda>_. toy_key) [[0], [5]] \<noteq> None"
    using toy_items [of "[[0], [5]]"] by (auto simp: toy_library_def)
  have small: "card {[5 :: byte]} * tp_hash_func_count (pp_table_params toy_params) < 2 ^ 32" by (simp add: toy_params_def)
  show ?thesis
    using psi_outcome_explained [OF toy_session_fits toy_oprf_fits db(1) small rc rnd] db(1) rc t by auto
qed

text \<open>
  C5. The result workers compute what the sequential processing computes. Whatever the number of threads,
  the order in which the parts arrive, the rejected messages between them, and the schedule: if \<open>process_result\<close> on
  the parts returns match records, then no worker throws, a request whose workers have all returned
  has the same match records, and the workers have all returned once each of them has been scheduled a bounded
  number of times.
\<close>
theorem request_query_equiv:
  assumes "create_query ku cl rc items = Inr (req, itt)" and "respond req = (length parts, ch)"
    and "mset (valid_parts ch) = mset parts"
    and "process_result cl blake2xb ub_shl (rc_params rc) label_keys itt (map Some parts) = Inr mrs"
    and "0 < threads" and "set ks \<subseteq> {..<min threads (length parts)}"
  shows "case request_query ku cl blake2xb ub_shl rc threads respond ks items label_keys of
      None \<Rightarrow> \<exists>k < min threads (length parts). count_list ks k < worker_bound threads (length parts) (itt_item_count itt) (length ch)
    | Some r \<Rightarrow> r = Inr mrs"
  using assms by (rule request_query_ok [where respond = respond])

lemma count_rounds: "k < n \<Longrightarrow> count_list (concat (replicate N [0..<n])) k = N"
proof (induction N)
  case (Suc N)
  have "count_list [0..<m] k = (if k < m then 1 else 0)" for m by (induction m) auto
  then show ?case using Suc by simp
qed simp

theorem request_query_equiv_witness:
  "\<exists>db rc keys respond ks mrs. db_stores (clear_seal 13 54 1) toy_library toy_params {[5]} db \<and>
    make_receiver toy_client toy_params = Some (Inr rc) \<and>
    request_query (first_fit toy_library toy_params) toy_client (dl_xof toy_library) (dl_undefined_shift toy_library) rc 2 respond ks
      (map (hash_of toy_library db) [[0], [5]]) keys = Some (Inr mrs) \<and> \<not> mr_found (mrs ! 0) \<and> mr_found (mrs ! 1)"
proof -
  obtain db rc keys req itt parts mrs where t: "db_stores (clear_seal 13 54 1) toy_library toy_params {[5]} db"
    "make_receiver toy_client toy_params = Some (Inr rc)"
    "create_query (first_fit toy_library toy_params) toy_client rc (map (hash_of toy_library db) [[0], [5]]) = Inr (req, itt)"
    "process_result toy_client (dl_xof toy_library) (dl_undefined_shift toy_library) (rc_params rc) keys itt (map Some parts) = Inr mrs"
    "\<not> mr_found (mrs ! 0)" "mr_found (mrs ! 1)" using toy_session by blast
  let ?ch = "None # map Some (rev parts)"
  let ?n = "min 2 (length parts)"
  let ?ks = "concat (replicate (worker_bound 2 (length parts) (itt_item_count itt) (length ?ch)) [0..<?n])"
  let ?respond = "\<lambda>_. (length parts, ?ch)"
  have "valid_parts (map Some ps) = ps" for ps :: "clear_ciphertext result_package list" by (induction ps) simp_all
  then have ch: "mset (valid_parts ?ch) = mset parts" by simp
  have ks: "set ?ks \<subseteq> {..<?n}" by auto
  have "\<not> (\<exists>k < ?n. count_list ?ks k < worker_bound 2 (length parts) (itt_item_count itt) (length ?ch))"
    using count_rounds [of _ ?n] by (metis less_irrefl)
  then have "request_query (first_fit toy_library toy_params) toy_client (dl_xof toy_library) (dl_undefined_shift toy_library) rc 2 ?respond ?ks
      (map (hash_of toy_library db) [[0], [5]]) keys = Some (Inr mrs)"
    using request_query_equiv [where respond = ?respond and threads = 2, OF t(3) refl ch t(4) _ ks] by (auto split: option.splits)
  then show ?thesis using t by blast
qed

text \<open>
  C17. The sender takes a query to be valid exactly when it passes every check. For a request whose powers are
  distinct, the constructor of a query returns; the query is valid exactly when the relinearization keys, where they are used,
  and all ciphertexts load and are valid, the powers are those of the parameters, and there is one ciphertext
  for each bundle index; and then it has the extracted ciphertexts and a valid plan for exactly the powers that the
  evaluation needs.
\<close>
theorem make_query_checks:
  assumes "powers_fit pp" and "distinct (map fst (qr_data req))"
  shows "\<exists>r. make_query io using_keyswitching (Some req) (Some pp) = Some r \<and>
    ((\<exists>q. r = Inr q \<and> qu_valid q) \<longleftrightarrow> request_ok io using_keyswitching pp req) \<and>
    (\<forall>q. r = Inr q \<and> qu_valid q \<longrightarrow> query_ok pp q \<and> list_all2 (row_extracts io) (qr_data req) (qu_data q))"
  by (rule make_query_ok [OF assms])

theorem make_query_checks_witness:
  "\<exists>(c :: clear_ciphertext) q r. make_query toy_io True
      (Some \<lparr>qr_compr_mode = 0, qr_relin_keys = (), qr_data = map (\<lambda>p. (p, [c, c])) [1, 2, 3, 4, 5]\<rparr>) (Some toy_params) = Some (Inr q) \<and>
    qu_valid q \<and> set (pd_target_powers (qu_pd q)) = {1..5} \<and>
    make_query toy_io True
      (Some \<lparr>qr_compr_mode = 0, qr_relin_keys = (), qr_data = map (\<lambda>p. (p, [c, c])) [1, 2, 3, 4]\<rparr>) (Some toy_params) = Some r \<and>
    \<not> (\<exists>q. r = Inr q \<and> qu_valid q)"
proof -
  have fit: "powers_fit toy_params" using toy_session_fits by (simp add: session_fits_def)
  obtain c :: clear_ciphertext where True by blast
  let ?req = "\<lambda>ps. \<lparr>qr_compr_mode = 0, qr_relin_keys = (), qr_data = map (\<lambda>p. (p, [c, c])) ps\<rparr>"
  have "distinct (map fst (qr_data (?req [1, 2, 3, 4, 5])))" by simp
  from make_query_checks [OF fit this, of toy_io True]
  obtain r1 where r1: "make_query toy_io True (Some (?req [1, 2, 3, 4, 5])) (Some toy_params) = Some r1"
    "(\<exists>q. r1 = Inr q \<and> qu_valid q) \<longleftrightarrow> request_ok toy_io True toy_params (?req [1, 2, 3, 4, 5])"
    "\<forall>q. r1 = Inr q \<and> qu_valid q \<longrightarrow> query_ok toy_params q" by blast
  have "request_ok toy_io True toy_params (?req [1, 2, 3, 4, 5])" by (simp add: request_ok_def toy_io_def) (simp add: toy_params_def)
  then obtain q where q: "r1 = Inr q" "qu_valid q" using r1(2) by blast
  then have "query_ok toy_params q" using r1(3) by blast
  then have "set (pd_target_powers (qu_pd q)) = power_targets 0 5" by (simp add: query_ok_def Let_def) (simp add: toy_params_def)
  then have targets: "set (pd_target_powers (qu_pd q)) = {1..5}" by (auto simp: power_targets_def)
  have "distinct (map fst (qr_data (?req [1, 2, 3, 4])))" by simp
  from make_query_checks [OF fit this, of toy_io True]
  obtain r2 where r2: "make_query toy_io True (Some (?req [1, 2, 3, 4])) (Some toy_params) = Some r2"
    "(\<exists>q. r2 = Inr q \<and> qu_valid q) \<longleftrightarrow> request_ok toy_io True toy_params (?req [1, 2, 3, 4])" by blast
  have "5 \<in> set (qp_query_powers (pp_query_params toy_params))" by (simp add: toy_params_def)
  moreover have "5 \<notin> fst ` set (qr_data (?req [1, 2, 3, 4]))" by simp
  ultimately have "\<not> request_ok toy_io True toy_params (?req [1, 2, 3, 4])" unfolding request_ok_def by blast
  then show ?thesis using r1(1) q targets r2 by blast
qed

end
