(* ===== verification/Channels.thy ===== *)
theory Channels
  imports Wire
begin

text \<open>
  The two channels between a receiver and a sender: \<open>StreamChannel\<close> (\<open>common/apsi/network/stream_channel.cpp\<close>), which
  writes messages to a stream of bytes one after the other, and \<open>ZMQChannel\<close> (\<open>common/apsi/network/zmq/zmq_channel.cpp\<close>),
  whose messages are lists of frames.
\<close>

subsection \<open>Headers and bodies\<close>

fun is_runtime_error :: "exn \<Rightarrow> bool" where
  "is_runtime_error (Runtime_error w) = True"
| "is_runtime_error e = False"

fun is_argument_or_runtime_error :: "exn \<Rightarrow> bool" where
  "is_argument_or_runtime_error (Invalid_argument w) = True"
| "is_argument_or_runtime_error (Runtime_error w) = True"
| "is_argument_or_runtime_error e = False"

text \<open>
  A load whose exceptions of the class \<open>p\<close> are caught and make the caller return a null pointer; with the number
  of bytes that were received.
\<close>

definition catching :: "(exn \<Rightarrow> bool) \<Rightarrow> (istream \<times> ('a \<times> nat) res) option \<Rightarrow> (istream \<times> nat \<times> 'a option res) option" where
  "catching p m = map_option (\<lambda>(s, r). case r of
       Inl e \<Rightarrow> (s, 0, if p e then Inr None else Inl e)
     | Inr (x, n) \<Rightarrow> (s, n, Inr (Some x))) m"

text \<open>The header, its version, and its type if that is the expected one.\<close>

definition accept_header :: "flatbuffers \<Rightarrow> u32 \<Rightarrow> istream \<Rightarrow> (istream \<times> nat \<times> u32 option res) option" where
  "accept_header fb expected s =
     map_option (\<lambda>(s', n, r). (s', n, bind_res r (\<lambda>header. case header of
         None \<Rightarrow> Inr None
       | Some sop_header \<Rightarrow>
           if \<not> same_serialization_version (ht_version sop_header) then Inr None
           else if expected \<noteq> sop_unknown \<and> expected \<noteq> ht_type sop_header then Inr None
           else Inr (Some (ht_type sop_header)))))
       (catching is_runtime_error (load_header fb s))"

definition load_operation :: "flatbuffers \<Rightarrow> ('o, 'c, 'k) seal_codec \<Rightarrow> seal_context option \<Rightarrow> u32 \<Rightarrow> istream \<Rightarrow>
   (istream \<times> nat \<times> ('o, 'k) sender_operation option res) option" where
  "load_operation fb sc context type s =
     (if type = sop_parms then catching is_argument_or_runtime_error (load_parms fb None s)
      else if type = sop_oprf then catching is_argument_or_runtime_error (load_oprf fb None s)
      else if type = sop_query then catching is_argument_or_runtime_error (load_query fb sc context s)
      else Some (s, 0, Inr None))"

text \<open>Of a response, only runtime errors are caught.\<close>

definition load_response :: "flatbuffers \<Rightarrow> ('o, 'c, 'k) seal_codec \<Rightarrow> u32 \<Rightarrow> istream \<Rightarrow> (istream \<times> nat \<times> sender_response option res) option" where
  "load_response fb sc type s =
     (if type = sop_parms then catching is_runtime_error (load_parms_response fb sc s)
      else if type = sop_oprf then catching is_runtime_error (load_oprf_response fb s)
      else if type = sop_query then catching is_runtime_error (load_query_response fb s)
      else Some (s, 0, Inr None))"

definition header_of :: "u32 \<Rightarrow> header_table" where
  "header_of type = \<lparr>ht_version = apsi_serialization_version, ht_type = type\<rparr>"

definition valid_context :: "seal_context option \<Rightarrow> bool" where
  "valid_context context \<longleftrightarrow> (case context of None \<Rightarrow> False | Some cx \<Rightarrow> cx_parameters_set cx)"

subsection \<open>The stream channel\<close>

record stream_channel =
  st_in :: istream
  st_out :: "byte list"
  st_sent :: nat
  st_received :: nat

definition stream_write :: "byte list \<Rightarrow> stream_channel \<Rightarrow> stream_channel" where
  "stream_write bs ch = ch\<lparr>st_out := st_out ch @ bs, st_sent := wrap64 (st_sent ch + length bs)\<rparr>"

definition stream_send_operation :: "flatbuffers \<Rightarrow> ('o, 'c, 'k) seal_codec \<Rightarrow> ('o, 'k) sender_operation option \<Rightarrow>
   stream_channel \<Rightarrow> stream_channel \<times> unit res" where
  "stream_send_operation fb sc sop ch =
     (case sop of
        None \<Rightarrow> (ch, Inl (Invalid_argument ''operation data is missing''))
      | Some op \<Rightarrow>
          (stream_write (save_operation fb sc op) (stream_write (save_header fb (header_of (operation_type op))) ch), Inr ()))"

text \<open>The header of a response is written before its body can throw.\<close>

definition stream_send_response :: "flatbuffers \<Rightarrow> ('o, 'c, 'k) seal_codec \<Rightarrow> sender_response option \<Rightarrow>
   stream_channel \<Rightarrow> stream_channel \<times> unit res" where
  "stream_send_response fb sc sop_response ch =
     (case sop_response of
        None \<Rightarrow> (ch, Inl (Invalid_argument ''response data is missing''))
      | Some re \<Rightarrow>
          let ch' = stream_write (save_header fb (header_of (response_type re))) ch
          in case save_response fb sc re of
               Inl e \<Rightarrow> (ch', Inl e)
             | Inr bs \<Rightarrow> (stream_write bs ch', Inr ()))"

definition stream_send_result :: "flatbuffers \<Rightarrow> ('o, 'c, 'k) seal_codec \<Rightarrow> 'c result_package option \<Rightarrow>
   stream_channel \<Rightarrow> stream_channel \<times> unit res" where
  "stream_send_result fb sc rp ch =
     (case rp of
        None \<Rightarrow> (ch, Inl (Invalid_argument ''result package data is missing''))
      | Some rp \<Rightarrow>
          (case save_result fb sc rp of
             Inl e \<Rightarrow> (ch, Inl e)
           | Inr bs \<Rightarrow> (stream_write bs ch, Inr ())))"

definition stream_advance :: "stream_channel \<Rightarrow> istream \<times> nat \<times> 'a option res \<Rightarrow> stream_channel \<times> 'a option res" where
  "stream_advance ch r = (case r of (s, n, x) \<Rightarrow> (ch\<lparr>st_in := s, st_received := wrap64 (st_received ch + n)\<rparr>, x))"

text \<open>A message with a header, whose type says how the body is loaded.\<close>

definition stream_receive :: "flatbuffers \<Rightarrow> u32 \<Rightarrow> (u32 \<Rightarrow> istream \<Rightarrow> (istream \<times> nat \<times> 'a option res) option) \<Rightarrow> stream_channel \<Rightarrow>
   (stream_channel \<times> 'a option res) option" where
  "stream_receive fb expected load ch =
     (case accept_header fb expected (st_in ch) of
        None \<Rightarrow> None
      | Some (s, n, Inl e) \<Rightarrow> Some (stream_advance ch (s, n, Inl e))
      | Some (s, n, Inr None) \<Rightarrow> Some (stream_advance ch (s, n, Inr None))
      | Some (s, n, Inr (Some type)) \<Rightarrow> map_option (stream_advance (fst (stream_advance ch (s, n, Inr (None :: 'a option))))) (load type s))"

definition stream_receive_operation :: "flatbuffers \<Rightarrow> ('o, 'c, 'k) seal_codec \<Rightarrow> seal_context option \<Rightarrow> u32 \<Rightarrow> stream_channel \<Rightarrow>
   (stream_channel \<times> ('o, 'k) sender_operation option res) option" where
  "stream_receive_operation fb sc context expected ch =
     (if \<not> valid_context context \<and> (expected = sop_unknown \<or> expected = sop_query) then Some (ch, Inr None)
      else stream_receive fb expected (load_operation fb sc context) ch)"

definition stream_receive_response :: "flatbuffers \<Rightarrow> ('o, 'c, 'k) seal_codec \<Rightarrow> u32 \<Rightarrow> stream_channel \<Rightarrow>
   (stream_channel \<times> sender_response option res) option" where
  "stream_receive_response fb sc expected ch = stream_receive fb expected (load_response fb sc) ch"

definition stream_receive_result :: "flatbuffers \<Rightarrow> ('o, 'c, 'k) seal_codec \<Rightarrow> seal_context option \<Rightarrow> stream_channel \<Rightarrow>
   (stream_channel \<times> 'c result_package option res) option" where
  "stream_receive_result fb sc context ch =
     (if \<not> valid_context context then Some (ch, Inr None)
      else map_option (stream_advance ch) (catching is_argument_or_runtime_error (load_result fb sc context (st_in ch))))"

subsection \<open>The ZeroMQ channel\<close>

text \<open>
  The socket is the messages that wait to be received, and those that were sent; a channel is connected when it has
  an end point. The context is gone after a disconnection.
\<close>

type_synonym zmq_message = "byte list list"

record zmq_channel =
  zc_end_point :: string
  zc_socket :: bool
  zc_context :: bool
  zc_inbox :: "zmq_message list"
  zc_outbox :: "zmq_message list"
  zc_sent :: nat
  zc_received :: nat

definition zmq_open :: zmq_channel where
  "zmq_open = \<lparr>zc_end_point = [], zc_socket = False, zc_context = True, zc_inbox = [], zc_outbox = [], zc_sent = 0, zc_received = 0\<rparr>"

definition is_connected :: "zmq_channel \<Rightarrow> bool" where
  "is_connected ch \<longleftrightarrow> zc_end_point ch \<noteq> []"

definition throw_if_not_connected :: "zmq_channel \<Rightarrow> unit res" where
  "throw_if_not_connected ch = (if is_connected ch then Inr () else Inl (Runtime_error ''socket is not connected''))"

definition throw_if_connected :: "zmq_channel \<Rightarrow> unit res" where
  "throw_if_connected ch = (if is_connected ch then Inl (Runtime_error ''socket is already connected'') else Inr ())"

text \<open>A socket is made from the context, which may be a null pointer.\<close>

definition get_socket :: "zmq_channel \<Rightarrow> zmq_channel res" where
  "get_socket ch =
     (if zc_socket ch then Inr ch
      else if \<not> zc_context ch then Inl Undefined
      else Inr (ch\<lparr>zc_socket := True\<rparr>))"

text \<open>\<open>bind\<close> and \<open>connect\<close> differ in the call to the socket; \<open>ok\<close> says whether ZeroMQ accepts the end point.\<close>

definition zmq_attach :: "bool \<Rightarrow> string \<Rightarrow> zmq_channel \<Rightarrow> zmq_channel \<times> unit res" where
  "zmq_attach ok end_point ch =
     (case throw_if_connected ch of
        Inl e \<Rightarrow> (ch, Inl e)
      | Inr _ \<Rightarrow>
          let ch' = ch\<lparr>zc_end_point := end_point\<rparr>
          in case get_socket ch' of
               Inl e \<Rightarrow> (ch', Inl e)
             | Inr ch'' \<Rightarrow> (ch'', if ok then Inr () else Inl (Runtime_error ''zmq::error_t'')))"

definition zmq_disconnect :: "zmq_channel \<Rightarrow> zmq_channel \<times> unit res" where
  "zmq_disconnect ch =
     (case throw_if_not_connected ch of
        Inl e \<Rightarrow> (ch, Inl e)
      | Inr _ \<Rightarrow> (ch\<lparr>zc_end_point := [], zc_socket := False, zc_context := False\<rparr>, Inr ()))"

text \<open>Sending a message, of whose frames \<open>n\<close> bytes count.\<close>

definition send_message :: "zmq_message \<Rightarrow> nat \<Rightarrow> zmq_channel \<Rightarrow> zmq_channel" where
  "send_message msg n ch = ch\<lparr>zc_outbox := zc_outbox ch @ [msg], zc_sent := wrap64 (zc_sent ch + n)\<rparr>"

text \<open>
  Receiving a message. Without waiting there may be none, which is \<open>Some (ch, None)\<close>; \<open>None\<close> is a call that
  waits for a message that does not come.
\<close>

definition receive_message :: "bool \<Rightarrow> zmq_channel \<Rightarrow> (zmq_channel \<times> zmq_message option) option" where
  "receive_message wait_for_message ch =
     (case zc_inbox ch of
        [] \<Rightarrow> if wait_for_message then None else Some (ch, None)
      | msg # inbox \<Rightarrow> Some (ch\<lparr>zc_inbox := inbox\<rparr>, Some msg))"

definition zmq_send_operation :: "flatbuffers \<Rightarrow> ('o, 'c, 'k) seal_codec \<Rightarrow> ('o, 'k) sender_operation option \<Rightarrow>
   zmq_channel \<Rightarrow> zmq_channel \<times> unit res" where
  "zmq_send_operation fb sc sop ch =
     (case throw_if_not_connected ch of
        Inl e \<Rightarrow> (ch, Inl e)
      | Inr _ \<Rightarrow>
          (case sop of
             None \<Rightarrow> (ch, Inl (Invalid_argument ''operation data is missing''))
           | Some op \<Rightarrow>
               let header = save_header fb (header_of (operation_type op)); body = save_operation fb sc op
               in (send_message [header, body] (length header + length body) ch, Inr ())))"

text \<open>The client is the first frame of a message; it is not counted as sent.\<close>

definition zmq_send_response :: "flatbuffers \<Rightarrow> ('o, 'c, 'k) seal_codec \<Rightarrow> (byte list \<times> sender_response option) option \<Rightarrow>
   zmq_channel \<Rightarrow> zmq_channel \<times> unit res" where
  "zmq_send_response fb sc sop_response ch =
     (case throw_if_not_connected ch of
        Inl e \<Rightarrow> (ch, Inl e)
      | Inr _ \<Rightarrow>
          (case sop_response of
             None \<Rightarrow> (ch, Inl (Invalid_argument ''response data is missing''))
           | Some (client_id, response) \<Rightarrow>
               (case bind_res (deref response) (\<lambda>re. bind_res (save_response fb sc re) (\<lambda>body. Inr (re, body))) of
                  Inl e \<Rightarrow> (ch, Inl e)
                | Inr (re, body) \<Rightarrow>
                    let header = save_header fb (header_of (response_type re))
                    in (send_message [client_id, header, body] (length header + length body) ch, Inr ()))))"

definition zmq_send_result :: "flatbuffers \<Rightarrow> ('o, 'c, 'k) seal_codec \<Rightarrow> (byte list \<times> 'c result_package option) option \<Rightarrow>
   zmq_channel \<Rightarrow> zmq_channel \<times> unit res" where
  "zmq_send_result fb sc rp ch =
     (case throw_if_not_connected ch of
        Inl e \<Rightarrow> (ch, Inl e)
      | Inr _ \<Rightarrow>
          (case rp of
             None \<Rightarrow> (ch, Inl (Invalid_argument ''result package data is missing''))
           | Some (client_id, result) \<Rightarrow>
               (case bind_res (deref result) (save_result fb sc) of
                  Inl e \<Rightarrow> (ch, Inl e)
                | Inr body \<Rightarrow> (send_message [client_id, body] (length body) ch, Inr ()))))"

text \<open>The overloads that leave the client empty.\<close>

definition zmq_send_plain_response where
  "zmq_send_plain_response fb sc sop_response ch = zmq_send_response fb sc (Some ([], sop_response)) ch"

definition zmq_send_plain_result where
  "zmq_send_plain_result fb sc rp ch = zmq_send_result fb sc (Some ([], rp)) ch"

definition zmq_count :: "nat \<Rightarrow> zmq_channel \<Rightarrow> zmq_channel" where
  "zmq_count n ch = ch\<lparr>zc_received := wrap64 (zc_received ch + n)\<rparr>"

text \<open>The header and body frames of a received message; every string is read as a stream of its own.\<close>

definition zmq_load :: "flatbuffers \<Rightarrow> u32 \<Rightarrow> (u32 \<Rightarrow> istream \<Rightarrow> (istream \<times> nat \<times> 'a option res) option) \<Rightarrow> byte list \<Rightarrow> byte list \<Rightarrow>
   zmq_channel \<Rightarrow> (zmq_channel \<times> 'a option res) option" where
  "zmq_load fb expected load header body ch =
     (case accept_header fb expected (stream_of header) of
        None \<Rightarrow> None
      | Some (_, n, Inl e) \<Rightarrow> Some (zmq_count n ch, Inl e)
      | Some (_, n, Inr None) \<Rightarrow> Some (zmq_count n ch, Inr None)
      | Some (_, n, Inr (Some type)) \<Rightarrow> map_option (\<lambda>(_, m, r). (zmq_count m (zmq_count n ch), r)) (load type (stream_of body)))"

definition receive_network_operation :: "flatbuffers \<Rightarrow> ('o, 'c, 'k) seal_codec \<Rightarrow> seal_context option \<Rightarrow> bool \<Rightarrow> u32 \<Rightarrow> zmq_channel \<Rightarrow>
   (zmq_channel \<times> (byte list \<times> ('o, 'k) sender_operation) option res) option" where
  "receive_network_operation fb sc context wait_for_message expected ch =
     (case throw_if_not_connected ch of
        Inl e \<Rightarrow> Some (ch, Inl e)
      | Inr _ \<Rightarrow>
      if \<not> valid_context context \<and> (expected = sop_unknown \<or> expected = sop_query) then Some (ch, Inr None)
      else (case receive_message wait_for_message ch of
          None \<Rightarrow> None
        | Some (ch', None) \<Rightarrow> Some (ch', Inr None)
        | Some (ch', Some msg) \<Rightarrow>
            (case msg of
               [client_id, header, body] \<Rightarrow>
                 map_option (\<lambda>(ch'', r). (ch'', bind_res r (\<lambda>sop. Inr (map_option (Pair client_id) sop))))
                   (zmq_load fb expected (load_operation fb sc context) header body ch')
             | _ \<Rightarrow> Some (ch', Inl (Runtime_error ''invalid message received'')))))"

text \<open>The client is ignored; the pointer is dereferenced without a check.\<close>

definition zmq_receive_operation :: "flatbuffers \<Rightarrow> ('o, 'c, 'k) seal_codec \<Rightarrow> seal_context option \<Rightarrow> u32 \<Rightarrow> zmq_channel \<Rightarrow>
   (zmq_channel \<times> ('o, 'k) sender_operation res) option" where
  "zmq_receive_operation fb sc context expected ch =
     map_option (\<lambda>(ch', r). (ch', bind_res r (\<lambda>sop. bind_res (deref sop) (\<lambda>n_sop. Inr (snd n_sop)))))
       (receive_network_operation fb sc context False expected ch)"

definition zmq_receive_response :: "flatbuffers \<Rightarrow> ('o, 'c, 'k) seal_codec \<Rightarrow> u32 \<Rightarrow> zmq_channel \<Rightarrow>
   (zmq_channel \<times> sender_response option res) option" where
  "zmq_receive_response fb sc expected ch =
     (case throw_if_not_connected ch of
        Inl e \<Rightarrow> Some (ch, Inl e)
      | Inr _ \<Rightarrow>
      (case receive_message True ch of
          None \<Rightarrow> None
        | Some (ch', None) \<Rightarrow> Some (ch', Inr None)
        | Some (ch', Some msg) \<Rightarrow>
            (case msg of
               [header, body] \<Rightarrow> zmq_load fb expected (load_response fb sc) header body ch'
             | _ \<Rightarrow> Some (ch', Inl (Runtime_error ''invalid message received'')))))"

definition zmq_receive_result :: "flatbuffers \<Rightarrow> ('o, 'c, 'k) seal_codec \<Rightarrow> seal_context option \<Rightarrow> zmq_channel \<Rightarrow>
   (zmq_channel \<times> 'c result_package option res) option" where
  "zmq_receive_result fb sc context ch =
     (case throw_if_not_connected ch of
        Inl e \<Rightarrow> Some (ch, Inl e)
      | Inr _ \<Rightarrow>
      if \<not> valid_context context then Some (ch, Inr None)
      else (case receive_message True ch of
          None \<Rightarrow> None
        | Some (ch', None) \<Rightarrow> Some (ch', Inr None)
        | Some (ch', Some msg) \<Rightarrow>
            (case msg of
               [body] \<Rightarrow> map_option (\<lambda>(_, n, r). (zmq_count n ch', r))
                 (catching is_argument_or_runtime_error (load_result fb sc context (stream_of body)))
             | _ \<Rightarrow> Some (ch', Inl (Runtime_error ''invalid message received'')))))"

subsection \<open>Bodies and headers round trip\<close>

lemma catching_Some: "m = Some (s, Inr (x, n)) \<Longrightarrow> catching p m = Some (s, n, Inr (Some x))"
  by (simp add: catching_def)

lemma accept_back:
  assumes "flatbuffers_laws fb" "length (save_header fb (header_of type)) < 2 ^ 32" "\<not> is_fail s"
    and "is_bytes s = save_header fb (header_of type) @ rest" "expected = sop_unknown \<or> expected = type"
  shows "accept_header fb expected s = Some (s\<lparr>is_bytes := rest\<rparr>, length (save_header fb (header_of type)), Inr (Some type))"
  using assms(5) by (auto simp: accept_header_def catching_Some [OF header_back [OF assms(1-4)]] header_of_def same_serialization_version_def)

definition operation_sent :: "flatbuffers \<Rightarrow> ('o, 'c, 'k) seal_io \<Rightarrow> ('o, 'c, 'k) seal_codec \<Rightarrow> seal_context \<Rightarrow> ('o, 'k) sender_operation \<Rightarrow> bool" where
  "operation_sent fb io sc cx op \<longleftrightarrow> flatbuffers_laws fb \<and> codec_laws io sc \<and> cx_parameters_set cx \<and> operation_fits sc op \<and>
     length (save_header fb (header_of (operation_type op))) < 2 ^ 32 \<and> length (save_operation fb sc op) < 2 ^ 32"

definition response_sent :: "flatbuffers \<Rightarrow> ('o, 'c, 'k) seal_io \<Rightarrow> ('o, 'c, 'k) seal_codec \<Rightarrow> sender_response \<Rightarrow> bool" where
  "response_sent fb io sc re \<longleftrightarrow> flatbuffers_laws fb \<and> codec_laws io sc \<and> response_fits fb sc re \<and>
     length (save_header fb (header_of (response_type re))) < 2 ^ 32 \<and> (\<forall>bs. save_response fb sc re = Inr bs \<longrightarrow> length bs < 2 ^ 32)"

definition result_sent :: "flatbuffers \<Rightarrow> ('o, 'c, 'k) seal_io \<Rightarrow> ('o, 'c, 'k) seal_codec \<Rightarrow> seal_context \<Rightarrow> 'c result_package \<Rightarrow> bool" where
  "result_sent fb io sc cx rp \<longleftrightarrow> flatbuffers_laws fb \<and> codec_laws io sc \<and> cx_parameters_set cx \<and> result_fits sc rp \<and>
     (\<forall>bs. save_result fb sc rp = Inr bs \<longrightarrow> length bs < 2 ^ 32)"

lemma operation_back:
  assumes sent: "operation_sent fb io sc cx op" and s: "\<not> is_fail s" "is_bytes s = save_operation fb sc op @ rest"
  shows "\<exists>op'. load_operation fb sc (Some cx) (operation_type op) s = Some (s\<lparr>is_bytes := rest\<rparr>, length (save_operation fb sc op), Inr (Some op')) \<and>
    same_operation io (cx_using_keyswitching cx) op op'"
proof -
  have laws: "flatbuffers_laws fb" "codec_laws io sc" "cx_parameters_set cx" "operation_fits sc op" "length (save_operation fb sc op) < 2 ^ 32"
    and read: "reads_back (fb_build_request fb) (fb_read_request fb)" using sent by (simp_all add: operation_sent_def flatbuffers_laws_def)
  show ?thesis
  proof (cases op)
    case Op_parms
    have "load_parms fb None s = Some (s\<lparr>is_bytes := rest\<rparr>, Inr (Op_parms, length (save_operation fb sc op)))"
      using laws(5) by (simp add: load_parms_def read_request_def Op_parms loads_back [OF read _ s(1) s(2) [unfolded Op_parms save_operation.simps]])
    then show ?thesis using catching_Some by (fastforce simp: load_operation_def Op_parms)
  next
    case (Op_oprf data)
    have "load_oprf fb None s = Some (s\<lparr>is_bytes := rest\<rparr>, Inr (Op_oprf data, length (save_operation fb sc op)))"
      using laws(5) by (simp add: load_oprf_def read_request_def Op_oprf loads_back [OF read _ s(1) s(2) [unfolded Op_oprf save_operation.simps]])
    then show ?thesis using catching_Some by (fastforce simp: load_operation_def Op_oprf sop_types)
  next
    case (Op_query req)
    obtain req' where req': "load_query fb sc (Some cx) s = Some (s\<lparr>is_bytes := rest\<rparr>, Inr (Op_query req', length (save_query fb sc req)))"
      "same_query io (cx_using_keyswitching cx) req req'"
      using query_back [OF laws(1,2) _ laws(3) _ s(1)] laws(4,5) s(2) unfolding Op_query by (metis save_operation.simps(3))
    have "load_operation fb sc (Some cx) (operation_type op) s =
        Some (s\<lparr>is_bytes := rest\<rparr>, length (save_operation fb sc op), Inr (Some (Op_query req')))"
      unfolding Op_query by (simp add: load_operation_def sop_types catching_Some [OF req'(1)])
    then show ?thesis using req'(2) by (auto simp: Op_query)
  qed
qed

lemma response_back:
  assumes sent: "response_sent fb io sc re" and bs: "save_response fb sc re = Inr bs" and s: "\<not> is_fail s" "is_bytes s = bs @ rest"
  shows "load_response fb sc (response_type re) s = Some (s\<lparr>is_bytes := rest\<rparr>, length bs, Inr (Some re))"
proof -
  have laws: "flatbuffers_laws fb" "codec_laws io sc" "response_fits fb sc re" "length bs < 2 ^ 32"
    and read: "reads_back (fb_build_response fb) (fb_read_response fb)" using sent bs by (simp_all add: response_sent_def flatbuffers_laws_def)
  show ?thesis
  proof (cases re)
    case (Re_parms params)
    obtain pp where pp: "params = Some pp" "params_made pp" "length (save_params fb sc pp) < 2 ^ 32" using laws(3) unfolding Re_parms by auto
    have b: "bs = fb_build_response fb (Parms_response (Some (save_params fb sc pp)))" using bs by (simp add: Re_parms pp(1))
    have inner: "load_params fb sc (stream_of (save_params fb sc pp)) =
        Some (stream_of (save_params fb sc pp)\<lparr>is_bytes := []\<rparr>, Inr (pp, length (save_params fb sc pp)))"
      by (rule params_back [OF laws(1,2) pp(2,3)]) (simp_all add: stream_of_def)
    have "load_parms_response fb sc s = Some (s\<lparr>is_bytes := rest\<rparr>, Inr (Re_parms (Some pp), length bs))"
      using laws(4) unfolding b
      by (simp add: load_parms_response_def read_response_def loads_back [OF read _ s(1) s(2) [unfolded b]] deref_def inner)
    then show ?thesis by (simp add: load_response_def Re_parms pp(1) catching_Some)
  next
    case (Re_oprf data)
    have b: "bs = fb_build_response fb (Oprf_response data)" using bs by (simp add: Re_oprf)
    have "load_oprf_response fb s = Some (s\<lparr>is_bytes := rest\<rparr>, Inr (Re_oprf data, length bs))"
      using laws(4) unfolding b by (simp add: load_oprf_response_def read_response_def loads_back [OF read _ s(1) s(2) [unfolded b]])
    then show ?thesis by (simp add: load_response_def Re_oprf sop_types catching_Some)
  next
    case (Re_query n)
    have b: "bs = fb_build_response fb (Query_response (word_of_nat n))" using bs by (simp add: Re_query)
    have n: "unat (word_of_nat n :: u32) = n" using laws(3) by (simp add: Re_query unat_of_nat)
    have "load_query_response fb s = Some (s\<lparr>is_bytes := rest\<rparr>, Inr (Re_query n, length bs))"
      using laws(4) unfolding b by (simp add: load_query_response_def read_response_def loads_back [OF read _ s(1) s(2) [unfolded b]] n)
    then show ?thesis by (simp add: load_response_def Re_query sop_types catching_Some)
  qed
qed

subsection \<open>Channels deliver\<close>

text \<open>
  What a channel promises: a message that fits is sent without an exception, and the other end receives from
  what was written exactly this message and keeps the rest. \<open>carry\<close> is what the transport between the two ends does
  to what is written. The sender's end is in a state \<open>out_ready\<close>, the receiver's in a state \<open>in_ready\<close>.
\<close>

fun send_all :: "('m \<Rightarrow> 's \<Rightarrow> 's \<times> unit res) \<Rightarrow> 'm list \<Rightarrow> 's \<Rightarrow> 's \<times> unit res" where
  "send_all send [] s = (s, Inr ())"
| "send_all send (m # ms) s = (case send m s of (s', Inl e) \<Rightarrow> (s', Inl e) | (s', Inr _) \<Rightarrow> send_all send ms s')"

fun receive_many :: "('t \<Rightarrow> ('t \<times> 'r option res) option) \<Rightarrow> nat \<Rightarrow> 't \<Rightarrow> ('t \<times> 'r option list res) option" where
  "receive_many receive 0 t = Some (t, Inr [])"
| "receive_many receive (Suc n) t =
     (case receive t of
        None \<Rightarrow> None
      | Some (t', Inl e) \<Rightarrow> Some (t', Inl e)
      | Some (t', Inr r) \<Rightarrow> map_option (\<lambda>(t'', rs). (t'', bind_res rs (\<lambda>rs. Inr (r # rs)))) (receive_many receive n t'))"

locale channel =
  fixes send :: "'m \<Rightarrow> 's \<Rightarrow> 's \<times> unit res"
    and written :: "'s \<Rightarrow> 'w list"
    and out_ready :: "'s \<Rightarrow> bool"
    and receive :: "'t \<Rightarrow> ('t \<times> 'r option res) option"
    and pending :: "'t \<Rightarrow> 'v list"
    and in_ready :: "'t \<Rightarrow> bool"
    and carry :: "'w list \<Rightarrow> 'v list"
    and fits :: "'m \<Rightarrow> bool"
    and same :: "'m \<Rightarrow> 'r \<Rightarrow> bool"
  assumes carry_append: "carry (xs @ ys) = carry xs @ carry ys"
    and carry_Nil: "carry [] = []"
    and delivered: "fits m \<Longrightarrow> out_ready s \<Longrightarrow>
      \<exists>ws s'. send m s = (s', Inr ()) \<and> written s' = written s @ ws \<and> out_ready s' \<and>
        (\<forall>t rest. in_ready t \<and> pending t = carry ws @ rest \<longrightarrow>
          (\<exists>t' r. receive t = Some (t', Inr (Some r)) \<and> same m r \<and> in_ready t' \<and> pending t' = rest))"
begin

lemma all_delivered:
  assumes "\<forall>m \<in> set ms. fits m" "out_ready s"
  shows "\<exists>ws s'. send_all send ms s = (s', Inr ()) \<and> written s' = written s @ ws \<and> out_ready s' \<and>
    (\<forall>t rest. in_ready t \<and> pending t = carry ws @ rest \<longrightarrow>
      (\<exists>t' rs. receive_many receive (length ms) t = Some (t', Inr (map Some rs)) \<and> list_all2 same ms rs \<and> in_ready t' \<and> pending t' = rest))"
  using assms
proof (induction ms arbitrary: s)
  case Nil
  then show ?case by (intro exI [of _ "[]"] exI [of _ s]) (simp add: carry_Nil)
next
  case (Cons m ms)
  obtain ws s' where one: "send m s = (s', Inr ())" "written s' = written s @ ws" "out_ready s'"
    "\<And>t rest. in_ready t \<Longrightarrow> pending t = carry ws @ rest \<Longrightarrow>
       \<exists>t' r. receive t = Some (t', Inr (Some r)) \<and> same m r \<and> in_ready t' \<and> pending t' = rest"
    using delivered [of m s] Cons.prems by auto
  obtain ws' s'' where more: "send_all send ms s' = (s'', Inr ())" "written s'' = written s' @ ws'" "out_ready s''"
    "\<And>t rest. in_ready t \<Longrightarrow> pending t = carry ws' @ rest \<Longrightarrow>
       \<exists>t' rs. receive_many receive (length ms) t = Some (t', Inr (map Some rs)) \<and> list_all2 same ms rs \<and> in_ready t' \<and> pending t' = rest"
    using Cons.IH [OF _ one(3)] Cons.prems(1) by auto
  have "\<exists>t' rs. receive_many receive (length (m # ms)) t = Some (t', Inr (map Some rs)) \<and> list_all2 same (m # ms) rs \<and> in_ready t' \<and> pending t' = rest"
    if t: "in_ready t" "pending t = carry (ws @ ws') @ rest" for t rest
  proof -
    obtain t1 r where r: "receive t = Some (t1, Inr (Some r))" "same m r" "in_ready t1" "pending t1 = carry ws' @ rest"
      using one(4) [OF t(1), of "carry ws' @ rest"] t(2) by (auto simp: carry_append)
    obtain t2 rs where rs: "receive_many receive (length ms) t1 = Some (t2, Inr (map Some rs))" "list_all2 same ms rs" "in_ready t2" "pending t2 = rest"
      using more(4) [OF r(3,4)] by blast
    show ?thesis using r rs by (intro exI [of _ t2] exI [of _ "r # rs"]) simp
  qed
  then show ?case using one(1,2) more(1-3) by (intro exI [of _ "ws @ ws'"] exI [of _ s'']) simp
qed

end

subsection \<open>The stream channel delivers\<close>

text \<open>What was written to the output of one end is the input of the other.\<close>

definition stream_ready :: "stream_channel \<Rightarrow> bool" where
  "stream_ready ch \<longleftrightarrow> \<not> is_fail (st_in ch)"

abbreviation stream_pending :: "stream_channel \<Rightarrow> byte list" where
  "stream_pending ch \<equiv> is_bytes (st_in ch)"

definition valid_cx :: "bool \<Rightarrow> seal_context" where
  "valid_cx ks = \<lparr>cx_parameters_set = True, cx_using_keyswitching = ks\<rparr>"

lemma valid_cx_simps [simp]: "cx_parameters_set (valid_cx ks)" "cx_using_keyswitching (valid_cx ks) = ks" "valid_context (Some (valid_cx ks))"
  by (simp_all add: valid_cx_def valid_context_def)

lemma stream_receive_back:
  assumes header: "accept_header fb expected (st_in t) = Some (st_in t\<lparr>is_bytes := body @ rest\<rparr>, n, Inr (Some type))"
    and load: "load type (st_in t\<lparr>is_bytes := body @ rest\<rparr>) = Some (st_in t\<lparr>is_bytes := rest\<rparr>, m, Inr (Some x))"
    and ready: "stream_ready t"
  shows "\<exists>t'. stream_receive fb expected load t = Some (t', Inr (Some x)) \<and> stream_ready t' \<and> stream_pending t' = rest"
  using assms by (simp add: stream_receive_def stream_advance_def stream_ready_def)

interpretation stream_op: channel "\<lambda>op. stream_send_operation fb sc (Some op)" st_out "\<lambda>s. True"
  "stream_receive_operation fb sc (Some (valid_cx ks)) sop_unknown" stream_pending stream_ready "\<lambda>bs. bs"
  "operation_sent fb io sc (valid_cx ks)" "same_operation io ks"
proof (unfold_locales, goal_cases)
  case (3 op s)
  let ?header = "save_header fb (header_of (operation_type op))" and ?body = "save_operation fb sc op"
  have "\<exists>t' op'. stream_receive_operation fb sc (Some (valid_cx ks)) sop_unknown t = Some (t', Inr (Some op')) \<and> same_operation io ks op op' \<and>
      stream_ready t' \<and> stream_pending t' = rest"
    if t: "stream_ready t" "stream_pending t = (?header @ ?body) @ rest" for t rest
  proof -
    have t': "\<not> is_fail (st_in t)" using t(1) by (simp add: stream_ready_def)
    have header: "accept_header fb sop_unknown (st_in t) =
        Some (st_in t\<lparr>is_bytes := ?body @ rest\<rparr>, length ?header, Inr (Some (operation_type op)))"
      using 3(1) t(2) t' by (intro accept_back) (simp_all add: operation_sent_def)
    obtain op' where "load_operation fb sc (Some (valid_cx ks)) (operation_type op) (st_in t\<lparr>is_bytes := ?body @ rest\<rparr>) =
        Some (st_in t\<lparr>is_bytes := rest\<rparr>, length ?body, Inr (Some op'))" "same_operation io ks op op'"
      using operation_back [OF 3(1), of "st_in t\<lparr>is_bytes := ?body @ rest\<rparr>" rest] t' by auto
    then show ?thesis using stream_receive_back [OF header _ t(1)] by (fastforce simp: stream_receive_operation_def)
  qed
  then show ?case
    by (intro exI [of _ "?header @ ?body"] exI [of _ "stream_write ?body (stream_write ?header s)"])
      (simp add: stream_send_operation_def stream_write_def)
qed simp_all

lemma save_response_ok: "response_fits fb sc re \<Longrightarrow> \<exists>bs. save_response fb sc re = Inr bs"
  by (cases re) auto

lemma save_result_ok: "result_fits sc rp \<Longrightarrow> \<exists>bs. save_result fb sc rp = Inr bs"
  by (simp add: result_fits_def save_result_def Let_def)

interpretation stream_re: channel "\<lambda>re. stream_send_response fb sc (Some re)" st_out "\<lambda>s. True"
  "stream_receive_response fb sc sop_unknown" stream_pending stream_ready "\<lambda>bs. bs" "response_sent fb io sc" "(=)"
proof (unfold_locales, goal_cases)
  case (3 re s)
  let ?header = "save_header fb (header_of (response_type re))"
  have "response_fits fb sc re" using 3(1) by (simp add: response_sent_def)
  then obtain body where body: "save_response fb sc re = Inr body" using save_response_ok by blast
  have "\<exists>t'. stream_receive_response fb sc sop_unknown t = Some (t', Inr (Some re)) \<and> stream_ready t' \<and> stream_pending t' = rest"
    if t: "stream_ready t" "stream_pending t = (?header @ body) @ rest" for t rest
  proof -
    have t': "\<not> is_fail (st_in t)" using t(1) by (simp add: stream_ready_def)
    have header: "accept_header fb sop_unknown (st_in t) = Some (st_in t\<lparr>is_bytes := body @ rest\<rparr>, length ?header, Inr (Some (response_type re)))"
      using 3(1) t(2) t' by (intro accept_back) (simp_all add: response_sent_def)
    have "load_response fb sc (response_type re) (st_in t\<lparr>is_bytes := body @ rest\<rparr>) = Some (st_in t\<lparr>is_bytes := rest\<rparr>, length body, Inr (Some re))"
      using response_back [OF 3(1) body, of "st_in t\<lparr>is_bytes := body @ rest\<rparr>" rest] t' by auto
    then show ?thesis using stream_receive_back [OF header _ t(1)] by (fastforce simp: stream_receive_response_def)
  qed
  then show ?case
    by (intro exI [of _ "?header @ body"] exI [of _ "stream_write body (stream_write ?header s)"])
      (simp add: stream_send_response_def stream_write_def body)
qed simp_all

interpretation stream_rp: channel "\<lambda>rp. stream_send_result fb sc (Some rp)" st_out "\<lambda>s. True"
  "stream_receive_result fb sc (Some (valid_cx ks))" stream_pending stream_ready "\<lambda>bs. bs"
  "result_sent fb io sc (valid_cx ks)" "\<lambda>rp rp'. rp' = received_result sc rp"
proof (unfold_locales, goal_cases)
  case (3 rp s)
  have laws: "flatbuffers_laws fb" "codec_laws io sc" "result_fits sc rp" using 3(1) by (simp_all add: result_sent_def)
  then obtain body where body: "save_result fb sc rp = Inr body" using save_result_ok by blast
  have "\<exists>t'. stream_receive_result fb sc (Some (valid_cx ks)) t = Some (t', Inr (Some (received_result sc rp))) \<and> stream_ready t' \<and> stream_pending t' = rest"
    if t: "stream_ready t" "stream_pending t = body @ rest" for t rest
  proof -
    have "load_result fb sc (Some (valid_cx ks)) (st_in t) = Some (st_in t\<lparr>is_bytes := rest\<rparr>, Inr (received_result sc rp, length body))"
      using 3(1) t body by (intro result_back [OF laws]) (simp_all add: result_sent_def stream_ready_def)
    then show ?thesis using t(1) by (simp add: stream_receive_result_def catching_Some stream_advance_def stream_ready_def)
  qed
  then show ?case
    by (intro exI [of _ body] exI [of _ "stream_write body s"]) (simp add: stream_send_result_def stream_write_def body)
qed simp_all

subsection \<open>The ZeroMQ channel delivers\<close>

text \<open>
  ZeroMQ's sockets: a router puts the identity of the client in front of what it receives, and sends a message
  to the client that its first frame names, without this frame.
\<close>

definition to_router :: "byte list \<Rightarrow> zmq_message list \<Rightarrow> zmq_message list" where
  "to_router client_id msgs = map ((#) client_id) msgs"

definition to_client :: "byte list \<Rightarrow> zmq_message list \<Rightarrow> zmq_message list" where
  "to_client client_id msgs = map tl (filter (\<lambda>msg. hd msg = client_id) msgs)"

lemma stream_of_simps [simp]: "\<not> is_fail (stream_of bs)" "is_bytes (stream_of bs) = bs"
  by (simp_all add: stream_of_def)

lemma zmq_load_back:
  assumes "flatbuffers_laws fb" "length (save_header fb (header_of type)) < 2 ^ 32"
    and load: "load type (stream_of body) = Some (s', m, Inr (Some x))"
  shows "zmq_load fb sop_unknown load (save_header fb (header_of type)) body ch =
    Some (zmq_count m (zmq_count (length (save_header fb (header_of type))) ch), Inr (Some x))"
proof -
  have "accept_header fb sop_unknown (stream_of (save_header fb (header_of type))) =
      Some (stream_of (save_header fb (header_of type))\<lparr>is_bytes := []\<rparr>, length (save_header fb (header_of type)), Inr (Some type))"
    by (rule accept_back [OF assms(1,2)]) simp_all
  then show ?thesis using load by (simp add: zmq_load_def)
qed

lemma zmq_state_simps [simp]: "is_connected (zmq_count n ch) = is_connected ch" "zc_inbox (zmq_count n ch) = zc_inbox ch"
  "is_connected (ch\<lparr>zc_inbox := msgs\<rparr>) = is_connected ch" "is_connected (send_message msg n ch) = is_connected ch"
  "zc_outbox (send_message msg n ch) = zc_outbox ch @ [msg]"
  by (simp_all add: zmq_count_def is_connected_def send_message_def)

interpretation zmq_op: channel "\<lambda>op. zmq_send_operation fb sc (Some op)" zc_outbox is_connected
  "receive_network_operation fb sc (Some (valid_cx ks)) wait sop_unknown" zc_inbox is_connected "to_router client_id"
  "operation_sent fb io sc (valid_cx ks)" "\<lambda>op r. fst r = client_id \<and> same_operation io ks op (snd r)"
proof (unfold_locales, goal_cases)
  case (3 op s)
  let ?header = "save_header fb (header_of (operation_type op))" and ?body = "save_operation fb sc op"
  have "\<exists>t' r. receive_network_operation fb sc (Some (valid_cx ks)) wait sop_unknown t = Some (t', Inr (Some r)) \<and>
      (fst r = client_id \<and> same_operation io ks op (snd r)) \<and> is_connected t' \<and> zc_inbox t' = rest"
    if t: "is_connected t" "zc_inbox t = to_router client_id [[?header, ?body]] @ rest" for t rest
  proof -
    obtain op' where op': "load_operation fb sc (Some (valid_cx ks)) (operation_type op) (stream_of ?body) =
        Some (stream_of ?body\<lparr>is_bytes := []\<rparr>, length ?body, Inr (Some op'))" "same_operation io ks op op'"
      using operation_back [OF 3(1), of "stream_of ?body" "[]"] by auto
    have "flatbuffers_laws fb" "length ?header < 2 ^ 32" using 3(1) by (simp_all add: operation_sent_def)
    note load = zmq_load_back [OF this, of "load_operation fb sc (Some (valid_cx ks))", OF op'(1)]
    show ?thesis using t op'(2)
      by (simp add: receive_network_operation_def throw_if_not_connected_def receive_message_def to_router_def load)
  qed
  then show ?case using 3(2)
    by (intro exI [of _ "[[?header, ?body]]"] exI [of _ "send_message [?header, ?body] (length ?header + length ?body) s"])
      (simp add: zmq_send_operation_def throw_if_not_connected_def Let_def)
qed (simp_all add: to_router_def)

interpretation zmq_re: channel "\<lambda>re. zmq_send_response fb sc (Some (client_id, Some re))" zc_outbox is_connected
  "zmq_receive_response fb sc sop_unknown" zc_inbox is_connected "to_client client_id" "response_sent fb io sc" "(=)"
proof (unfold_locales, goal_cases)
  case (3 re s)
  let ?header = "save_header fb (header_of (response_type re))"
  have laws: "flatbuffers_laws fb" "length ?header < 2 ^ 32" "response_fits fb sc re" using 3(1) by (simp_all add: response_sent_def)
  then obtain body where body: "save_response fb sc re = Inr body" using save_response_ok by blast
  have "load_response fb sc (response_type re) (stream_of body) = Some (stream_of body\<lparr>is_bytes := []\<rparr>, length body, Inr (Some re))"
    by (rule response_back [OF 3(1) body]) simp_all
  note load = zmq_load_back [OF laws(1,2), of "load_response fb sc", OF this]
  have "\<exists>t'. zmq_receive_response fb sc sop_unknown t = Some (t', Inr (Some re)) \<and> is_connected t' \<and> zc_inbox t' = rest"
    if t: "is_connected t" "zc_inbox t = to_client client_id [[client_id, ?header, body]] @ rest" for t rest
    using t by (simp add: zmq_receive_response_def throw_if_not_connected_def receive_message_def to_client_def load)
  then show ?case using 3(2)
    by (intro exI [of _ "[[client_id, ?header, body]]"] exI [of _ "send_message [client_id, ?header, body] (length ?header + length body) s"])
      (simp add: zmq_send_response_def throw_if_not_connected_def deref_def body Let_def)
qed (simp_all add: to_client_def)

interpretation zmq_rp: channel "\<lambda>rp. zmq_send_result fb sc (Some (client_id, Some rp))" zc_outbox is_connected
  "zmq_receive_result fb sc (Some (valid_cx ks))" zc_inbox is_connected "to_client client_id"
  "result_sent fb io sc (valid_cx ks)" "\<lambda>rp rp'. rp' = received_result sc rp"
proof (unfold_locales, goal_cases)
  case (3 rp s)
  have laws: "flatbuffers_laws fb" "codec_laws io sc" "result_fits sc rp" using 3(1) by (simp_all add: result_sent_def)
  then obtain body where body: "save_result fb sc rp = Inr body" using save_result_ok by blast
  have load: "load_result fb sc (Some (valid_cx ks)) (stream_of body) = Some (stream_of body\<lparr>is_bytes := []\<rparr>, Inr (received_result sc rp, length body))"
    using 3(1) body by (intro result_back [OF laws]) (simp_all add: result_sent_def)
  have "\<exists>t'. zmq_receive_result fb sc (Some (valid_cx ks)) t = Some (t', Inr (Some (received_result sc rp))) \<and> is_connected t' \<and> zc_inbox t' = rest"
    if t: "is_connected t" "zc_inbox t = to_client client_id [[client_id, body]] @ rest" for t rest
    using t by (simp add: zmq_receive_result_def throw_if_not_connected_def receive_message_def to_client_def catching_Some [OF load])
  then show ?case using 3(2)
    by (intro exI [of _ "[[client_id, body]]"] exI [of _ "send_message [client_id, body] (length body) s"])
      (simp add: zmq_send_result_def throw_if_not_connected_def deref_def body)
qed (simp_all add: to_client_def)

text \<open>
  What an answer puts into the channel goes to one client, and does not depend on the state of a connected channel, of which
  it leaves the rest as it is.
\<close>

definition emits :: "byte list \<Rightarrow> (zmq_channel \<Rightarrow> zmq_channel \<times> unit res) \<Rightarrow> zmq_message list \<Rightarrow> bool" where
  "emits client_id f ws \<longleftrightarrow> (\<forall>msg \<in> set ws. hd msg = client_id) \<and>
     (\<exists>r. \<forall>s. is_connected s \<longrightarrow> snd (f s) = r \<and> zc_outbox (fst (f s)) = zc_outbox s @ ws \<and>
        is_connected (fst (f s)) \<and> zc_inbox (fst (f s)) = zc_inbox s)"

lemma send_message_inbox [simp]: "zc_inbox (send_message msg n s) = zc_inbox s"
  by (simp add: send_message_def)

lemma response_emits: "\<exists>ws. emits client_id (zmq_send_response fb sc (Some (client_id, re))) ws"
proof (cases "bind_res (deref re) (\<lambda>re. bind_res (save_response fb sc re) (\<lambda>body. Inr (re, body)))")
  case (Inl e)
  then show ?thesis by (intro exI [of _ "[]"]) (simp add: emits_def zmq_send_response_def throw_if_not_connected_def)
next
  case (Inr x)
  then obtain re' body where "bind_res (deref re) (\<lambda>re. bind_res (save_response fb sc re) (\<lambda>body. Inr (re, body))) = Inr (re', body)" by (cases x) auto
  then show ?thesis
    by (intro exI [of _ "[[client_id, save_header fb (header_of (response_type re')), body]]"])
      (simp add: emits_def zmq_send_response_def throw_if_not_connected_def Let_def)
qed

lemma result_emits: "\<exists>ws. emits client_id (zmq_send_result fb sc (Some (client_id, rp))) ws"
proof (cases "bind_res (deref rp) (save_result fb sc)")
  case (Inl e)
  then show ?thesis by (intro exI [of _ "[]"]) (simp add: emits_def zmq_send_result_def throw_if_not_connected_def)
next
  case (Inr body)
  then show ?thesis
    by (intro exI [of _ "[[client_id, body]]"]) (simp add: emits_def zmq_send_result_def throw_if_not_connected_def)
qed

lemma all_emit:
  assumes "\<And>m. \<exists>ws. emits client_id (send m) ws"
  shows "\<exists>ws. emits client_id (send_all send ms) ws"
proof (induction ms)
  case Nil
  then show ?case by (intro exI [of _ "[]"]) (simp add: emits_def)
next
  case (Cons m ms)
  obtain ws r where m: "\<forall>msg \<in> set ws. hd msg = client_id" "\<And>s. is_connected s \<Longrightarrow> snd (send m s) = r \<and>
      zc_outbox (fst (send m s)) = zc_outbox s @ ws \<and> is_connected (fst (send m s)) \<and> zc_inbox (fst (send m s)) = zc_inbox s"
    using assms [of m] unfolding emits_def by blast
  obtain ws' r' where ms: "\<forall>msg \<in> set ws'. hd msg = client_id" "\<And>s. is_connected s \<Longrightarrow> snd (send_all send ms s) = r' \<and>
      zc_outbox (fst (send_all send ms s)) = zc_outbox s @ ws' \<and> is_connected (fst (send_all send ms s)) \<and>
      zc_inbox (fst (send_all send ms s)) = zc_inbox s"
    using Cons unfolding emits_def by blast
  have step: "send_all send (m # ms) s = (case r of Inl e \<Rightarrow> (fst (send m s), Inl e) | Inr _ \<Rightarrow> send_all send ms (fst (send m s)))"
    if "is_connected s" for s
    using m(2) [OF that] by (cases "send m s") (auto split: sum.splits)
  show ?case
  proof (cases r)
    case (Inl e)
    then show ?thesis using m step unfolding emits_def by (intro exI [of _ ws]) auto
  next
    case (Inr u)
    have "snd (send_all send (m # ms) s) = r' \<and> zc_outbox (fst (send_all send (m # ms) s)) = zc_outbox s @ ws @ ws' \<and>
        is_connected (fst (send_all send (m # ms) s)) \<and> zc_inbox (fst (send_all send (m # ms) s)) = zc_inbox s" if s: "is_connected s" for s
      using m(2) [OF s] ms(2) [of "fst (send m s)"] unfolding step [OF s] Inr by simp
    moreover have "\<forall>msg \<in> set (ws @ ws'). hd msg = client_id" using m(1) ms(1) by auto
    ultimately show ?thesis unfolding emits_def by (intro exI [of _ "ws @ ws'"] conjI exI [of _ r']) simp_all
  qed
qed

text \<open>An answer to one client puts nothing into the channel for another.\<close>

lemma to_other_client: "\<forall>msg \<in> set ws. hd msg = client_id \<Longrightarrow> d \<noteq> client_id \<Longrightarrow> to_client d ws = []"
  by (auto simp: to_client_def filter_empty_conv)

lemma to_client_append: "to_client client_id (xs @ ys) = to_client client_id xs @ to_client client_id ys"
  by (simp add: to_client_def)

subsection \<open>Where a channel fails\<close>

text \<open>
  A failed \<open>bind\<close> or \<open>connect\<close> leaves the channel connected, so that another try is refused; a disconnected channel has no
  context, so that the next connection dereferences a null pointer; and \<open>receive_operation\<close> dereferences one when there
  is no message.
\<close>

lemma failed_attach_stays_connected:
  assumes "end_point \<noteq> []" "\<not> is_connected ch" "zc_context ch"
  shows "snd (zmq_attach False end_point ch) = Inl (Runtime_error ''zmq::error_t'')"
    and "snd (zmq_attach ok end_point' (fst (zmq_attach False end_point ch))) = Inl (Runtime_error ''socket is already connected'')"
  using assms by (simp_all add: zmq_attach_def throw_if_connected_def is_connected_def get_socket_def Let_def)

lemma reconnect_undefined:
  "is_connected ch \<Longrightarrow> snd (zmq_attach ok end_point (fst (zmq_disconnect ch))) = Inl Undefined"
  by (simp add: zmq_attach_def zmq_disconnect_def throw_if_connected_def throw_if_not_connected_def is_connected_def get_socket_def Let_def)

lemma receive_operation_undefined:
  "is_connected ch \<Longrightarrow> zc_inbox ch = [] \<Longrightarrow> zmq_receive_operation fb sc (Some (valid_cx ks)) expected ch = Some (ch, Inl Undefined)"
  by (simp add: zmq_receive_operation_def receive_network_operation_def throw_if_not_connected_def receive_message_def deref_def)

text \<open>The parameters of a response are validated by \<open>invalid_argument\<close>, which the channels do not catch.\<close>

lemma response_exception_escapes:
  assumes "load_parms_response fb sc s = Some (s', Inl (Invalid_argument w))"
  shows "load_response fb sc sop_parms s = Some (s', 0, Inl (Invalid_argument w))"
  using assms by (simp add: load_response_def catching_def)

end
