(* ===== verification/ChannelSpec.thy ===== *)
theory ChannelSpec
  imports Channels
begin

text \<open>
  What the two channels guarantee, and a concrete encoding of the tables for which the laws of the generated
  code hold.
\<close>

subsection \<open>An encoding of the tables\<close>

text \<open>Encoders and decoders of prefix codes; a decoder returns the value and the rest.\<close>

type_synonym 'a coder = "('a \<Rightarrow> byte list) \<times> (byte list \<Rightarrow> ('a \<times> byte list) option)"

definition coder_ok :: "'a coder \<Rightarrow> bool" where
  "coder_ok c \<longleftrightarrow> (\<forall>x rest. snd c (fst c x @ rest) = Some (x, rest))"

fun decode_nat :: "byte list \<Rightarrow> (nat \<times> byte list) option" where
  "decode_nat [] = None"
| "decode_nat (b # bs) = (if b = 0 then Some (0, bs) else map_option (\<lambda>(n, rest). (Suc n, rest)) (decode_nat bs))"

definition nat_coder :: "nat coder" where
  "nat_coder = (\<lambda>n. replicate n 1 @ [0], decode_nat)"

lemma nat_coder_ok: "coder_ok nat_coder"
proof -
  have "decode_nat (replicate n 1 @ 0 # rest) = Some (n, rest)" for n rest by (induction n) auto
  then show ?thesis by (simp add: coder_ok_def nat_coder_def)
qed

text \<open>A code for a type from which a known one can be computed.\<close>

definition via :: "('b \<Rightarrow> 'a) \<Rightarrow> ('a \<Rightarrow> 'b) \<Rightarrow> 'a coder \<Rightarrow> 'b coder" where
  "via to from c = (\<lambda>x. fst c (to x), \<lambda>bs. map_option (\<lambda>(y, rest). (from y, rest)) (snd c bs))"

lemma via_ok: "coder_ok c \<Longrightarrow> (\<And>x. from (to x) = x) \<Longrightarrow> coder_ok (via to from c)"
  by (simp add: coder_ok_def via_def)

definition pair_coder :: "'a coder \<Rightarrow> 'b coder \<Rightarrow> ('a \<times> 'b) coder" where
  "pair_coder c d = (\<lambda>(x, y). fst c x @ fst d y,
     \<lambda>bs. case snd c bs of None \<Rightarrow> None | Some (x, bs') \<Rightarrow> map_option (\<lambda>(y, rest). ((x, y), rest)) (snd d bs'))"

lemma pair_ok: "coder_ok c \<Longrightarrow> coder_ok d \<Longrightarrow> coder_ok (pair_coder c d)"
  by (simp add: coder_ok_def pair_coder_def)

fun decode_many :: "(byte list \<Rightarrow> ('a \<times> byte list) option) \<Rightarrow> nat \<Rightarrow> byte list \<Rightarrow> ('a list \<times> byte list) option" where
  "decode_many d 0 bs = Some ([], bs)"
| "decode_many d (Suc n) bs =
     (case d bs of None \<Rightarrow> None | Some (x, bs') \<Rightarrow> map_option (\<lambda>(xs, rest). (x # xs, rest)) (decode_many d n bs'))"

definition list_coder :: "'a coder \<Rightarrow> 'a list coder" where
  "list_coder c = (\<lambda>xs. fst nat_coder (length xs) @ concat (map (fst c) xs),
     \<lambda>bs. case snd nat_coder bs of None \<Rightarrow> None | Some (n, bs') \<Rightarrow> decode_many (snd c) n bs')"

lemma list_ok: "coder_ok c \<Longrightarrow> coder_ok (list_coder c)"
proof -
  assume c: "coder_ok c"
  have "decode_many (snd c) (length xs) (concat (map (fst c) xs) @ rest) = Some (xs, rest)" for xs rest
    using c by (induction xs) (simp_all add: coder_ok_def)
  then show ?thesis using nat_coder_ok by (simp add: coder_ok_def list_coder_def)
qed

definition word_coder :: "('w :: len) word coder" where "word_coder = via unat word_of_nat nat_coder"
definition bytes_coder :: "byte list coder" where "bytes_coder = list_coder word_coder"
definition option_coder :: "'a coder \<Rightarrow> 'a option coder" where
  "option_coder c = via (\<lambda>x. case x of None \<Rightarrow> [] | Some y \<Rightarrow> [y]) (\<lambda>xs. case xs of [] \<Rightarrow> None | y # ys \<Rightarrow> Some y) (list_coder c)"

lemma word_ok: "coder_ok word_coder" unfolding word_coder_def by (rule via_ok [OF nat_coder_ok]) simp
lemma bytes_ok: "coder_ok bytes_coder" unfolding bytes_coder_def by (rule list_ok [OF word_ok])
lemma option_ok: "coder_ok c \<Longrightarrow> coder_ok (option_coder c)"
  unfolding option_coder_def by (rule via_ok [OF list_ok]) (auto split: option.splits)

text \<open>The tables as tuples.\<close>

definition header_coder :: "header_table coder" where
  "header_coder = via (\<lambda>h. (ht_version h, ht_type h)) (\<lambda>(v, t). \<lparr>ht_version = v, ht_type = t\<rparr>) (pair_coder word_coder word_coder)"

fun request_tuple :: "request_table \<Rightarrow> nat \<times> byte list \<times> byte \<times> byte list option \<times> (u32 \<times> byte list list) list" where
  "request_tuple No_request = (0, [], 0, None, [])"
| "request_tuple Parms_request = (1, [], 0, None, [])"
| "request_tuple (Oprf_request data) = (2, data, 0, None, [])"
| "request_tuple (Query_request mode keys query) = (3, [], mode, keys, query)"

definition request_coder :: "request_table coder" where
  "request_coder = via request_tuple
     (\<lambda>(n, data, mode, keys, query). if n = 0 then No_request else if n = 1 then Parms_request else if n = 2 then Oprf_request data
       else Query_request mode keys query)
     (pair_coder nat_coder (pair_coder bytes_coder (pair_coder word_coder (pair_coder (option_coder bytes_coder)
       (list_coder (pair_coder word_coder (list_coder bytes_coder)))))))"

fun response_tuple :: "response_table \<Rightarrow> nat \<times> byte list option \<times> u32" where
  "response_tuple No_response = (0, None, 0)"
| "response_tuple (Parms_response data) = (1, data, 0)"
| "response_tuple (Oprf_response data) = (2, Some data, 0)"
| "response_tuple (Query_response n) = (3, None, n)"

definition response_coder :: "response_table coder" where
  "response_coder = via response_tuple
     (\<lambda>(n, data, m). if n = 0 then No_response else if n = 1 then Parms_response data
       else if n = 2 then Oprf_response (case data of None \<Rightarrow> [] | Some d \<Rightarrow> d) else Query_response m)
     (pair_coder nat_coder (pair_coder (option_coder bytes_coder) word_coder))"

definition result_coder :: "result_table coder" where
  "result_coder = via (\<lambda>t. (rt_bundle_idx t, rt_psi_result t, rt_label_byte_count t, rt_nonce_byte_count t, rt_label_result t))
     (\<lambda>(b, p, l, n, r). \<lparr>rt_bundle_idx = b, rt_psi_result = p, rt_label_byte_count = l, rt_nonce_byte_count = n, rt_label_result = r\<rparr>)
     (pair_coder word_coder (pair_coder bytes_coder (pair_coder word_coder (pair_coder word_coder (option_coder (list_coder bytes_coder))))))"

definition params_coder :: "params_table coder" where
  "params_coder = via (\<lambda>t. (mt_version t, mt_item_params t, mt_table_params t, mt_query_params t, mt_seal_params t))
     (\<lambda>(v, i, t, q, s). \<lparr>mt_version = v, mt_item_params = i, mt_table_params = t, mt_query_params = q, mt_seal_params = s\<rparr>)
     (pair_coder word_coder (pair_coder (option_coder word_coder) (pair_coder (option_coder (pair_coder word_coder (pair_coder word_coder word_coder)))
       (pair_coder (option_coder (pair_coder word_coder (option_coder (list_coder word_coder)))) bytes_coder))))"

lemmas coders_ok = nat_coder_ok pair_ok list_ok word_ok bytes_ok option_ok

lemma table_coders_ok: "coder_ok header_coder" "coder_ok request_coder" "coder_ok response_coder" "coder_ok result_coder" "coder_ok params_coder"
proof -
  show "coder_ok header_coder" unfolding header_coder_def by (intro via_ok coders_ok) simp
  show "coder_ok request_coder" unfolding request_coder_def
  proof (intro via_ok coders_ok)
    show "(case request_tuple t of (n, data, mode, keys, query) \<Rightarrow> if n = 0 then No_request else if n = 1 then Parms_request
        else if n = 2 then Oprf_request data else Query_request mode keys query) = t" for t by (cases t) auto
  qed
  show "coder_ok response_coder" unfolding response_coder_def
  proof (intro via_ok coders_ok)
    show "(case response_tuple t of (n, data, m) \<Rightarrow> if n = 0 then No_response else if n = 1 then Parms_response data
        else if n = 2 then Oprf_response (case data of None \<Rightarrow> [] | Some d \<Rightarrow> d) else Query_response m) = t" for t by (cases t) auto
  qed
  show "coder_ok result_coder" unfolding result_coder_def by (intro via_ok coders_ok) simp
  show "coder_ok params_coder" unfolding params_coder_def by (intro via_ok coders_ok) simp
qed

text \<open>A finished buffer: the size in four bytes, and the code of the table.\<close>

definition u32_bytes :: "nat \<Rightarrow> byte list" where
  "u32_bytes n = [word_of_nat n, word_of_nat (n div 2 ^ 8), word_of_nat (n div 2 ^ 16), word_of_nat (n div 2 ^ 24)]"

definition finish :: "'t coder \<Rightarrow> 't \<Rightarrow> byte list" where
  "finish c t = u32_bytes (length (fst c t)) @ fst c t"

definition unfinish :: "'t coder \<Rightarrow> byte list \<Rightarrow> 't option" where
  "unfinish c bs = map_option fst (snd c (drop 4 bs))"

definition plain_buffers :: flatbuffers where
  "plain_buffers = \<lparr>fb_build_header = finish header_coder, fb_read_header = unfinish header_coder,
     fb_build_request = finish request_coder, fb_read_request = unfinish request_coder,
     fb_build_response = finish response_coder, fb_read_response = unfinish response_coder,
     fb_build_result = finish result_coder, fb_read_result = unfinish result_coder,
     fb_build_params = finish params_coder, fb_read_params = unfinish params_coder\<rparr>"

lemma byte_of_nat: "unat (word_of_nat n :: byte) = n mod 256"
  by (simp add: unat_of_nat)

lemma u32_of_u32_bytes:
  assumes "n < 2 ^ 32"
  shows "u32_of_bytes (u32_bytes n) = n"
proof -
  define a b c where abc: "a = n div 256" "b = a div 256" "c = b div 256"
  have digits: "n div 65536 = b" "n div 16777216 = c" by (simp_all add: abc div_mult2_eq [symmetric])
  have "c < 256" using assms by (simp add: abc)
  then have "n = n mod 256 + 256 * (a mod 256) + 65536 * (b mod 256) + 16777216 * (c mod 256)"
    using div_mult_mod_eq [of n 256] div_mult_mod_eq [of a 256] div_mult_mod_eq [of b 256] unfolding abc(1) [symmetric] abc(2) [symmetric] abc(3) [symmetric]
    by simp
  then show ?thesis unfolding u32_of_bytes_def u32_bytes_def
    by (simp add: byte_of_nat digits abc(1) [symmetric])
qed

lemma finish_reads_back:
  assumes "coder_ok c"
  shows "reads_back (finish c) (unfinish c)"
  unfolding reads_back_def
proof (intro allI impI conjI)
  fix t assume n: "length (finish c t) < 2 ^ 32"
  then have "length (fst c t) < 2 ^ 32" by (simp add: finish_def)
  moreover have "length (u32_bytes m) = 4" for m by (simp add: u32_bytes_def)
  ultimately show "sized (finish c t)" by (simp add: sized_def finish_def u32_of_u32_bytes)
  have "snd c (fst c t @ []) = Some (t, [])" using assms unfolding coder_ok_def by blast
  then show "unfinish c (finish c t) = Some t" by (simp add: unfinish_def finish_def u32_bytes_def)
qed

lemma plain_laws: "flatbuffers_laws plain_buffers"
  by (simp add: flatbuffers_laws_def plain_buffers_def finish_reads_back table_coders_ok)

text \<open>Objects of SEAL that are byte strings already.\<close>

definition seal_params_coder :: "seal_params coder" where
  "seal_params_coder = via (\<lambda>sp. (mod_value (sp_plain_modulus sp), mod_bit_count (sp_plain_modulus sp), sp_poly_modulus_degree sp,
       of_bool (sp_parameters_set sp), of_bool (sp_using_batching sp)))
     (\<lambda>(v, b, n, s, u). \<lparr>sp_plain_modulus = \<lparr>mod_value = v, mod_bit_count = b\<rparr>, sp_poly_modulus_degree = n,
       sp_parameters_set = (s = 1), sp_using_batching = (u = 1)\<rparr>)
     (pair_coder word_coder (pair_coder nat_coder (pair_coder nat_coder (pair_coder nat_coder nat_coder))))"

definition plain_codec :: "(byte list, byte list, byte list) seal_codec" where
  "plain_codec = \<lparr>sc_save_request = (\<lambda>m bs. bs), sc_load_request = Inr, sc_save_keys = (\<lambda>m bs. bs), sc_load_keys = Inr, sc_no_keys = [],
     sc_save_result = (\<lambda>m bs. bs), sc_load_result = Inr, sc_save_params = fst seal_params_coder,
     sc_load_params = (\<lambda>bs. case snd seal_params_coder bs of None \<Rightarrow> Inl (Logic_error ''SEAL'') | Some (sp, rest) \<Rightarrow> Inr (True, sp)),
     sc_supported_mode = (\<lambda>m. m < 3), sc_mode_default = 2\<rparr>"

definition plain_io :: "(byte list, byte list, byte list) seal_io" where
  "plain_io = \<lparr>io_extract = Inr, io_ciphertext_valid = (\<lambda>c. True), io_extract_keys = Inr, io_keys_valid = (\<lambda>k. True), io_no_keys = []\<rparr>"

lemma plain_codec_laws: "codec_laws plain_io plain_codec"
proof -
  have "coder_ok seal_params_coder" unfolding seal_params_coder_def by (intro via_ok coders_ok) simp
  then have "snd seal_params_coder (fst seal_params_coder sp @ []) = Some (sp, [])" for sp unfolding coder_ok_def by blast
  then show ?thesis by (simp add: codec_laws_def plain_codec_def plain_io_def)
qed

subsection \<open>Properties\<close>

text \<open>
  C13. The stream channel delivers requests. Any list of requests whose buffers stay below the size that their prefix can
  tell is sent without an exception, and a channel that reads what was written, whatever follows it, receives these
  requests in this order, a query with the same ciphertexts and keys, and stops exactly behind them.
\<close>
theorem stream_operations_delivered:
  assumes "\<forall>op \<in> set ops. operation_sent fb io sc (valid_cx ks) op"
  shows "\<exists>ws s'. send_all (\<lambda>op. stream_send_operation fb sc (Some op)) ops s = (s', Inr ()) \<and> st_out s' = st_out s @ ws \<and>
    (\<forall>t rest. \<not> is_fail (st_in t) \<and> is_bytes (st_in t) = ws @ rest \<longrightarrow>
      (\<exists>t' ops'. receive_many (stream_receive_operation fb sc (Some (valid_cx ks)) sop_unknown) (length ops) t = Some (t', Inr (map Some ops')) \<and>
        list_all2 (same_operation io ks) ops ops' \<and> is_bytes (st_in t') = rest))"
  using stream_op.all_delivered [OF assms TrueI, of s] unfolding stream_ready_def by blast

definition new_stream :: "byte list \<Rightarrow> stream_channel" where
  "new_stream bs = \<lparr>st_in = stream_of bs, st_out = [], st_sent = 0, st_received = 0\<rparr>"

theorem stream_operations_delivered_witness:
  "\<exists>s' t'. send_all (\<lambda>op. stream_send_operation plain_buffers plain_codec (Some op)) [Op_oprf [1, 2, 3], Op_parms] (new_stream []) = (s', Inr ()) \<and>
    receive_many (stream_receive_operation plain_buffers plain_codec (Some (valid_cx True)) sop_unknown) 2 (new_stream (st_out s' @ [7])) =
      Some (t', Inr [Some (Op_oprf [1, 2, 3]), Some Op_parms]) \<and> is_bytes (st_in t') = [7]"
proof -
  let ?ops = "[Op_oprf [1, 2, 3], Op_parms] :: (byte list, byte list) sender_operation list"
  have lengths: "length (save_header plain_buffers (header_of sop_oprf)) < 2 ^ 32" "length (save_header plain_buffers (header_of sop_parms)) < 2 ^ 32"
    "length (save_operation plain_buffers plain_codec (Op_oprf [1, 2, 3])) < 2 ^ 32" "length (save_operation plain_buffers plain_codec Op_parms) < 2 ^ 32"
    by (simp_all add: save_header_def header_of_def plain_buffers_def finish_def u32_bytes_def header_coder_def request_coder_def via_def pair_coder_def
        word_coder_def bytes_coder_def option_coder_def list_coder_def nat_coder_def apsi_serialization_version_def sop_types)
  have sent: "\<forall>op \<in> set ?ops. operation_sent plain_buffers plain_io plain_codec (valid_cx True) op"
    using plain_laws plain_codec_laws lengths by (simp add: operation_sent_def)
  obtain ws s' where s': "send_all (\<lambda>op. stream_send_operation plain_buffers plain_codec (Some op)) ?ops (new_stream []) = (s', Inr ())"
    "st_out s' = st_out (new_stream []) @ ws"
    "\<And>t rest. \<not> is_fail (st_in t) \<and> is_bytes (st_in t) = ws @ rest \<longrightarrow>
      (\<exists>t' ops'. receive_many (stream_receive_operation plain_buffers plain_codec (Some (valid_cx True)) sop_unknown) (length ?ops) t = Some (t', Inr (map Some ops')) \<and>
        list_all2 (same_operation plain_io True) ?ops ops' \<and> is_bytes (st_in t') = rest)"
    using stream_operations_delivered [OF sent, of "new_stream []"] by blast
  obtain t' ops' where t': "receive_many (stream_receive_operation plain_buffers plain_codec (Some (valid_cx True)) sop_unknown) (length ?ops)
      (new_stream (st_out s' @ [7])) = Some (t', Inr (map Some ops'))" "list_all2 (same_operation plain_io True) ?ops ops'" "is_bytes (st_in t') = [7]"
    using s'(3) [of "new_stream (st_out s' @ [7])" "[7]"] s'(2) by (auto simp: new_stream_def)
  have "ops' = ?ops" using t'(2) by (auto simp: list_all2_Cons1)
  then show ?thesis using s'(1) t'(1,3) by (simp add: numeral_2_eq_2)
qed

text \<open>
  C14. The answer to a query reaches its client over ZeroMQ. The response and the result parts are sent without an
  exception, they go to no other client, and the client receives the response and then the parts in the order in which
  they were sent, with the default compression mode, and the nonce size only where there are labels.
\<close>
theorem zmq_answer_delivered:
  assumes "is_connected s" and "response_sent fb io sc re" and "\<forall>rp \<in> set rps. result_sent fb io sc (valid_cx ks) rp"
  shows "\<exists>s1 s2 ws. zmq_send_response fb sc (Some (client_id, Some re)) s = (s1, Inr ()) \<and>
    send_all (\<lambda>rp. zmq_send_result fb sc (Some (client_id, Some rp))) rps s1 = (s2, Inr ()) \<and> zc_outbox s2 = zc_outbox s @ ws \<and>
    (\<forall>d. d \<noteq> client_id \<longrightarrow> to_client d ws = []) \<and>
    (\<forall>t rest. is_connected t \<and> zc_inbox t = to_client client_id ws @ rest \<longrightarrow>
      (\<exists>t1 t2. zmq_receive_response fb sc sop_unknown t = Some (t1, Inr (Some re)) \<and>
        receive_many (zmq_receive_result fb sc (Some (valid_cx ks))) (length rps) t1 = Some (t2, Inr (map (\<lambda>rp. Some (received_result sc rp)) rps)) \<and>
        zc_inbox t2 = rest))"
proof -
  obtain ws1 s1 where s1: "zmq_send_response fb sc (Some (client_id, Some re)) s = (s1, Inr ())" "zc_outbox s1 = zc_outbox s @ ws1" "is_connected s1"
    "\<And>t rest. is_connected t \<Longrightarrow> zc_inbox t = to_client client_id ws1 @ rest \<Longrightarrow>
      \<exists>t'. zmq_receive_response fb sc sop_unknown t = Some (t', Inr (Some re)) \<and> is_connected t' \<and> zc_inbox t' = rest"
    using zmq_re.delivered [OF assms(2,1), of client_id] by auto
  obtain ws2 s2 where s2: "send_all (\<lambda>rp. zmq_send_result fb sc (Some (client_id, Some rp))) rps s1 = (s2, Inr ())" "zc_outbox s2 = zc_outbox s1 @ ws2"
    "\<And>t rest. is_connected t \<Longrightarrow> zc_inbox t = to_client client_id ws2 @ rest \<Longrightarrow>
      \<exists>t' rs. receive_many (zmq_receive_result fb sc (Some (valid_cx ks))) (length rps) t = Some (t', Inr (map Some rs)) \<and>
        list_all2 (\<lambda>rp rp'. rp' = received_result sc rp) rps rs \<and> zc_inbox t' = rest"
    using zmq_rp.all_delivered [OF assms(3) s1(3), of client_id] by (elim exE conjE) (rule that, assumption+, blast)
  obtain e1 where e1: "emits client_id (zmq_send_response fb sc (Some (client_id, Some re))) e1" using response_emits by blast
  obtain e2 where e2: "emits client_id (send_all (\<lambda>rp. zmq_send_result fb sc (Some (client_id, Some rp))) rps) e2"
    using all_emit [of client_id "\<lambda>rp. zmq_send_result fb sc (Some (client_id, Some rp))" rps, OF result_emits] by blast
  have "ws1 = e1" "ws2 = e2" using e1 e2 s1(1-3) s2(1,2) assms(1) unfolding emits_def by (metis fst_conv same_append_eq)+
  then have "\<forall>msg \<in> set (ws1 @ ws2). hd msg = client_id" using e1 e2 by (auto simp: emits_def)
  then have others: "\<forall>d. d \<noteq> client_id \<longrightarrow> to_client d (ws1 @ ws2) = []" using to_other_client by blast
  have "\<exists>t1 t2. zmq_receive_response fb sc sop_unknown t = Some (t1, Inr (Some re)) \<and>
        receive_many (zmq_receive_result fb sc (Some (valid_cx ks))) (length rps) t1 = Some (t2, Inr (map (\<lambda>rp. Some (received_result sc rp)) rps)) \<and>
        zc_inbox t2 = rest"
    if t: "is_connected t" "zc_inbox t = to_client client_id (ws1 @ ws2) @ rest" for t rest
  proof -
    obtain t1 where t1: "zmq_receive_response fb sc sop_unknown t = Some (t1, Inr (Some re))" "is_connected t1"
      "zc_inbox t1 = to_client client_id ws2 @ rest"
      using s1(4) [OF t(1), of "to_client client_id ws2 @ rest"] t(2) by (auto simp: to_client_append)
    obtain t2 rs where t2: "receive_many (zmq_receive_result fb sc (Some (valid_cx ks))) (length rps) t1 = Some (t2, Inr (map Some rs))"
      "list_all2 (\<lambda>rp rp'. rp' = received_result sc rp) rps rs" "zc_inbox t2 = rest" using s2(3) [OF t1(2,3)] by blast
    have "rs = map (received_result sc) rps" using t2(2) by (auto simp: list_all2_conv_all_nth intro: nth_equalityI)
    then show ?thesis using t1(1) t2(1,3) by (simp add: o_def)
  qed
  then show ?thesis using s1(1,2) s2(1,2) others by (intro exI [of _ s1] exI [of _ s2] exI [of _ "ws1 @ ws2"]) simp
qed

theorem zmq_answer_delivered_witness:
  "\<exists>s1 s2 t1 t2. zmq_send_response plain_buffers plain_codec (Some ([65], Some (Re_query 1))) (fst (zmq_attach True ''tcp'' zmq_open)) = (s1, Inr ()) \<and>
    zmq_send_result plain_buffers plain_codec (Some ([65], Some \<lparr>rp_bundle_idx = 3, rp_compr_mode = 1, rp_psi_result = [9], rp_label_byte_count = 0,
      rp_nonce_byte_count = 16, rp_label_result = []\<rparr>)) s1 = (s2, Inr ()) \<and>
    zmq_receive_response plain_buffers plain_codec sop_unknown
      (fst (zmq_attach True ''tcp'' zmq_open)\<lparr>zc_inbox := to_client [65] (zc_outbox s2)\<rparr>) = Some (t1, Inr (Some (Re_query 1))) \<and>
    zmq_receive_result plain_buffers plain_codec (Some (valid_cx True)) t1 = Some (t2, Inr (Some \<lparr>rp_bundle_idx = 3, rp_compr_mode = 2,
      rp_psi_result = [9], rp_label_byte_count = 0, rp_nonce_byte_count = 0, rp_label_result = []\<rparr>)) \<and> zc_inbox t2 = []"
proof -
  let ?s = "fst (zmq_attach True ''tcp'' zmq_open)"
  let ?rp = "\<lparr>rp_bundle_idx = 3, rp_compr_mode = 1, rp_psi_result = [9 :: byte], rp_label_byte_count = 0, rp_nonce_byte_count = 16, rp_label_result = []\<rparr>"
  have open_ok: "is_connected ?s" "zc_outbox ?s = []"
    by (simp_all add: zmq_attach_def zmq_open_def throw_if_connected_def is_connected_def get_socket_def)
  have lengths: "length (save_header plain_buffers (header_of sop_query)) < 2 ^ 32"
    "\<forall>bs. save_response plain_buffers plain_codec (Re_query 1) = Inr bs \<longrightarrow> length bs < 2 ^ 32"
    "\<forall>bs. save_result plain_buffers plain_codec ?rp = Inr bs \<longrightarrow> length bs < 2 ^ 32"
    by (auto simp: save_header_def header_of_def plain_buffers_def finish_def u32_bytes_def header_coder_def response_coder_def result_coder_def via_def pair_coder_def
        word_coder_def bytes_coder_def option_coder_def list_coder_def nat_coder_def apsi_serialization_version_def sop_types save_result_def plain_codec_def)
  have re: "response_sent plain_buffers plain_io plain_codec (Re_query 1)" using plain_laws plain_codec_laws lengths(1,2) by (simp add: response_sent_def)
  have rp: "\<forall>rp \<in> set [?rp]. result_sent plain_buffers plain_io plain_codec (valid_cx True) rp"
    using plain_laws plain_codec_laws lengths(3) by (simp add: result_sent_def result_fits_def max_nonce_byte_count_def) (simp add: plain_codec_def)
  obtain s1 s2 ws where s: "zmq_send_response plain_buffers plain_codec (Some ([65], Some (Re_query 1))) ?s = (s1, Inr ())"
    "send_all (\<lambda>rp. zmq_send_result plain_buffers plain_codec (Some ([65], Some rp))) [?rp] s1 = (s2, Inr ())" "zc_outbox s2 = zc_outbox ?s @ ws"
    and d: "\<forall>t rest. is_connected t \<and> zc_inbox t = to_client [65] ws @ rest \<longrightarrow>
      (\<exists>t1 t2. zmq_receive_response plain_buffers plain_codec sop_unknown t = Some (t1, Inr (Some (Re_query 1))) \<and>
        receive_many (zmq_receive_result plain_buffers plain_codec (Some (valid_cx True))) (length [?rp]) t1 =
          Some (t2, Inr (map (\<lambda>rp. Some (received_result plain_codec rp)) [?rp])) \<and> zc_inbox t2 = rest)"
    using zmq_answer_delivered [OF open_ok(1) re rp, of "[65]"] by (elim exE conjE) (rule that)
  let ?t = "?s\<lparr>zc_inbox := to_client [65] (zc_outbox s2)\<rparr>"
  have "is_connected ?t" "zc_inbox ?t = to_client [65] ws @ []" using open_ok s(3) by simp_all
  then obtain t1 t2 where t: "zmq_receive_response plain_buffers plain_codec sop_unknown ?t = Some (t1, Inr (Some (Re_query 1)))"
    "receive_many (zmq_receive_result plain_buffers plain_codec (Some (valid_cx True))) (length [?rp]) t1 =
      Some (t2, Inr (map (\<lambda>rp. Some (received_result plain_codec rp)) [?rp]))" "zc_inbox t2 = []" using d by blast
  have mode: "sc_mode_default plain_codec = 2" by (simp add: plain_codec_def)
  have "zmq_send_result plain_buffers plain_codec (Some ([65], Some ?rp)) s1 = (s2, Inr ())" using s(2) by (auto split: prod.splits sum.splits)
  moreover have "zmq_receive_result plain_buffers plain_codec (Some (valid_cx True)) t1 = Some (t2, Inr (Some (received_result plain_codec ?rp)))"
    using t(2) by (auto simp: result_simps split: option.splits sum.splits prod.splits)
  ultimately show ?thesis using s(1) t(1,3) by (simp add: received_result_def mode)
qed

end
