(* ===== verification/Dispatcher.thy ===== *)
theory Dispatcher
  imports Channels QueryRequest
begin

text \<open>
  The sender's dispatcher (\<open>sender/apsi/zmq/sender_dispatcher.cpp\<close>): a loop that receives requests from any client and
  answers them from one database.
\<close>

subsection \<open>Construction\<close>

record 'p dispatcher =
  dp_sender_db :: "'p sender_db"
  dp_oprf_key :: scalar

text \<open>
  With a key: the parameter \<open>sender_db\<close> was moved into the member, so it is a null pointer when the key of the
  database is asked for.
\<close>

definition make_dispatcher_with_key :: "'p sender_db option \<Rightarrow> scalar \<Rightarrow> 'p dispatcher res" where
  "make_dispatcher_with_key sender_db oprf_key =
     (case sender_db of
        None \<Rightarrow> Inl (Invalid_argument ''sender_db is not set'')
      | Some db \<Rightarrow>
          let moved_from = (None :: 'p sender_db option)
          in if \<not> db_stripped db then
               bind_res (deref moved_from) (\<lambda>sdb. bind_res (get_oprf_key sdb) (\<lambda>key.
                 if oprf_key \<noteq> key then Inl (Logic_error ''mismatching OPRF keys'')
                 else Inr \<lparr>dp_sender_db = db, dp_oprf_key = oprf_key\<rparr>))
             else Inr \<lparr>dp_sender_db = db, dp_oprf_key = oprf_key\<rparr>)"

definition make_dispatcher :: "'p sender_db option \<Rightarrow> 'p dispatcher res" where
  "make_dispatcher sender_db =
     (case sender_db of
        None \<Rightarrow> Inl (Invalid_argument ''sender_db is not set'')
      | Some db \<Rightarrow> bind_res (get_oprf_key db) (\<lambda>key. Inr \<lparr>dp_sender_db = db, dp_oprf_key = key\<rparr>))"

text \<open>The first constructor never accepts a database that still has its key, not even with this key.\<close>

lemma keyed_dispatcher_undefined: "\<not> db_stripped db \<Longrightarrow> make_dispatcher_with_key (Some db) (db_oprf_key db) = Inl Undefined"
  by (simp add: make_dispatcher_with_key_def deref_def)

subsection \<open>Dispatching\<close>

text \<open>
  What the server runs on: the generated code, SEAL, the curve, the orders in which its threads multiply the
  powers, and the order in which the tasks of a query hand their parts to the channel, or which of them do
  when one throws.
\<close>

record ('p, 'o, 'c, 'k, 'pt) server =
  sv_buffers :: flatbuffers
  sv_codec :: "('o, 'c, 'k) seal_codec"
  sv_fourq :: "'pt fourq"
  sv_threads :: nat
  sv_io :: "('o, 'c, 'k) seal_io"
  sv_seal :: "('p, 'c) seal"
  sv_orders :: "powers_dag \<Rightarrow> nat \<Rightarrow> nat list"
  sv_race :: "'c result_package list res \<Rightarrow> 'c result_package list"

datatype 'c answer = Response sender_response | Part "'c result_package"

text \<open>Exceptions of the requests are caught and logged, and what has been sent stays sent.\<close>

definition dispatch_parms :: "'p dispatcher \<Rightarrow> 'c answer list" where
  "dispatch_parms d =
     (case run_params True (Some (dp_sender_db d)) of
        Inl e \<Rightarrow> []
      | Inr params \<Rightarrow> [Response (Re_parms (Some params))])"

definition dispatch_oprf :: "'pt fourq \<Rightarrow> nat \<Rightarrow> 'p dispatcher \<Rightarrow> byte list \<Rightarrow> 'c answer list" where
  "dispatch_oprf fq threads d data =
     (case run_oprf fq threads (Some data) (dp_oprf_key d) of
        Inl e \<Rightarrow> []
      | Inr None \<Rightarrow> []
      | Inr (Some response) \<Rightarrow> [Response (Re_oprf response)])"

definition dispatch_query :: "('p, 'o, 'c, 'k, 'pt) server \<Rightarrow> 'p dispatcher \<Rightarrow> ('o, 'k) query_request \<Rightarrow> 'c answer list option" where
  "dispatch_query sv d req =
     map_option (\<lambda>r. case r of
         Inl e \<Rightarrow> []
       | Inr query \<Rightarrow>
           (case run_query (sv_seal sv) (dp_sender_db d) query (sv_orders sv (qu_pd query)) of
              (None, parts) \<Rightarrow> []
            | (Some package_count, parts) \<Rightarrow> Response (Re_query package_count) # map Part (sv_race sv parts)))
       (make_query (sv_io sv) (se_using_keyswitching (sv_seal sv)) (Some req) (Some (db_params (dp_sender_db d))))"

fun dispatch :: "('p, 'o, 'c, 'k, 'pt) server \<Rightarrow> 'p dispatcher \<Rightarrow> ('o, 'k) sender_operation \<Rightarrow> 'c answer list option" where
  "dispatch sv d Op_parms = Some (dispatch_parms d)"
| "dispatch sv d (Op_oprf data) = Some (dispatch_oprf (sv_fourq sv) (sv_threads sv) d data)"
| "dispatch sv d (Op_query req) = dispatch_query sv d req"

text \<open>The lambdas that send: an answer to the client of the request.\<close>

fun send_answer :: "flatbuffers \<Rightarrow> ('o, 'c, 'k) seal_codec \<Rightarrow> byte list \<Rightarrow> 'c answer \<Rightarrow> zmq_channel \<Rightarrow> zmq_channel \<times> unit res" where
  "send_answer fb sc client_id (Response re) chl = zmq_send_response fb sc (Some (client_id, Some re)) chl"
| "send_answer fb sc client_id (Part rp) chl = zmq_send_result fb sc (Some (client_id, Some rp)) chl"

text \<open>
  One round of the loop. An exception in a request is caught, one of \<open>receive_network_operation\<close> is not. A
  received operation has one of the three classes, so that the default branch of the switch is never taken.
\<close>

definition dispatcher_round :: "('p, 'o, 'c, 'k, 'pt) server \<Rightarrow> 'p dispatcher \<Rightarrow> zmq_channel \<Rightarrow> (zmq_channel \<times> unit res) option" where
  "dispatcher_round sv d chl =
     (case receive_network_operation (sv_buffers sv) (sv_codec sv) (Some (valid_cx (se_using_keyswitching (sv_seal sv)))) False sop_unknown chl of
        None \<Rightarrow> None
      | Some (chl', Inl e) \<Rightarrow> Some (chl', Inl e)
      | Some (chl', Inr None) \<Rightarrow> Some (chl', Inr ())
      | Some (chl', Inr (Some (client_id, op))) \<Rightarrow>
          map_option (\<lambda>answers. (fst (send_all (send_answer (sv_buffers sv) (sv_codec sv) client_id) answers chl'), Inr ())) (dispatch sv d op))"

text \<open>The loop until it is stopped after \<open>n\<close> rounds; an exception ends it.\<close>

fun dispatcher_run :: "('p, 'o, 'c, 'k, 'pt) server \<Rightarrow> 'p dispatcher \<Rightarrow> nat \<Rightarrow> zmq_channel \<Rightarrow> (zmq_channel \<times> unit res) option" where
  "dispatcher_run sv d 0 chl = Some (chl, Inr ())"
| "dispatcher_run sv d (Suc n) chl =
     (case dispatcher_round sv d chl of
        None \<Rightarrow> None
      | Some (chl', Inl e) \<Rightarrow> Some (chl', Inl e)
      | Some (chl', Inr _) \<Rightarrow> dispatcher_run sv d n chl')"

subsection \<open>One message\<close>

text \<open>A loaded query has each exponent once, so that its construction returns.\<close>

lemma loaded_distinct:
  "load_query_parts sc query data = Inr data' \<Longrightarrow> distinct (map fst data) \<Longrightarrow> distinct (map fst data')"
  by (induction sc query data rule: load_query_parts.induct) (auto simp: result_simps split: if_splits)

lemma catching_Inr: "catching p m = Some (s, n, Inr (Some x)) \<Longrightarrow> m = Some (s, Inr (x, n))"
  by (cases m; cases "snd (the m)") (auto simp: catching_def split: if_splits)

lemma load_with_Inr: "load_with f s = Some (s', Inr (x, n)) \<Longrightarrow> \<exists>bs. f bs = Inr x"
  by (cases "the (read_sized_from_stream s)") (auto simp: load_with_def result_simps)

lemma loaded_query_distinct:
  assumes "load_operation fb sc context type s = Some (s', n, Inr (Some (Op_query req)))"
  shows "distinct (map fst (qr_data req))"
proof -
  consider "load_parms fb None s = Some (s', Inr (Op_query req, n))" | "load_oprf fb None s = Some (s', Inr (Op_query req, n))"
    | "load_query fb sc context s = Some (s', Inr (Op_query req, n))"
    using assms by (auto simp: load_operation_def dest!: catching_Inr split: if_splits)
  then have "\<exists>mode keys query ks. load_query_table sc ks mode keys query = Inr req"
  proof cases
    case 1
    then obtain bs where "bind_res (read_request fb bs) (\<lambda>sop. case sop of
          Parms_request \<Rightarrow> Inr Op_parms
        | _ \<Rightarrow> Inl (Runtime_error ''unexpected operation type'')) = Inr (Op_query req)"
      by (auto simp: load_parms_def dest!: load_with_Inr)
    then show ?thesis by (auto simp: result_simps split: request_table.splits) (metis request_table.exhaust)
  next
    case 2
    then obtain bs where "bind_res (read_request fb bs) (\<lambda>sop. case sop of
          Oprf_request data \<Rightarrow> Inr (Op_oprf data)
        | _ \<Rightarrow> Inl (Runtime_error ''unexpected operation type'')) = Inr (Op_query req)"
      by (auto simp: load_oprf_def dest!: load_with_Inr)
    then show ?thesis by (auto simp: result_simps split: request_table.splits) (metis request_table.exhaust)
  next
    case 3
    then obtain cx where cx: "context = Some cx" "cx_parameters_set cx" by (auto simp: load_query_def split: option.splits if_splits)
    from load_with_Inr [OF 3 [unfolded load_query_def cx(1), simplified cx(2) option.case not_True_eq_False if_False]] show ?thesis by (auto simp: result_simps split: request_table.splits) (metis request_table.exhaust)
  qed
  then show ?thesis by (auto simp: load_query_table_def result_simps dest: loaded_distinct split: if_splits)
qed

text \<open>
  SEAL throws the exceptions of the standard library; then every exception of a load is of a class that
  \<open>receive_network_operation\<close> catches.
\<close>

fun standard_exception :: "exn \<Rightarrow> bool" where
  "standard_exception (Invalid_argument w) = True"
| "standard_exception (Logic_error w) = True"
| "standard_exception (Runtime_error w) = True"
| "standard_exception Out_of_range = True"
| "standard_exception e = False"

definition codec_throws :: "('o, 'c, 'k) seal_codec \<Rightarrow> bool" where
  "codec_throws sc \<longleftrightarrow> (\<forall>bs e. sc_load_request sc bs = Inl e \<longrightarrow> standard_exception e) \<and>
     (\<forall>bs e. sc_load_keys sc bs = Inl e \<longrightarrow> standard_exception e)"

lemma rethrown_runtime: "standard_exception e \<Longrightarrow> rethrown msg e = Runtime_error msg"
  by (cases e) simp_all

lemma map_res_throws: "map_res f xs = Inl e \<Longrightarrow> \<exists>x \<in> set xs. f x = Inl e"
  by (induction xs) (auto simp: result_simps)

lemma parts_throw:
  "load_query_parts sc query data = Inl e \<Longrightarrow> codec_throws sc \<Longrightarrow> is_runtime_error e"
proof (induction sc query data rule: load_query_parts.induct)
  case (2 sc exponent cts query data)
  consider "e = Runtime_error ''invalid query data''"
    | "map_res (\<lambda>ct. rethrow ''failed to load query ciphertext: '' (sc_load_request sc ct)) cts = Inl e"
    | cts_vec where "\<not> unat exponent \<in> fst ` set data"
        "map_res (\<lambda>ct. rethrow ''failed to load query ciphertext: '' (sc_load_request sc ct)) cts = Inr cts_vec" "load_query_parts sc query (data @ [(unat exponent, cts_vec)]) = Inl e"
    using "2.prems"(1) by (auto simp: result_simps split: if_splits)
  then show ?case
  proof cases
    case 2
    from map_res_throws [OF this] obtain ct where "rethrow ''failed to load query ciphertext: '' (sc_load_request sc ct) = Inl e" by blast
    then show ?thesis using "2.prems"(2) by (auto simp: rethrow_def codec_throws_def rethrown_runtime split: sum.splits)
  next
    case 3
    then show ?thesis using "2.IH" "2.prems"(2) by blast
  qed simp
qed simp

lemma query_table_throws:
  assumes "load_query_table sc ks mode keys query = Inl e" "codec_throws sc"
  shows "is_runtime_error e"
proof -
  consider "e = Runtime_error ''unsupported compression mode''" | "e = Runtime_error ''realinearization keys data is missing''"
    | bs where "rethrow ''failed to load relinearization keys: '' (sc_load_keys sc bs) = Inl e" | "load_query_parts sc query [] = Inl e"
    using assms(1) by (auto simp: load_query_table_def result_simps split: if_splits option.splits)
  then show ?thesis
  proof cases
    case 3
    then show ?thesis using assms(2) by (auto simp: rethrow_def codec_throws_def rethrown_runtime split: sum.splits)
  next
    case 4
    then show ?thesis using parts_throw assms(2) by blast
  qed simp_all
qed

lemma catching_string:
  assumes "\<And>bs e. f bs = Inl e \<Longrightarrow> p e"
  shows "\<exists>s n x. catching p (load_with f (stream_of string)) = Some (s, n, Inr x)"
proof -
  obtain s' bs where "load_with f (stream_of string) = Some (s', bind_res (f bs) (\<lambda>x. Inr (x, length bs)))"
    using load_delivers [of "stream_of string" f] by (auto simp: stream_of_def)
  then show ?thesis using assms [of bs] by (cases "f bs") (auto simp: catching_def)
qed

lemma runtime_caught: "is_runtime_error e \<Longrightarrow> is_argument_or_runtime_error e"
  by (cases e) simp_all

lemma header_accepted: "\<exists>s n x. accept_header fb expected (stream_of bs) = Some (s, n, Inr x)"
proof -
  obtain s n x where "catching is_runtime_error (load_header fb (stream_of bs)) = Some (s, n, Inr x)"
    using catching_string [of "\<lambda>in_data. verified ''failed to load SenderOperationHeader: invalid buffer'' (fb_read_header fb in_data)" is_runtime_error bs]
    by (force simp: load_header_def verified_def split: option.splits)
  then show ?thesis by (auto simp: accept_header_def split: option.splits)
qed

lemma request_throws: "read_request fb bs = Inl e \<Longrightarrow> is_argument_or_runtime_error e"
  by (auto simp: read_request_def verified_def split: option.splits)

lemma operation_loaded:
  fixes sc :: "('o, 'c, 'k) seal_codec"
  assumes "codec_throws sc"
  shows "\<exists>s n x. load_operation fb sc context type (stream_of bs) = Some (s, n, Inr x)"
proof -
  let ?p = is_argument_or_runtime_error
  have parms: "\<exists>s n x. catching ?p (load_parms fb None (stream_of bs) :: (istream \<times> (('o, 'k) sender_operation \<times> nat) res) option) = Some (s, n, Inr x)"
    by (simp add: load_parms_def, rule catching_string)
      (auto simp: result_simps dest: request_throws split: request_table.splits, metis request_table.exhaust)
  have oprf: "\<exists>s n x. catching ?p (load_oprf fb None (stream_of bs) :: (istream \<times> (('o, 'k) sender_operation \<times> nat) res) option) = Some (s, n, Inr x)"
    by (simp add: load_oprf_def, rule catching_string)
      (auto simp: result_simps dest: request_throws split: request_table.splits, metis request_table.exhaust)
  have query: "\<exists>s n x. catching ?p (load_query fb sc context (stream_of bs)) = Some (s, n, Inr x)"
  proof (cases "\<exists>cx. context = Some cx \<and> cx_parameters_set cx")
    case True
    then show ?thesis
      by (clarsimp simp: load_query_def)
        (rule catching_string, auto simp: result_simps dest: request_throws query_table_throws [OF _ assms] intro: runtime_caught split: request_table.splits,
          metis request_table.exhaust query_table_throws assms runtime_caught)
  next
    case False
    then show ?thesis by (auto simp: load_query_def catching_def split: option.splits)
  qed
  show ?thesis unfolding load_operation_def using parms oprf query by simp
qed

lemma dispatch_total:
  assumes "powers_fit (db_params (dp_sender_db d))" "\<And>req. op = Op_query req \<Longrightarrow> distinct (map fst (qr_data req))"
  shows "dispatch sv d op \<noteq> None"
proof (cases op)
  case (Op_query req)
  then show ?thesis using make_query_ok [OF assms(1) assms(2), of req "sv_io sv" "se_using_keyswitching (sv_seal sv)"]
    by (auto simp: dispatch_query_def)
qed simp_all

lemma answers_emit: "\<exists>ws. emits client_id (send_all (send_answer fb sc client_id) answers) ws"
proof (rule all_emit)
  show "\<exists>ws. emits client_id (send_answer fb sc client_id m) ws" for m
  proof (cases m)
    case (Response re)
    then show ?thesis using response_emits [of client_id fb sc "Some re"] by (simp add: emits_def)
  next
    case (Part rp)
    then show ?thesis using result_emits [of client_id fb sc "Some rp"] by (simp add: emits_def)
  qed
qed

subsection \<open>Every client on its own\<close>

text \<open>A server that meets the conditions under which no request makes it stop.\<close>

definition server_fits :: "('p, 'o, 'c, 'k, 'pt) server \<Rightarrow> 'p dispatcher \<Rightarrow> bool" where
  "server_fits sv d \<longleftrightarrow> codec_throws (sv_codec sv) \<and> powers_fit (db_params (dp_sender_db d))"

text \<open>
  A round with a message of three frames, whatever they hold, ends without an exception, and what it sends goes to the
  client of the message and depends on the message alone.
\<close>

definition replies_with :: "('p, 'o, 'c, 'k, 'pt) server \<Rightarrow> 'p dispatcher \<Rightarrow> zmq_message \<Rightarrow> zmq_message list \<Rightarrow> bool" where
  "replies_with sv d msg ws \<longleftrightarrow> (\<forall>m \<in> set ws. hd m = hd msg) \<and>
     (\<forall>chl rest. is_connected chl \<and> zc_inbox chl = msg # rest \<longrightarrow>
       (\<exists>chl'. dispatcher_round sv d chl = Some (chl', Inr ()) \<and> zc_outbox chl' = zc_outbox chl @ ws \<and>
         is_connected chl' \<and> zc_inbox chl' = rest))"

lemma round_replies:
  assumes fits: "server_fits sv d" and three: "length msg = 3"
  shows "\<exists>ws. replies_with sv d msg ws"
proof -
  let ?cx = "Some (valid_cx (se_using_keyswitching (sv_seal sv)))" and ?fb = "sv_buffers sv" and ?sc = "sv_codec sv"
  obtain c header body where msg: "msg = [c, header, body]"
    using three by (auto simp: numeral_3_eq_3 length_Suc_conv)
  have codec: "codec_throws ?sc" and powers: "powers_fit (db_params (dp_sender_db d))" using fits by (simp_all add: server_fits_def)
  obtain s1 n x where header: "accept_header ?fb sop_unknown (stream_of header) = Some (s1, n, Inr x)" using header_accepted by blast
  obtain load m where load: "\<And>ch. zmq_load ?fb sop_unknown (load_operation ?fb ?sc ?cx) header body ch = Some (zmq_count m (zmq_count n ch), Inr load) \<or>
      zmq_load ?fb sop_unknown (load_operation ?fb ?sc ?cx) header body ch = Some (zmq_count n ch, Inr load)"
    and distinct: "\<And>req. load = Some (Op_query req) \<Longrightarrow> distinct (map fst (qr_data req))"
  proof (cases x)
    case None
    show ?thesis by (rule that [of 0 None]) (simp_all add: zmq_load_def header None)
  next
    case (Some type)
    obtain s2 m y where y: "load_operation ?fb ?sc ?cx type (stream_of body) = Some (s2, m, Inr y)" using operation_loaded [OF codec] by blast
    show ?thesis
    proof (rule that [of m y])
      show "distinct (map fst (qr_data req))" if "y = Some (Op_query req)" for req using loaded_query_distinct y that by blast
    qed (simp add: zmq_load_def header Some y)
  qed
  have receive: "\<exists>ch. receive_network_operation ?fb ?sc ?cx False sop_unknown chl = Some (ch, Inr (map_option (Pair c) load)) \<and>
      is_connected ch \<and> zc_outbox ch = zc_outbox chl \<and> zc_inbox ch = rest"
    if chl: "is_connected chl" "zc_inbox chl = msg # rest" for chl rest
    using load [of "chl\<lparr>zc_inbox := rest\<rparr>"] chl
    by (auto simp: receive_network_operation_def throw_if_not_connected_def receive_message_def msg zmq_count_def is_connected_def)
  show ?thesis
  proof (cases load)
    case None
    have "replies_with sv d msg []"
      unfolding replies_with_def
    proof (intro conjI allI impI)
      fix chl rest assume chl: "is_connected chl \<and> zc_inbox chl = msg # rest"
      obtain ch where "receive_network_operation ?fb ?sc ?cx False sop_unknown chl = Some (ch, Inr None)"
        "is_connected ch" "zc_outbox ch = zc_outbox chl" "zc_inbox ch = rest" using receive [of chl rest] chl by (auto simp: None)
      then show "\<exists>chl'. dispatcher_round sv d chl = Some (chl', Inr ()) \<and> zc_outbox chl' = zc_outbox chl @ [] \<and>
          is_connected chl' \<and> zc_inbox chl' = rest" by (simp add: dispatcher_round_def)
    qed simp
    then show ?thesis by blast
  next
    case (Some op)
    obtain answers where answers: "dispatch sv d op = Some answers"
      using dispatch_total [OF powers, of op sv] distinct Some by auto
    obtain ws where ws: "emits c (send_all (send_answer ?fb ?sc c) answers) ws" using answers_emit by blast
    have "replies_with sv d msg ws"
      unfolding replies_with_def
    proof (intro conjI allI impI)
      show "\<forall>m \<in> set ws. hd m = hd msg" using ws by (simp add: emits_def msg)
      fix chl rest assume chl: "is_connected chl \<and> zc_inbox chl = msg # rest"
      obtain ch where ch: "receive_network_operation ?fb ?sc ?cx False sop_unknown chl = Some (ch, Inr (Some (c, op)))"
        "is_connected ch" "zc_outbox ch = zc_outbox chl" "zc_inbox ch = rest" using receive [of chl rest] chl by (auto simp: Some)
      let ?chl = "fst (send_all (send_answer ?fb ?sc c) answers ch)"
      have "zc_outbox ?chl = zc_outbox ch @ ws \<and> is_connected ?chl \<and> zc_inbox ?chl = zc_inbox ch"
        using ws ch(2) unfolding emits_def by blast
      moreover have "dispatcher_round sv d chl = Some (?chl, Inr ())" using ch(1) answers by (simp add: dispatcher_round_def)
      ultimately show "\<exists>chl'. dispatcher_round sv d chl = Some (chl', Inr ()) \<and> zc_outbox chl' = zc_outbox chl @ ws \<and>
          is_connected chl' \<and> zc_inbox chl' = rest" using ch(3,4) by (intro exI [of _ ?chl]) simp
    qed
    then show ?thesis by blast
  qed
qed

lemma replies_round:
  assumes "replies_with sv d msg ws" "is_connected chl" "zc_inbox chl = msg # rest"
  shows "\<exists>chl'. dispatcher_round sv d chl = Some (chl', Inr ()) \<and> zc_outbox chl' = zc_outbox chl @ ws \<and>
    is_connected chl' \<and> zc_inbox chl' = rest"
  using assms unfolding replies_with_def by blast

text \<open>The replies to the messages, one after the other.\<close>

lemma run_replies:
  assumes "list_all2 (replies_with sv d) msgs wss" "is_connected chl" "zc_inbox chl = msgs @ rest"
  shows "\<exists>chl'. (\<forall>n. dispatcher_run sv d (length msgs + n) chl = dispatcher_run sv d n chl') \<and>
    zc_outbox chl' = zc_outbox chl @ concat wss \<and> is_connected chl' \<and> zc_inbox chl' = rest"
  using assms
proof (induction msgs wss arbitrary: chl rule: list_all2_induct)
  case Nil
  then show ?case by (intro exI [of _ chl]) simp
next
  case (Cons msg msgs ws wss)
  then obtain chl1 where one: "dispatcher_round sv d chl = Some (chl1, Inr ())" "zc_outbox chl1 = zc_outbox chl @ ws"
    "is_connected chl1" "zc_inbox chl1 = msgs @ rest" using replies_round [of sv d msg ws chl "msgs @ rest"] by auto
  obtain chl' where "\<forall>n. dispatcher_run sv d (length msgs + n) chl1 = dispatcher_run sv d n chl'"
    "zc_outbox chl' = zc_outbox chl1 @ concat wss" "is_connected chl'" "zc_inbox chl' = rest"
    using Cons.IH [OF one(3,4)] by blast
  then show ?case using one by (intro exI [of _ chl']) simp
qed

lemma all_replies:
  assumes "server_fits sv d" "\<forall>msg \<in> set msgs. length msg = 3"
  shows "\<exists>wss. list_all2 (replies_with sv d) msgs wss"
  using assms(2)
proof (induction msgs)
  case (Cons msg msgs)
  then obtain wss ws where "list_all2 (replies_with sv d) msgs wss" "replies_with sv d msg ws"
    using round_replies [OF assms(1)] by fastforce
  then show ?case by (intro exI [of _ "ws # wss"]) simp
qed (intro exI [of _ "[]"], simp)

text \<open>What is sent to one client, when each message has its replies, comes from its messages.\<close>

lemma client_replies:
  assumes "list_all2 (replies_with sv d) msgs wss"
  shows "\<exists>wss'. list_all2 (replies_with sv d) (filter (\<lambda>msg. hd msg = c) msgs) wss' \<and> to_client c (concat wss) = to_client c (concat wss')"
  using assms
proof (induction rule: list_all2_induct)
  case (Cons msg msgs ws wss)
  then obtain wss' where wss': "list_all2 (replies_with sv d) (filter (\<lambda>msg. hd msg = c) msgs) wss'"
    "to_client c (concat wss) = to_client c (concat wss')" by blast
  show ?case
  proof (cases "hd msg = c")
    case True
    then show ?thesis using wss' Cons(1) by (intro exI [of _ "ws # wss'"]) (simp add: to_client_append)
  next
    case False
    then have "to_client c ws = []" using Cons(1) to_other_client [of ws "hd msg" c] by (auto simp: replies_with_def)
    then show ?thesis using wss' False by (intro exI [of _ wss']) (simp add: to_client_append)
  qed
qed simp

end
