(* ===== verification/DispatcherSpec.thy ===== *)
theory DispatcherSpec
  imports ProtocolSpec ChannelSpec Dispatcher
begin

text \<open>
  What the dispatcher guarantees to its clients: the exact intersection to each of them, whatever the others send, as long
  as nobody sends a message with the wrong number of frames.
\<close>

subsection \<open>A client of the dispatcher\<close>

text \<open>The answer of the dispatcher to an OPRF request is unblinded to the hashes of the items and their label keys.\<close>

lemma dispatched_oprf:
  assumes server: "sv_fourq sv = dl_fourq lib" "sv_threads sv = dl_threads lib" and lib: "library_ok lib" and oprf: "oprf_fits lib rnd items"
    and d: "dp_oprf_key d = db_oprf_key db" and r: "process_items (dl_fourq lib) rnd items = Some r"
  shows "\<exists>resp hashes. dispatch sv d (Op_oprf (create_oprf_request r)) = Some [Response (Re_oprf resp)] \<and>
    extract_hashes (dl_fourq lib) (Some resp) r = Inr hashes \<and> map fst hashes = map (hash_of lib db) items"
proof -
  obtain resp where resp: "run_oprf (dl_fourq lib) (dl_threads lib) (Some (create_oprf_request r)) (db_oprf_key db) = Inr (Some resp)"
    "extract_hashes (dl_fourq lib) (Some resp) r = Inr (map (\<lambda>v. get_item_hash (dl_fourq lib) v (db_oprf_key db)) items)"
    using oprf_exchange [OF lib oprf r] by blast
  show ?thesis
  proof (intro exI conjI)
    show "dispatch sv d (Op_oprf (create_oprf_request r)) = Some [Response (Re_oprf resp)]"
      using resp(1) server d by (simp add: dispatch_oprf_def)
  qed (rule resp(2), simp add: hash_of_def o_def)
qed

text \<open>
  The answer to a query, with the parts in the order of the race and as the channel delivers them, is processed
  to the match records of the stored hashes.
\<close>

lemma received_answers: "list_all2 (answers v x B) bs rps \<Longrightarrow> list_all2 (answers v x B) bs (map (received_result sc) rps)"
  by (auto simp: list_all2_conv_all_nth answers_def received_result_def)

lemma dispatched_query:
  assumes fits: "session_fits (sv_seal sv) v lib pp ku cl (sv_io sv) (sv_orders sv)"
    and race: "\<And>parts. mset (sv_race sv (Inr parts)) = mset parts"
    and db: "db_reachable (sv_seal sv) lib pp db" "card (db_hashed_items db) * tp_hash_func_count (pp_table_params pp) < 2 ^ 32"
    and d: "dp_sender_db d = db" and rc: "make_receiver cl pp = Some (Inr rc)" and hs: "\<forall>h \<in> set hs. item_wf h"
    and cuckoo: "cuckoo_fits ku pp hs" and apart: "tell_apart pp (db_hashed_items db) hs"
  shows "\<exists>req itt. create_query ku cl rc hs = Inr (req, itt) \<and>
    (\<forall>req'. same_query (sv_io sv) (se_using_keyswitching (sv_seal sv)) req req' \<longrightarrow>
      (\<exists>parts sorted mrs. dispatch sv d (Op_query req') = Some (Response (Re_query (length parts)) # map Part parts) \<and>
        mset (map (received_result (sv_codec sv)) parts) = mset sorted \<and>
        process_result cl (dl_xof lib) (dl_undefined_shift lib) (rc_params rc) keys itt (map Some sorted) = Inr mrs \<and> length mrs = length hs \<and>
        (\<forall>i < length hs. mr_found (mrs ! i) \<longleftrightarrow> last_index hs i \<and> hs ! i \<in> db_hashed_items db)))"
proof -
  let ?rec = "received_result (sv_codec sv)" and ?ks = "se_using_keyswitching (sv_seal sv)"
  have lib: "library_ok lib" and pp: "params_fit (sv_seal sv) v pp" "powers_fit pp" using fits by (simp_all add: session_fits_def)
  have ok: "db_params db = pp" "db_ok (sv_seal sv) v lib db" using reachable_ok [OF db(1) lib pp(1)] by simp_all
  have rcp: "rc_params rc = pp" using make_receiver_is_ok [OF pp(2) rc] by (simp add: receiver_ok_def)
  obtain t req itt where req: "create_query ku cl rc hs = Inr (req, itt)" "places_ok ku lib pp t hs" "itt_ok ku t hs itt"
    and run: "\<forall>req'. same_query (sv_io sv) ?ks req req' \<longrightarrow>
      (\<exists>q partss. make_query (sv_io sv) ?ks (Some req') (Some pp) = Some (Inr q) \<and>
        run_query (sv_seal sv) db q (sv_orders sv (qu_pd q)) = (Some (length (concat partss)), Inr (concat partss)) \<and>
        length partss = length (db_bin_bundles db) \<and>
        (\<forall>B < length partss. list_all2 (answers v (query_value pp (ku_table ku t)) B) (db_bin_bundles db ! B) (partss ! B)))"
    using session_run [OF fits ok(2,1) reachable_small [OF db(1) lib pp(1) db(2)] rc hs cuckoo] by (elim exE conjE) (rule that)
  have "\<exists>parts sorted mrs. dispatch sv d (Op_query req') = Some (Response (Re_query (length parts)) # map Part parts) \<and>
        mset (map ?rec parts) = mset sorted \<and>
        process_result cl (dl_xof lib) (dl_undefined_shift lib) (rc_params rc) keys itt (map Some sorted) = Inr mrs \<and> length mrs = length hs \<and>
        (\<forall>i < length hs. mr_found (mrs ! i) \<longleftrightarrow> last_index hs i \<and> hs ! i \<in> db_hashed_items db)"
    if same: "same_query (sv_io sv) ?ks req req'" for req'
  proof -
    obtain q partss where q: "make_query (sv_io sv) ?ks (Some req') (Some pp) = Some (Inr q)"
      and ps: "run_query (sv_seal sv) db q (sv_orders sv (qu_pd q)) = (Some (length (concat partss)), Inr (concat partss))"
        "length partss = length (db_bin_bundles db)"
        "\<forall>B < length partss. list_all2 (answers v (query_value pp (ku_table ku t)) B) (db_bin_bundles db ! B) (partss ! B)"
      using run same by blast
    let ?parts = "sv_race sv (Inr (concat partss))" and ?sorted = "concat (map (map ?rec) partss)"
    let ?r = "process_result cl (dl_xof lib) (dl_undefined_shift lib) pp keys itt (map Some ?sorted)"
    have len: "length ?parts = length (concat partss)" using race by (rule mset_eq_length)
    have dispatched: "dispatch sv d (Op_query req') = Some (Response (Re_query (length ?parts)) # map Part ?parts)"
      unfolding len using q ps(1) by (simp add: dispatch_query_def d ok(1))
    have sorted: "?sorted = map ?rec (concat partss)" by (simp add: map_concat)
    have "mset (map ?rec ?parts) = mset ?sorted" unfolding sorted by (simp add: race)
    moreover have "session_result pp db (place ku t) hs ?r"
    proof (rule process_answers [OF fits ok(2,1) hs req(2,3)])
      show "length (map (map ?rec) partss) = length (db_bin_bundles db)" using ps(2) by simp
      show "\<forall>B < length (map (map ?rec) partss). list_all2 (answers v (query_value pp (ku_table ku t)) B)
          (db_bin_bundles db ! B) (map (map ?rec) partss ! B)" using ps(3) by (simp add: received_answers)
    qed
    from outcome_exact [OF result_outcome [OF lib pp(1) ok(2,1) req(2) hs this] apart] obtain mrs where
      "?r = Inr mrs" "length mrs = length hs" "\<forall>i < length hs. mr_found (mrs ! i) \<longleftrightarrow> last_index hs i \<and> hs ! i \<in> db_hashed_items db" by blast
    ultimately show ?thesis using dispatched rcp by (intro exI [of _ ?parts] exI [of _ ?sorted] exI [of _ mrs]) simp
  qed
  then show ?thesis using req(1) by blast
qed

subsection \<open>A concrete server\<close>

text \<open>Ciphertexts in the clear, with their slots as bytes; loading never throws.\<close>

definition toy_load :: "byte list \<Rightarrow> clear_ciphertext" where
  "toy_load bs = \<lparr>cc_valid = True, cc_ntt = False, cc_level = 1, cc_size = 2, cc_slots = (\<lambda>i. if i < length bs then unat (bs ! i) mod 13 else 0)\<rparr>"

definition toy_codec :: "(clear_ciphertext, clear_ciphertext, unit) seal_codec" where
  "toy_codec = \<lparr>sc_save_request = (\<lambda>m c. map (\<lambda>i. word_of_nat (cc_slots c i)) [0..<54]), sc_load_request = (\<lambda>bs. Inr (toy_load bs)),
     sc_save_keys = (\<lambda>m k. []), sc_load_keys = Inr \<circ> (\<lambda>bs. ()), sc_no_keys = (),
     sc_save_result = (\<lambda>m c. map (\<lambda>i. word_of_nat (cc_slots c i)) [0..<54]), sc_load_result = (\<lambda>bs. Inr (toy_load bs)),
     sc_save_params = sc_save_params plain_codec, sc_load_params = sc_load_params plain_codec,
     sc_supported_mode = (\<lambda>m. m < 3), sc_mode_default = 2\<rparr>"

definition toy_race :: "clear_ciphertext result_package list res \<Rightarrow> clear_ciphertext result_package list" where
  "toy_race parts = (case parts of Inl e \<Rightarrow> [] | Inr ps \<Rightarrow> rev ps)"

abbreviation toy_server where
  "toy_server \<equiv> \<lparr>sv_buffers = plain_buffers, sv_codec = toy_codec, sv_fourq = dl_fourq toy_library, sv_threads = dl_threads toy_library,
     sv_io = toy_io, sv_seal = clear_seal 13 54 1, sv_orders = toy_orders, sv_race = toy_race\<rparr>"

definition toy_channel :: "zmq_message list \<Rightarrow> zmq_channel" where
  "toy_channel msgs = fst (zmq_attach True ''tcp://*:1212'' zmq_open)\<lparr>zc_inbox := msgs\<rparr>"

lemma toy_channel_simps [simp]: "is_connected (toy_channel msgs)" "zc_inbox (toy_channel msgs) = msgs"
  by (simp_all add: toy_channel_def zmq_attach_def zmq_open_def throw_if_connected_def is_connected_def get_socket_def)

lemma toy_dispatcher:
  "\<exists>db d. db_stores (clear_seal 13 54 1) toy_library toy_params {[5]} db \<and> make_dispatcher (Some db) = Inr d \<and>
    (\<forall>n < 17. hash_of toy_library db [of_nat n] = of_nat (3 * n mod 17) # replicate 15 0) \<and> server_fits toy_server d"
proof -
  obtain db where db: "db_stores (clear_seal 13 54 1) toy_library toy_params {[5]} db"
    "\<forall>n < 17. hash_of toy_library db [of_nat n] = of_nat (3 * n mod 17) # replicate 15 0" using toy_stored by blast
  have ok: "db_params db = toy_params" "\<not> db_stripped db"
    using stores_ok [OF db(1) toy_library_ok toy_params_fit] reachable_ok [OF _ toy_library_ok toy_params_fit] by (auto simp: db_ok_def)
  have "powers_fit toy_params" using toy_session_fits by (simp add: session_fits_def)
  moreover have "codec_throws toy_codec" by (simp add: codec_throws_def toy_codec_def)
  ultimately show ?thesis using db ok
    by (intro exI [of _ db] exI [of _ "\<lparr>dp_sender_db = db, dp_oprf_key = db_oprf_key db\<rparr>"])
      (simp add: make_dispatcher_def get_oprf_key_def server_fits_def)
qed

subsection \<open>Properties\<close>

text \<open>
  C3. The dispatcher serves its clients the exact intersection. The response to a client's OPRF request gives the hashes
  of its items; the query for these hashes, or any request with the same ciphertexts that arrives, is answered with
  the number of parts and the parts; and the client, which receives these parts in any order and processes them with any
  number of threads under any schedule, finds exactly the items that the database stores.
\<close>
theorem dispatcher_serves_intersection:
  assumes "session_fits (sv_seal sv) v lib pp ku cl (sv_io sv) (sv_orders sv)" and "sv_fourq sv = dl_fourq lib"
    and "sv_threads sv = dl_threads lib" and "\<forall>parts. mset (sv_race sv (Inr parts)) = mset parts" and "oprf_fits lib rnd items"
    and "db_stores (sv_seal sv) lib pp V db" and "card V * tp_hash_func_count (pp_table_params pp) < 2 ^ 32"
    and "make_dispatcher (Some db) = Inr d" and "make_receiver cl pp = Some (Inr rc)" and "process_items (dl_fourq lib) rnd items = Some r"
    and "hashes_inserted ku pp (map (hash_of lib db) items) = Inr t" and "inj_on (hash_of lib db) (V \<union> set items)"
    and "tell_apart pp (hash_of lib db ` V) (map (hash_of lib db) items)"
  shows "\<exists>resp hashes req itt. dispatch sv d (Op_oprf (create_oprf_request r)) = Some [Response (Re_oprf resp)] \<and>
    extract_hashes (dl_fourq lib) (Some resp) r = Inr hashes \<and> create_query ku cl rc (map fst hashes) = Inr (req, itt) \<and>
    (\<forall>req'. same_query (sv_io sv) (se_using_keyswitching (sv_seal sv)) req req' \<longrightarrow>
      (\<exists>parts. dispatch sv d (Op_query req') = Some (Response (Re_query (length parts)) # map Part parts) \<and>
        (\<forall>ch threads ks. mset ch = mset (map (received_result (sv_codec sv)) parts) \<and> 0 < threads \<and> set ks \<subseteq> {..<min threads (length parts)} \<longrightarrow>
          (case request_query ku cl (dl_xof lib) (dl_undefined_shift lib) rc threads (\<lambda>_. (length parts, map Some ch)) ks (map fst hashes) (map snd hashes) of
             None \<Rightarrow> \<exists>k < min threads (length parts). count_list ks k < worker_bound threads (length parts) (itt_item_count itt) (length parts)
           | Some res \<Rightarrow> \<exists>mrs. res = Inr mrs \<and> length mrs = length items \<and>
               (\<forall>i < length items. mr_found (mrs ! i) \<longleftrightarrow> items ! i \<in> V \<and> last_index items i)))))"
proof -
  let ?hs = "map (hash_of lib db) items" and ?rec = "received_result (sv_codec sv)"
  have lib: "library_ok lib" and pp: "params_fit (sv_seal sv) v pp" using assms(1) by (simp_all add: session_fits_def)
  have reach: "db_reachable (sv_seal sv) lib pp db" "db_hashed_items db = hash_of lib db ` V" "finite V"
    using stores_ok [OF assms(6) lib pp] by simp_all
  have small: "card (db_hashed_items db) * tp_hash_func_count (pp_table_params pp) < 2 ^ 32"
    using mult_le_mono1 [OF card_image_le [OF reach(3), of "hash_of lib db"]] assms(7) unfolding reach(2) by (rule le_less_trans)
  have d: "dp_sender_db d = db" "dp_oprf_key d = db_oprf_key db"
    using assms(8) by (auto simp: make_dispatcher_def get_oprf_key_def split: if_splits)
  obtain resp hashes where oprf: "dispatch sv d (Op_oprf (create_oprf_request r)) = Some [Response (Re_oprf resp)]"
    "extract_hashes (dl_fourq lib) (Some resp) r = Inr hashes" "map fst hashes = ?hs"
    using dispatched_oprf [OF assms(2,3) lib assms(5) d(2) assms(10)] by (elim exE conjE) (rule that)
  have wf: "\<forall>h \<in> set ?hs. item_wf h" by (simp add: hash_wf [OF lib])
  have cuckoo: "cuckoo_fits ku pp ?hs" using assms(11) by (simp add: cuckoo_fits_def hashes_inserted_def)
  have race: "\<And>parts. mset (sv_race sv (Inr parts)) = mset parts" using assms(4) by blast
  obtain req itt where req: "create_query ku cl rc ?hs = Inr (req, itt)"
    and answer: "\<forall>req'. same_query (sv_io sv) (se_using_keyswitching (sv_seal sv)) req req' \<longrightarrow>
      (\<exists>parts sorted mrs. dispatch sv d (Op_query req') = Some (Response (Re_query (length parts)) # map Part parts) \<and>
        mset (map ?rec parts) = mset sorted \<and>
        process_result cl (dl_xof lib) (dl_undefined_shift lib) (rc_params rc) (map snd hashes) itt (map Some sorted) = Inr mrs \<and> length mrs = length ?hs \<and>
        (\<forall>i < length ?hs. mr_found (mrs ! i) \<longleftrightarrow> last_index ?hs i \<and> ?hs ! i \<in> db_hashed_items db))"
    using dispatched_query [OF assms(1) race reach(1) small d(1) assms(9) wf cuckoo assms(13) [folded reach(2)], of "map snd hashes"]
    by (elim exE conjE) (rule that)
  have "\<exists>parts. dispatch sv d (Op_query req') = Some (Response (Re_query (length parts)) # map Part parts) \<and>
        (\<forall>ch threads ks. mset ch = mset (map ?rec parts) \<and> 0 < threads \<and> set ks \<subseteq> {..<min threads (length parts)} \<longrightarrow>
          (case request_query ku cl (dl_xof lib) (dl_undefined_shift lib) rc threads (\<lambda>_. (length parts, map Some ch)) ks (map fst hashes) (map snd hashes) of
             None \<Rightarrow> \<exists>k < min threads (length parts). count_list ks k < worker_bound threads (length parts) (itt_item_count itt) (length parts)
           | Some res \<Rightarrow> \<exists>mrs. res = Inr mrs \<and> length mrs = length items \<and>
               (\<forall>i < length items. mr_found (mrs ! i) \<longleftrightarrow> items ! i \<in> V \<and> last_index items i)))"
    if same: "same_query (sv_io sv) (se_using_keyswitching (sv_seal sv)) req req'" for req'
  proof -
    obtain parts sorted mrs where p: "dispatch sv d (Op_query req') = Some (Response (Re_query (length parts)) # map Part parts)"
      "mset (map ?rec parts) = mset sorted"
      "process_result cl (dl_xof lib) (dl_undefined_shift lib) (rc_params rc) (map snd hashes) itt (map Some sorted) = Inr mrs" "length mrs = length ?hs"
      "\<forall>i < length ?hs. mr_found (mrs ! i) \<longleftrightarrow> last_index ?hs i \<and> ?hs ! i \<in> db_hashed_items db"
      using answer same by blast
    have found: "length mrs = length items \<and> (\<forall>i < length items. mr_found (mrs ! i) \<longleftrightarrow> items ! i \<in> V \<and> last_index items i)"
      using p(4) found_items [OF assms(12) p(5) [unfolded reach(2)]] by simp
    have n: "length parts = length sorted" using mset_eq_length [OF p(2)] by simp
    have valid: "valid_parts (map Some xs) = xs" for xs :: "'b result_package list" by (induction xs) simp_all
    have each: "case request_query ku cl (dl_xof lib) (dl_undefined_shift lib) rc threads (\<lambda>_. (length parts, map Some ch)) ks (map fst hashes) (map snd hashes) of
        None \<Rightarrow> \<exists>k < min threads (length parts). count_list ks k < worker_bound threads (length parts) (itt_item_count itt) (length parts)
      | Some res \<Rightarrow> res = Inr mrs"
      if c: "mset ch = mset (map ?rec parts)" "0 < threads" "set ks \<subseteq> {..<min threads (length parts)}" for ch threads ks
    proof -
      have ch: "mset (valid_parts (map Some ch)) = mset sorted" "length (map Some ch) = length sorted"
        using c(1) p(2) mset_eq_length [OF c(1)] n by (simp_all add: valid)
      have ks: "set ks \<subseteq> {..<min threads (length sorted)}" using c(3) by (simp add: n)
      show ?thesis
        using request_query_ok [where respond = "\<lambda>_. (length sorted, map Some ch)" and parts = sorted and ch = "map Some ch" and mrs = mrs,
            OF req refl ch(1) p(3) c(2) ks]
        unfolding n oprf(3) ch(2) .
    qed
    show ?thesis
    proof (intro exI [of _ parts] conjI p(1) allI impI)
      fix ch threads ks assume c: "mset ch = mset (map ?rec parts) \<and> 0 < threads \<and> set ks \<subseteq> {..<min threads (length parts)}"
      let ?q = "request_query ku cl (dl_xof lib) (dl_undefined_shift lib) rc threads (\<lambda>_. (length parts, map Some ch)) ks (map fst hashes) (map snd hashes)"
      have "case ?q of None \<Rightarrow> \<exists>k < min threads (length parts). count_list ks k < worker_bound threads (length parts) (itt_item_count itt) (length parts)
        | Some res \<Rightarrow> res = Inr mrs" using c by (intro each) simp_all
      then show "case ?q of
             None \<Rightarrow> \<exists>k < min threads (length parts). count_list ks k < worker_bound threads (length parts) (itt_item_count itt) (length parts)
           | Some res \<Rightarrow> \<exists>mrs. res = Inr mrs \<and> length mrs = length items \<and>
               (\<forall>i < length items. mr_found (mrs ! i) \<longleftrightarrow> items ! i \<in> V \<and> last_index items i)"
        using found by (cases ?q) simp_all
    qed
  qed
  then show ?thesis using oprf req by (intro exI [of _ resp] exI [of _ hashes] exI [of _ req] exI [of _ itt]) simp
qed

theorem dispatcher_serves_intersection_witness:
  "\<exists>db d rc r resp hashes req itt parts ks mrs. db_stores (clear_seal 13 54 1) toy_library toy_params {[5]} db \<and> make_dispatcher (Some db) = Inr d \<and>
    make_receiver toy_client toy_params = Some (Inr rc) \<and> process_items (dl_fourq toy_library) (\<lambda>_. toy_key) [[0], [5]] = Some r \<and>
    dispatch toy_server d (Op_oprf (create_oprf_request r)) = Some [Response (Re_oprf resp)] \<and>
    extract_hashes (dl_fourq toy_library) (Some resp) r = Inr hashes \<and>
    create_query (first_fit toy_library toy_params) toy_client rc (map fst hashes) = Inr (req, itt) \<and>
    dispatch toy_server d (Op_query req) = Some (Response (Re_query (length parts)) # map Part parts) \<and>
    request_query (first_fit toy_library toy_params) toy_client (dl_xof toy_library) (dl_undefined_shift toy_library) rc 2
      (\<lambda>_. (length parts, map (\<lambda>rp. Some (received_result toy_codec rp)) parts)) ks (map fst hashes) (map snd hashes) = Some (Inr mrs) \<and>
    \<not> mr_found (mrs ! 0) \<and> mr_found (mrs ! 1)"
proof -
  let ?ku = "first_fit toy_library toy_params" and ?fq = "dl_fourq toy_library"
  obtain db d where db: "db_stores (clear_seal 13 54 1) toy_library toy_params {[5]} db" "make_dispatcher (Some db) = Inr d"
    "\<forall>n < 17. hash_of toy_library db [of_nat n] = of_nat (3 * n mod 17) # replicate 15 0" using toy_dispatcher by blast
  note two = toy_two_hashes [OF db(3)]
  obtain t where t: "hashes_inserted ?ku toy_params (map (hash_of toy_library db) [[0], [5]]) = Inr t" using two(3) by blast
  have "powers_fit toy_params" using toy_session_fits by (simp add: session_fits_def)
  then obtain rc where rc: "make_receiver toy_client toy_params = Some (Inr rc)" using make_receiver_ok by blast
  obtain r where r: "process_items ?fq (\<lambda>_. toy_key) [[0], [5]] = Some r" using toy_items [of "[[0], [5]]"] by (auto simp: toy_library_def)
  have small: "card {[5 :: byte]} * tp_hash_func_count (pp_table_params toy_params) < 2 ^ 32" by (simp add: toy_params_def)
  have fits: "session_fits (sv_seal toy_server) (clear_view 54 1) toy_library toy_params ?ku toy_client (sv_io toy_server) (sv_orders toy_server)"
    using toy_session_fits by simp
  have server: "sv_fourq toy_server = ?fq" "sv_threads toy_server = dl_threads toy_library"
    "\<forall>parts. mset (sv_race toy_server (Inr parts)) = mset parts" by (simp_all add: toy_race_def)
  have db': "db_stores (sv_seal toy_server) toy_library toy_params {[5]} db" using db(1) by simp
  obtain resp hashes req itt where o: "dispatch toy_server d (Op_oprf (create_oprf_request r)) = Some [Response (Re_oprf resp)]"
    "extract_hashes ?fq (Some resp) r = Inr hashes" "create_query ?ku toy_client rc (map fst hashes) = Inr (req, itt)"
    and answer: "\<forall>req'. same_query (sv_io toy_server) (se_using_keyswitching (sv_seal toy_server)) req req' \<longrightarrow>
      (\<exists>parts. dispatch toy_server d (Op_query req') = Some (Response (Re_query (length parts)) # map Part parts) \<and>
        (\<forall>ch threads ks. mset ch = mset (map (received_result (sv_codec toy_server)) parts) \<and> 0 < threads \<and> set ks \<subseteq> {..<min threads (length parts)} \<longrightarrow>
          (case request_query ?ku toy_client (dl_xof toy_library) (dl_undefined_shift toy_library) rc threads (\<lambda>_. (length parts, map Some ch)) ks
              (map fst hashes) (map snd hashes) of
             None \<Rightarrow> \<exists>k < min threads (length parts). count_list ks k < worker_bound threads (length parts) (itt_item_count itt) (length parts)
           | Some res \<Rightarrow> \<exists>mrs. res = Inr mrs \<and> length mrs = length [[0], [5 :: byte]] \<and>
               (\<forall>i < length [[0], [5 :: byte]]. mr_found (mrs ! i) \<longleftrightarrow> [[0], [5]] ! i \<in> {[5 :: byte]} \<and> last_index [[0], [5]] i))))"
    using dispatcher_serves_intersection [OF fits server toy_oprf_fits db' small db(2) rc r t two(4,5)] by (elim exE conjE) (rule that)
  obtain parts where parts: "dispatch toy_server d (Op_query req) = Some (Response (Re_query (length parts)) # map Part parts)"
    and run: "\<And>ch threads ks. mset ch = mset (map (received_result toy_codec) parts) \<Longrightarrow> 0 < threads \<Longrightarrow> set ks \<subseteq> {..<min threads (length parts)} \<Longrightarrow>
          (case request_query ?ku toy_client (dl_xof toy_library) (dl_undefined_shift toy_library) rc threads (\<lambda>_. (length parts, map Some ch)) ks
              (map fst hashes) (map snd hashes) of
             None \<Rightarrow> \<exists>k < min threads (length parts). count_list ks k < worker_bound threads (length parts) (itt_item_count itt) (length parts)
           | Some res \<Rightarrow> \<exists>mrs. res = Inr mrs \<and> length mrs = length [[0], [5 :: byte]] \<and>
               (\<forall>i < length [[0], [5 :: byte]]. mr_found (mrs ! i) \<longleftrightarrow> [[0], [5]] ! i \<in> {[5 :: byte]} \<and> last_index [[0], [5]] i))"
    using answer same_query_refl by force
  let ?n = "min 2 (length parts)"
  let ?ks = "concat (replicate (worker_bound 2 (length parts) (itt_item_count itt) (length parts)) [0..<?n])"
  let ?q = "request_query ?ku toy_client (dl_xof toy_library) (dl_undefined_shift toy_library) rc 2
      (\<lambda>_. (length parts, map Some (map (received_result toy_codec) parts))) ?ks (map fst hashes) (map snd hashes)"
  have enough: "\<not> (\<exists>k < ?n. count_list ?ks k < worker_bound 2 (length parts) (itt_item_count itt) (length parts))"
    using count_rounds [of _ ?n] by (metis less_irrefl)
  have "set ?ks \<subseteq> {..<?n}" by auto
  note outcome = run [OF refl zero_less_numeral this]
  obtain mrs where mrs: "?q = Some (Inr mrs)"
    "\<forall>i < length [[0], [5 :: byte]]. mr_found (mrs ! i) \<longleftrightarrow> [[0], [5]] ! i \<in> {[5 :: byte]} \<and> last_index [[0], [5]] i"
  proof (cases ?q)
    case None
    then have False using outcome enough by (simp only: option.case)
    then show ?thesis ..
  next
    case (Some res)
    then show ?thesis using outcome that by (simp only: option.case) blast
  qed
  have "\<not> mr_found (mrs ! 0) \<and> mr_found (mrs ! 1)" using mrs(2) by (force simp: last_index_def less_Suc_eq)
  moreover have "request_query ?ku toy_client (dl_xof toy_library) (dl_undefined_shift toy_library) rc 2
      (\<lambda>_. (length parts, map (\<lambda>rp. Some (received_result toy_codec rp)) parts)) ?ks (map fst hashes) (map snd hashes) = Some (Inr mrs)"
    using mrs(1) unfolding map_map o_def .
  ultimately show ?thesis using db(1,2) rc r o parts by (elim conjE) (intro exI conjI; assumption)
qed



text \<open>
  C15. A single message with the wrong number of frames ends the dispatcher, whoever sent it. The messages before it are
  worked through; then the loop ends with an exception, and the messages behind it are never received.
\<close>
theorem malformed_message_stops:
  assumes "server_fits sv d" and "is_connected chl" and "zc_inbox chl = msgs @ bad # rest"
    and "\<forall>msg \<in> set msgs. length msg = 3" and "length bad \<noteq> 3" and "length msgs < n"
  shows "\<exists>out. dispatcher_run sv d n chl = Some (out, Inl (Runtime_error ''invalid message received'')) \<and> zc_inbox out = rest"
proof -
  obtain wss where wss: "list_all2 (replies_with sv d) msgs wss" using all_replies [OF assms(1,4)] by blast
  obtain out where out: "\<forall>n. dispatcher_run sv d (length msgs + n) chl = dispatcher_run sv d n out" "is_connected out" "zc_inbox out = bad # rest"
    using run_replies [OF wss assms(2,3)] by blast
  obtain k where k: "n = length msgs + Suc k" using assms(6) less_imp_Suc_add by auto
  have bad: "(case bad of [client_id, header, body] \<Rightarrow> f client_id header body | _ \<Rightarrow> r) = r" for f r
    using assms(5) by (auto split: list.splits)
  have "dispatcher_round sv d out = Some (out\<lparr>zc_inbox := rest\<rparr>, Inl (Runtime_error ''invalid message received''))"
    using out(2,3) by (simp add: dispatcher_round_def receive_network_operation_def throw_if_not_connected_def receive_message_def bad)
  then show ?thesis unfolding k out(1) [rule_format] by simp
qed

theorem malformed_message_stops_witness:
  "\<exists>db d out. make_dispatcher (Some db) = Inr d \<and>
    dispatcher_run toy_server d 10 (toy_channel [[[2], [7], []], [[3], []], [[1], save_header plain_buffers (header_of sop_parms), []]]) =
      Some (out, Inl (Runtime_error ''invalid message received'')) \<and>
    zc_inbox out = [[[1], save_header plain_buffers (header_of sop_parms), []]]"
proof -
  obtain db d where d: "make_dispatcher (Some db) = Inr d" "server_fits toy_server d" using toy_dispatcher by blast
  let ?rest = "[[[1], save_header plain_buffers (header_of sop_parms), []]]"
  have "\<exists>out. dispatcher_run toy_server d 10 (toy_channel ([[[2], [7], []]] @ [[3], []] # ?rest)) = Some (out, Inl (Runtime_error ''invalid message received'')) \<and>
      zc_inbox out = ?rest"
  proof (rule malformed_message_stops [OF d(2) toy_channel_simps])
    show "\<forall>msg \<in> set [[[2], [7], []]]. length (msg :: zmq_message) = 3" "length ([[3], []] :: zmq_message) \<noteq> 3"
      "length ([[[2], [7], []]] :: zmq_message list) < 10" by simp_all
  qed
  then show ?thesis using d(1) by auto
qed

end
