(* ===== verification/Spec2Isabelle.thy ===== *)
theory Spec2Isabelle
  imports Items Utils Powers PowersPar BundleCache PlaintextPowers SenderQuerySpec LabelDelivery SenderDbPacking DispatcherSpec
begin

text \<open>
  A verification development for APSI, asymmetric private set intersection. A receiver learns which of
  its items a sender holds, and the labels the sender keeps for them, and nothing else.

  \<^bold>\<open>The program.\<close> Items are blinded, raised to the sender's key and hashed by an oblivious pseudo-random
  function (\<open>common/apsi/oprf\<close>). The sender cuts every item hash into field elements and stores them, at
  each of the cuckoo table locations of the item, in consecutive bins of a bin bundle
  (\<open>sender/apsi/sender_db.cpp\<close>, \<open>bin_bundle.cpp\<close>); a bundle keeps one cuckoo filter for each bin and a cache
  of polynomials that vanish at the elements of a bin or interpolate the label parts
  (\<open>common/apsi/util/interpolate.cpp\<close>). The receiver sends encrypted powers of the field elements of its
  items (\<open>receiver/apsi/plaintext_powers.cpp\<close>); which powers it sends and how the sender multiplies up
  the others is planned by \<open>PowersDag\<close> (\<open>common/apsi/powers.cpp\<close>). The sender evaluates the polynomials of
  every bundle at the encrypted powers, plainly or by the Paterson-Stockmeyer method, and a zero in all bins of
  an item is a match.

  \<^bold>\<open>The theories.\<close>
  \<^item> \<open>Prelude\<close>: results with errors as values, fixed-width arithmetic on naturals, spans, bytes, ordered sets.
  \<^item> \<open>Bits\<close>, \<open>Items\<close>: \<open>common/apsi/util/db_encoding.cpp\<close> and \<open>common/apsi/item.h\<close>; bit copies at their byte
    level, conversion between bit strings and field elements, and the round trips of items and labels.
  \<^item> \<open>Utils\<close>: \<open>common/apsi/util/utils.cpp\<close>; chunked stream reads, partitions, powers of two, query powers.
  \<^item> \<open>Powers\<close>, \<open>PowersPar\<close>: \<open>common/apsi/powers.h\<close> and \<open>powers.cpp\<close>; the plan with its optimal depths, and
    \<open>parallel_apply\<close> as a step relation of workers over an array of atomic node states, with safety, completeness
    and the possibility to finish.
  \<^item> \<open>CuckooTable\<close>, \<open>CuckooFilter\<close>: \<open>sender/apsi/util/cuckoo_filter_table.cpp\<close> and \<open>cuckoo_filter.cpp\<close>; the packed
    tag table is an array, and the filter a multiset of entries, so that it has no false negatives.
  \<^item> \<open>ModArith\<close>, \<open>Interpolate\<close>, \<open>PlaintextPowers\<close>: SEAL's modular arithmetic as a parameter with its laws,
    interpolation in Newton form, and the powers of a query with their encryption.
  \<^item> \<open>Seal\<close>, \<open>SealLaws\<close>: the homomorphic encryption library as a record of functions, what is relied on of
    it, and an instance without encryption that satisfies the laws.
  \<^item> \<open>BinBundle\<close>, \<open>BundleRefine\<close>, \<open>BundleSpec\<close>: \<open>sender/apsi/bin_bundle.cpp\<close>; the operations on a bundle, their
    effect as passes over bins, and their refinement of maps from bins to rows of items and labels.
  \<^item> \<open>Evaluation\<close>, \<open>BundleCache\<close>: batched polynomials, their plain and Paterson-Stockmeyer evaluation on
    ciphertexts with levels and forms, the regeneration of caches, and what a result decrypts to.
  \<^item> \<open>PsiParams\<close>: validation and derived counts of \<open>common/apsi/psi_params.cpp\<close>.
  \<^item> \<open>LabelEncryptor\<close>, \<open>Oprf\<close>, \<open>OprfSpec\<close>: \<open>common/apsi/util/label_encryptor.cpp\<close> and \<open>common/apsi/oprf\<close>; label
    encryption, blinding and unblinding, and the tasks that hash the sender's items.
  \<^item> \<open>SenderDb\<close>: \<open>sender/apsi/sender_db.cpp\<close>, workers, dispatchers and the operations of the database.
  \<^item> \<open>SenderDbSpec\<close>, \<open>SenderDbTasks\<close>, \<open>SenderDbInsert\<close>, \<open>SenderDbInvariant\<close>, \<open>SenderDbReach\<close>, \<open>SenderDbPacking\<close>:
    the geometry of the table; the interleavings of worker tasks; insertion as a contract of the two types of data; the
    invariant that ties the bundles to the set of hashed items; histories, the answers to encrypted queries, and how
    full the bundles are before the workers open another one.

  \<^item> \<open>SenderQuery\<close>, \<open>SenderQuerySpec\<close>, \<open>QueryRequest\<close>, \<open>SenderRun\<close>: \<open>sender/apsi/query.cpp\<close> and \<open>sender.cpp\<close>; the checks of a
    query, the powers that the sender multiplies up, and the result of every bundle.
  \<^item> \<open>Receiver\<close>, \<open>ReceiverQuery\<close>, \<open>ReceiverResult\<close>: \<open>receiver/apsi/receiver.cpp\<close>; the cuckoo table and the encrypted powers of a
    query, and the match records of the result parts. \<open>LabelDelivery\<close> follows a label from the sender to the match record.
  \<^item> \<open>ReceiverWorkers\<close>: \<open>request_query\<close> and \<open>process_result_worker\<close>; the tasks that receive, process and merge the parts, with a
    potential that every action uses up, so that every schedule ends.
  \<^item> \<open>Session\<close>, \<open>Protocol\<close>, \<open>ProtocolSpec\<close>: query, evaluation and processing composed; the oblivious evaluation before them;
    and the guarantees of a whole run for a database with any history.
  \<^item> \<open>Wire\<close>: \<open>sender_operation.cpp\<close>, \<open>sender_operation_response.cpp\<close> and \<open>result_package.cpp\<close> of \<open>common/apsi/network\<close>, and saving
    and loading in \<open>psi_params.cpp\<close>; buffers as tables of the schemas, every check of a load, and the round trips.
  \<^item> \<open>Channels\<close>, \<open>ChannelSpec\<close>: \<open>stream_channel.cpp\<close> and \<open>zmq/zmq_channel.cpp\<close>; the bytes or frames of a message, what the
    other end receives, and where a channel fails.
  \<^item> \<open>Dispatcher\<close>, \<open>DispatcherSpec\<close>: \<open>sender/apsi/zmq/sender_dispatcher.cpp\<close>; the loop that answers any client from one
    database, the intersection that a client gets from it, and what clients can do to each other.

  \<^bold>\<open>Interfaces.\<close> Locales state what a client relies on, and are interpreted on the definitions of the
  code: the bucket array under the cuckoo filter, the filter under the bin bundle, the insertion of a datum under
  the workers of the database, the steps that own the set of a bundle index under the dispatchers, and a channel that
  delivers messages in order, which the stream and the ZeroMQ channel are for requests, responses and result parts.

  \<^bold>\<open>Conventions.\<close> A C++ exception is a value \<open>Inl\<close> of the result type; access to spans and vectors is
  checked. Unsigned integers are words, or naturals with the wrap-around written out where it can
  occur. Random choices (evictions of the cuckoo filter, nonces, scalars) are arguments, and the results hold for
  all of them. Loops that may not end are partial functions: \<open>create_powers_set\<close>, \<open>next_power_of_2\<close>'s callers
  and the draw of a nonzero scalar are shown to return. The counter of \<open>switch_to_last\<close> is the number of levels
  above the last one, which bounds the switches; the counter of \<open>add_rounds\<close> is the code's own limit of evictions.

  \<^bold>\<open>Parameters.\<close> Not under \<open>src/\<close>: Microsoft SEAL, Kuku, ZeroMQ, the code that \<open>flatc\<close> generates, the random sources. Under \<open>src/\<close> but vendored: FourQlib and
  blake2. They are arguments of the definitions, with the documented behaviour as named hypotheses
  (\<open>seal_arith\<close>, \<open>seal_laws\<close>, \<open>codec_laws\<close>, \<open>codec_throws\<close>, \<open>flatbuffers_laws\<close>, \<open>compression_law\<close>, \<open>fourq_laws\<close>, \<open>library_ok\<close>, \<open>kuku_laws\<close>, \<open>client_laws\<close>), each shown to be satisfiable on a concrete
  instance by the witnesses.

  \<^bold>\<open>Not modelled.\<close> Saving and loading of a whole database and its bundles, the command line programs, logging and
  stopwatches, parsing of JSON parameters, estimates in floating point, and failures inside ZeroMQ. The reader-writer lock of
  the database and the mutexes of the channels make their operations atomic, so they have no counterpart. The loop of the
  dispatcher runs a given number of rounds in place of its stop flag; the results hold for every number.
\<close>

end
